(* ===== verification/Prelude.thy ===== *)
theory Prelude
  imports Main "HOL-Library.Word" "HOL-Library.Finite_Map"
begin

text \<open>
  The prelude of the development: names for the machine types of the Rust sources, the result
  type of fallible functions, and the generic lemmas on finite maps, options and lists that the
  component theories share.

  A Rust \<open>Result<T, Report>\<close> is \<open>'a result\<close>. An \<open>eyre::Report\<close> is the chain of its context
  messages, outermost first; the parts of a message that are formatted from run-time values are
  dropped. A panic (\<open>expect\<close>, \<open>unwrap\<close>, \<open>assert!\<close>, an index out of bounds) is a value of
  its own, so that "does not panic" is a statement of the model.
\<close>

named_theorems negotiation_simps "defining equations that component proofs unfold together"

unbundle bit_operations_syntax

type_synonym u8 = "8 word"
type_synonym u16 = "16 word"
type_synonym u32 = "32 word"
type_synonym u64 = "64 word"
type_synonym bytes = "u8 list"

section \<open>Results, reports and panics\<close>

datatype failure = Err "string list" | Panic string

type_synonym 'a result = "failure + 'a"

fun wrap_report :: "string \<Rightarrow> failure \<Rightarrow> failure" where
  "wrap_report ctx (Err msgs) = Err (ctx # msgs)"
| "wrap_report ctx (Panic m) = Panic m"

text \<open>\<open>Report::to_string\<close>: the outermost message.\<close>

fun report_string :: "failure \<Rightarrow> string" where
  "report_string (Err (m # _)) = m"
| "report_string (Err []) = ''''"
| "report_string (Panic m) = m"

definition wrap_err :: "string \<Rightarrow> 'a result \<Rightarrow> 'a result" where
  "wrap_err ctx r = (case r of Inl e \<Rightarrow> Inl (wrap_report ctx e) | Inr x \<Rightarrow> Inr x)"

text \<open>\<open>Result::expect\<close> and \<open>unwrap\<close>: an error becomes a panic.\<close>

definition expect :: "string \<Rightarrow> 'a result \<Rightarrow> 'a result" where
  "expect m r = (case r of Inl _ \<Rightarrow> Inl (Panic m) | Inr x \<Rightarrow> Inr x)"

definition res_bind :: "'a result \<Rightarrow> ('a \<Rightarrow> 'b result) \<Rightarrow> 'b result" where
  "res_bind r f = (case r of Inl e \<Rightarrow> Inl e | Inr x \<Rightarrow> f x)"

definition is_ok :: "'a result \<Rightarrow> bool" where
  "is_ok r = (case r of Inl _ \<Rightarrow> False | Inr _ \<Rightarrow> True)"

fun is_panic :: "failure \<Rightarrow> bool" where
  "is_panic (Panic _) = True"
| "is_panic (Err _) = False"

definition panics :: "'a result \<Rightarrow> bool" where
  "panics r = (case r of Inl e \<Rightarrow> is_panic e | Inr _ \<Rightarrow> False)"

abbreviation eyre :: "string \<Rightarrow> 'a result" where
  "eyre m \<equiv> Inl (Err [m])"

lemma wrap_err_simps [simp]:
  "wrap_err ctx (Inr x) = Inr x"
  "wrap_err ctx (Inl e) = Inl (wrap_report ctx e)"
  by (simp_all add: wrap_err_def)

lemma wrap_err_Inr_iff [simp]: "wrap_err ctx r = Inr x \<longleftrightarrow> r = Inr x"
  by (cases r) auto

lemma expect_simps [simp]:
  "expect m (Inr x) = Inr x"
  "expect m (Inl e) = Inl (Panic m)"
  by (simp_all add: expect_def)

lemma expect_Inr_iff [simp]: "expect m r = Inr x \<longleftrightarrow> r = Inr x"
  by (cases r) auto

lemma panics_expect [simp]: "panics (expect m r) \<longleftrightarrow> \<not> is_ok r"
  by (cases r) (auto simp: is_ok_def panics_def)

lemma res_bind_simps [simp]:
  "res_bind (Inr x) f = f x"
  "res_bind (Inl e) f = Inl e"
  by (simp_all add: res_bind_def)

lemma res_bind_Inr_iff: "res_bind r f = Inr y \<longleftrightarrow> (\<exists>x. r = Inr x \<and> f x = Inr y)"
  by (cases r) auto

lemma Inr_res_bind_iff: "Inr y = res_bind r f \<longleftrightarrow> (\<exists>x. r = Inr x \<and> f x = Inr y)"
  by (cases r) auto

lemma res_bind_assoc [simp]: "res_bind (res_bind r f) g = res_bind r (\<lambda>x. res_bind (f x) g)"
  by (cases r) auto

lemma is_ok_simps [simp]: "is_ok (Inr x)" "\<not> is_ok (Inl e)"
  by (simp_all add: is_ok_def)

lemma is_ok_iff: "is_ok r \<longleftrightarrow> (\<exists>x. r = Inr x)"
  by (cases r) auto

lemma panics_simps [simp]:
  "\<not> panics (Inr x)"
  "panics (Inl e) = is_panic e"
  by (simp_all add: panics_def)

lemma is_panic_wrap_report [simp]: "is_panic (wrap_report ctx e) = is_panic e"
  by (cases e) auto

lemma panics_wrap_err [simp]: "panics (wrap_err ctx r) = panics r"
  by (cases r) auto

lemma is_ok_no_panic: "is_ok r \<Longrightarrow> \<not> panics r"
  by (auto simp: is_ok_iff)

lemma no_panicD: "r = Inl e \<Longrightarrow> \<not> panics r \<Longrightarrow> \<not> is_panic e"
  by simp

lemma panics_res_bind: "panics (res_bind r f) \<longleftrightarrow> panics r \<or> (\<exists>x. r = Inr x \<and> panics (f x))"
  by (cases r) auto

text \<open>The successes of a list of results, as \<open>filter_map(|r| r.ok())\<close> collects them.\<close>

fun oks :: "'a result list \<Rightarrow> 'a list" where
  "oks [] = []"
| "oks (Inl _ # rs) = oks rs"
| "oks (Inr x # rs) = x # oks rs"

lemma set_oks: "x \<in> set (oks rs) \<longleftrightarrow> Inr x \<in> set rs"
  by (induction rs rule: oks.induct) auto

lemma oks_eq_Nil_iff: "oks rs = [] \<longleftrightarrow> list_all (\<lambda>r. \<not> is_ok r) rs"
  by (induction rs rule: oks.induct) auto

lemma oks_append: "oks (a @ b) = oks a @ oks b"
  by (induction a rule: oks.induct) auto

lemma oks_map: "oks (map (\<lambda>x. if P x then Inr x else Inl (e x)) xs) = filter P xs"
  by (induction xs) auto

section \<open>Numbers as strings\<close>

text \<open>\<open>format!("{}", n)\<close> of an unsigned number.\<close>

fun show_nat :: "nat \<Rightarrow> string" where
  "show_nat n = (if n < 10 then [char_of (48 + n)] else show_nat (n div 10) @ [char_of (48 + n mod 10)])"

declare show_nat.simps [simp del]

definition read_nat :: "string \<Rightarrow> nat" where
  "read_nat s = foldl (\<lambda>n c. 10 * n + (of_char c - 48)) 0 s"

lemma of_char_digit: "d < 10 \<Longrightarrow> of_char (char_of (48 + d) :: char) = 48 + (d :: nat)"
  by (simp add: of_char_of)

lemma read_show_nat [simp]: "read_nat (show_nat n) = n"
proof (induction n rule: show_nat.induct)
  case (1 n)
  have "n mod 10 < 10" by simp
  then show ?case using 1 by (cases "n < 10") (simp_all add: show_nat.simps [of n] read_nat_def of_char_digit)
qed

lemma show_nat_inject [simp]: "show_nat m = show_nat n \<longleftrightarrow> m = n"
  by (metis read_show_nat)

text \<open>\<open>str::split\<close> at a character.\<close>

fun split_at :: "char \<Rightarrow> string \<Rightarrow> string list" where
  "split_at sep [] = [[]]"
| "split_at sep (c # s) =
     (if c = sep then [] # split_at sep s
      else (case split_at sep s of p # ps \<Rightarrow> (c # p) # ps | [] \<Rightarrow> [[c]]))"

section \<open>Words and finite maps\<close>

lemma word_xor_eq_0_iff: "a XOR b = 0 \<longleftrightarrow> a = b" for a b :: "'a::len word"
  by (metis xor.assoc xor.right_neutral xor_self_eq xor.commute)

lemma fmpred_weaken: "fmpred P m \<Longrightarrow> (\<And>k v. fmlookup m k = Some v \<Longrightarrow> P k v \<Longrightarrow> Q k v) \<Longrightarrow> fmpred Q m"
  by (simp add: fmpred_iff)

lemma fmap_eqI: "(\<And>k. fmlookup m k = fmlookup n k) \<Longrightarrow> m = n"
  by (rule fmap_ext)

lemma fmdom_lookup: "k |\<in>| fmdom m \<longleftrightarrow> (\<exists>v. fmlookup m k = Some v)"
  by (auto simp: fmlookup_dom_iff)

end
