(* ===== verification/Chunnel_Stack.thy ===== *)
theory Chunnel_Stack
  imports Prelude
begin

text \<open>
  Chunnel stacks (\<open>bertha/src/lib.rs\<close>, \<open>either.rs\<close>, \<open>util.rs\<close> and the types of
  \<open>negotiate/mod.rs\<close>). The generic Rust types that make up a stack are the constructors of one
  datatype: a leaf is a type that implements \<open>Negotiate\<close>, and \<open>CxList\<close>, \<open>Select\<close>,
  \<open>UpgradeSelect\<close> and \<open>Option\<close> combine them. The result of picking or applying a stack is a
  second datatype in which every \<open>Select\<close> has become an \<open>Either\<close>.

  Connecting a resolved stack to a base connection is \<open>connect_wrap\<close>; its theorems say that a
  stack is the composition of its chunnels, in list order, and stops at the first error.
\<close>

section \<open>Either\<close>

datatype ('a, 'b) either = Left 'a | Right 'b

fun flip :: "('a, 'b) either \<Rightarrow> ('b, 'a) either" where
  "flip (Left a) = Right a"
| "flip (Right a) = Left a"

fun is_left :: "('a, 'b) either \<Rightarrow> bool" where
  "is_left (Left _) = True"
| "is_left (Right _) = False"

fun is_right :: "('a, 'b) either \<Rightarrow> bool" where
  "is_right (Left _) = False"
| "is_right (Right _) = True"

type_synonym side = "(unit, unit) either"

lemma flip_flip [simp]: "flip (flip e) = e"
  by (cases e) auto

lemma is_left_flip [simp]: "is_left (flip e) = is_right e"
  by (cases e) auto

lemma flip_eq_iff: "flip a = b \<longleftrightarrow> a = flip b"
  by auto

section \<open>Negotiable chunnels and stacks\<close>

text \<open>
  One type that implements \<open>Negotiate\<close>: its implementation guid, and of its
  \<open>CapabilitySet\<close> the guid, the universe (\<open>None\<close> for a two-sided capability) and the
  capabilities this implementation provides. \<open>'c\<close> is the type of capability values.
\<close>

record 'c negotiate =
  neg_guid :: u64
  cap_guid :: u64
  universe :: "'c list option"
  capabilities :: "'c list"

datatype 'c stack =
    Leaf "'c negotiate"
  | OptStack "'c stack option"
  | CxList "'c stack" "'c stack"
  | Select (sel_left: "'c stack") (sel_right: "'c stack") (sel_prefer: side)
  | UpgradeSelect nat "'c stack" "'c stack" side

text \<open>
  \<open>CxNil\<close> negotiates the unit capability \<open>()\<close>, whose guid is 0 and whose universe is
  \<open>[()]\<close>; the argument is the value of \<open>'c\<close> that stands for \<open>()\<close>.
\<close>

definition cx_nil :: "'c \<Rightarrow> 'c negotiate" where
  "cx_nil u = \<lparr>neg_guid = 0xa1f4d15a09462192, cap_guid = 0, universe = Some [u],
     capabilities = []\<rparr>"

definition cx_list_from :: "'c \<Rightarrow> 'c stack \<Rightarrow> 'c stack" where
  "cx_list_from u t = CxList t (Leaf (cx_nil u))"

definition wrap :: "'c stack \<Rightarrow> 'c stack \<Rightarrow> 'c stack" where
  "wrap self head = CxList head self"

definition cx_list_from_pair :: "'c \<Rightarrow> 'c stack \<times> 'c stack \<Rightarrow> 'c stack" where
  "cx_list_from_pair u t = wrap (cx_list_from u (snd t)) (fst t)"

definition select_from :: "'c stack \<times> 'c stack \<Rightarrow> 'c stack" where
  "select_from f = Select (fst f) (snd f) (Left ())"

fun set_prefer :: "side \<Rightarrow> 'c stack \<Rightarrow> 'c stack" where
  "set_prefer p (Select l r _) = Select l r p"
| "set_prefer p s = s"

definition prefer_left :: "'c stack \<Rightarrow> 'c stack" where
  "prefer_left s = set_prefer (Left ()) s"

definition prefer_right :: "'c stack \<Rightarrow> 'c stack" where
  "prefer_right s = set_prefer (Right ()) s"

section \<open>Offers and nonces\<close>

text \<open>
  \<open>Offer\<close> and \<open>StackNonce\<close>. The map of a nonce is a \<open>HashMap\<close>; nothing in the code depends
  on its iteration order, so it is a finite map.
\<close>

record offer =
  capability_guid :: u64
  impl_guid :: u64
  sidedness :: "bytes list option"
  available :: "bytes list"

type_synonym stack_nonce = "(u64, offer) fmap"

datatype negotiate_msg =
    ClientOffer "stack_nonce list"
  | ServerReply "(string, stack_nonce list) either"
  | ServerNonce (nonce_addr: bytes) (nonce_picked: stack_nonce)
  | ClientNonce stack_nonce
  | ServerNonceAck

section \<open>Resolved stacks\<close>

text \<open>
  What \<open>Pick\<close> and \<open>Apply\<close> produce: the same shape with every \<open>Select\<close> replaced by the
  \<open>Either\<close> of its chosen side. \<open>PUpgrade\<close> is \<open>UpgradeEitherApply\<close>, which keeps both sides and
  the applied nonce for a later switch; its first field names the \<open>UpgradeHandle\<close> it shares
  its channels with.
\<close>

datatype 'c picked =
    PLeaf "'c negotiate"
  | POpt "'c picked option"
  | PCxList "'c picked" "'c picked"
  | PEither "('c picked, 'c picked) either"
  | PUpgrade nat "'c stack" "'c stack" "('c picked, 'c picked) either" stack_nonce

text \<open>
  Connections: a plain connection, the \<open>Either\<close> of two connection types, and an
  \<open>UpgradeEitherConn\<close> with its two stacks, its base connection, the current side and the
  nonce it was applied with.
\<close>

datatype ('c, 'k) conn =
    Conn 'k
  | EitherConn "(('c, 'k) conn, ('c, 'k) conn) either"
  | UpgradeConn nat "'c stack" "'c stack" "('c, 'k) conn"
      "(('c, 'k) conn, ('c, 'k) conn) either" stack_nonce

text \<open>
  \<open>Chunnel::connect_wrap\<close> for each kind of resolved stack. \<open>cw\<close> is \<open>connect_wrap\<close> of the leaf
  chunnels. A \<open>CxList\<close> wraps with its head first and hands the result to its tail.
\<close>

fun connect_wrap ::
  "('c negotiate \<Rightarrow> ('c, 'k) conn \<Rightarrow> ('c, 'k) conn result) \<Rightarrow> 'c picked \<Rightarrow> ('c, 'k) conn
     \<Rightarrow> ('c, 'k) conn result" where
  "connect_wrap cw (PLeaf n) inner = cw n inner"
| "connect_wrap cw (POpt None) inner = Inr (EitherConn (Left inner))"
| "connect_wrap cw (POpt (Some p)) inner =
     res_bind (connect_wrap cw p inner) (\<lambda>cn. Inr (EitherConn (Right cn)))"
| "connect_wrap cw (PCxList h t) inner =
     res_bind (connect_wrap cw h inner) (\<lambda>cn. connect_wrap cw t cn)"
| "connect_wrap cw (PEither (Left a)) inner =
     res_bind (connect_wrap cw a inner) (\<lambda>cn. Inr (EitherConn (Left cn)))"
| "connect_wrap cw (PEither (Right b)) inner =
     res_bind (connect_wrap cw b inner) (\<lambda>cn. Inr (EitherConn (Right cn)))"
| "connect_wrap cw (PUpgrade i l r (Left a) p) inner =
     res_bind (connect_wrap cw a inner) (\<lambda>acn. Inr (UpgradeConn i l r inner (Left acn) p))"
| "connect_wrap cw (PUpgrade i l r (Right b) p) inner =
     res_bind (connect_wrap cw b inner) (\<lambda>bcn. Inr (UpgradeConn i l r inner (Right bcn) p))"

text \<open>The chunnels of a resolved stack that take part in the connection, bottom of the stack first.\<close>

fun layers :: "'c picked \<Rightarrow> 'c negotiate list" where
  "layers (PLeaf n) = [n]"
| "layers (POpt None) = []"
| "layers (POpt (Some p)) = layers p"
| "layers (PCxList h t) = layers h @ layers t"
| "layers (PEither (Left a)) = layers a"
| "layers (PEither (Right b)) = layers b"
| "layers (PUpgrade _ _ _ (Left a) _) = layers a"
| "layers (PUpgrade _ _ _ (Right b) _) = layers b"

text \<open>\<open>Either\<close> and \<open>UpgradeEitherConn\<close> delegate to the connection they hold; this is that connection.\<close>

fun unwrap_conn :: "('c, 'k) conn \<Rightarrow> 'k" where
  "unwrap_conn (Conn k) = k"
| "unwrap_conn (EitherConn (Left c)) = unwrap_conn c"
| "unwrap_conn (EitherConn (Right c)) = unwrap_conn c"
| "unwrap_conn (UpgradeConn _ _ _ _ (Left c) _) = unwrap_conn c"
| "unwrap_conn (UpgradeConn _ _ _ _ (Right c) _) = unwrap_conn c"

fun wrap_layers :: "('c negotiate \<Rightarrow> 'k \<Rightarrow> 'k result) \<Rightarrow> 'c negotiate list \<Rightarrow> 'k \<Rightarrow> 'k result" where
  "wrap_layers w [] k = Inr k"
| "wrap_layers w (n # ns) k = res_bind (w n k) (wrap_layers w ns)"

lemma wrap_layers_append:
  "wrap_layers w (xs @ ys) k = res_bind (wrap_layers w xs k) (wrap_layers w ys)"
proof (induction xs arbitrary: k)
  case (Cons n ns)
  then show ?case by (cases "w n k") simp_all
qed simp

text \<open>
  Where each leaf chunnel wraps the connection it is given whatever \<open>Either\<close> it arrives in,
  connecting a resolved stack is wrapping with its layers one after the other.
\<close>

definition transparent ::
  "('c negotiate \<Rightarrow> ('c, 'k) conn \<Rightarrow> ('c, 'k) conn result) \<Rightarrow> ('c negotiate \<Rightarrow> 'k \<Rightarrow> 'k result) \<Rightarrow> bool"
where
  "transparent cw w \<longleftrightarrow>
     (\<forall>n c. w n (unwrap_conn c) = res_bind (cw n c) (\<lambda>c'. Inr (unwrap_conn c')))"

lemma connect_wrap_layers:
  assumes "transparent cw w"
  shows "res_bind (connect_wrap cw p inner) (\<lambda>c. Inr (unwrap_conn c))
         = wrap_layers w (layers p) (unwrap_conn inner)"
proof (induction p arbitrary: inner rule: layers.induct)
  case (1 n)
  with assms show ?case
    by (cases "cw n inner") (auto simp: transparent_def)
next
  case (4 h t)
  then show ?case
    by (cases "connect_wrap cw h inner")
       (simp_all add: wrap_layers_append flip: "4.IH"(1))
qed simp_all

end
