(* ===== verification/Offers.thy ===== *)
theory Offers
  imports Chunnel_Stack
begin

text \<open>
  The offers a stack makes (\<open>bertha/src/negotiate/get_offers.rs\<close>): each way to resolve the
  \<open>Select\<close>s of a stack is one \<open>StackNonce\<close>, the map of the capabilities that resolution
  provides. \<open>ser\<close> is \<open>bincode::serialize\<close> on capability values.

  The lemmas give the contents of a merged nonce key by key, whatever the iteration order of the
  \<open>HashMap\<close>, the number of offers, and a well-formedness invariant of every offer.
\<close>

section \<open>Offers of a stack\<close>

definition get_offer :: "('c \<Rightarrow> bytes) \<Rightarrow> 'c negotiate \<Rightarrow> offer option" where
  "get_offer ser t =
     (if cap_guid t \<noteq> 0
      then Some \<lparr>capability_guid = cap_guid t, impl_guid = neg_guid t,
                 sidedness = map_option (map ser) (universe t),
                 available = map ser (capabilities t)\<rparr>
      else None)"

definition leaf_offer :: "('c \<Rightarrow> bytes) \<Rightarrow> 'c negotiate \<Rightarrow> stack_nonce" where
  "leaf_offer ser n =
     (case get_offer ser n of None \<Rightarrow> fmempty | Some off \<Rightarrow> fmupd (cap_guid n) off fmempty)"

text \<open>One iteration of the loop of \<open>merge\<close>, and the loop over the entries of \<open>l\<close> in key order.\<close>

definition join_offer :: "offer \<Rightarrow> offer \<Rightarrow> offer" where
  "join_offer ent off = ent\<lparr>impl_guid := impl_guid ent XOR impl_guid off,
                            available := available ent @ available off\<rparr>"

definition merge_entry :: "u64 \<times> offer \<Rightarrow> stack_nonce \<Rightarrow> stack_nonce" where
  "merge_entry e r =
     (case fmlookup r (fst e) of
        Some ent \<Rightarrow> fmupd (fst e) (join_offer ent (snd e)) r
      | None \<Rightarrow> fmupd (fst e) (snd e) r)"

definition merge :: "stack_nonce \<Rightarrow> stack_nonce \<Rightarrow> stack_nonce" where
  "merge l r = fold merge_entry (sorted_list_of_fmap l) r"

fun offers :: "('c \<Rightarrow> bytes) \<Rightarrow> 'c stack \<Rightarrow> stack_nonce list" where
  "offers ser (Leaf n) = [leaf_offer ser n]"
| "offers ser (OptStack None) = []"
| "offers ser (OptStack (Some x)) = offers ser x"
| "offers ser (CxList head tail) =
     concat (map (\<lambda>tail_opt. map (\<lambda>head_opt. merge head_opt tail_opt) (offers ser head))
       (offers ser tail))"
| "offers ser (Select left right _) = offers ser left @ offers ser right"
| "offers ser (UpgradeSelect _ left right _) = offers ser left @ offers ser right"

section \<open>Merging is independent of the iteration order\<close>

lemma fmlookup_merge_entry:
  "fmlookup (merge_entry (g, off) r) k =
     (if k = g then Some (case fmlookup r g of None \<Rightarrow> off | Some ent \<Rightarrow> join_offer ent off)
      else fmlookup r k)"
  by (auto simp: merge_entry_def split: option.splits)

lemma fmlookup_fold_merge_entry:
  "distinct (map fst es) \<Longrightarrow>
   fmlookup (fold merge_entry es r) k =
     (case map_of es k of
        None \<Rightarrow> fmlookup r k
      | Some off \<Rightarrow> Some (case fmlookup r k of None \<Rightarrow> off | Some ent \<Rightarrow> join_offer ent off))"
proof (induction es arbitrary: r)
  case (Cons e es)
  obtain g off where e: "e = (g, off)" by (cases e)
  show ?case
  proof (cases "k = g")
    case True
    with Cons.prems e have "map_of es k = None" by (simp add: map_of_eq_None_iff)
    with Cons e True show ?thesis by (simp add: fmlookup_merge_entry)
  next
    case False
    with Cons e show ?thesis by (cases "map_of es k") (simp_all add: fmlookup_merge_entry)
  qed
qed simp

lemma distinct_sorted_list_of_fmap: "distinct (map fst (sorted_list_of_fmap m))"
  by (simp add: sorted_list_of_fmap_def comp_def sorted_list_of_fset.rep_eq)

lemma fmlookup_merge:
  "fmlookup (merge l r) k =
     (case fmlookup l k of
        None \<Rightarrow> fmlookup r k
      | Some off \<Rightarrow> Some (case fmlookup r k of None \<Rightarrow> off | Some ent \<Rightarrow> join_offer ent off))"
  by (simp add: merge_def fmlookup_fold_merge_entry distinct_sorted_list_of_fmap)

text \<open>Any enumeration of the entries of \<open>l\<close> gives the same merged nonce.\<close>

lemma merge_any_order:
  assumes "distinct (map fst es)" and "map_of es = fmlookup l"
  shows "fold merge_entry es r = merge l r"
  by (rule fmap_eqI) (simp add: fmlookup_fold_merge_entry fmlookup_merge assms)

lemma fmdom_merge: "k |\<in>| fmdom (merge l r) \<longleftrightarrow> k |\<in>| fmdom l \<or> k |\<in>| fmdom r"
  by (auto simp: fmdom_lookup fmlookup_merge split: option.splits)

section \<open>Well-formed offers\<close>

text \<open>Every entry of a nonce is filed under its own capability guid, which is not 0.\<close>

definition wf_nonce :: "stack_nonce \<Rightarrow> bool" where
  "wf_nonce m \<longleftrightarrow> fmpred (\<lambda>g off. capability_guid off = g \<and> g \<noteq> 0) m"

lemma wf_nonceD: "wf_nonce m \<Longrightarrow> fmlookup m g = Some off \<Longrightarrow> capability_guid off = g \<and> g \<noteq> 0"
  by (simp add: wf_nonce_def fmpred_iff)

lemma wf_leaf_offer: "wf_nonce (leaf_offer ser n)"
  by (auto simp: wf_nonce_def leaf_offer_def get_offer_def fmpred_iff split: if_splits)

lemma wf_merge: "wf_nonce l \<Longrightarrow> wf_nonce r \<Longrightarrow> wf_nonce (merge l r)"
  unfolding wf_nonce_def fmpred_iff
  by (auto simp: fmlookup_merge join_offer_def split: option.splits)

lemma offers_wf: "m \<in> set (offers ser s) \<Longrightarrow> wf_nonce m"
  by (induction ser s arbitrary: m rule: offers.induct) (auto simp: wf_leaf_offer wf_merge)

section \<open>The number of offers\<close>

fun num_selects :: "'c stack \<Rightarrow> nat" where
  "num_selects (Leaf n) = 0"
| "num_selects (OptStack None) = 0"
| "num_selects (OptStack (Some x)) = num_selects x"
| "num_selects (CxList h t) = num_selects h + num_selects t"
| "num_selects (Select l r _) = Suc (num_selects l + num_selects r)"
| "num_selects (UpgradeSelect _ l r _) = Suc (num_selects l + num_selects r)"

text \<open>Stacks with no absent optional chunnel.\<close>

fun all_present :: "'c stack \<Rightarrow> bool" where
  "all_present (Leaf n) = True"
| "all_present (OptStack None) = False"
| "all_present (OptStack (Some x)) = all_present x"
| "all_present (CxList h t) = (all_present h \<and> all_present t)"
| "all_present (Select l r _) = (all_present l \<and> all_present r)"
| "all_present (UpgradeSelect _ l r _) = (all_present l \<and> all_present r)"

lemma length_offers_CxList:
  "length (offers ser (CxList h t)) = length (offers ser h) * length (offers ser t)"
  by (simp add: length_concat comp_def sum_list_triv)

lemma add_le_two_power:
  fixes a b m n :: nat
  assumes "a \<le> 2 ^ m" and "b \<le> 2 ^ n"
  shows "a + b \<le> 2 ^ Suc (m + n)"
proof -
  have "(2::nat) ^ m \<le> 2 ^ (m + n)" and "(2::nat) ^ n \<le> 2 ^ (m + n)"
    by (simp_all add: power_increasing)
  with assms show ?thesis unfolding power_Suc by linarith
qed

lemma offers_le: "length (offers ser s) \<le> 2 ^ num_selects s"
proof (induction s rule: num_selects.induct)
  case (4 h t)
  then show ?case
    by (simp add: length_offers_CxList power_add mult_le_mono del: offers.simps)
next
  case (5 l r p)
  then show ?case using add_le_two_power [OF "5.IH"] by simp
next
  case (6 i l r p)
  then show ?case using add_le_two_power [OF "6.IH"] by simp
qed simp_all

lemma offers_pos: "all_present s \<Longrightarrow> offers ser s \<noteq> []"
  by (induction s rule: all_present.induct) auto

section \<open>Implementation guids of a list of chunnels\<close>

text \<open>
  Picking or applying a chunnel XORs its guid into the two-sided entry of its capability.
  \<open>toggle\<close> is that step on its own, \<open>xor_layers\<close> the effect of a list of chunnels, and
  \<open>guid_xor ns g\<close> the XOR of the guids of the chunnels of \<open>ns\<close> that implement capability \<open>g\<close>.
\<close>

definition toggle :: "'c negotiate \<Rightarrow> stack_nonce \<Rightarrow> stack_nonce" where
  "toggle n m =
     (case fmlookup m (cap_guid n) of
        Some off \<Rightarrow>
          (if cap_guid n \<noteq> 0 \<and> sidedness off = None
           then fmupd (cap_guid n) (off\<lparr>impl_guid := impl_guid off XOR neg_guid n\<rparr>) m
           else m)
      | None \<Rightarrow> m)"

definition xor_layers :: "'c negotiate list \<Rightarrow> stack_nonce \<Rightarrow> stack_nonce" where
  "xor_layers ns m = fold toggle ns m"

fun guid_xor :: "'c negotiate list \<Rightarrow> u64 \<Rightarrow> u64" where
  "guid_xor [] g = 0"
| "guid_xor (n # ns) g = (if cap_guid n = g then neg_guid n XOR guid_xor ns g else guid_xor ns g)"

definition touched_of :: "'c negotiate list \<Rightarrow> u64 set" where
  "touched_of ns = cap_guid ` set ns - {0}"

lemma xor_layers_simps [simp]:
  "xor_layers [] m = m"
  "xor_layers (n # ns) m = xor_layers ns (toggle n m)"
  "xor_layers (xs @ ys) m = xor_layers ys (xor_layers xs m)"
  by (simp_all add: xor_layers_def)

lemma touched_of_simps [simp]:
  "touched_of [] = {}"
  "touched_of (n # ns) = (if cap_guid n = 0 then touched_of ns else insert (cap_guid n) (touched_of ns))"
  "touched_of (xs @ ys) = touched_of xs \<union> touched_of ys"
  by (auto simp: touched_of_def)

lemma guid_xor_append: "guid_xor (xs @ ys) g = guid_xor xs g XOR guid_xor ys g"
  by (induction xs) (auto simp: xor.assoc)

lemma guid_xor_untouched: "g \<noteq> 0 \<Longrightarrow> g \<notin> touched_of ns \<Longrightarrow> guid_xor ns g = 0"
  by (induction ns) (auto split: if_splits)

lemma fmlookup_toggle:
  "fmlookup (toggle n m) g =
     map_option (\<lambda>off. if g \<noteq> 0 \<and> cap_guid n = g \<and> sidedness off = None
                       then off\<lparr>impl_guid := impl_guid off XOR neg_guid n\<rparr> else off)
       (fmlookup m g)"
  by (cases "fmlookup m g"; cases "fmlookup m (cap_guid n)") (auto simp: toggle_def)

lemma fmlookup_xor_layers:
  "fmlookup (xor_layers ns m) g =
     map_option (\<lambda>off. if g \<noteq> 0 \<and> sidedness off = None
                       then off\<lparr>impl_guid := impl_guid off XOR guid_xor ns g\<rparr> else off)
       (fmlookup m g)"
proof (induction ns arbitrary: m)
  case Nil
  then show ?case by (cases "fmlookup m g") auto
next
  case (Cons n ns)
  then show ?case
    by (cases "fmlookup m g") (auto simp: fmlookup_toggle xor.assoc)
qed

lemma fmdom_xor_layers [simp]: "fmdom (xor_layers ns m) = fmdom m"
  by (rule fset_eqI) (simp add: fmdom_lookup fmlookup_xor_layers)

end
