(* ===== verification/Pick.thy ===== *)
theory Pick
  imports Offers "HOL-Library.Sublist"
begin

text \<open>
  Choosing a side of every \<open>Select\<close> (\<open>bertha/src/negotiate/pick.rs\<close>). A pick works on the list
  of (client, server) offer pairs that are still possible: every chunnel of the stack filters the
  list and marks the server's offer by XOR-ing its own guid into the offer's \<open>impl_guid\<close>, so that
  an offer whose implementations have all been picked ends with \<open>impl_guid\<close> 0.

  The main lemma, \<open>pick_pairs\<close>, says what a pick does to the pairs as a whole: those it returns
  are, in order, some of those it was given, with the guids of the picked chunnels XOR-ed into the
  server's two-sided entries and nothing else changed. From it follow what the checks of
  \<open>check_touched_partial\<close> and \<open>check_touched_complete\<close> establish about the picked stack.
\<close>

type_synonym offer_pair = "stack_nonce \<times> stack_nonce"

definition have_all :: "bytes list \<Rightarrow> bytes list \<Rightarrow> bool" where
  "have_all uni joint = list_all (\<lambda>x. x \<in> set joint) uni"

record 'p pick_result =
  pr_stack :: 'p
  filtered_pairs :: "offer_pair list"
  touched_cap_guids :: "u64 set"

definition map_pr_stack :: "('p \<Rightarrow> 'q) \<Rightarrow> 'p pick_result \<Rightarrow> 'q pick_result" where
  "map_pr_stack f pr = \<lparr>pr_stack = f (pr_stack pr), filtered_pairs = filtered_pairs pr,
     touched_cap_guids = touched_cap_guids pr\<rparr>"

section \<open>A single chunnel\<close>

definition pick_leaf_pair :: "'c negotiate \<Rightarrow> offer_pair \<Rightarrow> offer_pair option" where
  "pick_leaf_pair n cs =
     (let client = fst cs; server = snd cs; g = cap_guid n in
      case fmlookup server g of
        Some off \<Rightarrow>
          (if sidedness off = None
           then (case fmlookup client g of
                   Some cl_of \<Rightarrow>
                     (if \<not> have_all (available cl_of) (available off)
                         \<or> \<not> have_all (available off) (available cl_of)
                      then None
                      else Some (client,
                             fmupd g (off\<lparr>impl_guid := impl_guid off XOR neg_guid n\<rparr>) server))
                 | None \<Rightarrow> None)
           else Some (client, server))
      | None \<Rightarrow> (if g |\<in>| fmdom client then None else Some (client, server)))"

definition pick_leaf :: "'c negotiate \<Rightarrow> offer_pair list \<Rightarrow> 'c picked pick_result result" where
  "pick_leaf n offer_pairs =
     (if cap_guid n = 0
      then Inr \<lparr>pr_stack = PLeaf n, filtered_pairs = offer_pairs, touched_cap_guids = {}\<rparr>
      else Inr \<lparr>pr_stack = PLeaf n,
                filtered_pairs = List.map_filter (pick_leaf_pair n) offer_pairs,
                touched_cap_guids = {cap_guid n}\<rparr>)"

section \<open>The checks on touched capabilities\<close>

text \<open>
  The one-sided case of both checks: the capabilities of the two sides together are as many as
  the universe has.
\<close>

definition joint_size_ok :: "stack_nonce \<Rightarrow> u64 \<Rightarrow> offer \<Rightarrow> bytes list \<Rightarrow> bool" where
  "joint_size_ok client_m t off uni =
     (case fmlookup client_m t of
        Some cl_of \<Rightarrow> card (set (available cl_of) \<union> set (available off)) = length uni
      | None \<Rightarrow> length (available off) = length uni)"

definition impl_matched_complete :: "stack_nonce \<Rightarrow> stack_nonce \<Rightarrow> u64 \<Rightarrow> bool" where
  "impl_matched_complete client_m server_m t =
     (case fmlookup server_m t of
        None \<Rightarrow> False
      | Some off \<Rightarrow>
          (if impl_guid off = 0 then True
           else (case sidedness off of
                   Some uni \<Rightarrow> joint_size_ok client_m t off uni
                 | None \<Rightarrow> False)))"

definition impl_matched_partial :: "stack_nonce \<Rightarrow> stack_nonce \<Rightarrow> u64 \<Rightarrow> bool" where
  "impl_matched_partial client_m server_m t =
     (case fmlookup client_m t of
        None \<Rightarrow> False
      | Some _ \<Rightarrow>
          (case fmlookup server_m t of
             Some off \<Rightarrow>
               (if impl_guid off = 0 then True
                else (case sidedness off of
                        Some uni \<Rightarrow> joint_size_ok client_m t off uni
                      | None \<Rightarrow> False))
           | None \<Rightarrow> True))"

definition no_remaining :: "'a result list \<Rightarrow> failure" where
  "no_remaining ps =
     fold (\<lambda>p report. case p of Inl e \<Rightarrow> wrap_report (report_string e) report | Inr _ \<Rightarrow> report)
       ps (Err [''No remaining valid (client, server) offer pairs''])"

text \<open>
  The common end of both checks. \<open>r\<close> is the result of \<open>t.pick(pairs)\<close>, \<open>chk\<close> the closure that
  is mapped over the filtered pairs.
\<close>

definition check_pairs ::
  "(u64 set \<Rightarrow> offer_pair \<Rightarrow> offer_pair result) \<Rightarrow> 'p pick_result result \<Rightarrow> 'p pick_result result"
where
  "check_pairs chk r =
     res_bind (wrap_err ''pick failed'' r)
       (\<lambda>pr. let pairs = map (chk (touched_cap_guids pr)) (filtered_pairs pr) in
          if list_all (\<lambda>p. \<not> is_ok p) pairs
          then Inl (no_remaining pairs)
          else Inr (pr\<lparr>filtered_pairs := oks pairs\<rparr>))"

definition check_pair_complete :: "u64 set \<Rightarrow> offer_pair \<Rightarrow> offer_pair result" where
  "check_pair_complete touched cs =
     (let client_m = fst cs; server_m = snd cs in
      if \<not> fmpred (\<lambda>guid off. sidedness off \<noteq> None \<or> guid \<in> touched) client_m
      then eyre ''missing touched guids''
      else if \<forall>t\<in>touched. impl_matched_complete client_m server_m t
      then Inr cs
      else eyre ''impls_matched: ()'')"

definition check_pair_partial :: "u64 set \<Rightarrow> offer_pair \<Rightarrow> offer_pair result" where
  "check_pair_partial touched cs =
     (if \<forall>t\<in>touched. impl_matched_partial (fst cs) (snd cs) t
      then Inr cs
      else eyre ''impls_matched: ()'')"

definition check_touched_partial :: "'p pick_result result \<Rightarrow> 'p pick_result result" where
  "check_touched_partial r = check_pairs check_pair_partial r"

section \<open>Select\<close>

text \<open>
  The preferred side if it passes the partial check and leaves a pair, else the other side. The
  arguments are the checked picks of the two sides.
\<close>

definition pick_in_preference_order ::
  "'p pick_result result \<Rightarrow> 'p pick_result result \<Rightarrow> ('p, 'p) either pick_result result" where
  "pick_in_preference_order first_pick second_pick =
     (let second = (\<lambda>first_err.
        case second_pick of
          Inr pr \<Rightarrow>
            (if filtered_pairs pr \<noteq> [] then Inr (map_pr_stack Right pr)
             else Inl (wrap_report (report_string first_err) (Err [''both select sides not satisfied''])))
        | Inl e \<Rightarrow> Inl (wrap_report (report_string first_err) (wrap_report ''second choice pick erred'' e)))
      in
      case first_pick of
        Inr pr \<Rightarrow>
          (if filtered_pairs pr \<noteq> [] then Inr (map_pr_stack Left pr)
           else second (Err [''first choice pick left no options'']))
      | Inl e \<Rightarrow> second (wrap_report ''first choice pick erred'' e))"

definition pick_select ::
  "side \<Rightarrow> 'c picked pick_result result \<Rightarrow> 'c picked pick_result result
     \<Rightarrow> 'c picked pick_result result" where
  "pick_select prefer l r =
     (case prefer of
        Left _ \<Rightarrow>
          res_bind (pick_in_preference_order (check_touched_partial l) (check_touched_partial r))
            (\<lambda>pr. Inr (map_pr_stack PEither pr))
      | Right _ \<Rightarrow>
          res_bind (pick_in_preference_order (check_touched_partial r) (check_touched_partial l))
            (\<lambda>pr. Inr (map_pr_stack (\<lambda>e. PEither (flip e)) pr)))"

section \<open>Pick on a stack\<close>

fun pick :: "'c stack \<Rightarrow> offer_pair list \<Rightarrow> 'c picked pick_result result" where
  "pick (Leaf n) offer_pairs = pick_leaf n offer_pairs"
| "pick (OptStack None) offer_pairs =
     Inr \<lparr>pr_stack = POpt None, filtered_pairs = offer_pairs, touched_cap_guids = {}\<rparr>"
| "pick (OptStack (Some inner)) offer_pairs =
     res_bind (pick inner offer_pairs) (\<lambda>pr. Inr (map_pr_stack (\<lambda>p. POpt (Some p)) pr))"
| "pick (CxList head tail) offer_pairs =
     res_bind (wrap_err ''CxList head pick failed'' (pick head offer_pairs))
       (\<lambda>h. res_bind (wrap_err ''CxList tail pick failed'' (pick tail (filtered_pairs h)))
          (\<lambda>t. Inr \<lparr>pr_stack = PCxList (pr_stack h) (pr_stack t),
                    filtered_pairs = filtered_pairs t,
                    touched_cap_guids = touched_cap_guids h \<union> touched_cap_guids t\<rparr>))"
| "pick (Select left right prefer) offer_pairs =
     pick_select prefer (pick left offer_pairs) (pick right offer_pairs)"
| "pick (UpgradeSelect _ left right prefer) offer_pairs =
     pick_select prefer (pick left offer_pairs) (pick right offer_pairs)"

definition check_touched_complete ::
  "'c stack \<Rightarrow> offer_pair list \<Rightarrow> 'c picked pick_result result" where
  "check_touched_complete t pairs = check_pairs check_pair_complete (pick t pairs)"

section \<open>What a pick does to the offer pairs\<close>

text \<open>
  \<open>pairs_via ns inp out\<close>: the pairs \<open>out\<close> are some of \<open>inp\<close>, in order, with the chunnels
  \<open>ns\<close> marked in the server nonces.
\<close>

definition pairs_via :: "'c negotiate list \<Rightarrow> offer_pair list \<Rightarrow> offer_pair list \<Rightarrow> bool" where
  "pairs_via ns inp out \<longleftrightarrow> (\<exists>ps. subseq ps inp \<and> out = map (apsnd (xor_layers ns)) ps)"

lemma map_xor_layers_Nil [simp]: "map (apsnd (xor_layers [])) ps = ps"
  by (induction ps) auto

lemma pairs_via_refl: "pairs_via [] ps ps"
  unfolding pairs_via_def by (intro exI [of _ ps]) simp

lemma subseq_map_obtain:
  assumes "subseq xs (map f ys)"
  obtains zs where "subseq zs ys" "xs = map f zs"
  using assms that by (auto simp: subseq_conv_nths nths_map)

lemma pairs_via_trans:
  assumes "pairs_via ns a b" and "pairs_via ms b c"
  shows "pairs_via (ns @ ms) a c"
proof -
  from assms obtain ps qs where ps: "subseq ps a" "b = map (apsnd (xor_layers ns)) ps"
    and qs: "subseq qs b" "c = map (apsnd (xor_layers ms)) qs"
    by (auto simp: pairs_via_def)
  from qs(1) ps(2) obtain rs where rs: "subseq rs ps" "qs = map (apsnd (xor_layers ns)) rs"
    by (auto elim: subseq_map_obtain)
  have "subseq rs a" using rs(1) ps(1) by (rule subseq_order.order_trans)
  moreover have "c = map (apsnd (xor_layers (ns @ ms))) rs"
    using qs(2) rs(2) by (auto simp: apsnd_def)
  ultimately show ?thesis by (auto simp: pairs_via_def)
qed

lemma pairs_via_filter: "pairs_via ns a b \<Longrightarrow> pairs_via ns a (filter P b)"
proof -
  assume "pairs_via ns a b"
  then obtain ps where ps: "subseq ps a" "b = map (apsnd (xor_layers ns)) ps"
    by (auto simp: pairs_via_def)
  have "subseq (filter P b) b" by simp
  with ps(2) obtain qs where "subseq qs ps" "filter P b = map (apsnd (xor_layers ns)) qs"
    by (metis subseq_map_obtain)
  with ps(1) show ?thesis
    by (auto simp: pairs_via_def intro: subseq_order.order_trans)
qed

lemma pairs_via_mem:
  assumes "pairs_via ns a b" and "(c, s') \<in> set b"
  shows "\<exists>s. (c, s) \<in> set a \<and> s' = xor_layers ns s"
proof -
  from assms obtain ps where ps: "subseq ps a" and out: "b = map (apsnd (xor_layers ns)) ps"
    by (auto simp: pairs_via_def)
  from ps have "set ps \<subseteq> set a"
    by (auto simp: subseq_conv_nths dest: in_set_nthsD)
  with assms(2) out show ?thesis by fastforce
qed

lemma pick_leaf_pair_toggle:
  "pick_leaf_pair n (c, s) = Some cs' \<Longrightarrow> cap_guid n \<noteq> 0 \<Longrightarrow> cs' = (c, toggle n s)"
  by (auto simp: pick_leaf_pair_def toggle_def Let_def split: option.splits if_splits)

lemma map_filter_pick_leaf:
  assumes "cap_guid n \<noteq> 0"
  shows "List.map_filter (pick_leaf_pair n) ps =
         map (apsnd (toggle n)) (filter (\<lambda>p. pick_leaf_pair n p \<noteq> None) ps)"
proof (induction ps)
  case (Cons p ps)
  obtain c s where "p = (c, s)" by (cases p)
  then show ?case
    using Cons pick_leaf_pair_toggle [of n c s] assms
    by (auto simp: List.map_filter_simps split: option.splits)
qed (simp add: List.map_filter_simps)

section \<open>The checks keep or drop pairs\<close>

lemma check_pair_partial_Inr:
  "check_pair_partial t p = Inr q \<longleftrightarrow>
     q = p \<and> (\<forall>g\<in>t. impl_matched_partial (fst p) (snd p) g)"
  by (auto simp: check_pair_partial_def)

lemma check_pair_complete_Inr:
  "check_pair_complete t p = Inr q \<longleftrightarrow>
     q = p \<and> fmpred (\<lambda>guid off. sidedness off \<noteq> None \<or> guid \<in> t) (fst p)
       \<and> (\<forall>g\<in>t. impl_matched_complete (fst p) (snd p) g)"
  by (auto simp: check_pair_complete_def Let_def)

lemma oks_map_filter:
  assumes "\<And>p q. chk p = Inr q \<Longrightarrow> q = p"
  shows "oks (map chk ps) = filter (\<lambda>p. is_ok (chk p)) ps"
proof (induction ps)
  case (Cons p ps)
  then show ?case by (cases "chk p") (auto dest: assms)
qed simp

lemma no_remaining_not_panic [simp]: "\<not> is_panic (no_remaining ps)"
proof -
  let ?f = "\<lambda>p report. case p of Inl e \<Rightarrow> wrap_report (report_string e) report | Inr _ \<Rightarrow> report"
  have "is_panic (fold ?f ps rep) = is_panic rep" for rep
  proof (induction ps arbitrary: rep)
    case (Cons p ps)
    then show ?case by (cases p) simp_all
  qed simp
  then show ?thesis by (simp add: no_remaining_def)
qed

lemma check_pairs_Inr:
  assumes "check_pairs chk r = Inr pr'"
    and "\<And>t p q. chk t p = Inr q \<Longrightarrow> q = p"
  obtains pr where "r = Inr pr"
    and "filtered_pairs pr' = filter (\<lambda>p. is_ok (chk (touched_cap_guids pr) p)) (filtered_pairs pr)"
    and "filtered_pairs pr' \<noteq> []"
    and "pr_stack pr' = pr_stack pr" and "touched_cap_guids pr' = touched_cap_guids pr"
proof -
  from assms(1) obtain pr where r: "r = Inr pr"
    and nonempty: "\<not> list_all (\<lambda>p. \<not> is_ok p) (map (chk (touched_cap_guids pr)) (filtered_pairs pr))"
    and pr': "pr' = pr\<lparr>filtered_pairs := oks (map (chk (touched_cap_guids pr)) (filtered_pairs pr))\<rparr>"
    by (auto simp: check_pairs_def Let_def res_bind_Inr_iff split: if_splits)
  moreover have "oks (map (chk (touched_cap_guids pr)) (filtered_pairs pr))
      = filter (\<lambda>p. is_ok (chk (touched_cap_guids pr) p)) (filtered_pairs pr)"
    using assms(2) by (rule oks_map_filter)
  ultimately show thesis
    using that by (simp add: oks_eq_Nil_iff [symmetric])
qed

section \<open>The Pick trait\<close>

text \<open>
  What the callers of \<open>Pick::pick\<close> rely on: the returned pairs come from those passed in, the
  touched guids are those of the picked chunnels, and a pick does not panic. \<open>run\<close> is
  \<open>|pairs| t.pick(pairs)\<close> and \<open>lay\<close> the list of chunnels of a picked stack.
\<close>

locale picker =
  fixes run :: "offer_pair list \<Rightarrow> 'p pick_result result"
    and lay :: "'p \<Rightarrow> 'c negotiate list"
  assumes run_pairs: "run ps = Inr pr \<Longrightarrow> pairs_via (lay (pr_stack pr)) ps (filtered_pairs pr)"
    and run_touched: "run ps = Inr pr \<Longrightarrow> touched_cap_guids pr = touched_of (lay (pr_stack pr))"
    and run_no_panic: "\<not> panics (run ps)"
begin

lemma checked_picker:
  assumes "\<And>t p q. chk t p = Inr q \<Longrightarrow> q = p" and "\<And>t p. \<not> panics (chk t p)"
  shows "picker (\<lambda>ps. check_pairs chk (run ps)) lay"
proof
  fix ps pr assume ok: "check_pairs chk (run ps) = Inr pr"
  then obtain pr0 where pr0: "run ps = Inr pr0"
    "filtered_pairs pr = filter (\<lambda>p. is_ok (chk (touched_cap_guids pr0) p)) (filtered_pairs pr0)"
    "pr_stack pr = pr_stack pr0" "touched_cap_guids pr = touched_cap_guids pr0"
    using assms(1) by (rule check_pairs_Inr)
  show "pairs_via (lay (pr_stack pr)) ps (filtered_pairs pr)"
    using run_pairs [OF pr0(1)] pr0 by (simp add: pairs_via_filter)
  show "touched_cap_guids pr = touched_of (lay (pr_stack pr))"
    using run_touched [OF pr0(1)] pr0 by simp
next
  fix ps
  show "\<not> panics (check_pairs chk (run ps))"
    using run_no_panic [of ps]
    by (auto simp: check_pairs_def Let_def panics_res_bind no_remaining_not_panic split: if_splits)
qed

text \<open>
  What \<open>check_touched_complete\<close> has established when it returns: every returned pair is one of
  the given pairs, up to the marks; every two-sided capability of its client nonce is one of the
  picked stack's; and for every capability the picked stack touches, the server offers it, and if
  it is two-sided the guids of the picked chunnels XOR to the guid the server offered.
\<close>

lemma complete_sound:
  assumes ok: "check_pairs check_pair_complete (run ps) = Inr pr"
    and mem: "(c, s') \<in> set (filtered_pairs pr)"
  shows "\<exists>s. (c, s) \<in> set ps \<and> s' = xor_layers (lay (pr_stack pr)) s
    \<and> (\<forall>g off. fmlookup c g = Some off \<longrightarrow> sidedness off = None
         \<longrightarrow> g \<in> touched_of (lay (pr_stack pr)))
    \<and> (\<forall>g\<in>touched_of (lay (pr_stack pr)). \<exists>off. fmlookup s g = Some off
         \<and> (sidedness off = None \<longrightarrow> impl_guid off = guid_xor (lay (pr_stack pr)) g))"
proof -
  let ?ns = "lay (pr_stack pr)"
  obtain pr0 where pr0: "run ps = Inr pr0"
    "filtered_pairs pr = filter (\<lambda>p. is_ok (check_pair_complete (touched_cap_guids pr0) p)) (filtered_pairs pr0)"
    "pr_stack pr = pr_stack pr0"
    using ok by (rule check_pairs_Inr) (auto simp: check_pair_complete_Inr)
  from mem pr0 run_pairs [OF pr0(1)] obtain s where s: "(c, s) \<in> set ps" "s' = xor_layers ?ns s"
    by (auto dest: pairs_via_mem)
  from mem pr0 run_touched [OF pr0(1)]
  have two: "fmpred (\<lambda>guid off. sidedness off \<noteq> None \<or> guid \<in> touched_of ?ns) c"
    and impl: "\<forall>g\<in>touched_of ?ns. impl_matched_complete c s' g"
    by (auto simp: is_ok_iff check_pair_complete_Inr)
  have "\<exists>off. fmlookup s g = Some off \<and> (sidedness off = None \<longrightarrow> impl_guid off = guid_xor ?ns g)"
    if g: "g \<in> touched_of ?ns" for g
  proof -
    have "g \<noteq> 0" using g by (auto simp: touched_of_def)
    moreover have "impl_matched_complete c s' g" using impl g by blast
    ultimately show ?thesis
      by (auto simp: impl_matched_complete_def s(2) fmlookup_xor_layers word_xor_eq_0_iff
          split: option.splits if_splits)
  qed
  with s two show ?thesis by (intro exI [of _ s]) (force simp: fmpred_iff)
qed

end

section \<open>Every stack is a picker\<close>

lemma pick_in_preference_order_Inr:
  assumes "pick_in_preference_order a b = Inr pr"
  shows "(\<exists>pr0. a = Inr pr0 \<and> filtered_pairs pr0 \<noteq> [] \<and> pr = map_pr_stack Left pr0)
       \<or> (\<exists>pr0. b = Inr pr0 \<and> filtered_pairs pr0 \<noteq> [] \<and> pr = map_pr_stack Right pr0
             \<and> \<not> (\<exists>pr1. a = Inr pr1 \<and> filtered_pairs pr1 \<noteq> []))"
  using assms by (auto simp: pick_in_preference_order_def Let_def split: sum.splits if_splits)

lemma pick_in_preference_order_no_panic:
  "\<not> panics a \<Longrightarrow> \<not> panics b \<Longrightarrow> \<not> panics (pick_in_preference_order a b)"
  by (auto simp: pick_in_preference_order_def Let_def split: sum.splits)

lemma panics_check_pair_partial: "\<not> panics (check_pair_partial t p)"
  by (simp add: check_pair_partial_def)

lemma check_touched_partial_picker:
  assumes "picker run lay"
  shows "picker (\<lambda>ps. check_touched_partial (run ps)) lay"
  unfolding check_touched_partial_def
  by (rule picker.checked_picker [OF assms])
     (simp_all add: check_pair_partial_Inr panics_check_pair_partial)

lemma map_pr_stack_simps [simp]:
  "pr_stack (map_pr_stack f pr) = f (pr_stack pr)"
  "filtered_pairs (map_pr_stack f pr) = filtered_pairs pr"
  "touched_cap_guids (map_pr_stack f pr) = touched_cap_guids pr"
  by (simp_all add: map_pr_stack_def)

lemma pick_leaf_picker: "picker (pick_leaf n) layers"
proof
  fix ps pr assume "pick_leaf n ps = Inr pr"
  moreover have sub: "pairs_via [n] ps (map (apsnd (toggle n)) (filter P ps))" for P
    unfolding pairs_via_def by (intro exI [of _ "filter P ps"]) (simp add: xor_layers_def)
  moreover have "pairs_via [n] ps ps" if "cap_guid n = 0"
  proof -
    have "apsnd (toggle n) p = p" for p :: offer_pair
      using that by (cases p) (auto simp: toggle_def split: option.splits)
    then show ?thesis using sub [of "\<lambda>_. True"] by (simp add: map_idI)
  qed
  ultimately show "pairs_via (layers (pr_stack pr)) ps (filtered_pairs pr)"
    "touched_cap_guids pr = touched_of (layers (pr_stack pr))"
    by (auto simp: pick_leaf_def map_filter_pick_leaf split: if_splits)
qed (auto simp: pick_leaf_def)

text \<open>The result of a \<open>Select\<close> comes from the checked pick of one of its sides.\<close>

lemma pick_select_Inr:
  assumes "pick_select prefer l r = Inr pr"
  shows "(\<exists>pr0. check_touched_partial l = Inr pr0 \<and> pr = map_pr_stack (\<lambda>p. PEither (Left p)) pr0)
       \<or> (\<exists>pr0. check_touched_partial r = Inr pr0 \<and> pr = map_pr_stack (\<lambda>p. PEither (Right p)) pr0)"
  using assms
  by (cases "prefer")
     (auto simp: pick_select_def res_bind_Inr_iff map_pr_stack_def dest!: pick_in_preference_order_Inr)

lemma pick_select_picker:
  assumes l: "picker runl layers" and r: "picker runr layers"
  shows "picker (\<lambda>ps. pick_select prefer (runl ps) (runr ps)) layers"
proof -
  note cl = check_touched_partial_picker [OF l] and cr = check_touched_partial_picker [OF r]
  show ?thesis
  proof
    fix ps pr assume "pick_select prefer (runl ps) (runr ps) = Inr pr"
    from pick_select_Inr [OF this] picker.run_pairs [OF cl] picker.run_pairs [OF cr]
      picker.run_touched [OF cl] picker.run_touched [OF cr]
    show "pairs_via (layers (pr_stack pr)) ps (filtered_pairs pr)"
      "touched_cap_guids pr = touched_of (layers (pr_stack pr))"
      by fastforce+
  next
    fix ps
    show "\<not> panics (pick_select prefer (runl ps) (runr ps))"
      using picker.run_no_panic [OF cl] picker.run_no_panic [OF cr]
      by (cases "prefer")
         (auto simp: pick_select_def panics_res_bind pick_in_preference_order_no_panic)
  qed
qed

lemma pick_picker: "picker (pick s) layers"
proof (induction s rule: num_selects.induct)
  case (1 n)
  have "pick (Leaf n) = pick_leaf n" by (rule ext) simp
  then show ?case by (simp add: pick_leaf_picker)
next
  case 2
  show ?case by unfold_locales (auto simp: pairs_via_refl)
next
  case (3 x)
  note x = picker.run_pairs [OF "3.IH"] picker.run_touched [OF "3.IH"] picker.run_no_panic [OF "3.IH"]
  show ?case
    by unfold_locales (auto simp: res_bind_Inr_iff panics_res_bind x)
next
  case (4 h t)
  note h = picker.run_pairs [OF "4.IH"(1)] picker.run_touched [OF "4.IH"(1)]
    picker.run_no_panic [OF "4.IH"(1)]
  note t = picker.run_pairs [OF "4.IH"(2)] picker.run_touched [OF "4.IH"(2)]
    picker.run_no_panic [OF "4.IH"(2)]
  show ?case
    by unfold_locales
       (auto simp: res_bind_Inr_iff panics_res_bind h(2,3) t(2,3)
          intro: pairs_via_trans [OF h(1) t(1)])
next
  case (5 l r p)
  have "pick (Select l r p) = (\<lambda>ps. pick_select p (pick l ps) (pick r ps))" by (rule ext) simp
  with "5" show ?case by (simp add: pick_select_picker)
next
  case (6 i l r p)
  have "pick (UpgradeSelect i l r p) = (\<lambda>ps. pick_select p (pick l ps) (pick r ps))" by (rule ext) simp
  with "6" show ?case by (simp add: pick_select_picker)
qed

interpretation pick_stack: picker "pick s" layers for s :: "'c stack"
  by (rule pick_picker)

end
