(* ===== verification/Apply.thy ===== *)
theory Apply
  imports Offers
begin

text \<open>
  Resolving a stack against one nonce (\<open>bertha/src/negotiate/apply.rs\<close> and the \<open>Apply\<close> of
  \<open>UpgradeSelect\<close> in \<open>rendezvous.rs\<close>). Like a pick, an application XORs the guid of each
  chunnel into the nonce; \<open>check_apply\<close> then wants every touched two-sided entry to be 0.

  Applying an \<open>UpgradeSelect\<close> also announces its side on the watch channel of its handle. The
  model returns the announcements in order next to the result, since those made by a side that is
  then rejected stay sent.
\<close>

type_synonym announcement = "nat \<times> side"

record 'p apply_result =
  applied :: 'p
  ar_picked :: stack_nonce
  ar_touched :: "u64 set"
  ar_score :: nat

type_synonym 'p application = "announcement list \<times> 'p apply_result result"

definition map_applied :: "('p \<Rightarrow> 'q) \<Rightarrow> 'p apply_result \<Rightarrow> 'q apply_result" where
  "map_applied f ar = \<lparr>applied = f (applied ar), ar_picked = ar_picked ar,
     ar_touched = ar_touched ar, ar_score = ar_score ar\<rparr>"

lemma map_applied_simps [simp]:
  "applied (map_applied f ar) = f (applied ar)"
  "ar_picked (map_applied f ar) = ar_picked ar"
  "ar_touched (map_applied f ar) = ar_touched ar"
  "ar_score (map_applied f ar) = ar_score ar"
  by (simp_all add: map_applied_def)

section \<open>Applying a stack\<close>

definition apply_leaf :: "'c negotiate \<Rightarrow> stack_nonce \<Rightarrow> 'c picked apply_result result" where
  "apply_leaf n picked_offers =
     (if cap_guid n = 0
      then Inr \<lparr>applied = PLeaf n, ar_picked = picked_offers, ar_touched = {}, ar_score = 0\<rparr>
      else (case fmlookup picked_offers (cap_guid n) of
              Some off \<Rightarrow>
                Inr \<lparr>applied = PLeaf n,
                     ar_picked = (if sidedness off = None
                        then fmupd (cap_guid n) (off\<lparr>impl_guid := impl_guid off XOR neg_guid n\<rparr>)
                               picked_offers
                        else picked_offers),
                     ar_touched = {cap_guid n}, ar_score = 0\<rparr>
            | None \<Rightarrow> eyre ''Offer didn't contain needed capability guid''))"

definition offers_matched :: "stack_nonce \<Rightarrow> u64 \<Rightarrow> bool" where
  "offers_matched p c =
     (case fmlookup p c of
        Some off \<Rightarrow> (case sidedness off of None \<Rightarrow> impl_guid off = 0 | Some _ \<Rightarrow> True)
      | None \<Rightarrow> False)"

text \<open>\<open>check_apply\<close>, given \<open>t.apply(picked)\<close>.\<close>

definition check_applied :: "'p application \<Rightarrow> 'p application" where
  "check_applied a =
     (fst a, res_bind (snd a)
        (\<lambda>ar. if \<forall>c\<in>ar_touched ar. offers_matched (ar_picked ar) c
              then Inr ar else eyre ''Offers mismatched''))"

definition apply_in_preference_order ::
  "'p application \<Rightarrow> 'p application \<Rightarrow> ('p, 'p) either application" where
  "apply_in_preference_order first_pick second_pick =
     (case check_applied first_pick of
        (log1, Inr ar) \<Rightarrow> (log1, Inr ((map_applied Left ar)\<lparr>ar_score := ar_score ar + 1\<rparr>))
      | (log1, Inl e) \<Rightarrow>
          (case check_applied second_pick of
             (log2, r) \<Rightarrow>
               (log1 @ log2, res_bind (wrap_err (report_string e) r)
                  (\<lambda>ar. Inr (map_applied Right ar)))))"

definition apply_select ::
  "side \<Rightarrow> 'p application \<Rightarrow> 'p application \<Rightarrow> ('p, 'p) either application" where
  "apply_select prefer l r =
     (case prefer of
        Left _ \<Rightarrow> apply_in_preference_order l r
      | Right _ \<Rightarrow>
          apsnd (\<lambda>res. res_bind res (\<lambda>ar. Inr (map_applied flip ar)))
            (apply_in_preference_order r l))"

definition side_of :: "('a, 'b) either \<Rightarrow> side" where
  "side_of e = (case e of Left _ \<Rightarrow> Left () | Right _ \<Rightarrow> Right ())"

definition announce ::
  "nat \<Rightarrow> 'c stack \<Rightarrow> 'c stack \<Rightarrow> ('c picked, 'c picked) either application
     \<Rightarrow> 'c picked application" where
  "announce i left_saved right_saved a =
     (case a of
        (log, Inl e) \<Rightarrow> (log, Inl e)
      | (log, Inr ar) \<Rightarrow>
          (log @ [(i, side_of (applied ar))],
           Inr (map_applied (\<lambda>cur. PUpgrade i left_saved right_saved cur (ar_picked ar)) ar)))"

fun apply_stack :: "'c stack \<Rightarrow> stack_nonce \<Rightarrow> 'c picked application" where
  "apply_stack (Leaf n) m = ([], apply_leaf n m)"
| "apply_stack (OptStack None) m =
     ([], Inr \<lparr>applied = POpt None, ar_picked = m, ar_touched = {}, ar_score = 0\<rparr>)"
| "apply_stack (OptStack (Some inner)) m =
     apsnd (\<lambda>r. res_bind r (\<lambda>ar. Inr (map_applied (\<lambda>p. POpt (Some p)) ar))) (apply_stack inner m)"
| "apply_stack (CxList h t) m =
     (case apply_stack h m of
        (log1, Inl e) \<Rightarrow> (log1, Inl e)
      | (log1, Inr hr) \<Rightarrow>
          (case apply_stack t (ar_picked hr) of
             (log2, Inl e) \<Rightarrow> (log1 @ log2, Inl e)
           | (log2, Inr tr) \<Rightarrow>
               (log1 @ log2,
                Inr \<lparr>applied = PCxList (applied hr) (applied tr), ar_picked = ar_picked tr,
                     ar_touched = ar_touched hr \<union> ar_touched tr,
                     ar_score = ar_score hr + ar_score tr\<rparr>)))"
| "apply_stack (Select l r prefer) m =
     apsnd (\<lambda>res. res_bind res (\<lambda>ar. Inr (map_applied PEither ar)))
       (apply_select prefer (apply_stack l m) (apply_stack r m))"
| "apply_stack (UpgradeSelect i l r prefer) m =
     announce i l r (apply_select prefer (apply_stack l m) (apply_stack r m))"

definition check_apply :: "'c stack \<Rightarrow> stack_nonce \<Rightarrow> 'c picked application" where
  "check_apply t picked = check_applied (apply_stack t picked)"

section \<open>The Apply trait\<close>

text \<open>
  What callers rely on: the nonce returned is the one passed in with the guids of the applied
  chunnels XOR-ed in, the touched guids are those of the applied chunnels and were all in the
  nonce, and there is no panic.
\<close>

locale applier =
  fixes run :: "stack_nonce \<Rightarrow> 'p application"
    and lay :: "'p \<Rightarrow> 'c negotiate list"
  assumes run_picked: "snd (run m) = Inr ar \<Longrightarrow> ar_picked ar = xor_layers (lay (applied ar)) m"
    and run_touched: "snd (run m) = Inr ar \<Longrightarrow> ar_touched ar = touched_of (lay (applied ar))"
    and run_defined: "snd (run m) = Inr ar \<Longrightarrow> g \<in> touched_of (lay (applied ar)) \<Longrightarrow> g |\<in>| fmdom m"
    and run_no_panic: "\<not> panics (snd (run m))"
begin

lemma checked_applier: "applier (\<lambda>m. check_applied (run m)) lay"
proof -
  have *: "snd (check_applied (run m)) = Inr ar \<Longrightarrow> snd (run m) = Inr ar" for m ar
    by (auto simp: check_applied_def res_bind_Inr_iff split: if_splits)
  have "\<not> panics (snd (check_applied (run m)))" for m
    using run_no_panic [of m] by (auto simp: check_applied_def panics_res_bind)
  with * show ?thesis
    by unfold_locales (auto dest: run_picked run_touched run_defined)
qed

text \<open>
  A checked application agrees with its nonce: every touched capability is in the nonce, and
  where it is two-sided the guids of the applied chunnels XOR to the guid the nonce gives.
\<close>

lemma checked_sound:
  assumes ok: "snd (check_applied (run m)) = Inr ar" and g: "g \<in> touched_of (lay (applied ar))"
  shows "\<exists>off. fmlookup m g = Some off
     \<and> (sidedness off = None \<longrightarrow> impl_guid off = guid_xor (lay (applied ar)) g)"
proof -
  from ok have run: "snd (run m) = Inr ar"
    and all: "\<forall>c\<in>ar_touched ar. offers_matched (ar_picked ar) c"
    by (auto simp: check_applied_def res_bind_Inr_iff split: if_splits)
  have "g \<noteq> 0" using g by (auto simp: touched_of_def)
  moreover have "offers_matched (xor_layers (lay (applied ar)) m) g"
    using all g run_picked [OF run] run_touched [OF run] by simp
  ultimately show ?thesis
    by (auto simp: offers_matched_def fmlookup_xor_layers word_xor_eq_0_iff split: option.splits)
qed

end

section \<open>Every stack is an applier\<close>

lemma apply_leaf_applier: "applier (\<lambda>m. ([], apply_leaf n m)) layers"
  by unfold_locales
     (auto simp: apply_leaf_def toggle_def fmdom_lookup split: if_splits option.splits)

definition from_either :: "('a, 'a) either \<Rightarrow> 'a" where
  "from_either e = (case e of Left a \<Rightarrow> a | Right a \<Rightarrow> a)"

lemma from_either_simps [simp]:
  "from_either (Left a) = a" "from_either (Right a) = a" "from_either (flip e) = from_either e"
  by (cases e; simp add: from_either_def)+

lemma apply_in_preference_order_Inr:
  assumes "snd (apply_in_preference_order a b) = Inr ar"
  shows "\<exists>ar0. (snd (check_applied a) = Inr ar0 \<or> snd (check_applied b) = Inr ar0)
     \<and> from_either (applied ar) = applied ar0 \<and> ar_picked ar = ar_picked ar0
     \<and> ar_touched ar = ar_touched ar0"
  using assms
  by (auto simp: apply_in_preference_order_def res_bind_Inr_iff split: prod.splits sum.splits)

lemma apply_in_preference_order_no_panic:
  "\<not> panics (snd (check_applied a)) \<Longrightarrow> \<not> panics (snd (check_applied b))
     \<Longrightarrow> \<not> panics (snd (apply_in_preference_order a b))"
  by (auto simp: apply_in_preference_order_def panics_res_bind split: prod.splits sum.splits)

lemma apply_select_Inr:
  assumes "snd (apply_select prefer a b) = Inr ar"
  shows "\<exists>ar0. (snd (check_applied a) = Inr ar0 \<or> snd (check_applied b) = Inr ar0)
     \<and> from_either (applied ar) = applied ar0 \<and> ar_picked ar = ar_picked ar0
     \<and> ar_touched ar = ar_touched ar0"
  using assms
  by (cases "prefer")
     (auto simp: apply_select_def res_bind_Inr_iff dest!: apply_in_preference_order_Inr)

lemma apply_select_applier:
  assumes l: "applier runl lay" and r: "applier runr lay"
  shows "applier (\<lambda>m. apply_select prefer (runl m) (runr m)) (\<lambda>e. lay (from_either e))"
proof -
  note cl = applier.checked_applier [OF l] and cr = applier.checked_applier [OF r]
  note laws = applier.run_picked [OF cl] applier.run_touched [OF cl] applier.run_defined [OF cl]
    applier.run_picked [OF cr] applier.run_touched [OF cr] applier.run_defined [OF cr]
  show ?thesis
  proof
    fix m show "\<not> panics (snd (apply_select prefer (runl m) (runr m)))"
      using applier.run_no_panic [OF cl, of m] applier.run_no_panic [OF cr, of m]
      by (cases "prefer")
         (auto simp: apply_select_def panics_res_bind apply_in_preference_order_no_panic)
  qed (drule apply_select_Inr, force dest: laws)+
qed

lemma layers_PEither: "layers (PEither e) = layers (from_either e)"
  by (cases e) auto

lemma layers_PUpgrade: "layers (PUpgrade i l r e p) = layers (from_either e)"
  by (cases e) auto

lemma apply_applier: "applier (apply_stack s) layers"
proof (induction s rule: num_selects.induct)
  case (1 n)
  have "apply_stack (Leaf n) = (\<lambda>m. ([], apply_leaf n m))" by (rule ext) simp
  then show ?case by (simp add: apply_leaf_applier)
next
  case 2
  show ?case by unfold_locales auto
next
  case (3 x)
  note x = applier.run_picked [OF "3.IH"] applier.run_touched [OF "3.IH"]
    applier.run_defined [OF "3.IH"] applier.run_no_panic [OF "3.IH"]
  show ?case
    by unfold_locales (auto simp: res_bind_Inr_iff panics_res_bind x(1,2,4) dest: x(3))
next
  case (4 h t)
  note hl = "4.IH"(1) and tl = "4.IH"(2)
  note h = applier.run_picked [OF hl] applier.run_touched [OF hl] applier.run_defined [OF hl]
  note t = applier.run_picked [OF tl] applier.run_touched [OF tl] applier.run_defined [OF tl]
  have ok: "\<exists>hr tr. snd (apply_stack h m) = Inr hr \<and> snd (apply_stack t (ar_picked hr)) = Inr tr
      \<and> applied ar = PCxList (applied hr) (applied tr) \<and> ar_picked ar = ar_picked tr
      \<and> ar_touched ar = ar_touched hr \<union> ar_touched tr"
    if "snd (apply_stack (CxList h t) m) = Inr ar" for m ar
    using that by (auto split: prod.splits sum.splits)
  have np: "is_panic e \<Longrightarrow> apply_stack h m \<noteq> (l, Inl e)" "is_panic e \<Longrightarrow> apply_stack t m \<noteq> (l, Inl e)"
    for m l e
    using applier.run_no_panic [OF hl, of m] applier.run_no_panic [OF tl, of m] by auto
  show ?case
  proof
    fix m show "\<not> panics (snd (apply_stack (CxList h t) m))"
      by (auto split: prod.splits sum.splits simp: np)
  qed (drule ok, force simp: h(1,2) t(1,2) dest: h(3) t(3))+
next
  case (5 l r p)
  note sel = apply_select_applier [OF "5.IH", of p]
  show ?case
    by unfold_locales
       (auto simp: res_bind_Inr_iff panics_res_bind layers_PEither applier.run_no_panic [OF sel]
          applier.run_picked [OF sel] applier.run_touched [OF sel] dest: applier.run_defined [OF sel])
next
  case (6 i l r p)
  note sel = apply_select_applier [OF "6.IH", of p]
  have ok: "\<exists>ar0. snd (apply_select p (apply_stack l m) (apply_stack r m)) = Inr ar0
      \<and> layers (applied ar) = layers (from_either (applied ar0)) \<and> ar_picked ar = ar_picked ar0
      \<and> ar_touched ar = ar_touched ar0"
    if "snd (apply_stack (UpgradeSelect i l r p) m) = Inr ar" for m ar
    using that by (auto simp: announce_def layers_PUpgrade split: prod.splits sum.splits)
  show ?case
  proof
    fix m show "\<not> panics (snd (apply_stack (UpgradeSelect i l r p) m))"
      using applier.run_no_panic [OF sel, of m] by (auto simp: announce_def split: prod.splits sum.splits)
  qed (drule ok, force dest: applier.run_picked [OF sel] applier.run_touched [OF sel]
        applier.run_defined [OF sel])+
qed

interpretation apply_of: applier "apply_stack s" layers for s :: "'c stack"
  by (rule apply_applier)

end
