(* ===== verification/Monomorphize.thy ===== *)
theory Monomorphize
  imports Pick Apply
begin

text \<open>
  Matching a client's offers against a stack (\<open>stack_pair_valid\<close>, \<open>compare_offers\<close> and
  \<open>monomorphize\<close> of \<open>bertha/src/negotiate/server.rs\<close>).

  \<open>monomorphize\<close> panics in two places, an \<open>assert!\<close> that some offer pair is left and an
  \<open>expect\<close> that the picked nonce is one of the stack's offers; neither can happen. What it returns
  is described by \<open>monomorphize_Inr\<close>.
\<close>

section \<open>Valid offer pairs\<close>

definition offer_valid :: "stack_nonce \<Rightarrow> u64 \<Rightarrow> offer \<Rightarrow> bool" where
  "offer_valid server guid off =
     (case sidedness off of
        Some uni \<Rightarrow>
          have_all uni
            (available off @ (case fmlookup server guid of Some srv \<Rightarrow> available srv | None \<Rightarrow> []))
      | None \<Rightarrow>
          (case fmlookup server guid of
             Some srv \<Rightarrow>
               \<not> (impl_guid off \<noteq> impl_guid srv
                  \<or> \<not> have_all (available off) (available srv)
                  \<or> \<not> have_all (available srv) (available off))
           | None \<Rightarrow> False))"

definition stack_pair_valid :: "stack_nonce \<Rightarrow> stack_nonce \<Rightarrow> bool" where
  "stack_pair_valid client server = fmpred (offer_valid server) client"

fun compare_inner :: "stack_nonce \<Rightarrow> stack_nonce list \<Rightarrow> offer_pair list \<Rightarrow> offer_pair list" where
  "compare_inner c [] valid_pairs = valid_pairs"
| "compare_inner c (s # server) valid_pairs =
     compare_inner c server (if stack_pair_valid c s then valid_pairs @ [(c, s)] else valid_pairs)"

fun compare_outer ::
  "stack_nonce list \<Rightarrow> stack_nonce list \<Rightarrow> offer_pair list \<Rightarrow> offer_pair list" where
  "compare_outer [] server valid_pairs = valid_pairs"
| "compare_outer (c # client) server valid_pairs =
     compare_outer client server (compare_inner c server valid_pairs)"

definition compare_offers :: "stack_nonce list \<Rightarrow> stack_nonce list \<Rightarrow> offer_pair list" where
  "compare_offers client server = compare_outer client server []"

lemma compare_inner_filter:
  "compare_inner c server acc = acc @ map (Pair c) (filter (stack_pair_valid c) server)"
  by (induction server arbitrary: acc) auto

lemma compare_outer_filter:
  "compare_outer client server acc =
     acc @ filter (\<lambda>(c, s). stack_pair_valid c s) (List.product client server)"
  by (induction client arbitrary: acc) (auto simp: compare_inner_filter filter_map comp_def)

text \<open>The two loops compute the valid part of the product, in order.\<close>

lemma compare_offers_filter:
  "compare_offers client server = filter (\<lambda>(c, s). stack_pair_valid c s) (List.product client server)"
  by (simp add: compare_offers_def compare_outer_filter)

lemma compare_offers_mem:
  "(c, s) \<in> set (compare_offers client server) \<longleftrightarrow>
     c \<in> set client \<and> s \<in> set server \<and> stack_pair_valid c s"
  by (auto simp: compare_offers_filter)

lemma stack_pair_validD:
  "stack_pair_valid c s \<Longrightarrow> fmlookup c g = Some off \<Longrightarrow> sidedness off = None \<Longrightarrow>
     \<exists>srv. fmlookup s g = Some srv \<and> impl_guid srv = impl_guid off
       \<and> set (available srv) = set (available off)"
  unfolding stack_pair_valid_def fmpred_iff
  by (drule spec, drule spec, drule mp, assumption)
     (auto simp: offer_valid_def have_all_def list_all_iff split: option.splits)

section \<open>monomorphize\<close>

definition same_available :: "stack_nonce \<Rightarrow> stack_nonce \<Rightarrow> bool" where
  "same_available picked opt =
     fmpred (\<lambda>g off. case fmlookup picked g of
                Some picked_offer \<Rightarrow> available picked_offer = available off
              | None \<Rightarrow> False) opt"

definition check_possibilities :: "stack_nonce \<Rightarrow> stack_nonce list \<Rightarrow> stack_nonce result" where
  "check_possibilities picked choices =
     (case List.find (same_available picked) choices of
        Some opt \<Rightarrow> Inr opt
      | None \<Rightarrow> Inl (Panic ''picked must be in choices''))"

definition monomorphize ::
  "('c \<Rightarrow> bytes) \<Rightarrow> ('a \<Rightarrow> bytes result) \<Rightarrow> 'c stack \<Rightarrow> stack_nonce list \<Rightarrow> 'a
     \<Rightarrow> ('c picked \<times> negotiate_msg \<times> stack_nonce list) result" where
  "monomorphize ser ser_addr stk client_offers from_addr =
     (let possibilities = offers ser stk;
          valid_pairs = compare_offers client_offers possibilities
      in res_bind (wrap_err ''error monomorphizing stack'' (check_touched_complete stk valid_pairs))
           (\<lambda>pr.
              if filtered_pairs pr = []
              then Inl (Panic ''assertion failed: !filtered_pairs.is_empty()'')
              else res_bind (check_possibilities (snd (last (filtered_pairs pr))) possibilities)
                (\<lambda>server_choice.
                   res_bind (ser_addr from_addr)
                     (\<lambda>a. Inr (pr_stack pr, ServerNonce a server_choice,
                                map fst (filtered_pairs pr))))))"

lemma same_available_xor_layers: "same_available (xor_layers ns s) s"
  by (auto simp: same_available_def fmpred_iff fmlookup_xor_layers)

lemma check_possibilities_found:
  assumes "s \<in> set choices"
  shows "\<exists>opt \<in> set choices. check_possibilities (xor_layers ns s) choices = Inr opt
     \<and> same_available (xor_layers ns s) opt"
proof -
  obtain opt where opt: "List.find (same_available (xor_layers ns s)) choices = Some opt"
    using assms same_available_xor_layers [of ns s] by (cases "List.find (same_available (xor_layers ns s)) choices")
      (auto simp: find_None_iff)
  then have "opt \<in> set choices" "same_available (xor_layers ns s) opt"
    by (auto simp: find_Some_iff)
  with opt show ?thesis by (auto simp: check_possibilities_def)
qed

text \<open>
  \<open>server_matches ser stk p c\<close>: the client nonce \<open>c\<close> agrees with some offer \<open>s\<close> of the server,
  the picked stack \<open>p\<close> covers all its two-sided capabilities, and \<open>s\<close> offers everything \<open>p\<close>
  touches, the two-sided part with the guids of \<open>p\<close>.
\<close>

definition server_matches :: "('c \<Rightarrow> bytes) \<Rightarrow> 'c stack \<Rightarrow> 'c picked \<Rightarrow> stack_nonce \<Rightarrow> bool" where
  "server_matches ser stk p c \<longleftrightarrow> (\<exists>s \<in> set (offers ser stk). stack_pair_valid c s
     \<and> (\<forall>g off. fmlookup c g = Some off \<longrightarrow> sidedness off = None \<longrightarrow> g \<in> touched_of (layers p))
     \<and> (\<forall>g \<in> touched_of (layers p). \<exists>off. fmlookup s g = Some off
          \<and> (sidedness off = None \<longrightarrow> impl_guid off = guid_xor (layers p) g)))"

lemma server_matchesE:
  assumes "server_matches ser stk p c"
  obtains s where "s \<in> set (offers ser stk)" and "stack_pair_valid c s"
    and "\<And>g off. fmlookup c g = Some off \<Longrightarrow> sidedness off = None \<Longrightarrow> g \<in> touched_of (layers p)"
    and "\<And>g. g \<in> touched_of (layers p) \<Longrightarrow> \<exists>off. fmlookup s g = Some off
           \<and> (sidedness off = None \<longrightarrow> impl_guid off = guid_xor (layers p) g)"
  using assms unfolding server_matches_def by blast

text \<open>
  The facts every successful \<open>monomorphize\<close> establishes. The last conjunct is what the handshake
  rests on: each client nonce of the reply was matched with an offer of the server, and on every
  capability the picked stack touches that offer carries the guids of the picked chunnels.
\<close>

lemma checked_nonempty:
  assumes "check_touched_complete stk ps = Inr pr"
  shows "filtered_pairs pr \<noteq> []"
  using assms unfolding check_touched_complete_def
  by (rule check_pairs_Inr) (auto simp: check_pair_complete_Inr)

lemma monomorphize_checked:
  assumes "check_touched_complete stk (compare_offers cs (offers ser stk)) = Inr pr"
  obtains opt s where "opt \<in> set (offers ser stk)" and "s \<in> set (offers ser stk)"
    and "same_available (xor_layers (layers (pr_stack pr)) s) opt"
    and "check_possibilities (snd (last (filtered_pairs pr))) (offers ser stk) = Inr opt"
proof -
  note ok = assms [unfolded check_touched_complete_def]
  obtain c s' where last: "last (filtered_pairs pr) = (c, s')" "(c, s') \<in> set (filtered_pairs pr)"
    using checked_nonempty [OF assms] by (metis last_in_set surj_pair)
  from pick_stack.complete_sound [OF ok last(2)]
  obtain s where "s \<in> set (offers ser stk)" "s' = xor_layers (layers (pr_stack pr)) s"
    by (auto simp: compare_offers_mem)
  with check_possibilities_found [of s "offers ser stk" "layers (pr_stack pr)"] last(1) that
  show thesis by auto
qed

lemma panics_check_pair_complete: "\<not> panics (check_pair_complete t p)"
  by (simp add: check_pair_complete_def Let_def)

lemma monomorphize_no_panic:
  assumes "\<not> panics (ser_addr a)"
  shows "\<not> panics (monomorphize ser ser_addr stk cs a)"
proof (cases "check_touched_complete stk (compare_offers cs (offers ser stk))")
  case (Inl e)
  have "\<not> panics (check_touched_complete stk (compare_offers cs (offers ser stk)))"
    unfolding check_touched_complete_def
    by (rule picker.run_no_panic [OF pick_stack.checked_picker])
       (simp_all add: check_pair_complete_Inr panics_check_pair_complete)
  with Inl show ?thesis by (simp add: monomorphize_def Let_def)
next
  case (Inr pr)
  from monomorphize_checked [OF Inr] obtain opt where
    "check_possibilities (snd (last (filtered_pairs pr))) (offers ser stk) = Inr opt" by blast
  with checked_nonempty [OF Inr] assms show ?thesis
    by (simp add: monomorphize_def Let_def Inr panics_res_bind)
qed

lemma monomorphize_Inr:
  assumes "monomorphize ser ser_addr stk cs a = Inr (p, msg, choices)"
  obtains opt abuf where "msg = ServerNonce abuf opt" and "ser_addr a = Inr abuf"
    and "opt \<in> set (offers ser stk)" and "choices \<noteq> []" and "set choices \<subseteq> set cs"
    and "\<And>c. c \<in> set choices \<Longrightarrow> server_matches ser stk p c"
proof -
  from assms obtain pr where
    pr: "check_touched_complete stk (compare_offers cs (offers ser stk)) = Inr pr"
    by (auto simp: monomorphize_def Let_def res_bind_Inr_iff)
  note ok = pr [unfolded check_touched_complete_def]
  from monomorphize_checked [OF pr] obtain opt where opt: "opt \<in> set (offers ser stk)"
    "check_possibilities (snd (last (filtered_pairs pr))) (offers ser stk) = Inr opt" by blast
  from assms pr opt(2) checked_nonempty [OF pr] obtain abuf where res:
    "p = pr_stack pr" "ser_addr a = Inr abuf" "msg = ServerNonce abuf opt"
    "choices = map fst (filtered_pairs pr)"
    by (auto simp: monomorphize_def Let_def res_bind_Inr_iff)
  have "server_matches ser stk p c" if "c \<in> set choices" for c
  proof -
    from that res(4) obtain s' where "(c, s') \<in> set (filtered_pairs pr)" by auto
    from pick_stack.complete_sound [OF ok this] show ?thesis
      unfolding server_matches_def res(1) by (auto simp: compare_offers_mem)
  qed
  moreover have "set choices \<subseteq> set cs"
    using res(4) pick_stack.complete_sound [OF ok] by (fastforce simp: compare_offers_mem)
  ultimately show thesis
    using that res opt(1) checked_nonempty [OF pr] by simp
qed

section \<open>Repeated offers\<close>

text \<open>
  Nothing removes duplicates: offering the same nonces \<open>n\<close> times picks the same stack and repeats
  the surviving pairs \<open>n\<close> times.
\<close>

definition rep :: "nat \<Rightarrow> 'a list \<Rightarrow> 'a list" where
  "rep n xs = concat (replicate n xs)"

definition rep_result :: "nat \<Rightarrow> 'p pick_result result \<Rightarrow> 'p pick_result option" where
  "rep_result n r =
     (case r of Inl _ \<Rightarrow> None | Inr pr \<Rightarrow> Some (pr\<lparr>filtered_pairs := rep n (filtered_pairs pr)\<rparr>))"

abbreviation ok_value :: "'p result \<Rightarrow> 'p option" where
  "ok_value r \<equiv> (case r of Inl _ \<Rightarrow> None | Inr x \<Rightarrow> Some x)"

lemma rep_simps [simp]:
  "rep n [] = []"
  "set (rep n xs) = (if n = 0 then {} else set xs)"
  "map f (rep n xs) = rep n (map f xs)"
  "length (rep n xs) = n * length xs"
  by (induction n) (auto simp: rep_def)

lemma rep_eq_Nil [simp]: "0 < n \<Longrightarrow> rep n xs = [] \<longleftrightarrow> xs = []"
  by (simp flip: length_0_conv)

lemma rep_filters:
  "filter P (rep n xs) = rep n (filter P xs)"
  "List.map_filter f (rep n xs) = rep n (List.map_filter f xs)"
  "oks (rep n rs) = rep n (oks rs)"
  by (induction n; simp add: rep_def List.map_filter_def oks_append)+

lemma rep_singleton: "rep n [x] = replicate n x"
  by (induction n) (auto simp: rep_def)

lemma check_pairs_rep:
  assumes "0 < n" and "ok_value r' = rep_result n r"
  shows "ok_value (check_pairs chk r') = rep_result n (check_pairs chk r)"
proof (cases r)
  case (Inl e)
  with assms(2) show ?thesis
    by (cases r') (auto simp: rep_result_def check_pairs_def)
next
  case (Inr pr)
  then obtain "r' = Inr (pr\<lparr>filtered_pairs := rep n (filtered_pairs pr)\<rparr>)"
    using assms(2) by (cases r') (auto simp: rep_result_def)
  with Inr assms(1) show ?thesis
    by (auto simp: rep_result_def check_pairs_def Let_def rep_filters list_all_iff)
qed

lemma pick_in_preference_order_rep:
  assumes "0 < n" and "ok_value a' = rep_result n a" and "ok_value b' = rep_result n b"
  shows "ok_value (pick_in_preference_order a' b') = rep_result n (pick_in_preference_order a b)"
  using assms
  by (cases a; cases a'; cases b; cases b')
     (auto simp: pick_in_preference_order_def rep_result_def Let_def map_pr_stack_def)

lemma pick_select_rep:
  assumes "0 < n" and "ok_value l' = rep_result n l" and "ok_value r' = rep_result n r"
  shows "ok_value (pick_select p l' r') = rep_result n (pick_select p l r)"
proof -
  have bind: "ok_value (res_bind x' (\<lambda>pr. Inr (map_pr_stack f pr)))
      = rep_result n (res_bind x (\<lambda>pr. Inr (map_pr_stack f pr)))"
    if "ok_value x' = rep_result n x" for x' x f
    using that by (cases x; cases x') (auto simp: rep_result_def map_pr_stack_def)
  note chk = check_pairs_rep [OF assms(1)]
  show ?thesis
    by (cases p)
       (auto simp: pick_select_def check_touched_partial_def
         intro!: bind pick_in_preference_order_rep assms chk)
qed

lemma pick_rep:
  assumes "0 < n"
  shows "ok_value (pick s (rep n ps)) = rep_result n (pick s ps)"
proof (induction s arbitrary: ps rule: num_selects.induct)
  case (1 m)
  then show ?case by (simp add: pick_leaf_def rep_result_def rep_filters)
next
  case 2
  show ?case by (simp add: rep_result_def)
next
  case (3 x)
  from "3.IH" [of ps] show ?case
    by (cases "pick x ps"; cases "pick x (rep n ps)") (auto simp: rep_result_def map_pr_stack_def)
next
  case (4 h t)
  show ?case
  proof (cases "pick h ps")
    case (Inl e)
    with "4.IH"(1) [of ps] show ?thesis
      by (cases "pick h (rep n ps)") (auto simp: rep_result_def)
  next
    case (Inr pr)
    with "4.IH"(1) [of ps] have h: "pick h (rep n ps) = Inr (pr\<lparr>filtered_pairs := rep n (filtered_pairs pr)\<rparr>)"
      by (cases "pick h (rep n ps)") (auto simp: rep_result_def)
    from "4.IH"(2) [of "filtered_pairs pr"] h Inr show ?thesis
      by (cases "pick t (filtered_pairs pr)"; cases "pick t (rep n (filtered_pairs pr))")
         (auto simp: rep_result_def)
  qed
qed (simp_all add: pick_select_rep assms)

lemma compare_offers_rep: "compare_offers (replicate n c) ss = rep n (compare_offers [c] ss)"
  by (induction n) (simp_all add: compare_offers_filter rep_def)

lemma monomorphize_rep:
  assumes "0 < n" and "monomorphize ser ser_addr stk [c] a = Inr (p, msg, choices)"
  shows "monomorphize ser ser_addr stk (replicate n c) a = Inr (p, msg, rep n choices)"
proof -
  let ?chk = "\<lambda>ps. check_touched_complete stk ps"
  let ?v = "compare_offers [c] (offers ser stk)"
  from assms(2) obtain pr where pr: "?chk ?v = Inr pr"
    by (auto simp: monomorphize_def Let_def res_bind_Inr_iff)
  have "ok_value (?chk (rep n ?v)) = rep_result n (?chk ?v)"
    unfolding check_touched_complete_def by (intro check_pairs_rep pick_rep assms)
  with pr have rep: "?chk (rep n ?v) = Inr (pr\<lparr>filtered_pairs := rep n (filtered_pairs pr)\<rparr>)"
    by (cases "?chk (rep n ?v)") (auto simp: rep_result_def)
  have last: "last (rep n xs) = last xs" if "xs \<noteq> []" for xs :: "offer_pair list"
    using assms(1) that by (induction n) (auto simp: rep_def last_append)
  from assms(2) checked_nonempty [OF pr] show ?thesis
    by (auto simp: monomorphize_def Let_def compare_offers_rep rep pr res_bind_Inr_iff last assms(1))
qed

end
