(* ===== verification/Negotiate_Server.thy ===== *)
theory Negotiate_Server
  imports Monomorphize
begin

text \<open>
  The server's side of the handshake (\<open>negotiate_server_connection\<close> and
  \<open>process_nonces_connection\<close> of \<open>bertha/src/negotiate/server.rs\<close>, with
  \<open>negotiate_picked.rs\<close>). One iteration of each loop is a function of what the connection's
  \<open>recv\<close> and \<open>send\<close> return in that iteration; the connections of one server share the map
  \<open>pending_negotiated_connections\<close> and are interleaved by \<open>server_step\<close>.

  \<open>bincode\<close> is a parameter (\<open>codec\<close>), as are the leaf chunnels' \<open>connect_wrap\<close>.
\<close>

section \<open>Informing the picked chunnels\<close>

text \<open>
  The calls \<open>picked(nonce)\<close> in the order in which they are made. There is no instance for
  \<open>UpgradeEitherApply\<close>; its clause is not reached from a \<open>Pick\<close>.
\<close>

fun call_negotiate_picked :: "'c picked \<Rightarrow> bytes \<Rightarrow> ('c negotiate \<times> bytes) list" where
  "call_negotiate_picked (PLeaf n) nonce = [(n, nonce)]"
| "call_negotiate_picked (POpt None) nonce = []"
| "call_negotiate_picked (POpt (Some p)) nonce = call_negotiate_picked p nonce"
| "call_negotiate_picked (PCxList h t) nonce =
     call_negotiate_picked h nonce @ call_negotiate_picked t nonce"
| "call_negotiate_picked (PEither (Left l)) nonce = call_negotiate_picked l nonce"
| "call_negotiate_picked (PEither (Right r)) nonce = call_negotiate_picked r nonce"
| "call_negotiate_picked (PUpgrade _ _ _ (Left l) _) nonce = call_negotiate_picked l nonce"
| "call_negotiate_picked (PUpgrade _ _ _ (Right r) _) nonce = call_negotiate_picked r nonce"

lemma call_negotiate_picked_layers:
  "call_negotiate_picked p nonce = map (\<lambda>n. (n, nonce)) (layers p)"
  by (induction p rule: layers.induct) auto

section \<open>State and environment\<close>

record ('c, 'a) codec =
  ser_cap :: "'c \<Rightarrow> bytes"
  ser_msg :: "negotiate_msg \<Rightarrow> bytes result"
  de_msg :: "bytes \<Rightarrow> negotiate_msg result"
  ser_addr :: "'a \<Rightarrow> bytes result"
  de_addr :: "bytes \<Rightarrow> 'a result"

text \<open>What the environment answers in one iteration: \<open>recv\<close>, \<open>send\<close> and the oneshot \<open>send\<close>.\<close>

record 'a turn =
  recv_ret :: "('a \<times> bytes) option list result"
  send_ret :: "unit result"
  inject_ret :: bool

datatype 'k phase =
    Listening
  | Nonces
  | Served "('k, 'k) either"
  | Exited
  | Failed failure

record ('c, 'a, 'k) srv_conn =
  conn_phase :: "'k phase"
  sent_msgs :: "('a \<times> bytes) list"
  picked_calls :: "('c negotiate \<times> bytes) list"
  injected :: "('a \<times> bytes) list"

type_synonym 'a pending = "('a, stack_nonce) map"

definition fresh_conn :: "('c, 'a, 'k) srv_conn" where
  "fresh_conn = \<lparr>conn_phase = Listening, sent_msgs = [], picked_calls = [], injected = []\<rparr>"

definition fail :: "failure \<Rightarrow> ('c, 'a, 'k) srv_conn \<Rightarrow> ('c, 'a, 'k) srv_conn" where
  "fail e s = s\<lparr>conn_phase := Failed e\<rparr>"

section \<open>One iteration of the negotiation loop\<close>

text \<open>\<open>pending.lock().insert(addr, picked)\<close> and the ack, shared by both loops.\<close>

definition accept_nonce ::
  "('c, 'a) codec \<Rightarrow> 'a turn \<Rightarrow> 'a \<Rightarrow> bytes \<Rightarrow> stack_nonce
     \<Rightarrow> 'a pending \<times> ('c, 'a, 'k) srv_conn \<Rightarrow> failure option \<times> 'a pending \<times> ('c, 'a, 'k) srv_conn" where
  "accept_nonce cd t a addr_buf picked ps =
     (case wrap_err ''mismatched addr types'' (de_addr cd addr_buf) of
        Inl e \<Rightarrow> (Some e, ps)
      | Inr addr \<Rightarrow>
          (let pend = (fst ps)(addr \<mapsto> picked) in
           case expect ''unwrap'' (ser_msg cd ServerNonceAck) of
             Inl e \<Rightarrow> (Some e, pend, snd ps)
           | Inr ack \<Rightarrow>
               (case send_ret t of
                  Inl e \<Rightarrow> (Some e, pend, snd ps)
                | Inr _ \<Rightarrow> (None, pend, (snd ps)\<lparr>sent_msgs := sent_msgs (snd ps) @ [(a, ack)]\<rparr>))))"

text \<open>
  The end of the \<open>ClientOffer\<close> and \<open>ClientNonce\<close> branches: send the serialized response, which
  has to fit in a packet, then connect the new stack or go on listening.
\<close>

definition respond_and_connect ::
  "('c picked \<Rightarrow> 'k result) \<Rightarrow> 'a turn \<Rightarrow> 'a \<Rightarrow> bytes result \<Rightarrow> 'c picked option
     \<Rightarrow> ('c, 'a, 'k) srv_conn \<Rightarrow> ('c, 'a, 'k) srv_conn" where
  "respond_and_connect cw t a resp_buf new_stack s =
     (case resp_buf of
        Inl e \<Rightarrow> fail e s
      | Inr buf \<Rightarrow>
          if \<not> length buf < 1500 then fail (Panic ''assertion failed: buf.len() < 1500'') s
          else (case send_ret t of
             Inl e \<Rightarrow> fail e s
           | Inr _ \<Rightarrow>
               (let s1 = s\<lparr>sent_msgs := sent_msgs s @ [(a, buf)]\<rparr> in
                case new_stack of
                  None \<Rightarrow> s1
                | Some p \<Rightarrow>
                    (case cw p of
                       Inl e \<Rightarrow> fail e s1
                     | Inr new_cn \<Rightarrow> s1\<lparr>conn_phase := Served (Left new_cn)\<rparr>))))"

text \<open>
  The \<open>match monomorphize(..)\<close> of both branches. \<open>on_ok\<close> is the reply to a match, \<open>on_err\<close> the
  reply to a mismatch, \<open>ser_resp\<close> how the branch serializes its reply.
\<close>

definition negotiate_offer ::
  "('c, 'a) codec \<Rightarrow> ('c picked \<Rightarrow> 'k result) \<Rightarrow> 'c stack \<Rightarrow> 'a turn \<Rightarrow> 'a \<Rightarrow> stack_nonce list
     \<Rightarrow> (stack_nonce list \<Rightarrow> negotiate_msg) \<Rightarrow> (failure \<Rightarrow> negotiate_msg)
     \<Rightarrow> (negotiate_msg \<Rightarrow> bytes result)
     \<Rightarrow> ('c, 'a, 'k) srv_conn \<Rightarrow> ('c, 'a, 'k) srv_conn" where
  "negotiate_offer cd cw stk t a client_offers on_ok on_err ser_resp s =
     (case monomorphize (ser_cap cd) (ser_addr cd) stk client_offers a of
        Inr (new_stack, nonce, picked_offers) \<Rightarrow>
          (case wrap_err ''Failed to serialize (addr, chosen_stack) nonce'' (ser_msg cd nonce) of
             Inl e \<Rightarrow> fail e s
           | Inr nonce_buf \<Rightarrow>
               respond_and_connect cw t a (ser_resp (on_ok picked_offers)) (Some new_stack)
                 (s\<lparr>picked_calls := picked_calls s @ call_negotiate_picked new_stack nonce_buf\<rparr>))
      | Inl e \<Rightarrow>
          if is_panic e then fail e s
          else respond_and_connect cw t a (ser_resp (on_err e)) None s)"

definition negotiate_client_offer ::
  "('c, 'a) codec \<Rightarrow> ('c picked \<Rightarrow> 'k result) \<Rightarrow> 'c stack \<Rightarrow> 'a turn \<Rightarrow> 'a \<Rightarrow> stack_nonce list
     \<Rightarrow> ('c, 'a, 'k) srv_conn \<Rightarrow> ('c, 'a, 'k) srv_conn" where
  "negotiate_client_offer cd cw stk t a client_offers s =
     negotiate_offer cd cw stk t a client_offers
       (\<lambda>picked_offers. ServerReply (Right picked_offers))
       (\<lambda>e. ServerReply (Left (report_string e)))
       (ser_msg cd) s"

definition negotiate_client_zero_rtt ::
  "('c, 'a) codec \<Rightarrow> ('c picked \<Rightarrow> 'k result) \<Rightarrow> 'c stack \<Rightarrow> 'a turn \<Rightarrow> 'a \<Rightarrow> stack_nonce
     \<Rightarrow> ('c, 'a, 'k) srv_conn \<Rightarrow> ('c, 'a, 'k) srv_conn" where
  "negotiate_client_zero_rtt cd cw stk t a client_offer s =
     negotiate_offer cd cw stk t a [client_offer]
       (\<lambda>_. ServerNonceAck)
       (\<lambda>_. ServerReply (Right (offers (ser_cap cd) stk)))
       (\<lambda>m. expect ''unwrap'' (ser_msg cd m)) s"

text \<open>A message from an address with a pending nonce: apply that nonce, hand the message on.\<close>

definition serve_prenegotiated ::
  "('c picked \<Rightarrow> 'k result) \<Rightarrow> 'c stack \<Rightarrow> 'a turn \<Rightarrow> 'a \<times> bytes \<Rightarrow> stack_nonce
     \<Rightarrow> ('c, 'a, 'k) srv_conn \<Rightarrow> ('c, 'a, 'k) srv_conn" where
  "serve_prenegotiated cw stk t msg picked s =
     (case wrap_err ''failed to apply semantics to client connection'' (snd (apply_stack stk picked)) of
        Inl e \<Rightarrow> fail e s
      | Inr ar \<Rightarrow>
          (case cw (applied ar) of
             Inl e \<Rightarrow> fail e s
           | Inr new_cn \<Rightarrow>
               if inject_ret t
               then s\<lparr>injected := injected s @ [msg], conn_phase := Served (Right new_cn)\<rparr>
               else fail (Err [''Send failed'']) s))"

definition negotiate_server_turn ::
  "('c, 'a) codec \<Rightarrow> ('c picked \<Rightarrow> 'k result) \<Rightarrow> 'c stack \<Rightarrow> 'a turn
     \<Rightarrow> 'a pending \<times> ('c, 'a, 'k) srv_conn \<Rightarrow> 'a pending \<times> ('c, 'a, 'k) srv_conn" where
  "negotiate_server_turn cd cw stk t ps =
     (let pend = fst ps; s = snd ps in
      case recv_ret t of
        Inl e \<Rightarrow> (pend, fail e s)
      | Inr [] \<Rightarrow> (pend, s)
      | Inr (None # _) \<Rightarrow> (pend, s)
      | Inr (Some (a, buf) # _) \<Rightarrow>
          (case pend a of
             Some picked \<Rightarrow> (pend, serve_prenegotiated cw stk t (a, buf) picked s)
           | None \<Rightarrow>
               (case de_msg cd buf of
                  Inl _ \<Rightarrow> (pend, s)
                | Inr (ServerNonce addr picked) \<Rightarrow>
                    (case accept_nonce cd t a addr picked (pend, s) of
                       (Some e, ps') \<Rightarrow> (fst ps', fail e (snd ps'))
                     | (None, ps') \<Rightarrow> (fst ps', (snd ps')\<lparr>conn_phase := Nonces\<rparr>))
                | Inr (ClientOffer client_offers) \<Rightarrow>
                    (pend, negotiate_client_offer cd cw stk t a client_offers s)
                | Inr (ClientNonce client_offer) \<Rightarrow>
                    (pend, negotiate_client_zero_rtt cd cw stk t a client_offer s)
                | Inr _ \<Rightarrow> (pend, s))))"

text \<open>
  One iteration of \<open>process_nonces_connection\<close>. A timeout is an error of \<open>recv_ret\<close>. Any error
  ends the loop and the connection returns \<open>Ok(None)\<close>; a panic stays a panic.
\<close>

definition exit_nonces :: "failure \<Rightarrow> ('c, 'a, 'k) srv_conn \<Rightarrow> ('c, 'a, 'k) srv_conn" where
  "exit_nonces e s = (if is_panic e then fail e s else s\<lparr>conn_phase := Exited\<rparr>)"

definition process_nonces_turn ::
  "('c, 'a) codec \<Rightarrow> 'a turn \<Rightarrow> 'a pending \<times> ('c, 'a, 'k) srv_conn
     \<Rightarrow> 'a pending \<times> ('c, 'a, 'k) srv_conn" where
  "process_nonces_turn cd t ps =
     (let pend = fst ps; s = snd ps in
      case recv_ret t of
        Inl e \<Rightarrow> (pend, exit_nonces e s)
      | Inr [] \<Rightarrow> (pend, s)
      | Inr (None # _) \<Rightarrow> (pend, s)
      | Inr (Some (a, buf) # _) \<Rightarrow>
          (case wrap_err ''offer deserialize failed'' (de_msg cd buf) of
             Inl e \<Rightarrow> (pend, exit_nonces e s)
           | Inr (ServerNonce addr picked) \<Rightarrow>
               (case accept_nonce cd t a addr picked (pend, s) of
                  (Some e, ps') \<Rightarrow> (fst ps', exit_nonces e (snd ps'))
                | (None, ps') \<Rightarrow> ps')
           | Inr _ \<Rightarrow> (pend, s)))"

definition conn_turn ::
  "('c, 'a) codec \<Rightarrow> ('c picked \<Rightarrow> 'k result) \<Rightarrow> 'c stack \<Rightarrow> 'a turn
     \<Rightarrow> 'a pending \<times> ('c, 'a, 'k) srv_conn \<Rightarrow> 'a pending \<times> ('c, 'a, 'k) srv_conn" where
  "conn_turn cd cw stk t ps =
     (case conn_phase (snd ps) of
        Listening \<Rightarrow> negotiate_server_turn cd cw stk t ps
      | Nonces \<Rightarrow> process_nonces_turn cd t ps
      | _ \<Rightarrow> ps)"

section \<open>The server: interleaved connections over one pending map\<close>

type_synonym ('c, 'a, 'k) server = "'a pending \<times> ('c, 'a, 'k) srv_conn list"

inductive server_step ::
  "('c, 'a) codec \<Rightarrow> ('c picked \<Rightarrow> 'k result) \<Rightarrow> 'c stack \<Rightarrow> 'a turn option
     \<Rightarrow> ('c, 'a, 'k) server \<Rightarrow> ('c, 'a, 'k) server \<Rightarrow> bool"
  for cd cw stk where
  accept: "server_step cd cw stk None (pend, cs) (pend, cs @ [fresh_conn])"
| turn: "i < length cs \<Longrightarrow> conn_turn cd cw stk t (pend, cs ! i) = (pend', c')
    \<Longrightarrow> server_step cd cw stk (Some t) (pend, cs) (pend', cs[i := c'])"

inductive server_reachable ::
  "('c, 'a) codec \<Rightarrow> ('c picked \<Rightarrow> 'k result) \<Rightarrow> 'c stack \<Rightarrow> ('a turn \<Rightarrow> bool)
     \<Rightarrow> ('c, 'a, 'k) server \<Rightarrow> bool"
  for cd cw stk ok where
  init: "server_reachable cd cw stk ok (Map.empty, [])"
| step: "server_reachable cd cw stk ok w \<Longrightarrow> server_step cd cw stk t w w'
    \<Longrightarrow> (\<And>t'. t = Some t' \<Longrightarrow> ok t') \<Longrightarrow> server_reachable cd cw stk ok w'"

inductive_cases server_stepE: "server_step cd cw stk t w w'"

text \<open>
  The general shape of an invariant of one connection: it holds of a fresh connection, a turn
  keeps it, and it is kept when another connection adds to the pending map.
\<close>

lemma server_invariantI:
  assumes reach: "server_reachable cd cw stk ok w"
    and fresh: "\<And>pend. I pend fresh_conn"
    and turn: "\<And>pend c t pend' c'. I pend c \<Longrightarrow> ok t \<Longrightarrow> conn_turn cd cw stk t (pend, c) = (pend', c')
          \<Longrightarrow> I pend' c' \<and> dom pend \<subseteq> dom pend'"
    and mono: "\<And>pend pend' c. I pend c \<Longrightarrow> dom pend \<subseteq> dom pend' \<Longrightarrow> I pend' c"
  shows "\<forall>c \<in> set (snd w). I (fst w) c"
  using reach
proof (induction rule: server_reachable.induct)
  case (step w t w')
  from step.hyps(2) show ?case
  proof (cases rule: server_step.cases)
    case (accept pend cs)
    with step.IH fresh show ?thesis by auto
  next
    case (turn i cs t' pend pend' c')
    have c': "I pend' c'" and dom: "dom pend \<subseteq> dom pend'"
      using assms(3) [of pend "cs ! i" t'] turn step by auto
    show ?thesis
    proof
      fix c assume "c \<in> set (snd w')"
      then have "c = c' \<or> c \<in> set cs" using turn set_update_subset_insert by fastforce
      then show "I (fst w') c" using c' dom mono step.IH turn by auto
    qed
  qed
qed simp

text \<open>How each kind of turn changes a connection.\<close>

lemma fail_phase [simp]: "conn_phase (fail e s) = Failed e"
  by (simp add: fail_def)

lemma accept_nonce_cases:
  assumes "accept_nonce cd t a addr_buf picked (pend, s) = (r, pend', s')"
  shows "dom pend \<subseteq> dom pend' \<and> conn_phase s' = conn_phase s \<and> picked_calls s' = picked_calls s
    \<and> injected s' = injected s
    \<and> (r = None \<longrightarrow> (\<exists>addr. de_addr cd addr_buf = Inr addr \<and> pend' = pend(addr \<mapsto> picked)))"
  using assms
  by (auto simp: accept_nonce_def Let_def split: sum.splits)

lemma conn_turn_dom:
  assumes "conn_turn cd cw stk t (pend, c) = (pend', c')"
  shows "dom pend \<subseteq> dom pend'"
  using assms
  by (auto simp: conn_turn_def negotiate_server_turn_def process_nonces_turn_def Let_def
      dest!: accept_nonce_cases
      split: phase.splits sum.splits list.splits option.splits prod.splits negotiate_msg.splits)

text \<open>What a connection that the server has returned, or is still negotiating, looks like.\<close>

definition conn_ok ::
  "('c, 'a) codec \<Rightarrow> ('c picked \<Rightarrow> 'k result) \<Rightarrow> 'c stack \<Rightarrow> 'a pending \<Rightarrow> ('c, 'a, 'k) srv_conn \<Rightarrow> bool"
where
  "conn_ok cd cw stk pend c \<longleftrightarrow>
     (case conn_phase c of
        Served (Left k) \<Rightarrow>
          \<exists>a cs p nonce choices nonce_buf buf.
             monomorphize (ser_cap cd) (ser_addr cd) stk cs a = Inr (p, nonce, choices)
           \<and> cw p = Inr k \<and> ser_msg cd nonce = Inr nonce_buf
           \<and> picked_calls c = map (\<lambda>n. (n, nonce_buf)) (layers p)
           \<and> sent_msgs c \<noteq> [] \<and> last (sent_msgs c) = (a, buf) \<and> length buf < 1500
           \<and> (ser_msg cd (ServerReply (Right choices)) = Inr buf
               \<or> length cs = 1 \<and> ser_msg cd ServerNonceAck = Inr buf)
      | Served (Right k) \<Rightarrow>
          \<exists>a buf picked ar. injected c = [(a, buf)] \<and> a \<in> dom pend
           \<and> snd (apply_stack stk picked) = Inr ar \<and> cw (applied ar) = Inr k \<and> picked_calls c = []
      | Failed _ \<Rightarrow> True
      | _ \<Rightarrow> picked_calls c = [] \<and> injected c = [])"

lemma conn_ok_mono: "conn_ok cd cw stk pend c \<Longrightarrow> dom pend \<subseteq> dom pend' \<Longrightarrow> conn_ok cd cw stk pend' c"
  unfolding conn_ok_def by (fastforce split: phase.splits either.splits)

lemma respond_and_connect_ok:
  assumes "respond_and_connect cw t a resp new_stack s = s'" and "conn_phase s = Listening"
  shows "(\<exists>e. conn_phase s' = Failed e)
    \<or> (\<exists>buf. resp = Inr buf \<and> length buf < 1500 \<and> last (sent_msgs s') = (a, buf) \<and> sent_msgs s' \<noteq> []
         \<and> picked_calls s' = picked_calls s \<and> injected s' = injected s
         \<and> (case new_stack of None \<Rightarrow> conn_phase s' = Listening
            | Some p \<Rightarrow> \<exists>k. cw p = Inr k \<and> conn_phase s' = Served (Left k)))"
  using assms
  by (auto simp: respond_and_connect_def Let_def split: sum.splits if_splits option.splits)

lemma negotiate_offer_ok:
  assumes s': "negotiate_offer cd cw stk t a cs on_ok on_err ser_resp s = s'"
    and s: "conn_phase s = Listening" "picked_calls s = []" "injected s = []"
    and resp: "\<And>choices buf. ser_resp (on_ok choices) = Inr buf \<Longrightarrow>
          ser_msg cd (ServerReply (Right choices)) = Inr buf
            \<or> length cs = 1 \<and> ser_msg cd ServerNonceAck = Inr buf"
  shows "conn_ok cd cw stk pend s'"
proof (cases "monomorphize (ser_cap cd) (ser_addr cd) stk cs a")
  case (Inl e)
  with s' s show ?thesis
    using respond_and_connect_ok [of cw t a "ser_resp (on_err e)" None s]
    by (auto simp: negotiate_offer_def conn_ok_def split: if_splits)
next
  case (Inr r)
  obtain p nonce choices where r: "r = (p, nonce, choices)" by (cases r)
  show ?thesis
  proof (cases "ser_msg cd nonce")
    case (Inl e)
    with s' Inr r show ?thesis by (auto simp: negotiate_offer_def conn_ok_def)
  next
    case (Inr nonce_buf)
    let ?s = "s\<lparr>picked_calls := map (\<lambda>n. (n, nonce_buf)) (layers p)\<rparr>"
    have "s' = respond_and_connect cw t a (ser_resp (on_ok choices)) (Some p) ?s"
      using s' s r Inr \<open>monomorphize (ser_cap cd) (ser_addr cd) stk cs a = Inr r\<close>
      by (simp add: negotiate_offer_def call_negotiate_picked_layers)
    from respond_and_connect_ok [OF this [symmetric]] s
    consider e where "conn_phase s' = Failed e"
      | buf k where "ser_resp (on_ok choices) = Inr buf" "length buf < 1500"
          "last (sent_msgs s') = (a, buf)" "sent_msgs s' \<noteq> []"
          "picked_calls s' = map (\<lambda>n. (n, nonce_buf)) (layers p)"
          "cw p = Inr k" "conn_phase s' = Served (Left k)"
      by auto
    then show ?thesis
    proof cases
      case 1
      then show ?thesis by (simp add: conn_ok_def)
    next
      case 2
      with resp [OF "2"(1)] Inr r \<open>monomorphize (ser_cap cd) (ser_addr cd) stk cs a = Inr r\<close>
      show ?thesis unfolding conn_ok_def "2"(7) phase.case either.case
        by (intro exI [of _ a] exI [of _ cs] exI [of _ p] exI [of _ nonce] exI [of _ choices]
            exI [of _ nonce_buf] exI [of _ buf]) auto
    qed
  qed
qed

lemma serve_prenegotiated_ok:
  assumes "conn_phase s = Listening" "picked_calls s = []" "injected s = []" "pend a = Some picked"
  shows "conn_ok cd cw stk pend (serve_prenegotiated cw stk t (a, buf) picked s)"
  using assms
  by (auto simp: serve_prenegotiated_def conn_ok_def split: sum.splits)

lemma conn_turn_ok:
  assumes inv: "conn_ok cd cw stk pend c" and step: "conn_turn cd cw stk t (pend, c) = (pend', c')"
  shows "conn_ok cd cw stk pend' c'"
proof (cases "conn_phase c")
  case Listening
  with inv have s: "picked_calls c = []" "injected c = []" by (simp_all add: conn_ok_def)
  from step Listening have turn: "negotiate_server_turn cd cw stk t (pend, c) = (pend', c')"
    by (simp add: conn_turn_def)
  have idle: "conn_ok cd cw stk pend c" by (fact inv)
  have offer: "conn_ok cd cw stk pend (negotiate_client_offer cd cw stk t a cs c)"
    "conn_ok cd cw stk pend (negotiate_client_zero_rtt cd cw stk t a m c)" for a cs m
    by (auto simp: negotiate_client_offer_def negotiate_client_zero_rtt_def Listening s
        intro!: negotiate_offer_ok [OF refl])
  show ?thesis
    using turn idle offer s Listening serve_prenegotiated_ok [OF Listening s]
    by (auto simp: negotiate_server_turn_def Let_def conn_ok_def [of _ _ _ _ "_\<lparr>conn_phase := Nonces\<rparr>"]
        conn_ok_def [of _ _ _ _ "fail _ _"]
        dest!: accept_nonce_cases
        split: sum.splits list.splits option.splits prod.splits negotiate_msg.splits)
next
  case Nonces
  with inv have s: "picked_calls c = []" "injected c = []" by (simp_all add: conn_ok_def)
  from step Nonces have turn: "process_nonces_turn cd t (pend, c) = (pend', c')"
    by (simp add: conn_turn_def)
  show ?thesis
    using turn inv s Nonces
    by (auto simp: process_nonces_turn_def exit_nonces_def Let_def conn_ok_def
        dest!: accept_nonce_cases
        split: sum.splits list.splits option.splits prod.splits negotiate_msg.splits if_splits)
qed (use inv step in \<open>auto simp: conn_turn_def\<close>)

lemma server_conn_ok:
  assumes "server_reachable cd cw stk ok w"
  shows "\<forall>c \<in> set (snd w). conn_ok cd cw stk (fst w) c"
  using assms
proof (rule server_invariantI)
  show "conn_ok cd cw stk pend fresh_conn" for pend
    by (simp add: conn_ok_def fresh_conn_def)
qed (auto intro: conn_turn_ok conn_ok_mono dest: conn_turn_dom)

section \<open>Panics of the server\<close>

text \<open>The environment does not panic by itself: \<open>recv\<close>, \<open>send\<close>, the codec and the chunnels return errors.\<close>

definition calm_turn :: "'a turn \<Rightarrow> bool" where
  "calm_turn t \<longleftrightarrow> \<not> panics (recv_ret t) \<and> \<not> panics (send_ret t)"

definition calm_codec :: "('c, 'a) codec \<Rightarrow> bool" where
  "calm_codec cd \<longleftrightarrow> (\<forall>m. is_ok (ser_msg cd m)) \<and> (\<forall>b. \<not> panics (de_msg cd b))
     \<and> (\<forall>a. \<not> panics (ser_addr cd a)) \<and> (\<forall>b. \<not> panics (de_addr cd b))"

lemma calm_codecD:
  assumes "calm_codec cd"
  shows "is_ok (ser_msg cd m)" and "\<not> panics (ser_msg cd m)" and "\<not> panics (de_msg cd b)"
    and "\<not> panics (ser_addr cd a)" and "\<not> panics (de_addr cd b)"
  using assms by (simp_all add: calm_codec_def is_ok_no_panic)

abbreviation too_long :: failure where
  "too_long \<equiv> Panic ''assertion failed: buf.len() < 1500''"

definition only_too_long :: "('c, 'a, 'k) srv_conn \<Rightarrow> bool" where
  "only_too_long c \<longleftrightarrow> (\<forall>e. conn_phase c = Failed e \<longrightarrow> is_panic e \<longrightarrow> e = too_long)"

lemma only_too_long_simps [simp]:
  "only_too_long (fail e x) \<longleftrightarrow> (is_panic e \<longrightarrow> e = too_long)"
  "\<not> is_panic e \<Longrightarrow> only_too_long (exit_nonces e x)"
  "only_too_long (x\<lparr>conn_phase := Nonces\<rparr>)"
  "only_too_long (x\<lparr>picked_calls := l\<rparr>) = only_too_long x"
  by (simp_all add: only_too_long_def exit_nonces_def)

lemma respond_and_connect_panic:
  assumes "calm_turn t" "only_too_long s" "\<And>p. \<not> panics (cw p)" "\<not> panics resp"
  shows "only_too_long (respond_and_connect cw t a resp new_stack s)"
  using assms
  by (auto simp: only_too_long_def respond_and_connect_def Let_def calm_turn_def
      dest: no_panicD [OF _ assms(3)]
      split: sum.splits option.splits if_splits)

lemma negotiate_offer_panic:
  assumes "calm_turn t" "calm_codec cd" "only_too_long s" "\<And>p. \<not> panics (cw p)"
    "\<And>m. \<not> panics (ser_resp m)"
  shows "only_too_long (negotiate_offer cd cw stk t a cs on_ok on_err ser_resp s)"
proof (cases "monomorphize (ser_cap cd) (ser_addr cd) stk cs a")
  case (Inl e)
  have "\<not> panics (monomorphize (ser_cap cd) (ser_addr cd) stk cs a)"
    using assms(2) by (simp add: calm_codec_def monomorphize_no_panic)
  with Inl assms show ?thesis
    by (auto simp: negotiate_offer_def intro: respond_and_connect_panic)
next
  case (Inr r)
  obtain p nonce choices where r: "r = (p, nonce, choices)" by (cases r)
  from calm_codecD(1) [OF assms(2)] obtain b where "ser_msg cd nonce = Inr b"
    unfolding is_ok_iff by blast
  with Inr r assms show ?thesis
    by (auto simp: negotiate_offer_def intro!: respond_and_connect_panic)
qed

lemma serve_prenegotiated_panic:
  assumes "only_too_long s" "\<And>p. \<not> panics (cw p)"
  shows "only_too_long (serve_prenegotiated cw stk t m picked s)"
proof (cases "snd (apply_stack stk picked)")
  case (Inl e)
  with apply_of.run_no_panic [of stk picked] show ?thesis
    by (simp add: serve_prenegotiated_def only_too_long_def)
next
  case (Inr ar)
  with assms(1) assms(2) [of "applied ar"] show ?thesis
    by (cases "cw (applied ar)") (auto simp: serve_prenegotiated_def only_too_long_def)
qed

lemma accept_nonce_panic:
  assumes "accept_nonce cd t a addr_buf picked ps = (Some e, ps')" "calm_turn t" "calm_codec cd"
  shows "\<not> is_panic e"
proof -
  from assms(3) have "is_ok (ser_msg cd ServerNonceAck)" "\<not> panics (de_addr cd addr_buf)"
    by (simp_all add: calm_codec_def)
  with assms(1,2) show ?thesis
    by (auto simp: accept_nonce_def Let_def calm_turn_def is_ok_iff panics_def split: sum.splits)
qed

lemma conn_turn_panic:
  assumes inv: "only_too_long c" and calm: "calm_turn t" "calm_codec cd" "\<And>p. \<not> panics (cw p)"
    and step: "conn_turn cd cw stk t (pend, c) = (pend', c')"
  shows "only_too_long c'"
proof -
  have resp: "\<not> panics (ser_msg cd m)" "\<not> panics (expect u (ser_msg cd m))" for m u
    using calm_codecD [OF calm(2)] by auto
  have recv: "recv_ret t = Inl e \<Longrightarrow> \<not> is_panic e" for e
    using calm(1) by (auto simp: calm_turn_def)
  have de: "wrap_err ctx (de_msg cd b) = Inl e \<Longrightarrow> \<not> is_panic e" for ctx b e
    using calm_codecD(3) [OF calm(2)] no_panicD panics_wrap_err by blast
  have offer: "only_too_long (negotiate_client_offer cd cw stk t a cs c)"
    "only_too_long (negotiate_client_zero_rtt cd cw stk t a m c)" for a cs m
    unfolding negotiate_client_offer_def negotiate_client_zero_rtt_def
    by (intro negotiate_offer_panic calm inv resp)+
  have pre: "only_too_long (serve_prenegotiated cw stk t m picked c)" for m picked
    by (rule serve_prenegotiated_panic [OF inv calm(3)])
  note acc = accept_nonce_panic [OF _ calm(1,2)]
  show ?thesis
  proof (cases "conn_phase c")
    case Listening
    with step inv offer pre show ?thesis
      by (auto simp: conn_turn_def negotiate_server_turn_def Let_def dest!: recv acc
          split: sum.splits list.splits option.splits prod.splits negotiate_msg.splits)
  next
    case Nonces
    have same: "only_too_long s'" if "accept_nonce cd t a b picked (pend, c) = (r, q, s')" for a b picked r q s'
      using accept_nonce_cases [OF that] Nonces by (simp add: only_too_long_def)
    from step Nonces inv show ?thesis
      by (auto simp: conn_turn_def process_nonces_turn_def Let_def dest!: recv de acc dest: same
          split: sum.splits list.splits option.splits prod.splits negotiate_msg.splits)
  qed (use inv step in \<open>auto simp: conn_turn_def\<close>)
qed

lemma server_only_too_long:
  assumes "server_reachable cd cw stk calm_turn w" "calm_codec cd" "\<And>p. \<not> panics (cw p)"
  shows "\<forall>c \<in> set (snd w). only_too_long c"
  using assms(1)
proof (rule server_invariantI)
  show "only_too_long fresh_conn" by (simp add: only_too_long_def fresh_conn_def)
next
  fix pend pend' c c' t
  assume "only_too_long c" "calm_turn t" "conn_turn cd cw stk t (pend, c) = (pend', c')"
  with assms(2,3) conn_turn_dom show "only_too_long c' \<and> dom pend \<subseteq> dom pend'"
    by (meson conn_turn_panic)
qed

text \<open>
  A client that repeats one acceptable offer gets it back as often in the reply, so that it can
  make the reply as long as it likes.
\<close>

lemma repeated_offer_reply:
  assumes "0 < n" and "monomorphize (ser_cap cd) (ser_addr cd) stk [c] a = Inr (p, nonce, choices)"
    and "ser_msg cd nonce = Inr nonce_buf"
    and "ser_msg cd (ServerReply (Right (rep n choices))) = Inr buf" and "1500 \<le> length buf"
    and "recv_ret t = Inr [Some (a, msg)]" and "de_msg cd msg = Inr (ClientOffer (replicate n c))"
    and "pend a = None" and "conn_phase s = Listening"
  shows "conn_phase (snd (conn_turn cd cw stk t (pend, s))) = Failed too_long"
  using assms monomorphize_rep [OF assms(1,2)]
  by (simp add: conn_turn_def negotiate_server_turn_def negotiate_client_offer_def
      negotiate_offer_def respond_and_connect_def)

end
