(* ===== verification/Negotiate_Client.thy ===== *)
theory Negotiate_Client
  imports Negotiate_Server
begin

text \<open>
  The client's side of the handshake (\<open>bertha/src/negotiate/client.rs\<close>): the one-rtt handshake
  with its retry loop, the zero-rtt handshake on a fixed stack, the receive check of a zero-rtt
  connection and the \<open>ClientNegotiator\<close> that keeps nonces per address.

  The central lemma, \<open>handshake_agrees\<close>, joins this theory with the server's: when the client
  applies one of the nonces of the server's reply, the two ends use the same implementations, up to
  the XOR of their guids, of every two-sided capability that the client's stack touches.
\<close>

section \<open>Choosing among the server's replies\<close>

text \<open>
  The loop over \<open>picked\<close>: \<open>sc\<close> and \<open>best\<close> are the score and the result of the best nonce so far
  and \<open>apply_err\<close> accumulates the errors of the nonces that did not apply.
\<close>

type_synonym 'c choice = "'c picked \<times> stack_nonce"

fun choose_loop ::
  "'c stack \<Rightarrow> stack_nonce list \<Rightarrow> nat \<Rightarrow> 'c choice option \<Rightarrow> failure \<Rightarrow> 'c choice result" where
  "choose_loop stk [] sc best apply_err =
     (case best of
        Some c \<Rightarrow> Inr c
      | None \<Rightarrow> Inl (wrap_report ''All received options failed to apply'' apply_err))"
| "choose_loop stk (p # ps) sc best apply_err =
     (case wrap_err ''Could not apply received impls to stack'' (snd (check_apply stk p)) of
        Inr ar \<Rightarrow>
          (if ar_score ar > sc \<or> best = None
           then choose_loop stk ps (ar_score ar) (Some (applied ar, p)) apply_err
           else choose_loop stk ps sc best apply_err)
      | Inl e \<Rightarrow> choose_loop stk ps sc best (wrap_report (report_string e) apply_err))"

definition choose_applied :: "'c stack \<Rightarrow> stack_nonce list \<Rightarrow> 'c choice result" where
  "choose_applied stk picked =
     choose_loop stk (if picked = [] then [fmempty] else picked) 0 None (Err [''Apply error''])"

section \<open>The one-rtt handshake\<close>

text \<open>
  \<open>try_once\<close> under its timeout. An attempt is what \<open>send\<close> returns and what the \<open>recv\<close>s return
  until the timeout; the result is \<open>None\<close> when it elapses first.
\<close>

type_synonym 'a slots = "('a \<times> bytes) option list"

fun first_msg :: "'a slots result list \<Rightarrow> ('a \<times> bytes) result option" where
  "first_msg [] = None"
| "first_msg (Inl e # rs) = Some (Inl e)"
| "first_msg (Inr [] # rs) = first_msg rs"
| "first_msg (Inr (None # _) # rs) = first_msg rs"
| "first_msg (Inr (Some m # _) # rs) = Some (Inr m)"

record 'a attempt =
  att_send :: "unit result"
  att_recvs :: "'a slots result list"

definition parse_reply :: "('c, 'a) codec \<Rightarrow> bytes \<Rightarrow> negotiate_msg result" where
  "parse_reply cd rbuf =
     (if rbuf = [] then Inr (ServerReply (Right []))
      else wrap_err ''Could not deserialize negotiate_server response'' (de_msg cd rbuf))"

definition try_once :: "('c, 'a) codec \<Rightarrow> 'a attempt \<Rightarrow> negotiate_msg result option" where
  "try_once cd att =
     (case att_send att of
        Inl e \<Rightarrow> Some (Inl e)
      | Inr _ \<Rightarrow>
          map_option (\<lambda>r. res_bind r (\<lambda>m. parse_reply cd (snd m))) (first_msg (att_recvs att)))"

text \<open>
  The retry loop over the attempts that the network allows, with the number of times the offer
  was sent; \<open>None\<close> while every attempt has timed out.
\<close>

fun offer_loop :: "('c, 'a) codec \<Rightarrow> 'a attempt list \<Rightarrow> nat \<times> negotiate_msg result option" where
  "offer_loop cd [] = (0, None)"
| "offer_loop cd (att # atts) =
     (case try_once cd att of
        Some r \<Rightarrow> (1, Some r)
      | None \<Rightarrow> apfst Suc (offer_loop cd atts))"

definition try_negotiate_offer_loop ::
  "('c, 'a) codec \<Rightarrow> negotiate_msg \<Rightarrow> 'a attempt list \<Rightarrow> negotiate_msg result option" where
  "try_negotiate_offer_loop cd off atts =
     (case ser_msg cd off of
        Inl e \<Rightarrow> Some (Inl e)
      | Inr buf \<Rightarrow> snd (offer_loop cd atts))"

text \<open>
  What the client does with the reply: choose, inform the chunnels of the nonce, connect. The
  first component lists the calls of \<open>picked\<close>.
\<close>

definition finish_handshake ::
  "('c, 'a) codec \<Rightarrow> ('c picked \<Rightarrow> 'k result) \<Rightarrow> 'c stack \<Rightarrow> 'a \<Rightarrow> negotiate_msg
     \<Rightarrow> ('c negotiate \<times> bytes) list \<times> ('k \<times> stack_nonce) result" where
  "finish_handshake cd cw stk addr resp =
     (case resp of
        ServerReply (Right picked) \<Rightarrow>
          (case choose_applied stk picked of
             Inl e \<Rightarrow> ([], Inl e)
           | Inr (ns, nonce) \<Rightarrow>
               (case res_bind (ser_addr cd addr) (\<lambda>a. ser_msg cd (ServerNonce a nonce)) of
                  Inl e \<Rightarrow> ([], Inl e)
                | Inr buf \<Rightarrow>
                    (call_negotiate_picked ns buf, res_bind (cw ns) (\<lambda>cn. Inr (cn, nonce)))))
      | ServerReply (Left errmsg) \<Rightarrow> ([], eyre errmsg)
      | _ \<Rightarrow> ([], eyre ''Received unknown message type''))"

definition negotiate_client_fetch_nonce ::
  "('c, 'a) codec \<Rightarrow> ('c picked \<Rightarrow> 'k result) \<Rightarrow> 'c stack \<Rightarrow> 'a \<Rightarrow> 'a attempt list
     \<Rightarrow> (('c negotiate \<times> bytes) list \<times> ('k \<times> stack_nonce) result) option" where
  "negotiate_client_fetch_nonce cd cw stk addr atts =
     map_option (\<lambda>r. case r of Inl e \<Rightarrow> ([], Inl e) | Inr resp \<Rightarrow> finish_handshake cd cw stk addr resp)
       (try_negotiate_offer_loop cd (ClientOffer (offers (ser_cap cd) stk)) atts)"

definition negotiate_client ::
  "('c, 'a) codec \<Rightarrow> ('c picked \<Rightarrow> 'k result) \<Rightarrow> 'c stack \<Rightarrow> 'a \<Rightarrow> 'a attempt list
     \<Rightarrow> (('c negotiate \<times> bytes) list \<times> 'k result) option" where
  "negotiate_client cd cw stk addr atts =
     map_option (apsnd (\<lambda>r. res_bind r (\<lambda>x. Inr (fst x))))
       (negotiate_client_fetch_nonce cd cw stk addr atts)"

section \<open>The zero-rtt handshake\<close>

text \<open>
  A resolved stack as a stack again, for its offers. \<open>GetOffers\<close> has no instance for \<open>Either\<close>
  and \<open>UpgradeEitherApply\<close>; their clauses are not reached.
\<close>

fun as_stack :: "'c picked \<Rightarrow> 'c stack" where
  "as_stack (PLeaf n) = Leaf n"
| "as_stack (POpt None) = OptStack None"
| "as_stack (POpt (Some p)) = OptStack (Some (as_stack p))"
| "as_stack (PCxList h t) = CxList (as_stack h) (as_stack t)"
| "as_stack (PEither (Left a)) = as_stack a"
| "as_stack (PEither (Right b)) = as_stack b"
| "as_stack (PUpgrade _ _ _ (Left a) _) = as_stack a"
| "as_stack (PUpgrade _ _ _ (Right b) _) = as_stack b"

definition fixed_nonce :: "('c \<Rightarrow> bytes) \<Rightarrow> 'c picked \<Rightarrow> stack_nonce result" where
  "fixed_nonce ser p =
     (case offers ser (as_stack p) of
        [] \<Rightarrow> eyre ''No StackNonce available''
      | [nonce] \<Rightarrow> Inr nonce
      | _ # _ # _ \<Rightarrow> eyre ''Stack should not have Selects'')"

text \<open>
  The messages sent, the calls of \<open>picked\<close>, and the connection. \<open>send_ret\<close> is what \<open>cn.send\<close>
  returns; \<open>cw\<close> connects over the connection wrapped in a \<open>CheckZeroRttNegotiationReply\<close>.
\<close>

type_synonym ('c, 'a, 'k) zero_rtt_run =
  "('a \<times> bytes) list \<times> ('c negotiate \<times> bytes) list \<times> 'k result"

definition negotiate_client_fixed_stack ::
  "('c, 'a) codec \<Rightarrow> ('c picked \<Rightarrow> 'k result) \<Rightarrow> unit result \<Rightarrow> 'c picked \<Rightarrow> 'a
     \<Rightarrow> ('c, 'a, 'k) zero_rtt_run" where
  "negotiate_client_fixed_stack cd cw sret stk addr =
     (case res_bind (fixed_nonce (ser_cap cd) stk)
             (\<lambda>nonce. res_bind (ser_msg cd (ClientNonce nonce)) (\<lambda>buf. Inr (nonce, buf))) of
        Inl e \<Rightarrow> ([], [], Inl e)
      | Inr (nonce, buf) \<Rightarrow>
          (case sret of
             Inl e \<Rightarrow> ([], [], Inl e)
           | Inr _ \<Rightarrow>
               (case res_bind (ser_addr cd addr) (\<lambda>a. ser_msg cd (ServerNonce a nonce)) of
                  Inl e \<Rightarrow> ([(addr, buf)], [], Inl e)
                | Inr inform \<Rightarrow> ([(addr, buf)], call_negotiate_picked stk inform, cw stk))))"

definition negotiate_client_nonce ::
  "('c, 'a) codec \<Rightarrow> ('c picked \<Rightarrow> 'k result) \<Rightarrow> unit result \<Rightarrow> 'c stack \<Rightarrow> stack_nonce \<Rightarrow> 'a
     \<Rightarrow> ('c, 'a, 'k) zero_rtt_run" where
  "negotiate_client_nonce cd cw sret stk nonce addr =
     (case snd (apply_stack stk nonce) of
        Inl e \<Rightarrow> ([], [], Inl e)
      | Inr ar \<Rightarrow> negotiate_client_fixed_stack cd cw sret (applied ar) addr)"

text \<open>\<open>bincode::serialize(&String::new())\<close> is the argument \<open>empty_addr\<close>.\<close>

definition client_monomorphize ::
  "('c \<Rightarrow> bytes) \<Rightarrow> bytes result \<Rightarrow> 'c stack \<Rightarrow> stack_nonce list \<Rightarrow> stack_nonce result" where
  "client_monomorphize ser empty_addr stk server_offers =
     res_bind (monomorphize ser (\<lambda>_. empty_addr) stk server_offers ())
       (\<lambda>r. case r of
          (_, ServerNonce _ picked, _) \<Rightarrow> Inr picked
        | _ \<Rightarrow> Inl (Panic ''internal error: entered unreachable code''))"

section \<open>Receiving on a zero-rtt connection\<close>

datatype zero_rtt_error =
    NotAccepted "stack_nonce list"
  | UnexpectedResponse negotiate_msg
  | UnexpectedError string

datatype 'a zero_rtt_recv =
    Delivered "'a slots"
  | Rejected zero_rtt_error
  | RecvFailed failure

text \<open>
  One call of \<open>recv\<close>: \<open>slot_recvs\<close> are the results of \<open>inner.recv(&mut slot)\<close> up to the first
  message, \<open>buf_recv\<close> the result of \<open>inner.recv(msgs_buf)\<close> where that is called. The new value of
  \<open>success\<close> comes first; \<open>None\<close> if no message has arrived.
\<close>

definition zero_rtt_check ::
  "('c, 'a) codec \<Rightarrow> 'a slots result \<Rightarrow> 'a \<times> bytes \<Rightarrow> bool \<times> 'a zero_rtt_recv" where
  "zero_rtt_check cd buf_recv m =
     (case de_msg cd (snd m) of
        Inr ServerNonceAck \<Rightarrow>
          (True, case buf_recv of Inr ms \<Rightarrow> Delivered ms | Inl e \<Rightarrow> RecvFailed e)
      | Inl _ \<Rightarrow> (False, Delivered [Some m])
      | Inr (ServerReply (Right options)) \<Rightarrow> (False, Rejected (NotAccepted options))
      | Inr (ServerReply (Left s)) \<Rightarrow> (False, Rejected (UnexpectedError s))
      | Inr x \<Rightarrow> (False, Rejected (UnexpectedResponse x)))"

definition zero_rtt_recv ::
  "('c, 'a) codec \<Rightarrow> bool \<Rightarrow> 'a slots result list \<Rightarrow> 'a slots result \<Rightarrow> (bool \<times> 'a zero_rtt_recv) option"
where
  "zero_rtt_recv cd success slot_recvs buf_recv =
     (if success
      then Some (True, case buf_recv of Inr ms \<Rightarrow> Delivered ms | Inl e \<Rightarrow> RecvFailed e)
      else map_option
             (\<lambda>r. case r of Inl e \<Rightarrow> (False, RecvFailed e) | Inr m \<Rightarrow> zero_rtt_check cd buf_recv m)
             (first_msg slot_recvs))"

section \<open>ClientNegotiator\<close>

record 'a client_negotiator =
  nonces :: "('a, stack_nonce) map"

definition default_negotiator :: "'a client_negotiator" where
  "default_negotiator = \<lparr>nonces = Map.empty\<rparr>"

definition negotiate_fetch_nonce ::
  "('c, 'a) codec \<Rightarrow> ('c picked \<Rightarrow> 'k result) \<Rightarrow> 'a client_negotiator \<Rightarrow> 'c stack \<Rightarrow> 'a
     \<Rightarrow> 'a attempt list \<Rightarrow> ('a client_negotiator \<times> 'k result) option" where
  "negotiate_fetch_nonce cd cw self stk addr atts =
     map_option
       (\<lambda>x. case snd x of
              Inl e \<Rightarrow> (self, Inl e)
            | Inr (cn, nonce) \<Rightarrow> (self\<lparr>nonces := (nonces self)(addr \<mapsto> nonce)\<rparr>, Inr cn))
       (negotiate_client_fetch_nonce cd cw stk addr atts)"

definition negotiate_zero_rtt ::
  "('c, 'a) codec \<Rightarrow> ('c picked \<Rightarrow> 'k result) \<Rightarrow> unit result \<Rightarrow> 'a client_negotiator \<Rightarrow> 'c stack
     \<Rightarrow> 'a \<Rightarrow> ('c, 'a, 'k) zero_rtt_run" where
  "negotiate_zero_rtt cd cw sret self stk addr =
     (case nonces self addr of
        None \<Rightarrow> ([], [], eyre ''No nonce found for addr'')
      | Some nonce \<Rightarrow> negotiate_client_nonce cd cw sret stk nonce addr)"

text \<open>\<open>None\<close> as the returned error is a report that does not downcast to a \<open>ZeroRttNegotiationError\<close>.\<close>

definition re_negotiate ::
  "('c, 'a) codec \<Rightarrow> bytes result \<Rightarrow> ('c picked \<Rightarrow> 'k result) \<Rightarrow> unit result \<Rightarrow> 'a client_negotiator
     \<Rightarrow> 'c stack \<Rightarrow> 'a \<Rightarrow> zero_rtt_error option \<Rightarrow> 'a client_negotiator \<times> ('c, 'a, 'k) zero_rtt_run" where
  "re_negotiate cd empty_addr cw sret self stk addr returned_error =
     (case returned_error of
        None \<Rightarrow> (self, [], [], eyre ''Renegotation only works with an error returned from negotiate_zero_rtt'')
      | Some (NotAccepted ns) \<Rightarrow>
          (case client_monomorphize (ser_cap cd) empty_addr stk ns of
             Inl e \<Rightarrow> (self, [], [], Inl e)
           | Inr picked \<Rightarrow>
               (self\<lparr>nonces := (nonces self)(addr \<mapsto> picked)\<rparr>,
                negotiate_client_nonce cd cw sret stk picked addr))
      | Some _ \<Rightarrow> (self, [], [], eyre ''Non-negotiation error''))"

section \<open>The chosen nonce\<close>

lemma check_apply_applier: "applier (check_apply stk) layers"
proof -
  have "check_apply stk = (\<lambda>m. check_applied (apply_stack stk m))"
    by (rule ext) (simp add: check_apply_def)
  then show ?thesis using apply_of.checked_applier by simp
qed

interpretation checked: applier "check_apply s" layers for s :: "'c stack"
  by (rule check_apply_applier)

text \<open>
  The reference for the loop: of the nonces that apply, the first of the highest score.
\<close>

definition candidates :: "'c stack \<Rightarrow> stack_nonce list \<Rightarrow> (nat \<times> 'c choice) list" where
  "candidates stk ps =
     oks (map (\<lambda>p. res_bind (snd (check_apply stk p)) (\<lambda>ar. Inr (ar_score ar, applied ar, p))) ps)"

definition better :: "nat \<times> 'x \<Rightarrow> (nat \<times> 'x) option \<Rightarrow> (nat \<times> 'x) option" where
  "better c best = (case best of None \<Rightarrow> Some c | Some b \<Rightarrow> if fst c > fst b then Some c else Some b)"

definition first_best :: "(nat \<times> 'x) list \<Rightarrow> nat \<times> 'x \<Rightarrow> bool" where
  "first_best cs b \<longleftrightarrow> (\<exists>pre post. cs = pre @ b # post \<and> (\<forall>c \<in> set pre. fst c < fst b)
     \<and> (\<forall>c \<in> set post. fst c \<le> fst b))"

lemma first_best_snoc:
  assumes "first_best seen b"
  shows "better c (Some b) = Some b' \<Longrightarrow> first_best (seen @ [c]) b'"
proof -
  from assms obtain pre post where *: "seen = pre @ b # post" "\<forall>c \<in> set pre. fst c < fst b"
    "\<forall>c \<in> set post. fst c \<le> fst b" by (auto simp: first_best_def)
  assume b': "better c (Some b) = Some b'"
  show ?thesis
  proof (cases "fst c > fst b")
    case True
    with b' have "b' = c" by (simp add: better_def)
    with True * show ?thesis
      unfolding first_best_def by (intro exI [of _ seen] exI [of _ "[]"]) force
  next
    case False
    with b' have "b' = b" by (simp add: better_def)
    with False * show ?thesis
      unfolding first_best_def by (intro exI [of _ pre] exI [of _ "post @ [c]"]) auto
  qed
qed

lemma fold_better_first_best:
  "first_best seen b \<Longrightarrow> \<exists>b'. fold better cs (Some b) = Some b' \<and> first_best (seen @ cs) b'"
proof (induction cs arbitrary: seen b)
  case (Cons c cs)
  obtain b1 where b1: "better c (Some b) = Some b1" by (cases "fst c > fst b") (simp_all add: better_def)
  from Cons.IH [OF first_best_snoc [OF Cons.prems b1]] b1 show ?case by simp
qed simp

lemma fold_better_None:
  "cs \<noteq> [] \<Longrightarrow> \<exists>b. fold better cs None = Some b \<and> first_best cs b"
proof (cases cs)
  case (Cons c cs')
  have "first_best [c] c" unfolding first_best_def by (intro exI [of _ "[]"]) simp
  from fold_better_first_best [OF this, of cs'] Cons show ?thesis by (simp add: better_def)
qed simp

lemma choose_loop_fold:
  "(best = None \<Longrightarrow> sc = 0) \<Longrightarrow>
   ok_value (choose_loop stk ps sc best err)
     = map_option snd (fold better (candidates stk ps) (map_option (Pair sc) best))"
proof (induction ps arbitrary: sc best err)
  case (Cons p ps)
  have cands: "candidates stk (p # ps) =
      (case snd (check_apply stk p) of Inl _ \<Rightarrow> [] | Inr ar \<Rightarrow> [(ar_score ar, applied ar, p)]) @ candidates stk ps"
    by (cases "snd (check_apply stk p)") (simp_all add: candidates_def)
  have step: "better c (Some b) = (if fst c > fst b then Some c else Some b)" "better c None = Some c"
    for c b :: "nat \<times> 'a choice" by (simp_all add: better_def)
  have some: "ok_value (choose_loop stk ps n (Some c) e)
      = map_option snd (fold better (candidates stk ps) (Some (n, c)))" for n c e
    using Cons.IH [of "Some c" n e] by simp
  show ?case
    by (cases "snd (check_apply stk p)"; cases best)
       (simp_all add: cands step some Cons.IH Cons.prems)
qed (auto simp: candidates_def split: option.splits)

lemma choose_applied_spec:
  assumes "picked \<noteq> []"
  shows "(candidates stk picked = [] \<longrightarrow> \<not> is_ok (choose_applied stk picked))
    \<and> (candidates stk picked \<noteq> [] \<longrightarrow>
        (\<exists>sc c. choose_applied stk picked = Inr c \<and> first_best (candidates stk picked) (sc, c)))"
proof -
  let ?r = "choose_applied stk picked"
  have eq: "ok_value ?r = map_option snd (fold better (candidates stk picked) None)"
    using assms choose_loop_fold [of None 0 stk picked] by (simp add: choose_applied_def)
  show ?thesis
  proof (cases "candidates stk picked = []")
    case True
    with eq show ?thesis by (cases ?r) auto
  next
    case False
    from fold_better_None [OF this] obtain sc c where
      "fold better (candidates stk picked) None = Some (sc, c)"
      "first_best (candidates stk picked) (sc, c)" by auto
    with eq False show ?thesis by (cases ?r) auto
  qed
qed

lemma choose_applied_mem:
  assumes "choose_applied stk picked = Inr (ns, nonce)" and "picked \<noteq> []"
  shows "nonce \<in> set picked \<and> (\<exists>ar. snd (check_apply stk nonce) = Inr ar \<and> applied ar = ns)"
proof -
  from choose_applied_spec [OF assms(2), of stk] assms(1) obtain sc where
    "first_best (candidates stk picked) (sc, ns, nonce)" by (cases "candidates stk picked = []") auto
  then have "(sc, ns, nonce) \<in> set (candidates stk picked)" by (auto simp: first_best_def)
  then show ?thesis by (auto simp: candidates_def set_oks Inr_res_bind_iff)
qed

section \<open>Agreement of client and server\<close>

text \<open>
  A capability type fixes its guid and its universe. \<open>typed U s\<close>: the chunnels of \<open>s\<close> use
  capability types whose universe by guid is \<open>U\<close>. Two-sided capabilities are those with
  \<open>U g = None\<close>.
\<close>

fun stack_leaves :: "'c stack \<Rightarrow> 'c negotiate list" where
  "stack_leaves (Leaf n) = [n]"
| "stack_leaves (OptStack None) = []"
| "stack_leaves (OptStack (Some x)) = stack_leaves x"
| "stack_leaves (CxList h t) = stack_leaves h @ stack_leaves t"
| "stack_leaves (Select l r _) = stack_leaves l @ stack_leaves r"
| "stack_leaves (UpgradeSelect _ l r _) = stack_leaves l @ stack_leaves r"

definition typed :: "(u64 \<Rightarrow> 'c list option) \<Rightarrow> 'c stack \<Rightarrow> bool" where
  "typed U s \<longleftrightarrow> list_all (\<lambda>n. universe n = U (cap_guid n)) (stack_leaves s)"

lemma typed_simps [simp]:
  "typed U (Leaf n) \<longleftrightarrow> universe n = U (cap_guid n)"
  "typed U (OptStack None)"
  "typed U (OptStack (Some x)) = typed U x"
  "typed U (CxList h t) \<longleftrightarrow> typed U h \<and> typed U t"
  "typed U (Select l r p) \<longleftrightarrow> typed U l \<and> typed U r"
  "typed U (UpgradeSelect i l r p) \<longleftrightarrow> typed U l \<and> typed U r"
  by (simp_all add: typed_def)

lemma offers_typed:
  "typed U s \<Longrightarrow> m \<in> set (offers ser s) \<Longrightarrow> fmlookup m g = Some off
     \<Longrightarrow> sidedness off = map_option (map ser) (U g)"
proof (induction s arbitrary: m off rule: num_selects.induct)
  case (1 n)
  then show ?case by (auto simp: leaf_offer_def get_offer_def split: if_splits)
next
  case (4 h t)
  from "4.prems" obtain mh mt where m: "m = merge mh mt" "mh \<in> set (offers ser h)" "mt \<in> set (offers ser t)"
    by auto
  with "4.prems" "4.IH"(1) [OF _ m(2)] "4.IH"(2) [OF _ m(3)] show ?case
    by (auto simp: fmlookup_merge join_offer_def split: option.splits)
qed auto

lemma handshake_agrees:
  assumes srv: "typed U srv" and cln: "typed U cln"
    and mono: "monomorphize ser ser_a srv (offers ser cln) a = Inr (p, msg, choices)"
    and choose: "choose_applied cln choices = Inr (ns, nonce)"
    and g: "g \<in> touched_of (layers ns)" "U g = None"
  shows "g \<in> touched_of (layers p) \<and> guid_xor (layers ns) g = guid_xor (layers p) g"
proof (rule monomorphize_Inr [OF mono])
  assume ne: "choices \<noteq> []" and sub: "set choices \<subseteq> set (offers ser cln)"
    and pair: "\<And>c. c \<in> set choices \<Longrightarrow> server_matches ser srv p c"
  from choose_applied_mem [OF choose ne] obtain ar where
    nonce: "nonce \<in> set choices" "snd (check_apply cln nonce) = Inr ar" "applied ar = ns" by blast
  from apply_of.checked_sound [of cln nonce ar g] nonce g obtain off where
    off: "fmlookup nonce g = Some off" "sidedness off = None \<longrightarrow> impl_guid off = guid_xor (layers ns) g"
    by (auto simp: check_apply_def)
  have two: "sidedness off = None"
    using offers_typed [OF cln _ off(1)] nonce(1) sub g(2) by auto
  show ?thesis
  proof (rule server_matchesE [OF pair [OF nonce(1)]])
    fix s assume s: "s \<in> set (offers ser srv)" "stack_pair_valid nonce s"
      and all: "\<And>g off. fmlookup nonce g = Some off \<Longrightarrow> sidedness off = None \<Longrightarrow> g \<in> touched_of (layers p)"
      and impl: "\<And>g. g \<in> touched_of (layers p) \<Longrightarrow> \<exists>off. fmlookup s g = Some off
           \<and> (sidedness off = None \<longrightarrow> impl_guid off = guid_xor (layers p) g)"
    have touched: "g \<in> touched_of (layers p)" by (rule all [OF off(1) two])
    from impl [OF this] obtain srv_off where srv_off: "fmlookup s g = Some srv_off"
      "sidedness srv_off = None \<longrightarrow> impl_guid srv_off = guid_xor (layers p) g" by (elim exE conjE)
    from stack_pair_validD [OF s(2) off(1) two] offers_typed [OF srv s(1) srv_off(1)] srv_off g(2)
    have "impl_guid off = guid_xor (layers p) g" by simp
    with off(2) two touched show ?thesis by simp
  qed
qed

end
