(* ===== verification/Handshake.thy ===== *)
theory Handshake
  imports Negotiate_Client
begin

text \<open>
  The properties of negotiation: what offers, picks and applications guarantee, that client and
  server agree after a handshake, and what the server's connection loop keeps invariant. Small
  concrete chunnels and codecs show that the hypotheses can be met.
\<close>

section \<open>Sample chunnels\<close>

text \<open>
  Two implementations \<open>ex_a\<close> and \<open>ex_b\<close> of one two-sided capability, one of a one-sided
  capability, and stacks built from them. Capability values are natural numbers below 256.
\<close>

definition ex_a :: "nat negotiate" where
  "ex_a = \<lparr>neg_guid = 0x11, cap_guid = 7, universe = None, capabilities = []\<rparr>"

definition ex_b :: "nat negotiate" where
  "ex_b = \<lparr>neg_guid = 0x12, cap_guid = 7, universe = None, capabilities = [1]\<rparr>"

definition ex_one :: "nat negotiate" where
  "ex_one = \<lparr>neg_guid = 0x21, cap_guid = 9, universe = Some [1, 2], capabilities = [1, 2]\<rparr>"

definition ex_ser :: "nat \<Rightarrow> bytes" where
  "ex_ser n = [of_nat n]"

definition ex_srv :: "nat stack" where
  "ex_srv = CxList (Leaf ex_one) (CxList (select_from (Leaf ex_a, Leaf ex_b)) (Leaf (cx_nil 0)))"

definition ex_cln :: "nat stack" where
  "ex_cln = CxList (prefer_right (select_from (Leaf ex_a, Leaf ex_b))) (Leaf (cx_nil 0))"

definition ex_U :: "u64 \<Rightarrow> nat list option" where
  "ex_U g = (if g = 7 then None else if g = 9 then Some [1, 2] else Some [0])"

definition ex_addr :: "unit \<Rightarrow> bytes result" where
  "ex_addr a = Inr []"

definition ex_p :: "nat picked" where
  "ex_p = PCxList (PLeaf ex_one) (PCxList (PEither (Left (PLeaf ex_a))) (PLeaf (cx_nil 0)))"

definition ex_ns :: "nat picked" where
  "ex_ns = PCxList (PEither (Left (PLeaf ex_a))) (PLeaf (cx_nil 0))"

definition ex_msg :: negotiate_msg where
  "ex_msg = ServerNonce [] (hd (offers ex_ser ex_srv))"

definition ex_choices :: "stack_nonce list" where
  "ex_choices = [hd (offers ex_ser ex_cln)]"

lemma ex_typed: "typed ex_U ex_srv" "typed ex_U ex_cln"
  by code_simp+

lemma ex_monomorphize:
  "monomorphize ex_ser ex_addr ex_srv (offers ex_ser ex_cln) () = Inr (ex_p, ex_msg, ex_choices)"
  by code_simp

lemma ex_choose: "choose_applied ex_cln ex_choices = Inr (ex_ns, hd ex_choices)"
  by code_simp

lemma ex_touched: "7 \<in> touched_of (layers ex_ns)" "ex_U 7 = None"
  by (simp_all add: ex_ns_def ex_a_def cx_nil_def ex_U_def)

section \<open>Agreement after a handshake\<close>

text \<open>
  C1: After a one-rtt handshake, client and server run the same implementations of every two-sided
  capability the client's stack touches: the server's picked stack touches it too, and the guids of
  the chunnels that implement it XOR to the same value at both ends. The hypotheses are the server's
  \<open>monomorphize\<close> on the client's own offers, the client's choice among the nonces of the reply, and
  that both stacks take a capability's universe from its type.
\<close>

theorem handshake_agreement:
  assumes "typed U srv" and "typed U cln"
    and "monomorphize ser ser_a srv (offers ser cln) a = Inr (p, msg, choices)"
    and "choose_applied cln choices = Inr (ns, nonce)"
  shows "\<forall>g \<in> touched_of (layers ns). U g = None \<longrightarrow>
           g \<in> touched_of (layers p) \<and> guid_xor (layers ns) g = guid_xor (layers p) g"
  using handshake_agrees [OF assms] by blast

theorem handshake_agreement_witness:
  "7 \<in> touched_of (layers ex_p) \<and> guid_xor (layers ex_ns) 7 = guid_xor (layers ex_p) 7"
  using handshake_agreement [OF ex_typed ex_monomorphize ex_choose] ex_touched by blast

text \<open>
  The converse of the agreement fails. Against a server whose only offer is \<open>ex_a\<close>, a client
  that prefers an empty stack to \<open>ex_a\<close> gets back the nonce with \<open>ex_a\<close>, applies its empty
  alternative to it without an error, and connects with no chunnel while the server runs \<open>ex_a\<close>.
\<close>

definition ex_opt_cln :: "nat stack" where
  "ex_opt_cln = select_from (Leaf (cx_nil 0), Leaf ex_a)"

lemma client_skips_two_sided_capability:
  "typed ex_U ex_opt_cln \<and> typed ex_U (Leaf ex_a) \<and>
   (case monomorphize ex_ser ex_addr (Leaf ex_a) (offers ex_ser ex_opt_cln) () of
      Inl _ \<Rightarrow> False
    | Inr (p, _, choices) \<Rightarrow>
        p = PLeaf ex_a \<and>
        (case choose_applied ex_opt_cln choices of
           Inl _ \<Rightarrow> False
         | Inr (ns, nonce) \<Rightarrow>
             ns = PEither (Left (PLeaf (cx_nil 0))) \<and> 7 |\<in>| fmdom nonce
             \<and> guid_xor (layers p) 7 \<noteq> guid_xor (layers ns) 7))"
  by code_simp

section \<open>monomorphize\<close>

text \<open>
  C22: \<open>monomorphize\<close> never panics, whatever the client offers: neither the \<open>assert!\<close> that a pair
  of offers is left nor the \<open>expect\<close> that the picked nonce is among the stack's offers can fail.
\<close>

theorem monomorphize_never_panics:
  assumes "\<And>x. \<not> panics (ser_a x)"
  shows "\<not> panics (monomorphize ser ser_a stk client_offers a)"
  using assms by (rule monomorphize_no_panic)

theorem monomorphize_never_panics_witness:
  "\<not> panics (monomorphize ex_ser ex_addr ex_srv [fmempty] ())"
  by (rule monomorphize_never_panics) (simp add: ex_addr_def)

text \<open>
  C2: What a successful \<open>monomorphize\<close> returns. The nonce for the other servers is one of the
  stack's own offers, under the client's address; the client nonces are a non-empty selection of
  those the client sent, and each agrees with an offer of the server that carries the guids of the
  picked stack on every two-sided capability it touches.
\<close>

theorem monomorphize_result:
  assumes "monomorphize ser ser_a stk client_offers a = Inr (p, msg, choices)"
  shows "(\<exists>abuf nonce. msg = ServerNonce abuf nonce \<and> ser_a a = Inr abuf \<and> nonce \<in> set (offers ser stk))
     \<and> choices \<noteq> [] \<and> set choices \<subseteq> set client_offers
     \<and> (\<forall>c \<in> set choices. server_matches ser stk p c)"
  by (rule monomorphize_Inr [OF assms]) blast

theorem monomorphize_result_witness:
  "set ex_choices \<subseteq> set (offers ex_ser ex_cln) \<and> server_matches ex_ser ex_srv ex_p (hd ex_choices)"
  using monomorphize_result [OF ex_monomorphize] by (simp add: ex_choices_def)

text \<open>
  \<open>compare_offers\<close>, a doubly nested loop, returns exactly the valid (client, server) pairs, in
  the order of the client's list and then the server's.
\<close>

lemma compare_offers_is_filtered_product:
  "compare_offers client server = filter (\<lambda>(c, s). stack_pair_valid c s) (List.product client server)"
  by (rule compare_offers_filter)

text \<open>
  The nonce that \<open>monomorphize\<close> passes on need not be the one it picked. \<open>check_possibilities\<close>
  compares capabilities only, so among two alternatives that provide the same capabilities it
  returns the first; here the server picks its preferred right side, and the nonce names the left.
\<close>

definition ex_a2 :: "nat negotiate" where
  "ex_a2 = \<lparr>neg_guid = 0x13, cap_guid = 7, universe = None, capabilities = []\<rparr>"

definition ex_alt :: "nat stack" where
  "ex_alt = prefer_right (select_from (Leaf ex_a, Leaf ex_a2))"

lemma nonce_is_not_the_picked_stack:
  "case monomorphize ex_ser ex_addr ex_alt (offers ex_ser ex_alt) () of
     Inl _ \<Rightarrow> False
   | Inr (p, msg, _) \<Rightarrow>
       layers p = [ex_a2] \<and> map_option impl_guid (fmlookup (nonce_picked msg) 7) = Some (neg_guid ex_a)"
  by code_simp

section \<open>Offers\<close>



text \<open>
  Nested \<open>Select\<close>s give fewer than \<open>2 ^ (number of selects)\<close> offers, and one absent optional
  chunnel in a list leaves no offer at all, although a pick accepts it.
\<close>

lemma offers_fewer_than_documented:
  "length (offers ex_ser (select_from (select_from (Leaf ex_a, Leaf ex_b), Leaf ex_one))) = 3
   \<and> num_selects (select_from (select_from (Leaf ex_a, Leaf ex_b), Leaf ex_one)) = 2
   \<and> offers ex_ser (CxList (OptStack None) s) = []
   \<and> is_ok (pick (CxList (OptStack None) (Leaf ex_a)) [])"
proof -
  have "offers ex_ser (CxList (OptStack None) s) = []" by simp
  moreover have "length (offers ex_ser (select_from (select_from (Leaf ex_a, Leaf ex_b), Leaf ex_one))) = 3
     \<and> num_selects (select_from (select_from (Leaf ex_a, Leaf ex_b), Leaf ex_one)) = 2
     \<and> is_ok (pick (CxList (OptStack None) (Leaf ex_a)) [])" by code_simp
  ultimately show ?thesis by simp
qed

text \<open>
  The merge of two nonces does not depend on the order in which the entries of the left
  \<open>HashMap\<close> are visited, and its entry for a capability is the XOR of the guids and the
  concatenation of the capabilities of both sides.
\<close>

lemma merge_independent_of_order:
  assumes "distinct (map fst es)" and "map_of es = fmlookup l"
  shows "fold merge_entry es r = merge l r
     \<and> fmlookup (merge l r) k =
         (case fmlookup l k of
            None \<Rightarrow> fmlookup r k
          | Some off \<Rightarrow> Some (case fmlookup r k of None \<Rightarrow> off | Some ent \<Rightarrow> join_offer ent off))"
  using merge_any_order [OF assms] fmlookup_merge by blast

lemma merge_independent_of_order_example:
  "fold merge_entry [(9, the (get_offer ex_ser ex_one)), (7, the (get_offer ex_ser ex_a))] fmempty
     = merge (fmap_of_list [(7, the (get_offer ex_ser ex_a)), (9, the (get_offer ex_ser ex_one))]) fmempty"
  by (rule merge_independent_of_order [THEN conjunct1])
     (simp, rule ext, simp add: fmlookup_of_list)

section \<open>Pick and apply\<close>

text \<open>
  What \<open>check_touched_complete\<close> establishes. Each pair it keeps is one of the pairs passed in,
  with the guids of the picked chunnels XOR-ed into the server's nonce; the client's two-sided
  capabilities are all among those of the picked stack; and the server's nonce offers every
  capability that the picked stack touches, with its guids where it is two-sided.
\<close>

lemma check_touched_complete_sound:
  assumes "check_touched_complete stk ps = Inr pr" and "(c, s') \<in> set (filtered_pairs pr)"
  shows "\<exists>s. (c, s) \<in> set ps \<and> s' = xor_layers (layers (pr_stack pr)) s
    \<and> (\<forall>g off. fmlookup c g = Some off \<longrightarrow> sidedness off = None
         \<longrightarrow> g \<in> touched_of (layers (pr_stack pr)))
    \<and> (\<forall>g\<in>touched_of (layers (pr_stack pr)). \<exists>off. fmlookup s g = Some off
         \<and> (sidedness off = None \<longrightarrow> impl_guid off = guid_xor (layers (pr_stack pr)) g))"
  using pick_stack.complete_sound [OF assms(1) [unfolded check_touched_complete_def] assms(2)] .

definition ex_nonce_a :: stack_nonce where
  "ex_nonce_a = leaf_offer ex_ser ex_a"

definition ex_pr :: "nat picked pick_result" where
  "ex_pr = \<lparr>pr_stack = PLeaf ex_a, filtered_pairs = [(ex_nonce_a, toggle ex_a ex_nonce_a)],
     touched_cap_guids = {7}\<rparr>"

lemma ex_pick: "check_touched_complete (Leaf ex_a) [(ex_nonce_a, ex_nonce_a)] = Inr ex_pr"
  by code_simp

lemma check_touched_complete_sound_example:
  "\<exists>s. (ex_nonce_a, s) \<in> set [(ex_nonce_a, ex_nonce_a)] \<and> toggle ex_a ex_nonce_a = xor_layers [ex_a] s"
  using check_touched_complete_sound [OF ex_pick, of ex_nonce_a "toggle ex_a ex_nonce_a"]
  by (auto simp: ex_pr_def)

text \<open>
  A checked application agrees with its nonce: the applied chunnels' capabilities are all in the
  nonce, and the nonce gives, for each two-sided one, the XOR of their guids.
\<close>

lemma check_apply_sound:
  assumes "snd (check_apply stk m) = Inr ar"
  shows "ar_picked ar = xor_layers (layers (applied ar)) m
     \<and> (\<forall>g \<in> touched_of (layers (applied ar)). \<exists>off. fmlookup m g = Some off
         \<and> (sidedness off = None \<longrightarrow> impl_guid off = guid_xor (layers (applied ar)) g))"
  using checked.run_picked [OF assms] apply_of.checked_sound [OF assms [unfolded check_apply_def]]
  by blast

lemma check_apply_sound_example:
  "\<exists>off. fmlookup (hd ex_choices) 7 = Some off \<and> (sidedness off = None \<longrightarrow> impl_guid off = neg_guid ex_a)"
proof -
  have "case snd (check_apply ex_cln (hd ex_choices)) of Inr ar \<Rightarrow> applied ar = ex_ns | Inl _ \<Rightarrow> False"
    by code_simp
  then obtain ar where ar: "snd (check_apply ex_cln (hd ex_choices)) = Inr ar" "applied ar = ex_ns"
    by (cases "snd (check_apply ex_cln (hd ex_choices))") auto
  from check_apply_sound [OF ar(1)] ar(2) ex_touched(1) show ?thesis
    by (auto simp: ex_ns_def ex_a_def cx_nil_def)
qed

text \<open>
  Of the nonces in the server's reply, the client uses the first with the highest score among
  those that apply to its stack, and fails exactly if none applies.
\<close>

lemma client_chooses_first_best:
  assumes "picked \<noteq> []"
  shows "(candidates stk picked = [] \<longrightarrow> \<not> is_ok (choose_applied stk picked))
    \<and> (candidates stk picked \<noteq> [] \<longrightarrow>
        (\<exists>sc c. choose_applied stk picked = Inr c \<and> first_best (candidates stk picked) (sc, c)))"
  using assms by (rule choose_applied_spec)

lemma client_chooses_first_best_example:
  "\<not> is_ok (choose_applied (Leaf ex_a) [fmempty])"
proof -
  have "candidates (Leaf ex_a) [fmempty] = []" by code_simp
  with client_chooses_first_best [of "[fmempty]" "Leaf ex_a"] show ?thesis by simp
qed

section \<open>The server's connections\<close>

text \<open>
  A codec that decodes the message \<open>[1]\<close> to the sample client's offers and \<open>[n]\<close>, for another
  \<open>n\<close>, to \<open>n\<close> repetitions of the first of them, and encodes a reply in ten bytes per nonce.
\<close>

definition ex_de_msg :: "bytes \<Rightarrow> negotiate_msg result" where
  "ex_de_msg b =
     (if b = [1] then Inr (ClientOffer (offers ex_ser ex_cln))
      else if length b = 1 then Inr (ClientOffer (replicate (unat (hd b)) (hd (offers ex_ser ex_cln))))
      else eyre ''invalid'')"

fun ex_ser_msg :: "negotiate_msg \<Rightarrow> bytes result" where
  "ex_ser_msg (ServerReply (Right ns)) = Inr (replicate (10 * length ns) 0)"
| "ex_ser_msg _ = Inr [0]"

definition ex_codec :: "(nat, unit) codec" where
  "ex_codec = \<lparr>ser_cap = ex_ser, ser_msg = ex_ser_msg, de_msg = ex_de_msg, ser_addr = ex_addr,
     de_addr = \<lambda>_. Inr ()\<rparr>"

definition ex_turn :: "bytes \<Rightarrow> unit turn" where
  "ex_turn b = \<lparr>recv_ret = Inr [Some ((), b)], send_ret = Inr (), inject_ret = True\<rparr>"

definition ex_served :: "(nat, unit, nat picked) srv_conn" where
  "ex_served = snd (conn_turn ex_codec Inr ex_srv (ex_turn [1]) (Map.empty, fresh_conn))"

lemma ex_served_turn:
  "conn_turn ex_codec Inr ex_srv (ex_turn [1]) (Map.empty, fresh_conn) = (Map.empty, ex_served)"
  "conn_phase ex_served = Served (Left ex_p)"
proof -
  have m: "monomorphize ex_ser ex_addr ex_srv (offers ex_ser ex_cln) () = Inr (ex_p, ex_msg, ex_choices)"
    by code_simp
  show "conn_turn ex_codec Inr ex_srv (ex_turn [1]) (Map.empty, fresh_conn) = (Map.empty, ex_served)"
    "conn_phase ex_served = Served (Left ex_p)"
    by (simp_all add: ex_served_def conn_turn_def negotiate_server_turn_def negotiate_client_offer_def
        negotiate_offer_def respond_and_connect_def fresh_conn_def ex_turn_def ex_codec_def ex_de_msg_def
        m ex_msg_def ex_choices_def)
qed

lemma ex_reachable: "ok (ex_turn [1]) \<Longrightarrow> server_reachable ex_codec Inr ex_srv ok (Map.empty, [ex_served])"
proof -
  assume ok: "ok (ex_turn [1])"
  have "server_reachable ex_codec Inr ex_srv ok (Map.empty, [] @ [fresh_conn])"
    by (rule server_reachable.step [OF server_reachable.init server_step.accept]) simp
  moreover have "server_step ex_codec Inr ex_srv (Some (ex_turn [1])) (Map.empty, [fresh_conn])
      (Map.empty, [fresh_conn][0 := ex_served])"
    by (rule server_step.turn) (simp_all add: ex_served_turn)
  ultimately show ?thesis using ok by (auto intro: server_reachable.step)
qed



text \<open>
  The server's connection loop panics in one case only, a reply of 1500 bytes or more, provided
  that messages can be serialized and that the transport, the codec and the chunnels report their
  failures as errors.
\<close>

lemma server_panics_only_on_long_reply:
  assumes "server_reachable cd cw stk calm_turn (pend, conns)" and "calm_codec cd"
    and "\<And>p. \<not> panics (cw p)" and "c \<in> set conns" and "conn_phase c = Failed (Panic m)"
  shows "Panic m = too_long"
proof -
  have "only_too_long c" using server_only_too_long [OF assms(1-3)] assms(4) by simp
  with assms(5) show ?thesis by (simp add: only_too_long_def)
qed

definition ex_failed :: "(nat, unit, nat picked) srv_conn" where
  "ex_failed = snd (conn_turn ex_codec Inr ex_srv (ex_turn [200]) (Map.empty, fresh_conn))"

lemma ex_first_offer:
  "monomorphize ex_ser ex_addr ex_srv [hd (offers ex_ser ex_cln)] () = Inr (ex_p, ex_msg, ex_choices)"
  by code_simp

lemma ex_failed_phase: "conn_phase ex_failed = Failed too_long"
  unfolding ex_failed_def
  by (rule repeated_offer_reply [where n = 200 and c = "hd (offers ex_ser ex_cln)" and a = "()"
        and p = ex_p and nonce = ex_msg and choices = ex_choices and nonce_buf = "[0]"
        and buf = "replicate 2000 0" and msg = "[200]"])
     (simp_all add: ex_codec_def ex_first_offer ex_msg_def ex_choices_def ex_turn_def fresh_conn_def
        ex_de_msg_def)

lemma ex_failed_reachable:
  "server_reachable ex_codec Inr ex_srv calm_turn (Map.empty, [ex_failed])"
proof -
  have "conn_turn ex_codec Inr ex_srv (ex_turn [200]) (Map.empty, fresh_conn) = (Map.empty, ex_failed)"
    by (simp add: prod_eq_iff ex_failed_def conn_turn_def negotiate_server_turn_def fresh_conn_def
        ex_turn_def ex_codec_def ex_de_msg_def)
  then have "server_step ex_codec Inr ex_srv (Some (ex_turn [200])) (Map.empty, [fresh_conn])
      (Map.empty, [fresh_conn][0 := ex_failed])"
    by (intro server_step.turn) simp_all
  moreover have "server_reachable ex_codec Inr ex_srv calm_turn (Map.empty, [] @ [fresh_conn])"
    by (rule server_reachable.step [OF server_reachable.init server_step.accept]) simp
  moreover have "calm_turn (ex_turn [200])" by (simp add: calm_turn_def ex_turn_def)
  ultimately show ?thesis by (auto intro: server_reachable.step)
qed

lemma ex_calm: "calm_codec ex_codec"
  unfolding calm_codec_def
proof (intro conjI allI)
  fix m show "is_ok (ser_msg ex_codec m)"
    by (cases m rule: ex_ser_msg.cases) (simp_all add: ex_codec_def)
qed (simp_all add: ex_codec_def ex_de_msg_def ex_addr_def)

lemma server_panics_only_on_long_reply_example:
  "\<exists>m. conn_phase ex_failed = Failed (Panic m) \<and> Panic m = too_long"
proof (intro exI conjI)
  show "Panic ''assertion failed: buf.len() < 1500'' = too_long"
    by (rule server_panics_only_on_long_reply [OF ex_failed_reachable ex_calm _ _ ex_failed_phase])
       simp_all
qed (rule ex_failed_phase)

text \<open>
  C23: A client can cause that panic. It repeats an offer that the server accepts; the reply repeats
  it as often, so enough repetitions make the reply too long and the \<open>assert!\<close> ends the task.
\<close>

theorem repeated_offer_panics_server:
  assumes "0 < n" and "monomorphize (ser_cap cd) (ser_addr cd) stk [c] a = Inr (p, nonce, choices)"
    and "ser_msg cd nonce = Inr nonce_buf"
    and "ser_msg cd (ServerReply (Right (rep n choices))) = Inr buf" and "1500 \<le> length buf"
    and "recv_ret t = Inr [Some (a, msg)]" and "de_msg cd msg = Inr (ClientOffer (replicate n c))"
    and "pend a = None" and "conn_phase s = Listening"
  shows "conn_phase (snd (conn_turn cd cw stk t (pend, s))) = Failed too_long"
  using assms by (rule repeated_offer_reply)

theorem repeated_offer_panics_server_witness:
  "conn_phase ex_failed = Failed too_long"
  unfolding ex_failed_def
  by (rule repeated_offer_panics_server [where n = 200 and c = "hd (offers ex_ser ex_cln)" and a = "()"
        and p = ex_p and nonce = ex_msg and choices = ex_choices and nonce_buf = "[0]"
        and buf = "replicate 2000 0" and msg = "[200]"])
     (simp_all add: ex_codec_def ex_first_offer ex_msg_def ex_choices_def ex_turn_def fresh_conn_def
        ex_de_msg_def)

end
