(* ===== verification/Rendezvous_Backend.thy ===== *)
theory Rendezvous_Backend
  imports Prelude
begin

text \<open>
  The interface of rendezvous negotiation (\<open>RendezvousBackend\<close> of
  \<open>bertha/src/negotiate/rendezvous.rs\<close>). \<open>'e\<close> is the type of \<open>RendezvousEntry\<close>, which wraps one
  \<open>StackNonce\<close>; participants and rounds are \<open>usize\<close> counters that never come near their bound and
  are natural numbers here.

  A backend is the record of its operations on a state \<open>'b\<close>, which holds everything the calls may
  change. An operation that waits for other participants may never return: the value \<open>None\<close>. The
  default \<open>notify\<close> polls until something changes; its lemmas say when it returns and what.
\<close>

datatype 'e rendezvous_result =
    Matched nat nat
  | NoMatch 'e nat nat

fun num_participants :: "'e rendezvous_result \<Rightarrow> nat" where
  "num_participants (Matched n _) = n"
| "num_participants (NoMatch _ n _) = n"

fun round_number :: "'e rendezvous_result \<Rightarrow> nat" where
  "round_number (Matched _ r) = r"
| "round_number (NoMatch _ _ r) = r"

type_synonym ('b, 'r) call = "'b \<Rightarrow> ('r result \<times> 'b) option"

record ('e, 'b) backend =
  try_init :: "'e \<Rightarrow> ('b, 'e rendezvous_result) call"
  poll_entry :: "'e \<Rightarrow> nat \<Rightarrow> ('b, 'e rendezvous_result) call"
  transition :: "'e \<Rightarrow> ('b, nat) call"
  staged_update :: "nat \<Rightarrow> ('b, nat) call"
  leave :: "('b, unit) call"

text \<open>A call followed by a case distinction on its result.\<close>

lemma bind_call_iff:
  "Option.bind c (\<lambda>(res, b). case res of Inl e \<Rightarrow> f e b | Inr x \<Rightarrow> g x b) = Some y \<longleftrightarrow>
     (\<exists>e b. c = Some (Inl e, b) \<and> f e b = Some y) \<or> (\<exists>x b. c = Some (Inr x, b) \<and> g x b = Some y)"
proof (cases c)
  case (Some rb)
  then show ?thesis by (cases rb; cases "fst rb") auto
qed simp

section \<open>The default notify\<close>

text \<open>
  One round of the loop of \<open>notify\<close>: \<open>poll\<close> is the backend's \<open>poll_entry\<close> with the entry and the
  round of the caller, applied after the sleep.
\<close>

definition no_change :: "nat \<Rightarrow> 'e rendezvous_result result \<Rightarrow> bool" where
  "no_change conn_ctr res =
     (case res of Inr (Matched n _) \<Rightarrow> n = conn_ctr | _ \<Rightarrow> False)"

partial_function (option) poll_loop ::
  "('b, 'e rendezvous_result) call \<Rightarrow> nat \<Rightarrow> ('b, 'e rendezvous_result) call" where
  "poll_loop poll conn_ctr b =
     Option.bind (poll b)
       (\<lambda>(res, b'). if no_change conn_ctr res then poll_loop poll conn_ctr b' else Some (res, b'))"

definition default_notify ::
  "('b, 'e rendezvous_result) call \<Rightarrow> nat \<Rightarrow> ('b, 'e rendezvous_result) call" where
  "default_notify poll curr_round b =
     Option.bind (poll b)
       (\<lambda>(res, b').
          case res of
            Inl e \<Rightarrow> Some (Inl e, b')
          | Inr (NoMatch e n r) \<Rightarrow> Some (Inr (NoMatch e n r), b')
          | Inr (Matched conn_ctr rnd) \<Rightarrow>
              if curr_round \<noteq> rnd then Some (Inl (Panic ''Semantic round number mismatch''), b')
              else poll_loop poll conn_ctr b')"

text \<open>The state after \<open>n\<close> polls that all showed no change.\<close>

fun quiet_polls :: "('b, 'e rendezvous_result) call \<Rightarrow> nat \<Rightarrow> nat \<Rightarrow> 'b \<Rightarrow> 'b option" where
  "quiet_polls poll conn_ctr 0 b = Some b"
| "quiet_polls poll conn_ctr (Suc n) b =
     Option.bind (poll b)
       (\<lambda>(res, b'). if no_change conn_ctr res then quiet_polls poll conn_ctr n b' else None)"

lemma poll_loop_returns:
  assumes "quiet_polls poll conn_ctr n b = Some b'" and "poll b' = Some x" and "\<not> no_change conn_ctr (fst x)"
  shows "poll_loop poll conn_ctr b = Some x"
  using assms(1)
proof (induction n arbitrary: b)
  case 0
  with assms(2,3) show ?case by (subst poll_loop.simps) (auto split: prod.splits)
next
  case (Suc n)
  then obtain r1 b1 where p: "poll b = Some (r1, b1)" "no_change conn_ctr r1"
    and "quiet_polls poll conn_ctr n b1 = Some b'"
    by (auto simp: bind_eq_Some_conv split: if_splits)
  with Suc.IH show ?case by (subst poll_loop.simps) simp
qed

lemma poll_loop_result:
  assumes "poll_loop poll conn_ctr b = Some x"
  shows "\<exists>n b'. quiet_polls poll conn_ctr n b = Some b' \<and> poll b' = Some x \<and> \<not> no_change conn_ctr (fst x)"
proof (induction rule: poll_loop.raw_induct [OF _ assms])
  case (1 pl poll conn_ctr b x)
  then obtain res b1 where p: "poll b = Some (res, b1)"
    and k: "(if no_change conn_ctr res then pl poll conn_ctr b1 else Some (res, b1)) = Some x"
    by (auto simp: bind_eq_Some_conv)
  show ?case
  proof (cases "no_change conn_ctr res")
    case True
    with k have "pl poll conn_ctr b1 = Some x" by simp
    from "1.IH" [OF this] obtain n b' where "quiet_polls poll conn_ctr n b1 = Some b'" "poll b' = Some x"
      "\<not> no_change conn_ctr (fst x)" by blast
    with p True show ?thesis by (intro exI [of _ "Suc n"] exI [of _ b']) simp
  next
    case False
    with p k show ?thesis by (intro exI [of _ 0] exI [of _ b]) auto
  qed
qed

text \<open>
  The loop returns exactly when some poll shows a change, and then with the result of that poll.
\<close>

lemma poll_loop_iff:
  "poll_loop poll conn_ctr b = Some x \<longleftrightarrow>
     (\<exists>n b'. quiet_polls poll conn_ctr n b = Some b' \<and> poll b' = Some x \<and> \<not> no_change conn_ctr (fst x))"
  using poll_loop_result poll_loop_returns by metis

end
