(* ===== verification/Redis_Rendezvous.thy ===== *)
theory Redis_Rendezvous
  imports Rendezvous_Backend "HOL-Library.AList"
begin

text \<open>
  The rendezvous backend on redis (\<open>redis-basechunnel/src/lib.rs\<close> and its three Lua scripts), for
  one address. A call is a sequence of atomic redis commands with waits between them, and the calls
  of different clients interleave between the commands, so the model is a step system: the keys of
  the address, and for every client the point its running call has reached.

  Values are the serialized entries; \<open>deser\<close> is \<open>bincode::deserialize\<close>. Every command that reads
  the clock gets the time of insertion and the time of expiry as arguments. Two facts about the redis
  server are parameters. \<open>nx_nil\<close>: whether the reply of a failed \<open>SET NX\<close> equals \<open>nil\<close> in a
  script (a null reply is documented to be converted to \<open>false\<close>, which does not). \<open>delivers\<close>:
  whether a subscription to \<open>"__keyspace@*__:key incrby"\<close> gets the notifications of \<open>key\<close> (they
  are documented to be published on the channel \<open>"__keyspace@0__:key"\<close>, which it does not match).
\<close>

section \<open>The keys of an address\<close>

record 'n redis =
  entry :: "bytes option"
  round_ctr :: "nat option"
  members :: "('n \<times> nat) list"
  joinlock :: "'n option"
  staged :: "nat \<Rightarrow> bytes option"
  committed_cnt :: "nat \<Rightarrow> nat option"

definition zadd :: "'n \<Rightarrow> nat \<Rightarrow> ('n \<times> nat) list \<Rightarrow> ('n \<times> nat) list" where
  "zadd c score m = AList.update c score m"

definition zrembyscore :: "nat \<Rightarrow> ('n \<times> nat) list \<Rightarrow> ('n \<times> nat) list" where
  "zrembyscore expiry m = filter (\<lambda>(_, score). expiry < score) m"

text \<open>\<open>zrembyscore\<close> then \<open>zadd\<close>, as most transactions of the code end.\<close>

definition refresh_members :: "'n \<Rightarrow> nat \<Rightarrow> nat \<Rightarrow> 'n redis \<Rightarrow> 'n redis" where
  "refresh_members c ins expiry db = db\<lparr>members := zadd c ins (zrembyscore expiry (members db))\<rparr>"

definition conn_count :: "'n redis \<Rightarrow> nat" where
  "conn_count db = length (members db)"

definition refresh_client :: "'n \<Rightarrow> nat \<Rightarrow> nat \<Rightarrow> 'n redis \<Rightarrow> (nat \<times> nat) result \<times> 'n redis" where
  "refresh_client c ins expiry db =
     (let db1 = refresh_members c ins expiry db in
      (case round_ctr db of
         None \<Rightarrow> eyre ''refresh_client redis query failed''
       | Some r \<Rightarrow> Inr (r, conn_count db1), db1))"

definition unlock_join :: "'n \<Rightarrow> 'n redis \<Rightarrow> 'n redis" where
  "unlock_join c db = (if joinlock db = Some c then db\<lparr>joinlock := None\<rparr> else db)"

text \<open>\<open>tryinit.lua\<close>. A missing round counter is a null in the reply, which does not parse as \<open>usize\<close>.\<close>

definition tryinit_script ::
  "bool \<Rightarrow> 'n \<Rightarrow> bytes \<Rightarrow> nat \<Rightarrow> nat \<Rightarrow> 'n redis \<Rightarrow> (nat \<times> nat \<times> nat \<times> bytes) result \<times> 'n redis" where
  "tryinit_script nx_nil c nonce ins expiry db =
     (let pruned = db\<lparr>members := zrembyscore expiry (members db)\<rparr> in
      case entry db of
        None \<Rightarrow>
          let db1 = pruned\<lparr>entry := Some nonce\<rparr> in
          (case round_ctr db of
             Some _ \<Rightarrow> (eyre ''KV store polluted: roundctr key already present'', db1)
           | None \<Rightarrow>
               let db2 = db1\<lparr>round_ctr := Some 0, members := zadd c ins (members db1)\<rparr>
               in (Inr (2, 0, conn_count db2, nonce), db2))
      | Some existing \<Rightarrow>
          if existing = nonce
          then let db1 = pruned\<lparr>members := zadd c ins (members pruned)\<rparr> in
               (case round_ctr db of
                  None \<Rightarrow> (eyre ''response was not convertible to usize'', db1)
                | Some r \<Rightarrow> (Inr (2, r, conn_count db1, nonce), db1))
          else
            let (code, db1) =
                  (case joinlock pruned of
                     None \<Rightarrow> (1, pruned\<lparr>joinlock := Some c\<rparr>)
                   | Some _ \<Rightarrow> (if nx_nil then 0 else 1, pruned))
            in (case round_ctr db of
                  None \<Rightarrow> (eyre ''response was not convertible to usize'', db1)
                | Some r \<Rightarrow> (Inr (code, r, conn_count pruned, existing), db1)))"

text \<open>\<open>pollentry.lua\<close>.\<close>

definition pollentry_script ::
  "'n \<Rightarrow> nat \<Rightarrow> nat \<Rightarrow> 'n redis \<Rightarrow> (bytes option \<times> nat option \<times> nat) \<times> 'n redis" where
  "pollentry_script c ins expiry db =
     (let db1 = refresh_members c ins expiry (unlock_join c db)
      in ((entry db1, round_ctr db1, conn_count db1), db1))"

text \<open>\<open>transition.lua\<close>: an even round is incremented, which takes the commit lock.\<close>

definition transition_script :: "'n \<Rightarrow> 'n redis \<Rightarrow> (bool \<times> nat) result \<times> 'n redis" where
  "transition_script c db =
     (let db1 = unlock_join c db in
      case round_ctr db1 of
        None \<Rightarrow> (eyre ''attempt to perform arithmetic on a boolean value'', db1)
      | Some r \<Rightarrow>
          if r mod 2 = 0 then (Inr (True, r + 1), db1\<lparr>round_ctr := Some (r + 1)\<rparr>)
          else (Inr (False, r), db1))"

section \<open>Clients\<close>

text \<open>
  Where the call of a client is. \<open>Locked\<close> is a transition that took the lock and has not yet written
  its staged value, \<open>Committing\<close> is \<open>wait_committer\<close> with its two counts, \<open>Finishing\<close> is before
  the clean-up transaction. \<open>Converting\<close> is a transition that found another one in progress.
  \<open>Subscribing\<close>, \<open>Applying\<close>, \<open>Refreshing\<close> and \<open>Fetching\<close> are \<open>wait_applier\<close> before its
  subscription, waiting, inside \<open>refresh_commit\<close> after a turn that did not find the counter, and
  before it reads the new round; they carry the proposal that the client has acknowledged.
  \<open>Polling\<close> is \<open>poll_entry\<close> waiting for the staged value of a new round, and \<open>Waiting\<close> is
  \<open>try_init\<close> waiting for the joinlock.
\<close>

datatype phase =
    Idle
  | Waiting bytes
  | Polling nat
  | Locked nat bytes
  | Committing nat bytes nat nat
  | Finishing nat bytes
  | Converting nat
  | Subscribing nat "bytes option"
  | Applying nat "bytes option"
  | Refreshing nat "bytes option"
  | Fetching nat "bytes option"

datatype 'e out =
    Polled "'e rendezvous_result"
  | Round nat
  | Left_conn
  | Failed failure

text \<open>
  The whole system. \<open>overriding\<close> is set while \<open>try_init\<close> runs a transition because nobody else is
  there, and holds the round it will report. \<open>proposal\<close> is the round and the value of the last staged
  proposal a client was shown. \<open>inbox\<close> holds the notifications of the current subscription.
  \<open>outs\<close> collects the results of calls, and \<open>known\<close> which value clients hold to be in force in which
  round.
\<close>

record ('n, 'e) sys =
  db :: "'n redis"
  phase :: "'n \<Rightarrow> phase"
  overriding :: "'n \<Rightarrow> nat option"
  proposal :: "'n \<Rightarrow> (nat \<times> bytes) option"
  inbox :: "'n \<Rightarrow> string list"
  outs :: "('n \<times> 'e out) list"
  known :: "(nat \<times> bytes) list"

definition no_keys :: "'n redis" where
  "no_keys = \<lparr>entry = None, round_ctr = None, members = [], joinlock = None,
     staged = \<lambda>_. None, committed_cnt = \<lambda>_. None\<rparr>"

definition sys_init :: "('n, 'e) sys" where
  "sys_init = \<lparr>db = no_keys, phase = \<lambda>_. Idle, overriding = \<lambda>_. None, proposal = \<lambda>_. None,
     inbox = \<lambda>_. [], outs = [], known = []\<rparr>"

definition goto :: "'n \<Rightarrow> phase \<Rightarrow> ('n, 'e) sys \<Rightarrow> ('n, 'e) sys" where
  "goto c p s = s\<lparr>phase := (phase s)(c := p)\<rparr>"

definition ret :: "'n \<Rightarrow> 'e out \<Rightarrow> ('n, 'e) sys \<Rightarrow> ('n, 'e) sys" where
  "ret c x s = s\<lparr>phase := (phase s)(c := Idle), overriding := (overriding s)(c := None),
     outs := outs s @ [(c, x)]\<rparr>"

text \<open>The result of \<open>transition\<close>, or of the \<open>try_init\<close> that called it.\<close>

definition ret_round :: "'n \<Rightarrow> nat \<Rightarrow> ('n, 'e) sys \<Rightarrow> ('n, 'e) sys" where
  "ret_round c r s =
     ret c (case overriding s c of Some r0 \<Rightarrow> Polled (Matched 1 r0) | None \<Rightarrow> Round r) s"

definition learn :: "nat \<Rightarrow> bytes \<Rightarrow> ('n, 'e) sys \<Rightarrow> ('n, 'e) sys" where
  "learn r v s = s\<lparr>known := (r, v) # known s\<rparr>"

text \<open>A keyspace notification for the commit counter of round \<open>r\<close>.\<close>

fun subscribed :: "bool \<Rightarrow> nat \<Rightarrow> phase \<Rightarrow> bool" where
  "subscribed delivers r (Applying r' _) = (r' = r)"
| "subscribed delivers r (Refreshing r' _) = (r' = r)"
| "subscribed delivers r (Committing r' _ _ _) = (delivers \<and> r' = r)"
| "subscribed delivers r _ = False"

definition publish :: "bool \<Rightarrow> nat \<Rightarrow> string \<Rightarrow> ('n, 'e) sys \<Rightarrow> ('n, 'e) sys" where
  "publish delivers r event s =
     s\<lparr>inbox := \<lambda>c. if subscribed delivers r (phase s c) then inbox s c @ [event] else inbox s c\<rparr>"

section \<open>try_init and poll_entry\<close>

definition start_transition :: "'n \<Rightarrow> bytes \<Rightarrow> ('n, 'e) sys \<Rightarrow> ('n, 'e) sys" where
  "start_transition c v s =
     (case transition_script c (db s) of
        (Inl e, db1) \<Rightarrow> ret c (Failed (wrap_report ''start transition failed'' e)) (s\<lparr>db := db1\<rparr>)
      | (Inr (locked, r), db1) \<Rightarrow>
          goto c (if locked then Locked r v else Converting r) (s\<lparr>db := db1\<rparr>))"

definition try_init_step ::
  "(bytes \<Rightarrow> 'e result) \<Rightarrow> bool \<Rightarrow> 'n \<Rightarrow> bytes \<Rightarrow> nat \<Rightarrow> nat \<Rightarrow> ('n, 'e) sys \<Rightarrow> ('n, 'e) sys" where
  "try_init_step deser nx_nil c nonce ins expiry s =
     (case tryinit_script nx_nil c nonce ins expiry (db s) of
        (Inl e, db1) \<Rightarrow> ret c (Failed (wrap_report ''try_init failed'' e)) (s\<lparr>db := db1\<rparr>)
      | (Inr (created, r, n, got), db1) \<Rightarrow>
          let s1 = s\<lparr>db := db1\<rparr> in
          if created = 2 then ret c (Polled (Matched n r)) (learn r got s1)
          else if created = 1 then
            (if n = 0 then start_transition c nonce (s1\<lparr>overriding := (overriding s1)(c := Some r)\<rparr>)
             else (case deser got of
                     Inl e \<Rightarrow> ret c (Failed (wrap_report ''deserialize entry'' e)) s1
                   | Inr e \<Rightarrow> ret c (Polled (NoMatch e n r)) (learn r got s1)))
          else goto c (Waiting nonce) s1)"

definition poll_entry_step ::
  "(bytes \<Rightarrow> 'e result) \<Rightarrow> 'n \<Rightarrow> 'e \<Rightarrow> nat \<Rightarrow> nat \<Rightarrow> nat \<Rightarrow> ('n, 'e) sys \<Rightarrow> ('n, 'e) sys" where
  "poll_entry_step deser c curr_entry curr_round ins expiry s =
     (case pollentry_script c ins expiry (db s) of
        ((got, rnd, n), db1) \<Rightarrow>
          let s1 = s\<lparr>db := db1\<rparr> in
          (case got of
             None \<Rightarrow> ret c (Failed (Err [''nonce value was nil''])) s1
           | Some v \<Rightarrow>
               (case rnd of
                  None \<Rightarrow> ret c (Failed (Err [''round-ctr was nil''])) s1
                | Some r \<Rightarrow>
                    if r = curr_round then
                      (case deser v of
                         Inl e \<Rightarrow> ret c (Failed (wrap_report ''deserialize entry'' e)) s1
                       | Inr e \<Rightarrow>
                           ret c (Polled (if e = curr_entry then Matched n r else NoMatch e n r)) (learn r v s1))
                    else if curr_round < r then goto c (Polling r) s1
                    else ret c (Failed (Err [''KV store polluted: round_ctr ticked backwards''])) s1)))"

text \<open>One turn of the loop that waits for the staged value of a new round.\<close>

definition poll_staged_step ::
  "(bytes \<Rightarrow> 'e result) \<Rightarrow> 'n \<Rightarrow> nat \<Rightarrow> nat \<Rightarrow> nat \<Rightarrow> ('n, 'e) sys \<Rightarrow> ('n, 'e) sys" where
  "poll_staged_step deser c r ins expiry s =
     (let s1 = s\<lparr>db := refresh_members c ins expiry (db s)\<rparr> in
      case staged (db s) r of
        None \<Rightarrow> s1
      | Some v \<Rightarrow>
          if v = [] then ret c (Failed (Err [''KV store polluted: staged_val key empty''])) s1
          else (case deser v of
                  Inl e \<Rightarrow> ret c (Failed (wrap_report ''deserialize entry'' e)) s1
                | Inr e \<Rightarrow>
                    ret c (Polled (NoMatch e (conn_count (db s1)) r)) (s1\<lparr>proposal := (proposal s1)(c := Some (r, v))\<rparr>)))"

text \<open>
  \<open>leave\<close> compares the joinlock with the address, not with the client's name: \<open>addr_name\<close> is the
  address as the name of a client.
\<close>

definition leave_step :: "'n \<Rightarrow> 'n \<Rightarrow> ('n, 'e) sys \<Rightarrow> ('n, 'e) sys" where
  "leave_step addr_name c s =
     ret c Left_conn
       (if joinlock (db s) = Some addr_name
        then s\<lparr>db := (db s)\<lparr>joinlock := None\<rparr>\<rparr>
        else s\<lparr>db := (db s)\<lparr>members := AList.delete c (members (db s))\<rparr>\<rparr>)"

section \<open>transition\<close>

definition write_staged_step ::
  "bool \<Rightarrow> 'n \<Rightarrow> nat \<Rightarrow> bytes \<Rightarrow> nat \<Rightarrow> nat \<Rightarrow> ('n, 'e) sys \<Rightarrow> ('n, 'e) sys" where
  "write_staged_step delivers c r v ins expiry s =
     (let set_staged = staged (db s) r = None;
          set_commit_ctr = committed_cnt (db s) r = None;
          db1 = (refresh_members c ins expiry (db s))
            \<lparr>staged := (if set_staged then (staged (db s))(r \<mapsto> v) else staged (db s)),
             committed_cnt := (if set_commit_ctr then (committed_cnt (db s))(r \<mapsto> 1) else committed_cnt (db s))\<rparr>;
          s1 = (if set_commit_ctr then publish delivers r ''set'' (s\<lparr>db := db1\<rparr>) else s\<lparr>db := db1\<rparr>)
      in if \<not> (set_staged \<and> set_commit_ctr)
         then ret c (Failed (Err [''Polluted KV store: Locked commit but staged values already present''])) s1
         else if 1 < conn_count db1
         then goto c (Committing r v 1 (conn_count db1)) (s1\<lparr>inbox := (inbox s1)(c := [])\<rparr>)
         else goto c (Finishing r v) s1)"

text \<open>\<open>refresh_commit\<close>: one turn of its loop, with the counter it read.\<close>

definition refresh_commit :: "'n \<Rightarrow> nat \<Rightarrow> nat \<Rightarrow> nat \<Rightarrow> 'n redis \<Rightarrow> (nat \<times> nat) option \<times> 'n redis" where
  "refresh_commit c r ins expiry d =
     (let d1 = refresh_members c ins expiry d
      in (map_option (\<lambda>cnt. (cnt, conn_count d1)) (committed_cnt d r), d1))"

text \<open>The turns of \<open>wait_committer\<close>: a notification, or the refresh timer.\<close>

definition committer_msg_step :: "'n \<Rightarrow> nat \<Rightarrow> bytes \<Rightarrow> nat \<Rightarrow> nat \<Rightarrow> ('n, 'e) sys \<Rightarrow> ('n, 'e) sys" where
  "committer_msg_step c r v cur tot s =
     (case inbox s c of
        [] \<Rightarrow> s
      | event # rest \<Rightarrow>
          let s1 = s\<lparr>inbox := (inbox s)(c := rest)\<rparr> in
          if event = ''incrby''
          then goto c (if cur + 1 = tot then Finishing r v else Committing r v (cur + 1) tot) s1
          else s1)"

definition committer_refresh_step ::
  "'n \<Rightarrow> nat \<Rightarrow> bytes \<Rightarrow> nat \<Rightarrow> nat \<Rightarrow> ('n, 'e) sys \<Rightarrow> ('n, 'e) sys" where
  "committer_refresh_step c r v ins expiry s =
     (case refresh_commit c r ins expiry (db s) of
        (None, d) \<Rightarrow> s\<lparr>db := d\<rparr>
      | (Some (cnt, n), d) \<Rightarrow>
          goto c (if cnt = n then Finishing r v else Committing r v cnt n) (s\<lparr>db := d\<rparr>))"

definition cleanup_step :: "bool \<Rightarrow> 'n \<Rightarrow> nat \<Rightarrow> bytes \<Rightarrow> ('n, 'e) sys \<Rightarrow> ('n, 'e) sys" where
  "cleanup_step delivers c r v s =
     (let rnd = (case round_ctr (db s) of Some k \<Rightarrow> k | None \<Rightarrow> 0) + 1;
          s1 = publish delivers r ''del''
                 (s\<lparr>db := (db s)\<lparr>entry := Some v, staged := (staged (db s))(r := None),
                      committed_cnt := (committed_cnt (db s))(r := None), round_ctr := Some rnd\<rparr>\<rparr>)
      in if rnd mod 2 = 0 then ret_round c rnd (learn rnd v s1)
         else ret c (Failed (Err [''Polluted KV store: Commit done but round_ctr odd''])) s1)"

text \<open>A transition that found another one in progress waits for the commit counter to appear.\<close>

definition converting_step :: "'n \<Rightarrow> nat \<Rightarrow> nat \<Rightarrow> nat \<Rightarrow> ('n, 'e) sys \<Rightarrow> ('n, 'e) sys" where
  "converting_step c r ins expiry s =
     (let d1 = refresh_members c ins expiry (db s); s1 = s\<lparr>db := d1\<rparr> in
      case committed_cnt (db s) r of
        None \<Rightarrow> s1
      | Some _ \<Rightarrow>
          if 1 < conn_count d1 then goto c (Subscribing r None) s1
          else ret c (Failed (Err [''KV store polluted: found existing commit''])) s1)"

section \<open>staged_update and wait_applier\<close>

definition staged_update_step ::
  "bool \<Rightarrow> 'n \<Rightarrow> nat \<Rightarrow> bytes option \<Rightarrow> nat \<Rightarrow> nat \<Rightarrow> ('n, 'e) sys \<Rightarrow> ('n, 'e) sys" where
  "staged_update_step delivers c r acked ins expiry s =
     (let cnt = (case committed_cnt (db s) r of Some k \<Rightarrow> k | None \<Rightarrow> 0) + 1
      in goto c (Subscribing r acked)
           (publish delivers r ''incrby''
              (s\<lparr>db := (refresh_members c ins expiry (db s))
                   \<lparr>committed_cnt := (committed_cnt (db s))(r \<mapsto> cnt)\<rparr>\<rparr>)))"

definition subscribe_step :: "'n \<Rightarrow> nat \<Rightarrow> bytes option \<Rightarrow> ('n, 'e) sys \<Rightarrow> ('n, 'e) sys" where
  "subscribe_step c r acked s = goto c (Applying r acked) (s\<lparr>inbox := (inbox s)(c := [])\<rparr>)"

definition applier_msg_step :: "'n \<Rightarrow> nat \<Rightarrow> bytes option \<Rightarrow> ('n, 'e) sys \<Rightarrow> ('n, 'e) sys" where
  "applier_msg_step c r acked s =
     (case inbox s c of
        [] \<Rightarrow> s
      | event # rest \<Rightarrow>
          let s1 = s\<lparr>inbox := (inbox s)(c := rest)\<rparr> in
          if event = ''del'' then goto c (Fetching r acked) s1 else s1)"

text \<open>The refresh timer; a redis error in it (\<open>ok\<close> is false) ends the wait.\<close>

definition applier_refresh_step ::
  "bool \<Rightarrow> 'n \<Rightarrow> nat \<Rightarrow> bytes option \<Rightarrow> nat \<Rightarrow> nat \<Rightarrow> ('n, 'e) sys \<Rightarrow> ('n, 'e) sys" where
  "applier_refresh_step ok c r acked ins expiry s =
     (if ok
      then (case refresh_commit c r ins expiry (db s) of
              (cnt, d) \<Rightarrow> goto c (if cnt = None then Refreshing r acked else Applying r acked) (s\<lparr>db := d\<rparr>))
      else goto c (Fetching r acked) s)"

definition fetch_step :: "'n \<Rightarrow> nat \<Rightarrow> bytes option \<Rightarrow> nat \<Rightarrow> nat \<Rightarrow> ('n, 'e) sys \<Rightarrow> ('n, 'e) sys" where
  "fetch_step c r acked ins expiry s =
     (let s1 = s\<lparr>db := refresh_members c ins expiry (db s)\<rparr> in
      case round_ctr (db s) of
        None \<Rightarrow> ret c (Failed (Err [''fetching new round_ctr''])) s1
      | Some rnd \<Rightarrow>
          ret_round c rnd
            (case acked of Some v \<Rightarrow> if rnd = r + 1 then learn rnd v s1 else s1 | None \<Rightarrow> s1))"

section \<open>The step relation\<close>

text \<open>
  Any client may start a call when it has none running; \<open>staged_update\<close> is called with the round of
  a \<open>NoMatch\<close> that the client was given. A running call may fail at any command (\<open>fail\<close>, which is
  also a client that dies or drops the call) and the joinlock may expire.
  Notifications may be lost (\<open>lost\<close>): redis delivers them at most once, and those sent before a
  subscription takes effect are missed.
\<close>

inductive redis_step ::
  "(bytes \<Rightarrow> 'e result) \<Rightarrow> bool \<Rightarrow> bool \<Rightarrow> 'n \<Rightarrow> ('n, 'e) sys \<Rightarrow> ('n, 'e) sys \<Rightarrow> bool"
  for deser nx_nil delivers addr_name where
  try_init: "phase s c = Idle \<Longrightarrow>
     redis_step deser nx_nil delivers addr_name s (try_init_step deser nx_nil c v ins expiry s)"
| retry: "phase s c = Waiting v \<Longrightarrow>
     redis_step deser nx_nil delivers addr_name s (try_init_step deser nx_nil c v ins expiry s)"
| poll: "phase s c = Idle \<Longrightarrow>
     redis_step deser nx_nil delivers addr_name s (poll_entry_step deser c e k ins expiry s)"
| poll_staged: "phase s c = Polling r \<Longrightarrow>
     redis_step deser nx_nil delivers addr_name s (poll_staged_step deser c r ins expiry s)"
| leave: "phase s c = Idle \<Longrightarrow>
     redis_step deser nx_nil delivers addr_name s (leave_step addr_name c s)"
| transition: "phase s c = Idle \<Longrightarrow>
     redis_step deser nx_nil delivers addr_name s (start_transition c v s)"
| write_staged: "phase s c = Locked r v \<Longrightarrow>
     redis_step deser nx_nil delivers addr_name s (write_staged_step delivers c r v ins expiry s)"
| committer_msg: "phase s c = Committing r v cur tot \<Longrightarrow>
     redis_step deser nx_nil delivers addr_name s (committer_msg_step c r v cur tot s)"
| committer_refresh: "phase s c = Committing r v cur tot \<Longrightarrow>
     redis_step deser nx_nil delivers addr_name s (committer_refresh_step c r v ins expiry s)"
| cleanup: "phase s c = Finishing r v \<Longrightarrow>
     redis_step deser nx_nil delivers addr_name s (cleanup_step delivers c r v s)"
| converting: "phase s c = Converting r \<Longrightarrow>
     redis_step deser nx_nil delivers addr_name s (converting_step c r ins expiry s)"
| accept: "phase s c = Idle \<Longrightarrow> proposal s c = Some (r, v) \<Longrightarrow>
     redis_step deser nx_nil delivers addr_name s (staged_update_step delivers c r (Some v) ins expiry s)"
| staged_update: "phase s c = Idle \<Longrightarrow> (c, Polled (NoMatch e n r)) \<in> set (outs s) \<Longrightarrow>
     redis_step deser nx_nil delivers addr_name s (staged_update_step delivers c r None ins expiry s)"
| subscribe: "phase s c = Subscribing r acked \<Longrightarrow>
     redis_step deser nx_nil delivers addr_name s (subscribe_step c r acked s)"
| applier_msg: "phase s c = Applying r acked \<Longrightarrow>
     redis_step deser nx_nil delivers addr_name s (applier_msg_step c r acked s)"
| applier_refresh: "phase s c = Applying r acked \<or> phase s c = Refreshing r acked \<Longrightarrow>
     redis_step deser nx_nil delivers addr_name s (applier_refresh_step ok c r acked ins expiry s)"
| fetch: "phase s c = Fetching r acked \<Longrightarrow>
     redis_step deser nx_nil delivers addr_name s (fetch_step c r acked ins expiry s)"
| fail: "phase s c \<noteq> Idle \<Longrightarrow>
     redis_step deser nx_nil delivers addr_name s (ret c (Failed e) s)"
| expire: "redis_step deser nx_nil delivers addr_name s (s\<lparr>db := (db s)\<lparr>joinlock := None\<rparr>\<rparr>)"
| lost: "redis_step deser nx_nil delivers addr_name s (s\<lparr>inbox := (inbox s)(c := [])\<rparr>)"

inductive redis_reachable ::
  "(bytes \<Rightarrow> 'e result) \<Rightarrow> bool \<Rightarrow> bool \<Rightarrow> 'n \<Rightarrow> ('n, 'e) sys \<Rightarrow> bool"
  for deser nx_nil delivers addr_name where
  init: "redis_reachable deser nx_nil delivers addr_name sys_init"
| step: "redis_reachable deser nx_nil delivers addr_name s \<Longrightarrow>
     redis_step deser nx_nil delivers addr_name s s' \<Longrightarrow> redis_reachable deser nx_nil delivers addr_name s'"

section \<open>The invariant\<close>

text \<open>
  The proposal of a client that holds the commit lock, and of one that has also staged it; and the
  proposal that a waiting client has acknowledged.
\<close>

fun lock_of :: "phase \<Rightarrow> (nat \<times> bytes) option" where
  "lock_of (Locked r v) = Some (r, v)"
| "lock_of (Committing r v _ _) = Some (r, v)"
| "lock_of (Finishing r v) = Some (r, v)"
| "lock_of _ = None"

fun staging_of :: "phase \<Rightarrow> (nat \<times> bytes) option" where
  "staging_of (Committing r v _ _) = Some (r, v)"
| "staging_of (Finishing r v) = Some (r, v)"
| "staging_of _ = None"

fun acked_of :: "phase \<Rightarrow> (nat \<times> bytes) option" where
  "acked_of (Subscribing r (Some v)) = Some (r, v)"
| "acked_of (Applying r (Some v)) = Some (r, v)"
| "acked_of (Refreshing r (Some v)) = Some (r, v)"
| "acked_of (Fetching r (Some v)) = Some (r, v)"
| "acked_of _ = None"

text \<open>
  \<open>hist r\<close> is the value in force in round \<open>r\<close>. A staged proposal that somebody has seen is either
  still staged in the current round, or it is the value in force after its round.
\<close>

definition accepted :: "(nat \<Rightarrow> bytes) \<Rightarrow> 'n redis \<Rightarrow> nat \<times> bytes \<Rightarrow> bool" where
  "accepted hist d p \<longleftrightarrow> odd (fst p)
     \<and> (round_ctr d = Some (fst p) \<and> staged d (fst p) = Some (snd p)
        \<or> (\<exists>k. round_ctr d = Some k \<and> fst p < k \<and> hist (fst p + 1) = snd p))"

definition in_force :: "(nat \<Rightarrow> bytes) \<Rightarrow> 'n redis \<Rightarrow> nat \<times> bytes \<Rightarrow> bool" where
  "in_force hist d p \<longleftrightarrow> (\<exists>k. round_ctr d = Some k \<and> fst p \<le> k) \<and> hist (fst p) = snd p"

definition keys_inv :: "(nat \<Rightarrow> bytes) \<Rightarrow> 'n redis \<Rightarrow> bool" where
  "keys_inv hist d \<longleftrightarrow>
     (entry d = None \<longleftrightarrow> round_ctr d = None)
   \<and> (\<forall>r v. round_ctr d = Some r \<longrightarrow> entry d = Some v \<longrightarrow> hist r = v)
   \<and> (\<forall>k v. staged d k = Some v \<longrightarrow> round_ctr d = Some k \<and> odd k)"

definition lock_inv :: "'n redis \<Rightarrow> ('n \<Rightarrow> phase) \<Rightarrow> bool" where
  "lock_inv d ph \<longleftrightarrow>
     (\<forall>c p. lock_of (ph c) = Some p \<longrightarrow> round_ctr d = Some (fst p) \<and> odd (fst p))
   \<and> (\<forall>c c'. lock_of (ph c) \<noteq> None \<longrightarrow> lock_of (ph c') \<noteq> None \<longrightarrow> c = c')
   \<and> (\<forall>c p. staging_of (ph c) = Some p \<longrightarrow> staged d (fst p) = Some (snd p))
   \<and> (\<forall>c r v. ph c = Locked r v \<longrightarrow> staged d r = None)"

definition redis_inv :: "(nat \<Rightarrow> bytes) \<Rightarrow> ('n, 'e) sys \<Rightarrow> bool" where
  "redis_inv hist s \<longleftrightarrow>
     keys_inv hist (db s) \<and> lock_inv (db s) (phase s)
   \<and> (\<forall>c p. proposal s c = Some p \<longrightarrow> accepted hist (db s) p)
   \<and> (\<forall>c p. acked_of (phase s c) = Some p \<longrightarrow> accepted hist (db s) p)
   \<and> (\<forall>p \<in> set (known s). in_force hist (db s) p)"

lemma redis_invD:
  assumes "redis_inv hist s"
  shows "keys_inv hist (db s)" "lock_inv (db s) (phase s)"
    "proposal s c = Some p \<Longrightarrow> accepted hist (db s) p"
    "acked_of (phase s c) = Some p \<Longrightarrow> accepted hist (db s) p"
    "p \<in> set (known s) \<Longrightarrow> in_force hist (db s) p"
  using assms unfolding redis_inv_def by blast+

lemma staging_lock: "staging_of p = Some x \<Longrightarrow> lock_of p = Some x"
  by (cases p) auto

lemma no_lock_no_staging: "lock_of p = None \<Longrightarrow> staging_of p = None"
  by (cases p) auto

text \<open>The keys that the invariant looks at.\<close>

definition same_keys :: "'n redis \<Rightarrow> 'n redis \<Rightarrow> bool" where
  "same_keys d d' \<longleftrightarrow> entry d' = entry d \<and> round_ctr d' = round_ctr d \<and> staged d' = staged d"

lemma same_keys_inv:
  assumes "same_keys d d'"
  shows "keys_inv hist d' = keys_inv hist d" "lock_inv d' = lock_inv d"
    "accepted hist d' = accepted hist d" "in_force hist d' = in_force hist d"
  using assms
  by (auto simp: same_keys_def keys_inv_def lock_inv_def [abs_def] accepted_def [abs_def] in_force_def [abs_def])

lemma same_keys_refl [simp]: "same_keys d d"
  by (simp add: same_keys_def)

lemma same_keys_updates [simp]:
  "same_keys d (refresh_members c ins expiry d')  = same_keys d d'"
  "same_keys d (unlock_join c d') = same_keys d d'"
  "same_keys d (d'\<lparr>members := m\<rparr>) = same_keys d d'"
  "same_keys d (d'\<lparr>joinlock := j\<rparr>) = same_keys d d'"
  "same_keys d (d'\<lparr>committed_cnt := cc\<rparr>) = same_keys d d'"
  by (simp_all add: same_keys_def refresh_members_def unlock_join_def)

lemma refresh_members_simps [simp]:
  "entry (refresh_members c ins expiry d) = entry d"
  "round_ctr (refresh_members c ins expiry d) = round_ctr d"
  "staged (refresh_members c ins expiry d) = staged d"
  "committed_cnt (refresh_members c ins expiry d) = committed_cnt d"
  "entry (unlock_join c d) = entry d"
  "round_ctr (unlock_join c d) = round_ctr d"
  "staged (unlock_join c d) = staged d"
  by (simp_all add: refresh_members_def unlock_join_def)

text \<open>A step that leaves these keys alone: what it may do to the phase of its client and to the ghosts.\<close>

definition plain_phase :: "phase \<Rightarrow> phase \<Rightarrow> bool" where
  "plain_phase old new \<longleftrightarrow>
     (lock_of new = None \<or> new = old \<or> staging_of new = staging_of old \<and> staging_of old \<noteq> None)"

lemma lock_inv_plain:
  assumes "lock_inv d ph" and "plain_phase (ph c) p"
  shows "lock_inv d (ph(c := p))"
proof -
  consider "lock_of p = None" | "p = ph c"
    | x where "staging_of p = Some x" "staging_of (ph c) = Some x"
    using assms(2) by (auto simp: plain_phase_def)
  then have cases: "(lock_of p = None \<or> lock_of p = lock_of (ph c))
      \<and> (staging_of p = None \<or> staging_of p = staging_of (ph c)) \<and> (\<forall>r v. p = Locked r v \<longrightarrow> ph c = Locked r v)"
  proof cases
    case 3
    then have "lock_of p = Some x" "lock_of (ph c) = Some x" by (auto dest: staging_lock)
    with 3 show ?thesis by auto
  qed (auto simp: no_lock_no_staging)
  let ?ph = "ph(c := p)"
  have new: "lock_of (?ph x) = None \<or> lock_of (?ph x) = lock_of (ph x)"
    "staging_of (?ph x) = None \<or> staging_of (?ph x) = staging_of (ph x)"
    "?ph x = Locked r v \<Longrightarrow> ph x = Locked r v" for x r v
    using cases by (auto split: if_splits)
  note L = assms(1) [unfolded lock_inv_def]
  show ?thesis unfolding lock_inv_def
  proof (intro conjI allI impI)
    fix x q assume "lock_of (?ph x) = Some q"
    with new(1) [of x] have "lock_of (ph x) = Some q" by simp
    with L show "round_ctr d = Some (fst q)" "odd (fst q)" by blast+
  next
    fix x y assume "lock_of (?ph x) \<noteq> None" "lock_of (?ph y) \<noteq> None"
    with new(1) [of x] new(1) [of y] have "lock_of (ph x) \<noteq> None" "lock_of (ph y) \<noteq> None" by auto
    with L show "x = y" by blast
  next
    fix x q assume "staging_of (?ph x) = Some q"
    with new(2) [of x] have "staging_of (ph x) = Some q" by simp
    with L show "staged d (fst q) = Some (snd q)" by blast
  next
    fix x r v assume "?ph x = Locked r v"
    from new(3) [OF this] L show "staged d r = None" by blast
  qed
qed

lemma redis_inv_plain:
  assumes inv: "redis_inv hist s" and same: "same_keys (db s) (db s')"
    and ph: "phase s' = (phase s)(c := p)" "plain_phase (phase s c) p"
    and acked: "\<And>q. acked_of p = Some q \<Longrightarrow> accepted hist (db s) q"
    and props: "\<And>c q. proposal s' c = Some q \<Longrightarrow> proposal s c = Some q \<or> accepted hist (db s) q"
    and known: "\<And>q. q \<in> set (known s') \<Longrightarrow> q \<in> set (known s) \<or> in_force hist (db s) q"
  shows "redis_inv hist s'"
  unfolding redis_inv_def same_keys_inv [OF same]
proof (intro conjI allI ballI impI)
  show "keys_inv hist (db s)" by (rule redis_invD [OF inv])
  show "lock_inv (db s) (phase s')"
    unfolding ph(1) by (rule lock_inv_plain [OF redis_invD(2) [OF inv] ph(2)])
next
  fix d q assume "proposal s' d = Some q"
  then show "accepted hist (db s) q" using props redis_invD(3) [OF inv] by blast
next
  fix d q assume "acked_of (phase s' d) = Some q"
  then show "accepted hist (db s) q"
    using acked redis_invD(4) [OF inv] unfolding ph(1) fun_upd_apply by (auto split: if_splits)
next
  fix q assume "q \<in> set (known s')"
  then show "in_force hist (db s) q" using known redis_invD(5) [OF inv] by blast
qed

lemma sys_simps [simp]:
  "db (goto c p s) = db s" "phase (goto c p s) = (phase s)(c := p)"
  "proposal (goto c p s) = proposal s" "known (goto c p s) = known s"
  "overriding (goto c p s) = overriding s" "outs (goto c p s) = outs s" "inbox (goto c p s) = inbox s"
  "db (ret c x s) = db s" "phase (ret c x s) = (phase s)(c := Idle)"
  "proposal (ret c x s) = proposal s" "known (ret c x s) = known s"
  "outs (ret c x s) = outs s @ [(c, x)]" "inbox (ret c x s) = inbox s"
  "db (ret_round c r s) = db s" "phase (ret_round c r s) = (phase s)(c := Idle)"
  "proposal (ret_round c r s) = proposal s" "known (ret_round c r s) = known s"
  "db (learn r v s) = db s" "phase (learn r v s) = phase s" "proposal (learn r v s) = proposal s"
  "known (learn r v s) = (r, v) # known s" "overriding (learn r v s) = overriding s"
  "outs (learn r v s) = outs s" "inbox (learn r v s) = inbox s"
  "db (publish dl r ev s) = db s" "phase (publish dl r ev s) = phase s"
  "proposal (publish dl r ev s) = proposal s" "known (publish dl r ev s) = known s"
  "overriding (publish dl r ev s) = overriding s" "outs (publish dl r ev s) = outs s"
  by (simp_all add: goto_def ret_def ret_round_def learn_def publish_def split: option.splits)

lemma plain_phase_simps [simp]:
  "plain_phase old Idle" "plain_phase old (Waiting v)" "plain_phase old (Polling r)"
  "plain_phase old (Converting r)" "plain_phase old (Subscribing r a)" "plain_phase old (Applying r a)"
  "plain_phase old (Refreshing r a)" "plain_phase old (Fetching r a)" "plain_phase p p"
  "plain_phase (Committing r v x y) (Committing r v x' y')" "plain_phase (Committing r v x y) (Finishing r v)"
  by (simp_all add: plain_phase_def)

lemma current_in_force:
  "keys_inv hist d \<Longrightarrow> round_ctr d = Some r \<Longrightarrow> entry d = Some v \<Longrightarrow> in_force hist d (r, v)"
  by (auto simp: keys_inv_def in_force_def)

lemma staged_accepted: "keys_inv hist d \<Longrightarrow> staged d r = Some v \<Longrightarrow> accepted hist d (r, v)"
  by (auto simp: keys_inv_def accepted_def)

text \<open>The steps that only wait, refresh, subscribe or return.\<close>

lemma ret_inv: "redis_inv hist s \<Longrightarrow> redis_inv hist (ret c x s)"
  by (rule redis_inv_plain [where c = c and p = Idle]) auto

lemma poll_entry_inv:
  assumes "redis_inv hist s"
  shows "redis_inv hist (poll_entry_step deser c e k ins expiry s)"
proof (rule redis_inv_plain [OF assms, where c = c])
  let ?s' = "poll_entry_step deser c e k ins expiry s"
  show "same_keys (db s) (db ?s')"
    by (auto simp: poll_entry_step_def pollentry_script_def Let_def split: option.splits sum.splits)
  show "phase ?s' = (phase s)(c := phase ?s' c)" "plain_phase (phase s c) (phase ?s' c)"
    "acked_of (phase ?s' c) = Some q \<Longrightarrow> accepted hist (db s) q" for q
    by (auto simp: poll_entry_step_def pollentry_script_def Let_def split: option.splits sum.splits if_splits)
  show "proposal ?s' c' = Some q \<Longrightarrow> proposal s c' = Some q \<or> accepted hist (db s) q" for c' q
    by (auto simp: poll_entry_step_def pollentry_script_def Let_def split: option.splits sum.splits if_splits)
  show "q \<in> set (known ?s') \<Longrightarrow> q \<in> set (known s) \<or> in_force hist (db s) q" for q
    by (auto simp: poll_entry_step_def pollentry_script_def Let_def
        intro: current_in_force [OF redis_invD(1) [OF assms]] split: option.splits sum.splits if_splits)
qed

lemma poll_staged_inv:
  assumes "redis_inv hist s" and "phase s c = Polling r"
  shows "redis_inv hist (poll_staged_step deser c r ins expiry s)"
proof (rule redis_inv_plain [OF assms(1), where c = c])
  let ?s' = "poll_staged_step deser c r ins expiry s"
  note defs = poll_staged_step_def Let_def
  show "same_keys (db s) (db ?s')" by (auto simp: defs split: option.splits sum.splits)
  show "phase ?s' = (phase s)(c := phase ?s' c)" "plain_phase (phase s c) (phase ?s' c)"
    "acked_of (phase ?s' c) = Some q \<Longrightarrow> accepted hist (db s) q" for q
    using assms(2) by (auto simp: defs split: option.splits sum.splits if_splits)
  show "proposal ?s' c' = Some q \<Longrightarrow> proposal s c' = Some q \<or> accepted hist (db s) q" for c' q
    by (auto simp: defs intro: staged_accepted [OF redis_invD(1) [OF assms(1)]] split: option.splits sum.splits if_splits)
  show "q \<in> set (known ?s') \<Longrightarrow> q \<in> set (known s) \<or> in_force hist (db s) q" for q
    by (auto simp: defs split: option.splits sum.splits if_splits)
qed

lemma leave_inv:
  assumes "redis_inv hist s"
  shows "redis_inv hist (leave_step a c s)"
  by (rule redis_inv_plain [OF assms, where c = c and p = Idle]) (auto simp: leave_step_def split: if_splits)

lemma committer_inv:
  assumes "redis_inv hist s" and "phase s c = Committing r v cur tot"
  shows "redis_inv hist (committer_msg_step c r v cur tot s)"
    "redis_inv hist (committer_refresh_step c r v ins expiry s)"
  by (rule redis_inv_plain [OF assms(1), where c = c and p = "phase (committer_msg_step c r v cur tot s) c"],
      auto simp: committer_msg_step_def assms(2) Let_def split: list.splits if_splits)
     (rule redis_inv_plain [OF assms(1), where c = c and p = "phase (committer_refresh_step c r v ins expiry s) c"],
      auto simp: committer_refresh_step_def refresh_commit_def Let_def assms(2) split: option.splits if_splits)

lemma converting_inv:
  assumes "redis_inv hist s" and "phase s c = Converting r"
  shows "redis_inv hist (converting_step c r ins expiry s)"
  by (rule redis_inv_plain [OF assms(1), where c = c and p = "phase (converting_step c r ins expiry s) c"])
     (auto simp: converting_step_def assms(2) Let_def split: option.splits if_splits)

lemma staged_update_inv:
  assumes "redis_inv hist s" and "\<And>v. acked = Some v \<Longrightarrow> proposal s c = Some (r, v)"
  shows "redis_inv hist (staged_update_step delivers c r acked ins expiry s)"
proof (cases acked)
  case None
  then show ?thesis
    by (intro redis_inv_plain [OF assms(1), where c = c and p = "Subscribing r acked"])
       (auto simp: staged_update_step_def Let_def)
next
  case (Some v)
  from assms(2) [OF this] have "accepted hist (db s) (r, v)" by (rule redis_invD(3) [OF assms(1)])
  with Some show ?thesis
    by (intro redis_inv_plain [OF assms(1), where c = c and p = "Subscribing r acked"])
       (auto simp: staged_update_step_def Let_def)
qed

lemma wait_applier_inv:
  assumes "redis_inv hist s" and "phase s c = Subscribing r a \<or> phase s c = Applying r a \<or> phase s c = Refreshing r a"
  shows "redis_inv hist (subscribe_step c r a s)" "redis_inv hist (applier_msg_step c r a s)"
    "redis_inv hist (applier_refresh_step ok c r a ins expiry s)"
proof -
  have acked: "accepted hist (db s) q" if "acked_of (Applying r a) = Some q" for q
    using that assms(2) redis_invD(4) [OF assms(1), of c q] by (cases a) auto
  have same: "acked_of (Refreshing r a) = acked_of (Applying r a)" "acked_of (Fetching r a) = acked_of (Applying r a)"
    "acked_of (Subscribing r a) = acked_of (Applying r a)"
    by (cases a; simp)+
  show "redis_inv hist (subscribe_step c r a s)"
    by (rule redis_inv_plain [OF assms(1), where c = c and p = "Applying r a"])
       (auto simp: subscribe_step_def intro: acked)
  show "redis_inv hist (applier_msg_step c r a s)"
    by (rule redis_inv_plain [OF assms(1), where c = c and p = "phase (applier_msg_step c r a s) c"])
       (use assms(2) in \<open>auto simp: applier_msg_step_def Let_def same intro: acked split: list.splits if_splits\<close>)
  show "redis_inv hist (applier_refresh_step ok c r a ins expiry s)"
    by (rule redis_inv_plain [OF assms(1), where c = c and p = "phase (applier_refresh_step ok c r a ins expiry s) c"])
       (auto simp: applier_refresh_step_def refresh_commit_def Let_def same intro: acked split: if_splits)
qed

lemma fetch_inv:
  assumes inv: "redis_inv hist s" and ph: "phase s c = Fetching r a"
  shows "redis_inv hist (fetch_step c r a ins expiry s)"
proof (rule redis_inv_plain [OF inv, where c = c and p = Idle])
  let ?s' = "fetch_step c r a ins expiry s"
  show "same_keys (db s) (db ?s')" "phase ?s' = (phase s)(c := Idle)"
    by (auto simp: fetch_step_def Let_def split: option.splits)
  show "proposal ?s' c' = Some q \<Longrightarrow> proposal s c' = Some q \<or> accepted hist (db s) q" for c' q
    by (auto simp: fetch_step_def Let_def split: option.splits if_splits)
  show "q \<in> set (known ?s') \<Longrightarrow> q \<in> set (known s) \<or> in_force hist (db s) q" for q
    using redis_invD(4) [OF inv, of c] ph
    by (auto simp: fetch_step_def Let_def accepted_def in_force_def split: option.splits if_splits)
qed auto

text \<open>Taking the lock increments an even round; the value in force stays what it was.\<close>

lemma lock_step_keys:
  assumes "keys_inv hist d" and "round_ctr d = Some r" and "even r" and "entry d = Some v"
  shows "keys_inv (hist(r + 1 := v)) (d\<lparr>round_ctr := Some (r + 1)\<rparr>)"
  using assms by (auto simp: keys_inv_def)

lemma accepted_mono:
  assumes "accepted hist d p" and "round_ctr d = Some r" and "even r"
    and "round_ctr d' = Some (r + 1)"
  shows "accepted (hist(r + 1 := v)) d' p"
proof -
  from assms have "fst p < r" and "hist (fst p + 1) = snd p" and "odd (fst p)"
    by (auto simp: accepted_def)
  with assms(4) show ?thesis by (auto simp: accepted_def)
qed

lemma in_force_mono:
  "in_force hist d p \<Longrightarrow> round_ctr d = Some r \<Longrightarrow> round_ctr d' = Some (r + 1) \<Longrightarrow> in_force (hist(r + 1 := v)) d' p"
  by (auto simp: in_force_def)

lemma no_lock_when_even:
  assumes "lock_inv d ph" and "round_ctr d = Some r" and "even r"
  shows "lock_of (ph c) = None"
  using assms by (cases "lock_of (ph c)") (auto simp: lock_inv_def)

lemma start_transition_inv:
  assumes inv: "redis_inv hist s" and "lock_of (phase s c) = None"
  shows "\<exists>hist'. redis_inv hist' (start_transition c v s)"
proof (cases "\<exists>r. round_ctr (db s) = Some r \<and> even r")
  case False
  have "redis_inv hist (start_transition c v s)"
    by (rule redis_inv_plain [OF inv, where c = c and p = "phase (start_transition c v s) c"])
       (use False in \<open>auto simp: start_transition_def transition_script_def Let_def even_iff_mod_2_eq_zero
         split: option.splits if_splits\<close>)
  then show ?thesis by blast
next
  case True
  then obtain r where r: "round_ctr (db s) = Some r" "even r" by blast
  then obtain w where w: "entry (db s) = Some w"
    using redis_invD(1) [OF inv] by (cases "entry (db s)") (auto simp: keys_inv_def)
  let ?d = "(unlock_join c (db s))\<lparr>round_ctr := Some (r + 1)\<rparr>" and ?h = "hist(r + 1 := w)"
  have s': "start_transition c v s = goto c (Locked (r + 1) v) (s\<lparr>db := ?d\<rparr>)"
    using r by (simp add: start_transition_def transition_script_def Let_def even_iff_mod_2_eq_zero)
  have same: "same_keys (db s) (unlock_join c (db s))" by simp
  note free = no_lock_when_even [OF redis_invD(2) [OF inv] r]
  have "keys_inv ?h ?d"
    using lock_step_keys [of hist "unlock_join c (db s)"] r w redis_invD(1) [OF inv]
    by (simp add: same_keys_inv [OF same])
  moreover have "staged (db s) (r + 1) = None"
    using redis_invD(1) [OF inv] r by (cases "staged (db s) (r + 1)") (auto simp: keys_inv_def)
  then have "lock_inv ?d ((phase s)(c := Locked (r + 1) v))"
    using free no_lock_no_staging [OF free] r(2) by (auto simp: lock_inv_def) (metis free lock_of.simps(1) option.distinct(1))
  moreover have "accepted ?h ?d p" if "accepted hist (db s) p" for p
    by (rule accepted_mono [OF that r]) simp
  moreover have "in_force ?h ?d p" if "in_force hist (db s) p" for p
    by (rule in_force_mono [OF that r(1)]) simp
  ultimately have "redis_inv ?h (start_transition c v s)"
    using redis_invD(3-5) [OF inv] by (auto simp: s' redis_inv_def)
  then show ?thesis by blast
qed

text \<open>The staged value is written once, by the holder of the lock.\<close>

lemma write_staged_inv:
  assumes inv: "redis_inv hist s" and ph: "phase s c = Locked r v"
  shows "redis_inv hist (write_staged_step delivers c r v ins expiry s)"
proof -
  let ?s' = "write_staged_step delivers c r v ins expiry s"
  note L = redis_invD(2) [OF inv, unfolded lock_inv_def]
  have r: "round_ctr (db s) = Some r" "odd r" and free: "staged (db s) r = None"
    using L ph by (metis fst_conv lock_of.simps(1), metis fst_conv lock_of.simps(1), blast)
  have only: "lock_of (phase s c') = None" if "c' \<noteq> c" for c'
    using L ph that by (metis lock_of.simps(1) option.distinct(1))
  have d: "entry (db ?s') = entry (db s)" "round_ctr (db ?s') = round_ctr (db s)"
      "staged (db ?s') = (staged (db s))(r \<mapsto> v)" "proposal ?s' = proposal s" "known ?s' = known s"
    using free by (auto simp: write_staged_step_def Let_def)
  obtain p where p: "phase ?s' = (phase s)(c := p)" "p = Idle \<or> (\<exists>n. p = Committing r v 1 n) \<or> p = Finishing r v"
    by (rule that [of "phase ?s' c"]) (auto simp: write_staged_step_def Let_def)
  have keys: "keys_inv hist (db ?s')"
    using redis_invD(1) [OF inv] r by (auto simp: keys_inv_def d)
  have "lock_inv (db ?s') (phase ?s')"
    using p(2) r only no_lock_no_staging [OF only] by (auto simp: lock_inv_def d p(1))
      (metis lock_of.simps(1) only option.distinct(1))+
  moreover have "accepted hist (db ?s') q" if "accepted hist (db s) q" for q
    using that free by (auto simp: accepted_def d)
  moreover have "acked_of p = None" using p(2) by auto
  moreover have "in_force hist (db ?s') = in_force hist (db s)" by (auto simp: in_force_def [abs_def] d)
  ultimately show ?thesis
    using keys redis_invD(3-5) [OF inv] by (auto simp: redis_inv_def d p(1))
qed

text \<open>A commit puts the staged value in force and moves to the next, even, round.\<close>

lemma cleanup_eq:
  assumes "redis_inv hist s" and "phase s c = Finishing r v"
  shows "round_ctr (db s) = Some r" "odd r" "staged (db s) r = Some v"
    "cleanup_step delivers c r v s = ret_round c (r + 1) (learn (r + 1) v (publish delivers r ''del''
       (s\<lparr>db := (db s)\<lparr>entry := Some v, staged := (staged (db s))(r := None),
          committed_cnt := (committed_cnt (db s))(r := None), round_ctr := Some (r + 1)\<rparr>\<rparr>)))"
proof -
  note L = redis_invD(2) [OF assms(1), unfolded lock_inv_def]
  show r: "round_ctr (db s) = Some r" "odd r"
    using L assms(2) by (metis fst_conv lock_of.simps(3))+
  show "staged (db s) r = Some v"
    using L assms(2) by (metis fst_conv snd_conv staging_of.simps(2))
  have "(r + 1) mod 2 = 0" using r(2) by presburger
  then show "cleanup_step delivers c r v s = ret_round c (r + 1) (learn (r + 1) v (publish delivers r ''del''
       (s\<lparr>db := (db s)\<lparr>entry := Some v, staged := (staged (db s))(r := None),
          committed_cnt := (committed_cnt (db s))(r := None), round_ctr := Some (r + 1)\<rparr>\<rparr>)))"
    by (simp add: cleanup_step_def r)
qed

lemma cleanup_inv:
  assumes inv: "redis_inv hist s" and ph: "phase s c = Finishing r v"
  shows "\<exists>hist'. redis_inv hist' (cleanup_step delivers c r v s)"
proof -
  let ?s' = "cleanup_step delivers c r v s" and ?h = "hist(r + 1 := v)"
  note eq = cleanup_eq [OF inv ph]
  note L = redis_invD(2) [OF inv, unfolded lock_inv_def]
  have d: "entry (db ?s') = Some v" "round_ctr (db ?s') = Some (r + 1)" "staged (db ?s') = (staged (db s))(r := None)"
    "phase ?s' = (phase s)(c := Idle)" "proposal ?s' = proposal s" "known ?s' = (r + 1, v) # known s"
    by (simp_all add: eq(4))
  have only: "lock_of (phase s c') = None" if "c' \<noteq> c" for c'
    using L ph that by (metis lock_of.simps(3) option.distinct(1))
  have none: "staged (db ?s') k = None" for k
    using redis_invD(1) [OF inv] eq(1) by (cases "staged (db s) k") (auto simp: keys_inv_def d)
  have "keys_inv ?h (db ?s')" using none by (auto simp: keys_inv_def d)
  moreover have "lock_inv (db ?s') (phase ?s')"
    using only no_lock_no_staging [OF only] none by (auto simp: lock_inv_def d)
  moreover have "accepted ?h (db ?s') q" if "accepted hist (db s) q" for q
    using that eq(1,3) by (auto simp: accepted_def d)
  moreover have "in_force ?h (db ?s') q" if "in_force hist (db s) q" for q
    using that eq(1) by (auto simp: in_force_def d)
  moreover have "in_force ?h (db ?s') (r + 1, v)" by (simp add: in_force_def d)
  ultimately have "redis_inv ?h ?s'"
    using redis_invD(3-5) [OF inv] by (auto simp: redis_inv_def d)
  then show ?thesis by blast
qed

lemma try_init_inv:
  assumes inv: "redis_inv hist s" and ph: "lock_of (phase s c) = None"
  shows "\<exists>hist'. redis_inv hist' (try_init_step deser nx_nil c v ins expiry s)"
proof (cases "entry (db s)")
  case None
  let ?s' = "try_init_step deser nx_nil c v ins expiry s" and ?h = "hist(0 := v)"
  from None have none: "round_ctr (db s) = None" using redis_invD(1) [OF inv] by (simp add: keys_inv_def)
  have staged: "staged (db s) k = None" for k
    using redis_invD(1) [OF inv] none by (cases "staged (db s) k") (auto simp: keys_inv_def)
  have d: "entry (db ?s') = Some v" "round_ctr (db ?s') = Some 0" "staged (db ?s') = staged (db s)"
    "phase ?s' = (phase s)(c := Idle)" "proposal ?s' = proposal s" "known ?s' = (0, v) # known s"
    using None none by (simp_all add: try_init_step_def tryinit_script_def Let_def)
  have no_lock: "lock_of (phase s c') = None" for c'
    using redis_invD(2) [OF inv] none by (cases "lock_of (phase s c')") (auto simp: lock_inv_def)
  have fresh: "\<not> accepted hist (db s) q" "\<not> in_force hist (db s) q" for q
    by (simp_all add: accepted_def in_force_def none)
  have "keys_inv ?h (db ?s')" by (simp add: keys_inv_def d staged)
  moreover have "lock_inv (db ?s') (phase ?s')"
    using no_lock no_lock_no_staging [OF no_lock] by (auto simp: lock_inv_def d staged)
  moreover have "in_force ?h (db ?s') (0, v)" by (simp add: in_force_def d)
  ultimately have "redis_inv ?h ?s'"
    using redis_invD(3-5) [OF inv] fresh by (fastforce simp: redis_inv_def d split: if_splits)
  then show ?thesis by blast
next
  case (Some w)
  let ?res = "tryinit_script nx_nil c v ins expiry (db s)"
  have same: "same_keys (db s) (snd ?res)"
    using Some by (auto simp: tryinit_script_def Let_def split: option.splits if_splits)
  have got: "round_ctr (db s) = Some r \<and> entry (db s) = Some g" if "fst ?res = Inr (cr, r, n, g)" for cr r n g
    using that Some by (auto simp: tryinit_script_def Let_def split: option.splits if_splits)
  have base: "redis_inv hist (s\<lparr>db := snd ?res, overriding := ov\<rparr>)" for ov
    by (rule redis_inv_plain [OF inv, where c = c and p = "phase s c"]) (auto intro: redis_invD(4) [OF inv] simp: same)
  have ret: "redis_inv hist (ret c x (learn r g (s\<lparr>db := snd ?res\<rparr>)))" if "fst ?res = Inr (cr, r, n, g)" for x cr r n g
    by (rule redis_inv_plain [OF inv, where c = c and p = Idle])
       (use current_in_force [OF redis_invD(1) [OF inv]] got [OF that] in \<open>auto simp: same\<close>)
  have wait: "redis_inv hist (goto c (Waiting v) (s\<lparr>db := snd ?res\<rparr>))"
    by (rule redis_inv_plain [OF inv, where c = c and p = "Waiting v"]) (auto simp: same)
  show ?thesis
  proof (cases "fst ?res")
    case (Inl e)
    then show ?thesis
      using ret_inv [OF base [of "overriding s"], of c "Failed (wrap_report ''try_init failed'' e)"]
      by (auto simp: try_init_step_def prod.case_eq_if)
  next
    case (Inr x)
    obtain cr r n g where x: "fst ?res = Inr (cr, r, n, g)" using Inr by (cases x) auto
    obtain h where tr: "redis_inv h (start_transition c v (s\<lparr>db := snd ?res, overriding := (overriding s)(c := Some r)\<rparr>))"
      using start_transition_inv [OF base] ph by fastforce
    have "redis_inv hist (ret c (Failed e) (s\<lparr>db := snd ?res\<rparr>))" for e
      using ret_inv [OF base [of "overriding s"], of c "Failed e"] by simp
    with tr ret [OF x] wait show ?thesis
      by (auto simp: try_init_step_def prod.case_eq_if x Let_def split: sum.splits)
  qed
qed

lemma redis_step_inv:
  assumes "redis_step deser nx_nil delivers addr_name s s'" and inv: "redis_inv hist s"
  shows "\<exists>hist'. redis_inv hist' s'"
  using assms(1)
proof cases
  case (try_init c v ins expiry)
  with try_init_inv [OF inv] show ?thesis by simp
next
  case (retry c v ins expiry)
  with try_init_inv [OF inv] show ?thesis by simp
next
  case (poll c e k ins expiry)
  with poll_entry_inv [OF inv] show ?thesis by (simp; fail | blast)
next
  case (poll_staged c r ins expiry)
  with poll_staged_inv [OF inv] show ?thesis by (simp; fail | blast)
next
  case (leave c)
  with leave_inv [OF inv] show ?thesis by (simp; fail | blast)
next
  case (transition c v)
  with start_transition_inv [OF inv] show ?thesis by simp
next
  case (write_staged c r v ins expiry)
  with write_staged_inv [OF inv] show ?thesis by (simp; fail | blast)
next
  case (committer_msg c r v cur tot)
  with committer_inv(1) [OF inv] show ?thesis by (simp; fail | blast)
next
  case (committer_refresh c r v cur tot ins expiry)
  with committer_inv(2) [OF inv] show ?thesis by (simp; fail | blast)
next
  case (cleanup c r v)
  with cleanup_inv [OF inv] show ?thesis by (simp; fail | blast)
next
  case (converting c r ins expiry)
  with converting_inv [OF inv] show ?thesis by (simp; fail | blast)
next
  case (accept c r v ins expiry)
  with staged_update_inv [OF inv, of "Some v"] show ?thesis by (simp; fail | blast)
next
  case (staged_update c e n r ins expiry)
  with staged_update_inv [OF inv, of None] show ?thesis by (simp; fail | blast)
next
  case (subscribe c r acked)
  with wait_applier_inv(1) [OF inv] show ?thesis by (simp; fail | blast)
next
  case (applier_msg c r acked)
  with wait_applier_inv(2) [OF inv] show ?thesis by (simp; fail | blast)
next
  case (applier_refresh c r acked ok ins expiry)
  with wait_applier_inv(3) [OF inv] show ?thesis by (simp; fail | blast)
next
  case (fetch c r acked ins expiry)
  with fetch_inv [OF inv] show ?thesis by (simp; fail | blast)
next
  case (fail c e)
  with ret_inv [OF inv] show ?thesis by (simp; fail | blast)
next
  case expire
  then show ?thesis
    using redis_inv_plain [OF inv, of s' undefined "phase s undefined"] redis_invD(4) [OF inv] by auto
next
  case (lost c)
  then show ?thesis
    using redis_inv_plain [OF inv, of s' undefined "phase s undefined"] redis_invD(4) [OF inv] by auto
qed

lemma redis_reachable_inv:
  "redis_reachable deser nx_nil delivers addr_name s \<Longrightarrow> \<exists>hist. redis_inv hist s"
proof (induction rule: redis_reachable.induct)
  case init
  show ?case
    by (rule exI [of _ "\<lambda>_. []"])
       (simp add: redis_inv_def sys_init_def no_keys_def keys_inv_def lock_inv_def)
qed (blast dest: redis_step_inv)

section \<open>How a step changes the keys\<close>

lemma start_transition_keys:
  "entry (db (start_transition c v s)) = entry (db s)
   \<and> (round_ctr (db (start_transition c v s)) = round_ctr (db s)
      \<or> (\<exists>r. even r \<and> round_ctr (db s) = Some r \<and> round_ctr (db (start_transition c v s)) = Some (r + 1)))"
  by (auto simp: start_transition_def transition_script_def Let_def even_iff_mod_2_eq_zero split: option.splits)

text \<open>The steps that change neither the value nor the round.\<close>

lemma quiet_keys:
  "entry (db (poll_entry_step deser c e k ins expiry s)) = entry (db s)
   \<and> round_ctr (db (poll_entry_step deser c e k ins expiry s)) = round_ctr (db s)"
  "entry (db (poll_staged_step deser c r ins expiry s)) = entry (db s)
   \<and> round_ctr (db (poll_staged_step deser c r ins expiry s)) = round_ctr (db s)"
  "entry (db (leave_step a c s)) = entry (db s) \<and> round_ctr (db (leave_step a c s)) = round_ctr (db s)"
  "entry (db (write_staged_step delivers c r v ins expiry s)) = entry (db s)
   \<and> round_ctr (db (write_staged_step delivers c r v ins expiry s)) = round_ctr (db s)"
  "entry (db (committer_msg_step c r v cur tot s)) = entry (db s)
   \<and> round_ctr (db (committer_msg_step c r v cur tot s)) = round_ctr (db s)"
  "entry (db (committer_refresh_step c r v ins expiry s)) = entry (db s)
   \<and> round_ctr (db (committer_refresh_step c r v ins expiry s)) = round_ctr (db s)"
  "entry (db (converting_step c r ins expiry s)) = entry (db s)
   \<and> round_ctr (db (converting_step c r ins expiry s)) = round_ctr (db s)"
  "entry (db (staged_update_step delivers c r acked ins expiry s)) = entry (db s)
   \<and> round_ctr (db (staged_update_step delivers c r acked ins expiry s)) = round_ctr (db s)"
  "entry (db (subscribe_step c r acked s)) = entry (db s)
   \<and> round_ctr (db (subscribe_step c r acked s)) = round_ctr (db s)"
  "entry (db (applier_msg_step c r acked s)) = entry (db s)
   \<and> round_ctr (db (applier_msg_step c r acked s)) = round_ctr (db s)"
  "entry (db (applier_refresh_step ok c r acked ins expiry s)) = entry (db s)
   \<and> round_ctr (db (applier_refresh_step ok c r acked ins expiry s)) = round_ctr (db s)"
  "entry (db (fetch_step c r acked ins expiry s)) = entry (db s)
   \<and> round_ctr (db (fetch_step c r acked ins expiry s)) = round_ctr (db s)"
  by (auto simp: poll_entry_step_def pollentry_script_def poll_staged_step_def leave_step_def
      write_staged_step_def committer_msg_step_def committer_refresh_step_def refresh_commit_def converting_step_def
      staged_update_step_def subscribe_step_def applier_msg_step_def applier_refresh_step_def fetch_step_def Let_def
      split: option.splits sum.splits list.splits)

lemma redis_step_keys:
  assumes "redis_step deser nx_nil delivers addr_name s s'" and inv: "redis_inv hist s"
  shows "entry (db s') = entry (db s) \<and> round_ctr (db s') = round_ctr (db s)
     \<or> entry (db s) = None \<and> (\<exists>v. entry (db s') = Some v) \<and> round_ctr (db s') = Some 0
     \<or> entry (db s') = entry (db s) \<and> (\<exists>r. even r \<and> round_ctr (db s) = Some r \<and> round_ctr (db s') = Some (r + 1))
     \<or> (\<exists>r v. odd r \<and> round_ctr (db s) = Some r \<and> staged (db s) r = Some v
          \<and> entry (db s') = Some v \<and> round_ctr (db s') = Some (r + 1))"
    (is "?same \<or> ?create \<or> ?lock \<or> ?commit")
proof -
  have init: "?same \<or> ?create \<or> ?lock" if "s' = try_init_step deser nx_nil c v ins expiry s" for c v ins expiry
  proof (cases "entry (db s)")
    case None
    then have "round_ctr (db s) = None" using redis_invD(1) [OF inv] by (simp add: keys_inv_def)
    with None that show ?thesis by (simp add: try_init_step_def tryinit_script_def Let_def)
  next
    case (Some w)
    let ?d = "snd (tryinit_script nx_nil c v ins expiry (db s))"
    have d: "entry ?d = entry (db s)" "round_ctr ?d = round_ctr (db s)"
      using Some by (auto simp: tryinit_script_def Let_def split: option.splits if_splits)
    have "db s' = ?d \<or> (\<exists>ov. db s' = db (start_transition c v (s\<lparr>db := ?d, overriding := ov\<rparr>)))"
      using that by (auto simp: try_init_step_def prod.case_eq_if Let_def split: sum.splits prod.splits if_splits)
    then show ?thesis
    proof
      assume "\<exists>ov. db s' = db (start_transition c v (s\<lparr>db := ?d, overriding := ov\<rparr>))"
      then obtain ov where "db s' = db (start_transition c v (s\<lparr>db := ?d, overriding := ov\<rparr>))" ..
      with start_transition_keys [of c v "s\<lparr>db := ?d, overriding := ov\<rparr>"] d show ?thesis by auto
    qed (simp add: d)
  qed
  from assms(1) show ?thesis
  proof cases
    case (transition c v)
    with start_transition_keys [of c v s] show ?thesis by auto
  next
    case (cleanup c r v)
    with cleanup_eq [OF inv cleanup(2)] show ?thesis by simp
  next
    case (try_init c v ins expiry)
    from init [OF this(1)] show ?thesis by (elim disjE) simp_all
  next
    case (retry c v ins expiry)
    from init [OF this(1)] show ?thesis by (elim disjE) simp_all
  qed (simp_all add: quiet_keys)
qed

text \<open>What clients see is a register whose value is created once and then replaced by proposals.\<close>

inductive register_step :: "bytes set \<Rightarrow> bytes option \<times> nat \<Rightarrow> bytes option \<times> nat \<Rightarrow> bool" for proposals where
  stay: "register_step proposals reg reg"
| create: "register_step proposals (None, 0) (Some v, 0)"
| commit: "v \<in> proposals \<Longrightarrow> register_step proposals (Some w, n) (Some v, n + 1)"

definition register :: "('n, 'e) sys \<Rightarrow> bytes option \<times> nat" where
  "register s = (entry (db s), case round_ctr (db s) of None \<Rightarrow> 0 | Some r \<Rightarrow> r div 2)"

definition staged_values :: "('n, 'e) sys \<Rightarrow> bytes set" where
  "staged_values s = {v. \<exists>k. staged (db s) k = Some v}"

lemma redis_step_register:
  assumes "redis_step deser nx_nil delivers addr_name s s'" and inv: "redis_inv hist s"
  shows "register_step (staged_values s) (register s) (register s')"
proof -
  note keys = redis_invD(1) [OF inv, unfolded keys_inv_def]
  consider (same) "register s' = register s"
    | (create) v where "entry (db s) = None" "entry (db s') = Some v" "round_ctr (db s') = Some 0"
    | (commit) r v where "odd r" "round_ctr (db s) = Some r" "staged (db s) r = Some v"
        "entry (db s') = Some v" "round_ctr (db s') = Some (r + 1)"
    using redis_step_keys [OF assms] by (auto simp: register_def)
  then show ?thesis
  proof cases
    case (commit r v)
    then obtain w where "entry (db s) = Some w" using keys by fastforce
    moreover have "(r + 1) div 2 = r div 2 + 1" using \<open>odd r\<close> by presburger
    moreover have "v \<in> staged_values s" using commit by (auto simp: staged_values_def)
    ultimately show ?thesis using commit register_step.commit [of v "staged_values s" w "r div 2"]
      by (simp add: register_def)
  qed (use keys in \<open>auto simp: register_def intro: register_step.intros\<close>)
qed

section \<open>Waits that never end\<close>

text \<open>A step of another client leaves the phase of a client alone.\<close>

lemma own_phase_only:
  assumes "x \<noteq> c"
  shows "phase (start_transition c v s) x = phase s x"
    "phase (try_init_step deser nx_nil c v ins expiry s) x = phase s x"
    "phase (poll_entry_step deser c e k ins expiry s) x = phase s x"
    "phase (poll_staged_step deser c r ins expiry s) x = phase s x"
    "phase (leave_step a c s) x = phase s x"
    "phase (write_staged_step delivers c r v ins expiry s) x = phase s x"
    "phase (committer_msg_step c r v cur tot s) x = phase s x"
    "phase (committer_refresh_step c r v ins expiry s) x = phase s x"
    "phase (cleanup_step delivers c r v s) x = phase s x"
    "phase (converting_step c r ins expiry s) x = phase s x"
    "phase (staged_update_step delivers c r acked ins expiry s) x = phase s x"
    "phase (subscribe_step c r acked s) x = phase s x"
    "phase (applier_msg_step c r acked s) x = phase s x"
    "phase (applier_refresh_step ok c r acked ins expiry s) x = phase s x"
    "phase (fetch_step c r acked ins expiry s) x = phase s x"
proof -
  show tr: "phase (start_transition c v s) x = phase s x" for s :: "('a, 'b) sys"
    using assms by (simp add: start_transition_def split: prod.splits sum.splits)
  show "phase (try_init_step deser nx_nil c v ins expiry s) x = phase s x"
    using assms by (simp add: try_init_step_def Let_def tr split: prod.splits sum.splits)
qed (use assms in \<open>auto simp: poll_entry_step_def pollentry_script_def poll_staged_step_def leave_step_def
      cleanup_step_def write_staged_step_def committer_msg_step_def committer_refresh_step_def refresh_commit_def
      converting_step_def staged_update_step_def subscribe_step_def applier_msg_step_def applier_refresh_step_def
      fetch_step_def Let_def split: option.splits sum.splits list.splits\<close>)

lemma differing_clients: "phase s x \<noteq> phase s c \<Longrightarrow> x \<noteq> c"
  by auto

lemmas other_phase = own_phase_only [where s = s, OF differing_clients [where s = s]] for s :: "('n, 'e) sys"

lemma redis_step_phase:
  assumes "redis_step deser nx_nil delivers addr_name s s'" and ph: "phase s x = Polling r"
    and none: "staged (db s) r = None"
  shows "phase s' x = Polling r \<or> (\<exists>e. s' = ret x (Failed e) s)"
  using assms(1)
proof cases
  case (poll_staged c k ins expiry)
  then show ?thesis
    using ph none own_phase_only(4) [of x c deser k ins expiry s]
    by (cases "x = c") (simp_all add: poll_staged_step_def)
next
  case (fail c e)
  then show ?thesis using ph by (cases "x = c") auto
next
  case (applier_refresh c k acked)
  then have "phase s x \<noteq> phase s c" using ph by auto
  with applier_refresh ph show ?thesis by (simp add: other_phase)
qed (use ph in \<open>simp_all add: other_phase\<close>)

lemma polling_stays:
  assumes "redis_step deser nx_nil delivers addr_name s s'" and inv: "redis_inv hist s"
    and ph: "phase s c = Polling r" and "even r"
  shows "phase s' c = Polling r \<or> (\<exists>e. s' = ret c (Failed e) s)"
proof -
  have "staged (db s) r = None"
    using redis_invD(1) [OF inv] \<open>even r\<close> by (cases "staged (db s) r") (auto simp: keys_inv_def)
  with redis_step_phase [OF assms(1) ph] show ?thesis .
qed

text \<open>
  A client that acknowledges a round which is already committed, that is, an even one, waits for the
  deletion of a commit counter that nobody deletes. Only an error of redis ends the wait.
\<close>

definition waits_in_vain :: "'n \<Rightarrow> nat \<Rightarrow> ('n, 'e) sys \<Rightarrow> bool" where
  "waits_in_vain x r s \<longleftrightarrow> even r
     \<and> (\<exists>acked. phase s x = Subscribing r acked
          \<or> phase s x \<in> {Applying r acked, Refreshing r acked} \<and> ''del'' \<notin> set (inbox s x))"

definition redis_error :: "'n \<Rightarrow> ('n, 'e) sys \<Rightarrow> ('n, 'e) sys \<Rightarrow> bool" where
  "redis_error x s s' \<longleftrightarrow>
     (\<exists>e. s' = ret x (Failed e) s) \<or> (\<exists>r acked ins expiry. s' = applier_refresh_step False x r acked ins expiry s)"

text \<open>What the step of another client puts into the inbox.\<close>

lemma inbox_keeps:
  assumes "x \<noteq> c"
  shows "inbox (start_transition c v s) x = inbox s x"
    "inbox (try_init_step deser nx_nil c v ins expiry s) x = inbox s x"
    "inbox (poll_entry_step deser c e k ins expiry s) x = inbox s x"
    "inbox (poll_staged_step deser c r ins expiry s) x = inbox s x"
    "inbox (leave_step a c s) x = inbox s x"
    "inbox (committer_msg_step c r v cur tot s) x = inbox s x"
    "inbox (committer_refresh_step c r v ins expiry s) x = inbox s x"
    "inbox (converting_step c r ins expiry s) x = inbox s x"
    "inbox (subscribe_step c r acked s) x = inbox s x"
    "inbox (applier_msg_step c r acked s) x = inbox s x"
    "inbox (applier_refresh_step ok c r acked ins expiry s) x = inbox s x"
    "inbox (fetch_step c r acked ins expiry s) x = inbox s x"
    "set (inbox (write_staged_step delivers c r v ins expiry s) x) \<subseteq> insert ''set'' (set (inbox s x))"
    "set (inbox (staged_update_step delivers c r acked ins expiry s) x) \<subseteq> insert ''incrby'' (set (inbox s x))"
    "phase s x \<in> {Applying k p, Refreshing k p} \<Longrightarrow> k \<noteq> r \<Longrightarrow> inbox (cleanup_step delivers c r v s) x = inbox s x"
proof -
  show tr: "inbox (start_transition c v s) x = inbox s x" for s :: "('a, 'b) sys"
    using assms by (simp add: start_transition_def split: prod.splits sum.splits)
  show "inbox (try_init_step deser nx_nil c v ins expiry s) x = inbox s x"
    using assms by (simp add: try_init_step_def Let_def tr split: prod.splits sum.splits)
qed (use assms in \<open>auto simp: poll_entry_step_def pollentry_script_def poll_staged_step_def leave_step_def
      cleanup_step_def write_staged_step_def committer_msg_step_def committer_refresh_step_def refresh_commit_def
      converting_step_def staged_update_step_def subscribe_step_def applier_msg_step_def applier_refresh_step_def
      fetch_step_def publish_def ret_round_def Let_def split: option.splits sum.splits list.splits\<close>)

lemmas other_inbox = inbox_keeps [where s = s, OF differing_clients [where s = s]] for s :: "('n, 'e) sys"

lemma waits_in_vain_keep:
  assumes "waits_in_vain x r s" and "phase s' x = phase s x"
    and "\<And>p. phase s x \<in> {Applying r p, Refreshing r p} \<Longrightarrow> set (inbox s' x) \<subseteq> {''set'', ''incrby''} \<union> set (inbox s x)"
  shows "waits_in_vain x r s'"
proof -
  have "''del'' \<notin> set (inbox s' x)" if "phase s x \<in> {Applying r p, Refreshing r p}" "''del'' \<notin> set (inbox s x)" for p
    using assms(3) [OF that(1)] that(2) by auto
  with assms(1,2) show ?thesis unfolding waits_in_vain_def by metis
qed

lemma waits_in_vain_phase:
  assumes "waits_in_vain x r s"
  obtains acked where "phase s x \<in> {Subscribing r acked, Applying r acked, Refreshing r acked}"
  using assms by (auto simp: waits_in_vain_def)

lemma lock_odd:
  assumes "lock_inv d ph" and "lock_of (ph c) = Some (k, v)"
  shows "odd k"
proof -
  from assms(1) have "lock_of (ph c) = Some (k, v) \<longrightarrow> round_ctr d = Some (fst (k, v)) \<and> odd (fst (k, v))"
    unfolding lock_inv_def by blast
  with assms(2) show ?thesis by simp
qed

lemma waits_in_vain_step:
  assumes "redis_step deser nx_nil delivers addr_name s s'" and inv: "redis_inv hist s" and w: "waits_in_vain x r s"
  shows "waits_in_vain x r s' \<or> redis_error x s s'"
proof -
  obtain acked where ph: "phase s x \<in> {Subscribing r acked, Applying r acked, Refreshing r acked}"
    using w by (rule waits_in_vain_phase)
  note keep = waits_in_vain_keep [OF w]
  from assms(1) show ?thesis
  proof cases
    case (fail c e)
    then show ?thesis
    proof (cases "x = c")
      case False
      with fail show ?thesis by (intro disjI1 keep) auto
    qed (use fail in \<open>auto simp: redis_error_def\<close>)
  next
    case (subscribe c k p)
    then show ?thesis
    proof (cases "x = c")
      case True
      with subscribe ph have "k = r" by auto
      with w subscribe True show ?thesis by (auto simp: waits_in_vain_def subscribe_step_def)
    next
      case False
      with subscribe show ?thesis by (intro disjI1 keep) (auto simp: own_phase_only inbox_keeps)
    qed
  next
    case (applier_msg c k p)
    then show ?thesis
    proof (cases "x = c")
      case True
      with applier_msg ph have "k = r" by auto
      with w applier_msg True show ?thesis
        by (auto simp: waits_in_vain_def applier_msg_step_def Let_def split: list.splits)
    next
      case False
      with applier_msg show ?thesis by (intro disjI1 keep) (auto simp: own_phase_only inbox_keeps)
    qed
  next
    case (applier_refresh c k p ok ins expiry)
    then show ?thesis
    proof (cases "x = c")
      case True
      with applier_refresh ph have "k = r" by auto
      with w applier_refresh True show ?thesis
        by (cases ok) (auto simp: waits_in_vain_def redis_error_def applier_refresh_step_def refresh_commit_def Let_def)
    next
      case False
      with applier_refresh show ?thesis by (intro disjI1 keep) (auto simp: own_phase_only inbox_keeps)
    qed
  next
    case (cleanup c k v)
    have "odd k" by (rule lock_odd [OF redis_invD(2) [OF inv], of c k v]) (simp add: cleanup(2))
    then have "k \<noteq> r" using w by (auto simp: waits_in_vain_def)
    moreover have "x \<noteq> c" using ph cleanup(2) by auto
    ultimately show ?thesis using cleanup by (intro disjI1 keep) (auto simp: own_phase_only inbox_keeps(15))
  next
    case (write_staged c k v ins expiry)
    then have "x \<noteq> c" using ph by auto
    with write_staged show ?thesis
      using inbox_keeps(13) [of x c delivers k v ins expiry s] by (intro disjI1 keep) (auto simp: own_phase_only)
  next
    case (accept c k v ins expiry)
    then have "x \<noteq> c" using ph by auto
    with accept show ?thesis
      using inbox_keeps(14) [of x c delivers k "Some v" ins expiry s] by (intro disjI1 keep) (auto simp: own_phase_only)
  next
    case (staged_update c e n k ins expiry)
    then have "x \<noteq> c" using ph by auto
    with staged_update show ?thesis
      using inbox_keeps(14) [of x c delivers k None ins expiry s] by (intro disjI1 keep) (auto simp: own_phase_only)
  next
    case expire
    then show ?thesis by (intro disjI1 keep) auto
  next
    case (lost c)
    then show ?thesis by (intro disjI1 keep) auto
  qed (intro disjI1 keep; use ph in \<open>auto simp: other_phase other_inbox\<close>)+
qed

end
