(* ===== verification/Redis_Commit.thy ===== *)
theory Redis_Commit
  imports Redis_Rendezvous
begin

text \<open>
  What the commit protocol of the redis backend guarantees and where it hangs: agreement of all
  clients on the value of each round, one committer at a time, the refinement of a register, runs of
  a commit with two participants, and the situations in which a call never returns.
\<close>

section \<open>Agreement\<close>


text \<open>
  C7: One committer at a time. Of the clients inside a transition at most one holds the commit lock;
  the round is then the odd round it locked, and once it has staged its proposal, that proposal is
  the only staged value.
\<close>

theorem single_committer:
  assumes "redis_reachable deser nx_nil delivers addr_name s" and "lock_of (phase s c) = Some (r, v)"
  shows "(lock_of (phase s c') \<noteq> None \<longrightarrow> c' = c) \<and> round_ctr (db s) = Some r \<and> odd r
     \<and> staged_values s \<subseteq> {v}"
proof -
  obtain hist where inv: "redis_inv hist s" using redis_reachable_inv [OF assms(1)] by blast
  note L = redis_invD(2) [OF inv, unfolded lock_inv_def] and K = redis_invD(1) [OF inv, unfolded keys_inv_def]
  from L have "lock_of (phase s c) = Some (r, v) \<longrightarrow> round_ctr (db s) = Some (fst (r, v)) \<and> odd (fst (r, v))" by blast
  with assms(2) have r: "round_ctr (db s) = Some r" "odd r" by simp_all
  have "staging_of (phase s c) = Some (r, v) \<or> phase s c = Locked r v"
    using assms(2) by (cases "phase s c") auto
  with L have "staged (db s) r = Some (snd (r, v)) \<or> staged (db s) r = None" by (metis fst_conv)
  moreover have "k = r" if "staged (db s) k = Some w" for k w
  proof -
    from K that have "round_ctr (db s) = Some k" by blast
    with r show ?thesis by simp
  qed
  ultimately have "staged_values s \<subseteq> {v}" by (auto simp: staged_values_def)
  with r L assms(2) show ?thesis by blast
qed

text \<open>
  C8: The backend refines a register. Seen from outside, every step of the system either leaves the
  value and its version (half the round number) alone, creates the value, or replaces it by a value
  that was staged, incrementing the version; nothing else ever happens to the value.
\<close>

theorem backend_refines_register:
  assumes "redis_reachable deser nx_nil delivers addr_name s" and "redis_step deser nx_nil delivers addr_name s s'"
  shows "register_step (staged_values s) (register s) (register s')"
proof -
  obtain hist where "redis_inv hist s" using redis_reachable_inv [OF assms(1)] by blast
  with assms(2) show ?thesis by (rule redis_step_register)
qed

section \<open>Runs\<close>

text \<open>
  The commit of a proposal of \<open>a\<close> that \<open>b\<close> acknowledges: \<open>b\<close> polls, is shown the proposal, calls
  \<open>staged_update\<close> and subscribes; the committer's refresh sees both acknowledgements and commits;
  \<open>b\<close> is notified of the deleted counter and reads the new round.
\<close>

definition commit_run ::
  "(bytes \<Rightarrow> 'e result) \<Rightarrow> 'n \<Rightarrow> 'n \<Rightarrow> bytes \<Rightarrow> 'e \<Rightarrow> nat \<Rightarrow> nat \<Rightarrow> nat \<Rightarrow> ('n, 'e) sys \<Rightarrow> ('n, 'e) sys" where
  "commit_run deser a b v e0 r ins expiry s =
     (let s1 = start_transition a v s;
          s2 = write_staged_step False a (r + 1) v ins expiry s1;
          s3 = poll_entry_step deser b e0 r ins expiry s2;
          s4 = poll_staged_step deser b (r + 1) ins expiry s3;
          s5 = staged_update_step False b (r + 1) (Some v) ins expiry s4;
          s6 = subscribe_step b (r + 1) (Some v) s5;
          s7 = committer_refresh_step a (r + 1) v ins expiry s6;
          s8 = cleanup_step False a (r + 1) v s7;
          s9 = applier_msg_step b (r + 1) (Some v) s8
      in fetch_step b (r + 1) (Some v) ins expiry s9)"

lemmas step_defs = start_transition_def transition_script_def write_staged_step_def poll_entry_step_def
  pollentry_script_def poll_staged_step_def staged_update_step_def subscribe_step_def committer_refresh_step_def
  refresh_commit_def cleanup_step_def applier_msg_step_def fetch_step_def

lemmas key_defs = refresh_members_def unlock_join_def zadd_def zrembyscore_def conn_count_def

lemmas ghost_defs = goto_def ret_def ret_round_def learn_def publish_def

text \<open>What the calls of two clients look at, for the round \<open>k\<close> that is being committed.\<close>

record 'e view =
  v_keys :: "bytes option \<times> nat option \<times> bytes option \<times> nat option"
  v_phases :: "phase \<times> phase"
  v_inbox :: "string list"
  v_outs :: "'e out list"
  v_known :: "(nat \<times> bytes) list"

definition view_of :: "'n \<Rightarrow> 'n \<Rightarrow> nat \<Rightarrow> ('n, 'e) sys \<Rightarrow> 'e view" where
  "view_of a b k s =
     \<lparr>v_keys = (entry (db s), round_ctr (db s), staged (db s) k, committed_cnt (db s) k),
      v_phases = (phase s a, phase s b), v_inbox = inbox s b, v_outs = map snd (outs s), v_known = known s\<rparr>"

text \<open>Both are members that do not expire, and neither is inside \<open>try_init\<close>.\<close>

definition pair_ok :: "'n \<Rightarrow> 'n \<Rightarrow> nat \<Rightarrow> ('n, 'e) sys \<Rightarrow> bool" where
  "pair_ok a b expiry s \<longleftrightarrow> a \<noteq> b \<and> overriding s a = None \<and> overriding s b = None
     \<and> (\<exists>ta tb. members (db s) = [(a, ta), (b, tb)] \<and> expiry < ta \<and> expiry < tb)"

lemma refresh_pair:
  assumes "pair_ok a b expiry s" and "expiry < ins" and "c = a \<or> c = b"
  shows "conn_count (refresh_members c ins expiry (db s)) = 2"
    "pair_ok a b expiry (s\<lparr>db := refresh_members c ins expiry (db s)\<rparr>)"
  using assms by (auto simp: pair_ok_def key_defs)

lemma pair_ok_cong:
  "members (db s') = members (db s) \<Longrightarrow> overriding s' = overriding s \<Longrightarrow> pair_ok a b expiry s' = pair_ok a b expiry s"
  by (simp add: pair_ok_def)

lemma pair_ok_ret: "pair_ok a b expiry s \<Longrightarrow> pair_ok a b expiry (ret c x s)"
  by (simp add: pair_ok_def ret_def)

lemma view_steps:
  assumes ok: "pair_ok a b expiry s" and exp: "expiry < ins"
    and view: "view_of a b k s = \<lparr>v_keys = (ent, rnd, stg, cnt), v_phases = (pa, pb), v_inbox = ib, v_outs = os, v_known = kn\<rparr>"
  shows "rnd = Some r \<Longrightarrow> even r \<Longrightarrow> k = r + 1 \<Longrightarrow> pair_ok a b expiry (start_transition a v s)
      \<and> view_of a b k (start_transition a v s)
        = \<lparr>v_keys = (ent, Some k, stg, cnt), v_phases = (Locked k v, pb), v_inbox = ib, v_outs = os, v_known = kn\<rparr>"
    and "stg = None \<Longrightarrow> cnt = None \<Longrightarrow> pb = Idle \<Longrightarrow> pair_ok a b expiry (write_staged_step False a k v ins expiry s)
      \<and> view_of a b k (write_staged_step False a k v ins expiry s)
        = \<lparr>v_keys = (ent, rnd, Some v, Some 1), v_phases = (Committing k v 1 2, Idle), v_inbox = ib, v_outs = os, v_known = kn\<rparr>"
    and "rnd = Some k \<Longrightarrow> ent = Some w \<Longrightarrow> r < k \<Longrightarrow> pair_ok a b expiry (poll_entry_step deser b e0 r ins expiry s)
      \<and> view_of a b k (poll_entry_step deser b e0 r ins expiry s)
        = \<lparr>v_keys = (ent, rnd, stg, cnt), v_phases = (pa, Polling k), v_inbox = ib, v_outs = os, v_known = kn\<rparr>"
    and "stg = Some v \<Longrightarrow> v \<noteq> [] \<Longrightarrow> deser v = Inr e \<Longrightarrow> pair_ok a b expiry (poll_staged_step deser b k ins expiry s)
      \<and> view_of a b k (poll_staged_step deser b k ins expiry s)
        = \<lparr>v_keys = (ent, rnd, stg, cnt), v_phases = (pa, Idle), v_inbox = ib, v_outs = os @ [Polled (NoMatch e 2 k)], v_known = kn\<rparr>"
    and "cnt = Some n \<Longrightarrow> pb = Idle \<Longrightarrow> pair_ok a b expiry (staged_update_step False b k acked ins expiry s)
      \<and> view_of a b k (staged_update_step False b k acked ins expiry s)
        = \<lparr>v_keys = (ent, rnd, stg, Some (n + 1)), v_phases = (pa, Subscribing k acked), v_inbox = ib, v_outs = os, v_known = kn\<rparr>"
    and "pair_ok a b expiry (subscribe_step b k acked s) \<and> view_of a b k (subscribe_step b k acked s)
        = \<lparr>v_keys = (ent, rnd, stg, cnt), v_phases = (pa, Applying k acked), v_inbox = [], v_outs = os, v_known = kn\<rparr>"
    and "cnt = Some 2 \<Longrightarrow> pair_ok a b expiry (committer_refresh_step a k v ins expiry s)
      \<and> view_of a b k (committer_refresh_step a k v ins expiry s)
        = \<lparr>v_keys = (ent, rnd, stg, cnt), v_phases = (Finishing k v, pb), v_inbox = ib, v_outs = os, v_known = kn\<rparr>"
    and "rnd = Some k \<Longrightarrow> odd k \<Longrightarrow> pb = Applying k acked \<Longrightarrow> pair_ok a b expiry (cleanup_step False a k v s)
      \<and> view_of a b k (cleanup_step False a k v s)
        = \<lparr>v_keys = (Some v, Some (k + 1), None, None), v_phases = (Idle, pb), v_inbox = ib @ [''del''],
           v_outs = os @ [Round (k + 1)], v_known = (k + 1, v) # kn\<rparr>"
    and "ib = [''del''] \<Longrightarrow> pair_ok a b expiry (applier_msg_step b k acked s) \<and> view_of a b k (applier_msg_step b k acked s)
        = \<lparr>v_keys = (ent, rnd, stg, cnt), v_phases = (pa, Fetching k acked), v_inbox = [], v_outs = os, v_known = kn\<rparr>"
    and "rnd = Some (k + 1) \<Longrightarrow> view_of a b k (fetch_step b k (Some v) ins expiry s)
        = \<lparr>v_keys = (ent, rnd, stg, cnt), v_phases = (pa, Idle), v_inbox = ib, v_outs = os @ [Round (k + 1)], v_known = (k + 1, v) # kn\<rparr>"
  using ok exp view
  by (auto simp: pair_ok_def view_of_def step_defs key_defs ghost_defs Let_def even_iff_mod_2_eq_zero
      odd_iff_mod_2_eq_one mod_Suc)


section \<open>Two transitions at once\<close>

text \<open>
  \<open>a\<close> commits round \<open>k\<close> and \<open>b\<close>, whose own transition found it in progress, waits for the commit.
\<close>

definition dueling :: "'n \<Rightarrow> 'n \<Rightarrow> nat \<Rightarrow> ('n, 'e) sys \<Rightarrow> bool" where
  "dueling a b k s \<longleftrightarrow> pair_ok a b 0 s \<and> committed_cnt (db s) k = Some 1
     \<and> (\<exists>v cur tot. phase s a = Committing k v cur tot) \<and> phase s b \<in> {Subscribing k None, Applying k None}
     \<and> inbox s a = [] \<and> inbox s b = []"

text \<open>What the two can do while neither expires, no redis command fails and nobody else joins in.\<close>

inductive duel_step :: "'n \<Rightarrow> 'n \<Rightarrow> ('n, 'e) sys \<Rightarrow> ('n, 'e) sys \<Rightarrow> bool" for a b where
  message_a: "phase s a = Committing k v cur tot \<Longrightarrow> duel_step a b s (committer_msg_step a k v cur tot s)"
| refresh_a: "phase s a = Committing k v cur tot \<Longrightarrow> pair_ok a b expiry s \<Longrightarrow> expiry < ins \<Longrightarrow>
     duel_step a b s (committer_refresh_step a k v ins expiry s)"
| subscribe_b: "phase s b = Subscribing k acked \<Longrightarrow> duel_step a b s (subscribe_step b k acked s)"
| message_b: "phase s b = Applying k acked \<Longrightarrow> duel_step a b s (applier_msg_step b k acked s)"
| refresh_b: "phase s b = Applying k acked \<Longrightarrow> pair_ok a b expiry s \<Longrightarrow> expiry < ins \<Longrightarrow>
     duel_step a b s (applier_refresh_step True b k acked ins expiry s)"

lemma pair_ok_mono: "pair_ok a b expiry s \<Longrightarrow> pair_ok a b 0 s"
  by (auto simp: pair_ok_def)

lemma duel_step_dueling:
  assumes "duel_step a b s s'" and duel: "dueling a b k s"
  shows "dueling a b k s' \<and> outs s' = outs s"
proof -
  note D = duel [unfolded dueling_def]
  have ab: "a \<noteq> b" using D by (simp add: pair_ok_def)
  from assms(1) show ?thesis
  proof cases
    case (message_a k' v cur tot)
    then show ?thesis using duel by (simp add: committer_msg_step_def dueling_def)
  next
    case (refresh_a k' v cur tot expiry ins)
    note pair = refresh_pair [OF refresh_a(3,4), of a]
    have "k' = k" using refresh_a(2) D by auto
    then have s': "s' = goto a (Committing k v 1 2) (s\<lparr>db := refresh_members a ins expiry (db s)\<rparr>)"
      using refresh_a(1) D pair(1) by (simp add: committer_refresh_step_def refresh_commit_def Let_def)
    have "pair_ok a b 0 s'" using pair_ok_mono [OF pair(2)] by (simp add: s' pair_ok_def)
    then show ?thesis using D ab by (auto simp: s' dueling_def)
  next
    case (subscribe_b k' acked)
    then have s': "s' = goto b (Applying k None) (s\<lparr>inbox := (inbox s)(b := [])\<rparr>)"
      using D by (auto simp: subscribe_step_def)
    have "pair_ok a b 0 s'" using D by (simp add: s' pair_ok_def)
    then show ?thesis using D ab by (auto simp: s' dueling_def)
  next
    case (message_b k' acked)
    then show ?thesis using duel by (simp add: applier_msg_step_def dueling_def)
  next
    case (refresh_b k' acked expiry ins)
    note pair = refresh_pair [OF refresh_b(3,4), of b]
    have "k' = k" "acked = None" using refresh_b(2) D by auto
    then have s': "s' = goto b (Applying k None) (s\<lparr>db := refresh_members b ins expiry (db s)\<rparr>)"
      using refresh_b(1) D by (simp add: applier_refresh_step_def refresh_commit_def Let_def)
    have "pair_ok a b 0 s'" using pair_ok_mono [OF pair(2)] by (simp add: s' pair_ok_def)
    then show ?thesis using D ab by (auto simp: s' dueling_def)
  qed
qed

lemma duel_steps_dueling:
  assumes "(duel_step a b)\<^sup>*\<^sup>* s s'" and "dueling a b k s"
  shows "dueling a b k s' \<and> outs s' = outs s"
  using assms by (induction rule: rtranclp_induct) (auto dest: duel_step_dueling)

definition duel_start :: "'n \<Rightarrow> 'n \<Rightarrow> bytes \<Rightarrow> bytes \<Rightarrow> nat \<Rightarrow> nat \<Rightarrow> nat \<Rightarrow> ('n, 'e) sys \<Rightarrow> ('n, 'e) sys" where
  "duel_start a b v w r ins expiry s =
     converting_step b (r + 1) ins expiry
       (start_transition b w (write_staged_step False a (r + 1) v ins expiry (start_transition a v s)))"

lemma duel_start_dueling:
  assumes ok: "pair_ok a b expiry s" "expiry < ins" and idle: "phase s a = Idle" "phase s b = Idle" "inbox s b = []"
    and keys: "round_ctr (db s) = Some r" "even r" "staged (db s) (r + 1) = None" "committed_cnt (db s) (r + 1) = None"
  shows "dueling a b (r + 1) (duel_start a b v w r ins expiry s)"
proof -
  let ?k = "r + 1"
  define s1 where "s1 = start_transition a v s"
  define s2 where "s2 = write_staged_step False a ?k v ins expiry s1"
  define s3 where "s3 = start_transition b w s2"
  have 0: "view_of a b ?k s = \<lparr>v_keys = (entry (db s), Some r, None, None), v_phases = (Idle, Idle),
      v_inbox = [], v_outs = map snd (outs s), v_known = known s\<rparr>"
    using idle keys by (simp add: view_of_def)
  note step = view_steps [OF _ ok(2)]
  note 1 = step(1) [OF ok(1) 0 refl keys(2) refl, of v, folded s1_def]
  note 2 = step(2) [OF conjunct1 [OF 1] conjunct2 [OF 1] refl refl refl, of v, folded s2_def]
  have a2: "inbox s2 a = []"
    using conjunct1 [OF 1] conjunct2 [OF 1] refresh_pair [OF conjunct1 [OF 1] ok(2), of a]
    by (simp add: s2_def write_staged_step_def Let_def view_of_def conn_count_def refresh_members_def)
  have s3: "s3 = goto b (Converting ?k) (s2\<lparr>db := unlock_join b (db s2)\<rparr>)"
    using conjunct2 [OF 2] keys(2)
    by (simp add: s3_def start_transition_def transition_script_def view_of_def Let_def mod_Suc even_iff_mod_2_eq_zero)
  have ok3: "pair_ok a b expiry s3" using conjunct1 [OF 2] by (simp add: s3 pair_ok_def unlock_join_def)
  note pair = refresh_pair [OF ok3 ok(2), of b]
  have "committed_cnt (db s3) ?k = Some 1" using conjunct2 [OF 2] by (simp add: s3 view_of_def unlock_join_def)
  then have s4: "duel_start a b v w r ins expiry s
      = goto b (Subscribing ?k None) (s3\<lparr>db := refresh_members b ins expiry (db s3)\<rparr>)"
    using pair(1) by (simp add: duel_start_def s3_def s2_def s1_def converting_step_def Let_def)
  have "pair_ok a b 0 (duel_start a b v w r ins expiry s)"
    using pair_ok_mono [OF pair(2)] by (simp add: s4 pair_ok_def)
  moreover have "a \<noteq> b" using ok by (simp add: pair_ok_def)
  ultimately show ?thesis using conjunct2 [OF 2] a2 by (simp add: dueling_def s4 s3 view_of_def unlock_join_def)
qed

text \<open>
  Concurrent transitions hang. When both members of an address start a transition, the second
  one becomes an applier without acknowledging the first, so the commit counter stays at one: whatever
  messages and refreshes the two then process, neither call ever returns.
\<close>

lemma concurrent_transitions_hang:
  assumes "pair_ok a b expiry s" "expiry < ins" "phase s a = Idle" "phase s b = Idle" "inbox s b = []"
    and "round_ctr (db s) = Some r" "even r" "staged (db s) (r + 1) = None" "committed_cnt (db s) (r + 1) = None"
    and "(duel_step a b)\<^sup>*\<^sup>* (duel_start a b v w r ins expiry s) s'"
  shows "outs s' = outs (duel_start a b v w r ins expiry s) \<and> phase s' a \<noteq> Idle \<and> phase s' b \<noteq> Idle"
proof -
  have "dueling a b (r + 1) (duel_start a b v w r ins expiry s)" by (rule duel_start_dueling) (use assms in auto)
  from duel_steps_dueling [OF assms(10) this] show ?thesis by (auto simp: dueling_def)
qed

section \<open>Acknowledging a committed round\<close>

lemma waits_in_vain_runs:
  assumes "(\<lambda>s s'. redis_step deser nx_nil delivers addr_name s s' \<and> \<not> redis_error x s s')\<^sup>*\<^sup>* s s'"
    and "redis_reachable deser nx_nil delivers addr_name s" and "waits_in_vain x r s"
  shows "redis_reachable deser nx_nil delivers addr_name s' \<and> waits_in_vain x r s'"
  using assms
proof (induction rule: rtranclp_induct)
  case (step t t')
  then have t: "redis_reachable deser nx_nil delivers addr_name t" "waits_in_vain x r t" by blast+
  obtain hist where "redis_inv hist t" using redis_reachable_inv [OF t(1)] by blast
  with waits_in_vain_step [of deser nx_nil delivers addr_name t t'] step.hyps(2) t
  show ?case by (meson redis_reachable.step)
qed blast

text \<open>
  Acknowledging a committed round never returns. \<open>staged_update\<close> called with an even round, as the
  monitoring task does when a poll of the current round reports another value, waits for the deletion
  of a counter that no commit ever deletes: however the clients go on, unless redis fails, the call
  stays in its wait.
\<close>

lemma committed_ack_never_returns:
  assumes "redis_reachable deser nx_nil delivers addr_name s" and "phase s c = Idle"
    and "(c, Polled (NoMatch e n r)) \<in> set (outs s)" and "even r"
    and "(\<lambda>s s'. redis_step deser nx_nil delivers addr_name s s' \<and> \<not> redis_error c s s')\<^sup>*\<^sup>*
           (staged_update_step delivers c r None ins expiry s) s'"
  shows "\<exists>acked. phase s' c \<in> {Subscribing r acked, Applying r acked, Refreshing r acked}"
proof -
  let ?s = "staged_update_step delivers c r None ins expiry s"
  have "redis_reachable deser nx_nil delivers addr_name ?s"
    by (rule redis_reachable.step [OF assms(1) redis_step.staged_update [OF assms(2,3)]])
  moreover have "waits_in_vain c r ?s"
    using assms(4) by (simp add: waits_in_vain_def staged_update_step_def Let_def)
  ultimately show ?thesis using waits_in_vain_runs [OF assms(5)] by (meson waits_in_vain_phase)
qed

section \<open>Rejoining an abandoned address\<close>

text \<open>
  A poll with an outdated round never returns. If the address is in an even round other than the
  one the caller gives, \<open>poll_entry\<close> waits for the staged value of that round; staged values exist in
  odd rounds only, so whatever any client does, the call goes on waiting until it fails.
\<close>

lemma stale_poll_never_returns:
  assumes "redis_reachable deser nx_nil delivers addr_name s" and "redis_step deser nx_nil delivers addr_name s s'"
    and "phase s c = Polling r" and "even r"
  shows "phase s' c = Polling r \<or> (\<exists>e. s' = ret c (Failed e) s)"
proof -
  obtain hist where "redis_inv hist s" using redis_reachable_inv [OF assms(1)] by blast
  from polling_stays [OF assms(2) this assms(3,4)] show ?thesis .
qed

text \<open>
  \<open>try_init\<close> itself leads there: on an address whose members have all expired it commits its own
  proposal, but reports the round of before the commit, and the next poll with that round is stale.
\<close>

lemma rejoin_reports_stale_round:
  fixes s :: "('n, 'e) sys" and c :: 'n and deser :: "bytes \<Rightarrow> 'e result" and ins :: nat
  assumes keys: "entry (db s) = Some w" "w \<noteq> v" "round_ctr (db s) = Some r" "even r"
      "staged (db s) (r + 1) = None" "committed_cnt (db s) (r + 1) = None"
    and expired: "\<forall>(c, t) \<in> set (members (db s)). t \<le> expiry" and "nx_nil = False"
  defines "s1 \<equiv> try_init_step deser nx_nil c v ins expiry s"
  defines "s2 \<equiv> write_staged_step False c (r + 1) v ins expiry s1"
  defines "s3 \<equiv> cleanup_step False c (r + 1) v s2"
  shows "phase s1 c = Locked (r + 1) v" "phase s2 c = Finishing (r + 1) v"
    "outs s3 = outs s @ [(c, Polled (Matched 1 r))]" "round_ctr (db s3) = Some (r + 2)"
    "phase (poll_entry_step deser c e r ins' expiry' s3) c = Polling (r + 2)"
proof -
  have none: "zrembyscore expiry (members (db s)) = []"
    using expired by (auto simp: zrembyscore_def filter_empty_conv)
  have even: "r mod 2 = 0" "Suc (Suc r) mod 2 = 0" using keys(4) by presburger+
  let ?d = "snd (tryinit_script nx_nil c v ins expiry (db s))"
  have "fst (tryinit_script nx_nil c v ins expiry (db s)) = Inr (1, r, 0, w)"
    and d: "entry ?d = Some w" "round_ctr ?d = Some r" "members ?d = []" "staged ?d = staged (db s)"
      "committed_cnt ?d = committed_cnt (db s)"
    using keys none assms(8) by (auto simp: tryinit_script_def Let_def conn_count_def split: option.splits)
  then have s1: "s1 = goto c (Locked (r + 1) v) (s\<lparr>db := (unlock_join c ?d)\<lparr>round_ctr := Some (r + 1)\<rparr>,
      overriding := (overriding s)(c := Some r)\<rparr>)"
    by (simp add: s1_def try_init_step_def prod.case_eq_if Let_def start_transition_def transition_script_def even)
  show "phase s1 c = Locked (r + 1) v" by (simp add: s1)
  have s2: "phase s2 c = Finishing (r + 1) v" "round_ctr (db s2) = Some (r + 1)" "overriding s2 c = Some r" "outs s2 = outs s"
    using keys(5,6) d
    by (simp_all add: s2_def s1 write_staged_step_def Let_def conn_count_def refresh_members_def unlock_join_def
        zrembyscore_def zadd_def)
  then show "phase s2 c = Finishing (r + 1) v" by simp
  show s3: "outs s3 = outs s @ [(c, Polled (Matched 1 r))]" "round_ctr (db s3) = Some (r + 2)"
    using s2 even by (simp_all add: s3_def cleanup_step_def Let_def ret_round_def)
  have "entry (db s3) = Some v" using s2 even by (simp add: s3_def cleanup_step_def Let_def)
  with s3(2) show "phase (poll_entry_step deser c e r ins' expiry' s3) c = Polling (r + 2)"
    by (simp add: poll_entry_step_def pollentry_script_def Let_def)
qed

text \<open>The joinlock never makes anybody wait, since a failed \<open>SET NX\<close> does not reply \<open>nil\<close> to a script.\<close>

lemma joinlock_never_waits:
  "phase (try_init_step deser False c v ins expiry s) c \<noteq> Waiting v'"
  by (auto simp: try_init_step_def tryinit_script_def start_transition_def Let_def
      split: option.splits sum.splits prod.splits if_splits)

text \<open>A client that leaves keeps the joinlock, unless it is named like the address.\<close>

lemma leave_keeps_joinlock:
  "joinlock (db s) = Some c \<Longrightarrow> c \<noteq> addr_name \<Longrightarrow> joinlock (db (leave_step addr_name c s)) = Some c"
  by (simp add: leave_step_def)

section \<open>Examples\<close>

text \<open>Two clients with the same stack, a proposal of the first, and a lone client that rejoins.\<close>

definition ex_join :: "(nat, bytes) sys" where
  "ex_join = try_init_step Inr False 1 [1] 11 0 (try_init_step Inr False 0 [1] 10 0 sys_init)"

definition ex_lock :: "(nat, bytes) sys" where
  "ex_lock = start_transition 0 [2] ex_join"

definition ex_gone :: "(nat, bytes) sys" where
  "ex_gone = try_init_step Inr False 0 [1] 10 0 sys_init"

definition ex_rejoin1 :: "(nat, bytes) sys" where
  "ex_rejoin1 = try_init_step Inr False 1 [2] 100 90 ex_gone"

definition ex_rejoin2 :: "(nat, bytes) sys" where
  "ex_rejoin2 = write_staged_step False 1 1 [2] 100 90 ex_rejoin1"

definition ex_rejoin3 :: "(nat, bytes) sys" where
  "ex_rejoin3 = cleanup_step False 1 1 [2] ex_rejoin2"

definition ex_rejoin4 :: "(nat, bytes) sys" where
  "ex_rejoin4 = poll_entry_step Inr 1 [2] 0 101 91 ex_rejoin3"

lemma ex_phases:
  "phase (sys_init :: (nat, bytes) sys) c = Idle" "phase ex_gone 0 = Idle" "phase ex_gone 1 = Idle" "phase ex_join 0 = Idle"
  "phase ex_rejoin1 1 = Locked 1 [2]" "phase ex_rejoin2 1 = Finishing 1 [2]" "phase ex_rejoin3 1 = Idle"
  "phase ex_rejoin4 1 = Polling 2"
  by (simp add: sys_init_def) code_simp+

lemma ex_redis_reachable:
  shows "redis_reachable Inr False False 9 ex_join" "redis_reachable Inr False False 9 ex_lock"
    "redis_reachable Inr False False 9 ex_rejoin2" "redis_step Inr False False 9 ex_rejoin2 ex_rejoin3"
    "redis_reachable Inr False False 9 ex_rejoin4" "redis_reachable Inr False False 9 ex_gone"
proof -
  show gone: "redis_reachable Inr False False 9 ex_gone"
    unfolding ex_gone_def by (rule redis_reachable.step [OF redis_reachable.init], rule redis_step.try_init, rule ex_phases)
  show join: "redis_reachable Inr False False 9 ex_join"
    unfolding ex_join_def ex_gone_def [symmetric]
    by (rule redis_reachable.step [OF gone redis_step.try_init [OF ex_phases(3)]])
  show "redis_reachable Inr False False 9 ex_lock"
    unfolding ex_lock_def by (rule redis_reachable.step [OF join redis_step.transition [OF ex_phases(4)]])
  have 1: "redis_reachable Inr False False 9 ex_rejoin1"
    unfolding ex_rejoin1_def by (rule redis_reachable.step [OF gone redis_step.try_init [OF ex_phases(3)]])
  show 2: "redis_reachable Inr False False 9 ex_rejoin2"
    unfolding ex_rejoin2_def by (rule redis_reachable.step [OF 1 redis_step.write_staged [OF ex_phases(5)]])
  show 3: "redis_step Inr False False 9 ex_rejoin2 ex_rejoin3"
    unfolding ex_rejoin3_def by (rule redis_step.cleanup [OF ex_phases(6)])
  show "redis_reachable Inr False False 9 ex_rejoin4"
    unfolding ex_rejoin4_def
    by (rule redis_reachable.step [OF redis_reachable.step [OF 2 3] redis_step.poll [OF ex_phases(7)]])
qed


theorem single_committer_witness: "lock_of (phase ex_lock 0) = Some (1, [2]) \<and> round_ctr (db ex_lock) = Some 1"
proof -
  have "lock_of (phase ex_lock 0) = Some (1, [2])" by code_simp
  with single_committer [OF ex_redis_reachable(2) this] show ?thesis by simp
qed

theorem backend_refines_register_witness:
  "register ex_rejoin2 = (Some [1], 0) \<and> register ex_rejoin3 = (Some [2], 1)
   \<and> register_step (staged_values ex_rejoin2) (Some [1], 0) (Some [2], 1)"
proof -
  have r: "register ex_rejoin2 = (Some [1], 0)" "register ex_rejoin3 = (Some [2], 1)" by code_simp+
  with backend_refines_register [OF ex_redis_reachable(3,4)] show ?thesis by simp
qed

lemma ex_join_idle:
  "pair_ok 0 1 5 ex_join" "phase ex_join 0 = Idle" "phase ex_join 1 = Idle" "round_ctr (db ex_join) = Some 0"
  "entry (db ex_join) = Some [1]" "staged (db ex_join) (0 + 1) = None" "committed_cnt (db ex_join) (0 + 1) = None"
  "inbox ex_join 1 = []"
proof -
  have "members (db ex_join) = [(0, 10), (1, 11)]" "overriding ex_join 0 = None" "overriding ex_join 1 = None" by code_simp+
  then show "pair_ok 0 1 5 ex_join" by (simp add: pair_ok_def)
qed code_simp+


definition ex_duel :: "(nat, bytes) sys" where
  "ex_duel = duel_start 0 1 [2] [3] 0 20 5 ex_join"

definition ex_duel_refreshed :: "(nat, bytes) sys" where
  "ex_duel_refreshed = committer_refresh_step 0 1 [2] 30 5 ex_duel"

lemma concurrent_transitions_hang_example:
  "outs ex_duel_refreshed = outs ex_duel \<and> phase ex_duel_refreshed 0 \<noteq> Idle \<and> phase ex_duel_refreshed 1 \<noteq> Idle"
proof -
  have "members (db ex_duel) = [(0, 20), (1, 20)]" "overriding ex_duel 0 = None" "overriding ex_duel 1 = None" by code_simp+
  then have "pair_ok 0 1 5 ex_duel" by (simp add: pair_ok_def)
  moreover have "phase ex_duel 0 = Committing 1 [2] 1 2" by code_simp
  ultimately have "duel_step 0 1 ex_duel ex_duel_refreshed"
    unfolding ex_duel_refreshed_def by (intro duel_step.refresh_a) simp_all
  then have "(duel_step 0 1)\<^sup>*\<^sup>* (duel_start 0 1 [2] [3] 0 20 5 ex_join) ex_duel_refreshed"
    unfolding ex_duel_def by (rule r_into_rtranclp)
  from concurrent_transitions_hang [OF ex_join_idle(1) _ ex_join_idle(2,3,8,4) _ ex_join_idle(6,7) this] show ?thesis
    by (simp add: ex_duel_def)
qed

lemma stale_poll_never_returns_example:
  "last (outs ex_rejoin4) = (1, Polled (Matched 1 0)) \<and> phase ex_rejoin4 1 = Polling 2
   \<and> phase (poll_staged_step Inr 1 2 110 91 ex_rejoin4) 1 = Polling 2"
proof -
  let ?s = "poll_staged_step Inr 1 2 110 91 ex_rejoin4"
  have "redis_step Inr False False 9 ex_rejoin4 ?s" by (rule redis_step.poll_staged, rule ex_phases)
  from stale_poll_never_returns [OF ex_redis_reachable(5) this ex_phases(8)]
  have "phase ?s 1 = Polling 2 \<or> (\<exists>e. ?s = ret 1 (Failed e) ex_rejoin4)" by simp
  moreover have "outs ?s = outs ex_rejoin4" "last (outs ex_rejoin4) = (1, Polled (Matched 1 0))" by code_simp+
  ultimately show ?thesis using ex_phases(8) by fastforce
qed

text \<open>
  A transition that finds the last step of another one before it: its call succeeds with the round
  that the other value was committed in. The monitoring task takes its own proposal to be in force;
  its next poll reports the other value, and acknowledging that never returns.
\<close>

definition ex_foreign1 :: "(nat, bytes) sys" where
  "ex_foreign1 = write_staged_step False 0 1 [2] 10 5 (start_transition 0 [2] ex_gone)"

definition ex_foreign2 :: "(nat, bytes) sys" where
  "ex_foreign2 = subscribe_step 1 1 None (converting_step 1 1 11 5 (start_transition 1 [3] ex_foreign1))"

definition ex_foreign3 :: "(nat, bytes) sys" where
  "ex_foreign3 = fetch_step 1 1 None 12 5 (applier_msg_step 1 1 None (cleanup_step False 0 1 [2] ex_foreign2))"

definition ex_foreign4 :: "(nat, bytes) sys" where
  "ex_foreign4 = poll_entry_step Inr 1 [3] 2 13 5 ex_foreign3"

lemma converted_transition_reports_foreign_round:
  "drop 1 (outs ex_foreign4) = [(0, Round 2), (1, Round 2), (1, Polled (NoMatch [2] 2 2))]"
  "entry (db ex_foreign4) = Some [2]" "phase ex_foreign4 1 = Idle"
  by code_simp+

lemma ex_foreign_phases:
  "phase (start_transition 0 [2] ex_gone) 0 = Locked 1 [2]" "phase ex_foreign1 0 = Finishing 1 [2]"
  "phase ex_foreign1 1 = Idle" "phase (start_transition 1 [3] ex_foreign1) 1 = Converting 1"
  "phase (converting_step 1 1 11 5 (start_transition 1 [3] ex_foreign1)) 1 = Subscribing 1 None"
  "phase ex_foreign2 0 = Finishing 1 [2]" "phase (cleanup_step False 0 1 [2] ex_foreign2) 1 = Applying 1 None"
  "phase (applier_msg_step 1 1 None (cleanup_step False 0 1 [2] ex_foreign2)) 1 = Fetching 1 None"
  "phase ex_foreign3 1 = Idle"
  by code_simp+

lemma ex_foreign_reachable: "redis_reachable Inr False False 9 ex_foreign4"
proof -
  note go = redis_reachable.step [where deser = Inr and nx_nil = False and delivers = False and addr_name = 9]
  note ph = ex_foreign_phases
  have 1: "redis_reachable Inr False False 9 ex_foreign1" unfolding ex_foreign1_def
    by (rule go [OF go [OF ex_redis_reachable(6) redis_step.transition [OF ex_phases(2)]] redis_step.write_staged [OF ph(1)]])
  have 2: "redis_reachable Inr False False 9 ex_foreign2" unfolding ex_foreign2_def
    by (rule go [OF go [OF go [OF 1 redis_step.transition [OF ph(3)]] redis_step.converting [OF ph(4)]]
        redis_step.subscribe [OF ph(5)]])
  have 3: "redis_reachable Inr False False 9 ex_foreign3" unfolding ex_foreign3_def
    by (rule go [OF go [OF go [OF 2 redis_step.cleanup [OF ph(6)]] redis_step.applier_msg [OF ph(7)]]
        redis_step.fetch [OF ph(8)]])
  show ?thesis unfolding ex_foreign4_def by (rule go [OF 3 redis_step.poll [OF ph(9)]])
qed

lemma committed_ack_never_returns_example:
  "\<exists>acked. phase (staged_update_step False 1 2 None 14 5 ex_foreign4) 1
     \<in> {Subscribing 2 acked, Applying 2 acked, Refreshing 2 acked}"
proof -
  have "(1, Polled (NoMatch [2] 2 2)) \<in> set (outs ex_foreign4)"
    by (rule in_set_dropD [of _ 1]) (simp only: converted_transition_reports_foreign_round, simp)
  from committed_ack_never_returns [OF ex_foreign_reachable converted_transition_reports_foreign_round(3) this _ rtranclp.rtrancl_refl]
  show ?thesis by simp
qed

end
