(* ===== verification/Redis_Notify.thy ===== *)
theory Redis_Notify
  imports Rendezvous_Backend
begin

text \<open>
  \<open>notify\<close> of the redis backend (\<open>redis-basechunnel/src/lib.rs\<close>), which replaces the polling default:
  it waits for keyspace notifications or its refresh timer and then reads redis again, with retries.
  What redis answers is the input: for each turn of the retry loop the round and the number of
  members, and the result of \<open>poll_entry\<close> if the turn gets that far. \<open>None\<close> is a call that still
  waits when the input ends.

  Both this \<open>notify\<close> and the default one are interpretations of the contract \<open>notifier\<close>: a match is
  only reported when the number of participants has changed.
\<close>

type_synonym 'e turn = "(nat \<times> nat) result \<times> 'e rendezvous_result result"

definition retry_or_fail :: "nat \<Rightarrow> failure \<Rightarrow> 'a result option \<Rightarrow> 'a result option" where
  "retry_or_fail poll_retries e again =
     (if 10 < poll_retries then Some (Inl (wrap_report ''Poll after notify failed 10 times'' e)) else again)"

fun retry_poll_loop :: "nat \<Rightarrow> nat \<Rightarrow> nat \<Rightarrow> 'e turn list \<Rightarrow> 'e rendezvous_result result option" where
  "retry_poll_loop curr_round curr_n retries [] = None"
| "retry_poll_loop curr_round curr_n retries ((Inl e, _) # turns) =
     retry_or_fail retries e (retry_poll_loop curr_round curr_n (retries + 1) turns)"
| "retry_poll_loop curr_round curr_n retries ((Inr (round_ctr, conn_count), polled) # turns) =
     (if round_ctr = curr_round \<and> conn_count = curr_n then Some (Inr (Matched conn_count round_ctr))
      else (case polled of
              Inr x \<Rightarrow> Some (Inr x)
            | Inl e \<Rightarrow> retry_or_fail retries e (retry_poll_loop curr_round curr_n (retries + 1) turns)))"

text \<open>
  What wakes the waiting loop: a message, the end of the message stream, or the refresh timer with
  the result of \<open>refresh_client\<close>; with it the turns of the retry loop that may follow.
\<close>

datatype 'e wake =
    Message "'e turn list"
  | Stream_end
  | Timer "(nat \<times> nat) result" "'e turn list"

fun notify_refresh_loop :: "nat \<Rightarrow> nat \<Rightarrow> 'e wake list \<Rightarrow> 'e rendezvous_result result option" where
  "notify_refresh_loop curr_round curr_n [] = None"
| "notify_refresh_loop curr_round curr_n (Stream_end # ws) = notify_refresh_loop curr_round curr_n ws"
| "notify_refresh_loop curr_round curr_n (Timer (Inl e) turns # ws) =
     Some (Inl (wrap_report ''call to refresh_client'' e))"
| "notify_refresh_loop curr_round curr_n (Timer (Inr (round_ctr, conn_count)) turns # ws) =
     (if curr_round < round_ctr \<or> conn_count \<noteq> curr_n
      then (case retry_poll_loop curr_round curr_n 0 turns of
              None \<Rightarrow> None
            | Some res \<Rightarrow> if no_change curr_n res then notify_refresh_loop curr_round curr_n ws else Some res)
      else notify_refresh_loop curr_round curr_n ws)"
| "notify_refresh_loop curr_round curr_n (Message turns # ws) =
     (case retry_poll_loop curr_round curr_n 0 turns of
        None \<Rightarrow> None
      | Some res \<Rightarrow> if no_change curr_n res then notify_refresh_loop curr_round curr_n ws else Some res)"

definition redis_notify ::
  "'e rendezvous_result result \<Rightarrow> nat \<Rightarrow> 'e wake list \<Rightarrow> 'e rendezvous_result result option" where
  "redis_notify first_poll curr_round wakes =
     (case first_poll of
        Inl e \<Rightarrow> Some (Inl e)
      | Inr (NoMatch e n r) \<Rightarrow> Some (Inr (NoMatch e n r))
      | Inr (Matched n _) \<Rightarrow> notify_refresh_loop curr_round n wakes)"

section \<open>The retry loop is bounded\<close>

lemma retry_poll_loop_bounded:
  "12 \<le> retries + length turns \<Longrightarrow> retries \<le> 11 \<Longrightarrow> \<exists>res. retry_poll_loop curr_round curr_n retries turns = Some res"
proof (induction curr_round curr_n retries turns rule: retry_poll_loop.induct)
  case (2 curr_round curr_n retries e p turns)
  then show ?case by (cases "10 < retries") (auto simp: retry_or_fail_def)
next
  case (3 curr_round curr_n retries r n p turns)
  then show ?case by (cases "10 < retries") (auto simp: retry_or_fail_def split: sum.splits)
qed simp

lemma retry_poll_loop_prefix:
  "retry_poll_loop curr_round curr_n retries turns = Some res
   \<Longrightarrow> retry_poll_loop curr_round curr_n retries (turns @ rest) = Some res"
proof (induction curr_round curr_n retries turns rule: retry_poll_loop.induct)
  case (2 curr_round curr_n retries e p turns)
  then show ?case by (auto simp: retry_or_fail_def split: if_splits)
next
  case (3 curr_round curr_n retries r n p turns)
  then show ?case by (auto simp: retry_or_fail_def split: if_splits sum.splits)
qed simp

section \<open>What notify reports\<close>

text \<open>
  \<open>run x\<close> is a finished call on the input \<open>x\<close>, \<open>before x\<close> the number of participants that its first
  poll found, where it found a match.
\<close>

locale notifier =
  fixes run :: "'x \<Rightarrow> 'e rendezvous_result result option"
    and before :: "'x \<Rightarrow> nat option"
  assumes reports_change: "run x = Some (Inr (Matched n r)) \<Longrightarrow> before x \<noteq> Some n"
begin

lemma steady_match_never_reported:
  "before x = Some n \<Longrightarrow> run x \<noteq> Some (Inr (Matched n r))"
  using reports_change by blast

lemma returned_is_news:
  assumes "run x = Some (Inr res)" and "before x = Some n"
  shows "(\<exists>e m r. res = NoMatch e m r) \<or> (\<exists>m r. res = Matched m r \<and> m \<noteq> n)"
  using assms reports_change [of x] by (cases res) auto

end

lemma notify_refresh_loop_change:
  "notify_refresh_loop curr_round curr_n ws = Some res \<Longrightarrow> \<not> no_change curr_n res"
  by (induction curr_round curr_n ws rule: notify_refresh_loop.induct)
     (auto simp: no_change_def split: option.splits if_splits)

definition matched_participants :: "'e rendezvous_result result \<Rightarrow> nat option" where
  "matched_participants res = (case res of Inr (Matched n _) \<Rightarrow> Some n | _ \<Rightarrow> None)"

interpretation redis: notifier
  "\<lambda>(first_poll, curr_round, wakes). redis_notify first_poll curr_round wakes"
  "\<lambda>(first_poll, curr_round, wakes). matched_participants first_poll"
  by unfold_locales
     (auto simp: redis_notify_def matched_participants_def no_change_def
        split: sum.splits rendezvous_result.splits dest!: notify_refresh_loop_change)

text \<open>The default implementation keeps the same contract on every backend.\<close>

interpretation default: notifier
  "\<lambda>(poll, curr_round, b). map_option fst (default_notify poll curr_round b)"
  "\<lambda>(poll, curr_round, b). Option.bind (poll b) (\<lambda>(res, _). matched_participants res)"
proof (unfold_locales, goal_cases)
  case (1 x n r)
  obtain poll curr_round b where x: "x = (poll, curr_round, b)" by (cases x)
  from 1 obtain b' where "default_notify poll curr_round b = Some (Inr (Matched n r), b')"
    by (auto simp: x)
  then obtain res b1 where b1: "poll b = Some (res, b1)"
    and rest: "(case res of Inl e \<Rightarrow> Some (Inl e, b1) | Inr (NoMatch e n r) \<Rightarrow> Some (Inr (NoMatch e n r), b1)
        | Inr (Matched conn_ctr rnd) \<Rightarrow>
            if curr_round \<noteq> rnd then Some (Inl (Panic ''Semantic round number mismatch''), b1)
            else poll_loop poll conn_ctr b1) = Some (Inr (Matched n r), b')"
    by (auto simp: default_notify_def bind_eq_Some_conv)
  from rest obtain m k where res: "res = Inr (Matched m k)" and loop: "poll_loop poll m b1 = Some (Inr (Matched n r), b')"
    by (cases res rule: sum.exhaust; cases "projr res") (auto split: if_splits)
  note p = b1 [unfolded res] loop
  from p(2) have "n \<noteq> m" unfolding poll_loop_iff by (auto simp: no_change_def)
  with p(1) show ?case by (simp add: x matched_participants_def)
qed

section \<open>Properties\<close>

text \<open>
  \<open>notify\<close> on redis reports news only. If the first poll matched with \<open>n\<close> participants, a call
  that returns successfully returns another stack or another number of participants, never the
  situation it started from.
\<close>

lemma redis_notify_reports_news:
  assumes "redis_notify (Inr (Matched n k)) curr_round wakes = Some (Inr res)"
  shows "(\<exists>e m r. res = NoMatch e m r) \<or> (\<exists>m r. res = Matched m r \<and> m \<noteq> n)"
  using redis.returned_is_news [of "(Inr (Matched n k), curr_round, wakes)" res n] assms
  by (simp add: matched_participants_def)

lemma redis_notify_reports_news_example:
  "redis_notify (Inr (Matched 2 0)) 0
     [Timer (Inr (0, 2)) [], Message [(Inr (0, 2), eyre ''unused'')], Message [(eyre ''io'', eyre ''''), (Inr (0, 3), Inr (Matched 3 0))]]
     = Some (Inr (Matched 3 0 :: nat rendezvous_result))
   \<and> (3 :: nat) \<noteq> 2"
proof -
  have r: "redis_notify (Inr (Matched 2 0)) 0
     [Timer (Inr (0, 2)) [], Message [(Inr (0, 2), eyre ''unused'')], Message [(eyre ''io'', eyre ''''), (Inr (0, 3), Inr (Matched 3 0))]]
     = Some (Inr (Matched 3 0 :: nat rendezvous_result))"
    by (simp add: redis_notify_def no_change_def retry_or_fail_def)
  from redis_notify_reports_news [OF r] r show ?thesis by simp
qed



end
