(* ===== verification/Rendezvous.thy ===== *)
theory Rendezvous
  imports Monomorphize Rendezvous_Backend
begin

text \<open>
  Rendezvous negotiation (\<open>bertha/src/negotiate/rendezvous.rs\<close>): an endpoint negotiates against
  itself for a nonce, registers it with a backend, and either keeps its own stack, applies the one it
  finds there, or transitions the connection to the one a policy prefers. Afterwards a task monitors
  the backend: it commits proposals of others that some upgrade handle can apply, transitions back
  from those that none can, and proposes stacks that the local handles ask for.

  The backend is the record of \<open>Rendezvous_Backend\<close>; an \<open>UpgradeHandle\<close> is named by a number, as in
  \<open>UpgradeSelect\<close>, and its channels are in a table. The lemmas show that a stack whose parts have
  capabilities of their own can always be applied to its own solo nonce and be found from the offers
  of one of its handles, which is what the panics of the code rely on.
\<close>

section \<open>Traversals of a stack\<close>

text \<open>An optional chunnel implements neither trait; its equations are never used.\<close>

fun collect_handles :: "'c stack \<Rightarrow> nat list" where
  "collect_handles (Leaf n) = []"
| "collect_handles (OptStack _) = []"
| "collect_handles (CxList h t) = collect_handles h @ collect_handles t"
| "collect_handles (Select l r _) = collect_handles l @ collect_handles r"
| "collect_handles (UpgradeSelect i l r _) = (collect_handles l @ collect_handles r) @ [i]"

type_synonym selector = "nat \<Rightarrow> nat \<Rightarrow> side option"

fun prefer_stack :: "nat \<Rightarrow> selector \<Rightarrow> 'c stack \<Rightarrow> bool \<times> 'c stack" where
  "prefer_stack n sel (Leaf x) = (False, Leaf x)"
| "prefer_stack n sel (OptStack x) = (False, OptStack x)"
| "prefer_stack n sel (CxList h t) =
     (case prefer_stack n sel h of
        (True, h') \<Rightarrow> (True, CxList h' t)
      | (False, h') \<Rightarrow> (case prefer_stack n sel t of (b, t') \<Rightarrow> (b, CxList h' t')))"
| "prefer_stack n sel (Select l r p) =
     (case prefer_stack n sel l of
        (True, l') \<Rightarrow> (True, Select l' r p)
      | (False, l') \<Rightarrow> (case prefer_stack n sel r of (b, r') \<Rightarrow> (b, Select l' r' p)))"
| "prefer_stack n sel (UpgradeSelect i l r p) =
     (case (case prefer_stack n sel l of
              (True, l') \<Rightarrow> (True, l', r)
            | (False, l') \<Rightarrow> (case prefer_stack n sel r of (b, r') \<Rightarrow> (b, l', r'))) of
        (inner, l', r') \<Rightarrow>
          (case sel n i of
             Some opt \<Rightarrow> (opt \<noteq> p, UpgradeSelect i l' r' opt)
           | None \<Rightarrow> (inner, UpgradeSelect i l' r' p)))"

definition solo_monomorphize :: "('c \<Rightarrow> bytes) \<Rightarrow> (string \<Rightarrow> bytes result) \<Rightarrow> 'c stack \<Rightarrow> stack_nonce result" where
  "solo_monomorphize ser ser_addr stk =
     res_bind (monomorphize ser ser_addr stk (offers ser stk) '''')
       (\<lambda>(_, msg, _). case msg of ServerNonce _ picked \<Rightarrow> Inr picked | _ \<Rightarrow> Inl (Panic ''unreachable''))"

section \<open>Upgrade handles\<close>

text \<open>
  The watch channels of a handle: \<open>trigger\<close> with its value and version, and the side that the
  connection last announced (\<open>None\<close> when no connection is using the \<open>UpgradeSelect\<close>).
\<close>

record upgrade_handle =
  trigger :: stack_nonce
  version :: nat
  current :: "side option"
  left_offers :: "stack_nonce list"
  right_offers :: "stack_nonce list"

definition handle_new :: "('c \<Rightarrow> bytes) \<Rightarrow> 'c stack \<Rightarrow> 'c stack \<Rightarrow> upgrade_handle" where
  "handle_new ser l r = \<lparr>trigger = fmempty, version = 0, current = None,
     left_offers = offers ser l, right_offers = offers ser r\<rparr>"

definition is_active :: "upgrade_handle \<Rightarrow> bool" where
  "is_active h = (current h \<noteq> None)"

text \<open>
  \<open>trigger_left\<close> and \<open>trigger_right\<close>: the request that goes to the monitoring task, or \<open>None\<close> if
  there is nothing to do.
\<close>

definition trigger_side :: "side \<Rightarrow> upgrade_handle \<Rightarrow> stack_nonce list option result" where
  "trigger_side sd h =
     (case current h of
        None \<Rightarrow> eyre ''Select is not active''
      | Some c \<Rightarrow> if c = sd then Inr None
                  else Inr (Some (if is_left sd then left_offers h else right_offers h)))"

definition switch_to_stack :: "stack_nonce \<Rightarrow> upgrade_handle \<Rightarrow> upgrade_handle" where
  "switch_to_stack new_stack h =
     (if trigger h \<noteq> new_stack then h\<lparr>trigger := new_stack, version := version h + 1\<rparr> else h)"

definition offer_partial_valid :: "stack_nonce \<Rightarrow> u64 \<Rightarrow> offer \<Rightarrow> bool" where
  "offer_partial_valid server guid off =
     (case sidedness off of
        Some uni \<Rightarrow>
          have_all uni (available off @ (case fmlookup server guid of Some srv \<Rightarrow> available srv | None \<Rightarrow> []))
      | None \<Rightarrow>
          (case fmlookup server guid of
             Some srv \<Rightarrow>
               \<not> (impl_guid off \<noteq> impl_guid srv
                  \<or> \<not> have_all (available off) (available srv)
                  \<or> \<not> have_all (available srv) (available off))
           | None \<Rightarrow> True))"

definition stack_pair_partial_valid :: "stack_nonce \<Rightarrow> stack_nonce \<Rightarrow> bool" where
  "stack_pair_partial_valid client server \<longleftrightarrow>
     fmpred (offer_partial_valid server) client \<and> fmdom client |\<inter>| fmdom server \<noteq> {||}"

definition check_compatibility :: "upgrade_handle \<Rightarrow> stack_nonce \<Rightarrow> bool" where
  "check_compatibility h new_stack =
     list_ex (stack_pair_partial_valid new_stack) (left_offers h @ right_offers h)"

definition stub_in :: "stack_nonce \<Rightarrow> stack_nonce \<Rightarrow> bool" where
  "stub_in s stk =
     fmpred (\<lambda>guid off. case fmlookup stk guid of Some o' \<Rightarrow> impl_guid o' = impl_guid off | None \<Rightarrow> False) s"

definition find_stack_from_stub :: "stack_nonce list \<Rightarrow> stack_nonce list \<Rightarrow> stack_nonce result" where
  "find_stack_from_stub stub stacks =
     (case List.find (\<lambda>stk. list_ex (\<lambda>s. stub_in s stk) stub) stacks of
        Some stk \<Rightarrow> Inr stk
      | None \<Rightarrow> Inl (Panic ''unreachable''))"

type_synonym handle_table = "nat \<Rightarrow> upgrade_handle"

definition switch_all :: "nat list \<Rightarrow> stack_nonce \<Rightarrow> handle_table \<Rightarrow> handle_table" where
  "switch_all is new_stack tbl =
     (\<lambda>i. if i \<in> set is \<and> check_compatibility (tbl i) new_stack then switch_to_stack new_stack (tbl i) else tbl i)"

section \<open>Establishing a connection\<close>

record stack_upgrade_handle =
  upgrade_handles :: "nat list"
  su_offers :: "stack_nonce list"
  curr_entry :: stack_nonce
  curr_num_participants :: nat
  curr_round :: nat
  participants_watch :: nat

type_synonym ('c, 'k, 'b) rendezvous =
  "(announcement list \<times> (('c, 'k) conn \<times> stack_upgrade_handle) result \<times> 'b) option"

text \<open>
  The end of \<open>negotiate_rendezvous\<close>: connecting the applied stack and making the handle. \<open>app\<close> is the
  result of \<open>apply\<close>, with the context of its error.
\<close>

definition connect_and_handle ::
  "('c negotiate \<Rightarrow> ('c, 'k) conn \<Rightarrow> ('c, 'k) conn result) \<Rightarrow> ('c, 'k) conn \<Rightarrow> stack_upgrade_handle
     \<Rightarrow> 'c picked apply_result result \<Rightarrow> (('c, 'k) conn \<times> stack_upgrade_handle) result" where
  "connect_and_handle cw base h app =
     res_bind app (\<lambda>ar. res_bind (connect_wrap cw (applied ar) base) (\<lambda>cn. Inr (cn, h)))"

definition handle_of :: "nat list \<Rightarrow> stack_nonce list \<Rightarrow> stack_nonce \<Rightarrow> nat \<Rightarrow> nat \<Rightarrow> stack_upgrade_handle" where
  "handle_of handles offs ent n r = \<lparr>upgrade_handles = handles, su_offers = offs, curr_entry = ent,
     curr_num_participants = n, curr_round = r, participants_watch = n\<rparr>"

text \<open>Case 1: the policy changed a preference, so the connection is transitioned to our stack.\<close>

definition rendezvous_transition ::
  "(stack_nonce, 'b) backend \<Rightarrow> (stack_nonce \<Rightarrow> stack_nonce \<Rightarrow> nat
     \<Rightarrow> announcement list \<times> (('c, 'k) conn \<times> stack_upgrade_handle) result)
   \<Rightarrow> stack_nonce result \<Rightarrow> 'b \<Rightarrow> ('c, 'k, 'b) rendezvous" where
  "rendezvous_transition B connect solo b =
     (case wrap_err ''Malformed chunnel stack'' solo of
        Inl e \<Rightarrow> Some ([], Inl e, b)
      | Inr picked \<Rightarrow>
          Option.bind (transition B picked b) (\<lambda>(res, b1).
            case res of
              Inl e \<Rightarrow> Some ([], Inl (wrap_report ''Transition failed after trying to apply remote stack failed.'' e), b1)
            | Inr rnd \<Rightarrow>
                Option.bind (poll_entry B fmempty rnd b1) (\<lambda>(r, b2).
                  case r of
                    Inl e \<Rightarrow> Some ([], Inl e, b2)
                  | Inr x \<Rightarrow>
                      (case connect (case x of NoMatch p _ _ \<Rightarrow> p | Matched _ _ \<Rightarrow> picked) picked rnd of
                         (log, out) \<Rightarrow> Some (log, out, b2)))))"

text \<open>Case 2: the stack registered at the backend is applied, or we leave.\<close>

definition rendezvous_join ::
  "(stack_nonce, 'b) backend \<Rightarrow> stack_nonce \<Rightarrow> nat
   \<Rightarrow> announcement list \<times> (('c, 'k) conn \<times> stack_upgrade_handle) result
   \<Rightarrow> bool \<Rightarrow> 'b \<Rightarrow> ('c, 'k, 'b) rendezvous" where
  "rendezvous_join B remote rnd out applies b =
     (if \<not> applies
      then Option.bind (leave B b) (\<lambda>(res, b1).
             case res of
               Inl e \<Rightarrow> Some (fst out, Inl e, b1)
             | Inr _ \<Rightarrow> Some (fst out, snd out, b1))
      else Option.bind (poll_entry B remote rnd b) (\<lambda>(res, b1).
             case res of
               Inl e \<Rightarrow> Some (fst out, Inl (wrap_report ''poll_entry to unlock join failed'' e), b1)
             | Inr _ \<Rightarrow> Some (fst out, snd out, b1)))"

text \<open>The choice between the three cases, after \<open>try_init\<close> has returned \<open>x\<close>; case 3 is the last one.\<close>

definition rendezvous_decide ::
  "('c \<Rightarrow> bytes) \<Rightarrow> (string \<Rightarrow> bytes result) \<Rightarrow> ('c negotiate \<Rightarrow> ('c, 'k) conn \<Rightarrow> ('c, 'k) conn result)
   \<Rightarrow> ('c, 'k) conn \<Rightarrow> (stack_nonce, 'b) backend \<Rightarrow> selector \<Rightarrow> 'c stack \<Rightarrow> stack_nonce
   \<Rightarrow> stack_nonce option \<times> nat \<times> nat \<Rightarrow> 'b \<Rightarrow> ('c, 'k, 'b) rendezvous" where
  "rendezvous_decide ser ser_addr cw base B sel stk picked found b =
     (case found of
        (ent, n, rnd) \<Rightarrow>
          let handle = handle_of (collect_handles stk) (offers ser stk);
              (changed, stk') = prefer_stack n sel stk
          in if changed
             then rendezvous_transition B
                    (\<lambda>nonce picked' rnd'.
                       case apply_stack stk' nonce of
                         (log, app) \<Rightarrow>
                           (log, connect_and_handle cw base (handle picked' n rnd')
                                   (wrap_err ''post-transition apply failed'' app)))
                    (solo_monomorphize ser ser_addr stk') b
             else (case ent of
                     Some remote \<Rightarrow>
                       (case apply_stack stk' remote of
                          (log, app) \<Rightarrow>
                            rendezvous_join B remote rnd
                              (log, connect_and_handle cw base (handle remote n rnd)
                                 (wrap_err ''could not apply remote stack'' app))
                              (is_ok app) b)
                   | None \<Rightarrow>
                       (case apply_stack stk' picked of
                          (log, app) \<Rightarrow>
                            Some (log, connect_and_handle cw base (handle picked n rnd)
                              (expect ''solo_monomorphize means self-application will work'' app), b))))"

definition negotiate_rendezvous ::
  "('c \<Rightarrow> bytes) \<Rightarrow> (string \<Rightarrow> bytes result) \<Rightarrow> ('c negotiate \<Rightarrow> ('c, 'k) conn \<Rightarrow> ('c, 'k) conn result)
   \<Rightarrow> ('c, 'k) conn \<Rightarrow> (stack_nonce, 'b) backend \<Rightarrow> selector \<Rightarrow> 'c stack \<Rightarrow> 'b \<Rightarrow> ('c, 'k, 'b) rendezvous" where
  "negotiate_rendezvous ser ser_addr cw base B sel stk b =
     (case wrap_err ''Malformed chunnel stack'' (solo_monomorphize ser ser_addr stk) of
        Inl e \<Rightarrow> Some ([], Inl e, b)
      | Inr picked \<Rightarrow>
          Option.bind (try_init B picked b) (\<lambda>(res, b1).
            case wrap_err ''rendezvous backend try_init'' res of
              Inl e \<Rightarrow> Some ([], Inl e, b1)
            | Inr x \<Rightarrow>
                rendezvous_decide ser ser_addr cw base B sel stk picked
                  (case x of Matched n r \<Rightarrow> (None, n, r) | NoMatch e n r \<Rightarrow> (Some e, n + 1, r)) b1))"

section \<open>The monitoring task\<close>

text \<open>The state of the task: its handle, the table of upgrade handles and the backend.\<close>

type_synonym 'b monitor = "stack_upgrade_handle \<times> handle_table \<times> 'b"

definition handle_trigger ::
  "(stack_nonce, 'b) backend \<Rightarrow> stack_nonce list \<Rightarrow> 'b monitor \<Rightarrow> (unit result \<times> 'b monitor) option" where
  "handle_trigger B wanted m =
     (case m of
        (h, tbl, b) \<Rightarrow>
          (case find_stack_from_stub wanted (su_offers h) of
             Inl e \<Rightarrow> Some (Inl e, m)
           | Inr full_stack \<Rightarrow>
               Option.bind (transition B full_stack b) (\<lambda>(res, b1).
                 case res of
                   Inl e \<Rightarrow> Some (Inl e, h, tbl, b1)
                 | Inr new_round \<Rightarrow>
                     Some (Inr (), h\<lparr>curr_round := new_round, curr_entry := full_stack\<rparr>,
                       switch_all (upgrade_handles h) full_stack tbl, b1))))"

definition handle_notify ::
  "(stack_nonce, 'b) backend \<Rightarrow> stack_nonce rendezvous_result result \<Rightarrow> 'b monitor
     \<Rightarrow> (unit result \<times> 'b monitor) option" where
  "handle_notify B notify_res m =
     (case m of
        (h, tbl, b) \<Rightarrow>
          (case notify_res of
             Inl e \<Rightarrow> Some (Inl e, m)
           | Inr (Matched n r) \<Rightarrow>
               if n = curr_num_participants h then Some (Inr (), h\<lparr>curr_round := r\<rparr>, tbl, b)
               else Some (Inr (), h\<lparr>participants_watch := n\<rparr>, tbl, b)
           | Inr (NoMatch ent n r) \<Rightarrow>
               let h1 = h\<lparr>curr_num_participants := n, curr_round := r\<rparr> in
               if list_ex (\<lambda>i. check_compatibility (tbl i) ent) (upgrade_handles h)
               then Option.bind (staged_update B r b) (\<lambda>(res, b1).
                      case res of
                        Inl e \<Rightarrow> Some (Inl e, h1, tbl, b1)
                      | Inr new_round \<Rightarrow>
                          if r + 1 < new_round then Some (Inr (), h1, tbl, b1)
                          else Some (Inr (), h1\<lparr>curr_round := new_round, curr_entry := ent\<rparr>,
                                 switch_all (upgrade_handles h) ent tbl, b1))
               else Option.bind (transition B (curr_entry h) b) (\<lambda>(res, b1).
                      case res of
                        Inl e \<Rightarrow> Some (Inl e, h1, tbl, b1)
                      | Inr new_round \<Rightarrow> Some (Inr (), h1\<lparr>curr_round := new_round\<rparr>, tbl, b1))))"

text \<open>
  One turn of \<open>monitor_connection_negotiation_state\<close>: which branch of the \<open>select!\<close> is taken. A
  request comes with whether its caller still waits for the answer. The result is what the task
  returns, if it ends; \<open>None\<close> there is the next turn of the loop.
\<close>

datatype monitor_event =
    All_closed
  | Want_transition nat "stack_nonce list" bool
  | Notified "stack_nonce rendezvous_result result"

definition answer :: "bool \<Rightarrow> 'b monitor \<Rightarrow> (unit result option \<times> 'b monitor) option" where
  "answer receiver m =
     Some (if receiver then None else Some (Inl (Panic ''oneshot receiver won't drop'')), m)"

definition monitor_turn ::
  "(stack_nonce, 'b) backend \<Rightarrow> monitor_event \<Rightarrow> 'b monitor \<Rightarrow> (unit result option \<times> 'b monitor) option" where
  "monitor_turn B ev m =
     (case ev of
        All_closed \<Rightarrow> Some (Some (Inr ()), m)
      | Want_transition i wanted receiver \<Rightarrow>
          if \<not> is_active (fst (snd m) i) then answer receiver m
          else Option.bind (handle_trigger B wanted m) (\<lambda>(res, m1).
                 case res of
                   Inr _ \<Rightarrow> answer receiver m1
                 | Inl (Panic p) \<Rightarrow> Some (Some (Inl (Panic p)), m1)
                 | Inl (Err _) \<Rightarrow>
                     (case m1 of
                        (h, tbl, b) \<Rightarrow>
                          Option.bind (poll_entry B (curr_entry h) (curr_round h) b) (\<lambda>(r, b1).
                            Option.bind (handle_notify B r (h, tbl, b1)) (\<lambda>(_, m2). answer receiver m2))))
      | Notified r \<Rightarrow>
          Option.bind (handle_notify B r m) (\<lambda>(res, m1).
            Some (case res of Inl e \<Rightarrow> Some (Inl e) | Inr _ \<Rightarrow> None, m1)))"

text \<open>Several turns, as long as the task goes on.\<close>

fun monitor_run :: "(stack_nonce, 'b) backend \<Rightarrow> monitor_event list \<Rightarrow> 'b monitor \<Rightarrow> (unit result option \<times> 'b monitor) option" where
  "monitor_run B [] m = Some (None, m)"
| "monitor_run B (ev # evs) m =
     Option.bind (monitor_turn B ev m) (\<lambda>(out, m1).
       case out of None \<Rightarrow> monitor_run B evs m1 | Some r \<Rightarrow> Some (Some r, m1))"

section \<open>A stack applies to its own offers\<close>

fun caps :: "'c stack \<Rightarrow> u64 set" where
  "caps (Leaf n) = {cap_guid n} - {0}"
| "caps (OptStack None) = {}"
| "caps (OptStack (Some x)) = caps x"
| "caps (CxList h t) = caps h \<union> caps t"
| "caps (Select l r _) = caps l \<union> caps r"
| "caps (UpgradeSelect _ l r _) = caps l \<union> caps r"

text \<open>No two parts of a list implement the same capability.\<close>

fun own_caps :: "'c stack \<Rightarrow> bool" where
  "own_caps (Leaf n) = True"
| "own_caps (OptStack None) = True"
| "own_caps (OptStack (Some x)) = own_caps x"
| "own_caps (CxList h t) = (own_caps h \<and> own_caps t \<and> caps h \<inter> caps t = {})"
| "own_caps (Select l r _) = (own_caps l \<and> own_caps r)"
| "own_caps (UpgradeSelect _ l r _) = (own_caps l \<and> own_caps r)"

lemma offers_caps: "m \<in> set (offers ser s) \<Longrightarrow> g |\<in>| fmdom m \<Longrightarrow> g \<in> caps s"
proof (induction ser s arbitrary: m rule: offers.induct)
  case (1 ser n)
  then show ?case by (auto simp: leaf_offer_def get_offer_def split: if_splits)
next
  case (4 ser h t)
  then show ?case by (fastforce simp: fmdom_merge)
qed auto

lemma touched_caps: "snd (apply_stack s m) = Inr ar \<Longrightarrow> ar_touched ar \<subseteq> caps s"
proof (induction s arbitrary: m ar rule: num_selects.induct)
  case (1 n)
  then show ?case by (auto simp: apply_leaf_def split: if_splits option.splits)
next
  case (3 x)
  then show ?case by (fastforce simp: res_bind_Inr_iff)
next
  case (4 h t)
  from "4.prems" obtain hr tr where "snd (apply_stack h m) = Inr hr" "snd (apply_stack t (ar_picked hr)) = Inr tr"
    "ar_touched ar = ar_touched hr \<union> ar_touched tr" by (auto split: prod.splits sum.splits)
  with "4.IH" show ?case by fastforce
next
  case (5 l r p)
  from "5.prems" obtain ar0 where "snd (apply_select p (apply_stack l m) (apply_stack r m)) = Inr ar0"
    "ar_touched ar = ar_touched ar0" by (auto simp: res_bind_Inr_iff)
  with apply_select_Inr [OF this(1)] "5.IH" show ?case
    by (fastforce simp: check_applied_def res_bind_Inr_iff split: if_splits)
next
  case (6 i l r p)
  from "6.prems" obtain ar0 where "snd (apply_select p (apply_stack l m) (apply_stack r m)) = Inr ar0"
    "ar_touched ar = ar_touched ar0" by (auto simp: announce_def split: prod.splits sum.splits)
  with apply_select_Inr [OF this(1)] "6.IH" show ?case
    by (fastforce simp: check_applied_def res_bind_Inr_iff split: if_splits)
qed simp

text \<open>An application whose touched entries all match, which \<open>check_apply\<close> would accept.\<close>

definition checked :: "'p apply_result \<Rightarrow> bool" where
  "checked ar \<longleftrightarrow> (\<forall>c \<in> ar_touched ar. offers_matched (ar_picked ar) c)"

lemma check_applied_iff: "snd (check_applied a) = Inr ar \<longleftrightarrow> snd a = Inr ar \<and> checked ar"
  by (auto simp: check_applied_def checked_def res_bind_Inr_iff split: if_splits)

lemma apply_in_order_ok:
  assumes "(\<exists>ar. snd x = Inr ar \<and> checked ar) \<or> (\<exists>ar. snd y = Inr ar \<and> checked ar)"
  shows "\<exists>ar. snd (apply_in_preference_order x y) = Inr ar \<and> checked ar"
proof (cases "snd (check_applied x)")
  case (Inr ar)
  then have "checked ar" by (simp add: check_applied_iff)
  moreover obtain lg where "check_applied x = (lg, Inr ar)" using Inr by (metis prod.collapse)
  ultimately show ?thesis by (simp add: apply_in_preference_order_def checked_def)
next
  case (Inl e)
  with assms obtain ar where y: "snd (check_applied y) = Inr ar" by (metis check_applied_iff sum.distinct(1))
  with Inl obtain l1 l2 where "check_applied x = (l1, Inl e)" "check_applied y = (l2, Inr ar)" by (metis prod.collapse)
  moreover have "checked ar" using y by (simp add: check_applied_iff)
  ultimately show ?thesis by (simp add: apply_in_preference_order_def checked_def)
qed

lemma apply_select_ok:
  assumes "(\<exists>ar. snd a = Inr ar \<and> checked ar) \<or> (\<exists>ar. snd b = Inr ar \<and> checked ar)"
  shows "\<exists>ar. snd (apply_select p a b) = Inr ar \<and> checked ar"
proof (cases p)
  case (Left u)
  then show ?thesis using apply_in_order_ok [OF assms] by (simp add: apply_select_def)
next
  case (Right u)
  from apply_in_order_ok [of b a] assms obtain ar where "snd (apply_in_preference_order b a) = Inr ar" "checked ar" by blast
  with Right show ?thesis by (auto simp: apply_select_def checked_def)
qed

definition agree_on :: "u64 set \<Rightarrow> stack_nonce \<Rightarrow> stack_nonce \<Rightarrow> bool" where
  "agree_on S M m \<longleftrightarrow> (\<forall>g \<in> S. fmlookup M g = fmlookup m g)"

lemma xor_layers_untouched:
  assumes "g \<notin> touched_of ns"
  shows "fmlookup (xor_layers ns m) g = fmlookup m g"
  using guid_xor_untouched [of g ns] assms
  by (cases "fmlookup m g") (auto simp: fmlookup_xor_layers)

lemma offers_matched_cong: "fmlookup m g = fmlookup m' g \<Longrightarrow> offers_matched m g = offers_matched m' g"
  by (simp add: offers_matched_def)

lemma apply_leaf_own:
  assumes "agree_on (caps (Leaf n)) M (leaf_offer ser n)"
  shows "\<exists>ar. apply_leaf n M = Inr ar \<and> checked ar"
  using assms
  by (auto simp: agree_on_def apply_leaf_def leaf_offer_def get_offer_def checked_def offers_matched_def)

lemma apply_list_own:
  assumes h: "snd (apply_stack h M) = Inr hr" "checked hr"
    and t: "\<And>M'. agree_on (caps t) M' mt \<Longrightarrow> \<exists>tr. snd (apply_stack t M') = Inr tr \<and> checked tr"
    and agree: "agree_on (caps t) M mt" and disj: "caps h \<inter> caps t = {}"
  shows "\<exists>ar. snd (apply_stack (CxList h t) M) = Inr ar \<and> checked ar"
proof -
  have hp: "ar_picked hr = xor_layers (layers (applied hr)) M" "ar_touched hr = touched_of (layers (applied hr))"
    by (rule apply_of.run_picked [OF h(1)], rule apply_of.run_touched [OF h(1)])
  have "agree_on (caps t) (ar_picked hr) mt"
    using agree touched_caps [OF h(1)] disj unfolding agree_on_def hp by (metis disjoint_iff subsetD xor_layers_untouched)
  then obtain tr where tr: "snd (apply_stack t (ar_picked hr)) = Inr tr" "checked tr" using t by blast
  have tp: "ar_picked tr = xor_layers (layers (applied tr)) (ar_picked hr)" "ar_touched tr = touched_of (layers (applied tr))"
    by (rule apply_of.run_picked [OF tr(1)], rule apply_of.run_touched [OF tr(1)])
  have "fmlookup (ar_picked tr) c = fmlookup (ar_picked hr) c" if "c \<in> ar_touched hr" for c
    unfolding tp(1) using that touched_caps [OF h(1)] touched_caps [OF tr(1)] disj
    by (intro xor_layers_untouched) (auto simp: tp(2))
  then have "\<forall>c \<in> ar_touched hr \<union> ar_touched tr. offers_matched (ar_picked tr) c"
    using h(2) tr(2) unfolding checked_def by (metis Un_iff offers_matched_cong)
  moreover obtain l1 l2 where "apply_stack h M = (l1, Inr hr)" "apply_stack t (ar_picked hr) = (l2, Inr tr)"
    using h(1) tr(1) by (metis prod.collapse)
  ultimately show ?thesis by (simp add: checked_def)
qed

lemma apply_own_offer:
  "own_caps s \<Longrightarrow> m \<in> set (offers ser s) \<Longrightarrow> agree_on (caps s) M m
     \<Longrightarrow> \<exists>ar. snd (apply_stack s M) = Inr ar \<and> checked ar"
proof (induction ser s arbitrary: m M rule: offers.induct)
  case (1 ser n)
  then show ?case using apply_leaf_own [of n M ser] by simp
next
  case (3 ser x)
  then have "\<exists>ar. snd (apply_stack x M) = Inr ar \<and> checked ar" by simp
  then show ?case by (auto simp: checked_def)
next
  case (4 ser h t)
  then obtain mh mt where m: "m = merge mh mt" "mh \<in> set (offers ser h)" "mt \<in> set (offers ser t)" by auto
  have disj: "caps h \<inter> caps t = {}" using "4.prems"(1) by simp
  have none: "fmlookup mt g = None" if "g \<in> caps h" for g
    using that disj offers_caps [OF m(3), of g] by (metis disjoint_iff fmdom_notD)
  have none': "fmlookup mh g = None" if "g \<in> caps t" for g
    using that disj offers_caps [OF m(2), of g] by (metis disjoint_iff fmdom_notD)
  have agree: "agree_on (caps h) M mh" "agree_on (caps t) M mt"
    using "4.prems"(3) none none' by (auto simp: agree_on_def m(1) fmlookup_merge split: option.splits)
  from "4.IH"(2) [OF m(3) _ m(2) agree(1)] "4.prems"(1)
  obtain hr where "snd (apply_stack h M) = Inr hr" "checked hr" by auto
  then show ?case using "4.IH"(1) [OF _ m(3)] "4.prems"(1) agree(2) disj by (intro apply_list_own) auto
next
  case (5 ser l r p)
  then have "(\<exists>ar. snd (apply_stack l M) = Inr ar \<and> checked ar) \<or> (\<exists>ar. snd (apply_stack r M) = Inr ar \<and> checked ar)"
    by (auto simp: agree_on_def)
  from apply_select_ok [OF this, of p] show ?case by (auto simp: checked_def)
next
  case (6 ser i l r p)
  then have "(\<exists>ar. snd (apply_stack l M) = Inr ar \<and> checked ar) \<or> (\<exists>ar. snd (apply_stack r M) = Inr ar \<and> checked ar)"
    by (auto simp: agree_on_def)
  from apply_select_ok [OF this, of p] show ?case
    by (auto simp: announce_def checked_def split: prod.splits)
qed simp

text \<open>Preferences change neither the offers nor the capabilities of a stack.\<close>

lemma prefer_same:
  "offers ser (snd (prefer_stack n sel s)) = offers ser s \<and> caps (snd (prefer_stack n sel s)) = caps s
   \<and> own_caps (snd (prefer_stack n sel s)) = own_caps s"
  by (induction n sel s rule: prefer_stack.induct) (auto split: prod.splits bool.splits option.splits)

lemma solo_offer:
  assumes "solo_monomorphize ser ser_addr s = Inr picked"
  shows "picked \<in> set (offers ser s)"
proof -
  from assms obtain p msg cs where mono: "monomorphize ser ser_addr s (offers ser s) '''' = Inr (p, msg, cs)"
    and msg: "(case msg of ServerNonce _ picked \<Rightarrow> Inr picked | _ \<Rightarrow> Inl (Panic ''unreachable'')) = Inr picked"
    by (auto simp: solo_monomorphize_def res_bind_Inr_iff)
  from mono show ?thesis by (rule monomorphize_Inr) (use msg in simp)
qed

lemma solo_no_panic:
  assumes "\<not> panics (ser_addr '''')"
  shows "\<not> panics (solo_monomorphize ser ser_addr s)"
proof (cases "monomorphize ser ser_addr s (offers ser s) ''''")
  case (Inl e)
  with monomorphize_no_panic [of ser_addr "''''" ser s "offers ser s"] assms show ?thesis
    by (simp add: solo_monomorphize_def)
next
  case (Inr x)
  obtain p msg cs where x: "x = (p, msg, cs)" by (cases x)
  from Inr [unfolded x] show ?thesis by (rule monomorphize_Inr) (simp add: solo_monomorphize_def Inr x)
qed

lemma self_application:
  assumes "own_caps s" and "solo_monomorphize ser ser_addr s = Inr picked"
  shows "is_ok (snd (apply_stack (snd (prefer_stack n sel s)) picked))"
  using apply_own_offer [of "snd (prefer_stack n sel s)" picked ser picked] assms prefer_same [of ser n sel s]
    solo_offer [OF assms(2)]
  by (auto simp: agree_on_def is_ok_iff)

section \<open>A stack is found from the offers of its handles\<close>

text \<open>The alternatives of handle \<open>i\<close> in a stack.\<close>

fun alternatives :: "nat \<Rightarrow> 'c stack \<Rightarrow> 'c stack list" where
  "alternatives i (Leaf n) = []"
| "alternatives i (OptStack None) = []"
| "alternatives i (OptStack (Some x)) = alternatives i x"
| "alternatives i (CxList h t) = alternatives i h @ alternatives i t"
| "alternatives i (Select l r _) = alternatives i l @ alternatives i r"
| "alternatives i (UpgradeSelect j l r _) =
     (if i = j then [l, r] else []) @ alternatives i l @ alternatives i r"

lemma alternatives_caps: "a \<in> set (alternatives i s) \<Longrightarrow> caps a \<subseteq> caps s"
  by (induction i s rule: alternatives.induct) (auto split: if_splits)

lemma stub_in_mono:
  assumes "stub_in m1 m" and "\<And>g. g |\<in>| fmdom m \<Longrightarrow> fmlookup m' g = fmlookup m g"
  shows "stub_in m1 m'"
  unfolding stub_in_def fmpred_iff
proof (intro allI impI)
  fix g off assume "fmlookup m1 g = Some off"
  with assms(1) obtain o' where "fmlookup m g = Some o'" "impl_guid o' = impl_guid off"
    by (fastforce simp: stub_in_def fmpred_iff split: option.splits)
  with assms(2) [of g] show "case fmlookup m' g of Some o' \<Rightarrow> impl_guid o' = impl_guid off | None \<Rightarrow> False"
    by (simp add: fmdomI)
qed

lemma stub_in_refl: "stub_in m m"
  by (auto simp: stub_in_def fmpred_iff)

text \<open>Every offer of an alternative is part of some offer of the whole stack.\<close>

lemma alternative_offered:
  "own_caps s \<Longrightarrow> all_present s \<Longrightarrow> a \<in> set (alternatives i s) \<Longrightarrow> m \<in> set (offers ser a)
     \<Longrightarrow> \<exists>full \<in> set (offers ser s). stub_in m full"
proof (induction i s arbitrary: m rule: alternatives.induct)
  case (4 i h t)
  have disj: "caps h \<inter> caps t = {}" using "4.prems"(1) by simp
  have head: "stub_in m1 (merge mh mt)" if "stub_in m1 mh" "mh \<in> set (offers ser h)" "mt \<in> set (offers ser t)" for m1 mh mt
  proof (rule stub_in_mono [OF that(1)])
    fix g assume "g |\<in>| fmdom mh"
    then have "fmlookup mt g = None" using offers_caps [OF that(2)] offers_caps [OF that(3)] disj by (metis disjoint_iff fmdom_notD)
    then show "fmlookup (merge mh mt) g = fmlookup mh g" by (auto simp: fmlookup_merge split: option.splits)
  qed
  have tail: "stub_in m1 (merge mh mt)" if "stub_in m1 mt" "mh \<in> set (offers ser h)" "mt \<in> set (offers ser t)" for m1 mh mt
  proof (rule stub_in_mono [OF that(1)])
    fix g assume "g |\<in>| fmdom mt"
    then have "fmlookup mh g = None" using offers_caps [OF that(2)] offers_caps [OF that(3)] disj by (metis disjoint_iff fmdom_notD)
    then show "fmlookup (merge mh mt) g = fmlookup mt g" by (simp add: fmlookup_merge)
  qed
  obtain mh0 mt0 where ex: "mh0 \<in> set (offers ser h)" "mt0 \<in> set (offers ser t)"
    using offers_pos [of h ser] offers_pos [of t ser] "4.prems"(2) by (metis all_present.simps(4) list.set_sel(1))
  from "4.prems"(3) consider "a \<in> set (alternatives i h)" | "a \<in> set (alternatives i t)" by auto
  then show ?case
  proof cases
    case 1
    with "4.IH"(1) [OF _ _ 1 "4.prems"(4)] "4.prems"(1,2) obtain mh where "mh \<in> set (offers ser h)" "stub_in m mh" by auto
    with head ex(2) show ?thesis by fastforce
  next
    case 2
    with "4.IH"(2) [OF _ _ 2 "4.prems"(4)] "4.prems"(1,2) obtain mt where "mt \<in> set (offers ser t)" "stub_in m mt" by auto
    with tail ex(1) show ?thesis by fastforce
  qed
next
  case (6 i j l r p)
  from "6.prems"(3) consider "a = l \<or> a = r" | "a \<in> set (alternatives i l)" | "a \<in> set (alternatives i r)"
    by (auto split: if_splits)
  then show ?case
  proof cases
    case 1
    with "6.prems"(4) have "m \<in> set (offers ser (UpgradeSelect j l r p))" by auto
    with stub_in_refl show ?thesis by blast
  qed (use "6.IH" "6.prems" in fastforce)+
qed fastforce+

lemma find_stack_ok:
  assumes "full \<in> set stacks" "s \<in> set stub" "stub_in s full"
  shows "\<exists>stk \<in> set stacks. find_stack_from_stub stub stacks = Inr stk"
proof (cases "List.find (\<lambda>stk. list_ex (\<lambda>s. stub_in s stk) stub) stacks")
  case None
  with assms show ?thesis by (auto simp: find_None_iff list_ex_iff)
next
  case (Some stk)
  then have "stk \<in> set stacks" by (auto simp: find_Some_iff)
  with Some show ?thesis by (auto simp: find_stack_from_stub_def)
qed

lemma find_stack_sound:
  "find_stack_from_stub stub stacks = Inr stk \<Longrightarrow> stk \<in> set stacks \<and> (\<exists>s \<in> set stub. stub_in s stk)"
  by (auto simp: find_stack_from_stub_def find_Some_iff list_ex_iff split: option.splits)

section \<open>No panic while connecting\<close>

definition backend_no_panic :: "(stack_nonce, 'b) backend \<Rightarrow> bool" where
  "backend_no_panic B \<longleftrightarrow>
     (\<forall>e b r b'. try_init B e b = Some (r, b') \<longrightarrow> \<not> panics r)
   \<and> (\<forall>e k b r b'. poll_entry B e k b = Some (r, b') \<longrightarrow> \<not> panics r)
   \<and> (\<forall>e b r b'. transition B e b = Some (r, b') \<longrightarrow> \<not> panics r)
   \<and> (\<forall>k b r b'. staged_update B k b = Some (r, b') \<longrightarrow> \<not> panics r)
   \<and> (\<forall>b r b'. leave B b = Some (r, b') \<longrightarrow> \<not> panics r)"

lemma connect_wrap_no_panic:
  assumes "\<And>n c. \<not> panics (cw n c)"
  shows "\<not> panics (connect_wrap cw p inner)"
  using assms by (induction cw p inner rule: connect_wrap.induct) (auto simp: panics_res_bind)

lemma connect_and_handle_no_panic:
  assumes "\<And>n c. \<not> panics (cw n c)" and "\<not> panics app"
  shows "\<not> panics (connect_and_handle cw base h app)"
  using assms by (auto simp: connect_and_handle_def panics_res_bind connect_wrap_no_panic)

lemma rendezvous_transition_no_panic:
  assumes "backend_no_panic B" and "\<not> panics solo" and "\<And>x y z. \<not> panics (snd (connect x y z))"
    and "rendezvous_transition B connect solo b = Some (log, out, b')"
  shows "\<not> panics out"
proof (cases solo)
  case (Inl e)
  with assms(2,4) show ?thesis by (auto simp: rendezvous_transition_def)
next
  case (Inr picked)
  with assms(4) obtain res b1 where t: "transition B picked b = Some (res, b1)"
    by (auto simp: rendezvous_transition_def bind_eq_Some_conv)
  then have "\<not> panics res" using assms(1) unfolding backend_no_panic_def by blast
  show ?thesis
  proof (cases res)
    case (Inl e)
    with assms(4) \<open>solo = Inr picked\<close> t \<open>\<not> panics res\<close> show ?thesis by (auto simp: rendezvous_transition_def)
  next
    case rnd: (Inr rnd)
    with assms(4) Inr t obtain r b2 where p: "poll_entry B fmempty rnd b1 = Some (r, b2)"
      by (auto simp: rendezvous_transition_def bind_eq_Some_conv)
    then have "\<not> panics r" using assms(1) unfolding backend_no_panic_def by blast
    with assms(3) assms(4) Inr t rnd p show ?thesis
      by (cases r) (auto simp: rendezvous_transition_def split_beta)
  qed
qed

lemma rendezvous_join_no_panic:
  assumes "backend_no_panic B" and "\<not> panics (snd out)" and "rendezvous_join B remote k out ok b = Some (log, res, b')"
  shows "\<not> panics res"
proof (cases ok)
  case True
  with assms(3) obtain r b1 where p: "poll_entry B remote k b = Some (r, b1)"
    by (auto simp: rendezvous_join_def bind_eq_Some_conv)
  then have "\<not> panics r" using assms(1) unfolding backend_no_panic_def by blast
  with assms(2,3) True p show ?thesis by (cases r) (auto simp: rendezvous_join_def)
next
  case False
  with assms(3) obtain r b1 where l: "leave B b = Some (r, b1)"
    by (auto simp: rendezvous_join_def bind_eq_Some_conv)
  then have "\<not> panics r" using assms(1) unfolding backend_no_panic_def by blast
  with assms(2,3) False l show ?thesis by (cases r) (auto simp: rendezvous_join_def)
qed

lemma rendezvous_decide_no_panic:
  assumes "own_caps stk" and "backend_no_panic B" and cw: "\<And>n c. \<not> panics (cw n c)" and ser: "\<not> panics (ser_addr [])"
    and solo: "solo_monomorphize ser ser_addr stk = Inr picked"
    and run: "rendezvous_decide ser ser_addr cw base B sel stk picked found b = Some (log, out, b')"
  shows "\<not> panics out"
proof -
  obtain ent n rnd where found: "found = (ent, n, rnd)" by (cases found)
  obtain changed stk' where pref: "prefer_stack n sel stk = (changed, stk')" by (cases "prefer_stack n sel stk")
  have conn: "\<not> panics (connect_and_handle cw base h app)" if "\<not> panics app" for h app
    using connect_and_handle_no_panic [OF cw that] .
  have app: "\<not> panics (snd (apply_stack stk' m))" for m by (rule apply_of.run_no_panic)
  have self: "is_ok (snd (apply_stack stk' picked))" using self_application [OF assms(1) solo, of n sel] pref by simp
  note run' = run [unfolded rendezvous_decide_def found prod.case pref Let_def]
  consider "changed" | "\<not> changed" "ent = None" | remote where "\<not> changed" "ent = Some remote" by (cases ent) auto
  then show ?thesis
  proof cases
    case 1
    note trans = run' [unfolded if_P [OF 1]]
    show ?thesis
      by (rule rendezvous_transition_no_panic [OF assms(2) solo_no_panic [of ser_addr ser stk', OF ser] _ trans])
         (simp add: split_beta conn app)
  next
    case 2
    with run' self show ?thesis by (auto simp: split_beta is_ok_iff intro!: conn)
  next
    case 3
    note join = run' [unfolded if_not_P [OF 3(1)] 3(2) option.case split_beta]
    show ?thesis
      by (rule rendezvous_join_no_panic [OF assms(2) _ join]) (simp add: conn app)
  qed
qed

text \<open>
  C13: Connecting over a rendezvous point never panics. If no two chunnels of a list in the stack
  implement the same capability and neither the backend nor the chunnels panic, the \<open>expect\<close> that
  the endpoint can apply the nonce it negotiated with itself always holds, whatever the policy
  prefers and whatever the backend reports.
\<close>

theorem rendezvous_never_panics:
  assumes "own_caps stk" and "backend_no_panic B" and "\<And>n c. \<not> panics (cw n c)" and "\<not> panics (ser_addr [])"
    and run: "negotiate_rendezvous ser ser_addr cw base B sel stk b = Some (log, out, b')"
  shows "\<not> panics out"
proof (cases "solo_monomorphize ser ser_addr stk")
  case (Inl e)
  with run solo_no_panic [of ser_addr ser stk] assms(4) show ?thesis by (auto simp: negotiate_rendezvous_def)
next
  case (Inr picked)
  with run obtain res b1 where init: "try_init B picked b = Some (res, b1)"
    by (auto simp: negotiate_rendezvous_def bind_eq_Some_conv)
  then have "\<not> panics res" using assms(2) unfolding backend_no_panic_def by blast
  with run Inr init rendezvous_decide_no_panic [OF assms(1-4) Inr] show ?thesis
    by (cases res) (auto simp: negotiate_rendezvous_def)
qed

section \<open>Triggers and notifications\<close>

lemma switch_all_simps [simp]:
  "left_offers (switch_all is ent tbl i) = left_offers (tbl i)"
  "right_offers (switch_all is ent tbl i) = right_offers (tbl i)"
  "current (switch_all is ent tbl i) = current (tbl i)"
  "check_compatibility (switch_all is ent tbl i) = check_compatibility (tbl i)"
  by (simp_all add: switch_all_def switch_to_stack_def check_compatibility_def [abs_def])

lemma switch_all_trigger:
  "i \<in> set is \<Longrightarrow> check_compatibility (tbl i) ent \<Longrightarrow> trigger (switch_all is ent tbl i) = ent"
  by (simp add: switch_all_def switch_to_stack_def)

text \<open>
  A handle's request is always understood. If the chunnels of each list in the stack have
  capabilities of their own and no optional chunnel is absent, asking for an alternative of one of
  its upgrade handles never reaches the \<open>unreachable!\<close>; when the backend commits, the new entry is
  an offer of the whole stack that contains the requested alternative, and every handle that can
  apply it has been told.
\<close>

lemma trigger_finds_stack:
  assumes "own_caps stk" "all_present stk" "alt \<in> set (alternatives i stk)"
    and "backend_no_panic B" and "su_offers h = offers ser stk"
    and run: "handle_trigger B (offers ser alt) (h, tbl, b) = Some (res, h', tbl', b')"
  shows "\<not> panics res \<and> (res = Inr () \<longrightarrow> curr_entry h' \<in> set (offers ser stk)
     \<and> (\<exists>s \<in> set (offers ser alt). stub_in s (curr_entry h'))
     \<and> (\<forall>j \<in> set (upgrade_handles h). check_compatibility (tbl j) (curr_entry h') \<longrightarrow> trigger (tbl' j) = curr_entry h'))"
proof -
  have "all_present alt" using assms(2,3) by (induction i stk rule: alternatives.induct) (auto split: if_splits)
  from offers_pos [OF this, of ser] obtain s where s: "s \<in> set (offers ser alt)" by (cases "offers ser alt") auto
  from alternative_offered [OF assms(1-3) s] find_stack_ok [OF _ s]
  obtain full where full: "find_stack_from_stub (offers ser alt) (offers ser stk) = Inr full" by blast
  note sound = find_stack_sound [OF full]
  from run full assms(5) obtain r b1 where t: "transition B full b = Some (r, b1)"
    by (auto simp: handle_trigger_def bind_eq_Some_conv)
  then have "\<not> panics r" using assms(4) unfolding backend_no_panic_def by blast
  with run full assms(5) t sound show ?thesis
    by (cases r) (auto simp: handle_trigger_def switch_all_trigger)
qed

text \<open>The handles follow the entry; \<open>e0\<close> is the entry the connection was made with.\<close>

definition follows :: "stack_nonce \<Rightarrow> stack_upgrade_handle \<Rightarrow> handle_table \<Rightarrow> bool" where
  "follows e0 h tbl \<longleftrightarrow> (\<forall>i \<in> set (upgrade_handles h). check_compatibility (tbl i) (curr_entry h) \<longrightarrow>
     trigger (tbl i) = curr_entry h \<or> curr_entry h = e0 \<and> version (tbl i) = 0)"

lemma follows_switch:
  "upgrade_handles h' = upgrade_handles h \<Longrightarrow> curr_entry h' = ent \<Longrightarrow> follows e0 h' (switch_all (upgrade_handles h) ent tbl)"
  by (auto simp: follows_def switch_all_trigger)

lemma follows_same:
  "upgrade_handles h' = upgrade_handles h \<Longrightarrow> curr_entry h' = curr_entry h \<Longrightarrow> follows e0 h' tbl = follows e0 h tbl"
  by (simp add: follows_def)

lemma handle_trigger_follows:
  assumes "handle_trigger B wanted (h, tbl, b) = Some (res, h', tbl', b')" "follows e0 h tbl"
  shows "follows e0 h' tbl'"
  using assms
  by (auto simp: handle_trigger_def bind_call_iff follows_switch split: sum.split_asm)

lemma handle_notify_follows:
  assumes "handle_notify B r (h, tbl, b) = Some (res, h', tbl', b')" "follows e0 h tbl"
  shows "follows e0 h' tbl'"
proof (cases r)
  case (Inr x)
  have same: "follows e0 (h\<lparr>curr_num_participants := n, curr_round := k\<rparr>) tbl"
    "follows e0 (h\<lparr>participants_watch := n\<rparr>) tbl" "follows e0 (h\<lparr>curr_round := k\<rparr>) tbl" for n k
    using assms(2) by (simp_all add: follows_def)
  have sw: "follows e0 (h\<lparr>curr_num_participants := n, curr_round := k, curr_entry := ent\<rparr>) (switch_all (upgrade_handles h) ent tbl)"
    for n k ent by (rule follows_switch) simp_all
  from assms(1) Inr same show ?thesis
  proof (cases x)
    case (NoMatch ent n k)
    show ?thesis
    proof (cases "list_ex (\<lambda>i. check_compatibility (tbl i) ent) (upgrade_handles h)")
      case True
      then consider "h' = h\<lparr>curr_num_participants := n, curr_round := k\<rparr>" "tbl' = tbl"
        | k' where "h' = h\<lparr>curr_num_participants := n, curr_round := k', curr_entry := ent\<rparr>"
            "tbl' = switch_all (upgrade_handles h) ent tbl"
        using assms(1) Inr NoMatch by (auto simp: handle_notify_def Let_def bind_call_iff split: if_split_asm)
      then show ?thesis by cases (use same(1) sw in simp_all)
    next
      case False
      with assms(1) Inr NoMatch same(1) show ?thesis by (auto simp: handle_notify_def Let_def bind_call_iff)
    qed
  qed (auto simp: handle_notify_def split: if_splits)
qed (use assms in \<open>auto simp: handle_notify_def\<close>)

lemma monitor_turn_follows:
  assumes turn: "monitor_turn B ev (h, tbl, b) = Some (out, h', tbl', b')" and inv: "follows e0 h tbl"
  shows "follows e0 h' tbl'"
proof (cases ev)
  case (Want_transition i wanted rx)
  show ?thesis
  proof (cases "is_active (tbl i)")
    case True
    with turn Want_transition obtain res h1 tbl1 b1 where t: "handle_trigger B wanted (h, tbl, b) = Some (res, h1, tbl1, b1)"
      by (auto simp: monitor_turn_def bind_eq_Some_conv)
    note inv1 = handle_trigger_follows [OF t inv]
    show ?thesis
    proof (cases "\<exists>msgs. res = Inl (Err msgs)")
      case False
      with turn Want_transition True t inv1 show ?thesis
        by (cases res) (auto simp: monitor_turn_def answer_def split: failure.splits)
    next
      case err: True
      with turn Want_transition True t obtain r b2 res2 h2 tbl2 b3
        where n: "handle_notify B r (h1, tbl1, b2) = Some (res2, h2, tbl2, b3)" and "(h2, tbl2) = (h', tbl')"
        by (auto simp: monitor_turn_def answer_def bind_eq_Some_conv)
      with handle_notify_follows [OF n inv1] show ?thesis by simp
    qed
  qed (use turn Want_transition inv in \<open>auto simp: monitor_turn_def answer_def\<close>)
next
  case (Notified r)
  with turn obtain res where "handle_notify B r (h, tbl, b) = Some (res, h', tbl', b')"
    by (auto simp: monitor_turn_def bind_eq_Some_conv)
  then show ?thesis using inv by (rule handle_notify_follows)
qed (use turn inv in \<open>auto simp: monitor_turn_def\<close>)

lemma monitor_run_follows:
  "monitor_run B evs m = Some (out, m') \<Longrightarrow> follows e0 (fst m) (fst (snd m)) \<Longrightarrow> follows e0 (fst m') (fst (snd m'))"
proof (induction B evs m rule: monitor_run.induct)
  case (2 B ev evs m)
  then obtain out1 m1 where t: "monitor_turn B ev m = Some (out1, m1)"
    and rest: "(case out1 of None \<Rightarrow> monitor_run B evs m1 | Some r \<Rightarrow> Some (Some r, m1)) = Some (out, m')"
    by (auto simp: bind_eq_Some_conv)
  have "follows e0 (fst m1) (fst (snd m1))"
    using monitor_turn_follows [of B ev "fst m" "fst (snd m)" "snd (snd m)" out1 "fst m1" "fst (snd m1)" "snd (snd m1)"] t 2(3)
    by simp
  with rest 2(1) [OF t] show ?case by (cases out1) auto
qed simp

text \<open>
  C14: The local handles follow the committed entry. After any sequence of requests, notifications and
  failures, every upgrade handle that is compatible with the entry the task holds to be current has
  been told exactly that entry, or the entry is still the one the connection was made with and the
  handle has never been told anything.
\<close>

theorem handles_follow_entry:
  assumes "monitor_run B evs (h, tbl, b) = Some (out, h', tbl', b')" and "\<forall>i. version (tbl i) = 0"
    and "i \<in> set (upgrade_handles h')" and "check_compatibility (tbl' i) (curr_entry h')"
  shows "trigger (tbl' i) = curr_entry h' \<or> curr_entry h' = curr_entry h \<and> version (tbl' i) = 0"
  using monitor_run_follows [OF assms(1), of "curr_entry h"] assms(2-4) by (auto simp: follows_def)

text \<open>
  A change of the number of participants is not remembered: when it changes and changes back, the
  second notification is taken for no change and the watch keeps the outdated number.
\<close>

lemma participants_change_missed:
  assumes "m \<noteq> curr_num_participants h"
  shows "monitor_run B [Notified (Inr (Matched m r)), Notified (Inr (Matched (curr_num_participants h) r'))] (h, tbl, b)
     = Some (None, h\<lparr>participants_watch := m, curr_round := r'\<rparr>, tbl, b)"
  using assms by (simp add: monitor_turn_def handle_notify_def)

text \<open>An alternative without capabilities is contained in every stack, so the first one is proposed.\<close>

lemma empty_alternative_proposes_first:
  assumes "fmempty \<in> set stub"
  shows "find_stack_from_stub stub (stk # stacks) = Inr stk"
  using assms by (auto simp: find_stack_from_stub_def list_ex_iff stub_in_def intro!: bexI [of _ fmempty])

section \<open>Examples\<close>

text \<open>
  A stack with two upgradable implementations of one capability, and a register as the backend of a
  single endpoint.
\<close>

definition up_a :: "nat negotiate" where
  "up_a = \<lparr>neg_guid = 0x31, cap_guid = 7, universe = None, capabilities = []\<rparr>"

definition up_b :: "nat negotiate" where
  "up_b = \<lparr>neg_guid = 0x32, cap_guid = 7, universe = None, capabilities = [1]\<rparr>"

definition up_ser :: "nat \<Rightarrow> bytes" where
  "up_ser n = [of_nat n]"

definition up_stack :: "nat stack" where
  "up_stack = CxList (UpgradeSelect 0 (Leaf up_a) (Leaf up_b) (Left ())) (Leaf (cx_nil 0))"

definition up_backend :: "(stack_nonce, (stack_nonce \<times> nat) option) backend" where
  "up_backend = \<lparr>
     try_init = \<lambda>e b. Some (case b of
         None \<Rightarrow> (Inr (Matched 1 0), Some (e, 0))
       | Some (e', r) \<Rightarrow> (Inr (if e = e' then Matched 2 r else NoMatch e' 1 r), b)),
     poll_entry = \<lambda>e r b. Some (case b of
         None \<Rightarrow> (eyre ''nonce value was nil'', b)
       | Some (e', r') \<Rightarrow> (Inr (if e = e' then Matched 1 r' else NoMatch e' 1 r'), b)),
     transition = \<lambda>e b. Some (case b of
         None \<Rightarrow> (eyre ''start transition failed'', b)
       | Some (e', r) \<Rightarrow> (Inr (r + 2), Some (e, r + 2))),
     staged_update = \<lambda>r b. Some (Inr (r + 1), b),
     leave = \<lambda>b. Some (Inr (), b)\<rparr>"

lemma up_backend_no_panic: "backend_no_panic up_backend"
  by (auto simp: backend_no_panic_def up_backend_def split: option.splits prod.splits)

lemma up_stack_ok: "own_caps up_stack" "all_present up_stack" "Leaf up_b \<in> set (alternatives 0 up_stack)"
  by (simp_all add: up_stack_def up_a_def up_b_def cx_nil_def)

definition up_negotiated :: "(nat, nat, (stack_nonce \<times> nat) option) rendezvous" where
  "up_negotiated = negotiate_rendezvous up_ser (\<lambda>_. Inr []) (\<lambda>_ c. Inr c) (Conn 0) up_backend (\<lambda>_ _. None) up_stack None"

lemma up_negotiated_value:
  "up_negotiated = Some ([(0, Left ())],
     Inr (UpgradeConn 0 (Leaf up_a) (Leaf up_b) (Conn 0) (Left (Conn 0)) (xor_layers [up_a] (leaf_offer up_ser up_a)),
          handle_of [0] (offers up_ser up_stack) (leaf_offer up_ser up_a) 1 0),
     Some (leaf_offer up_ser up_a, 0))"
  by code_simp

theorem rendezvous_never_panics_witness:
  "case up_negotiated of Some (log, out, b) \<Rightarrow> log = [(0, Left ())] \<and> \<not> panics out | None \<Rightarrow> False"
  using rendezvous_never_panics [OF up_stack_ok(1) up_backend_no_panic, of "\<lambda>_ c. Inr c" "\<lambda>_. Inr []" up_ser "Conn 0" "\<lambda>_ _. None" None]
    up_negotiated_value
  by (simp add: up_negotiated_def)

definition up_table :: handle_table where
  "up_table = (\<lambda>i. (handle_new up_ser (Leaf up_a) (Leaf up_b))\<lparr>current := Some (Left ())\<rparr>)"

definition up_handle :: stack_upgrade_handle where
  "up_handle = handle_of [0] (offers up_ser up_stack) (leaf_offer up_ser up_a) 1 0"

definition up_entry :: "(stack_nonce \<times> nat) option" where
  "up_entry = Some (leaf_offer up_ser up_a, 0)"

definition up_triggered :: "(unit result \<times> (stack_nonce \<times> nat) option monitor) option" where
  "up_triggered = handle_trigger up_backend (offers up_ser (Leaf up_b)) (up_handle, up_table, up_entry)"

lemma up_triggered_value:
  "up_triggered = Some (Inr (), up_handle\<lparr>curr_round := 2, curr_entry := leaf_offer up_ser up_b\<rparr>,
     switch_all [0] (leaf_offer up_ser up_b) up_table, Some (leaf_offer up_ser up_b, 2))"
proof -
  have "find_stack_from_stub (offers up_ser (Leaf up_b)) (su_offers up_handle) = Inr (leaf_offer up_ser up_b)" by code_simp
  moreover have "upgrade_handles up_handle = [0]" by code_simp
  ultimately show ?thesis by (simp add: up_triggered_def handle_trigger_def up_entry_def up_backend_def)
qed

lemma up_compatible: "check_compatibility (up_table 0) (leaf_offer up_ser up_b)"
  by code_simp

lemma trigger_finds_stack_example:
  "trigger (switch_all [0] (leaf_offer up_ser up_b) up_table 0) = leaf_offer up_ser up_b
   \<and> leaf_offer up_ser up_b \<in> set (offers up_ser up_stack)"
  using trigger_finds_stack [OF up_stack_ok up_backend_no_panic _ up_triggered_value [unfolded up_triggered_def]]
    up_compatible
  by (simp add: up_handle_def handle_of_def)

theorem handles_follow_entry_witness:
  "trigger (switch_all [0] (leaf_offer up_ser up_b) up_table 0) = leaf_offer up_ser up_b"
proof -
  have "is_active (up_table 0)" by (simp add: up_table_def is_active_def)
  then have run: "monitor_run up_backend [Want_transition 0 (offers up_ser (Leaf up_b)) True] (up_handle, up_table, up_entry)
     = Some (None, up_handle\<lparr>curr_round := 2, curr_entry := leaf_offer up_ser up_b\<rparr>,
         switch_all [0] (leaf_offer up_ser up_b) up_table, Some (leaf_offer up_ser up_b, 2))"
    using up_triggered_value by (simp add: monitor_turn_def answer_def up_triggered_def del: offers.simps)
  have "leaf_offer up_ser up_b \<noteq> leaf_offer up_ser up_a" by code_simp
  with handles_follow_entry [OF run, of 0] up_compatible show ?thesis
    by (simp add: up_handle_def handle_of_def up_table_def handle_new_def)
qed

end
