(* ===== verification/Upgrade_Conn.thy ===== *)
theory Upgrade_Conn
  imports Rendezvous
begin

text \<open>
  The connection of an \<open>UpgradeSelect\<close> (\<open>UpgradeEitherConn\<close> in
  \<open>bertha/src/negotiate/rendezvous.rs\<close>). It listens to the trigger of its \<open>UpgradeHandle\<close>; when a
  new stack was announced, the next \<open>send\<close> or \<open>recv\<close> applies it to the two saved alternatives,
  connects the result to the base connection and puts it in place of the current side.

  The upgrade in progress is a stored future: pending with its nonce, or finished with an error, in
  which case polling it again panics. \<open>listening\<close> is whether the sender of the trigger is alive.
\<close>

datatype upgrade_future =
    Upgrading stack_nonce
  | Failed_future

record ('c, 'k) upgrade_conn =
  uc_left :: "'c stack"
  uc_right :: "'c stack"
  uc_base :: "('c, 'k) conn"
  uc_current :: "(('c, 'k) conn, ('c, 'k) conn) either"
  seen :: nat
  curr_nonce :: stack_nonce
  in_progress :: "upgrade_future option"

text \<open>The connection that \<open>UpgradeEitherApply::connect_wrap\<close> makes, listening from version \<open>v\<close> on.\<close>

fun upgrade_conn_of :: "('c, 'k) conn \<Rightarrow> nat \<Rightarrow> ('c, 'k) upgrade_conn option" where
  "upgrade_conn_of (UpgradeConn _ l r base cur p) v =
     Some \<lparr>uc_left = l, uc_right = r, uc_base = base, uc_current = cur, seen = v, curr_nonce = p, in_progress = None\<rparr>"
| "upgrade_conn_of _ v = None"

section \<open>try_upgrade\<close>

text \<open>
  The side and the connection that a nonce selects. The alternatives are put into a fresh \<open>Select\<close>,
  which prefers the left one.
\<close>

definition connect_either ::
  "('c negotiate \<Rightarrow> ('c, 'k) conn \<Rightarrow> ('c, 'k) conn result) \<Rightarrow> ('c, 'k) conn
     \<Rightarrow> ('c picked, 'c picked) either \<Rightarrow> (('c, 'k) conn, ('c, 'k) conn) either result" where
  "connect_either cw base ap =
     (case ap of
        Left a \<Rightarrow> res_bind (connect_wrap cw a base) (\<lambda>cn. Inr (Left cn))
      | Right a \<Rightarrow> res_bind (connect_wrap cw a base) (\<lambda>cn. Inr (Right cn)))"

definition upgraded ::
  "('c negotiate \<Rightarrow> ('c, 'k) conn \<Rightarrow> ('c, 'k) conn result) \<Rightarrow> ('c, 'k) upgrade_conn \<Rightarrow> stack_nonce
     \<Rightarrow> (('c, 'k) conn, ('c, 'k) conn) either result" where
  "upgraded cw c m =
     res_bind (snd (apply_select (Left ()) (apply_stack (uc_left c) m) (apply_stack (uc_right c) m)))
       (\<lambda>ar. connect_either cw (uc_base c) (applied ar))"

definition announce_side :: "side \<Rightarrow> upgrade_handle \<Rightarrow> upgrade_handle" where
  "announce_side sd h = (if current h \<noteq> Some sd then h\<lparr>current := Some sd\<rparr> else h)"

definition try_upgrade ::
  "('c negotiate \<Rightarrow> ('c, 'k) conn \<Rightarrow> ('c, 'k) conn result) \<Rightarrow> stack_nonce
   \<Rightarrow> ('c, 'k) upgrade_conn \<times> upgrade_handle \<Rightarrow> unit result \<times> ('c, 'k) upgrade_conn \<times> upgrade_handle" where
  "try_upgrade cw new_offers ch =
     (case ch of
        (c, h) \<Rightarrow>
          (case upgraded cw c new_offers of
             Inl e \<Rightarrow> (Inl e, c, h)
           | Inr new \<Rightarrow> (Inr (), c\<lparr>uc_current := new\<rparr>, announce_side (side_of new) h)))"

text \<open>Awaiting the stored future.\<close>

definition await_upgrade ::
  "('c negotiate \<Rightarrow> ('c, 'k) conn \<Rightarrow> ('c, 'k) conn result)
   \<Rightarrow> ('c, 'k) upgrade_conn \<times> upgrade_handle \<Rightarrow> unit result \<times> ('c, 'k) upgrade_conn \<times> upgrade_handle" where
  "await_upgrade cw ch =
     (case ch of
        (c, h) \<Rightarrow>
          (case in_progress c of
             None \<Rightarrow> (Inr (), c, h)
           | Some Failed_future \<Rightarrow> (Inl (Panic ''`async fn` resumed after completion''), c, h)
           | Some (Upgrading m) \<Rightarrow>
               (case try_upgrade cw m (c, h) of
                  (Inl e, c1, h1) \<Rightarrow> (Inl e, c1\<lparr>in_progress := Some Failed_future\<rparr>, h1)
                | (Inr _, c1, h1) \<Rightarrow> (Inr (), c1\<lparr>in_progress := None\<rparr>, h1))))"

text \<open>\<open>borrow_and_update\<close>, and starting an upgrade if the announced stack is a new one.\<close>

definition look_at_trigger :: "upgrade_handle \<Rightarrow> ('c, 'k) upgrade_conn \<Rightarrow> ('c, 'k) upgrade_conn" where
  "look_at_trigger h c =
     (let c1 = c\<lparr>seen := version h\<rparr> in
      if trigger h \<noteq> curr_nonce c
      then c1\<lparr>curr_nonce := trigger h, in_progress := Some (Upgrading (trigger h))\<rparr> else c1)"

section \<open>send and recv\<close>

definition upgrade_send ::
  "('c negotiate \<Rightarrow> ('c, 'k) conn \<Rightarrow> ('c, 'k) conn result) \<Rightarrow> (('c, 'k) conn \<Rightarrow> 'd list \<Rightarrow> unit result) \<Rightarrow> bool
   \<Rightarrow> 'd list \<Rightarrow> ('c, 'k) upgrade_conn \<times> upgrade_handle \<Rightarrow> unit result \<times> ('c, 'k) upgrade_conn \<times> upgrade_handle" where
  "upgrade_send cw inner_send listening burst ch =
     (case ch of
        (c, h) \<Rightarrow>
          if in_progress c = None \<and> \<not> listening then (eyre ''channel closed'', c, h)
          else
            let c1 = (if in_progress c = None \<and> seen c \<noteq> version h then look_at_trigger h c else c) in
            (case await_upgrade cw (c1, h) of
               (Inl e, c2, h2) \<Rightarrow> (Inl e, c2, h2)
             | (Inr _, c2, h2) \<Rightarrow> (inner_send (from_either (uc_current c2)) burst, c2, h2)))"

text \<open>
  One turn of the loop of \<open>recv\<close>: either the inner \<open>recv\<close> is ready first, with its slice of the
  private slots, or the upgrade side is. A turn gives the result of \<open>recv\<close>, or \<open>None\<close> for another
  turn; it does not happen while the upgrade side has nothing to do.
\<close>

datatype 'd recv_event =
    Inner "'d option list result"
  | Upgrade_ready

fun taken_slots :: "'d option list \<Rightarrow> 'd list" where
  "taken_slots (Some d # ds) = d # taken_slots ds"
| "taken_slots _ = []"

definition recv_turn ::
  "('c negotiate \<Rightarrow> ('c, 'k) conn \<Rightarrow> ('c, 'k) conn result) \<Rightarrow> bool \<Rightarrow> nat \<Rightarrow> 'd recv_event
   \<Rightarrow> ('c, 'k) upgrade_conn \<times> upgrade_handle
   \<Rightarrow> 'd list result option \<times> ('c, 'k) upgrade_conn \<times> upgrade_handle" where
  "recv_turn cw listening buf_len ev ch =
     (case ch of
        (c, h) \<Rightarrow>
          (case ev of
             Inner (Inl e) \<Rightarrow> (Some (Inl e), c, h)
           | Inner (Inr slots) \<Rightarrow>
               (let got = taken_slots slots in
                (Some (if length got \<le> buf_len then Inr got else Inl (Panic ''index out of bounds'')), c, h))
           | Upgrade_ready \<Rightarrow>
               if in_progress c = None \<and> seen c = version h
               then (if listening then (None, c, h) else (Some (eyre ''sender dropped''), c, h))
               else
                 let c1 = (if in_progress c = None then look_at_trigger h c else c) in
                 (case await_upgrade cw (c1, h) of
                    (Inl e, c2, h2) \<Rightarrow> (Some (Inl (wrap_report ''UpgradeEitherConn could not apply new stack'' e)), c2, h2)
                  | (Inr _, c2, h2) \<Rightarrow> (None, c2, h2))))"

fun upgrade_recv ::
  "('c negotiate \<Rightarrow> ('c, 'k) conn \<Rightarrow> ('c, 'k) conn result) \<Rightarrow> bool \<Rightarrow> nat \<Rightarrow> 'd recv_event list
   \<Rightarrow> ('c, 'k) upgrade_conn \<times> upgrade_handle
   \<Rightarrow> 'd list result option \<times> ('c, 'k) upgrade_conn \<times> upgrade_handle" where
  "upgrade_recv cw listening buf_len [] ch = (None, ch)"
| "upgrade_recv cw listening buf_len (ev # evs) ch =
     (case recv_turn cw listening buf_len ev ch of
        (Some r, ch1) \<Rightarrow> (Some r, ch1)
      | (None, ch1) \<Rightarrow> upgrade_recv cw listening buf_len evs ch1)"

text \<open>Dropping the connection deactivates its handle.\<close>

definition upgrade_drop :: "upgrade_handle \<Rightarrow> upgrade_handle" where
  "upgrade_drop h = h\<lparr>current := None\<rparr>"

section \<open>The current side is the one of the last nonce\<close>

text \<open>
  \<open>in_step cw p0 c\<close>: without a pending upgrade the current side is what the nonce selects, unless that
  nonce is still \<open>p0\<close>, the one the connection was made with (after \<open>apply\<close> has XOR-ed the chosen
  guids into it); a pending upgrade is one to the current nonce. \<open>up_to_date c h\<close>: a connection that
  has seen the last announcement has its nonce.
\<close>

definition in_step ::
  "('c negotiate \<Rightarrow> ('c, 'k) conn \<Rightarrow> ('c, 'k) conn result) \<Rightarrow> stack_nonce \<Rightarrow> ('c, 'k) upgrade_conn \<Rightarrow> bool" where
  "in_step cw p0 c \<longleftrightarrow>
     (case in_progress c of
        None \<Rightarrow> curr_nonce c = p0 \<or> upgraded cw c (curr_nonce c) = Inr (uc_current c)
      | Some (Upgrading m) \<Rightarrow> m = curr_nonce c
      | Some Failed_future \<Rightarrow> True)"

definition up_to_date :: "('c, 'k) upgrade_conn \<Rightarrow> upgrade_handle \<Rightarrow> bool" where
  "up_to_date c h \<longleftrightarrow> (seen c = version h \<and> 0 < version h \<longrightarrow> curr_nonce c = trigger h)"

lemma upgraded_simps [simp]:
  "upgraded cw (c\<lparr>uc_current := x\<rparr>) m = upgraded cw c m"
  "upgraded cw (c\<lparr>seen := v\<rparr>) m = upgraded cw c m"
  "upgraded cw (c\<lparr>curr_nonce := n\<rparr>) m = upgraded cw c m"
  "upgraded cw (c\<lparr>in_progress := p\<rparr>) m = upgraded cw c m"
  by (simp_all add: upgraded_def)

lemma announce_side_simps [simp]:
  "trigger (announce_side sd h) = trigger h" "version (announce_side sd h) = version h"
  by (simp_all add: announce_side_def)

lemma look_at_trigger_simps [simp]:
  "curr_nonce (look_at_trigger h c) = trigger h" "seen (look_at_trigger h c) = version h"
  "upgraded cw (look_at_trigger h c) m = upgraded cw c m"
  by (simp_all add: look_at_trigger_def Let_def)

lemma look_at_trigger_in_step:
  "in_step cw p0 c \<Longrightarrow> in_progress c = None \<Longrightarrow> in_step cw p0 (look_at_trigger h c)"
  by (simp add: look_at_trigger_def in_step_def Let_def)

text \<open>What awaiting a stored upgrade does, by the state of the future.\<close>

lemma await_upgrade_None:
  "in_progress c = None \<Longrightarrow> await_upgrade cw (c, h) = (Inr (), c, h)"
  by (simp add: await_upgrade_def)

lemma await_upgrade_Failed:
  "in_progress c = Some Failed_future
   \<Longrightarrow> await_upgrade cw (c, h) = (Inl (Panic ''`async fn` resumed after completion''), c, h)"
  by (simp add: await_upgrade_def)

lemma await_upgrade_Err:
  "in_progress c = Some (Upgrading m) \<Longrightarrow> upgraded cw c m = Inl e
   \<Longrightarrow> await_upgrade cw (c, h) = (Inl e, c\<lparr>in_progress := Some Failed_future\<rparr>, h)"
  by (simp add: await_upgrade_def try_upgrade_def)

lemma await_upgrade_Ok:
  "in_progress c = Some (Upgrading m) \<Longrightarrow> upgraded cw c m = Inr new
   \<Longrightarrow> await_upgrade cw (c, h)
     = (Inr (), c\<lparr>uc_current := new, in_progress := None\<rparr>, announce_side (side_of new) h)"
  by (simp add: await_upgrade_def try_upgrade_def)

lemmas await_upgrade_simps = await_upgrade_None await_upgrade_Failed await_upgrade_Err await_upgrade_Ok

lemma await_upgrade_in_step:
  assumes "await_upgrade cw (c, h) = (r, c', h')" and "in_step cw p0 c" and "up_to_date c h"
  shows "in_step cw p0 c' \<and> up_to_date c' h' \<and> seen c' = seen c \<and> version h' = version h"
proof -
  consider "in_progress c = None" | "in_progress c = Some Failed_future"
    | m where "in_progress c = Some (Upgrading m)" by (metis not_Some_eq upgrade_future.exhaust)
  then show ?thesis
  proof cases
    case (3 m)
    with assms show ?thesis
      by (cases "upgraded cw c m") (auto simp: await_upgrade_simps in_step_def up_to_date_def)
  qed (use assms in \<open>auto simp: await_upgrade_simps\<close>)
qed

text \<open>The part of \<open>send\<close> and of \<open>recv\<close> that brings the connection up to date.\<close>

definition caught_up :: "bool \<Rightarrow> upgrade_handle \<Rightarrow> ('c, 'k) upgrade_conn \<Rightarrow> ('c, 'k) upgrade_conn" where
  "caught_up look h c = (if in_progress c = None \<and> look then look_at_trigger h c else c)"

lemma caught_up_in_step:
  assumes "in_step cw p0 c" and "up_to_date c h" and "seen c \<le> version h"
  shows "in_step cw p0 (caught_up look h c)" "up_to_date (caught_up look h c) h"
    "seen (caught_up look h c) \<le> version h"
  using assms by (auto simp: caught_up_def look_at_trigger_in_step up_to_date_def)

lemma upgrade_send_alt:
  "upgrade_send cw inner_send listening burst (c, h) =
     (if in_progress c = None \<and> \<not> listening then (eyre ''channel closed'', c, h)
      else (case await_upgrade cw (caught_up (seen c \<noteq> version h) h c, h) of
              (res, c2, h2) \<Rightarrow>
                ((case res of Inl e \<Rightarrow> Inl e | Inr _ \<Rightarrow> inner_send (from_either (uc_current c2)) burst), c2, h2)))"
  by (simp add: upgrade_send_def caught_up_def Let_def split: prod.split sum.split)

lemma recv_turn_upgrade_alt:
  "recv_turn cw listening n Upgrade_ready (c, h) =
     (if in_progress c = None \<and> seen c = version h
      then (if listening then (None, c, h) else (Some (eyre ''sender dropped''), c, h))
      else (case await_upgrade cw (caught_up True h c, h) of
              (res, c2, h2) \<Rightarrow>
                ((case res of
                    Inl e \<Rightarrow> Some (Inl (wrap_report ''UpgradeEitherConn could not apply new stack'' e))
                  | Inr _ \<Rightarrow> None), c2, h2)))"
  by (simp add: recv_turn_def caught_up_def Let_def split: prod.split sum.split)

lemma recv_turn_inner:
  "snd (recv_turn cw listening n (Inner res) ch) = ch"
  by (cases ch; cases res) (simp_all add: recv_turn_def Let_def)

section \<open>Uses of a connection\<close>

text \<open>
  What happens to a connection and its handle: the monitoring task announces a stack, or the
  application sends, or a turn of a \<open>recv\<close> runs, or the future of a \<open>recv\<close> is dropped when it has
  stored an upgrade but not awaited it.
\<close>

datatype 'd use =
    Announce stack_nonce
  | Send "'d list" bool
  | Recv_turn "'d recv_event" nat bool
  | Recv_cancelled

fun use_step ::
  "('c negotiate \<Rightarrow> ('c, 'k) conn \<Rightarrow> ('c, 'k) conn result) \<Rightarrow> (('c, 'k) conn \<Rightarrow> 'd list \<Rightarrow> unit result)
   \<Rightarrow> 'd use \<Rightarrow> ('c, 'k) upgrade_conn \<times> upgrade_handle \<Rightarrow> ('c, 'k) upgrade_conn \<times> upgrade_handle" where
  "use_step cw inner_send (Announce m) ch = (fst ch, switch_to_stack m (snd ch))"
| "use_step cw inner_send (Send burst listening) ch = snd (upgrade_send cw inner_send listening burst ch)"
| "use_step cw inner_send (Recv_turn ev n listening) ch = snd (recv_turn cw listening n ev ch)"
| "use_step cw inner_send Recv_cancelled ch = (caught_up (seen (fst ch) \<noteq> version (snd ch)) (snd ch) (fst ch), snd ch)"

definition upgrade_inv ::
  "('c negotiate \<Rightarrow> ('c, 'k) conn \<Rightarrow> ('c, 'k) conn result) \<Rightarrow> stack_nonce
     \<Rightarrow> ('c, 'k) upgrade_conn \<times> upgrade_handle \<Rightarrow> bool" where
  "upgrade_inv cw p0 ch \<longleftrightarrow>
     in_step cw p0 (fst ch) \<and> up_to_date (fst ch) (snd ch) \<and> seen (fst ch) \<le> version (snd ch)"

lemma upgrade_inv_await:
  assumes "upgrade_inv cw p0 (c, h)"
  shows "upgrade_inv cw p0 (snd (await_upgrade cw (caught_up look h c, h)))"
proof -
  obtain r c2 h2 where a: "await_upgrade cw (caught_up look h c, h) = (r, c2, h2)" by (metis prod_cases3)
  show ?thesis
    using await_upgrade_in_step [OF a] caught_up_in_step [of cw p0 c h look] assms a
    by (simp add: upgrade_inv_def)
qed

lemma use_step_inv:
  assumes "upgrade_inv cw p0 ch"
  shows "upgrade_inv cw p0 (use_step cw inner_send u ch)"
proof (cases u)
  case (Announce m)
  with assms show ?thesis by (auto simp: upgrade_inv_def switch_to_stack_def up_to_date_def)
next
  case (Send burst listening)
  obtain c h where ch: "ch = (c, h)" by (cases ch)
  from upgrade_inv_await [OF assms [unfolded ch], of "seen c \<noteq> version h"] assms show ?thesis
    by (simp add: Send ch upgrade_send_alt case_prod_unfold)
next
  case (Recv_turn ev n listening)
  obtain c h where ch: "ch = (c, h)" by (cases ch)
  show ?thesis
  proof (cases ev)
    case (Inner res)
    with assms Recv_turn show ?thesis by (simp add: recv_turn_inner)
  next
    case Upgrade_ready
    from upgrade_inv_await [OF assms [unfolded ch], of True] assms show ?thesis
      by (simp add: Recv_turn Upgrade_ready ch recv_turn_upgrade_alt case_prod_unfold)
  qed
next
  case Recv_cancelled
  with assms show ?thesis by (auto simp: upgrade_inv_def intro: caught_up_in_step)
qed

lemma uses_inv: "upgrade_inv cw p0 ch \<Longrightarrow> upgrade_inv cw p0 (fold (use_step cw inner_send) us ch)"
  by (induction us arbitrary: ch) (simp_all add: use_step_inv)

text \<open>The saved alternatives and the base connection are never touched.\<close>

lemma upgraded_caught_up [simp]: "upgraded cw (caught_up look h c) m = upgraded cw c m"
  by (simp add: caught_up_def)

lemma upgraded_await [simp]: "upgraded cw (fst (snd (await_upgrade cw (c, h)))) m = upgraded cw c m"
proof -
  consider "in_progress c = None" | "in_progress c = Some Failed_future"
    | n where "in_progress c = Some (Upgrading n)" by (metis not_Some_eq upgrade_future.exhaust)
  then show ?thesis
  proof cases
    case (3 n)
    then show ?thesis by (cases "upgraded cw c n") (simp_all add: await_upgrade_simps)
  qed (simp_all add: await_upgrade_simps)
qed

lemma upgraded_use_step [simp]:
  "upgraded cw (fst (use_step cw inner_send u ch)) m = upgraded cw (fst ch) m"
proof -
  obtain c h where ch: "ch = (c, h)" by (cases ch)
  show ?thesis
  proof (cases u)
    case (Recv_turn ev n listening)
    then show ?thesis
      by (cases ev) (simp_all add: ch recv_turn_inner recv_turn_upgrade_alt case_prod_unfold)
  qed (simp_all add: ch upgrade_send_alt case_prod_unfold)
qed

lemma upgraded_uses: "upgraded cw (fst (fold (use_step cw inner_send) us ch)) m = upgraded cw (fst ch) m"
  by (induction us arbitrary: ch) simp_all

text \<open>A send that succeeds without a stored upgrade has seen the last announcement.\<close>

lemma upgrade_send_seen:
  assumes "upgrade_inv cw p0 (c, h)" and "in_progress c = None"
    and "upgrade_send cw inner_send listening burst (c, h) = (Inr (), c', h')"
  shows "inner_send (from_either (uc_current c')) burst = Inr ()" "in_progress c' = None"
    "seen c' = version h'" "trigger h' = trigger h" "version h' = version h"
proof -
  let ?c1 = "caught_up (seen c \<noteq> version h) h c"
  obtain r c2 h2 where a: "await_upgrade cw (?c1, h) = (r, c2, h2)" by (metis prod_cases3)
  have r: "r = Inr ()" and *: "c' = c2" "h' = h2" and
      s: "inner_send (from_either (uc_current c')) burst = Inr ()"
    using assms(2,3) a by (auto simp: upgrade_send_alt split: if_splits sum.splits)
  have seen1: "seen ?c1 = version h" using assms(2) by (simp add: caught_up_def)
  have fut: "in_progress ?c1 = None \<or> (\<exists>m. in_progress ?c1 = Some (Upgrading m))"
    using assms(2) by (auto simp: caught_up_def look_at_trigger_def Let_def)
  have "in_progress c2 = None \<and> seen c2 = version h2 \<and> trigger h2 = trigger h \<and> version h2 = version h"
  proof (cases "in_progress ?c1")
    case None
    with a seen1 show ?thesis by (auto simp: await_upgrade_None)
  next
    case (Some f)
    with fut obtain m where m: "in_progress ?c1 = Some (Upgrading m)" by auto
    show ?thesis
    proof (cases "upgraded cw ?c1 m")
      case (Inl e)
      with a m r show ?thesis by (simp add: await_upgrade_Err)
    next
      case (Inr new)
      with a m seen1 show ?thesis by (auto simp: await_upgrade_Ok)
    qed
  qed
  with s * show "inner_send (from_either (uc_current c')) burst = Inr ()" "in_progress c' = None"
    "seen c' = version h'" "trigger h' = trigger h" "version h' = version h" by simp_all
qed

text \<open>
  C15: An announced stack is in use from the next send on. After any sequence of announcements, sends,
  turns of \<open>recv\<close> and cancelled \<open>recv\<close>s, if no stored upgrade is left over, a successful send has gone
  to the connection that the last announced nonce selects among the two saved alternatives, connected
  to the original base, unless that nonce is the one the connection was made with.
\<close>

theorem send_follows_announcement:
  assumes "upgrade_conn_of cn 0 = Some c0" and "version h0 = 0"
    and "fold (use_step cw inner_send) us (c0, h0) = (c, h)"
    and "in_progress c = None" and "0 < version h" and "trigger h \<noteq> curr_nonce c0"
    and "upgrade_send cw inner_send listening burst (c, h) = (Inr (), c', h')"
  shows "upgraded cw c0 (trigger h) = Inr (uc_current c')
    \<and> inner_send (from_either (uc_current c')) burst = Inr ()"
proof -
  let ?p0 = "curr_nonce c0"
  have "upgrade_inv cw ?p0 (c0, h0)"
    using assms(1,2) by (cases cn) (auto simp: upgrade_inv_def in_step_def up_to_date_def)
  then have inv: "upgrade_inv cw ?p0 (c, h)" using uses_inv [of cw ?p0 "(c0, h0)" inner_send us] assms(3) by simp
  note seen = upgrade_send_seen [OF inv assms(4,7)]
  have inv': "upgrade_inv cw ?p0 (c', h')"
    using use_step_inv [OF inv, of inner_send "Send burst listening"] assms(7) by simp
  have "curr_nonce c' = trigger h"
    using inv' seen assms(5) by (auto simp: upgrade_inv_def up_to_date_def)
  then have "upgraded cw c' (trigger h) = Inr (uc_current c')"
    using inv' seen assms(6) by (auto simp: upgrade_inv_def in_step_def)
  moreover have "upgraded cw c' (trigger h) = upgraded cw c0 (trigger h)"
    using upgraded_uses [of cw inner_send "us @ [Send burst listening]" "(c0, h0)" "trigger h"] assms(3,7) by simp
  ultimately show ?thesis using seen(1) by simp
qed

definition up_cw :: "nat negotiate \<Rightarrow> (nat, nat) conn \<Rightarrow> (nat, nat) conn result" where
  "up_cw n c = Inr (Conn (unat (neg_guid n)))"

definition up_send :: "(nat, nat) conn \<Rightarrow> nat list \<Rightarrow> unit result" where
  "up_send c burst = (if c = Conn 0x32 then Inr () else eyre ''not the upgraded connection'')"

definition up_conn :: "(nat, nat) upgrade_conn" where
  "up_conn = \<lparr>uc_left = Leaf up_a, uc_right = Leaf up_b, uc_base = Conn 0, uc_current = Left (Conn 0x31),
     seen = 0, curr_nonce = xor_layers [up_a] (leaf_offer up_ser up_a), in_progress = None\<rparr>"

theorem send_follows_announcement_witness:
  "upgraded up_cw up_conn (leaf_offer up_ser up_b) = Inr (Right (Conn 0x32)) \<and> up_send (Conn 0x32) [5] = Inr ()"
proof -
  let ?h = "(up_table 0)\<lparr>trigger := leaf_offer up_ser up_b, version := 1\<rparr>"
  let ?c' = "up_conn\<lparr>uc_current := Right (Conn 0x32), seen := 1, curr_nonce := leaf_offer up_ser up_b\<rparr>"
  have made: "upgrade_conn_of (UpgradeConn 0 (Leaf up_a) (Leaf up_b) (Conn 0) (Left (Conn 0x31)) (xor_layers [up_a] (leaf_offer up_ser up_a))) 0
      = Some up_conn"
    by (simp add: up_conn_def)
  have fresh: "version (up_table 0) = 0" by (simp add: up_table_def handle_new_def)
  have run: "fold (use_step up_cw up_send) [Announce (leaf_offer up_ser up_b)] (up_conn, up_table 0) = (up_conn, ?h)"
    by code_simp
  have sent: "upgrade_send up_cw up_send True [5] (up_conn, ?h) = (Inr (), ?c', ?h\<lparr>current := Some (Right ())\<rparr>)"
    by code_simp
  have new: "leaf_offer up_ser up_b \<noteq> curr_nonce up_conn" by code_simp
  have "in_progress up_conn = None" by (simp add: up_conn_def)
  from send_follows_announcement [OF made fresh run this _ _ sent] new show ?thesis by simp
qed

section \<open>A failed upgrade\<close>

lemma use_step_failed:
  assumes "in_progress (fst ch) = Some Failed_future"
  shows "in_progress (fst (use_step cw inner_send u ch)) = Some Failed_future"
proof -
  obtain c h where ch: "ch = (c, h)" by (cases ch)
  with assms have f: "in_progress c = Some Failed_future" by simp
  show ?thesis
  proof (cases u)
    case (Recv_turn ev n listening)
    then show ?thesis
      by (cases ev) (simp_all add: ch f recv_turn_inner recv_turn_upgrade_alt caught_up_def await_upgrade_Failed)
  qed (simp_all add: ch f upgrade_send_alt caught_up_def await_upgrade_Failed)
qed

lemma uses_failed:
  "in_progress (fst ch) = Some Failed_future
   \<Longrightarrow> in_progress (fst (fold (use_step cw inner_send) us ch)) = Some Failed_future"
  by (induction us arbitrary: ch) (simp_all add: use_step_failed)

lemma upgrade_send_failed:
  "in_progress (fst ch) = Some Failed_future \<Longrightarrow> panics (fst (upgrade_send cw inner_send listening burst ch))"
  by (cases ch) (simp add: upgrade_send_alt caught_up_def await_upgrade_Failed)

text \<open>
  A failed upgrade ends the sending side of the connection. If the announced stack cannot be
  applied, the send that tries it returns the error, and whatever happens afterwards, new announcements
  included, every later send panics, since the failed future is still stored and is polled again.
\<close>

lemma failed_upgrade_is_final:
  assumes "in_progress c = None" and "seen c \<noteq> version h" and "trigger h \<noteq> curr_nonce c"
    and "upgraded cw c (trigger h) = Inl e"
    and "upgrade_send cw inner_send True burst (c, h) = (r, ch)"
  shows "r = Inl e \<and> panics (fst (upgrade_send cw inner_send listening later (fold (use_step cw inner_send) us ch)))"
proof -
  let ?c1 = "look_at_trigger h c"
  have "in_progress ?c1 = Some (Upgrading (trigger h))"
    using assms(3) by (simp add: look_at_trigger_def Let_def)
  then have "await_upgrade cw (?c1, h) = (Inl e, ?c1\<lparr>in_progress := Some Failed_future\<rparr>, h)"
    using assms(4) by (simp add: await_upgrade_Err)
  then have "r = Inl e" "in_progress (fst ch) = Some Failed_future"
    using assms(1,2,5) by (auto simp: upgrade_send_alt caught_up_def)
  then show ?thesis by (simp add: upgrade_send_failed uses_failed)
qed

text \<open>
  What the monitoring task checks before it announces a stack does not exclude such a failure: an
  alternative of two chunnels, one of which has no counterpart in the new stack, is compatible with it
  but cannot be applied.
\<close>

definition up_extra :: "nat negotiate" where
  "up_extra = \<lparr>neg_guid = 0x33, cap_guid = 9, universe = None, capabilities = []\<rparr>"

definition up_partial :: "(nat, nat) upgrade_conn" where
  "up_partial = up_conn\<lparr>uc_right := CxList (Leaf up_b) (Leaf up_extra)\<rparr>"

definition up_partial_handle :: upgrade_handle where
  "up_partial_handle =
     (handle_new up_ser (Leaf up_a) (CxList (Leaf up_b) (Leaf up_extra)))
       \<lparr>current := Some (Left ()), trigger := leaf_offer up_ser up_b, version := 1\<rparr>"

definition up_partial_error :: failure where
  "up_partial_error =
     (case upgraded up_cw up_partial (leaf_offer up_ser up_b) of Inl e \<Rightarrow> e | Inr _ \<Rightarrow> Panic '''')"

lemma compatible_but_not_applicable:
  "check_compatibility up_partial_handle (leaf_offer up_ser up_b)"
  "is_ok (upgraded up_cw up_partial (leaf_offer up_ser up_b)) = False"
  by code_simp+

lemma failed_upgrade_is_final_example:
  "panics (fst (upgrade_send up_cw up_send True [6]
     (use_step up_cw up_send (Announce (leaf_offer up_ser up_a))
       (snd (upgrade_send up_cw up_send True [5] (up_partial, up_partial_handle))))))"
proof -
  let ?r = "upgrade_send up_cw up_send True [5] (up_partial, up_partial_handle)"
  have "in_progress up_partial = None" "seen up_partial = 0"
    by (simp_all add: up_partial_def up_conn_def)
  moreover have "version up_partial_handle = 1" "trigger up_partial_handle = leaf_offer up_ser up_b"
    by (simp_all add: up_partial_handle_def)
  moreover have "leaf_offer up_ser up_b \<noteq> curr_nonce up_partial" by code_simp
  moreover have "upgraded up_cw up_partial (leaf_offer up_ser up_b) = Inl up_partial_error"
    using compatible_but_not_applicable(2) by (simp add: up_partial_error_def is_ok_def split: sum.splits)
  ultimately show ?thesis
    using failed_upgrade_is_final [of up_partial up_partial_handle up_cw up_partial_error up_send "[5]" "fst ?r" "snd ?r"
      True "[6]" "[Announce (leaf_offer up_ser up_a)]"]
    by simp
qed

end
