(* ===== verification/Ordered.thy ===== *)
theory Ordered
  imports Prelude "HOL-Library.Multiset"
begin

text \<open>
  The ordering chunnel (\<open>OrderedCn\<close> of \<open>bertha/src/tagger.rs\<close>). The sender numbers the messages
  to each address; the receiver returns them in the order of their numbers and keeps those that
  arrive early in a min-heap.

  \<open>BinaryHeap\<close> is a list sorted by sequence number. The interface \<open>seq_heap\<close> states what the code
  relies on. The iteration order of the \<open>DashMap\<close> is a parameter \<open>iter\<close>. Sequence numbers are
  \<open>u32\<close> and wrap, as they do in a release build.
\<close>

section \<open>The heap of early packets\<close>

text \<open>A min-heap on the sequence number: \<open>Ord\<close> of \<open>DataPair\<close> is the reverse order on \<open>.0\<close>.\<close>

type_synonym 'd heap = "(u32 \<times> 'd) list"

fun heap_push :: "u32 \<times> 'd \<Rightarrow> 'd heap \<Rightarrow> 'd heap" where
  "heap_push x [] = [x]"
| "heap_push x (y # ys) = (if fst x < fst y then x # y # ys else y # heap_push x ys)"

definition heap_peek :: "'d heap \<Rightarrow> (u32 \<times> 'd) option" where
  "heap_peek h = (case h of [] \<Rightarrow> None | x # _ \<Rightarrow> Some x)"

definition heap_pop :: "'d heap \<Rightarrow> ((u32 \<times> 'd) \<times> 'd heap) option" where
  "heap_pop h = (case h of [] \<Rightarrow> None | x # xs \<Rightarrow> Some (x, xs))"

locale seq_heap =
  fixes ok :: "'h \<Rightarrow> bool"
    and content :: "'h \<Rightarrow> (u32 \<times> 'd) multiset"
    and push :: "u32 \<times> 'd \<Rightarrow> 'h \<Rightarrow> 'h"
    and pop :: "'h \<Rightarrow> ((u32 \<times> 'd) \<times> 'h) option"
  assumes push_ok: "ok h \<Longrightarrow> ok (push x h)"
    and push_content: "content (push x h) = add_mset x (content h)"
    and pop_None: "pop h = None \<longleftrightarrow> content h = {#}"
    and pop_ok: "ok h \<Longrightarrow> pop h = Some (x, h') \<Longrightarrow> ok h'"
    and pop_content: "pop h = Some (x, h') \<Longrightarrow> content h = add_mset x (content h')"
    and pop_min: "ok h \<Longrightarrow> pop h = Some (x, h') \<Longrightarrow> y \<in># content h' \<Longrightarrow> fst x \<le> fst y"
begin

text \<open>Popping until the heap is empty yields all entries in order.\<close>

inductive drains :: "'h \<Rightarrow> (u32 \<times> 'd) list \<Rightarrow> bool" where
  drained: "pop h = None \<Longrightarrow> drains h []"
| drain: "pop h = Some (x, h') \<Longrightarrow> drains h' xs \<Longrightarrow> drains h (x # xs)"

lemma drains_content: "drains h xs \<Longrightarrow> mset xs = content h"
  by (induction rule: drains.induct) (auto simp: pop_None pop_content)

lemma drains_sorted: "drains h xs \<Longrightarrow> ok h \<Longrightarrow> sorted (map fst xs)"
proof (induction rule: drains.induct)
  case (drain h x h' xs)
  moreover have "\<forall>y \<in> set xs. fst x \<le> fst y"
    using pop_min [OF drain.prems drain.hyps(1)] drains_content [OF drain.hyps(2)]
    by (metis set_mset_mset)
  ultimately show ?case using pop_ok by auto
qed simp

lemma push_membership: "y \<in># content (push x h) \<longleftrightarrow> y = x \<or> y \<in># content h"
  by (simp add: push_content)

end

lemma mset_heap_push: "mset (heap_push x h) = add_mset x (mset h)"
  by (induction h) auto

lemma set_heap_push: "set (heap_push x h) = insert x (set h)"
  by (induction h) auto

lemma sorted_heap_push: "sorted (map fst h) \<Longrightarrow> sorted (map fst (heap_push x h))"
  by (induction h) (auto simp: set_heap_push)

interpretation sorted_heap: seq_heap "\<lambda>h. sorted (map fst h)" mset heap_push heap_pop
  by unfold_locales
     (auto simp: sorted_heap_push mset_heap_push heap_pop_def split: list.splits)

section \<open>State and operations\<close>

record 'd ordered_state =
  snd_nxt :: u32
  expected_recv :: u32
  recvd :: "'d heap"

definition default_ordered_state :: "'d ordered_state" where
  "default_ordered_state = \<lparr>snd_nxt = 0, expected_recv = 0, recvd = []\<rparr>"

type_synonym ('a, 'd) ordered_map = "'a \<Rightarrow> ('a \<times> 'd) ordered_state option"

definition entry_or_default :: "'a \<Rightarrow> ('a, 'd) ordered_map \<Rightarrow> ('a \<times> 'd) ordered_state" where
  "entry_or_default a m = (case m a of Some st \<Rightarrow> st | None \<Rightarrow> default_ordered_state)"

text \<open>\<open>send\<close>: the tagged messages that go to \<open>inner.send\<close>, and the new state.\<close>

definition tag_one ::
  "'a \<times> 'd \<Rightarrow> ('a, 'd) ordered_map \<Rightarrow> ('a \<times> u32 \<times> 'd) \<times> ('a, 'd) ordered_map" where
  "tag_one msg m =
     (let addr = fst msg; st = entry_or_default addr m; seq = snd_nxt st in
      ((addr, seq, snd msg), m(addr \<mapsto> st\<lparr>snd_nxt := seq + 1\<rparr>)))"

fun ordered_send ::
  "('a, 'd) ordered_map \<Rightarrow> ('a \<times> 'd) list \<Rightarrow> ('a \<times> u32 \<times> 'd) list \<times> ('a, 'd) ordered_map" where
  "ordered_send m [] = ([], m)"
| "ordered_send m (msg # burst) =
     (case tag_one msg m of (x, m1) \<Rightarrow> apfst ((#) x) (ordered_send m1 burst))"

text \<open>
  The body of the scan over the map: pop the head of the heap if it is the expected packet or if
  the hole before it is larger than the threshold.
\<close>

definition should_pop :: "u32 option \<Rightarrow> 'd ordered_state \<Rightarrow> u32 \<Rightarrow> bool" where
  "should_pop hole_thresh st seq =
     (seq = expected_recv st
      \<or> (case hole_thresh of Some thresh \<Rightarrow> expected_recv st + thresh < seq | None \<Rightarrow> False))"

definition pop_state :: "u32 option \<Rightarrow> 'd ordered_state \<Rightarrow> ('d \<times> 'd ordered_state) option" where
  "pop_state hole_thresh st =
     (case heap_pop (recvd st) of
        Some ((seq, body), rest) \<Rightarrow>
          (if should_pop hole_thresh st seq
           then Some (body, st\<lparr>expected_recv := seq + 1, recvd := rest\<rparr>)
           else None)
      | None \<Rightarrow> None)"

fun scan ::
  "u32 option \<Rightarrow> 'a list \<Rightarrow> ('a, 'd) ordered_map \<Rightarrow> (('a \<times> 'd) \<times> ('a, 'd) ordered_map) option" where
  "scan hole_thresh [] m = None"
| "scan hole_thresh (a # as) m =
     (case Option.bind (m a) (pop_state hole_thresh) of
        Some (body, st) \<Rightarrow> Some (body, m(a \<mapsto> st))
      | None \<Rightarrow> scan hole_thresh as m)"

text \<open>The \<open>'peel\<close> loop with \<open>n\<close> free slots: scan and restart until nothing can be popped.\<close>

fun peel ::
  "u32 option \<Rightarrow> (('a, 'd) ordered_map \<Rightarrow> 'a list) \<Rightarrow> nat \<Rightarrow> ('a, 'd) ordered_map
     \<Rightarrow> ('a \<times> 'd) list \<times> ('a, 'd) ordered_map" where
  "peel hole_thresh iter 0 m = ([], m)"
| "peel hole_thresh iter (Suc n) m =
     (case scan hole_thresh (iter m) m of
        None \<Rightarrow> ([], m)
      | Some (body, m1) \<Rightarrow> apfst ((#) body) (peel hole_thresh iter n m1))"

text \<open>
  One received packet, then the loop over a received slice, which stops at the first empty slot.
  \<open>n\<close> is the number of slots still free; writing past them is an index panic.
\<close>

definition recv_packet ::
  "'a \<times> u32 \<times> 'd \<Rightarrow> ('a, 'd) ordered_map \<Rightarrow> ('a \<times> 'd) list \<times> ('a, 'd) ordered_map" where
  "recv_packet pkt m =
     (let src = fst pkt; seq = fst (snd pkt); data = snd (snd pkt); st = entry_or_default src m in
      if seq = expected_recv st
      then ([(src, data)], m(src \<mapsto> st\<lparr>expected_recv := expected_recv st + 1\<rparr>))
      else if seq > expected_recv st
      then ([], m(src \<mapsto> st\<lparr>recvd := heap_push (seq, (src, data)) (recvd st)\<rparr>))
      else ([], m(src \<mapsto> st)))"

fun fill ::
  "nat \<Rightarrow> ('a \<times> u32 \<times> 'd) option list \<Rightarrow> ('a, 'd) ordered_map
     \<Rightarrow> ('a \<times> 'd) list result \<times> ('a, 'd) ordered_map" where
  "fill n [] m = (Inr [], m)"
| "fill n (None # _) m = (Inr [], m)"
| "fill n (Some pkt # pkts) m =
     (case recv_packet pkt m of
        ([], m1) \<Rightarrow> fill n pkts m1
      | (out, m1) \<Rightarrow>
          (if n = 0 then (Inl (Panic ''index out of bounds''), m1)
           else apfst (\<lambda>r. res_bind r (\<lambda>rest. Inr (out @ rest))) (fill (n - 1) pkts m1)))"

text \<open>
  \<open>recv\<close> with a buffer of \<open>n\<close> slots; \<open>rs\<close> are the results of the calls of \<open>inner.recv\<close>. The
  result is \<open>None\<close> while it waits for another one.
\<close>

fun ordered_recv ::
  "u32 option \<Rightarrow> (('a, 'd) ordered_map \<Rightarrow> 'a list) \<Rightarrow> nat \<Rightarrow> ('a, 'd) ordered_map
     \<Rightarrow> ('a \<times> u32 \<times> 'd) option list result list
     \<Rightarrow> ('a \<times> 'd) list result option \<times> ('a, 'd) ordered_map" where
  "ordered_recv hole_thresh iter n m rs =
     (if n = 0 then (Some (Inr []), m)
      else case peel hole_thresh iter n m of
        (b # bs, m1) \<Rightarrow> (Some (Inr (b # bs)), m1)
      | ([], m1) \<Rightarrow>
          (case rs of
             [] \<Rightarrow> (None, m1)
           | Inl e # _ \<Rightarrow> (Some (Inl e), m1)
           | Inr msgs # rs' \<Rightarrow>
               (case fill n msgs m1 of
                  (Inl e, m2) \<Rightarrow> (Some (Inl e), m2)
                | (Inr [], m2) \<Rightarrow> ordered_recv hole_thresh iter n m2 rs'
                | (Inr (b # bs), m2) \<Rightarrow> (Some (Inr (b # bs)), m2))))"

declare ordered_recv.simps [simp del]

section \<open>Runs of a connection\<close>

datatype ('a, 'd) ordered_op =
    SendBurst "('a \<times> 'd) list"
  | RecvInto nat "('a \<times> u32 \<times> 'd) option list result list"

fun delivered_by :: "('a \<times> 'd) list result option \<Rightarrow> ('a \<times> 'd) list" where
  "delivered_by (Some (Inr ds)) = ds"
| "delivered_by _ = []"

fun ordered_run ::
  "u32 option \<Rightarrow> (('a, 'd) ordered_map \<Rightarrow> 'a list) \<Rightarrow> ('a, 'd) ordered_map \<Rightarrow> ('a, 'd) ordered_op list
     \<Rightarrow> ('a \<times> 'd) list \<times> ('a, 'd) ordered_map" where
  "ordered_run th iter m [] = ([], m)"
| "ordered_run th iter m (SendBurst burst # ops) = ordered_run th iter (snd (ordered_send m burst)) ops"
| "ordered_run th iter m (RecvInto n rs # ops) =
     (case ordered_recv th iter n m rs of
        (r, m1) \<Rightarrow> apfst ((@) (delivered_by r)) (ordered_run th iter m1 ops))"

text \<open>
  What the network may do: deliver any packets in any order and number, as long as a packet from
  \<open>a\<close> with number \<open>s\<close> carries the payload \<open>f a s\<close> that \<open>a\<close> gave that number, and \<open>recv\<close> fills no
  more slots than it was given.
\<close>

definition genuine :: "('a \<Rightarrow> u32 \<Rightarrow> 'd) \<Rightarrow> ('a \<times> u32 \<times> 'd) option list \<Rightarrow> bool" where
  "genuine f pkts \<longleftrightarrow> list_all (\<lambda>p. case p of None \<Rightarrow> True | Some (a, s, d) \<Rightarrow> d = f a s) pkts"

fun genuine_op :: "('a \<Rightarrow> u32 \<Rightarrow> 'd) \<Rightarrow> ('a, 'd) ordered_op \<Rightarrow> bool" where
  "genuine_op f (SendBurst _) = True"
| "genuine_op f (RecvInto n rs) =
     list_all (\<lambda>r. case r of Inl e \<Rightarrow> True | Inr ms \<Rightarrow> genuine f ms \<and> length ms \<le> n) rs"

text \<open>
  The receiving side of one address after \<open>n\<close> deliveries, and a transition that delivers \<open>ds\<close>: the
  part of \<open>ds\<close> from \<open>a\<close> continues the sequence of \<open>a\<close>'s payloads.
\<close>

definition receiver :: "('a \<Rightarrow> u32 \<Rightarrow> 'd) \<Rightarrow> 'a \<Rightarrow> ('a, 'd) ordered_map \<Rightarrow> nat \<Rightarrow> bool" where
  "receiver f a m n \<longleftrightarrow>
     (case m a of
        None \<Rightarrow> n = 0
      | Some st \<Rightarrow> expected_recv st = of_nat n
          \<and> (\<forall>(s, b) \<in> set (recvd st). b = (a, f a s)))"

abbreviation deliveries :: "'a \<Rightarrow> ('a \<times> 'd) list \<Rightarrow> 'd list" where
  "deliveries a ds \<equiv> map snd (filter (\<lambda>x. fst x = a) ds)"

definition payloads :: "('a \<Rightarrow> u32 \<Rightarrow> 'd) \<Rightarrow> 'a \<Rightarrow> nat \<Rightarrow> nat \<Rightarrow> 'd list" where
  "payloads f a i j = map (\<lambda>k. f a (of_nat k)) [i..<j]"

definition after :: "('a \<Rightarrow> nat) \<Rightarrow> ('a \<times> 'd) list \<Rightarrow> 'a \<Rightarrow> nat" where
  "after cnt ds a = cnt a + length (filter (\<lambda>x. fst x = a) ds)"

definition continues ::
  "('a \<Rightarrow> u32 \<Rightarrow> 'd) \<Rightarrow> ('a \<Rightarrow> nat) \<Rightarrow> ('a \<times> 'd) list \<Rightarrow> ('a, 'd) ordered_map \<Rightarrow> bool" where
  "continues f cnt ds m' \<longleftrightarrow>
     (\<forall>a. receiver f a m' (after cnt ds a) \<and> deliveries a ds = payloads f a (cnt a) (after cnt ds a))"

lemma after_simps [simp]:
  "after cnt [] = cnt"
  "after (after cnt ds) es = after cnt (ds @ es)"
  by (auto simp: after_def)

lemma continues_refl: "(\<And>a. receiver f a m (cnt a)) \<Longrightarrow> continues f cnt [] m"
  by (simp add: continues_def payloads_def)

lemma continues_receiver: "continues f cnt ds m \<Longrightarrow> receiver f a m (after cnt ds a)"
  by (simp add: continues_def)

lemma continues_trans:
  assumes "continues f cnt ds m1" and "continues f (after cnt ds) es m2"
  shows "continues f cnt (ds @ es) m2"
  unfolding continues_def
proof (intro allI conjI)
  fix a
  have "payloads f a i j @ payloads f a j (j + k) = payloads f a i (j + k)" if "i \<le> j" for i j k
    unfolding payloads_def using that by (simp flip: map_append upt_add_eq_append)
  from this [of "cnt a" "after cnt ds a"]
  have "payloads f a (cnt a) (after cnt ds a) @ payloads f a (after cnt ds a) (after cnt (ds @ es) a)
      = payloads f a (cnt a) (after cnt (ds @ es) a)"
    by (simp add: after_def add.assoc)
  with assms show "deliveries a (ds @ es) = payloads f a (cnt a) (after cnt (ds @ es) a)"
    by (simp add: continues_def)
  show "receiver f a m2 (after cnt (ds @ es) a)"
    using assms(2) by (simp add: continues_def)
qed

text \<open>One delivery, or a change that delivers nothing, at one address.\<close>

lemma continues_deliver:
  assumes "\<And>a. receiver f a m (cnt a)"
    and "receiver f a (m(a \<mapsto> st)) (Suc (cnt a))" and "d = f a (of_nat (cnt a))"
  shows "continues f cnt [(a, d)] (m(a \<mapsto> st))"
  unfolding continues_def
proof
  fix b
  show "receiver f b (m(a \<mapsto> st)) (after cnt [(a, d)] b)
      \<and> deliveries b [(a, d)] = payloads f b (cnt b) (after cnt [(a, d)] b)"
    using assms(2,3) assms(1) [of b]
    by (cases "a = b") (simp_all add: payloads_def after_def receiver_def)
qed

lemma continues_silent:
  assumes "\<And>a. receiver f a m (cnt a)" and "receiver f a (m(a \<mapsto> st)) (cnt a)"
  shows "continues f cnt [] (m(a \<mapsto> st))"
proof (rule continues_refl)
  fix b show "receiver f b (m(a \<mapsto> st)) (cnt b)"
    using assms(2) assms(1) [of b] by (cases "a = b") (simp_all add: receiver_def)
qed

lemma receiver_entry:
  "receiver f a m n \<Longrightarrow> expected_recv (entry_or_default a m) = of_nat n
     \<and> (\<forall>(s, b) \<in> set (recvd (entry_or_default a m)). b = (a, f a s))"
  by (auto simp: receiver_def entry_or_default_def default_ordered_state_def split: option.splits)

section \<open>In-order delivery without a threshold\<close>

lemma tag_one_continues:
  assumes "\<And>a. receiver f a m (cnt a)" and "tag_one msg m = (x, m1)"
  shows "continues f cnt [] m1"
proof -
  note st = receiver_entry [OF assms(1) [of "fst msg"]]
  have "m1 = m(fst msg \<mapsto> (entry_or_default (fst msg) m)\<lparr>snd_nxt := snd_nxt (entry_or_default (fst msg) m) + 1\<rparr>)"
    using assms(2) by (auto simp: tag_one_def Let_def)
  then show ?thesis
    using st by (auto intro!: continues_silent [OF assms(1)] simp: receiver_def)
qed

lemma ordered_send_continues:
  "(\<And>a. receiver f a m (cnt a)) \<Longrightarrow> continues f cnt [] (snd (ordered_send m burst))"
proof (induction burst arbitrary: m)
  case (Cons msg burst)
  obtain x m1 where x: "tag_one msg m = (x, m1)" by (cases "tag_one msg m")
  have "receiver f a m1 (cnt a)" for a
    using continues_receiver [OF tag_one_continues [OF Cons.prems x]] by simp
  from Cons.IH [OF this] x show ?case by simp
qed (simp add: continues_refl)

lemma recv_packet_continues:
  assumes inv: "\<And>a. receiver f a m (cnt a)" and "recv_packet (a, s, f a s) m = (out, m1)"
  shows "continues f cnt out m1"
proof -
  let ?st = "entry_or_default a m"
  note st = receiver_entry [OF inv [of a]]
  consider (deliver) "s = expected_recv ?st" "out = [(a, f a s)]"
      "m1 = m(a \<mapsto> ?st\<lparr>expected_recv := expected_recv ?st + 1\<rparr>)"
    | (early) "out = []" "m1 = m(a \<mapsto> ?st\<lparr>recvd := heap_push (s, (a, f a s)) (recvd ?st)\<rparr>)"
    | (late) "out = []" "m1 = m(a \<mapsto> ?st)"
    using assms(2) by (auto simp: recv_packet_def Let_def split: if_splits)
  then show ?thesis
  proof cases
    case deliver
    with st have "continues f cnt [(a, f a s)] (m(a \<mapsto> ?st\<lparr>expected_recv := expected_recv ?st + 1\<rparr>))"
      by (intro continues_deliver [OF inv]) (auto simp: receiver_def)
    with deliver show ?thesis by simp
  next
    case early
    with st show ?thesis
      by (auto intro!: continues_silent [OF inv] simp: receiver_def set_heap_push)
  next
    case late
    with st show ?thesis
      by (auto intro!: continues_silent [OF inv] simp: receiver_def)
  qed
qed

lemma fill_continues:
  "genuine f pkts \<Longrightarrow> (\<And>a. receiver f a m (cnt a)) \<Longrightarrow> fill n pkts m = (Inr out, m1)
     \<Longrightarrow> continues f cnt out m1"
proof (induction n pkts m arbitrary: cnt out m1 rule: fill.induct)
  case (3 n pkt pkts m)
  obtain a s d where pkt: "pkt = (a, s, d)" by (cases pkt)
  with "3.prems"(1) have d: "d = f a s" and gen: "genuine f pkts" by (auto simp: genuine_def)
  obtain o1 m2 where o1: "recv_packet pkt m = (o1, m2)" by (cases "recv_packet pkt m")
  have c1: "continues f cnt o1 m2"
    using recv_packet_continues [OF "3.prems"(2)] o1 pkt d by blast
  have inv2: "receiver f a m2 (after cnt o1 a)" for a using continues_receiver [OF c1] .
  show ?case
  proof (cases o1)
    case Nil
    with "3.prems"(3) o1 have "fill n pkts m2 = (Inr out, m1)" by simp
    with "3.IH"(1) [OF o1 [symmetric] Nil gen inv2] continues_trans [OF c1, of out m1] Nil
    show ?thesis by simp
  next
    case (Cons b bs)
    with "3.prems"(3) o1 obtain rest where rest: "fill (n - 1) pkts m2 = (Inr rest, m1)" "out = o1 @ rest"
      by (cases "fill (n - 1) pkts m2") (auto simp: res_bind_Inr_iff split: if_splits)
    have "n \<noteq> 0" using "3.prems"(3) o1 Cons by (auto split: if_splits)
    with "3.IH"(2) [OF o1 [symmetric] Cons _ gen inv2 rest(1)] continues_trans [OF c1] rest(2)
    show ?thesis by simp
  qed
qed (auto simp: continues_refl)

lemma pop_state_continues:
  assumes inv: "\<And>a. receiver f a m (cnt a)" and st: "m a = Some st" "pop_state None st = Some (b, st')"
  shows "continues f cnt [b] (m(a \<mapsto> st'))"
proof -
  from st(2) obtain s rest where h: "recvd st = (s, b) # rest" "s = expected_recv st"
    "st' = st\<lparr>expected_recv := s + 1, recvd := rest\<rparr>"
    by (auto simp: pop_state_def heap_pop_def should_pop_def split: option.splits list.splits if_splits)
  with inv [of a] st(1) have "b = (a, f a s)" "s = of_nat (cnt a)"
    "receiver f a (m(a \<mapsto> st')) (Suc (cnt a))" by (auto simp: receiver_def)
  then show ?thesis using continues_deliver [OF inv] by simp
qed

lemma scan_continues:
  assumes inv: "\<And>a. receiver f a m (cnt a)"
  shows "scan None as m = Some (b, m1) \<Longrightarrow> continues f cnt [b] m1"
proof (induction as)
  case (Cons a as)
  show ?case
  proof (cases "Option.bind (m a) (pop_state None)")
    case (Some r)
    with Cons.prems obtain st st' where "m a = Some st" "pop_state None st = Some (b, st')" "m1 = m(a \<mapsto> st')"
      by (cases "m a"; cases r) auto
    with pop_state_continues [OF inv] show ?thesis by blast
  qed (use Cons in simp)
qed simp

lemma peel_continues:
  "(\<And>a. receiver f a m (cnt a)) \<Longrightarrow> peel None iter n m = (ds, m1) \<Longrightarrow> continues f cnt ds m1"
proof (induction n arbitrary: m cnt ds)
  case (Suc n)
  show ?case
  proof (cases "scan None (iter m) m")
    case None
    with Suc.prems show ?thesis by (auto intro: continues_refl)
  next
    case (Some r)
    then obtain b m2 where r: "scan None (iter m) m = Some (b, m2)" by (cases r) auto
    note c = scan_continues [OF Suc.prems(1) r]
    obtain es where es: "peel None iter n m2 = (es, m1)" "ds = b # es"
      using Suc.prems(2) r by (cases "peel None iter n m2") auto
    from Suc.IH [OF continues_receiver [OF c] es(1)] continues_trans [OF c, of es m1] es(2)
    show ?thesis by simp
  qed
qed (simp add: continues_refl)

text \<open>Writing into the buffer stays within its bounds, because \<open>inner.recv\<close> was given as many slots.\<close>

lemma recv_packet_le: "recv_packet pkt m = (out, m1) \<Longrightarrow> length out \<le> 1"
  by (auto simp: recv_packet_def Let_def split: if_splits)

lemma fill_in_bounds: "length pkts \<le> n \<Longrightarrow> \<exists>out. fst (fill n pkts m) = Inr out \<and> length out \<le> length pkts"
proof (induction n pkts m rule: fill.induct)
  case (3 n pkt pkts m)
  obtain o1 m2 where o1: "recv_packet pkt m = (o1, m2)" by (cases "recv_packet pkt m")
  show ?case
  proof (cases o1)
    case Nil
    with "3.IH"(1) [OF o1 [symmetric] Nil] "3.prems" o1 show ?thesis by fastforce
  next
    case (Cons b bs)
    from "3.prems" have n: "n \<noteq> 0" "length pkts \<le> n - 1" by auto
    with "3.IH"(2) [OF o1 [symmetric] Cons] obtain rest where
      "fst (fill (n - 1) pkts m2) = Inr rest" "length rest \<le> length pkts" by auto
    with recv_packet_le [OF o1] n o1 Cons show ?thesis by auto
  qed
qed auto

lemma ordered_recv_continues:
  "(\<And>a. receiver f a m (cnt a)) \<Longrightarrow> genuine_op f (RecvInto n rs) \<Longrightarrow> ordered_recv None iter n m rs = (r, m1)
     \<Longrightarrow> continues f cnt (delivered_by r) m1"
proof (induction rs arbitrary: m cnt)
  case Nil
  obtain ds m2 where p: "peel None iter n m = (ds, m2)" by (cases "peel None iter n m")
  from Nil.prems(1,3) p peel_continues [OF Nil.prems(1) p] show ?case
    by (auto simp: ordered_recv.simps [of _ _ _ _ "[]"] split: if_splits list.splits intro: continues_refl)
next
  case (Cons x rs)
  obtain ds m2 where p: "peel None iter n m = (ds, m2)" by (cases "peel None iter n m")
  note c = peel_continues [OF Cons.prems(1) p]
  show ?case
  proof (cases "n = 0 \<or> ds \<noteq> [] \<or> (\<exists>e. x = Inl e)")
    case True
    with Cons.prems(1,3) p c show ?thesis
      by (auto simp: ordered_recv.simps [of _ _ _ _ "_ # _"] split: if_splits list.splits intro: continues_refl)
  next
    case False
    then obtain ms where x: "x = Inr ms" and ne: "n \<noteq> 0" "ds = []" by (cases x) auto
    with Cons.prems(2) have gen: "genuine f ms" "length ms \<le> n" "genuine_op f (RecvInto n rs)" by auto
    from fill_in_bounds [OF gen(2), of m2] obtain out m3 where fl: "fill n ms m2 = (Inr out, m3)"
      by (cases "fill n ms m2") auto
    have inv2: "receiver f a m2 (cnt a)" for a using continues_receiver [OF c] ne by simp
    note c3 = fill_continues [OF gen(1) inv2 fl]
    show ?thesis
    proof (cases out)
      case Nil
      with Cons.prems(3) x ne p fl have "ordered_recv None iter n m3 rs = (r, m1)"
        by (simp add: ordered_recv.simps [of _ _ _ _ "_ # _"])
      moreover have "receiver f a m3 (cnt a)" for a using continues_receiver [OF c3] Nil by simp
      ultimately show ?thesis using Cons.IH [OF _ gen(3)] by blast
    next
      case (Cons b bs)
      with Cons.prems(3) x ne p fl c3 show ?thesis
        by (auto simp: ordered_recv.simps [of _ _ _ _ "_ # _"])
    qed
  qed
qed

lemma ordered_run_continues:
  "(\<And>a. receiver f a m (cnt a)) \<Longrightarrow> list_all (genuine_op f) ops \<Longrightarrow> ordered_run None iter m ops = (ds, m1)
     \<Longrightarrow> continues f cnt ds m1"
proof (induction ops arbitrary: m cnt ds)
  case (Cons op ops)
  show ?case
  proof (cases op)
    case (SendBurst burst)
    let ?m = "snd (ordered_send m burst)"
    have "receiver f a ?m (cnt a)" for a
      using continues_receiver [OF ordered_send_continues [OF Cons.prems(1), of burst]] by simp
    with Cons.IH [of ?m] Cons.prems(2,3) SendBurst show ?thesis by simp
  next
    case (RecvInto n rs)
    obtain r m2 where r: "ordered_recv None iter n m rs = (r, m2)" by (cases "ordered_recv None iter n m rs")
    obtain es where es: "ordered_run None iter m2 ops = (es, m1)" "ds = delivered_by r @ es"
      using Cons.prems(3) r RecvInto by (cases "ordered_run None iter m2 ops") auto
    have c: "continues f cnt (delivered_by r) m2"
      using ordered_recv_continues [OF Cons.prems(1) _ r] Cons.prems(2) RecvInto by simp
    from Cons.IH [OF continues_receiver [OF c] _ es(1)] Cons.prems(2) continues_trans [OF c] es(2)
    show ?thesis by simp
  qed
qed (auto intro: continues_refl)

lemma ordered_send_numbers:
  "map (\<lambda>x. fst (snd x)) (filter (\<lambda>x. fst x = a) (fst (ordered_send m burst)))
     = map (\<lambda>i. snd_nxt (entry_or_default a m) + of_nat i) [0..<length (filter (\<lambda>x. fst x = a) burst)]"
proof (induction burst arbitrary: m)
  case (Cons msg burst)
  obtain b d where msg: "msg = (b, d)" by (cases msg)
  define m1 where "m1 = m(b \<mapsto> (entry_or_default b m)\<lparr>snd_nxt := snd_nxt (entry_or_default b m) + 1\<rparr>)"
  have tag: "tag_one msg m = ((b, snd_nxt (entry_or_default b m), d), m1)"
    by (simp add: tag_one_def Let_def msg m1_def)
  have next_a: "snd_nxt (entry_or_default a m1) = snd_nxt (entry_or_default a m) + (if a = b then 1 else 0)"
    by (simp add: m1_def entry_or_default_def)
  have send: "fst (ordered_send m (msg # burst))
      = (b, snd_nxt (entry_or_default b m), d) # fst (ordered_send m1 burst)"
    by (simp add: tag)
  show ?case
    unfolding send using Cons.IH [of m1] next_a
    by (cases "a = b") (simp_all add: msg map_upt_Suc add.assoc del: upt_Suc)
qed simp

section \<open>Properties\<close>

text \<open>
  C3: In-order delivery. On a connection without a hole threshold, whatever the network loses,
  repeats or reorders, the messages delivered from an address are a prefix of the messages it sent,
  in order and without repetition: the first \<open>n\<close> payloads, where \<open>n\<close> (modulo the width of the
  counter) is the number the receiver expects next.
\<close>

theorem ordered_delivers_prefix:
  assumes "list_all (genuine_op f) ops" and "ordered_run None iter Map.empty ops = (ds, m)"
  shows "\<exists>n. deliveries a ds = map (\<lambda>i. f a (of_nat i)) [0..<n]
     \<and> (\<forall>st. m a = Some st \<longrightarrow> expected_recv st = of_nat n)"
proof -
  have "continues f (\<lambda>_. 0) ds m"
    using assms by (intro ordered_run_continues [of f Map.empty]) (simp_all add: receiver_def)
  then show ?thesis
    unfolding continues_def payloads_def
    by (intro exI [of _ "after (\<lambda>_. 0) ds a"]) (auto simp: receiver_def split: option.splits)
qed

definition ex_ops :: "(nat, nat) ordered_op list" where
  "ex_ops = [RecvInto 4 [Inr [Some (1, 1, 1), Some (1, 0, 0), Some (1, 0, 0)]], RecvInto 4 []]"

theorem ordered_delivers_prefix_witness:
  "deliveries 1 (fst (ordered_run None (\<lambda>_. [1]) Map.empty ex_ops)) = [0, 1]
   \<and> (\<exists>n. deliveries 1 (fst (ordered_run None (\<lambda>_. [1]) Map.empty ex_ops)) = map (\<lambda>i. unat (of_nat i :: u32)) [0..<n])"
proof
  show "deliveries 1 (fst (ordered_run None (\<lambda>_. [1]) Map.empty ex_ops)) = [0, 1]" by code_simp
next
  have gen: "list_all (genuine_op (\<lambda>_ s. unat s)) ex_ops" by code_simp
  show "\<exists>n. deliveries 1 (fst (ordered_run None (\<lambda>_. [1]) Map.empty ex_ops)) = map (\<lambda>i. unat (of_nat i :: u32)) [0..<n]"
    using ordered_delivers_prefix [OF gen, of "\<lambda>_. [1]" _ _ 1]
    by (metis (no_types, lifting) prod.collapse)
qed

text \<open>
  The sender numbers the messages to each address consecutively, from the number its state
  holds, whatever other addresses the burst interleaves.
\<close>

lemma ordered_send_consecutive:
  "map (\<lambda>x. fst (snd x)) (filter (\<lambda>x. fst x = a) (fst (ordered_send m burst)))
     = map (\<lambda>i. snd_nxt (entry_or_default a m) + of_nat i) [0..<length (filter (\<lambda>x. fst x = a) burst)]"
  by (rule ordered_send_numbers)

text \<open>
  A repeated early packet blocks the connection. Packet 2 arrives twice before 0 and 1; the second
  copy stays at the top of the heap with a number below the expected one, so packet 4, which arrives
  before 3, is never delivered although all packets up to 4 have arrived.
\<close>

definition ex_stuck_early :: "(nat, nat) ordered_op list" where
  "ex_stuck_early =
     [RecvInto 4 [Inr [Some (1, 2, 2), Some (1, 2, 2), Some (1, 0, 0), Some (1, 1, 1)]],
      RecvInto 4 [],
      RecvInto 4 [Inr [Some (1, 4, 4), Some (1, 3, 3)]], RecvInto 4 [], RecvInto 4 []]"

lemma repeated_early_packet_blocks_delivery:
  "map snd (fst (ordered_run None (\<lambda>_. [1]) Map.empty ex_stuck_early)) = [0, 1, 2, 3]
   \<and> map_option expected_recv (snd (ordered_run None (\<lambda>_. [1]) Map.empty ex_stuck_early) 1) = Some 4
   \<and> map_option (map fst \<circ> recvd) (snd (ordered_run None (\<lambda>_. [1]) Map.empty ex_stuck_early) 1) = Some [2, 4]"
  by code_simp

end
