(* ===== verification/At_Most_Once.thy ===== *)
theory At_Most_Once
  imports Prelude "HOL-Library.AList"
begin

text \<open>
  At-most-once delivery (\<open>AtMostOnceCn\<close> of \<open>bertha/src/atmostonce.rs\<close>). The receiver remembers the
  numbers it has delivered and forgets those older than \<open>sunset\<close>. Time is a natural number; each
  call of \<open>Instant::now()\<close> that processing a packet makes is a field of \<open>clock\<close>. The \<open>BTreeMap\<close> of
  delivery times is an association list.
\<close>

section \<open>State and operations\<close>

record clock =
  t_insert :: nat
  t_elapsed :: nat
  t_cutoff :: nat
  t_update :: nat

record recv_state =
  last_update :: "nat option"
  deliver_times :: "(nat \<times> u32) list"
  delivered :: "u32 set"

definition default_recv_state :: recv_state where
  "default_recv_state = \<lparr>last_update = None, deliver_times = [], delivered = {}\<rparr>"

text \<open>\<open>BTreeMap::split_off\<close>: the entries at or after the cutoff.\<close>

definition split_off :: "nat \<Rightarrow> (nat \<times> u32) list \<Rightarrow> (nat \<times> u32) list" where
  "split_off cutoff m = filter (\<lambda>e. cutoff \<le> fst e) m"

definition maybe_update :: "nat \<Rightarrow> clock \<Rightarrow> recv_state \<Rightarrow> recv_state" where
  "maybe_update sunset c st =
     (case last_update st of
        None \<Rightarrow> st\<lparr>last_update := Some (t_elapsed c)\<rparr>
      | Some t \<Rightarrow>
          (if t_elapsed c - t > sunset
           then (let new_deliver_times = split_off (t_cutoff c - sunset) (deliver_times st) in
                 st\<lparr>delivered := set (map snd new_deliver_times),
                    deliver_times := new_deliver_times,
                    last_update := Some (t_update c)\<rparr>)
           else st))"

definition is_new :: "nat \<Rightarrow> clock \<Rightarrow> u32 \<Rightarrow> recv_state \<Rightarrow> bool \<times> recv_state" where
  "is_new sunset c seq st =
     (if seq \<notin> delivered st
      then (True, maybe_update sunset c
              (st\<lparr>deliver_times := AList.update (t_insert c) seq (deliver_times st),
                  delivered := insert seq (delivered st)\<rparr>))
      else (False, maybe_update sunset c st))"

text \<open>\<open>send\<close> numbers the messages to each address from 1.\<close>

fun amo_send ::
  "('a \<Rightarrow> u32 option) \<Rightarrow> ('a \<times> 'd) list \<Rightarrow> ('a \<times> u32 \<times> 'd) list \<times> ('a \<Rightarrow> u32 option)" where
  "amo_send next_seq [] = ([], next_seq)"
| "amo_send next_seq ((addr, data) # burst) =
     (let seq = (case next_seq addr of Some n \<Rightarrow> n | None \<Rightarrow> 0) + 1 in
      apfst ((#) (addr, seq, data)) (amo_send (next_seq(addr \<mapsto> seq)) burst))"

type_synonym 'a delivered_msgs = "'a \<Rightarrow> recv_state option"

type_synonym ('a, 'd) packet = "clock \<times> 'a \<times> u32 \<times> 'd"

definition amo_packet ::
  "nat \<Rightarrow> ('a, 'd) packet \<Rightarrow> 'a delivered_msgs \<Rightarrow> bool \<times> 'a delivered_msgs" where
  "amo_packet sunset p m =
     (case p of (c, addr, seq, data) \<Rightarrow>
        (case is_new sunset c seq (case m addr of Some st \<Rightarrow> st | None \<Rightarrow> default_recv_state) of
           (r, st) \<Rightarrow> (r, m(addr \<mapsto> st))))"

text \<open>
  The loop over a received slice with \<open>n\<close> free slots. The third component says whether the loop
  returned from the middle because the buffer was full, with the packets it had not taken.
\<close>

fun amo_fill ::
  "nat \<Rightarrow> nat \<Rightarrow> ('a, 'd) packet option list \<Rightarrow> 'a delivered_msgs
     \<Rightarrow> ('a, 'd) packet list \<times> 'a delivered_msgs \<times> ('a, 'd) packet option list result" where
  "amo_fill sunset n [] m = ([], m, Inr [])"
| "amo_fill sunset n (None # _) m = ([], m, Inr [])"
| "amo_fill sunset n (Some p # ps) m =
     (case amo_packet sunset p m of
        (False, m1) \<Rightarrow> amo_fill sunset n ps m1
      | (True, m1) \<Rightarrow>
          (if n = 0 then ([], m1, Inl (Panic ''index out of bounds''))
           else if n = 1 then ([p], m1, Inr ps)
           else apfst ((#) p) (amo_fill sunset (n - 1) ps m1)))"

fun amo_recv ::
  "nat \<Rightarrow> nat \<Rightarrow> 'a delivered_msgs \<Rightarrow> ('a, 'd) packet option list result list
     \<Rightarrow> ('a, 'd) packet list result option \<times> 'a delivered_msgs" where
  "amo_recv sunset n m [] = (None, m)"
| "amo_recv sunset n m (Inl e # rs) = (Some (Inl e), m)"
| "amo_recv sunset n m (Inr msgs # rs) =
     (case amo_fill sunset n msgs m of
        (_, m1, Inl e) \<Rightarrow> (Some (Inl e), m1)
      | ([], m1, Inr _) \<Rightarrow> amo_recv sunset n m1 rs
      | (p # ps, m1, Inr _) \<Rightarrow> (Some (Inr (p # ps)), m1))"

text \<open>The whole history of packets that one connection processes, and the packets it lets through.\<close>

fun amo_run ::
  "nat \<Rightarrow> 'a delivered_msgs \<Rightarrow> ('a, 'd) packet list \<Rightarrow> ('a, 'd) packet list \<times> 'a delivered_msgs" where
  "amo_run sunset m [] = ([], m)"
| "amo_run sunset m (p # ps) =
     (case amo_packet sunset p m of
        (r, m1) \<Rightarrow> apfst (\<lambda>ds. if r then p # ds else ds) (amo_run sunset m1 ps))"

section \<open>No packet is lost in the buffer\<close>

fun taken :: "'x option list \<Rightarrow> 'x list" where
  "taken (Some p # ps) = p # taken ps"
| "taken _ = []"

lemma length_taken: "length (taken ps) \<le> length ps"
  by (induction ps rule: taken.induct) auto

text \<open>
  With as many slots as packets, a full buffer means that every packet was taken: filling is
  running the packets of the slice, and there is no index panic.
\<close>

lemma amo_fill_run:
  "length ps \<le> n \<Longrightarrow> amo_fill sunset n ps m = (out, m1, r)
     \<Longrightarrow> amo_run sunset m (taken ps) = (out, m1) \<and> is_ok r"
proof (induction ps arbitrary: n m out)
  case (Cons x ps)
  show ?case
  proof (cases x)
    case None
    with Cons.prems show ?thesis by auto
  next
    case (Some p)
    obtain b m2 where b: "amo_packet sunset p m = (b, m2)" by (cases "amo_packet sunset p m")
    show ?thesis
    proof (cases b)
      case False
      with Cons.IH [of n m2 out] Cons.prems b Some show ?thesis by (simp add: apfst_def map_prod_def)
    next
      case True
      show ?thesis
      proof (cases "n = 1")
        case True
        with Cons.prems(1) have "ps = []" by simp
        with True Cons.prems \<open>b\<close> b Some show ?thesis by auto
      next
        case False
        obtain o2 m3 r3 where fl: "amo_fill sunset (n - 1) ps m2 = (o2, m3, r3)"
          by (cases "amo_fill sunset (n - 1) ps m2")
        with False Cons.prems \<open>b\<close> b Some have "out = p # o2" "m3 = m1" "r3 = r" by auto
        with Cons.IH [of "n - 1" m2 o2] fl Cons.prems \<open>b\<close> b Some show ?thesis by auto
      qed
    qed
  qed
qed auto

section \<open>At most one delivery within the horizon\<close>

text \<open>
  The clock of a sequence of packets: it does not go backwards, and, what the association of one
  message to each instant needs, no two packets are stamped with the same \<open>t_insert\<close>.
\<close>

definition clock_ok :: "clock \<Rightarrow> bool" where
  "clock_ok c \<longleftrightarrow> t_insert c \<le> t_elapsed c \<and> t_elapsed c \<le> t_cutoff c \<and> t_cutoff c \<le> t_update c"

fun clocks_ok :: "nat \<Rightarrow> ('a, 'd) packet list \<Rightarrow> bool" where
  "clocks_ok now [] = True"
| "clocks_ok now ((c, _) # ps) = (now < t_insert c \<and> clock_ok c \<and> clocks_ok (t_update c) ps)"

text \<open>
  What the receiver knows at time \<open>now\<close> about the messages \<open>H\<close> it has delivered: a message is still
  remembered, together with its delivery time, unless more than \<open>sunset\<close> has passed since.
\<close>

definition remembers :: "nat \<Rightarrow> nat \<Rightarrow> (nat \<times> u32) set \<Rightarrow> recv_state \<Rightarrow> bool" where
  "remembers sunset now H st \<longleftrightarrow>
     delivered st = set (map snd (deliver_times st))
     \<and> distinct (map fst (deliver_times st))
     \<and> (\<forall>e \<in> set (deliver_times st). fst e \<le> now)
     \<and> (\<forall>(t, s) \<in> H. (t, s) \<in> set (deliver_times st) \<or> t + sunset < now)
     \<and> (\<forall>t. last_update st = Some t \<longrightarrow> t \<le> now)"

lemma remembers_later:
  "remembers sunset now H st \<Longrightarrow> now \<le> now' \<Longrightarrow> remembers sunset now' H st"
  unfolding remembers_def by fastforce

lemma maybe_update_remembers:
  assumes inv: "remembers sunset (t_insert c) H st" and c: "clock_ok c"
  shows "remembers sunset (t_update c) H (maybe_update sunset c st)"
proof (cases "last_update st")
  case None
  with assms show ?thesis
    by (fastforce simp: remembers_def maybe_update_def clock_ok_def)
next
  case (Some t)
  show ?thesis
  proof (cases "t_elapsed c - t > sunset")
    case True
    let ?cut = "t_cutoff c - sunset"
    have cut: "?cut + sunset \<le> t_update c" "sunset \<le> t_cutoff c"
      using True c by (auto simp: clock_ok_def)
    have kept: "(a, s) \<in> set (deliver_times st) \<Longrightarrow> (a, s) \<in> set (split_off ?cut (deliver_times st)) \<or> a + sunset < t_update c" for a s
      using cut by (auto simp: split_off_def)
    have "distinct (map fst (split_off ?cut (deliver_times st)))"
      using inv by (simp add: remembers_def split_off_def distinct_map_filter)
    moreover have "\<forall>e \<in> set (split_off ?cut (deliver_times st)). fst e \<le> t_update c"
      using inv c by (fastforce simp: remembers_def split_off_def clock_ok_def)
    moreover have "\<forall>(a, s) \<in> H. (a, s) \<in> set (split_off ?cut (deliver_times st)) \<or> a + sunset < t_update c"
      using inv kept c by (fastforce simp: remembers_def clock_ok_def)
    ultimately show ?thesis
      using Some True by (simp add: remembers_def maybe_update_def Let_def)
  next
    case False
    with Some remembers_later [OF inv, of "t_update c"] c show ?thesis
      by (simp add: maybe_update_def clock_ok_def)
  qed
qed

lemma alist_update_new: "k \<notin> fst ` set al \<Longrightarrow> AList.update k v al = al @ [(k, v)]"
  by (induction al) auto

lemma is_new_remembers:
  assumes inv: "remembers sunset now H st" and c: "clock_ok c" "now < t_insert c"
    and new: "is_new sunset c seq st = (r, st')"
  shows "remembers sunset (t_update c) (if r then insert (t_insert c, seq) H else H) st'
    \<and> (r \<longrightarrow> (\<forall>t. (t, seq) \<in> H \<longrightarrow> t + sunset < t_insert c))"
proof (cases "seq \<in> delivered st")
  case True
  with new maybe_update_remembers [OF remembers_later [OF inv] c(1)] c(2) show ?thesis
    by (auto simp: is_new_def)
next
  case False
  let ?st = "st\<lparr>deliver_times := AList.update (t_insert c) seq (deliver_times st),
                delivered := insert seq (delivered st)\<rparr>"
  have fresh: "t_insert c \<notin> fst ` set (deliver_times st)"
    using inv c(2) by (fastforce simp: remembers_def)
  then have upd: "AList.update (t_insert c) seq (deliver_times st) = deliver_times st @ [(t_insert c, seq)]"
    by (rule alist_update_new)
  have "remembers sunset (t_insert c) (insert (t_insert c, seq) H) ?st"
    using inv c(2) fresh by (fastforce simp: remembers_def upd)
  note upd_inv = maybe_update_remembers [OF this c(1)]
  have old: "t + sunset < t_insert c" if "(t, seq) \<in> H" for t
  proof -
    have "(t, seq) \<notin> set (deliver_times st)"
      using False inv by (force simp: remembers_def)
    then have "t + sunset < now" using inv that by (auto simp: remembers_def)
    with c(2) show ?thesis by simp
  qed
  have "r" "st' = maybe_update sunset c ?st" using False new by (auto simp: is_new_def)
  with upd_inv old show ?thesis by simp
qed

text \<open>Two packets with the same address and number are more than \<open>sunset\<close> apart.\<close>

definition far_apart :: "nat \<Rightarrow> ('a, 'd) packet \<Rightarrow> ('a, 'd) packet \<Rightarrow> bool" where
  "far_apart sunset p q \<longleftrightarrow>
     (fst (snd p) = fst (snd q) \<and> fst (snd (snd p)) = fst (snd (snd q))
        \<longrightarrow> t_insert (fst p) + sunset < t_insert (fst q))"

definition history :: "'a \<Rightarrow> ('a, 'd) packet list \<Rightarrow> (nat \<times> u32) set" where
  "history a out = (\<lambda>p. (t_insert (fst p), fst (snd (snd p)))) ` {p \<in> set out. fst (snd p) = a}"

definition amo_inv :: "nat \<Rightarrow> nat \<Rightarrow> ('a, 'd) packet list \<Rightarrow> 'a delivered_msgs \<Rightarrow> bool" where
  "amo_inv sunset now out m \<longleftrightarrow>
     (\<forall>a. remembers sunset now (history a out) (case m a of Some st \<Rightarrow> st | None \<Rightarrow> default_recv_state))"

lemma history_snoc:
  "history a (out @ [p]) = (if fst (snd p) = a then insert (t_insert (fst p), fst (snd (snd p))) (history a out)
     else history a out)"
  by (auto simp: history_def)

lemma amo_packet_inv:
  assumes inv: "amo_inv sunset now out m" and step: "amo_packet sunset (c, a, s, d) m = (r, m1)"
    and c: "clock_ok c" "now < t_insert c"
  shows "amo_inv sunset (t_update c) (if r then out @ [(c, a, s, d)] else out) m1
    \<and> (r \<longrightarrow> (\<forall>q \<in> set out. far_apart sunset q (c, a, s, d)))"
proof -
  let ?st = "case m a of Some st \<Rightarrow> st | None \<Rightarrow> default_recv_state"
  from step obtain st' where new: "is_new sunset c s ?st = (r, st')" "m1 = m(a \<mapsto> st')"
    by (auto simp: amo_packet_def split: prod.splits)
  have "remembers sunset now (history a out) ?st" using inv by (simp add: amo_inv_def)
  note R = is_new_remembers [OF this c new(1)]
  have other: "remembers sunset (t_update c) (history b out) (case m b of Some st \<Rightarrow> st | None \<Rightarrow> default_recv_state)"
    for b
    using inv c by (auto simp: amo_inv_def clock_ok_def intro: remembers_later)
  have "amo_inv sunset (t_update c) (if r then out @ [(c, a, s, d)] else out) m1"
    unfolding amo_inv_def
  proof
    fix b
    show "remembers sunset (t_update c) (history b (if r then out @ [(c, a, s, d)] else out))
        (case m1 b of Some st \<Rightarrow> st | None \<Rightarrow> default_recv_state)"
      using R other [of b] new(2) by (cases "a = b"; cases r) (simp_all add: history_snoc)
  qed
  moreover have "r \<Longrightarrow> \<forall>q \<in> set out. far_apart sunset q (c, a, s, d)"
    using R by (auto simp: far_apart_def history_def)
  ultimately show ?thesis by blast
qed

lemma amo_run_far_apart:
  "amo_inv sunset now out m \<Longrightarrow> clocks_ok now ps \<Longrightarrow> amo_run sunset m ps = (ds, m1)
     \<Longrightarrow> sorted_wrt (far_apart sunset) ds \<and> (\<forall>q \<in> set out. \<forall>p \<in> set ds. far_apart sunset q p)"
proof (induction ps arbitrary: now out m ds)
  case (Cons p ps)
  obtain c a s d where p: "p = (c, a, s, d)" by (cases p)
  obtain r m2 where r: "amo_packet sunset p m = (r, m2)" by (cases "amo_packet sunset p m")
  obtain es where es: "amo_run sunset m2 ps = (es, m1)" "ds = (if r then p # es else es)"
    using Cons.prems(3) r by (cases "amo_run sunset m2 ps") auto
  from Cons.prems(2) p have c: "clock_ok c" "now < t_insert c" "clocks_ok (t_update c) ps" by auto
  note S = amo_packet_inv [OF Cons.prems(1) r [unfolded p] c(1,2)]
  from Cons.IH [OF conjunct1 [OF S] c(3) es(1)] S es(2) p show ?case
    by (cases r) auto
qed simp

section \<open>Properties\<close>

text \<open>
  C4: At most once. Of the packets a connection lets through, two with the same address and number
  are more than \<open>sunset\<close> apart in time, provided the clock is monotonic and gives every packet an
  instant of its own.
\<close>

theorem delivered_at_most_once:
  assumes "clocks_ok now ps"
  shows "sorted_wrt (far_apart sunset) (fst (amo_run sunset Map.empty ps))"
proof -
  have "amo_inv sunset now [] Map.empty"
    by (simp add: amo_inv_def remembers_def default_recv_state_def history_def)
  from amo_run_far_apart [OF this assms prod.collapse [symmetric]] show ?thesis by simp
qed

definition ex_clock :: "nat \<Rightarrow> clock" where
  "ex_clock t = \<lparr>t_insert = t, t_elapsed = t, t_cutoff = t, t_update = t\<rparr>"

definition ex_packets :: "(nat, nat) packet list" where
  "ex_packets = map (\<lambda>(t, s). (ex_clock t, 1, s, 0)) [(1, 5), (2, 6), (3, 5), (20, 7), (30, 5)]"

theorem delivered_at_most_once_witness:
  "map (\<lambda>(c, a, s, d). (t_insert c, s)) (fst (amo_run 10 Map.empty ex_packets)) = [(1, 5), (2, 6), (20, 7), (30, 5)]
   \<and> sorted_wrt (far_apart 10) (fst (amo_run 10 Map.empty ex_packets))"
proof
  show "map (\<lambda>(c, a, s, d). (t_insert c, s)) (fst (amo_run 10 Map.empty ex_packets)) = [(1, 5), (2, 6), (20, 7), (30, 5)]"
    by code_simp
  have "clocks_ok 0 ex_packets" by code_simp
  then show "sorted_wrt (far_apart 10) (fst (amo_run 10 Map.empty ex_packets))" by (rule delivered_at_most_once)
qed

text \<open>
  The proviso on instants is needed. Two packets stamped with one instant share an entry of
  \<open>deliver_times\<close>, so the first is forgotten at the next pruning and delivered again within the
  horizon: here after 7 of 10 time units.
\<close>

definition ex_same_instant :: "(nat, nat) packet list" where
  "ex_same_instant = map (\<lambda>(t, s). (ex_clock t, 1, s, 0)) [(1, 9), (8, 5), (8, 6), (12, 7), (15, 5)]"

lemma same_instant_delivers_twice:
  "map (\<lambda>(c, a, s, d). (t_insert c, s)) (fst (amo_run 10 Map.empty ex_same_instant))
     = [(1, 9), (8, 5), (8, 6), (12, 7), (15, 5)]"
  by code_simp

text \<open>
  Receiving into a buffer with as many slots as the transport was given neither indexes out of
  bounds nor drops a packet: a slice is processed as the sequence of all its packets.
\<close>

lemma amo_fill_takes_all:
  assumes "length slots \<le> n" and "amo_fill sunset n slots m = (out, m1, r)"
  shows "amo_run sunset m (taken slots) = (out, m1) \<and> is_ok r"
  using assms by (rule amo_fill_run)

lemma amo_fill_takes_all_example:
  "amo_run 10 Map.empty (taken (map Some ex_packets))
     = (fst (amo_fill 10 5 (map Some ex_packets) Map.empty), fst (snd (amo_fill 10 5 (map Some ex_packets) Map.empty)))"
  using amo_fill_takes_all [of "map Some ex_packets" 5 10 Map.empty]
  by (cases "amo_fill 10 5 (map Some ex_packets) Map.empty") (simp add: ex_packets_def)

end
