(* ===== verification/Connections.thy ===== *)
theory Connections
  imports Prelude
begin

text \<open>
  Connections that move messages between queues and the buffers of their callers: the in-memory
  transport (\<open>bertha/src/chan_transport.rs\<close>), the stack splitter (\<open>split.rs\<close>), datagram sockets
  (\<open>udp.rs\<close>).

  A buffer is the list of slots that the caller passes in, with whatever the slots hold; a queue is
  the list of messages a channel or socket has ready. A receive that has to wait is \<open>None\<close>.
\<close>

section \<open>Draining a queue into a buffer\<close>

text \<open>
  The interface: what a burst receive promises its caller. \<open>recv tx_open buf q\<close> returns the new buffer
  and what is left of the queue; \<open>tx_open\<close> says whether the queue still has a sender.
\<close>

locale burst_receiver =
  fixes recv :: "bool \<Rightarrow> 'd option list \<Rightarrow> 'd list \<Rightarrow> ('d option list \<times> 'd list) result option"
  assumes waits: "recv True buf [] = None"
    and closed: "\<exists>e. recv False buf [] = Some (Inl (Err e))"
    and drains: "buf \<noteq> [] \<Longrightarrow> q \<noteq> [] \<Longrightarrow>
      recv tx_open buf q = Some (Inr (map Some (take (length buf) q) @ drop (length q) buf, drop (length buf) q))"
begin

text \<open>The messages of a burst are those taken from the queue, in order, and none is lost.\<close>

lemma burst_no_loss:
  assumes "buf \<noteq> []" "q \<noteq> []"
  obtains buf' q' where "recv tx_open buf q = Some (Inr (buf', q'))" "length buf' = length buf"
    "map the (take (min (length buf) (length q)) buf') @ q' = q"
  using assms that [of "map Some (take (length buf) q) @ drop (length q) buf" "drop (length buf) q"]
  by (simp add: drains min_def)

lemma burst_keeps_rest:
  assumes "buf \<noteq> []" "q \<noteq> []" "length q \<le> i" "i < length buf"
  shows "\<exists>buf' q'. recv tx_open buf q = Some (Inr (buf', q')) \<and> buf' ! i = buf ! i"
  using assms by (auto simp: drains nth_append)

text \<open>Repeated receives into a clean buffer return the queue in pieces of at most its length.\<close>

lemma burst_progress:
  assumes "buf \<noteq> []" "q \<noteq> []"
  shows "\<exists>buf' q'. recv tx_open buf q = Some (Inr (buf', q')) \<and> length q' < length q"
  using assms by (auto simp: drains)

end

subsection \<open>ChanChunnel\<close>

text \<open>
  The loop \<open>while let Ok(m) = r.try_recv()\<close> writing from \<open>slot_idx\<close> on, up to the end of the buffer.
\<close>

fun try_recv_loop :: "nat \<Rightarrow> 'd option list \<Rightarrow> 'd list \<Rightarrow> ('d option list \<times> 'd list) result" where
  "try_recv_loop slot_idx buf [] = Inr (buf, [])"
| "try_recv_loop slot_idx buf (m # q) =
     (if \<not> slot_idx < length buf then Inl (Panic ''index out of bounds'')
      else (let buf' = buf[slot_idx := Some m] in
            if slot_idx + 1 \<ge> length buf then Inr (buf', q) else try_recv_loop (slot_idx + 1) buf' q))"

text \<open>\<open>ChanChunnel::recv\<close>: wait for one message, then take what is ready.\<close>

definition chan_recv :: "bool \<Rightarrow> 'd option list \<Rightarrow> 'd list \<Rightarrow> ('d option list \<times> 'd list) result option" where
  "chan_recv tx_open buf q =
     (case q of
        [] \<Rightarrow> (if tx_open then None else Some (eyre ''All senders dropped''))
      | m # q' \<Rightarrow>
          Some (if buf = [] then Inl (Panic ''index out of bounds'')
                else (let buf' = buf[0 := Some m] in
                      if 1 \<ge> length buf then Inr (buf', q') else try_recv_loop 1 buf' q')))"

lemma try_recv_loop_eq:
  "slot_idx < length buf \<Longrightarrow>
   try_recv_loop slot_idx buf q =
     Inr (take slot_idx buf @ map Some (take (length buf - slot_idx) q) @ drop (slot_idx + length q) buf,
          drop (length buf - slot_idx) q)"
proof (induction q arbitrary: slot_idx buf)
  case (Cons m q)
  show ?case
  proof (cases "slot_idx + 1 \<ge> length buf")
    case True
    with Cons.prems have "length buf = Suc slot_idx" by simp
    with Cons.prems show ?thesis by (simp add: Let_def upd_conv_take_nth_drop)
  next
    case False
    with Cons.IH [of "slot_idx + 1" "buf[slot_idx := Some m]"] Cons.prems
    show ?thesis
      by (simp add: Let_def take_Suc_conv_app_nth take_Cons' drop_Cons' not_le Suc_diff_Suc)
  qed
qed simp

lemma chan_recv_eq:
  "buf \<noteq> [] \<Longrightarrow> q \<noteq> [] \<Longrightarrow>
   chan_recv tx_open buf q = Some (Inr (map Some (take (length buf) q) @ drop (length q) buf, drop (length buf) q))"
proof -
  assume "buf \<noteq> []" "q \<noteq> []"
  then obtain b bs m q' where [simp]: "buf = b # bs" "q = m # q'" by (cases buf; cases q) auto
  show ?thesis
    by (cases bs) (simp_all add: chan_recv_def Let_def try_recv_loop_eq)
qed

interpretation chan: burst_receiver chan_recv
  by unfold_locales (simp_all add: chan_recv_def [of _ _ "[]"] chan_recv_eq)

subsection \<open>recv\_channel\_burst\<close>

fun channel_burst_rest :: "'d option list \<Rightarrow> 'd list \<Rightarrow> 'd option list \<times> 'd list" where
  "channel_burst_rest [] q = ([], q)"
| "channel_burst_rest (slot # slots) [] = (slot # slots, [])"
| "channel_burst_rest (slot # slots) (d # q) = apfst ((#) (Some d)) (channel_burst_rest slots q)"

definition recv_channel_burst :: "bool \<Rightarrow> 'd option list \<Rightarrow> 'd list \<Rightarrow> ('d option list \<times> 'd list) result option" where
  "recv_channel_burst tx_open msgs_buf q =
     (case q of
        [] \<Rightarrow> (if tx_open then None
               else Some (Inl (Err [''Nothing more to receive'', ''receiving on a closed channel''])))
      | d # q' \<Rightarrow>
          Some (case msgs_buf of
                  [] \<Rightarrow> Inl (Panic ''index out of bounds'')
                | _ # slots \<Rightarrow> Inr (apfst ((#) (Some d)) (channel_burst_rest slots q'))))"

lemma channel_burst_rest_eq:
  "channel_burst_rest slots q = (map Some (take (length slots) q) @ drop (length q) slots, drop (length slots) q)"
  by (induction slots q rule: channel_burst_rest.induct) auto

interpretation channel_burst: burst_receiver recv_channel_burst
  by unfold_locales
     (auto simp: recv_channel_burst_def channel_burst_rest_eq neq_Nil_conv)

subsection \<open>SplitCnBottom\<close>

text \<open>
  \<open>SplitCnBottom::recv\<close>. \<open>q\<close> is the channel when \<open>is_empty\<close> is tested; if it is empty, \<open>arrivals\<close> is
  the channel when \<open>recv_async\<close> completes.
\<close>

definition split_recv ::
  "bool \<Rightarrow> 'd option list \<Rightarrow> 'd list \<Rightarrow> 'd list \<Rightarrow> ('d option list \<times> 'd list) result option" where
  "split_recv tx_open buf q arrivals =
     (if q = []
      then (case arrivals of
              [] \<Rightarrow> (if tx_open then None else Some (eyre ''receiving on a closed channel''))
            | m # rest \<Rightarrow>
                Some (if buf = [] then Inl (Panic ''index out of bounds'')
                      else try_recv_loop 1 (buf[0 := Some m]) rest))
      else Some (try_recv_loop 0 buf q))"

lemma split_recv_ok:
  assumes "1 < length buf" "q @ arrivals \<noteq> []"
  shows "let ms = (if q = [] then arrivals else q) in
    split_recv tx_open buf q arrivals
      = Some (Inr (map Some (take (length buf) ms) @ drop (length ms) buf, drop (length buf) ms))"
proof (cases "q = []")
  case True
  with assms obtain m rest where ar: "arrivals = m # rest" by (cases arrivals) auto
  from assms obtain b bs where [simp]: "buf = b # bs" by (cases buf) auto
  from assms True ar show ?thesis by (simp add: split_recv_def Let_def try_recv_loop_eq)
next
  case False
  from assms(1) have "0 < length buf" by linarith
  with False try_recv_loop_eq [of 0 buf q] show ?thesis by (simp add: split_recv_def Let_def)
qed

lemma split_recv_one_slot: "split_recv tx_open [b] [] (m # m' # rest) = Some (Inl (Panic ''index out of bounds''))"
  by (simp add: split_recv_def)

section \<open>Sending on the in-memory transport\<close>

text \<open>
  \<open>ChanChunnel::send\<close>. The link is a stateful function; after each message it is asked for deferred
  messages until it has none. That loop need not end, so the model is \<open>None\<close> where it does not. The
  result carries the messages put on the channel; \<open>rx_open\<close> says whether the channel still has its
  receiver, without which the first send fails.
\<close>

type_synonym ('d, 'l) link = "'d option \<Rightarrow> 'l \<Rightarrow> 'd option \<times> 'l"

type_synonym ('d, 'l) sent = "unit result \<times> 'd list \<times> 'l"

abbreviation dropped :: "unit result" where
  "dropped \<equiv> eyre ''receiver channel dropped''"

partial_function (option) drain_link ::
  "bool \<Rightarrow> ('d, 'l) link \<Rightarrow> 'l \<Rightarrow> 'd list \<Rightarrow> ('d, 'l) sent option" where
  "drain_link rx_open link l out =
     (case link None l of
        (None, l') \<Rightarrow> Some (Inr (), out, l')
      | (Some d, l') \<Rightarrow>
          if rx_open then drain_link rx_open link l' (out @ [d]) else Some (dropped, out, l'))"

definition send_one :: "bool \<Rightarrow> ('d, 'l) link \<Rightarrow> 'l \<Rightarrow> 'd \<Rightarrow> ('d, 'l) sent option" where
  "send_one rx_open link l d =
     (case link (Some d) l of
        (None, l1) \<Rightarrow> drain_link rx_open link l1 []
      | (Some d', l1) \<Rightarrow>
          if rx_open then drain_link rx_open link l1 [d'] else Some (dropped, [], l1))"

fun chan_send :: "bool \<Rightarrow> ('d, 'l) link \<Rightarrow> 'l \<Rightarrow> 'd list \<Rightarrow> ('d, 'l) sent option" where
  "chan_send rx_open link l [] = Some (Inr (), [], l)"
| "chan_send rx_open link l (d # burst) =
     (case send_one rx_open link l d of
        None \<Rightarrow> None
      | Some (Inl e, out, l1) \<Rightarrow> Some (Inl e, out, l1)
      | Some (Inr _, out, l1) \<Rightarrow>
          map_option (\<lambda>(r, out', l2). (r, out @ out', l2)) (chan_send rx_open link l1 burst))"

text \<open>The default link passes every message on and defers none.\<close>

definition identity_link :: "('d, 'l) link" where
  "identity_link d l = (d, l)"

lemma chan_send_identity: "chan_send True identity_link l burst = Some (Inr (), burst, l)"
proof (induction burst arbitrary: l)
  case (Cons d burst)
  have id: "identity_link x l = (x, l)" for x :: "'a option" by (simp add: identity_link_def)
  have "send_one True identity_link l d = Some (Inr (), [d], l)"
    by (simp add: send_one_def id drain_link.simps [of _ _ l])
  with Cons show ?case by simp
qed simp

text \<open>
  A link whose store of deferred messages shrinks with every message it releases never makes the
  loop run forever.
\<close>

lemma drain_link_terminates:
  assumes "\<And>l d l'. link None l = (Some d, l') \<Longrightarrow> size_of l' < (size_of l :: nat)"
  shows "\<exists>r. drain_link rx_open link l out = Some r"
proof (induction "size_of l" arbitrary: l out rule: less_induct)
  case less
  show ?case
  proof (cases "link None l")
    case (Pair r l')
    with less [of l'] assms [of l _ l'] show ?thesis
      by (cases r) (auto simp: drain_link.simps [of _ _ l])
  qed
qed

lemma chan_send_terminates:
  assumes "\<And>l d l'. link None l = (Some d, l') \<Longrightarrow> size_of l' < (size_of l :: nat)"
  shows "\<exists>r. chan_send rx_open link l burst = Some r"
proof (induction burst arbitrary: l)
  case (Cons d burst)
  obtain r out l1 where "send_one rx_open link l d = Some (r, out, l1)"
    using drain_link_terminates [of link size_of, OF assms]
    by (cases "link (Some d) l") (fastforce simp: send_one_def split: option.splits if_splits)
  with Cons.IH [of l1] show ?case by (cases r) auto
qed simp

subsection \<open>Setting up channels\<close>

text \<open>
  \<open>Chan\<close>: the two channels, by name, and the ends that are still there to be taken. The server ends
  are the sender of channel 1 and the receiver of channel 2, the client ends the others.
\<close>

record chan_ends =
  snd_end :: "nat option"
  rcv_end :: "nat option"

definition chan_split :: "chan_ends \<times> chan_ends" where
  "chan_split = (\<lparr>snd_end = Some 1, rcv_end = Some 2\<rparr>, \<lparr>snd_end = Some 2, rcv_end = Some 1\<rparr>)"

text \<open>\<open>listen\<close> of the server half and \<open>connect\<close> of the client half take the ends out; a second call panics.\<close>

definition chan_take :: "chan_ends \<Rightarrow> (nat \<times> nat) result \<times> chan_ends" where
  "chan_take c =
     (case (snd_end c, rcv_end c) of
        (Some s, Some r) \<Rightarrow> (Inr (s, r), \<lparr>snd_end = None, rcv_end = None\<rparr>)
      | _ \<Rightarrow> (Inl (Panic ''called Option::unwrap() on a None value''), \<lparr>snd_end = None, rcv_end = None\<rparr>))"

lemma chan_ends_cross:
  "case chan_split of (srv, cln) \<Rightarrow>
     (case (fst (chan_take srv), fst (chan_take cln)) of
        (Inr (ss, sr), Inr (cs, cr)) \<Rightarrow> ss = cr \<and> cs = sr \<and> ss \<noteq> cs
      | _ \<Rightarrow> False)
     \<and> panics (fst (chan_take (snd (chan_take srv))))"
  by (simp add: chan_split_def chan_take_def)

text \<open>
  \<open>RendezvousChannel\<close>: listeners by address, each the queue of connections not yet accepted (at most
  one, the size of its channel), and whether the listener's stream still exists. A connection is its
  peer address and the numbers of its channels.
\<close>

record 'a rendezvous_channel =
  listeners :: "('a, bool \<times> ('a \<times> nat \<times> nat) list) map"
  next_chan :: nat

definition rc_listen :: "'a \<Rightarrow> 'a rendezvous_channel \<Rightarrow> 'a rendezvous_channel" where
  "rc_listen a rc = rc\<lparr>listeners := (listeners rc)(a \<mapsto> (True, []))\<rparr>"

definition rc_connect ::
  "'a \<Rightarrow> 'a rendezvous_channel \<Rightarrow> ('a \<times> nat \<times> nat) result option \<times> 'a rendezvous_channel" where
  "rc_connect a rc =
     (case listeners rc a of
        None \<Rightarrow> (Some (Inl (Err [''Address not found''])), rc)
      | Some (alive, waiting) \<Rightarrow>
          (let c1 = next_chan rc; c2 = c1 + 1 in
           if \<not> alive then (Some (eyre ''Could not send connection to listener''), rc)
           else if waiting = []
           then (Some (Inr (a, c1, c2)),
                 rc\<lparr>listeners := (listeners rc)(a \<mapsto> (True, [(a, c2, c1)])), next_chan := c1 + 2\<rparr>)
           else (None, rc)))"

definition rc_accept :: "'a \<Rightarrow> 'a rendezvous_channel \<Rightarrow> ('a \<times> nat \<times> nat) option \<times> 'a rendezvous_channel" where
  "rc_accept a rc =
     (case listeners rc a of
        Some (True, c # waiting) \<Rightarrow> (Some c, rc\<lparr>listeners := (listeners rc)(a \<mapsto> (True, waiting))\<rparr>)
      | _ \<Rightarrow> (None, rc))"

lemma rc_connect_accept:
  assumes "rc_connect a rc = (Some (Inr (peer, s, r)), rc')"
  shows "fst (rc_accept a rc') = Some (a, r, s) \<and> peer = a \<and> s \<noteq> r"
proof -
  from assms obtain "s = next_chan rc" "r = s + 1" "peer = a" "listeners rc' a = Some (True, [(a, r, s)])"
    by (auto simp: rc_connect_def Let_def split: option.splits prod.splits if_splits)
  then show ?thesis by (simp add: rc_accept_def)
qed

section \<open>Datagram sockets\<close>

text \<open>What \<open>try_recv_from\<close> finds: a datagram, nothing, or an I/O error.\<close>

datatype 'a sock_event = Datagram 'a bytes | WouldBlock | IoError failure

type_synonym 'a packet_slot = "('a \<times> bytes) option"

text \<open>
  \<open>peel_one\<close>: an occupied slot lends its vector as the read buffer, with the length it has; an empty
  slot reads into 2048 bytes. A datagram longer than the buffer is cut.
\<close>

definition read_len :: "'a packet_slot \<Rightarrow> nat" where
  "read_len slot = (case slot of Some (_, x) \<Rightarrow> length x | None \<Rightarrow> 2048)"

fun peel_one :: "'a sock_event \<Rightarrow> 'a packet_slot \<Rightarrow> unit result option \<times> 'a packet_slot" where
  "peel_one (Datagram a d) slot = (Some (Inr ()), Some (a, take (read_len slot) d))"
| "peel_one WouldBlock slot = (None, slot)"
| "peel_one (IoError e) slot = (Some (Inl e), slot)"

text \<open>\<open>peel_rest\<close>: fill the slots in order until one read would block.\<close>

fun peel_rest ::
  "'a sock_event list \<Rightarrow> 'a packet_slot list \<Rightarrow> nat result \<times> 'a packet_slot list \<times> 'a sock_event list" where
  "peel_rest evs [] = (Inr 0, [], evs)"
| "peel_rest [] (slot # slots) = (Inr 0, slot # slots, [])"
| "peel_rest (ev # evs) (slot # slots) =
     (case peel_one ev slot of
        (Some (Inr _), slot') \<Rightarrow>
          (case peel_rest evs slots of
             (r, slots', rest) \<Rightarrow> (res_bind r (\<lambda>n. Inr (Suc n)), slot' # slots', rest))
      | (None, slot') \<Rightarrow> (Inr 0, slot' # slots, evs)
      | (Some (Inl e), slot') \<Rightarrow> (Inl e, slot' # slots, evs))"

fun udp_recv ::
  "'a sock_event list \<Rightarrow> 'a packet_slot list \<Rightarrow> 'a packet_slot list result option \<times> 'a sock_event list" where
  "udp_recv [] buf = (None, [])"
| "udp_recv (ev # evs) [] = (Some (Inl (Panic ''index out of bounds'')), evs)"
| "udp_recv (ev # evs) (slot # slots) =
     (case peel_one ev slot of
        (None, _) \<Rightarrow> udp_recv evs (slot # slots)
      | (Some (Inl e), _) \<Rightarrow> (Some (Inl e), evs)
      | (Some (Inr _), slot') \<Rightarrow>
          (case peel_rest evs slots of
             (Inl e, _, rest) \<Rightarrow> (Some (Inl e), rest)
           | (Inr n, slots', rest) \<Rightarrow> (Some (Inr (slot' # slots')), rest)))"

text \<open>\<open>UdpConn::send\<close> answers to the address the connection was made for, whatever the caller names.\<close>

definition udp_conn_send :: "'a \<Rightarrow> ('a \<times> bytes) list \<Rightarrow> ('a \<times> bytes) list" where
  "udp_conn_send resp_addr burst = map (\<lambda>(_, data). (resp_addr, data)) burst"

lemma peel_rest_datagrams:
  "length ds \<le> length slots \<Longrightarrow>
   peel_rest (map (\<lambda>(a, d). Datagram a d) ds) slots =
     (Inr (length ds),
      map (\<lambda>((a, d), slot). Some (a, take (read_len slot) d)) (zip ds slots) @ drop (length ds) slots, [])"
proof (induction ds arbitrary: slots)
  case Nil
  then show ?case by (cases slots) auto
next
  case (Cons x ds)
  then show ?case by (cases slots; cases x) auto
qed

lemma udp_recv_datagrams:
  assumes "ds \<noteq> []" "length ds \<le> length buf"
  shows "udp_recv (map (\<lambda>(a, d). Datagram a d) ds) buf =
     (Some (Inr (map (\<lambda>((a, d), slot). Some (a, take (read_len slot) d)) (zip ds buf) @ drop (length ds) buf)), [])"
proof -
  from assms obtain x ds' slot slots where [simp]: "ds = x # ds'" "buf = slot # slots"
    by (cases ds; cases buf) auto
  obtain a d where [simp]: "x = (a, d)" by (cases x)
  show ?thesis using assms(2) by (simp add: peel_rest_datagrams)
qed

section \<open>Properties\<close>

text \<open>
  The in-memory transport delivers in order and without loss: into a non-empty buffer, \<open>recv\<close>
  takes as many queued messages as fit, in order, into the first slots, and leaves the others queued.
  The slots after them keep what they held before the call.
\<close>

lemma chan_recv_takes_prefix:
  assumes "buf \<noteq> []" "q \<noteq> []"
  shows "chan_recv tx_open buf q = Some (Inr (map Some (take (length buf) q) @ drop (length q) buf, drop (length buf) q))"
  using assms by (rule chan.drains)

lemma chan_recv_takes_prefix_example:
  "chan_recv True [None, Some 9, Some 8] [1, 2 :: nat] = Some (Inr ([Some 1, Some 2, Some 8], []))"
  using chan_recv_takes_prefix [of "[None, Some 9, Some 8]" "[1, 2 :: nat]" True] by simp

text \<open>
  \<open>ChanChunnel::send\<close> returns for every link that has fewer deferred messages after releasing
  one, and with the default link it puts exactly the burst on the channel.
\<close>

lemma chan_send_returns:
  assumes "\<And>l d l'. link None l = (Some d, l') \<Longrightarrow> size_of l' < (size_of l :: nat)"
  shows "(\<exists>r. chan_send rx_open link l burst = Some r)
     \<and> chan_send True identity_link l burst = Some (Inr (), burst, l)"
proof
  show "\<exists>r. chan_send rx_open link l burst = Some r"
    by (rule chan_send_terminates) (rule assms)
qed (rule chan_send_identity)

text \<open>The link of the ordering tests: it holds back every message and releases one when asked.\<close>

fun ex_link :: "(nat, nat list) link" where
  "ex_link (Some d) l = (None, d # l)"
| "ex_link None [] = (None, [])"
| "ex_link None (d # l) = (Some d, l)"

lemma chan_send_returns_example: "\<exists>r. chan_send True ex_link [] [1, 2, 3] = Some r"
proof -
  have "(\<exists>r. chan_send True ex_link [] [1, 2, 3] = Some r)
      \<and> chan_send True identity_link ([] :: nat list) [1, 2, 3 :: nat] = Some (Inr (), [1, 2, 3], [])"
  proof (rule chan_send_returns)
    show "ex_link None l = (Some d, l') \<Longrightarrow> length l' < length l" for l d l'
      by (cases l) auto
  qed
  then show ?thesis by blast
qed

text \<open>
  \<open>SplitCnBottom::recv\<close> behaves like the other receives on a buffer of two or more slots, but
  with a single slot it panics when two messages arrive while it waits: the first is written
  without checking that the buffer is full, and the loop writes the second behind its end.
\<close>

lemma split_recv_needs_two_slots:
  fixes buf :: "'d option list" and m :: 'd
  shows "(1 < length buf \<and> q @ arrivals \<noteq> [] \<longrightarrow>
      (let ms = (if q = [] then arrivals else q) in
       split_recv tx_open buf q arrivals
         = Some (Inr (map Some (take (length buf) ms) @ drop (length ms) buf, drop (length buf) ms))))
   \<and> split_recv tx_open [b] [] (m # m' # rest) = Some (Inl (Panic ''index out of bounds''))"
  using split_recv_ok [of buf q arrivals tx_open] split_recv_one_slot [of tx_open b m m' rest] by simp

lemma split_recv_needs_two_slots_example:
  "split_recv True [None, None] [] [1, 2, 3 :: nat] = Some (Inr ([Some 1, Some 2], [3]))"
  using split_recv_needs_two_slots [of "[None, None]" "[]" "[1, 2, 3 :: nat]" True None 1 2 "[]"] by simp

text \<open>
  Receiving datagrams. Each datagram goes to the next slot; an empty slot keeps its first 2048
  bytes, but an occupied slot only as many bytes as the message it held before, and occupied slots
  beyond the last datagram are returned with the caller's old message as if it had been received.
\<close>

lemma udp_recv_slots:
  assumes "ds \<noteq> []" "length ds \<le> length buf"
  shows "udp_recv (map (\<lambda>(a, d). Datagram a d) ds) buf =
     (Some (Inr (map (\<lambda>((a, d), slot). Some (a, take (read_len slot) d)) (zip ds buf) @ drop (length ds) buf)), [])"
  using assms by (rule udp_recv_datagrams)

lemma udp_recv_slots_example:
  "udp_recv [Datagram (1 :: nat) [1, 2, 3]] [Some (7, [9]), Some (8, [5, 5])]
     = (Some (Inr [Some (1, [1]), Some (8, [5, 5])]), [])"
  using udp_recv_slots [of "[(1, [1, 2, 3])]" "[Some (7 :: nat, [9]), Some (8, [5, 5])]"]
  by (simp add: read_len_def)

end
