(* ===== verification/Adaptors.thy ===== *)
theory Adaptors
  imports Connections
begin

text \<open>
  The stateful adaptors of \<open>bertha/src/util.rs\<close>: steering packets to per-address connections and
  matching responses to requests. Both are shared by concurrent callers and are modelled as step
  systems.
\<close>

section \<open>AddrSteer\<close>

text \<open>
  \<open>map\<close> is the address map of the unfold state; channels are numbered. \<open>conns\<close> lists the
  connections made so far, each with its channel and its address; \<open>rx_open\<close> says whether a
  connection still holds the receiver of its channel.
\<close>

record 'a steer_state =
  steer_map :: "('a, nat) map"
  queues :: "nat \<Rightarrow> ('a \<times> bytes) list"
  rx_open :: "nat \<Rightarrow> bool"
  conns :: "(nat \<times> 'a) list"
  next_ch :: nat

definition steer_init :: "'a steer_state" where
  "steer_init = \<lparr>steer_map = Map.empty, queues = \<lambda>_. [], rx_open = \<lambda>_. False, conns = [], next_ch = 0\<rparr>"

text \<open>\<open>flume::unbounded()\<close> and \<open>make_conn\<close>: a fresh channel, entered in the map.\<close>

definition new_conn :: "'a \<Rightarrow> 'a steer_state \<Rightarrow> nat \<times> 'a steer_state" where
  "new_conn a st =
     (let c = next_ch st in
      (c, st\<lparr>steer_map := (steer_map st)(a \<mapsto> c), queues := (queues st)(c := []),
             rx_open := (rx_open st)(c := True), conns := conns st @ [(c, a)], next_ch := c + 1\<rparr>))"

definition chan_push :: "nat \<Rightarrow> 'a \<times> bytes \<Rightarrow> 'a steer_state \<Rightarrow> 'a steer_state" where
  "chan_push c m st = st\<lparr>queues := (queues st)(c := queues st c @ [m])\<rparr>"

definition steer_msg :: "'a \<times> bytes \<Rightarrow> 'a steer_state \<Rightarrow> nat option \<times> 'a steer_state" where
  "steer_msg m st =
     (case steer_map st (fst m) of
        None \<Rightarrow> (case new_conn (fst m) st of (c, st1) \<Rightarrow> (Some c, chan_push c m st1))
      | Some c \<Rightarrow>
          (if rx_open st c then (None, chan_push c m st)
           else (case new_conn (fst m) st of (c', st1) \<Rightarrow> (Some c', chan_push c' m st1))))"

text \<open>One iteration of the loop: the slice \<open>recv\<close> returned, and the connection handed out, if any.\<close>

definition steer_turn ::
  "('a \<times> bytes) option list result \<Rightarrow> 'a steer_state \<Rightarrow> nat option result \<times> 'a steer_state" where
  "steer_turn r st =
     (case r of
        Inl e \<Rightarrow> (Inl e, st)
      | Inr [] \<Rightarrow> (Inl (Panic ''index out of bounds''), st)
      | Inr (None # _) \<Rightarrow> (Inr None, st)
      | Inr (Some m # _) \<Rightarrow> apfst Inr (steer_msg m st))"

text \<open>What the owners of the connections do: take the next message, or drop the connection.\<close>

definition conn_take :: "nat \<Rightarrow> 'a steer_state \<Rightarrow> 'a steer_state" where
  "conn_take c st = st\<lparr>queues := (queues st)(c := tl (queues st c))\<rparr>"

definition conn_drop :: "nat \<Rightarrow> 'a steer_state \<Rightarrow> 'a steer_state" where
  "conn_drop c st = st\<lparr>rx_open := (rx_open st)(c := False)\<rparr>"

inductive steer_step :: "'a steer_state \<Rightarrow> 'a steer_state \<Rightarrow> bool" where
  steer: "steer_step st (snd (steer_turn r st))"
| take: "steer_step st (conn_take c st)"
| drop: "steer_step st (conn_drop c st)"

definition steer_inv :: "'a steer_state \<Rightarrow> bool" where
  "steer_inv st \<longleftrightarrow>
     distinct (map fst (conns st))
     \<and> (\<forall>(c, a) \<in> set (conns st). c < next_ch st \<and> (\<forall>m \<in> set (queues st c). fst m = a))
     \<and> (\<forall>a c. steer_map st a = Some c \<longrightarrow> (c, a) \<in> set (conns st))"

lemma steer_inv_new_conn: "steer_inv st \<Longrightarrow> steer_inv (snd (new_conn a st))"
  unfolding steer_inv_def new_conn_def Let_def by force

lemma steer_inv_push:
  assumes "steer_inv st" and c: "(c, fst m) \<in> set (conns st)"
  shows "steer_inv (chan_push c m st)"
proof -
  from assms have d: "distinct (map fst (conns st))" by (simp add: steer_inv_def)
  have "fst x = a" if "(c', a) \<in> set (conns st)" "x \<in> set (queues (chan_push c m st) c')" for c' a x
  proof (cases "c' = c")
    case True
    with that(1) c have "a = fst m" using eq_key_imp_eq_value [OF d] by metis
    with that True assms(1) show ?thesis by (auto simp: steer_inv_def chan_push_def)
  next
    case False
    with that assms(1) show ?thesis by (auto simp: steer_inv_def chan_push_def)
  qed
  with assms(1) show ?thesis by (auto simp: steer_inv_def chan_push_def)
qed

lemma new_conn_mem: "(fst (new_conn a st), a) \<in> set (conns (snd (new_conn a st)))"
  by (simp add: new_conn_def Let_def)

lemma steer_inv_msg: "steer_inv st \<Longrightarrow> steer_inv (snd (steer_msg m st))"
proof -
  assume inv: "steer_inv st"
  have new: "steer_inv (chan_push (fst (new_conn (fst m) st)) m (snd (new_conn (fst m) st)))"
    by (rule steer_inv_push [OF steer_inv_new_conn [OF inv] new_conn_mem])
  have old: "steer_map st (fst m) = Some c \<Longrightarrow> steer_inv (chan_push c m st)" for c
    using inv by (intro steer_inv_push [OF inv]) (simp add: steer_inv_def)
  show ?thesis using new old by (auto simp: steer_msg_def split: option.splits prod.splits)
qed

lemma steer_inv_step: "steer_step st st' \<Longrightarrow> steer_inv st \<Longrightarrow> steer_inv st'"
proof (induction rule: steer_step.induct)
  case (steer st r)
  then show ?case
    by (auto simp: steer_turn_def steer_inv_msg split: sum.splits list.splits option.splits)
next
  case (take st c)
  have "set (tl q) \<subseteq> set q" for q :: "('a \<times> bytes) list" by (cases q) auto
  then have "set (queues (conn_take c st) c') \<subseteq> set (queues st c')" for c'
    by (simp add: conn_take_def)
  with take show ?case
    unfolding steer_inv_def by (fastforce simp: conn_take_def)
qed (auto simp: steer_inv_def conn_drop_def)

lemma steer_msg_arrives:
  "case steer_msg m st of (r, st') \<Rightarrow>
     \<exists>c. steer_map st' (fst m) = Some c \<and> queues st' c \<noteq> [] \<and> last (queues st' c) = m \<and> rx_open st' c
       \<and> (r = Some c \<longleftrightarrow> r \<noteq> None) \<and> (r = None \<longrightarrow> steer_map st (fst m) = Some c)"
  by (auto simp: steer_msg_def new_conn_def chan_push_def Let_def split: option.splits)

section \<open>MsgIdMatcher\<close>

text \<open>
  Oneshot channels are numbered cells. \<open>inflight\<close> holds the senders and \<open>sent\<close> the receivers by
  message id; \<open>waiting\<close> holds the receivers that a \<open>recv_msg\<close> in progress has taken, with the id it
  waits for.
\<close>

datatype 'd oneshot = Open | Value 'd | TxDropped | RxDropped

record 'd matcher =
  inflight :: "(nat, nat) map"
  sent :: "(nat, nat) map"
  cells :: "nat \<Rightarrow> 'd oneshot"
  waiting :: "(nat, nat) map"
  next_cell :: nat

definition matcher_new :: "'d matcher" where
  "matcher_new = \<lparr>inflight = Map.empty, sent = Map.empty, cells = \<lambda>_. Open, waiting = Map.empty,
     next_cell = 0\<rparr>"

text \<open>Replacing a sender in \<open>inflight\<close> drops it.\<close>

definition drop_sender :: "nat option \<Rightarrow> 'd matcher \<Rightarrow> 'd matcher" where
  "drop_sender c m =
     (case c of
        Some k \<Rightarrow> if cells m k = Open then m\<lparr>cells := (cells m)(k := TxDropped)\<rparr> else m
      | None \<Rightarrow> m)"

definition send_msg :: "nat \<Rightarrow> 'd matcher \<Rightarrow> 'd matcher" where
  "send_msg i m =
     (if i \<in> dom (sent m) then m
      else (let c = next_cell m; m1 = drop_sender (inflight m i) m in
            m1\<lparr>inflight := (inflight m)(i \<mapsto> c), sent := (sent m)(i \<mapsto> c),
               cells := (cells m1)(c := Open), next_cell := c + 1\<rparr>))"

definition recv_msg_start :: "nat \<Rightarrow> 'd matcher \<Rightarrow> nat result \<times> 'd matcher" where
  "recv_msg_start i m =
     (case sent m i of
        None \<Rightarrow> (eyre ''Requested msg id isn't known'', m)
      | Some c \<Rightarrow> (Inr c, m\<lparr>sent := (sent m)(i := None), waiting := (waiting m)(c \<mapsto> i)\<rparr>))"

definition dispatch_one :: "('d \<Rightarrow> nat) \<Rightarrow> 'd \<Rightarrow> 'd matcher \<Rightarrow> unit result \<times> 'd matcher" where
  "dispatch_one idf d m =
     (case inflight m (idf d) of
        None \<Rightarrow> (Inr (), m)
      | Some c \<Rightarrow>
          (let m1 = m\<lparr>inflight := (inflight m)(idf d := None)\<rparr> in
           if cells m c = RxDropped then (Inl (Panic ''receiver won't be dropped''), m1)
           else (Inr (), m1\<lparr>cells := (cells m)(c := Value d)\<rparr>)))"

text \<open>\<open>for i in 0..4 { if let Some(res) = res[i].take() .. }\<close>, with \<open>n\<close> iterations to go.\<close>

fun dispatch :: "('d \<Rightarrow> nat) \<Rightarrow> nat \<Rightarrow> 'd option list \<Rightarrow> 'd matcher \<Rightarrow> unit result \<times> 'd matcher" where
  "dispatch idf 0 res m = (Inr (), m)"
| "dispatch idf (Suc n) [] m = (Inl (Panic ''index out of bounds''), m)"
| "dispatch idf (Suc n) (None # res) m = dispatch idf n res m"
| "dispatch idf (Suc n) (Some d # res) m =
     (case dispatch_one idf d m of
        (Inl e, m1) \<Rightarrow> (Inl e, m1)
      | (Inr _, m1) \<Rightarrow> dispatch idf n res m1)"

text \<open>Polling the receiver of cell \<open>c\<close>: \<open>None\<close> while it is empty.\<close>

definition recv_msg_poll :: "nat \<Rightarrow> 'd matcher \<Rightarrow> 'd result option \<times> 'd matcher" where
  "recv_msg_poll c m =
     (case cells m c of
        Value d \<Rightarrow> (Some (Inr d), m\<lparr>waiting := (waiting m)(c := None)\<rparr>)
      | TxDropped \<Rightarrow> (Some (Inl (Panic ''sender won't be dropped'')), m)
      | _ \<Rightarrow> (None, m))"

text \<open>A \<open>recv_msg\<close> whose future is dropped before it completes drops the receiver.\<close>

definition cancel_recv :: "nat \<Rightarrow> 'd matcher \<Rightarrow> 'd matcher" where
  "cancel_recv c m =
     m\<lparr>cells := (cells m)(c := (if cells m c = Open then RxDropped else cells m c)),
       waiting := (waiting m)(c := None)\<rparr>"

text \<open>
  Steps of the users of one matcher. In the \<open>strict\<close> discipline no request is sent again while its
  response is awaited, no \<open>recv_msg\<close> is cancelled, and the connection returns all four slots.
\<close>

inductive matcher_step :: "('d \<Rightarrow> nat) \<Rightarrow> bool \<Rightarrow> 'd matcher \<Rightarrow> unit result \<Rightarrow> 'd matcher \<Rightarrow> bool"
  for idf strict where
  send: "(strict \<Longrightarrow> i \<notin> ran (waiting m)) \<Longrightarrow> matcher_step idf strict m (Inr ()) (send_msg i m)"
| start: "recv_msg_start i m = (r, m') \<Longrightarrow> matcher_step idf strict m (res_bind r (\<lambda>_. Inr ())) m'"
| dispatch: "(strict \<Longrightarrow> 4 \<le> length res) \<Longrightarrow> dispatch idf 4 res m = (r, m')
    \<Longrightarrow> matcher_step idf strict m r m'"
| poll: "c \<in> dom (waiting m) \<Longrightarrow> recv_msg_poll c m = (Some r, m')
    \<Longrightarrow> matcher_step idf strict m (res_bind r (\<lambda>_. Inr ())) m'"
| cancel: "\<not> strict \<Longrightarrow> c \<in> dom (waiting m) \<Longrightarrow> matcher_step idf strict m (Inr ()) (cancel_recv c m)"

inductive matcher_reachable :: "('d \<Rightarrow> nat) \<Rightarrow> bool \<Rightarrow> 'd matcher \<Rightarrow> bool" for idf strict where
  init: "matcher_reachable idf strict matcher_new"
| step: "matcher_reachable idf strict m \<Longrightarrow> matcher_step idf strict m r m' \<Longrightarrow> matcher_reachable idf strict m'"

text \<open>Every cell belongs to one id: \<open>own\<close> gives it.\<close>

definition owned :: "('d \<Rightarrow> nat) \<Rightarrow> (nat \<Rightarrow> nat) \<Rightarrow> 'd matcher \<Rightarrow> bool" where
  "owned idf own m \<longleftrightarrow>
     (\<forall>i c. inflight m i = Some c \<longrightarrow> c < next_cell m \<and> own c = i)
     \<and> (\<forall>i c. sent m i = Some c \<longrightarrow> c < next_cell m \<and> own c = i)
     \<and> (\<forall>c i. waiting m c = Some i \<longrightarrow> c < next_cell m \<and> own c = i)
     \<and> (\<forall>c d. c < next_cell m \<longrightarrow> cells m c = Value d \<longrightarrow> idf d = own c)"

lemma owned_send: "owned idf own m \<Longrightarrow> \<exists>own'. owned idf own' (send_msg i m)"
proof (cases "i \<in> dom (sent m)")
  case False
  assume inv: "owned idf own m"
  have "owned idf (own(next_cell m := i)) (send_msg i m)"
    using inv False
    by (fastforce simp: owned_def send_msg_def drop_sender_def Let_def less_Suc_eq split: option.splits if_splits)
  then show ?thesis by blast
qed (auto simp: send_msg_def)

lemma owned_dispatch_one:
  assumes "owned idf own m" "dispatch_one idf d m = (r, m')"
  shows "owned idf own m'"
  using assms by (auto simp: owned_def dispatch_one_def Let_def split: option.splits if_splits)

lemma owned_dispatch: "owned idf own m \<Longrightarrow> dispatch idf n res m = (r, m') \<Longrightarrow> owned idf own m'"
proof (induction idf n res m arbitrary: r m' rule: dispatch.induct)
  case (4 idf n d res m)
  then show ?case
    by (auto split: prod.splits sum.splits dest: owned_dispatch_one)
qed auto

lemma owned_step: "matcher_step idf strict m r m' \<Longrightarrow> owned idf own m \<Longrightarrow> \<exists>own'. owned idf own' m'"
proof (induction rule: matcher_step.induct)
  case (send i m)
  then show ?case by (auto intro: owned_send)
next
  case (start i m r m')
  then show ?case
    by (intro exI [of _ own]) (auto simp: owned_def recv_msg_start_def split: option.splits if_splits)
next
  case (dispatch res m r m')
  then show ?case by (auto dest: owned_dispatch)
next
  case (poll c m r m')
  then show ?case
    by (intro exI [of _ own]) (auto simp: owned_def recv_msg_poll_def split: oneshot.splits if_splits)
next
  case (cancel c m)
  then show ?case
    by (intro exI [of _ own]) (auto simp: owned_def cancel_recv_def split: if_splits)
qed

lemma matcher_owned: "matcher_reachable idf strict m \<Longrightarrow> \<exists>own. owned idf own m"
proof (induction rule: matcher_reachable.induct)
  case init
  show ?case by (auto simp: owned_def matcher_new_def)
next
  case (step m r m')
  then show ?case by (blast dest: owned_step)
qed

text \<open>Under the strict discipline, a receiver is either still connected to its sender or has its value.\<close>

definition connected :: "'d matcher \<Rightarrow> nat \<Rightarrow> nat \<Rightarrow> bool" where
  "connected m i c \<longleftrightarrow> inflight m i = Some c \<and> cells m c = Open \<or> (\<exists>d. cells m c = Value d)"

definition disciplined :: "'d matcher \<Rightarrow> bool" where
  "disciplined m \<longleftrightarrow>
     (\<forall>i c. sent m i = Some c \<longrightarrow> connected m i c)
     \<and> (\<forall>c i. waiting m c = Some i \<longrightarrow> connected m i c)
     \<and> (\<forall>i c. inflight m i = Some c \<longrightarrow> cells m c = Open \<and> (sent m i = Some c \<or> waiting m c = Some i))"

lemma ownedD:
  assumes "owned idf own m"
  shows "inflight m i = Some c \<Longrightarrow> own c = i" and "sent m i = Some c \<Longrightarrow> own c = i"
    and "waiting m c = Some i \<Longrightarrow> own c = i"
  using assms unfolding owned_def by blast+

lemma disciplinedD:
  assumes "disciplined m"
  shows "sent m i = Some c \<Longrightarrow> connected m i c" and "waiting m c = Some i \<Longrightarrow> connected m i c"
    and "inflight m i = Some c \<Longrightarrow> cells m c = Open"
    and "inflight m i = Some c \<Longrightarrow> sent m i = Some c \<or> waiting m c = Some i"
  using assms unfolding disciplined_def by blast+

lemma disciplined_send:
  assumes own: "owned idf own m" and disc: "disciplined m" and i: "i \<notin> ran (waiting m)"
  shows "disciplined (send_msg i m)"
proof (cases "i \<in> dom (sent m)")
  case False
  have "inflight m i = None"
    using disciplinedD(4) [OF disc, of i] False i by (cases "inflight m i") (auto simp: ran_def)
  then have m': "send_msg i m = m\<lparr>inflight := (inflight m)(i \<mapsto> next_cell m), sent := (sent m)(i \<mapsto> next_cell m),
      cells := (cells m)(next_cell m := Open), next_cell := next_cell m + 1\<rparr>"
    using False by (simp add: send_msg_def drop_sender_def Let_def)
  have fresh: "inflight m j \<noteq> Some (next_cell m)" "sent m j \<noteq> Some (next_cell m)" "waiting m (next_cell m) = None" for j
    using own by (auto simp: owned_def) (metis not_None_eq less_irrefl)
  show ?thesis
    using disc fresh i unfolding m' disciplined_def connected_def
    by (auto simp: ran_def)
qed (use disc in \<open>simp add: send_msg_def\<close>)

lemma disciplined_dispatch_one:
  assumes own: "owned idf own m" and disc: "disciplined m" and step: "dispatch_one idf d m = (r, m')"
  shows "disciplined m' \<and> r = Inr ()"
proof (cases "inflight m (idf d)")
  case (Some c)
  then have empty: "cells m c = Open" using disc by (simp add: disciplined_def)
  have other: "inflight m j = Some c \<longleftrightarrow> j = idf d" for j
    using ownedD(1) [OF own] Some by blast
  have "m' = m\<lparr>inflight := (inflight m)(idf d := None), cells := (cells m)(c := Value d)\<rparr>" "r = Inr ()"
    using step Some empty by (auto simp: dispatch_one_def Let_def)
  moreover have "sent m (idf d) = Some k \<Longrightarrow> k = c \<or> (\<exists>d. cells m k = Value d)"
    and "waiting m k = Some (idf d) \<Longrightarrow> k = c \<or> (\<exists>d. cells m k = Value d)" for k
    using disciplinedD(1) [OF disc, of "idf d" k] disciplinedD(2) [OF disc, of k "idf d"] Some
    by (auto simp: connected_def)
  ultimately show ?thesis
    using disc other by (auto simp: disciplined_def connected_def)
qed (use step disc in \<open>auto simp: dispatch_one_def\<close>)

lemma disciplined_dispatch:
  "owned idf own m \<Longrightarrow> disciplined m \<Longrightarrow> n \<le> length res \<Longrightarrow> dispatch idf n res m = (r, m')
     \<Longrightarrow> disciplined m' \<and> r = Inr ()"
proof (induction idf n res m arbitrary: r m' rule: dispatch.induct)
  case (4 idf n d res m)
  obtain r1 m1 where one: "dispatch_one idf d m = (r1, m1)" by (cases "dispatch_one idf d m")
  note d1 = disciplined_dispatch_one [OF "4.prems"(1,2) one]
  with one "4.IH" [OF one [symmetric], of "()"] owned_dispatch_one [OF "4.prems"(1) one] "4.prems"(3,4)
  show ?case by auto
qed auto

lemma disciplined_step:
  assumes "matcher_step idf True m r m'" "owned idf own m" "disciplined m"
  shows "disciplined m' \<and> \<not> panics r"
  using assms
proof (induction rule: matcher_step.induct)
  case (send i m)
  then show ?case by (auto intro: disciplined_send)
next
  case (start i m r m')
  show ?case
  proof (cases "sent m i")
    case (Some c)
    with start have m': "m' = m\<lparr>sent := (sent m)(i := None), waiting := (waiting m)(c \<mapsto> i)\<rparr>" "r = Inr c"
      by (auto simp: recv_msg_start_def)
    have "connected m i c" by (rule disciplinedD(1) [OF start.prems(2) Some])
    moreover have "inflight m j = Some c \<Longrightarrow> j = i" for j
      using ownedD(1) [OF start.prems(1)] ownedD(2) [OF start.prems(1) Some] by blast
    moreover have "inflight m i = Some k \<Longrightarrow> k = c \<or> waiting m k = Some i" for k
      using disciplinedD(4) [OF start.prems(2), of i k] Some by auto
    ultimately have "disciplined m'"
      using disciplinedD [OF start.prems(2)] Some
      unfolding m'(1) disciplined_def connected_def
      by (intro conjI allI impI) (auto split: if_splits)
    with m'(2) show ?thesis by simp
  qed (use start in \<open>auto simp: recv_msg_start_def\<close>)
next
  case (dispatch res m r m')
  then show ?case using disciplined_dispatch [of idf own m 4 res r m'] by simp
next
  case (poll c m r m')
  then obtain i where "waiting m c = Some i" by auto
  then have "connected m i c" by (rule disciplinedD(2) [OF poll.prems(2)])
  with poll.hyps(2) obtain d where d: "cells m c = Value d" "r = Inr d" "m' = m\<lparr>waiting := (waiting m)(c := None)\<rparr>"
    by (auto simp: recv_msg_poll_def connected_def)
  with disciplinedD(3) [OF poll.prems(2)] have "inflight m j \<noteq> Some c" for j by fastforce
  with poll.prems(2) d show ?case
    unfolding d(3) disciplined_def connected_def by auto
qed simp

lemma matcher_disciplined: "matcher_reachable idf True m \<Longrightarrow> disciplined m"
proof (induction rule: matcher_reachable.induct)
  case init
  show ?case by (simp add: disciplined_def matcher_new_def)
next
  case (step m r m')
  with matcher_owned [OF step.hyps(1)] show ?case by (auto dest: disciplined_step)
qed

section \<open>Properties\<close>

inductive steer_reachable :: "'a steer_state \<Rightarrow> bool" where
  init: "steer_reachable steer_init"
| step: "steer_reachable st \<Longrightarrow> steer_step st st' \<Longrightarrow> steer_reachable st'"

lemma steer_reachable_inv: "steer_reachable st \<Longrightarrow> steer_inv st"
proof (induction rule: steer_reachable.induct)
  case init
  show ?case by (simp add: steer_init_def steer_inv_def)
qed (rule steer_inv_step)

text \<open>
  Steering never crosses connections. Whatever packets arrive and whichever connections are read
  or dropped, every message queued on a connection came from the address that the connection was
  made for, and no two connections share a channel.
\<close>

lemma steering_is_by_address:
  assumes "steer_reachable st" "(c, a) \<in> set (conns st)" "m \<in> set (queues st c)"
  shows "fst m = a \<and> (\<forall>a'. (c, a') \<in> set (conns st) \<longrightarrow> a' = a)"
proof -
  have inv: "steer_inv st" by (rule steer_reachable_inv) (rule assms)
  then have "distinct (map fst (conns st))" by (simp add: steer_inv_def)
  with assms(2) have "\<forall>a'. (c, a') \<in> set (conns st) \<longrightarrow> a' = a" by (blast dest: eq_key_imp_eq_value)
  moreover from inv assms(2,3) have "fst m = a" by (auto simp: steer_inv_def)
  ultimately show ?thesis by blast
qed

definition ex_steer1 :: "nat steer_state" where
  "ex_steer1 = snd (steer_turn (Inr [Some (7, [1])]) steer_init)"

definition ex_steer2 :: "nat steer_state" where
  "ex_steer2 = snd (steer_turn (Inr [Some (8, [2])]) ex_steer1)"

lemma steering_is_by_address_example:
  "steer_map ex_steer2 7 = Some 0 \<and> queues ex_steer2 1 = [(8, [2])]
     \<and> (1, 8) \<in> set (conns ex_steer2) \<and> (1, 7) \<notin> set (conns ex_steer2)"
proof -
  have "steer_reachable ex_steer1"
    unfolding ex_steer1_def by (rule steer_reachable.step [OF steer_reachable.init steer_step.steer])
  then have "steer_reachable ex_steer2"
    unfolding ex_steer2_def by (rule steer_reachable.step) (rule steer_step.steer)
  moreover have "(1, 8) \<in> set (conns ex_steer2)" "(8, [2]) \<in> set (queues ex_steer2 1)"
    "steer_map ex_steer2 7 = Some 0" "queues ex_steer2 1 = [(8, [2])]"
    by (simp_all add: ex_steer2_def ex_steer1_def steer_turn_def steer_msg_def new_conn_def chan_push_def
        steer_init_def Let_def)
  moreover from steering_is_by_address [OF calculation(1-3)] have "(1, 7) \<in> set (conns ex_steer2) \<longrightarrow> (7 :: nat) = 8" by simp
  ultimately show ?thesis by simp
qed

text \<open>
  Steering loses no packet. A packet that arrives is the last message of the channel that its
  address maps to, that channel still has its reader, and the connection is handed out exactly if
  it is new: either the address had none or its reader was gone.
\<close>

lemma steering_loses_nothing:
  "case steer_turn (Inr [Some m]) st of (r, st') \<Rightarrow>
     \<exists>c. steer_map st' (fst m) = Some c \<and> last (queues st' c) = m \<and> queues st' c \<noteq> [] \<and> rx_open st' c
       \<and> r = Inr (if (\<exists>k. steer_map st (fst m) = Some k \<and> rx_open st k) then None else Some c)"
  by (auto simp: steer_turn_def steer_msg_def new_conn_def chan_push_def Let_def split: option.splits)

text \<open>
  C27: Responses are matched to their requests. However calls on clones of one matcher interleave,
  the response that \<open>recv_msg\<close> returns carries the id that was asked for.
\<close>

theorem recv_msg_matches_id:
  assumes "matcher_reachable idf strict m" "waiting m c = Some i" "recv_msg_poll c m = (Some (Inr d), m')"
  shows "idf d = i"
proof -
  obtain own where "owned idf own m" using matcher_owned [OF assms(1)] by blast
  with assms(2,3) show ?thesis
    by (auto simp: owned_def recv_msg_poll_def split: oneshot.splits) metis
qed

text \<open>Two requests whose responses arrive in the other order; messages are pairs of an id and a payload.\<close>

definition ex_match1 :: "(nat \<times> nat) matcher" where
  "ex_match1 = snd (recv_msg_start 6 (send_msg 6 (send_msg 5 matcher_new)))"

definition ex_match2 :: "(nat \<times> nat) matcher" where
  "ex_match2 = snd (dispatch fst 4 [Some (6, 60), Some (5, 50), None, None] ex_match1)"

lemma ex_match1_reachable: "matcher_reachable fst True ex_match1"
proof -
  have "matcher_reachable fst True (send_msg 5 matcher_new :: (nat \<times> nat) matcher)"
    by (rule matcher_reachable.step [OF matcher_reachable.init matcher_step.send]) (simp add: matcher_new_def)
  then have "matcher_reachable fst True (send_msg 6 (send_msg 5 matcher_new) :: (nat \<times> nat) matcher)"
    by (rule matcher_reachable.step [OF _ matcher_step.send])
       (simp add: matcher_new_def send_msg_def drop_sender_def Let_def)
  from matcher_reachable.step [OF this matcher_step.start]
  show ?thesis unfolding ex_match1_def by (metis prod.collapse)
qed

lemma ex_match2_reachable: "matcher_reachable fst True ex_match2"
proof -
  obtain r where "dispatch fst 4 [Some (6, 60), Some (5, 50), None, None] ex_match1 = (r, ex_match2)"
    unfolding ex_match2_def by (metis prod.collapse)
  from matcher_step.dispatch [OF _ this] show ?thesis
    by (rule matcher_reachable.step [OF ex_match1_reachable]) simp_all
qed

theorem recv_msg_matches_id_witness:
  "waiting ex_match2 1 = Some 6 \<and> fst (recv_msg_poll 1 ex_match2) = Some (Inr (6, 60)) \<and> fst (6 :: nat, 60 :: nat) = 6"
proof -
  have w: "waiting ex_match2 1 = Some 6" and p: "fst (recv_msg_poll 1 ex_match2) = Some (Inr (6, 60))"
    by code_simp+
  then have "recv_msg_poll 1 ex_match2 = (Some (Inr (6, 60)), snd (recv_msg_poll 1 ex_match2))"
    by (metis prod.collapse)
  from recv_msg_matches_id [OF ex_match2_reachable w this] w p show ?thesis by simp
qed

text \<open>
  Neither \<open>expect\<close> of \<open>recv_msg\<close> fails as long as no request is sent again while its response is
  awaited, no \<open>recv_msg\<close> is cancelled and the connection below returns its whole four-slot buffer.
\<close>

lemma matcher_never_panics:
  assumes "matcher_reachable idf True m" "matcher_step idf True m r m'"
  shows "\<not> panics r"
proof -
  obtain own where "owned idf own m" using matcher_owned [OF assms(1)] by blast
  with disciplined_step [OF assms(2) _ matcher_disciplined [OF assms(1)]] show ?thesis by blast
qed

lemma matcher_never_panics_example:
  "fst (dispatch fst 4 [Some (6, 60), Some (5, 50), None, None] ex_match1) = Inr ()"
proof -
  let ?d = "dispatch fst 4 [Some (6, 60), Some (5, 50), None, None] ex_match1"
  have step: "matcher_step fst True ex_match1 (fst ?d) (snd ?d)"
    by (rule matcher_step.dispatch [of _ "[Some (6, 60), Some (5, 50), None, None]"]) simp_all
  then have "\<not> panics (fst ?d)" by (rule matcher_never_panics [OF ex_match1_reachable])
  moreover have "fst ?d = Inr ()" by code_simp
  ultimately show ?thesis by simp
qed

text \<open>
  Without that discipline the matcher panics: a \<open>recv_msg\<close> that is dropped (by a timeout or a
  \<open>select!\<close>) leaves its sender in \<open>inflight\<close>, and the response then makes whichever caller receives
  it panic; so does a slice of fewer than four slots, which the receives of other chunnels return.
\<close>

lemma cancelled_recv_msg_panics_others:
  "panics (fst (dispatch fst 4 [Some (6, 60), None, None, None] (cancel_recv 1 ex_match1)))
   \<and> panics (fst (dispatch fst 4 [Some (6, 60)] ex_match1))"
proof
  show "panics (fst (dispatch fst 4 [Some (6, 60), None, None, None] (cancel_recv 1 ex_match1)))" by code_simp
  show "panics (fst (dispatch fst 4 [Some (6, 60)] ex_match1))" by code_simp
qed

end
