(* ===== verification/Codecs.thy ===== *)
theory Codecs
  imports Connections
begin

text \<open>
  Connections that translate messages on their way: the serializing chunnels of \<open>bertha/src/bincode.rs\<close>,
  the data-type projections of \<open>either.rs\<close>, and the address projection and the empty connection of
  \<open>util.rs\<close>. A connection below is what it returns into a buffer of the given length: \<open>None\<close> when it
  waits, the slice it hands back otherwise.
\<close>

type_synonym 'd inner_recv = "nat \<Rightarrow> 'd option list result option"

text \<open>\<open>iter_mut().map_while(Option::take)\<close>: the messages before the first empty slot.\<close>

fun map_while_take :: "'d option list \<Rightarrow> 'd list" where
  "map_while_take (Some d # slots) = d # map_while_take slots"
| "map_while_take _ = []"

lemma map_while_take_Some [simp]: "map_while_take (map Some ds @ replicate n None) = ds"
  by (induction ds) (cases n, auto)

lemma length_map_while_take: "length (map_while_take slots) \<le> length slots"
  by (induction slots rule: map_while_take.induct) auto

lemma map_while_take_split:
  obtains rest where "slots = map Some (map_while_take slots) @ rest" "rest = [] \<or> hd rest = None"
proof -
  have "\<exists>rest. slots = map Some (map_while_take slots) @ rest \<and> (rest = [] \<or> hd rest = None)"
    by (induction slots rule: map_while_take.induct) auto
  with that show ?thesis by blast
qed

section \<open>Translating connections\<close>

text \<open>
  \<open>send\<close>: the burst is translated as a whole before anything is sent, so an error sends nothing.
\<close>

fun collect_results :: "('a \<Rightarrow> 'b result) \<Rightarrow> 'a list \<Rightarrow> 'b list result" where
  "collect_results f [] = Inr []"
| "collect_results f (x # xs) = res_bind (f x) (\<lambda>y. res_bind (collect_results f xs) (\<lambda>ys. Inr (y # ys)))"

definition with_addr :: "('d \<Rightarrow> 'w result) \<Rightarrow> 'a \<times> 'd \<Rightarrow> ('a \<times> 'w) result" where
  "with_addr f m = res_bind (f (snd m)) (\<lambda>w. Inr (fst m, w))"

text \<open>
  The loop over \<open>map_while(take).zip(msgs_buf.iter_mut())\<close>: the messages decoded so far are in their
  slots when an error ends it. The count is \<open>ret_len\<close>.
\<close>

fun decode_slots :: "('w \<Rightarrow> 'd result) \<Rightarrow> 'w list \<Rightarrow> 'd option list \<Rightarrow> nat result \<times> 'd option list" where
  "decode_slots dec (m # ms) (slot # slots) =
     (case dec m of
        Inl e \<Rightarrow> (Inl e, slot # slots)
      | Inr d \<Rightarrow>
          (case decode_slots dec ms slots of
             (r, slots') \<Rightarrow> (res_bind r (\<lambda>n. Inr (n + 1)), Some d # slots')))"
| "decode_slots dec _ slots = (Inr 0, slots)"

text \<open>The slice returned, and the whole buffer as the caller finds it afterwards.\<close>

definition decode_recv ::
  "('w \<Rightarrow> 'd result) \<Rightarrow> 'w inner_recv \<Rightarrow> 'd option list \<Rightarrow> ('d option list result \<times> 'd option list) option" where
  "decode_recv dec inner msgs_buf =
     map_option (\<lambda>r. case r of
         Inl e \<Rightarrow> (Inl e, msgs_buf)
       | Inr bufs \<Rightarrow>
           (case decode_slots dec (map_while_take bufs) msgs_buf of
              (n, msgs_buf') \<Rightarrow> (res_bind n (\<lambda>n. Inr (take n msgs_buf')), msgs_buf')))
       (inner (length msgs_buf))"

lemma with_addr_Inr_iff: "with_addr f m = Inr y \<longleftrightarrow> (\<exists>w. f (snd m) = Inr w \<and> y = (fst m, w))"
  by (auto simp: with_addr_def res_bind_Inr_iff)

lemma decode_slots_ok:
  "length ms \<le> length slots \<Longrightarrow> collect_results dec ms = Inr ds \<Longrightarrow>
   decode_slots dec ms slots = (Inr (length ms), map Some ds @ drop (length ms) slots)"
  by (induction dec ms slots arbitrary: ds rule: decode_slots.induct)
     (auto simp: res_bind_Inr_iff split: sum.splits)

lemma decode_slots_length:
  "decode_slots dec ms slots = (r, slots') \<Longrightarrow> length slots' = length slots"
  by (induction dec ms slots arbitrary: r slots' rule: decode_slots.induct)
     (auto split: sum.splits prod.splits)

text \<open>A message that cannot be decoded fails the call, whatever was decoded before it.\<close>

lemma decode_slots_fails:
  "length ms < length slots \<Longrightarrow> collect_results dec ms = Inr ds \<Longrightarrow> dec bad = Inl e \<Longrightarrow>
   fst (decode_slots dec (ms @ bad # rest) slots) = Inl e"
proof (induction ms arbitrary: slots ds)
  case Nil
  then show ?case by (cases slots) auto
next
  case (Cons m ms)
  then obtain slot slots' where "slots = slot # slots'" by (cases slots) auto
  moreover from Cons.prems obtain d ds' where "dec m = Inr d" "collect_results dec ms = Inr ds'"
    by (auto simp: res_bind_Inr_iff)
  ultimately show ?case using Cons.IH [of slots' ds'] Cons.prems by (auto split: prod.splits)
qed

lemma collect_results_length: "collect_results f xs = Inr ys \<Longrightarrow> length ys = length xs"
  by (induction xs arbitrary: ys) (auto simp: res_bind_Inr_iff)

lemma collect_results_map: "(\<And>x. x \<in> set xs \<Longrightarrow> f x = Inr (g x)) \<Longrightarrow> collect_results f xs = Inr (map g xs)"
  by (induction xs) auto

text \<open>
  What a translation promises: decoding undoes encoding. The connection that uses it is then
  transparent: what one end sends, the other receives.
\<close>

locale codec =
  fixes enc :: "'d \<Rightarrow> 'w result" and dec :: "'w \<Rightarrow> 'd result"
  assumes dec_enc: "enc d = Inr w \<Longrightarrow> dec w = Inr d"
begin

lemma dec_enc_burst: "collect_results enc burst = Inr ws \<Longrightarrow> collect_results dec ws = Inr burst"
  by (induction burst arbitrary: ws) (auto simp: res_bind_Inr_iff dec_enc)

text \<open>One end sends a burst, the other finds it, whole and alone, in the slice returned to it.\<close>

lemma codec_transparent:
  assumes "collect_results enc burst = Inr ws" "length burst \<le> length msgs_buf"
    "inner (length msgs_buf) = Some (Inr (map Some ws @ replicate n None))"
  shows "decode_recv dec inner msgs_buf
     = Some (Inr (map Some burst), map Some burst @ drop (length burst) msgs_buf)"
proof -
  have len: "length ws = length burst" by (rule collect_results_length) (rule assms)
  show ?thesis
    using decode_slots_ok [OF _ dec_enc_burst [OF assms(1)], of msgs_buf] assms(2,3) len
    by (simp add: decode_recv_def)
qed

lemma codec_with_addr: "with_addr enc m = Inr w \<Longrightarrow> with_addr dec w = Inr m"
  by (cases m) (auto simp: with_addr_Inr_iff dec_enc)

end

text \<open>The same translation on addressed messages.\<close>

locale addressed_codec = codec enc dec for enc :: "'d \<Rightarrow> 'w result" and dec :: "'w \<Rightarrow> 'd result"

sublocale addressed_codec \<subseteq> addressed: codec "with_addr enc" "with_addr dec"
  by unfold_locales (rule codec_with_addr)

context addressed_codec
begin

lemma addressed_transparent:
  assumes "collect_results (with_addr enc) burst = Inr ws" "length burst \<le> length msgs_buf"
    "inner (length msgs_buf) = Some (Inr (map Some ws @ replicate n None))"
  shows "map_option fst (decode_recv (with_addr dec) inner msgs_buf) = Some (Inr (map Some burst))"
  using addressed.codec_transparent [of burst ws msgs_buf inner n] assms by simp

end

section \<open>SerializeCn and Base64Cn\<close>

text \<open>\<open>bincode\<close> and \<open>base64\<close> are parameters; \<open>base64::encode\<close> does not fail.\<close>

definition serialize_send :: "('d \<Rightarrow> bytes result) \<Rightarrow> ('a \<times> 'd) list \<Rightarrow> ('a \<times> bytes) list result" where
  "serialize_send serialize = collect_results (with_addr (\<lambda>d. wrap_err ''serialize error'' (serialize d)))"

definition serialize_recv ::
  "(bytes \<Rightarrow> 'd result) \<Rightarrow> ('a \<times> bytes) inner_recv \<Rightarrow> ('a \<times> 'd) option list
     \<Rightarrow> (('a \<times> 'd) option list result \<times> ('a \<times> 'd) option list) option" where
  "serialize_recv deserialize = decode_recv (with_addr (\<lambda>b. wrap_err ''deserialize failed'' (deserialize b)))"

definition base64_send :: "(bytes \<Rightarrow> string) \<Rightarrow> ('a \<times> bytes) list \<Rightarrow> ('a \<times> string) list" where
  "base64_send encode burst = map (\<lambda>(a, d). (a, encode d)) burst"

definition base64_recv ::
  "(string \<Rightarrow> bytes result) \<Rightarrow> ('a \<times> string) inner_recv \<Rightarrow> ('a \<times> bytes) option list
     \<Rightarrow> (('a \<times> bytes) option list result \<times> ('a \<times> bytes) option list) option" where
  "base64_recv decode = decode_recv (with_addr (\<lambda>s. wrap_err ''base64 decode failed'' (decode s)))"

lemma base64_send_eq: "collect_results (with_addr (\<lambda>d. Inr (encode d))) burst = Inr (base64_send encode burst)"
  by (induction burst) (auto simp: base64_send_def with_addr_def)

lemma serialize_codec:
  assumes "\<And>d b. serialize d = Inr b \<Longrightarrow> deserialize b = Inr d"
  shows "addressed_codec (\<lambda>d. wrap_err ''serialize error'' (serialize d)) (\<lambda>b. wrap_err ''deserialize failed'' (deserialize b))"
  using assms by unfold_locales auto

lemma base64_codec:
  assumes "\<And>d. decode (encode d) = Inr d"
  shows "addressed_codec (\<lambda>d. Inr (encode d)) (\<lambda>s. wrap_err ''base64 decode failed'' (decode s))"
  using assms by unfold_locales auto

section \<open>EitherCn\<close>

text \<open>A connection over \<open>DataEither\<close>, of which only one side is expected.\<close>

datatype ('l, 'r) data_either = DLeft 'l | DRight 'r

fun data_flip :: "('l, 'r) data_either \<Rightarrow> ('r, 'l) data_either" where
  "data_flip (DLeft a) = DRight a"
| "data_flip (DRight a) = DLeft a"

definition inject_left :: "'l \<Rightarrow> ('l, 'r) data_either result" where
  "inject_left d = Inr (DLeft d)"

definition inject_right :: "'r \<Rightarrow> ('l, 'r) data_either result" where
  "inject_right d = Inr (DRight d)"

fun extract_left :: "('l, 'r) data_either \<Rightarrow> 'l result" where
  "extract_left (DLeft d) = Inr d"
| "extract_left (DRight _) = eyre ''Incompatible data type''"

fun extract_right :: "('l, 'r) data_either \<Rightarrow> 'r result" where
  "extract_right (DRight d) = Inr d"
| "extract_right (DLeft _) = eyre ''Incompatible data type''"

definition either_send_left :: "('a \<times> 'l) list \<Rightarrow> ('a \<times> ('l, 'r) data_either) list result" where
  "either_send_left = collect_results (with_addr inject_left)"

definition either_send_right :: "('a \<times> 'r) list \<Rightarrow> ('a \<times> ('l, 'r) data_either) list result" where
  "either_send_right = collect_results (with_addr inject_right)"

definition either_recv_left ::
  "('a \<times> ('l, 'r) data_either) inner_recv \<Rightarrow> ('a \<times> 'l) option list
     \<Rightarrow> (('a \<times> 'l) option list result \<times> ('a \<times> 'l) option list) option" where
  "either_recv_left = decode_recv (with_addr extract_left)"

definition either_recv_right ::
  "('a \<times> ('l, 'r) data_either) inner_recv \<Rightarrow> ('a \<times> 'r) option list
     \<Rightarrow> (('a \<times> 'r) option list result \<times> ('a \<times> 'r) option list) option" where
  "either_recv_right = decode_recv (with_addr extract_right)"

interpretation left_side: addressed_codec "inject_left :: 'l \<Rightarrow> ('l, 'r) data_either result" extract_left
  by unfold_locales (auto simp: inject_left_def)

interpretation right_side: addressed_codec "inject_right :: 'r \<Rightarrow> ('l, 'r) data_either result" extract_right
  by unfold_locales (auto simp: inject_right_def)

lemma either_send_left_eq: "either_send_left burst = Inr (map (\<lambda>(a, d). (a, DLeft d)) burst)"
  by (induction burst) (auto simp: either_send_left_def inject_left_def with_addr_def)

lemma either_send_right_eq: "either_send_right burst = Inr (map (\<lambda>(a, d). (a, DRight d)) burst)"
  by (induction burst) (auto simp: either_send_right_def inject_right_def with_addr_def)

section \<open>ProjectLeft, Option and NeverCn\<close>

definition project_send :: "'a \<Rightarrow> 'd list \<Rightarrow> ('a \<times> 'd) list" where
  "project_send addr burst = map (\<lambda>data. (addr, data)) burst"

fun fill_slots :: "'d list \<Rightarrow> 'd option list \<Rightarrow> 'd option list" where
  "fill_slots (d # ds) (slot # slots) = Some d # fill_slots ds slots"
| "fill_slots _ slots = slots"

text \<open>The whole buffer is returned, not only the slots that were filled.\<close>

definition project_recv :: "('a \<times> 'd) inner_recv \<Rightarrow> 'd option list \<Rightarrow> 'd option list result option" where
  "project_recv inner msgs_buf =
     map_option (\<lambda>r. res_bind r (\<lambda>msgs. Inr (fill_slots (map snd (map_while_take msgs)) msgs_buf)))
       (inner (length msgs_buf))"

lemma fill_slots_eq: "fill_slots ds slots = map Some (take (length slots) ds) @ drop (length ds) slots"
  by (induction ds slots rule: fill_slots.induct) auto

definition never_send :: "'d list \<Rightarrow> unit result" where
  "never_send _ = eyre ''No sends allowed on Never Chunnel''"

definition never_recv :: "'d option list \<Rightarrow> 'd option list result" where
  "never_recv _ = eyre ''Unexpected recv in Never chunnel''"

section \<open>Properties\<close>

text \<open>
  A serialized connection is transparent. If the serializer is invertible, a burst that one end
  serializes and sends is, when the connection below hands over its messages, exactly the slice that
  the other end's \<open>recv\<close> returns, whatever the buffer held before.
\<close>

lemma serialize_round_trip:
  assumes "\<And>d b. serialize d = Inr b \<Longrightarrow> deserialize b = Inr d"
    and "serialize_send serialize burst = Inr ws"
    and "length burst \<le> length msgs_buf"
    and "inner (length msgs_buf) = Some (Inr (map Some ws @ replicate n None))"
  shows "map_option fst (serialize_recv deserialize inner msgs_buf) = Some (Inr (map Some burst))"
proof -
  have codec: "addressed_codec (\<lambda>d. wrap_err ''serialize error'' (serialize d))
      (\<lambda>b. wrap_err ''deserialize failed'' (deserialize b))"
    by (rule serialize_codec) (rule assms(1))
  show ?thesis
    using addressed_codec.addressed_transparent [OF codec, of burst ws msgs_buf inner n] assms(2-4)
    by (simp add: serialize_recv_def serialize_send_def)
qed

text \<open>A one-byte serializer for the witness.\<close>

definition ex_serialize :: "u8 \<Rightarrow> bytes result" where
  "ex_serialize d = Inr [d]"

fun ex_deserialize :: "bytes \<Rightarrow> u8 result" where
  "ex_deserialize [d] = Inr d"
| "ex_deserialize _ = eyre ''invalid length''"

lemma serialize_round_trip_example:
  "map_option fst (serialize_recv ex_deserialize (\<lambda>_. Some (Inr [Some (7 :: nat, [42]), None])) [Some (1, 2), None])
     = Some (Inr [Some (7, 42)])"
proof -
  have "serialize_send ex_serialize [(7 :: nat, 42)] = Inr [(7, [42])]"
    by (simp add: serialize_send_def with_addr_def ex_serialize_def)
  from serialize_round_trip [OF _ this, of ex_deserialize "[Some (1, 2), None]"
      "\<lambda>_. Some (Inr [Some (7 :: nat, [42]), None])" 1]
  show ?thesis by (simp add: ex_serialize_def)
qed

text \<open>
  Connections over \<open>DataEither\<close>. Two ends on the same side exchange their messages unchanged; a
  message of the other side makes \<open>recv\<close> fail, after the messages before it were taken from the
  connection below, so that they are lost to a caller that only looks at the result.
\<close>

lemma either_cn_behaviour:
  fixes burst :: "('a \<times> 'l) list" and other :: 'r
  assumes "length burst < length msgs_buf"
    and "\<And>n. inner n = Some (Inr (map (\<lambda>(a, d). Some (a, DLeft d)) burst))"
    and "\<And>n. inner' n = Some (Inr (map (\<lambda>(a, d). Some (a, DLeft d)) burst @ [Some (addr, DRight other)]))"
  shows "map_option fst (either_recv_left inner msgs_buf) = Some (Inr (map Some burst))
    \<and> map_option fst (either_recv_left inner' msgs_buf) = Some (eyre ''Incompatible data type'')"
proof
  have left_collect: "collect_results (with_addr extract_left) (map (\<lambda>(a, d). (a, DLeft d)) burst) = Inr burst"
    by (rule left_side.addressed.dec_enc_burst) (rule either_send_left_eq [unfolded either_send_left_def])
  have in_eq: "inner n = Some (Inr (map Some (map (\<lambda>(a, d). (a, DLeft d)) burst) @ replicate 0 None))" for n
    using assms(2) by (auto simp: case_prod_unfold)
  from left_side.addressed_transparent [OF either_send_left_eq [unfolded either_send_left_def] _ in_eq]
  show "map_option fst (either_recv_left inner msgs_buf) = Some (Inr (map Some burst))"
    using assms(1) by (simp add: either_recv_left_def)
  have "fst (decode_slots (with_addr extract_left) (map (\<lambda>(a, d). (a, DLeft d)) burst @ [(addr, DRight other)]) msgs_buf)
      = eyre ''Incompatible data type''"
    using assms(1) left_collect by (intro decode_slots_fails) (auto simp: with_addr_def)
  moreover have "map_while_take (map (\<lambda>(a, d). Some (a, DLeft d)) burst @ [Some (addr, DRight other)])
      = map (\<lambda>(a, d). (a, DLeft d)) burst @ [(addr, DRight other)]"
    by (induction burst) auto
  ultimately show "map_option fst (either_recv_left inner' msgs_buf) = Some (eyre ''Incompatible data type'')"
    using assms(3) by (auto simp: either_recv_left_def decode_recv_def split: prod.splits)
qed

lemma either_cn_behaviour_example:
  "map_option fst (either_recv_left (\<lambda>n. Some (Inr [Some (1 :: nat, DLeft True)])) [None, None])
       = Some (Inr [Some (1, True)])
   \<and> map_option fst (either_recv_left (\<lambda>n. Some (Inr [Some (1 :: nat, DLeft True), Some (2, DRight (0 :: nat))])) [None, None])
       = Some (eyre ''Incompatible data type'')"
  using either_cn_behaviour [of "[(1 :: nat, True)]" "[None, None]" "\<lambda>n. Some (Inr [Some (1, DLeft True)])"
      "\<lambda>n. Some (Inr [Some (1, DLeft True), Some (2, DRight (0 :: nat))])" 2 0]
  by (simp add: either_recv_left_def decode_recv_def)

end
