(* ===== verification/Pump.thy ===== *)
theory Pump
  imports Connections "HOL-Library.Multiset"
begin

text \<open>
  Concurrency inside a stack: the task that \<open>Split\<close> spawns to move messages between the lower half of
  a stack and the channel pair of its upper half (\<open>bertha/src/split.rs\<close>), and the stream combinator
  that polls a stream and the futures made from its items (\<open>and_then_concurrent.rs\<close>).
\<close>

section \<open>Split\<close>

text \<open>
  \<open>up\<close> carries messages from \<open>SplitCnBottom::send\<close> to the task, \<open>down\<close> from the task to
  \<open>SplitCnBottom::recv\<close>; both are bounded by 100. \<open>holding\<close> is the message the task received from the
  connection and is sending on \<open>down\<close>. The last four fields record what was accepted from the
  application, handed to the connection, received from the connection, and returned to the application.
\<close>

record 'd split_state =
  split_starter :: bool
  top_running :: bool
  bottom_open :: bool
  up :: "'d list"
  down :: "'d list"
  holding :: "'d option"
  app_sent :: "'d list"
  conn_sent :: "'d list"
  conn_recvd :: "'d list"
  app_recvd :: "'d list"

definition split_pair :: "'d split_state" where
  "split_pair = \<lparr>split_starter = True, top_running = False, bottom_open = True, up = [], down = [],
     holding = None, app_sent = [], conn_sent = [], conn_recvd = [], app_recvd = []\<rparr>"

abbreviation capacity :: nat where "capacity \<equiv> 100"

text \<open>The first \<open>send\<close> or \<open>recv\<close> takes the starter and spawns the task.\<close>

definition spawn_top :: "'d split_state \<Rightarrow> 'd split_state" where
  "spawn_top st = (if split_starter st then st\<lparr>split_starter := False, top_running := True\<rparr> else st)"

text \<open>
  One message of \<open>SplitCnBottom::send\<close>: \<open>None\<close> while the channel is full; an error once the task has
  ended and dropped its receiver.
\<close>

definition bottom_send :: "'d \<Rightarrow> 'd split_state \<Rightarrow> unit result option \<times> 'd split_state" where
  "bottom_send m st =
     (let st1 = spawn_top st in
      if \<not> top_running st1 then (Some (eyre ''sending on a closed channel''), st1)
      else if length (up st1) < capacity
      then (Some (Inr ()), st1\<lparr>up := up st1 @ [m], app_sent := app_sent st1 @ [m]\<rparr>)
      else (None, st1))"

text \<open>
  \<open>SplitCnBottom::recv\<close>; \<open>waited\<close> says that the channel was empty when the call looked, and the
  messages of \<open>down\<close> arrived while it waited.
\<close>

definition bottom_recv ::
  "bool \<Rightarrow> 'd option list \<Rightarrow> 'd split_state \<Rightarrow> 'd option list result option \<times> 'd split_state" where
  "bottom_recv waited buf st =
     (let st1 = spawn_top st in
      case split_recv (top_running st1) buf (if waited then [] else down st1) (down st1) of
        None \<Rightarrow> (None, st1)
      | Some (Inl e) \<Rightarrow> (Some (Inl e), st1)
      | Some (Inr (buf', rest)) \<Rightarrow>
          (let n = length (down st1) - length rest in
           (Some (Inr (take n buf')), st1\<lparr>down := rest, app_recvd := app_recvd st1 @ take n (down st1)\<rparr>)))"

text \<open>
  The branches of the task's \<open>select\<close>. A message from the channel is handed to the connection, whose
  \<open>send\<close> returns \<open>r\<close>; an error ends the task. The other branch does not run while this one awaits.
\<close>

definition top_stop :: "'d split_state \<Rightarrow> 'd split_state" where
  "top_stop st = st\<lparr>top_running := False\<rparr>"

definition top_chan :: "unit result \<Rightarrow> 'd split_state \<Rightarrow> 'd split_state" where
  "top_chan r st =
     (if \<not> top_running st \<or> holding st \<noteq> None then st
      else (case up st of
              [] \<Rightarrow> (if bottom_open st then st else top_stop st)
            | m # rest \<Rightarrow>
                (let st1 = st\<lparr>up := rest, conn_sent := conn_sent st @ [m]\<rparr> in
                 if is_ok r then st1 else top_stop st1)))"

text \<open>What the connection's \<open>recv\<close> into one slot gave: its first slot is taken, or the task ends.\<close>

definition top_conn :: "'d option list result \<Rightarrow> 'd split_state \<Rightarrow> 'd split_state" where
  "top_conn r st =
     (if \<not> top_running st \<or> holding st \<noteq> None then st
      else (case r of
              Inr (Some m # _) \<Rightarrow> st\<lparr>holding := Some m, conn_recvd := conn_recvd st @ [m]\<rparr>
            | _ \<Rightarrow> top_stop st))"

definition top_push :: "'d split_state \<Rightarrow> 'd split_state" where
  "top_push st =
     (case holding st of
        Some m \<Rightarrow>
          (if \<not> top_running st then st
           else if \<not> bottom_open st then top_stop st
           else if length (down st) < capacity then st\<lparr>holding := None, down := down st @ [m]\<rparr>
           else st)
      | None \<Rightarrow> st)"

definition drop_bottom :: "'d split_state \<Rightarrow> 'd split_state" where
  "drop_bottom st = st\<lparr>bottom_open := False\<rparr>"

text \<open>The application's receives use buffers of two or more slots.\<close>

inductive split_step :: "'d split_state \<Rightarrow> 'd split_state \<Rightarrow> bool" where
  send: "bottom_open st \<Longrightarrow> split_step st (snd (bottom_send m st))"
| recv: "bottom_open st \<Longrightarrow> 1 < length buf \<Longrightarrow> split_step st (snd (bottom_recv waited buf st))"
| drop: "split_step st (drop_bottom st)"
| chan: "split_step st (top_chan r st)"
| conn: "split_step st (top_conn r' st)"
| push: "split_step st (top_push st)"

inductive split_reachable :: "'d split_state \<Rightarrow> bool" where
  init: "split_reachable split_pair"
| step: "split_reachable st \<Longrightarrow> split_step st st' \<Longrightarrow> split_reachable st'"

definition held :: "'d split_state \<Rightarrow> 'd list" where
  "held st = (case holding st of None \<Rightarrow> [] | Some m \<Rightarrow> [m])"

definition split_inv :: "'d split_state \<Rightarrow> bool" where
  "split_inv st \<longleftrightarrow>
     conn_sent st @ up st = app_sent st
     \<and> app_recvd st @ down st @ held st = conn_recvd st
     \<and> length (up st) \<le> capacity \<and> length (down st) \<le> capacity
     \<and> (split_starter st \<longrightarrow> \<not> top_running st \<and> conn_sent st = [] \<and> conn_recvd st = [])"

lemma split_inv_spawn: "split_inv st \<Longrightarrow> split_inv (spawn_top st)"
  by (auto simp: split_inv_def spawn_top_def held_def)

lemma spawn_top_starter [simp]: "\<not> split_starter (spawn_top st)"
  by (simp add: spawn_top_def)

lemma split_inv_send: "split_inv st \<Longrightarrow> split_inv (snd (bottom_send m st))"
  using split_inv_spawn [of st] spawn_top_starter [of st]
  by (simp add: bottom_send_def Let_def) (auto simp: split_inv_def held_def)

lemma take_drop_append: "take n q @ drop n q @ x = q @ x"
  by (metis append_assoc append_take_drop_id)

lemma split_inv_recv:
  assumes inv: "split_inv st" and len: "1 < length buf"
  shows "split_inv (snd (bottom_recv waited buf st))"
proof (cases "down (spawn_top st) = []")
  case True
  then show ?thesis using split_inv_spawn [OF inv] by (simp add: bottom_recv_def Let_def split_recv_def)
next
  case False
  let ?q = "down (spawn_top st)"
  have "split_recv (top_running (spawn_top st)) buf (if waited then [] else ?q) ?q
      = Some (Inr (map Some (take (length buf) ?q) @ drop (length ?q) buf, drop (length buf) ?q))"
    using split_recv_ok [OF len, of "if waited then [] else ?q" ?q] False by (simp add: Let_def)
  moreover have "take (length ?q - (length ?q - length buf)) ?q = take (length buf) ?q"
    by (cases "length buf \<le> length ?q") auto
  ultimately show ?thesis
    using split_inv_spawn [OF inv] spawn_top_starter [of st]
    by (simp add: bottom_recv_def Let_def split_inv_def held_def le_diff_conv take_drop_append)
qed

lemma split_inv_step: "split_step st st' \<Longrightarrow> split_inv st \<Longrightarrow> split_inv st'"
proof (induction rule: split_step.induct)
  case (send st m)
  then show ?case by (simp add: split_inv_send)
next
  case (recv st buf waited)
  then show ?case by (simp add: split_inv_recv)
qed (auto simp: split_inv_def held_def drop_bottom_def top_chan_def top_conn_def top_push_def top_stop_def Let_def
      split: list.splits option.splits sum.splits)

lemma split_reachable_inv: "split_reachable st \<Longrightarrow> split_inv st"
proof (induction rule: split_reachable.induct)
  case init
  show ?case by (simp add: split_inv_def split_pair_def held_def)
qed (rule split_inv_step)

section \<open>AndThenConcurrent\<close>

text \<open>
  A stream is what its polls return, in order; when the list is used up it is pending.
  \<open>FuturesUnordered\<close> is library code: \<open>poll_futs\<close> polls it, returning what is ready and the futures
  that remain.
\<close>

datatype 'x poll = Pending | Ready 'x

type_synonym 'a stream_poll = "'a result option poll"

record ('a, 'f) concurrent =
  stream_polls :: "'a stream_poll list"
  futs :: "'f list"

definition try_poll_next :: "('a, 'f) concurrent \<Rightarrow> 'a stream_poll \<times> ('a, 'f) concurrent" where
  "try_poll_next st =
     (case stream_polls st of [] \<Rightarrow> (Pending, st) | p # ps \<Rightarrow> (p, st\<lparr>stream_polls := ps\<rparr>))"

definition futs_push :: "'f \<Rightarrow> ('a, 'f) concurrent \<Rightarrow> ('a, 'f) concurrent" where
  "futs_push f st = st\<lparr>futs := futs st @ [f]\<rparr>"

definition poll_futs_then_stream ::
  "('f list \<Rightarrow> 'b stream_poll \<times> 'f list) \<Rightarrow> ('a \<Rightarrow> 'f) \<Rightarrow> ('a, 'f) concurrent
     \<Rightarrow> 'b stream_poll \<times> ('a, 'f) concurrent" where
  "poll_futs_then_stream poll_futs fn st =
     (case poll_futs (futs st) of
        (Pending, fs) \<Rightarrow>
          (case try_poll_next (st\<lparr>futs := fs\<rparr>) of
             (Ready (Some (Inr n)), st1) \<Rightarrow> (Pending, futs_push (fn n) st1)
           | (_, st1) \<Rightarrow> (Pending, st1))
      | (x, fs) \<Rightarrow> (x, st\<lparr>futs := fs\<rparr>))"

definition poll_next ::
  "('f list \<Rightarrow> 'b stream_poll \<times> 'f list) \<Rightarrow> ('a \<Rightarrow> 'f) \<Rightarrow> ('a, 'f) concurrent
     \<Rightarrow> 'b stream_poll \<times> ('a, 'f) concurrent" where
  "poll_next poll_futs fn st =
     (case try_poll_next st of
        (Ready (Some (Inr n)), st1) \<Rightarrow> poll_futs_then_stream poll_futs fn (futs_push (fn n) st1)
      | (Ready (Some (Inl e)), st1) \<Rightarrow> (Ready (Some (Inl e)), st1)
      | (Pending, st1) \<Rightarrow> if futs st1 = [] then (Pending, st1) else poll_futs_then_stream poll_futs fn st1
      | (Ready None, st1) \<Rightarrow> poll_futs_then_stream poll_futs fn st1)"

fun ok_items :: "'a stream_poll list \<Rightarrow> 'a list" where
  "ok_items [] = []"
| "ok_items (Ready (Some (Inr n)) # ps) = n # ok_items ps"
| "ok_items (_ # ps) = ok_items ps"

fun err_items :: "'a stream_poll list \<Rightarrow> failure list" where
  "err_items [] = []"
| "err_items (Ready (Some (Inl e)) # ps) = e # err_items ps"
| "err_items (_ # ps) = err_items ps"

lemma stream_polls_try:
  "try_poll_next st = (p, st1) \<Longrightarrow>
     futs st1 = futs st \<and> (stream_polls st = p # stream_polls st1 \<or> stream_polls st = stream_polls st1 \<and> p = Pending)"
  by (auto simp: try_poll_next_def split: list.splits)

text \<open>What the code relies on of \<open>FuturesUnordered::poll_next\<close>.\<close>

definition polls_futures :: "('f list \<Rightarrow> 'b stream_poll \<times> 'f list) \<Rightarrow> bool" where
  "polls_futures poll_futs \<longleftrightarrow>
     (\<forall>fs fs' x. poll_futs fs = (x, fs') \<longrightarrow>
        (case x of
           Pending \<Rightarrow> fs \<noteq> [] \<and> mset fs' = mset fs
         | Ready None \<Rightarrow> fs = [] \<and> fs' = []
         | Ready (Some r) \<Rightarrow> \<exists>f. mset fs = add_mset f (mset fs')))"

text \<open>The futures that a poll completed: at most one, and none when it returns pending.\<close>

definition conserved ::
  "('a \<Rightarrow> 'f) \<Rightarrow> ('a, 'f) concurrent \<Rightarrow> 'a stream_poll list \<Rightarrow> 'b stream_poll \<Rightarrow> ('a, 'f) concurrent \<Rightarrow> bool" where
  "conserved fn st cs x st' \<longleftrightarrow>
     (\<exists>finished. size finished \<le> 1 \<and> (x = Pending \<longrightarrow> finished = {#})
        \<and> mset (futs st) + mset (map fn (ok_items cs)) = mset (futs st') + finished)"

lemma conserved_futs_then_stream:
  assumes law: "polls_futures poll_futs" and x: "poll_futs_then_stream poll_futs fn st = (x, st')"
  shows "\<exists>cs. stream_polls st = cs @ stream_polls st' \<and> length cs \<le> 1 \<and> conserved fn st cs x st'"
proof -
  obtain y fs where y: "poll_futs (futs st) = (y, fs)" by (cases "poll_futs (futs st)")
  obtain p st1 where p: "try_poll_next (st\<lparr>futs := fs\<rparr>) = (p, st1)" by (cases "try_poll_next (st\<lparr>futs := fs\<rparr>)")
  have law': "case y of Pending \<Rightarrow> futs st \<noteq> [] \<and> mset fs = mset (futs st)
      | Ready None \<Rightarrow> futs st = [] \<and> fs = [] | Ready (Some r) \<Rightarrow> \<exists>f. mset (futs st) = add_mset f (mset fs)"
    using law y unfolding polls_futures_def by blast
  show ?thesis
  proof (cases y)
    case Pending
    with x y p law' stream_polls_try [OF p] show ?thesis
      by (auto simp: poll_futs_then_stream_def conserved_def futs_push_def
          split: poll.splits option.splits sum.splits intro!: exI [of _ "if stream_polls st = stream_polls st1 then [] else [p]"])
  next
    case (Ready r)
    show ?thesis
    proof (cases r)
      case None
      with x y law' Ready show ?thesis by (auto simp: poll_futs_then_stream_def conserved_def intro!: exI [of _ "[]"])
    next
      case (Some r')
      with law' Ready obtain f where "mset (futs st) = add_mset f (mset fs)" by auto
      with x y Ready Some show ?thesis
        by (auto simp: poll_futs_then_stream_def conserved_def intro!: exI [of _ "[]"] exI [of _ "{#f#}"])
    qed
  qed
qed

lemma conserved_cons:
  assumes "conserved fn st1 cs x st'" "mset (futs st) + mset (map fn (ok_items [p])) = mset (futs st1)"
  shows "conserved fn st (p # cs) x st'"
proof -
  have "ok_items (p # cs) = ok_items [p] @ ok_items cs"
    by (cases "[p]" rule: ok_items.cases) auto
  with assms show ?thesis by (auto simp: conserved_def add.assoc [symmetric])
qed

lemma conserved_poll_next:
  assumes law: "polls_futures poll_futs" and x: "poll_next poll_futs fn st = (x, st')"
  shows "\<exists>cs. stream_polls st = cs @ stream_polls st' \<and> length cs \<le> 2 \<and> conserved fn st cs x st'"
proof -
  obtain p st1 where p: "try_poll_next st = (p, st1)" by (cases "try_poll_next st")
  note st1 = stream_polls_try [OF p]
  define st2 where "st2 = (case p of Ready (Some (Inr n)) \<Rightarrow> futs_push (fn n) st1 | _ \<Rightarrow> st1)"
  have st2: "stream_polls st2 = stream_polls st1" "mset (futs st) + mset (map fn (ok_items [p])) = mset (futs st2)"
    using st1 by (auto simp: st2_def futs_push_def split: poll.splits option.splits sum.splits)
  have "st' = st2 \<or> poll_futs_then_stream poll_futs fn st2 = (x, st')"
  proof (cases p)
    case Pending
    with x p show ?thesis by (cases "futs st1 = []") (simp_all add: poll_next_def st2_def)
  next
    case (Ready i)
    with x p show ?thesis by (cases i; cases "the i") (simp_all add: poll_next_def st2_def)
  qed
  then consider (stop) "st' = st2" | (rest) "poll_futs_then_stream poll_futs fn st2 = (x, st')" by blast
  then obtain cs where cs: "stream_polls st2 = cs @ stream_polls st'" "length cs \<le> 1" "conserved fn st2 cs x st'"
  proof cases
    case stop
    then show ?thesis using that [of "[]"] by (auto simp: conserved_def)
  next
    case rest
    then show ?thesis using conserved_futs_then_stream [OF law rest] that by blast
  qed
  show ?thesis
  proof (cases "stream_polls st = p # stream_polls st1")
    case True
    with cs st2 conserved_cons [OF cs(3) st2(2)] show ?thesis by (intro exI [of _ "p # cs"]) simp
  next
    case False
    with st1 have "stream_polls st = stream_polls st1" "p = Pending" "futs st1 = futs st" by auto
    with cs st2 show ?thesis by (intro exI [of _ cs]) (auto simp: st2_def conserved_def)
  qed
qed

section \<open>Properties\<close>


definition ex_split :: "nat split_state" where
  "ex_split = snd (bottom_recv True [None, None]
     (top_push (top_conn (Inr [Some 7]) (top_chan (Inr ()) (snd (bottom_send 2 (snd (bottom_send 1 split_pair))))))))"


text \<open>
  The concurrent combinator keeps every future: a poll consumes at most two items of the stream,
  makes one future from each successful one, and every future, new or old, is either still held
  afterwards or is the one whose result the poll returned.
\<close>

lemma poll_next_keeps_futures:
  assumes "polls_futures poll_futs" "poll_next poll_futs fn st = (x, st')"
  shows "\<exists>cs. stream_polls st = cs @ stream_polls st' \<and> length cs \<le> 2 \<and> conserved fn st cs x st'"
  using assms by (rule conserved_poll_next)

text \<open>A set of futures that are ready or not; the first ready one completes.\<close>

fun ex_poll_futs :: "nat result option list \<Rightarrow> nat stream_poll \<times> nat result option list" where
  "ex_poll_futs [] = (Ready None, [])"
| "ex_poll_futs (Some r # fs) = (Ready (Some r), fs)"
| "ex_poll_futs (None # fs) =
     (if fs = [] then (Pending, [None]) else case ex_poll_futs fs of (x, fs') \<Rightarrow> (x, None # fs'))"

lemma ex_polls_futures: "polls_futures ex_poll_futs"
proof -
  have "case ex_poll_futs fs of (x, fs') \<Rightarrow>
      (case x of Pending \<Rightarrow> fs \<noteq> [] \<and> mset fs' = mset fs | Ready None \<Rightarrow> fs = [] \<and> fs' = []
       | Ready (Some r) \<Rightarrow> \<exists>f. mset fs = add_mset f (mset fs'))" for fs
    by (induction fs rule: ex_poll_futs.induct)
       (auto split: poll.splits option.splits prod.splits if_splits)
  then show ?thesis unfolding polls_futures_def by (metis (no_types, lifting) case_prod_conv)
qed

definition ex_concurrent :: "(nat, nat result option) concurrent" where
  "ex_concurrent = \<lparr>stream_polls = [Pending, Ready (Some (Inr 3))], futs = [None]\<rparr>"

lemma poll_next_keeps_futures_example:
  "\<exists>cs. stream_polls ex_concurrent = cs \<and> length cs \<le> 2
     \<and> conserved (\<lambda>n. Some (Inr n)) ex_concurrent cs (Pending :: nat stream_poll)
         \<lparr>stream_polls = [], futs = [None, Some (Inr 3)]\<rparr>"
proof -
  have "poll_next ex_poll_futs (\<lambda>n. Some (Inr n)) ex_concurrent = (Pending, \<lparr>stream_polls = [], futs = [None, Some (Inr 3)]\<rparr>)"
    by code_simp
  from poll_next_keeps_futures [OF ex_polls_futures this] show ?thesis by simp
qed

text \<open>
  The second look at the stream loses errors and wake-ups. When the futures are pending, an error
  that the stream then returns is not reported by any poll, and a future made from an item is not
  polled although it is ready: the poll returns pending.
\<close>

lemma second_poll_drops_error:
  "poll_next ex_poll_futs fn \<lparr>stream_polls = [Pending, Ready (Some (Inl e))], futs = [None]\<rparr>
     = (Pending, \<lparr>stream_polls = [], futs = [None]\<rparr>)
   \<and> poll_next ex_poll_futs (\<lambda>n. Some (Inr n)) \<lparr>stream_polls = [Pending, Ready (Some (Inr 3))], futs = [None]\<rparr>
     = (Pending, \<lparr>stream_polls = [], futs = [None, Some (Inr (3 :: nat))]\<rparr>)
   \<and> fst (ex_poll_futs [None, Some (Inr 3)]) = Ready (Some (Inr 3))"
  by (simp add: poll_next_def poll_futs_then_stream_def try_poll_next_def futs_push_def)

end
