(* ===== verification/Sharding.thy ===== *)
theory Sharding
  imports Chunnel_Stack Codecs "HOL-Library.Multiset"
begin

text \<open>
  Sharding of a key-value service (\<open>shard-ctl/src\<close>): the hash that names a shard, on the client
  (\<open>client.rs\<close>, \<open>static_client.rs\<close>), on the canonical server (\<open>server.rs\<close>) and on serialized
  requests (\<open>shard_raw.rs\<close>); the forwarding connection of the canonical server; and the registration
  of a service in redis (\<open>redis_util.rs\<close>). Redis and \<open>bincode\<close> are parameters.
\<close>

section \<open>The sharding function\<close>

definition FNV1_64_INIT :: u64 where "FNV1_64_INIT = 0xcbf29ce484222325"

definition FNV_64_PRIME :: u64 where "FNV_64_PRIME = 0x100000001b3"

fun fnv_hash :: "u64 \<Rightarrow> bytes \<Rightarrow> u64" where
  "fnv_hash hash [] = hash"
| "fnv_hash hash (b # bs) = fnv_hash ((hash XOR ucast b) * FNV_64_PRIME) bs"

text \<open>\<open>bytes[lo..hi]\<close> panics unless the range is within the slice; \<open>x % 0\<close> panics.\<close>

definition slice :: "nat \<Rightarrow> nat \<Rightarrow> bytes \<Rightarrow> bytes result" where
  "slice lo hi bs =
     (if hi \<le> length bs then Inr (take (hi - lo) (drop lo bs)) else Inl (Panic ''range end index out of range''))"

definition hash_mod :: "nat \<Rightarrow> bytes \<Rightarrow> nat result" where
  "hash_mod num_shards bs =
     (if num_shards = 0 then Inl (Panic ''attempt to calculate the remainder with a divisor of zero'')
      else Inr (unat (fnv_hash FNV1_64_INIT bs) mod num_shards))"

definition server_shard :: "nat \<Rightarrow> bytes \<Rightarrow> nat result" where
  "server_shard num_shards key = res_bind (slice 0 4 key) (hash_mod num_shards)"

definition raw_shard :: "nat \<Rightarrow> nat \<Rightarrow> bytes \<Rightarrow> nat result" where
  "raw_shard OFFSET num_shards data = res_bind (slice OFFSET (OFFSET + 4) data) (hash_mod num_shards)"

text \<open>On the client index 0 is the canonical address.\<close>

definition client_shard :: "nat \<Rightarrow> bytes \<Rightarrow> nat result" where
  "client_shard num_shards key =
     (if num_shards = 0 then Inr 0
      else res_bind (slice 0 4 key) (\<lambda>k. res_bind (hash_mod num_shards k) (\<lambda>i. Inr (i + 1))))"

record 'a shard_info =
  canonical_addr :: 'a
  shard_addrs :: "'a list"

text \<open>\<open>connect_wrap\<close> of the client: the addresses to send to, from what redis knows of the service.\<close>

definition client_addrs :: "'a \<Rightarrow> 'a shard_info option \<Rightarrow> 'a list" where
  "client_addrs a si =
     (case si of None \<Rightarrow> [a] | Some si \<Rightarrow> canonical_addr si # shard_addrs si)"

definition index_addr :: "'a list \<Rightarrow> nat \<Rightarrow> 'a result" where
  "index_addr addrs i = (if i < length addrs then Inr (addrs ! i) else Inl (Panic ''index out of bounds''))"

definition shard_one :: "('d \<Rightarrow> bytes) \<Rightarrow> 'a list \<Rightarrow> 'a \<times> 'd \<Rightarrow> ('a \<times> 'd) result" where
  "shard_one key addrs m =
     res_bind (client_shard (length addrs - 1) (key (snd m)))
       (\<lambda>i. res_bind (index_addr addrs i) (\<lambda>a. Inr (a, snd m)))"

definition client_shard_send :: "('d \<Rightarrow> bytes) \<Rightarrow> 'a list \<Rightarrow> ('a \<times> 'd) list \<Rightarrow> ('a \<times> 'd) list result" where
  "client_shard_send key addrs = collect_results (shard_one key addrs)"

text \<open>The static client (\<open>static_client.rs\<close>) is given the service instead of asking redis for it.\<close>

definition static_client_addrs :: "'a shard_info \<Rightarrow> 'a list" where
  "static_client_addrs si = canonical_addr si # shard_addrs si"

definition static_shard_send :: "('d \<Rightarrow> bytes) \<Rightarrow> 'a shard_info \<Rightarrow> ('a \<times> 'd) list \<Rightarrow> ('a \<times> 'd) list result" where
  "static_shard_send key si = collect_results (shard_one key (static_client_addrs si))"

section \<open>The canonical server\<close>

text \<open>\<open>ShardCanonicalServer::new\<close>: internal addresses default to the public ones.\<close>

definition canonical_new :: "'a shard_info \<Rightarrow> 'a list option \<Rightarrow> 'a list result" where
  "canonical_new si internal_addr =
     (let internal = (case internal_addr of Some as \<Rightarrow> as | None \<Rightarrow> shard_addrs si) in
      if length internal \<noteq> length (shard_addrs si)
      then eyre ''Shard addresses mismatched between internal and external''
      else Inr internal)"

text \<open>\<open>picked\<close>: the nonce that is passed on to the shards, without the sharding capability.\<close>

definition ShardFns_guid :: u64 where "ShardFns_guid = 0xe898734df758d0c0"

fun shard_nonce :: "stack_nonce option \<Rightarrow> negotiate_msg \<Rightarrow> negotiate_msg option" where
  "shard_nonce (Some offer) (ServerNonce addr picked) = Some (ServerNonce addr offer)"
| "shard_nonce None (ServerNonce addr picked) = Some (ServerNonce addr (fmdrop ShardFns_guid picked))"
| "shard_nonce _ _ = None"

text \<open>
  The nonce messages that \<open>picked\<close> sends, one to each shard that can be connected to; an undecodable
  nonce, a failing encoder or a failing registration send none.
\<close>

definition picked_sends ::
  "(bytes \<Rightarrow> negotiate_msg result) \<Rightarrow> (negotiate_msg \<Rightarrow> bytes result) \<Rightarrow> stack_nonce option
     \<Rightarrow> unit result \<Rightarrow> ('a \<Rightarrow> bool) \<Rightarrow> 'a list \<Rightarrow> bytes \<Rightarrow> ('a \<times> bytes) list" where
  "picked_sends deserialize serialize offer registered connects addrs nonce =
     (case deserialize nonce of
        Inl _ \<Rightarrow> []
      | Inr msg \<Rightarrow>
          (case shard_nonce offer msg of
             None \<Rightarrow> []
           | Some msg' \<Rightarrow>
               (case serialize msg' of
                  Inl _ \<Rightarrow> []
                | Inr buf \<Rightarrow>
                    (if is_ok registered then map (\<lambda>a. (a, buf)) (filter connects addrs) else []))))"

text \<open>
  \<open>ShardCanonicalServerConnection::recv\<close>. First the received requests are sorted into one batch per
  shard.
\<close>

definition push_batch :: "nat \<Rightarrow> 'd \<Rightarrow> 'd list list \<Rightarrow> 'd list list result" where
  "push_batch i d batches =
     (if i < length batches then Inr (batches[i := batches ! i @ [d]]) else Inl (Panic ''index out of bounds''))"

fun shard_batches :: "('d \<Rightarrow> nat result) \<Rightarrow> 'd list \<Rightarrow> 'd list list \<Rightarrow> 'd list list result" where
  "shard_batches shard_fn [] batches = Inr batches"
| "shard_batches shard_fn (d # ds) batches =
     res_bind (shard_fn d) (\<lambda>i. res_bind (push_batch i d batches) (shard_batches shard_fn ds))"

text \<open>
  Each non-empty batch is sent to its shard, and one \<open>recv\<close> into as many slots as the batch has
  requests gives the responses. Any failure fails the call (\<open>try_join_all\<close>).
\<close>

definition ask_shard ::
  "(nat \<Rightarrow> 'd list \<Rightarrow> unit result) \<Rightarrow> (nat \<Rightarrow> 'd list \<Rightarrow> 'd option list result) \<Rightarrow> nat \<times> 'd list
     \<Rightarrow> 'd option list result" where
  "ask_shard send_shard recv_shard b =
     res_bind (wrap_err ''Forward to shard'' (send_shard (fst b) (snd b)))
       (\<lambda>_. wrap_err ''receive from shard'' (recv_shard (fst b) (snd b)))"

definition busy_shards :: "'d list list \<Rightarrow> (nat \<times> 'd list) list" where
  "busy_shards batches = filter (\<lambda>b. snd b \<noteq> []) (enumerate 0 batches)"

text \<open>The responses go back to the client one batch at a time, up to the first failing send.\<close>

fun reply_batches :: "('d list \<Rightarrow> unit result) \<Rightarrow> 'd option list list \<Rightarrow> unit result \<times> 'd list list" where
  "reply_batches inner_send [] = (Inr (), [])"
| "reply_batches inner_send (resps # rs) =
     (let burst = map_while_take resps in
      case inner_send burst of
        Inl e \<Rightarrow> (Inl e, [burst])
      | Inr _ \<Rightarrow> apsnd ((#) burst) (reply_batches inner_send rs))"

definition canonical_recv ::
  "('d \<Rightarrow> nat result) \<Rightarrow> nat \<Rightarrow> (nat \<Rightarrow> 'd list \<Rightarrow> unit result)
     \<Rightarrow> (nat \<Rightarrow> 'd list \<Rightarrow> 'd option list result) \<Rightarrow> ('d list \<Rightarrow> unit result)
     \<Rightarrow> 'd option list result \<Rightarrow> unit result \<times> 'd list list" where
  "canonical_recv shard_fn nshards send_shard recv_shard inner_send ms =
     (case res_bind ms (\<lambda>ms. shard_batches shard_fn (map_while_take ms) (replicate nshards [])) of
        Inl e \<Rightarrow> (Inl e, [])
      | Inr batches \<Rightarrow>
          (case collect_results (ask_shard send_shard recv_shard) (busy_shards batches) of
             Inl e \<Rightarrow> (Inl e, [])
           | Inr resps \<Rightarrow> reply_batches inner_send resps))"

section \<open>Registration\<close>

text \<open>
  \<open>redis_insert\<close> and \<open>redis_query\<close>. Redis is its map from keys to values and the set of services;
  \<open>show_addr\<close> is the \<open>Display\<close> of addresses. A query retries while the value is empty; each try is the
  value redis returned and the time in milliseconds since the first. The query is \<open>None\<close> while it has
  to try again.
\<close>

record redis_db =
  redis_values :: "string \<Rightarrow> bytes option"
  shard_services :: "string set"

definition redis_key :: "('a \<Rightarrow> string) \<Rightarrow> 'a \<Rightarrow> string" where
  "redis_key show_addr a = ''shard:'' @ show_addr a"

definition redis_insert ::
  "('a \<Rightarrow> string) \<Rightarrow> ('a shard_info \<Rightarrow> bytes result) \<Rightarrow> 'a shard_info \<Rightarrow> redis_db \<Rightarrow> unit result \<times> redis_db" where
  "redis_insert show_addr serialize serv db =
     (case serialize serv of
        Inl e \<Rightarrow> (Inl e, db)
      | Inr shard_blob \<Rightarrow>
          (let name = redis_key show_addr (canonical_addr serv) in
           (Inr (), db\<lparr>shard_services := insert name (shard_services db),
                       redis_values := (redis_values db)(name \<mapsto> shard_blob)\<rparr>)))"

text \<open>\<open>con.get::<_, Vec<u8>>\<close>: a missing key reads as the empty vector.\<close>

definition redis_get :: "string \<Rightarrow> redis_db \<Rightarrow> bytes" where
  "redis_get k db = (case redis_values db k of Some v \<Rightarrow> v | None \<Rightarrow> [])"

fun query_loop :: "(bytes result \<times> nat) list \<Rightarrow> bytes option result option" where
  "query_loop [] = None"
| "query_loop ((Inl e, _) # _) = Some (Inl e)"
| "query_loop ((Inr [], elapsed) # tries) = (if elapsed > 5000 then Some (Inr None) else query_loop tries)"
| "query_loop ((Inr (b # bs), _) # _) = Some (Inr (Some (b # bs)))"

definition redis_query ::
  "(bytes \<Rightarrow> 'a shard_info result) \<Rightarrow> 'a \<Rightarrow> (bytes result \<times> nat) list \<Rightarrow> 'a shard_info option result option" where
  "redis_query deserialize a tries =
     map_option (\<lambda>r. res_bind r (\<lambda>blob. case blob of
         None \<Rightarrow> Inr None
       | Some b \<Rightarrow> res_bind (deserialize b) (\<lambda>si.
           if a \<noteq> canonical_addr si then eyre ''redis key mismatched'' else Inr (Some si))))
       (query_loop tries)"

section \<open>Lemmas\<close>

lemma static_shard_send_eq: "static_shard_send key si = client_shard_send key (client_addrs a (Some si))"
  by (simp add: static_shard_send_def client_shard_send_def static_client_addrs_def client_addrs_def)

lemma slice_prefix: "4 \<le> length k \<Longrightarrow> slice 0 4 k = Inr (take 4 k)"
  by (simp add: slice_def)

lemma server_shard_ok:
  "0 < n \<Longrightarrow> 4 \<le> length k \<Longrightarrow>
   server_shard n k = Inr (unat (fnv_hash FNV1_64_INIT (take 4 k)) mod n)"
  by (simp add: server_shard_def slice_prefix hash_mod_def)

lemma server_shard_bound: "server_shard n k = Inr i \<Longrightarrow> i < n"
  by (auto simp: server_shard_def hash_mod_def res_bind_Inr_iff split: if_splits)

lemma client_server_shard:
  "0 < n \<Longrightarrow> client_shard n k = res_bind (server_shard n k) (\<lambda>i. Inr (i + 1))"
  by (simp add: client_shard_def server_shard_def)

lemma shard_batches_ok:
  assumes "\<forall>d \<in> set ds. \<exists>i < length batches. shard_fn d = Inr i"
  shows "\<exists>batches'. shard_batches shard_fn ds batches = Inr batches' \<and> length batches' = length batches
     \<and> (\<forall>i < length batches. batches' ! i = batches ! i @ filter (\<lambda>d. shard_fn d = Inr i) ds)"
  using assms
proof (induction ds arbitrary: batches)
  case (Cons d ds)
  then obtain j where j: "j < length batches" "shard_fn d = Inr j" by auto
  let ?b = "batches[j := batches ! j @ [d]]"
  from Cons.prems have "\<forall>d \<in> set ds. \<exists>i < length ?b. shard_fn d = Inr i" by simp
  from Cons.IH [OF this] obtain batches' where b':
    "shard_batches shard_fn ds ?b = Inr batches'" "length batches' = length batches"
    "\<forall>i < length batches. batches' ! i = ?b ! i @ filter (\<lambda>d. shard_fn d = Inr i) ds"
    by auto
  with j show ?case by (auto simp: push_batch_def nth_list_update)
qed simp

lemma sum_one: "j < n \<Longrightarrow> (\<Sum>i < n. if i = j then x else 0) = x" for n :: nat and x :: "'b::comm_monoid_add"
  using sum.delta [of "{..<n}" j "\<lambda>_. x"] by simp

lemma reply_batches_ok:
  "(\<And>b. inner_send b = Inr ()) \<Longrightarrow> reply_batches inner_send rs = (Inr (), map map_while_take rs)"
  by (induction rs) (auto simp: Let_def)

lemma map_while_take_full: "map_while_take (map (\<lambda>x. Some (f x)) ds) = map f ds"
  by (induction ds) auto

text \<open>The replies of all busy shards together, batch by batch.\<close>

lemma concat_busy_shards:
  "mset (concat (map (\<lambda>b. map (f (fst b)) (snd b)) (busy_shards batches)))
     = (\<Sum>i < length batches. mset (map (f i) (batches ! i)))"
proof -
  have "mset (concat (map (\<lambda>b. map (f (fst b)) (snd b)) (filter (\<lambda>b. snd b \<noteq> []) bs)))
      = mset (concat (map (\<lambda>b. map (f (fst b)) (snd b)) bs))" for bs
    by (induction bs) auto
  moreover have "mset (concat (map (\<lambda>b. map (f (fst b)) (snd b)) (enumerate k batches)))
      = (\<Sum>i < length batches. mset (map (f (k + i)) (batches ! i)))" for k
  proof (induction batches arbitrary: k)
    case (Cons b batches)
    show ?case using Cons.IH [of "Suc k"] by (simp add: sum.lessThan_Suc_shift add.commute del: sum.lessThan_Suc)
  qed simp
  ultimately show ?thesis by (simp add: busy_shards_def)
qed

lemma image_mset_partition:
  fixes n :: nat
  assumes "\<forall>d \<in> set ds. h d < n \<and> g d = Inr (h d)"
  shows "(\<Sum>i < n. mset (map (f i) (filter (\<lambda>d. g d = Inr i) ds))) = mset (map (\<lambda>d. f (h d) d) ds)"
  using assms
proof (induction ds)
  case (Cons d ds)
  have "(\<Sum>i < n. mset (map (f i) (filter (\<lambda>d. g d = Inr i) (d # ds))))
      = (\<Sum>i < n. (if i = h d then {#f (h d) d#} else 0) + mset (map (f i) (filter (\<lambda>d. g d = Inr i) ds)))"
    using Cons.prems by (intro sum.cong) auto
  also have "\<dots> = {#f (h d) d#} + mset (map (\<lambda>d. f (h d) d) ds)"
    using Cons by (simp only: sum.distrib sum_one) simp
  finally show ?case by simp
qed simp

lemma client_shard_send_addrs:
  assumes "0 < length (shard_addrs si)" "\<forall>m \<in> set burst. 4 \<le> length (key (snd m))"
  shows "client_shard_send key (client_addrs a (Some si)) burst
     = Inr (map (\<lambda>m. (shard_addrs si ! (unat (fnv_hash FNV1_64_INIT (take 4 (key (snd m)))) mod length (shard_addrs si)),
         snd m)) burst)"
  unfolding client_shard_send_def
proof (rule collect_results_map)
  fix m assume "m \<in> set burst"
  with assms show "shard_one key (client_addrs a (Some si)) m
      = Inr (shard_addrs si ! (unat (fnv_hash FNV1_64_INIT (take 4 (key (snd m)))) mod length (shard_addrs si)), snd m)"
    by (simp add: shard_one_def client_addrs_def client_server_shard server_shard_ok index_addr_def)
qed

section \<open>Properties\<close>

text \<open>
  C9: Client and server agree on the shard. For keys of four or more bytes, a client that learned the
  service's addresses, from redis or statically, sends each request to the shard that the canonical server would forward it to,
  with its payload unchanged, and the index is always within the list of shards.
\<close>

theorem client_and_server_agree:
  assumes "shard_addrs si \<noteq> []" "\<forall>m \<in> set burst. 4 \<le> length (key (snd m))"
  shows "\<exists>out. client_shard_send key (client_addrs a (Some si)) burst = Inr out
     \<and> static_shard_send key si burst = Inr out
     \<and> list_all2 (\<lambda>m m'. snd m' = snd m \<and>
         (\<exists>i < length (shard_addrs si). server_shard (length (shard_addrs si)) (key (snd m)) = Inr i
            \<and> fst m' = shard_addrs si ! i)) burst out"
proof -
  have "0 < length (shard_addrs si)" using assms(1) by simp
  with client_shard_send_addrs [OF _ assms(2)] show ?thesis
    using assms(2) static_shard_send_eq [of key si a]
    by (auto simp: list_all2_map2 list_all2_same server_shard_ok)
qed

definition ex_info :: "nat shard_info" where
  "ex_info = \<lparr>canonical_addr = 100, shard_addrs = [101, 102, 103]\<rparr>"

lemma canonical_addr_ex_info: "canonical_addr ex_info = 100"
  by (simp add: ex_info_def)

theorem client_and_server_agree_witness:
  "client_shard_send id (client_addrs 100 (Some ex_info)) [(0, [1, 2, 3, 4, 5])] = Inr [(103, [1, 2, 3, 4, 5])]
   \<and> server_shard 3 [1, 2, 3, 4, 5] = Inr 2
   \<and> (\<exists>out. client_shard_send id (client_addrs 100 (Some ex_info)) [(0, [1, 2, 3, 4, 5])] = Inr out)"
proof -
  have "client_shard_send id (client_addrs 100 (Some ex_info)) [(0, [1, 2, 3, 4, 5])] = Inr [(103, [1, 2, 3, 4, 5])]"
    "server_shard 3 [1, 2, 3, 4, 5] = Inr 2"
    by (simp_all add: client_shard_send_def client_addrs_def shard_one_def client_server_shard server_shard_ok
        index_addr_def ex_info_def FNV1_64_INIT_def FNV_64_PRIME_def)
  then show ?thesis using client_and_server_agree [of ex_info "[(0, [1, 2, 3, 4, 5])]" id 100]
    by (auto simp: ex_info_def)
qed

text \<open>
  A request with a key of fewer than four bytes panics wherever it is sharded: in a client with
  at least one shard, and in the canonical server, whose receive loop any client can end this way.
\<close>

lemma short_key_panics:
  assumes "length (key d) < 4" "0 < n"
  shows "panics (client_shard n (key d))
     \<and> panics (fst (canonical_recv (\<lambda>d. server_shard n (key d)) n send_shard recv_shard inner_send (Inr [Some d])))"
  using assms by (simp add: client_shard_def canonical_recv_def server_shard_def slice_def)

lemma short_key_panics_example:
  "panics (client_shard 2 [97])
   \<and> panics (fst (canonical_recv (server_shard 2) 2 (\<lambda>_ _. Inr ()) (\<lambda>_ b. Inr (map Some b)) (\<lambda>_. Inr ()) (Inr [Some [97]])))"
  using short_key_panics [of id "[97]" 2] by simp

text \<open>
  The canonical server forwards every request exactly once, to the shard that its key names. When
  the shards answer each request of a batch, it replies with exactly these answers.
\<close>

lemma canonical_forwards_all:
  assumes "0 < n" "\<forall>d \<in> set (map_while_take ms). 4 \<le> length (key d)"
    and "\<And>i b. send_shard i b = Inr ()" "\<And>i b. recv_shard i b = Inr (map (\<lambda>d. Some (answer i d)) b)"
    and "\<And>b. inner_send b = Inr ()"
  shows "\<exists>bursts. canonical_recv (\<lambda>d. server_shard n (key d)) n send_shard recv_shard inner_send (Inr ms) = (Inr (), bursts)
     \<and> mset (concat bursts)
       = mset (map (\<lambda>d. answer (unat (fnv_hash FNV1_64_INIT (take 4 (key d))) mod n) d) (map_while_take ms))"
proof -
  let ?h = "\<lambda>d. unat (fnv_hash FNV1_64_INIT (take 4 (key d))) mod n"
  let ?fn = "\<lambda>d. server_shard n (key d)"
  have h: "\<forall>d \<in> set (map_while_take ms). ?h d < n \<and> ?fn d = Inr (?h d)"
    using assms(1,2) by (auto simp: server_shard_ok)
  then have "\<forall>d \<in> set (map_while_take ms). \<exists>i < length (replicate n []). ?fn d = Inr i" by auto
  from shard_batches_ok [OF this] obtain batches where b:
    "shard_batches ?fn (map_while_take ms) (replicate n []) = Inr batches" "length batches = n"
    "\<forall>i < n. batches ! i = filter (\<lambda>d. ?fn d = Inr i) (map_while_take ms)"
    by auto
  have "ask_shard send_shard recv_shard bt = Inr (map (\<lambda>d. Some (answer (fst bt) d)) (snd bt))" for bt
    by (simp add: ask_shard_def assms(3,4))
  then have "collect_results (ask_shard send_shard recv_shard) (busy_shards batches)
      = Inr (map (\<lambda>bt. map (\<lambda>d. Some (answer (fst bt) d)) (snd bt)) (busy_shards batches))"
    by (rule collect_results_map)
  with b reply_batches_ok [of inner_send, OF assms(5)]
  have "canonical_recv ?fn n send_shard recv_shard inner_send (Inr ms)
      = (Inr (), map (\<lambda>bt. map (answer (fst bt)) (snd bt)) (busy_shards batches))"
    by (simp add: canonical_recv_def comp_def map_while_take_full)
  moreover have "mset (concat (map (\<lambda>bt. map (answer (fst bt)) (snd bt)) (busy_shards batches)))
      = mset (map (\<lambda>d. answer (?h d) d) (map_while_take ms))"
    using b(2,3) by (simp only: concat_busy_shards image_mset_partition [OF h, of answer, symmetric]) simp
  ultimately show ?thesis by blast
qed

lemma canonical_forwards_all_example:
  "\<exists>bursts. canonical_recv (server_shard 3) 3 (\<lambda>_ _. Inr ()) (\<lambda>i b. Inr (map (\<lambda>d. Some (0 # d)) b)) (\<lambda>_. Inr ())
      (Inr [Some [1, 2, 3, 4], Some [9, 9, 9, 9], None]) = (Inr (), bursts)
    \<and> mset (concat bursts) = {#[0, 1, 2, 3, 4], [0, 9, 9, 9, 9]#}"
  using canonical_forwards_all [of 3 "[Some [1, 2, 3, 4], Some [9, 9, 9, 9], None]" id "\<lambda>_ _. Inr ()"
      "\<lambda>i b. Inr (map (\<lambda>d. Some (0 # d)) b)" "\<lambda>_ d. 0 # d" "\<lambda>_. Inr ()"]
  by simp

text \<open>
  A registered service is found: after \<open>redis_insert\<close>, a query for its canonical address that
  reads redis at any later time returns the registered addresses at the first try.
\<close>

lemma registration_round_trip:
  assumes "serialize si = Inr blob" "blob \<noteq> []" "deserialize blob = Inr si"
    and "redis_insert show_addr serialize si db = (r, db')"
  shows "r = Inr () \<and> redis_query deserialize (canonical_addr si)
       [(Inr (redis_get (redis_key show_addr (canonical_addr si)) db'), t)] = Some (Inr (Some si))"
proof -
  have "r = Inr ()" "redis_get (redis_key show_addr (canonical_addr si)) db' = blob"
    using assms by (auto simp: redis_insert_def redis_get_def Let_def)
  moreover from assms(2) have "query_loop [(Inr blob, t)] = Some (Inr (Some blob))" by (cases blob) auto
  ultimately show ?thesis using assms(3) by (simp add: redis_query_def)
qed

lemma registration_round_trip_example:
  "redis_query (\<lambda>_. Inr ex_info) 100
      [(Inr (redis_get (redis_key (\<lambda>a. ''a'') (100 :: nat))
         (snd (redis_insert (\<lambda>a. ''a'') (\<lambda>_. Inr [1]) ex_info \<lparr>redis_values = \<lambda>_. None, shard_services = {}\<rparr>))), 0)]
     = Some (Inr (Some ex_info))"
  using registration_round_trip [of "\<lambda>_. Inr [1]" ex_info "[1]" "\<lambda>_. Inr ex_info" "\<lambda>a. ''a''"
      "\<lparr>redis_values = \<lambda>_. None, shard_services = {}\<rparr>" _ _ 0, OF _ _ _ prod.collapse [symmetric]]
  unfolding canonical_addr_ex_info by simp

end
