(* ===== verification/Byte_Order.thy ===== *)
theory Byte_Order
  imports Prelude
begin

text \<open>
  Words as bytes in network order: \<open>to_be_bytes\<close> and \<open>from_be_bytes\<close> of the integer types and the octets of
  addresses, which the address shim of the key-value service, the framing of TCP and the encoding of
  histograms share.
\<close>

fun be_bytes :: "nat \<Rightarrow> 'a::len word \<Rightarrow> bytes" where
  "be_bytes 0 w = []"
| "be_bytes (Suc n) w = ucast (drop_bit (8 * n) w) # be_bytes n w"

definition be_value :: "bytes \<Rightarrow> nat" where
  "be_value bs = foldl (\<lambda>v b. v * 256 + unat b) 0 bs"

definition from_be_bytes :: "bytes \<Rightarrow> 'a::len word" where
  "from_be_bytes bs = of_nat (be_value bs)"

lemma length_be_bytes [simp]: "length (be_bytes n w) = n"
  by (induction n) auto

lemma be_value_Cons: "be_value (b # bs) = unat b * 256 ^ length bs + be_value bs"
proof -
  have "foldl (\<lambda>v b. v * 256 + unat b) v bs = v * 256 ^ length bs + foldl (\<lambda>v b. v * 256 + unat b) 0 bs" for v bs
  proof (induction bs arbitrary: v)
    case (Cons b bs)
    show ?case using Cons.IH [of "v * 256 + unat b"] Cons.IH [of "unat b"] by (simp add: algebra_simps)
  qed simp
  then show ?thesis by (simp add: be_value_def)
qed

lemma be_value_bytes: "be_value (be_bytes n (w :: 'a::len word)) = unat w mod 256 ^ n"
proof (induction n)
  case 0
  show ?case by (simp add: be_value_def)
next
  case (Suc n)
  have "unat (ucast (drop_bit (8 * n) w) :: u8) = unat w div 256 ^ n mod 256"
  proof -
    have "unat (drop_bit (8 * n) w) = drop_bit (8 * n) (unat w)"
      by (simp add: unsigned_drop_bit_eq take_bit_nat_eq_self)
    then show ?thesis by (simp add: unsigned_ucast_eq take_bit_eq_mod) (simp add: drop_bit_eq_div power_mult)
  qed
  then show ?case using Suc mod_mult2_eq [of "unat w" "256 ^ n" 256]
    by (simp add: be_value_Cons algebra_simps)
qed

lemma from_be_bytes_be_bytes: "LENGTH('a) = 8 * n \<Longrightarrow> from_be_bytes (be_bytes n w) = (w :: 'a::len word)"
proof -
  assume "LENGTH('a) = 8 * n"
  then have "unat w < 256 ^ n" using unsigned_less [of w, where ?'a = nat] by (simp add: power_mult)
  then show ?thesis by (simp add: from_be_bytes_def be_value_bytes)
qed

end
