(* ===== verification/Kvstore.thy ===== *)
theory Kvstore
  imports Sharding Adaptors Byte_Order
begin

text \<open>
  The key-value service (\<open>kvstore/src\<close>): messages (\<open>msg.rs\<close>), the store (\<open>kv.rs\<close>), the request loop of a
  shard (\<open>server/single_shard.rs\<close>), the address shim between the canonical server and its shards
  (\<open>server/udp_to_shard.rs\<close>), the layout of a service's addresses (\<open>server/mod.rs\<close>) and the client's
  request (\<open>client.rs\<close>). Strings are their UTF-8 bytes.
\<close>

section \<open>Messages and the store\<close>

datatype op = Get | Put

record msg =
  msg_id :: u64
  msg_op :: op
  msg_key :: bytes
  msg_val :: "bytes option"

text \<open>\<open>get_id\<close> draws the id at random: it is an argument.\<close>

definition get_req :: "u64 \<Rightarrow> bytes \<Rightarrow> msg" where
  "get_req i k = \<lparr>msg_id = i, msg_op = Get, msg_key = k, msg_val = None\<rparr>"

definition put_req :: "u64 \<Rightarrow> bytes \<Rightarrow> bytes \<Rightarrow> msg" where
  "put_req i k v = \<lparr>msg_id = i, msg_op = Put, msg_key = k, msg_val = Some v\<rparr>"

definition resp :: "msg \<Rightarrow> bytes option \<Rightarrow> msg" where
  "resp m v = m\<lparr>msg_val := v\<rparr>"

definition into_kv :: "msg \<Rightarrow> bytes \<times> bytes option" where
  "into_kv m = (msg_key m, msg_val m)"

type_synonym kv_map = "bytes \<Rightarrow> bytes option"

definition store_get :: "bytes \<Rightarrow> kv_map \<Rightarrow> bytes option" where
  "store_get k s = s k"

text \<open>\<open>insert\<close> and \<open>remove\<close> both return the previous value.\<close>

definition store_put :: "bytes \<Rightarrow> bytes option \<Rightarrow> kv_map \<Rightarrow> bytes option \<times> kv_map" where
  "store_put k v s = (case v of Some x \<Rightarrow> (s k, s(k \<mapsto> x)) | None \<Rightarrow> (s k, s(k := None)))"

definition store_call :: "msg \<Rightarrow> kv_map \<Rightarrow> msg \<times> kv_map" where
  "store_call req s =
     (case msg_op req of
        Get \<Rightarrow> (resp req (store_get (msg_key req) s), s)
      | Put \<Rightarrow> (case store_put (msg_key req) (msg_val req) s of (old, s') \<Rightarrow> (resp req old, s')))"

text \<open>
  One iteration of \<open>serve_one\<close>: the requests of a batch are answered in order. \<open>None\<close> as first component
  ends the loop; the sends are those of the iteration.
\<close>

fun call_batch :: "('a \<times> msg) list \<Rightarrow> kv_map \<Rightarrow> ('a \<times> msg) list \<times> kv_map" where
  "call_batch [] s = ([], s)"
| "call_batch ((a, m) # ms) s =
     (case store_call m s of (r, s1) \<Rightarrow> apfst ((#) (a, r)) (call_batch ms s1))"

definition serve_turn ::
  "('a \<times> msg) option list result \<Rightarrow> (('a \<times> msg) list \<Rightarrow> unit result) \<Rightarrow> kv_map
     \<Rightarrow> unit option \<times> ('a \<times> msg) list \<times> kv_map" where
  "serve_turn r cn_send s =
     (case r of
        Inl e \<Rightarrow> (None, [], s)
      | Inr msgs \<Rightarrow>
          (case call_batch (map_while_take msgs) s of
             (rsps, s') \<Rightarrow> (if is_ok (cn_send rsps) then Some () else None, rsps, s')))"

text \<open>The specification: what the last write of a history leaves under a key.\<close>

fun last_write :: "bytes \<Rightarrow> msg list \<Rightarrow> bytes option \<Rightarrow> bytes option" where
  "last_write k [] v = v"
| "last_write k (m # ms) v =
     last_write k ms (if msg_op m = Put \<and> msg_key m = k then msg_val m else v)"

lemma store_call_eq:
  "store_call m s = (resp m (s (msg_key m)), if msg_op m = Put then s(msg_key m := msg_val m) else s)"
  by (auto simp: store_call_def store_get_def store_put_def split: op.splits option.splits)

lemma call_batch_store: "snd (call_batch ms s) k = last_write k (map snd ms) (s k)"
  by (induction ms s rule: call_batch.induct) (auto simp: store_call_eq fun_upd_other split: if_splits)

lemma call_batch_append:
  "call_batch (xs @ ys) s = (case call_batch xs s of (r1, s1) \<Rightarrow> apfst ((@) r1) (call_batch ys s1))"
  by (induction xs s rule: call_batch.induct) (auto simp: apfst_def map_prod_def split: prod.splits)

lemma call_batch_length: "length (fst (call_batch ms s)) = length ms"
  by (induction ms s rule: call_batch.induct) (auto simp: store_call_eq)

lemma call_batch_nth:
  assumes "i < length ms"
  shows "fst (call_batch ms s) ! i
     = (fst (ms ! i), resp (snd (ms ! i)) (last_write (msg_key (snd (ms ! i))) (map snd (take i ms)) (s (msg_key (snd (ms ! i))))))"
proof -
  obtain a m where m: "ms ! i = (a, m)" by (cases "ms ! i")
  have split: "ms = take i ms @ (a, m) # drop (Suc i) ms"
    using id_take_nth_drop [OF assms] m by simp
  obtain r1 s1 where r1: "call_batch (take i ms) s = (r1, s1)" by (cases "call_batch (take i ms) s")
  with assms call_batch_length [of "take i ms" s] have len: "length r1 = i" by simp
  have "fst (call_batch (take i ms @ (a, m) # drop (Suc i) ms) s) ! i = (a, resp m (s1 (msg_key m)))"
    by (simp only: call_batch_append r1 call_batch.simps store_call_eq split_conv) (simp add: nth_append len)
  with split r1 have "fst (call_batch ms s) ! i = (a, resp m (snd (call_batch (take i ms) s) (msg_key m)))"
    by simp
  then show ?thesis using m by (simp add: call_batch_store)
qed

section \<open>The client's request\<close>

definition do_req :: "msg \<Rightarrow> unit result \<Rightarrow> msg result \<Rightarrow> bytes option result" where
  "do_req req sent_r recv_r =
     res_bind (wrap_err ''Error sending request'' sent_r) (\<lambda>_.
       res_bind (wrap_err ''Error awaiting response'' recv_r) (\<lambda>rsp.
         if msg_id rsp \<noteq> msg_id req then eyre ''Msg id mismatch, check for reordering''
         else Inr (snd (into_kv rsp))))"

definition client_update :: "u64 \<Rightarrow> bytes \<Rightarrow> bytes \<Rightarrow> unit result \<Rightarrow> msg result \<Rightarrow> bytes option result" where
  "client_update i k v = do_req (put_req i k v)"

definition client_get :: "u64 \<Rightarrow> bytes \<Rightarrow> unit result \<Rightarrow> msg result \<Rightarrow> bytes option result" where
  "client_get i k = do_req (get_req i k)"

section \<open>Addresses\<close>

datatype ip_addr = V4 "32 word" | V6 "128 word"

type_synonym socket_addr = "ip_addr \<times> u16"

text \<open>\<open>srv_port + i\<close> wraps around, as in a release build.\<close>

definition make_shardinfo :: "ip_addr \<Rightarrow> u16 \<Rightarrow> u16 \<Rightarrow> socket_addr shard_info" where
  "make_shardinfo srv_ip srv_port num_shards =
     \<lparr>canonical_addr = (srv_ip, srv_port),
      shard_addrs = map (\<lambda>i. (srv_ip, srv_port + of_nat i)) [1..<Suc (unat num_shards)]\<rparr>"

lemma of_nat_u16_inj:
  assumes "i < 65536" "j < 65536" "of_nat i = (of_nat j :: u16)"
  shows "i = j"
proof -
  have "unat (of_nat i :: u16) = unat (of_nat j :: u16)" by (simp only: assms(3))
  then have "i mod 65536 = j mod 65536" by (simp only: unat_of_nat) simp
  with assms(1,2) show ?thesis by simp
qed

text \<open>The addresses of a service are pairwise different, wrap-around included.\<close>

lemma shardinfo_distinct:
  fixes ip :: ip_addr and port n :: u16
  defines "si \<equiv> make_shardinfo ip port n"
  shows "distinct (canonical_addr si # shard_addrs si) \<and> length (shard_addrs si) = unat n"
proof -
  have n: "unat n < 65536" using unsigned_less [of n, where ?'a = nat] by simp
  have "inj_on (\<lambda>i. (ip, port + of_nat i :: u16)) (set [1..<Suc (unat n)])"
    using n by (auto simp: inj_on_def intro: of_nat_u16_inj)
  moreover have "of_nat i \<noteq> (0 :: u16)" if "i \<in> set [1..<Suc (unat n)]" for i
    using that n of_nat_u16_inj [of i 0] by auto
  ultimately show ?thesis by (auto simp: si_def make_shardinfo_def distinct_map)
qed

text \<open>\<open>UdpToShardCn\<close>: the client's address travels in front of the payload, in network byte order.\<close>

fun prepend_addr :: "socket_addr \<times> bytes \<Rightarrow> bytes" where
  "prepend_addr ((V4 ip, port), data) = 4 # be_bytes 2 port @ be_bytes 4 ip @ data"
| "prepend_addr ((V6 ip, port), data) = 16 # be_bytes 2 port @ be_bytes 16 ip @ data"

definition peel_addr :: "bytes \<Rightarrow> (socket_addr \<times> bytes) result" where
  "peel_addr data =
     (if length data < 7 then eyre ''Bad payload, no address''
      else (let port = from_be_bytes (take 2 (drop 1 data)) in
            if data ! 0 = 4
            then Inr ((V4 (from_be_bytes (take 4 (drop 3 data))), port), drop 7 data)
            else if data ! 0 = 16
            then (if length data < 19 then eyre ''Bad payload, no address''
                  else Inr ((V6 (from_be_bytes (take 16 (drop 3 data))), port), drop 19 data))
            else eyre ''Bad payload, no address''))"

definition udp_to_shard_send :: "(socket_addr \<times> bytes) list \<Rightarrow> bytes list" where
  "udp_to_shard_send burst = map prepend_addr burst"

fun peel_slots ::
  "bytes list \<Rightarrow> (socket_addr \<times> bytes) option list \<Rightarrow> nat result \<times> (socket_addr \<times> bytes) option list" where
  "peel_slots [] slots = (Inr 0, slots)"
| "peel_slots (m # ms) [] =
     (case peel_addr m of Inl e \<Rightarrow> (Inl e, []) | Inr _ \<Rightarrow> (Inl (Panic ''index out of bounds''), []))"
| "peel_slots (m # ms) (slot # slots) =
     (case peel_addr m of
        Inl e \<Rightarrow> (Inl e, slot # slots)
      | Inr d \<Rightarrow>
          (case peel_slots ms slots of
             (r, slots') \<Rightarrow> (res_bind r (\<lambda>n. Inr (n + 1)), Some d # slots')))"

definition udp_to_shard_recv ::
  "bytes inner_recv \<Rightarrow> (socket_addr \<times> bytes) option list
     \<Rightarrow> ((socket_addr \<times> bytes) option list result \<times> (socket_addr \<times> bytes) option list) option" where
  "udp_to_shard_recv inner msgs_buf =
     map_option (\<lambda>r. case r of
         Inl e \<Rightarrow> (Inl e, msgs_buf)
       | Inr ms \<Rightarrow>
           (case peel_slots (map_while_take ms) msgs_buf of
              (n, msgs_buf') \<Rightarrow> (res_bind n (\<lambda>n. Inr (take n msgs_buf')), msgs_buf')))
       (inner (length msgs_buf))"

lemma peel_prepend: "peel_addr (prepend_addr m) = Inr m"
  by (cases m rule: prepend_addr.cases)
     (simp_all add: peel_addr_def Let_def from_be_bytes_be_bytes)

lemma peel_slots_decode: "length ms \<le> length slots \<Longrightarrow> peel_slots ms slots = decode_slots peel_addr ms slots"
  by (induction ms slots rule: peel_slots.induct) (auto split: sum.splits)

lemma length_udp_to_shard_send: "length (udp_to_shard_send burst) = length burst"
  by (simp add: udp_to_shard_send_def)

interpretation shard_addr: codec "\<lambda>m. Inr (prepend_addr m)" peel_addr
  by unfold_locales (auto simp: peel_prepend)

section \<open>Properties\<close>

text \<open>
  C29: The store answers as the history demands. However requests of different connections are
  interleaved into one sequence, each response carries its request's id, operation and key, and its
  value is what the last preceding Put of that key wrote (or deleted), for Get and Put alike.
\<close>

theorem store_answers_history:
  assumes "i < length ms"
  shows "let (a, req) = ms ! i; (a', rsp) = fst (call_batch ms (\<lambda>_. None)) ! i in
     a' = a \<and> msg_id rsp = msg_id req \<and> msg_op rsp = msg_op req \<and> msg_key rsp = msg_key req
     \<and> msg_val rsp = last_write (msg_key req) (map snd (take i ms)) None"
  using call_batch_nth [OF assms, of "\<lambda>_. None"] by (cases "ms ! i") (simp add: resp_def Let_def)

definition ex_reqs :: "(nat \<times> msg) list" where
  "ex_reqs = [(1, put_req 7 [97] [5]), (2, get_req 8 [97]), (1, put_req 9 [97] [6])]"

theorem store_answers_history_witness:
  "fst (call_batch ex_reqs (\<lambda>_. None)) ! 2 = (1, resp (put_req 9 [97] [6]) (Some [5]))
   \<and> last_write [97] (map snd (take 2 ex_reqs)) None = Some [5]"
  using store_answers_history [of 2 ex_reqs]
  by (simp add: ex_reqs_def store_call_eq put_req_def get_req_def resp_def Let_def numeral_2_eq_2)

text \<open>
  A shard replies to every request it received, in order and to the address it came from, and
  leaves the loop exactly when receiving or sending fails.
\<close>

lemma serve_turn_replies:
  "serve_turn (Inr msgs) cn_send s = (next, rsps, s') \<Longrightarrow>
   length rsps = length (map_while_take msgs)
   \<and> (\<forall>i < length rsps. fst (rsps ! i) = fst (map_while_take msgs ! i)
        \<and> msg_id (snd (rsps ! i)) = msg_id (snd (map_while_take msgs ! i)))
   \<and> (next = None \<longleftrightarrow> \<not> is_ok (cn_send rsps))"
proof -
  assume turn: "serve_turn (Inr msgs) cn_send s = (next, rsps, s')"
  then have rsps: "rsps = fst (call_batch (map_while_take msgs) s)" "next = (if is_ok (cn_send rsps) then Some () else None)"
    by (auto simp: serve_turn_def split: prod.splits)
  then show ?thesis by (simp add: call_batch_length call_batch_nth resp_def)
qed

lemma serve_turn_replies_example:
  "serve_turn (Inr [Some (1 :: nat, get_req 8 [97]), None]) (\<lambda>_. Inr ()) (\<lambda>_. Some [5])
     = (Some (), [(1, resp (get_req 8 [97]) (Some [5]))], \<lambda>_. Some [5])
   \<and> msg_id (resp (get_req 8 [97]) (Some [5])) = 8"
proof -
  have "serve_turn (Inr [Some (1 :: nat, get_req 8 [97]), None]) (\<lambda>_. Inr ()) (\<lambda>_. Some [5])
     = (Some (), [(1, resp (get_req 8 [97]) (Some [5]))], \<lambda>_. Some [5])"
    by (simp add: serve_turn_def store_call_eq get_req_def)
  with serve_turn_replies [OF this] show ?thesis by (simp add: get_req_def)
qed

text \<open>
  The client never sees a response for another request: whatever runs concurrently on the same
  matcher, the value that \<open>do_req\<close> returns comes from a response with the id of its request, so the
  mismatch error is unreachable.
\<close>

lemma do_req_never_mismatched:
  assumes "matcher_reachable (\<lambda>m. unat (msg_id m)) strict mt" "waiting mt c = Some (unat (msg_id req))"
    and "recv_msg_poll c mt = (Some (Inr rsp), mt')"
  shows "do_req req (Inr ()) (Inr rsp) = Inr (msg_val rsp)"
proof -
  obtain own where "owned (\<lambda>m. unat (msg_id m)) own mt" using matcher_owned [OF assms(1)] by blast
  with assms(2,3) have "unat (msg_id rsp) = unat (msg_id req)"
    by (auto simp: owned_def recv_msg_poll_def split: oneshot.splits) metis
  then show ?thesis by (simp add: do_req_def into_kv_def word_unat_eq_iff)
qed

lemma dispatch_4: "dispatch idf 4 = dispatch idf (Suc (Suc (Suc (Suc 0))))"
  by (simp add: eval_nat_numeral)

definition ex_kv_match :: "msg matcher" where
  "ex_kv_match = snd (dispatch (\<lambda>m. unat (msg_id m)) 4 [Some (resp (get_req 8 [97]) (Some [5])), None, None, None]
     (snd (recv_msg_start 8 (send_msg 8 matcher_new))))"

lemma do_req_never_mismatched_example:
  "do_req (get_req 8 [97]) (Inr ()) (Inr (resp (get_req 8 [97]) (Some [5]))) = Inr (Some [5])"
proof -
  let ?f = "\<lambda>m :: msg. unat (msg_id m)"
  have "matcher_reachable ?f True (send_msg 8 matcher_new)"
    by (rule matcher_reachable.step [OF matcher_reachable.init matcher_step.send]) (simp add: matcher_new_def)
  from matcher_reachable.step [OF this matcher_step.start [OF prod.collapse [symmetric]]]
  have "matcher_reachable ?f True (snd (recv_msg_start 8 (send_msg 8 matcher_new)))" .
  from matcher_reachable.step [OF this matcher_step.dispatch [OF _ prod.collapse [symmetric]]]
  have reach: "matcher_reachable ?f True ex_kv_match" by (simp add: ex_kv_match_def)
  have "waiting ex_kv_match 0 = Some 8"
    "fst (recv_msg_poll 0 ex_kv_match) = Some (Inr (resp (get_req 8 [97]) (Some [5])))"
    by (simp_all add: ex_kv_match_def recv_msg_poll_def dispatch_one_def recv_msg_start_def send_msg_def
        drop_sender_def matcher_new_def get_req_def resp_def Let_def dispatch_4)
  with do_req_never_mismatched [OF reach, of 0 "get_req 8 [97]" "resp (get_req 8 [97]) (Some [5])"
      "snd (recv_msg_poll 0 ex_kv_match)"]
  show ?thesis by (simp add: get_req_def resp_def prod_eq_iff)
qed

text \<open>An update followed by a get of the same key, both answered by the store they reach.\<close>

lemma client_update_then_get:
  assumes "store_call (put_req i k v) s = (r1, s1)" "store_call (get_req j k) s1 = (r2, s2)"
  shows "client_update i k v (Inr ()) (Inr r1) = Inr (s k) \<and> client_get j k (Inr ()) (Inr r2) = Inr (Some v)"
  using assms by (auto simp: client_update_def client_get_def do_req_def store_call_eq put_req_def get_req_def
      resp_def into_kv_def)

text \<open>
  The address shim is transparent: what the canonical server sends through it, address and
  payload, is exactly the slice the shard receives, for IPv4 and IPv6 addresses.
\<close>

lemma udp_to_shard_round_trip:
  assumes "length burst \<le> length msgs_buf"
    and "inner (length msgs_buf) = Some (Inr (map Some (udp_to_shard_send burst) @ replicate n None))"
  shows "map_option fst (udp_to_shard_recv inner msgs_buf) = Some (Inr (map Some burst))"
proof -
  have "collect_results (\<lambda>m. Inr (prepend_addr m)) burst = Inr (udp_to_shard_send burst)"
    by (simp add: udp_to_shard_send_def collect_results_map)
  from shard_addr.codec_transparent [of burst, OF this assms(1), of inner n] assms(2)
  have "decode_recv peel_addr inner msgs_buf = Some (Inr (map Some burst), map Some burst @ drop (length burst) msgs_buf)" .
  moreover have "udp_to_shard_recv inner msgs_buf = decode_recv peel_addr inner msgs_buf"
    using assms by (simp add: udp_to_shard_recv_def decode_recv_def peel_slots_decode length_udp_to_shard_send)
  ultimately show ?thesis by simp
qed

lemma udp_to_shard_round_trip_example:
  "map_option fst (udp_to_shard_recv
      (\<lambda>_. Some (Inr (map Some (udp_to_shard_send [((V4 0x7f000001, 4242), [1, 2])]) @ replicate 1 None))) [None, None])
     = Some (Inr [Some ((V4 0x7f000001, 4242), [1, 2])])"
  using udp_to_shard_round_trip [of "[((V4 0x7f000001, 4242), [1, 2])]" "[None, None]"
      "\<lambda>_. Some (Inr (map Some (udp_to_shard_send [((V4 0x7f000001, 4242), [1, 2])]) @ replicate 1 None))" 1]
  by simp

end
