(* ===== verification/Kv_Reliability.thy ===== *)
theory Kv_Reliability
  imports Kvstore
begin

text \<open>
  Reliable request/response exchange of the key-value client (\<open>KvReliability\<close> of
  \<open>kvstore/src/reliability.rs\<close>). Each request of a burst has a oneshot channel; a call of \<open>send\<close>
  returns when all of its requests are answered, and retransmits the burst at every timeout. Calls
  run concurrently on one connection: any of them may receive the response to another's request. All
  responses also go to the bounded channel that \<open>recv\<close> reads.
\<close>

section \<open>State and operations\<close>

text \<open>
  One call of \<open>send\<close>: the burst, the oneshot cells of its requests, the received responses it has yet
  to process, and its result once it has returned.
\<close>

record ('a, 'd) send_call =
  batch_pkts :: "('a \<times> 'd) list"
  batch_cells :: "nat list"
  pending_resps :: "('a \<times> 'd) list"
  call_result :: "unit result option"

text \<open>
  The connection. \<open>sends\<close> holds the oneshot senders by message id; \<open>wire\<close> records the bursts given
  to the connection below and \<open>signalled\<close> every response put on the channel \<open>recvs\<close>.
\<close>

record ('a, 'd) kv_conn =
  sends :: "nat \<Rightarrow> nat option"
  oneshots :: "nat \<Rightarrow> unit oneshot"
  fresh_cell :: nat
  recvs :: "('a \<times> 'd) list"
  signalled :: "('a \<times> 'd) list"
  wire :: "('a \<times> 'd) list list"
  calls :: "nat \<Rightarrow> ('a, 'd) send_call option"

definition kv_new :: "('a, 'd) kv_conn" where
  "kv_new = \<lparr>sends = \<lambda>_. None, oneshots = \<lambda>_. Open, fresh_cell = 0, recvs = [], signalled = [], wire = [],
     calls = \<lambda>_. None\<rparr>"

text \<open>
  Registering one request. Replacing the sender of an id that is still registered drops it, and the
  call that waits for it fails.
\<close>

definition drop_tx :: "nat option \<Rightarrow> ('a, 'd) kv_conn \<Rightarrow> ('a, 'd) kv_conn" where
  "drop_tx c k =
     (case c of
        Some c \<Rightarrow> if oneshots k c = Open then k\<lparr>oneshots := (oneshots k)(c := TxDropped)\<rparr> else k
      | None \<Rightarrow> k)"

definition register_one :: "nat \<Rightarrow> ('a, 'd) kv_conn \<Rightarrow> nat \<times> ('a, 'd) kv_conn" where
  "register_one i k =
     (let c = fresh_cell k; k1 = drop_tx (sends k i) k in
      (c, k1\<lparr>sends := (sends k)(i \<mapsto> c), oneshots := (oneshots k1)(c := Open), fresh_cell := c + 1\<rparr>))"

fun register :: "('d \<Rightarrow> nat) \<Rightarrow> ('a \<times> 'd) list \<Rightarrow> ('a, 'd) kv_conn \<Rightarrow> nat list \<times> ('a, 'd) kv_conn" where
  "register idf [] k = ([], k)"
| "register idf (p # ps) k =
     (case register_one (idf (snd p)) k of (c, k1) \<Rightarrow> apfst ((#) c) (register idf ps k1))"

text \<open>A call that ends drops the receivers of the requests that were not answered.\<close>

definition drop_rxs :: "nat list \<Rightarrow> ('a, 'd) kv_conn \<Rightarrow> ('a, 'd) kv_conn" where
  "drop_rxs cs k = k\<lparr>oneshots := (\<lambda>c. if c \<in> set cs \<and> oneshots k c = Open then RxDropped else oneshots k c)\<rparr>"

definition end_call :: "nat \<Rightarrow> unit result \<Rightarrow> ('a, 'd) kv_conn \<Rightarrow> ('a, 'd) kv_conn" where
  "end_call n r k =
     (case calls k n of
        Some c \<Rightarrow> drop_rxs (batch_cells c) (k\<lparr>calls := (calls k)(n \<mapsto> c\<lparr>call_result := Some r\<rparr>)\<rparr>)
      | None \<Rightarrow> k)"

text \<open>The start of \<open>send\<close>: register, then send the burst, which returns \<open>r\<close>.\<close>

definition kv_send_start ::
  "('d \<Rightarrow> nat) \<Rightarrow> nat \<Rightarrow> ('a \<times> 'd) list \<Rightarrow> unit result \<Rightarrow> ('a, 'd) kv_conn \<Rightarrow> ('a, 'd) kv_conn" where
  "kv_send_start idf n burst r k =
     (case register idf burst k of
        (cs, k1) \<Rightarrow>
          (let call = \<lparr>batch_pkts = burst, batch_cells = cs, pending_resps = [], call_result = None\<rparr>;
               k2 = k1\<lparr>calls := (calls k1)(n \<mapsto> call), wire := wire k1 @ [burst]\<rparr> in
           if is_ok r then k2 else end_call n r k2))"

text \<open>
  The branches of the \<open>select!\<close>. Responses of a received slice are processed one by one; putting one
  on the full channel waits.
\<close>

definition kv_recv :: "nat \<Rightarrow> ('a \<times> 'd) option list result \<Rightarrow> ('a, 'd) kv_conn \<Rightarrow> ('a, 'd) kv_conn" where
  "kv_recv n r k =
     (case calls k n of
        Some c \<Rightarrow>
          (case r of
             Inl e \<Rightarrow> end_call n (wrap_err ''kvreliability recv acks'' (Inl e)) k
           | Inr ms \<Rightarrow> k\<lparr>calls := (calls k)(n \<mapsto> c\<lparr>pending_resps := map_while_take ms\<rparr>)\<rparr>)
      | None \<Rightarrow> k)"

definition notify_done :: "nat \<Rightarrow> ('a, 'd) kv_conn \<Rightarrow> unit result \<times> ('a, 'd) kv_conn" where
  "notify_done i k =
     (case sends k i of
        None \<Rightarrow> (Inr (), k)
      | Some c \<Rightarrow>
          (let k1 = k\<lparr>sends := (sends k)(i := None)\<rparr> in
           if oneshots k c = RxDropped then (Inl (Panic ''send done notification failed''), k1)
           else (Inr (), k1\<lparr>oneshots := (oneshots k)(c := Value ())\<rparr>)))"

definition kv_process :: "('d \<Rightarrow> nat) \<Rightarrow> nat \<Rightarrow> ('a, 'd) kv_conn \<Rightarrow> unit result option \<times> ('a, 'd) kv_conn" where
  "kv_process idf n k =
     (case calls k n of
        Some c \<Rightarrow>
          (case pending_resps c of
             p # ps \<Rightarrow>
               (if length (recvs k) < 100
                then (let k1 = k\<lparr>recvs := recvs k @ [p], signalled := signalled k @ [p],
                                calls := (calls k)(n \<mapsto> c\<lparr>pending_resps := ps\<rparr>)\<rparr> in
                      apfst Some (notify_done (idf (snd p)) k1))
                else (None, k))
           | [] \<Rightarrow> (None, k))
      | None \<Rightarrow> (None, k))"

text \<open>\<open>batch_completions.try_collect()\<close>: ready when every cell has its value, or one lost its sender.\<close>

definition kv_done :: "nat \<Rightarrow> ('a, 'd) kv_conn \<Rightarrow> ('a, 'd) kv_conn" where
  "kv_done n k =
     (case calls k n of
        Some c \<Rightarrow>
          (if \<exists>x \<in> set (batch_cells c). oneshots k x = TxDropped then end_call n (eyre ''channel closed'') k
           else if \<forall>x \<in> set (batch_cells c). oneshots k x = Value () then end_call n (Inr ()) k
           else k)
      | None \<Rightarrow> k)"

definition kv_timeout :: "nat \<Rightarrow> unit result \<Rightarrow> ('a, 'd) kv_conn \<Rightarrow> ('a, 'd) kv_conn" where
  "kv_timeout n r k =
     (case calls k n of
        Some c \<Rightarrow>
          (let k1 = k\<lparr>wire := wire k @ [batch_pkts c]\<rparr> in if is_ok r then k1 else end_call n r k1)
      | None \<Rightarrow> k)"

text \<open>\<open>recv\<close>: as many responses as fit, without waiting for more than the first.\<close>

definition kv_app_recv ::
  "('a \<times> 'd) option list \<Rightarrow> ('a, 'd) kv_conn \<Rightarrow> ('a \<times> 'd) option list result option \<times> ('a, 'd) kv_conn" where
  "kv_app_recv buf k =
     (case chan_recv True buf (recvs k) of
        Some (Inr (buf', rest)) \<Rightarrow> (Some (Inr buf'), k\<lparr>recvs := rest\<rparr>)
      | Some (Inl e) \<Rightarrow> (Some (Inl e), k\<lparr>recvs := drop 1 (recvs k)\<rparr>)
      | None \<Rightarrow> (None, k))"

text \<open>A call is idle when it waits in its \<open>select!\<close>.\<close>

definition idle :: "nat \<Rightarrow> ('a, 'd) kv_conn \<Rightarrow> bool" where
  "idle n k \<longleftrightarrow>
     (case calls k n of Some c \<Rightarrow> call_result c = None \<and> pending_resps c = [] | None \<Rightarrow> False)"

definition running :: "nat \<Rightarrow> ('a, 'd) kv_conn \<Rightarrow> bool" where
  "running n k \<longleftrightarrow> (case calls k n of Some c \<Rightarrow> call_result c = None | None \<Rightarrow> False)"

inductive kv_step :: "('d \<Rightarrow> nat) \<Rightarrow> ('a, 'd) kv_conn \<Rightarrow> ('a, 'd) kv_conn \<Rightarrow> bool" for idf where
  start: "calls k n = None \<Longrightarrow> kv_step idf k (kv_send_start idf n burst r k)"
| recv: "idle n k \<Longrightarrow> kv_step idf k (kv_recv n r' k)"
| process: "running n k \<Longrightarrow> kv_step idf k (snd (kv_process idf n k))"
| finish: "idle n k \<Longrightarrow> kv_step idf k (kv_done n k)"
| timeout: "idle n k \<Longrightarrow> kv_step idf k (kv_timeout n r k)"
| cancel: "running n k \<Longrightarrow> kv_step idf k (end_call n (Inl (Err [''cancelled''])) k)"
| app: "kv_step idf k (snd (kv_app_recv buf k))"

inductive kv_reachable :: "('d \<Rightarrow> nat) \<Rightarrow> ('a, 'd) kv_conn \<Rightarrow> bool" for idf where
  init: "kv_reachable idf kv_new"
| step: "kv_reachable idf k \<Longrightarrow> kv_step idf k k' \<Longrightarrow> kv_reachable idf k'"

section \<open>Invariant\<close>

text \<open>
  \<open>own\<close> gives the id a cell was made for. A cell that has its value belongs to an id whose response
  was signalled; the cells of a call belong to the ids of its requests; and a call that returned
  success has the values of all of its cells.
\<close>

definition answered :: "('d \<Rightarrow> nat) \<Rightarrow> ('a, 'd) kv_conn \<Rightarrow> nat \<Rightarrow> bool" where
  "answered idf k i \<longleftrightarrow> (\<exists>q \<in> set (signalled k). idf (snd q) = i)"

definition call_ok :: "('d \<Rightarrow> nat) \<Rightarrow> (nat \<Rightarrow> nat) \<Rightarrow> ('a, 'd) kv_conn \<Rightarrow> ('a, 'd) send_call \<Rightarrow> bool" where
  "call_ok idf own k c \<longleftrightarrow>
     map own (batch_cells c) = map (\<lambda>p. idf (snd p)) (batch_pkts c)
     \<and> (\<forall>x \<in> set (batch_cells c). x < fresh_cell k)
     \<and> (call_result c = Some (Inr ()) \<longrightarrow> (\<forall>p \<in> set (batch_pkts c). answered idf k (idf (snd p))))"

definition kv_inv :: "('d \<Rightarrow> nat) \<Rightarrow> (nat \<Rightarrow> nat) \<Rightarrow> ('a, 'd) kv_conn \<Rightarrow> bool" where
  "kv_inv idf own k \<longleftrightarrow>
     (\<forall>i c. sends k i = Some c \<longrightarrow> c < fresh_cell k \<and> own c = i)
     \<and> (\<forall>c. c < fresh_cell k \<longrightarrow> oneshots k c = Value () \<longrightarrow> answered idf k (own c))
     \<and> (\<forall>n c. calls k n = Some c \<longrightarrow> call_ok idf own k c)
     \<and> (\<exists>taken. taken @ recvs k = signalled k) \<and> length (recvs k) \<le> 100"

lemma call_ok_mono:
  assumes "call_ok idf own k c" "\<And>x. x < fresh_cell k \<Longrightarrow> own' x = own x" "fresh_cell k \<le> fresh_cell k'"
    "set (signalled k) \<subseteq> set (signalled k')"
  shows "call_ok idf own' k' c"
proof -
  have "\<forall>x \<in> set (batch_cells c). x < fresh_cell k" using assms(1) by (simp add: call_ok_def)
  then have "map own' (batch_cells c) = map own (batch_cells c)" using assms(2) by simp
  moreover have "answered idf k i \<Longrightarrow> answered idf k' i" for i using assms(4) by (auto simp: answered_def)
  ultimately show ?thesis
    using assms(1,3) unfolding call_ok_def by (metis less_le_trans)
qed

lemma kv_invD:
  assumes "kv_inv idf own k"
  shows "sends k i = Some c \<Longrightarrow> c < fresh_cell k" and "sends k i = Some c \<Longrightarrow> own c = i"
    and "c < fresh_cell k \<Longrightarrow> oneshots k c = Value () \<Longrightarrow> answered idf k (own c)"
    and "calls k n = Some call \<Longrightarrow> call_ok idf own k call"
    and "\<exists>taken. taken @ recvs k = signalled k" and "length (recvs k) \<le> 100"
  using assms unfolding kv_inv_def by blast+

text \<open>
  Most steps only move cells to dropped states, take responses off the channel or change fields the
  invariant does not read.
\<close>

lemma kv_inv_weaken:
  assumes inv: "kv_inv idf own k"
    and "\<And>i c. sends k' i = Some c \<Longrightarrow> sends k i = Some c"
    and "\<And>c. oneshots k' c = Value () \<Longrightarrow> oneshots k c = Value ()"
    and "\<And>n c. calls k' n = Some c \<Longrightarrow> call_ok idf own k c"
    and "fresh_cell k' = fresh_cell k" "signalled k' = signalled k"
    and "\<exists>taken. taken @ recvs k' = signalled k'" "length (recvs k') \<le> 100"
  shows "kv_inv idf own k'"
  unfolding kv_inv_def
proof (intro conjI)
  show "\<forall>i c. sends k' i = Some c \<longrightarrow> c < fresh_cell k' \<and> own c = i"
    using assms(2,5) kv_invD(1,2) [OF inv] by metis
  show "\<forall>c. c < fresh_cell k' \<longrightarrow> oneshots k' c = Value () \<longrightarrow> answered idf k' (own c)"
    using assms(3,5,6) kv_invD(3) [OF inv] unfolding answered_def by metis
  show "\<forall>n c. calls k' n = Some c \<longrightarrow> call_ok idf own k' c"
    using assms(4-6) call_ok_mono [of idf own k _ own k'] by auto
qed (use assms(7,8) in auto)

lemma drop_tx_fields [simp]:
  "sends (drop_tx c k) = sends k" "fresh_cell (drop_tx c k) = fresh_cell k" "calls (drop_tx c k) = calls k"
  "signalled (drop_tx c k) = signalled k" "recvs (drop_tx c k) = recvs k" "wire (drop_tx c k) = wire k"
  by (simp_all add: drop_tx_def split: option.splits)

lemma kv_inv_drop_tx: "kv_inv idf own k \<Longrightarrow> kv_inv idf own (drop_tx c k)"
  by (rule kv_inv_weaken [of idf own k])
     (simp_all add: kv_invD, simp add: drop_tx_def split: option.splits if_splits)

lemma kv_inv_register_one:
  assumes inv: "kv_inv idf own k" and reg: "register_one i k = (c, k')"
  shows "kv_inv idf (own(c := i)) k'" "c = fresh_cell k" "fresh_cell k' = c + 1" "calls k' = calls k"
    "signalled k' = signalled k"
proof -
  have c: "c = fresh_cell k"
    and k': "k' = (drop_tx (sends k i) k)\<lparr>sends := (sends k)(i \<mapsto> c),
      oneshots := (oneshots (drop_tx (sends k i) k))(c := Open), fresh_cell := c + 1\<rparr>"
    using reg by (auto simp: register_one_def Let_def)
  from c k' show "c = fresh_cell k" "fresh_cell k' = c + 1" "calls k' = calls k" "signalled k' = signalled k"
    by simp_all
  have d: "kv_inv idf own (drop_tx (sends k i) k)" by (rule kv_inv_drop_tx) (rule inv)
  have "call_ok idf (own(c := i)) k' call" if "calls k n = Some call" for n call
    by (rule call_ok_mono [OF kv_invD(4) [OF inv that]]) (use c k' in auto)
  then show "kv_inv idf (own(c := i)) k'"
    unfolding kv_inv_def
    using kv_invD(1,2) [OF inv] kv_invD(3,5,6) [OF d] c
    by (auto simp: k' less_Suc_eq answered_def)
qed

lemma kv_inv_register:
  "kv_inv idf own k \<Longrightarrow> register idf ps k = (cs, k') \<Longrightarrow>
   \<exists>own'. kv_inv idf own' k' \<and> map own' cs = map (\<lambda>p. idf (snd p)) ps \<and> (\<forall>x \<in> set cs. x < fresh_cell k')
     \<and> (\<forall>x < fresh_cell k. own' x = own x) \<and> fresh_cell k \<le> fresh_cell k' \<and> calls k' = calls k"
proof (induction idf ps k arbitrary: own cs k' rule: register.induct)
  case (2 idf p ps k)
  obtain c k1 where one: "register_one (idf (snd p)) k = (c, k1)" by (cases "register_one (idf (snd p)) k")
  obtain cs' where cs: "register idf ps k1 = (cs', k')" "cs = c # cs'"
    using "2.prems"(2) one by (cases "register idf ps k1") auto
  note k1 = kv_inv_register_one [OF "2.prems"(1) one]
  from "2.IH" [OF one [symmetric] k1(1) cs(1)] obtain own' where own':
    "kv_inv idf own' k'" "map own' cs' = map (\<lambda>p. idf (snd p)) ps" "\<forall>x \<in> set cs'. x < fresh_cell k'"
    "\<forall>x < fresh_cell k1. own' x = (own(c := idf (snd p))) x" "fresh_cell k1 \<le> fresh_cell k'" "calls k' = calls k1"
    by blast
  show ?case
    using own' k1(2-4) cs(2) by (intro exI [of _ own']) auto
qed auto

lemma kv_inv_end_call:
  assumes inv: "kv_inv idf own k"
    and ok: "\<And>c p. calls k n = Some c \<Longrightarrow> r = Inr () \<Longrightarrow> p \<in> set (batch_pkts c) \<Longrightarrow> answered idf k (idf (snd p))"
  shows "kv_inv idf own (end_call n r k)"
proof (cases "calls k n")
  case (Some c)
  from kv_invD(4) [OF inv Some] ok [OF Some] have "call_ok idf own k (c\<lparr>call_result := Some r\<rparr>)"
    by (auto simp: call_ok_def)
  with Some show ?thesis
    by (intro kv_inv_weaken [OF inv])
       (auto simp: end_call_def drop_rxs_def kv_invD [OF inv] split: if_splits)
qed (simp add: end_call_def inv)

lemma kv_inv_send_start:
  assumes inv: "kv_inv idf own k"
  shows "\<exists>own'. kv_inv idf own' (kv_send_start idf n burst r k)"
proof -
  obtain cs k1 where reg: "register idf burst k = (cs, k1)" by (cases "register idf burst k")
  from kv_inv_register [OF inv reg] obtain own' where own': "kv_inv idf own' k1"
    "map own' cs = map (\<lambda>p. idf (snd p)) burst" "\<forall>x \<in> set cs. x < fresh_cell k1" by blast
  define call where "call = \<lparr>batch_pkts = burst, batch_cells = cs, pending_resps = [], call_result = None\<rparr>"
  define k2 where "k2 = k1\<lparr>calls := (calls k1)(n \<mapsto> call), wire := wire k1 @ [burst]\<rparr>"
  have "call_ok idf own' k1 call" using own' by (simp add: call_ok_def call_def)
  then have k2: "kv_inv idf own' k2"
    by (intro kv_inv_weaken [OF own'(1)]) (auto simp: k2_def kv_invD [OF own'(1)] split: if_splits)
  have "kv_send_start idf n burst r k = (if is_ok r then k2 else end_call n r k2)"
    using reg by (simp add: kv_send_start_def Let_def k2_def call_def)
  moreover have "kv_inv idf own' (end_call n r k2)" if "\<not> is_ok r"
    using that by (intro kv_inv_end_call [OF k2]) auto
  ultimately show ?thesis using k2 by auto
qed

lemma kv_inv_notify:
  assumes inv: "kv_inv idf own k" and ans: "answered idf k i"
  shows "kv_inv idf own (snd (notify_done i k))"
proof (cases "sends k i")
  case (Some c)
  define k1 where "k1 = k\<lparr>sends := (sends k)(i := None)\<rparr>"
  have k1: "kv_inv idf own k1"
    by (rule kv_inv_weaken [OF inv]) (auto simp: k1_def kv_invD [OF inv] split: if_splits)
  have "kv_inv idf own (k1\<lparr>oneshots := (oneshots k)(c := Value ())\<rparr>)" (is "kv_inv _ _ ?k2")
    unfolding kv_inv_def
  proof (intro conjI)
    show "\<forall>x. x < fresh_cell ?k2 \<longrightarrow> oneshots ?k2 x = Value () \<longrightarrow> answered idf ?k2 (own x)"
      using kv_invD(3) [OF inv] kv_invD(2) [OF inv Some] ans by (auto simp: k1_def answered_def)
    show "\<forall>n c. calls ?k2 n = Some c \<longrightarrow> call_ok idf own ?k2 c"
      using kv_invD(4) [OF k1] call_ok_mono [of idf own k1 _ own ?k2] by auto
  qed (use k1 in \<open>auto simp: kv_inv_def\<close>)
  with k1 Some show ?thesis by (simp add: notify_done_def Let_def k1_def)
qed (simp add: notify_done_def inv)

lemma kv_inv_process:
  assumes inv: "kv_inv idf own k"
  shows "kv_inv idf own (snd (kv_process idf n k))"
proof (cases "\<exists>c p ps. calls k n = Some c \<and> pending_resps c = p # ps \<and> length (recvs k) < 100")
  case True
  then obtain c p ps where c: "calls k n = Some c" "pending_resps c = p # ps" "length (recvs k) < 100" by blast
  define k1 where "k1 = k\<lparr>recvs := recvs k @ [p], signalled := signalled k @ [p],
      calls := (calls k)(n \<mapsto> c\<lparr>pending_resps := ps\<rparr>)\<rparr>"
  have "call_ok idf own k (c\<lparr>pending_resps := ps\<rparr>)" using kv_invD(4) [OF inv c(1)] by (simp add: call_ok_def)
  then have call: "call_ok idf own k call" if "calls k1 m = Some call" for m call
    using that kv_invD(4) [OF inv, of m call] by (auto simp: k1_def split: if_splits)
  have inv1: "kv_inv idf own k1"
    unfolding kv_inv_def
  proof (intro conjI)
    show "\<forall>i c. sends k1 i = Some c \<longrightarrow> c < fresh_cell k1 \<and> own c = i"
      using kv_invD(1,2) [OF inv] by (simp add: k1_def)
    show "\<forall>c. c < fresh_cell k1 \<longrightarrow> oneshots k1 c = Value () \<longrightarrow> answered idf k1 (own c)"
      using kv_invD(3) [OF inv] by (simp add: k1_def answered_def)
    show "\<forall>n c. calls k1 n = Some c \<longrightarrow> call_ok idf own k1 c"
      by (intro allI impI call_ok_mono [OF call]) (auto simp: k1_def)
    show "\<exists>taken. taken @ recvs k1 = signalled k1" using kv_invD(5) [OF inv] by (simp add: k1_def)
    show "length (recvs k1) \<le> 100" using c(3) by (simp add: k1_def)
  qed
  have ans: "answered idf k1 (idf (snd p))" by (simp add: k1_def answered_def)
  from kv_inv_notify [OF inv1 ans] c show ?thesis by (simp add: kv_process_def k1_def Let_def)
next
  case False
  then have "snd (kv_process idf n k) = k" by (auto simp: kv_process_def split: option.splits list.splits)
  with inv show ?thesis by simp
qed

lemma kv_inv_done: "kv_inv idf own k \<Longrightarrow> kv_inv idf own (kv_done n k)"
proof -
  assume inv: "kv_inv idf own k"
  have "answered idf k (idf (snd p))"
    if "calls k n = Some c" "\<forall>x \<in> set (batch_cells c). oneshots k x = Value ()" "p \<in> set (batch_pkts c)" for c p
  proof -
    from kv_invD(4) [OF inv that(1)] have ok: "call_ok idf own k c" .
    with that(3) have "idf (snd p) \<in> set (map own (batch_cells c))" by (simp add: call_ok_def)
    then obtain x where "x \<in> set (batch_cells c)" "own x = idf (snd p)" by auto
    with ok that(2) kv_invD(3) [OF inv, of x] show ?thesis by (auto simp: call_ok_def)
  qed
  with inv show ?thesis
    by (auto simp: kv_done_def intro!: kv_inv_end_call split: option.splits)
qed

lemma kv_inv_step: "kv_step idf k k' \<Longrightarrow> kv_inv idf own k \<Longrightarrow> \<exists>own'. kv_inv idf own' k'"
proof (induction rule: kv_step.induct)
  case (start k n burst r)
  then show ?case by (blast intro: kv_inv_send_start)
next
  case (recv n k r')
  then have inv: "kv_inv idf own k" by blast
  have "kv_inv idf own (kv_recv n r' k)"
  proof (cases r')
    case (Inl e)
    then show ?thesis
      using inv by (auto simp: kv_recv_def intro!: kv_inv_end_call split: option.splits)
  next
    case (Inr ms)
    have "call_ok idf own k (c\<lparr>pending_resps := qs\<rparr>)" if "calls k n = Some c" for c qs
      using kv_invD(4) [OF inv that] by (simp add: call_ok_def)
    then show ?thesis
      using inv Inr by (auto simp: kv_recv_def kv_invD [OF inv] intro!: kv_inv_weaken [OF inv] split: option.splits if_splits)
  qed
  then show ?case by blast
next
  case (process n k)
  then show ?case by (blast intro: kv_inv_process)
next
  case (finish n k)
  then show ?case by (blast intro: kv_inv_done)
next
  case (timeout n k r)
  then have inv: "kv_inv idf own k" by blast
  have "kv_inv idf own (k\<lparr>wire := w\<rparr>)" for w
    by (rule kv_inv_weaken [OF inv]) (simp_all add: kv_invD [OF inv])
  then have "kv_inv idf own (kv_timeout n r k)"
    using inv by (auto simp: kv_timeout_def Let_def intro!: kv_inv_end_call split: option.splits)
  then show ?case by blast
next
  case (cancel n k)
  then show ?case by (auto intro!: exI [of _ own] kv_inv_end_call)
next
  case (app k buf)
  then have inv: "kv_inv idf own k" by blast
  obtain d where d: "recvs (snd (kv_app_recv buf k)) = drop d (recvs k)"
    "snd (kv_app_recv buf k) = k\<lparr>recvs := drop d (recvs k)\<rparr>"
  proof (cases "buf = [] \<or> recvs k = []")
    case True
    then show ?thesis using that [of "length buf"] that [of 0] that [of 1]
      by (auto simp: kv_app_recv_def chan_recv_def split: list.splits)
  next
    case False
    then show ?thesis using that [of "length buf"] chan_recv_eq [of buf "recvs k" True]
      by (simp add: kv_app_recv_def)
  qed
  have "\<exists>taken. taken @ drop d (recvs k) = signalled k"
    using kv_invD(5) [OF inv] by (metis append.assoc append_take_drop_id)
  then have "kv_inv idf own (snd (kv_app_recv buf k))"
    unfolding d(2) using le_trans [OF diff_le_self kv_invD(6) [OF inv], of d]
    by (intro kv_inv_weaken [OF inv]) (auto simp: kv_invD(1-5) [OF inv])
  then show ?case by blast
qed

lemma kv_reachable_inv: "kv_reachable idf k \<Longrightarrow> \<exists>own. kv_inv idf own k"
proof (induction rule: kv_reachable.induct)
  case init
  show ?case by (auto simp: kv_inv_def kv_new_def)
next
  case (step k k')
  then show ?case by (blast dest: kv_inv_step)
qed

section \<open>Properties\<close>

text \<open>
  C5: Success means answered. In every interleaving of calls, received slices, timeouts and
  cancellations, a call of \<open>send\<close> that returned success had a response with the id of each of its
  requests put on the channel of \<open>recv\<close>, and that channel hands out what was put on it in order.
\<close>

theorem send_success_means_answered:
  assumes "kv_reachable idf k" "calls k n = Some c" "call_result c = Some (Inr ())"
  shows "(\<forall>p \<in> set (batch_pkts c). \<exists>q \<in> set (signalled k). idf (snd q) = idf (snd p))
     \<and> (\<exists>taken. taken @ recvs k = signalled k) \<and> length (recvs k) \<le> 100"
proof -
  obtain own where inv: "kv_inv idf own k" using kv_reachable_inv [OF assms(1)] by blast
  from kv_invD(4) [OF inv assms(2)] assms(3)
  have "\<forall>p \<in> set (batch_pkts c). answered idf k (idf (snd p))" by (simp add: call_ok_def)
  then have "\<forall>p \<in> set (batch_pkts c). \<exists>q \<in> set (signalled k). idf (snd q) = idf (snd p)"
    by (simp add: answered_def)
  with kv_invD(5,6) [OF inv] show ?thesis by blast
qed

text \<open>A request and its response: the whole course of one call.\<close>

definition kv_exchange :: "('d \<Rightarrow> nat) \<Rightarrow> nat \<Rightarrow> 'a \<times> 'd \<Rightarrow> 'a \<times> 'd \<Rightarrow> ('a, 'd) kv_conn \<Rightarrow> ('a, 'd) kv_conn" where
  "kv_exchange idf n req rsp k =
     kv_done n (snd (kv_process idf n (kv_recv n (Inr [Some rsp]) (kv_send_start idf n [req] (Inr ()) k))))"

lemma kv_exchange_result:
  assumes "calls k n = None" "length (recvs k) < 100" "idf (snd rsp) = idf (snd req)"
  shows "\<exists>c. calls (kv_exchange idf n req rsp k) n = Some c \<and> call_result c = Some (Inr ()) \<and> batch_pkts c = [req]
     \<and> recvs (kv_exchange idf n req rsp k) = recvs k @ [rsp]"
  using assms
  by (simp add: kv_exchange_def kv_send_start_def register_one_def Let_def kv_recv_def kv_process_def
      notify_done_def kv_done_def end_call_def drop_rxs_def)

lemma kv_exchange_reachable:
  assumes "kv_reachable idf k" "calls k n = None" "length (recvs k) < 100" "idf (snd rsp) = idf (snd req)"
  shows "kv_reachable idf (kv_exchange idf n req rsp k)"
proof -
  define k1 where "k1 = kv_send_start idf n [req] (Inr ()) k"
  define k2 where "k2 = kv_recv n (Inr [Some rsp]) k1"
  define k3 where "k3 = snd (kv_process idf n k2)"
  have unfold_ops: "idle n k1" "running n k2" "idle n k3"
    using assms(3,4) by (simp_all add: k1_def k2_def k3_def idle_def running_def kv_send_start_def register_one_def
        Let_def kv_recv_def kv_process_def notify_done_def)
  have "kv_reachable idf k1" unfolding k1_def by (rule kv_reachable.step [OF assms(1) kv_step.start [OF assms(2)]])
  from kv_reachable.step [OF this kv_step.recv [OF unfold_ops(1)]] have "kv_reachable idf k2" by (simp add: k2_def)
  from kv_reachable.step [OF this kv_step.process [OF unfold_ops(2)]] have "kv_reachable idf k3" by (simp add: k3_def)
  from kv_reachable.step [OF this kv_step.finish [OF unfold_ops(3)]] show ?thesis
    by (simp add: kv_exchange_def k1_def k2_def k3_def)
qed

theorem send_success_means_answered_witness:
  "\<exists>q \<in> set (signalled (kv_exchange id 0 (1 :: nat, 42) (2, 42) kv_new)). snd q = 42"
proof -
  let ?k = "kv_exchange id 0 (1 :: nat, 42) (2, 42) kv_new"
  have reach: "kv_reachable id ?k"
    by (rule kv_exchange_reachable [OF kv_reachable.init]) (simp_all add: kv_new_def)
  obtain c where "calls ?k 0 = Some c" "call_result c = Some (Inr ())" "batch_pkts c = [(1, 42)]"
    using kv_exchange_result [of "kv_new :: (nat, nat) kv_conn" 0 id "(2, 42)" "(1, 42)"]
    by (force simp: kv_new_def)
  with send_success_means_answered [OF reach, of 0 c] show ?thesis by auto
qed



text \<open>
  A \<open>send\<close> that is abandoned before its response arrives (by a timeout around it) leaves its
  sender registered, and the late response makes the next call that receives it panic.
\<close>

lemma abandoned_send_panics_next:
  "fst (kv_process id 1 (kv_recv 1 (Inr [Some (2, 42)])
     (kv_send_start id 1 [(1 :: nat, 43)] (Inr ())
       (end_call 0 (Inl (Err [''cancelled''])) (kv_send_start id 0 [(1, 42 :: nat)] (Inr ()) kv_new)))))
   = Some (Inl (Panic ''send done notification failed''))"
  by (auto simp: kv_new_def kv_send_start_def register_one_def Let_def kv_recv_def kv_process_def
      notify_done_def end_call_def drop_rxs_def drop_tx_def)

end
