(* ===== verification/Localname.thy ===== *)
theory Localname
  imports Chunnel_Stack Codecs "HOL-Library.Multiset"
begin

text \<open>
  Local names (\<open>localname-ctl\<close>): a registry on each machine maps socket addresses to paths of unix
  sockets (\<open>ctl.rs\<close>, reached through \<open>client.rs\<close>), and \<open>LocalNameCn\<close> (\<open>runtime_fastpath.rs\<close>)
  sends to a registered address over the local connection. It never waits for the registry: it keeps
  a cache of answers, sends over the global connection on a miss, and asks in the background.

  Paths are strings. Instants and durations are numbers of milliseconds. The random part of a new path
  is an argument of the registration, the network interfaces of the machine one of the client.
\<close>

section \<open>The registry\<close>

type_synonym path = string

text \<open>\<open>Path::join\<close>.\<close>

definition path_join :: "path \<Rightarrow> path \<Rightarrow> path" where
  "path_join root p =
     (if p \<noteq> [] \<and> hd p = CHR ''/'' \<or> root = [] then p
      else if last root = CHR ''/'' then root @ p else root @ ''/'' @ p)"

type_synonym 'a name_table = "'a \<rightharpoonup> path"

datatype 'a request =
    Register "'a list"
  | Query "'a list"

datatype 'a reply =
    RegisterReply "string + ('a list \<times> path)"
  | QueryReply "string + ('a \<times> path option) list"

definition name_table_insert :: "'a \<Rightarrow> path \<Rightarrow> 'a name_table \<Rightarrow> (string + unit) \<times> 'a name_table" where
  "name_table_insert a p tbl = (Inr (), tbl(a \<mapsto> p))"

fun assign_insert :: "path \<Rightarrow> 'a list \<Rightarrow> 'a name_table \<Rightarrow> (string + path) \<times> 'a name_table" where
  "assign_insert p [] tbl = (Inr p, tbl)"
| "assign_insert p (a # addrs) tbl =
     (case name_table_insert a p tbl of
        (Inl e, tbl1) \<Rightarrow> (Inl e, tbl1)
      | (Inr _, tbl1) \<Rightarrow> assign_insert p addrs tbl1)"

definition do_register :: "path \<Rightarrow> 'a list \<Rightarrow> 'a name_table \<Rightarrow> (string + ('a list \<times> path)) \<times> 'a name_table" where
  "do_register p addrs tbl =
     (case assign_insert p addrs tbl of
        (Inl e, tbl1) \<Rightarrow> (Inl e, tbl1)
      | (Inr rep, tbl1) \<Rightarrow> (Inr (addrs, rep), tbl1))"

text \<open>\<open>Service::call\<close>; \<open>p\<close> is the path that \<open>get_addr\<close> draws.\<close>

definition burrito_call :: "path \<Rightarrow> 'a request \<Rightarrow> 'a name_table \<Rightarrow> 'a reply \<times> 'a name_table" where
  "burrito_call p req tbl =
     (case req of
        Register addrs \<Rightarrow> (case do_register p addrs tbl of (r, tbl1) \<Rightarrow> (RegisterReply r, tbl1))
      | Query sks \<Rightarrow> (QueryReply (Inr (map (\<lambda>a. (a, tbl a)) sks)), tbl))"

section \<open>Its client\<close>

text \<open>An address with an unspecified ip stands for those of all interfaces that are up.\<close>

definition register_addrs ::
  "('ip \<Rightarrow> bool) \<Rightarrow> (bool \<times> 'ip list) list \<Rightarrow> 'ip \<times> u16 \<Rightarrow> ('ip \<times> u16) list" where
  "register_addrs is_unspecified interfaces name =
     (if is_unspecified (fst name)
      then concat (map (\<lambda>i. map (\<lambda>ip. (ip, snd name)) (snd i)) (filter (\<lambda>(up, ips). up \<and> ips \<noteq> []) interfaces))
      else [name])"

definition register_result :: "path \<Rightarrow> 'a reply result \<Rightarrow> path result" where
  "register_result root rep =
     (case rep of
        Inr (RegisterReply (Inr (_, local_addr))) \<Rightarrow> Inr (path_join root local_addr)
      | Inr (RegisterReply (Inl s)) \<Rightarrow> eyre s
      | _ \<Rightarrow> eyre ''Reply mismatched request type'')"

definition query_result :: "path \<Rightarrow> 'a reply result \<Rightarrow> ('a \<times> path option) list result" where
  "query_result root rep =
     (case rep of
        Inr (QueryReply (Inr entries)) \<Rightarrow> Inr (map (\<lambda>(a, l). (a, map_option (path_join root) l)) entries)
      | Inr (QueryReply (Inl s)) \<Rightarrow> eyre s
      | _ \<Rightarrow> eyre ''Reply mismatched request type'')"

lemma name_table_insert_simp [simp]: "name_table_insert a p tbl = (Inr (), tbl(a \<mapsto> p))"
  by (simp add: name_table_insert_def)

lemma assign_insert_eq [simp]:
  "assign_insert p addrs tbl = (Inr p, \<lambda>a. if a \<in> set addrs then Some p else tbl a)"
  by (induction addrs arbitrary: tbl) (auto simp: fun_eq_iff)

lemma burrito_call_simps [simp]:
  "burrito_call p (Register addrs) tbl = (RegisterReply (Inr (addrs, p)), \<lambda>a. if a \<in> set addrs then Some p else tbl a)"
  "burrito_call p (Query sks) tbl = (QueryReply (Inr (map (\<lambda>a. (a, tbl a)) sks)), tbl)"
  by (simp_all add: burrito_call_def do_register_def)

text \<open>A history of calls, each with the path drawn for it, and the last registration of an address in it.\<close>

fun burrito_run :: "(path \<times> 'a request) list \<Rightarrow> 'a name_table \<Rightarrow> 'a name_table" where
  "burrito_run [] tbl = tbl"
| "burrito_run ((p, req) # calls) tbl = burrito_run calls (snd (burrito_call p req tbl))"

fun registers :: "'a \<Rightarrow> path \<times> 'a request \<Rightarrow> bool" where
  "registers a (p, Register addrs) = (a \<in> set addrs)"
| "registers a (p, Query _) = False"

definition last_registration :: "'a \<Rightarrow> (path \<times> 'a request) list \<Rightarrow> path option" where
  "last_registration a calls = map_option fst (List.find (registers a) (rev calls))"

lemma find_append: "List.find P (xs @ ys) = (case List.find P xs of None \<Rightarrow> List.find P ys | Some x \<Rightarrow> Some x)"
  by (induction xs) auto

lemma burrito_run_last:
  "burrito_run calls tbl a = (case last_registration a calls of None \<Rightarrow> tbl a | Some p \<Rightarrow> Some p)"
proof (induction calls tbl rule: burrito_run.induct)
  case (2 p req calls tbl)
  show ?case
  proof (cases req)
    case (Register addrs)
    with 2 show ?thesis
      by (auto simp: last_registration_def find_append split: option.splits)
  next
    case (Query sks)
    with 2 show ?thesis
      by (auto simp: last_registration_def find_append split: option.splits)
  qed
qed (simp add: last_registration_def)

section \<open>The connection\<close>

datatype cache_entry =
    Hit path nat
  | AntiHit "nat option"

record 'a localname_cn =
  addr_cache :: "'a \<rightharpoonup> cache_entry"
  rev_addr_map :: "path \<rightharpoonup> 'a"

text \<open>Where a message to a socket address goes, and whether its address is a miss.\<close>

definition look_up :: "nat \<Rightarrow> ('a \<rightharpoonup> cache_entry) \<Rightarrow> 'a \<Rightarrow> bool \<times> ('a, path) either" where
  "look_up now cache a =
     (case cache a of
        None \<Rightarrow> (True, Left a)
      | Some (Hit laddr expiry) \<Rightarrow> if expiry < now then (True, Left a) else (False, Right laddr)
      | Some (AntiHit (Some expiry)) \<Rightarrow> (expiry < now, Left a)
      | Some (AntiHit None) \<Rightarrow> (False, Left a))"

text \<open>
  The two partitions of \<open>send\<close>. \<open>clock i\<close> is what the clock says at the \<open>i\<close>-th look-up. The result is
  the messages that stay global, those whose look-up gave a path, and the misses.
\<close>

fun look_up_all ::
  "(nat \<Rightarrow> nat) \<Rightarrow> nat \<Rightarrow> ('a \<rightharpoonup> cache_entry) \<Rightarrow> ('a \<times> 'd) list
     \<Rightarrow> ('a \<times> 'd) list \<times> (path \<times> 'd) list \<times> 'a list" where
  "look_up_all clock i cache [] = ([], [], [])"
| "look_up_all clock i cache ((a, d) # msgs) =
     (case look_up_all clock (i + 1) cache msgs of
        (global_rem, local_lookup, misses) \<Rightarrow>
          (case look_up (clock i) cache a of
             (miss, Left _) \<Rightarrow> ((a, d) # global_rem, local_lookup, if miss then a # misses else misses)
           | (miss, Right l) \<Rightarrow> (global_rem, (l, d) # local_lookup, misses)))"

fun split_burst :: "(('a, path) either \<times> 'd) list \<Rightarrow> ('a \<times> 'd) list \<times> (path \<times> 'd) list" where
  "split_burst [] = ([], [])"
| "split_burst ((Left a, d) # burst) = apfst ((#) (a, d)) (split_burst burst)"
| "split_burst ((Right l, d) # burst) = apsnd ((#) (l, d)) (split_burst burst)"

text \<open>
  \<open>send\<close>: what is sent on the local and on the global connection, the lookup that is spawned, and the
  result. \<open>local_send\<close> and \<open>global_send\<close> are the results of the two sends, \<open>has_ctl\<close> whether there is
  a client of the registry.
\<close>

record ('a, 'd) sending =
  sent_local :: "(path \<times> 'd) list option"
  sent_global :: "('a \<times> 'd) list option"
  asked :: "'a list option"

definition localname_send ::
  "bool \<Rightarrow> (nat \<Rightarrow> nat) \<Rightarrow> unit result \<Rightarrow> unit result \<Rightarrow> (('a, path) either \<times> 'd) list \<Rightarrow> 'a localname_cn
     \<Rightarrow> unit result \<times> ('a, 'd) sending \<times> 'a localname_cn" where
  "localname_send has_ctl clock local_send global_send burst cn =
     (let (global, local_addr) = split_burst burst;
          (global_rem, local_lookup, misses) = look_up_all clock 0 (addr_cache cn) global;
          local = local_addr @ local_lookup;
          s1 = \<lparr>sent_local = (if local = [] then None else Some local), sent_global = None, asked = None\<rparr>
      in if local \<noteq> [] \<and> \<not> is_ok local_send then (local_send, s1, cn)
         else
           let s2 = s1\<lparr>sent_global := (if global_rem = [] then None else Some global_rem)\<rparr>
           in if global_rem \<noteq> [] \<and> \<not> is_ok global_send then (global_send, s2, cn)
              else if has_ctl
              then (Inr (), (let m = remdups_adj misses in if m = [] then s2 else s2\<lparr>asked := Some m\<rparr>), cn)
              else (Inr (), s2,
                    cn\<lparr>addr_cache := fold (\<lambda>a c. c(a \<mapsto> AntiHit None)) misses (addr_cache cn)\<rparr>))"

text \<open>
  \<open>recv\<close>, by which of the two connections is ready first and with what; \<open>n\<close> is the length of the
  buffer, and the result is the slice that is returned.
\<close>

datatype ('a, 'd) arrival =
    From_global "('a \<times> 'd) option list result"
  | From_local "(path \<times> 'd) option list result"

definition localname_recv ::
  "nat \<Rightarrow> ('a, 'd) arrival \<Rightarrow> 'a localname_cn \<Rightarrow> (('a, path) either \<times> 'd) list result" where
  "localname_recv n arr cn =
     (case arr of
        From_global (Inr ms) \<Rightarrow> Inr (take n (map (\<lambda>(a, d). (Left a, d)) (map_while_take ms)))
      | From_local (Inr ms) \<Rightarrow>
          Inr (take n (map (\<lambda>(l, d). (case rev_addr_map cn l of Some a \<Rightarrow> Left a | None \<Rightarrow> Right l, d)) (map_while_take ms)))
      | From_global (Inl e) \<Rightarrow> Inl (wrap_report ''localname-ctl global_cn recv erred'' e)
      | From_local (Inl e) \<Rightarrow> Inl (wrap_report ''localname-ctl local_cn recv erred'' e))"

text \<open>
  \<open>query_ctl\<close>: what an answer of the registry does to the cache. The clock readings for one entry are
  one number. \<open>expiry.elapsed()\<close> is zero for an instant in the future.
\<close>

definition insert_antihit :: "nat \<Rightarrow> 'a \<Rightarrow> 'a localname_cn \<Rightarrow> 'a localname_cn" where
  "insert_antihit now a cn = cn\<lparr>addr_cache := (addr_cache cn)(a \<mapsto> AntiHit (Some (now + 100)))\<rparr>"

definition insert_hit :: "nat \<Rightarrow> 'a \<Rightarrow> path \<Rightarrow> 'a localname_cn \<Rightarrow> 'a localname_cn" where
  "insert_hit now a laddr cn =
     (let e = (case addr_cache cn a of None \<Rightarrow> Hit laddr (now + 100) | Some e \<Rightarrow> e);
          e' = (case e of
                  Hit existing expiry \<Rightarrow>
                    if laddr = existing \<and> 100 < now - expiry
                    then Hit existing (now + max ((now - expiry) * 2) 10000)
                    else Hit laddr (now + 100)
                | AntiHit _ \<Rightarrow> Hit laddr (now + 100))
      in cn\<lparr>addr_cache := (addr_cache cn)(a \<mapsto> e'), rev_addr_map := (rev_addr_map cn)(laddr \<mapsto> a)\<rparr>)"

fun cache_entries :: "(nat \<Rightarrow> nat) \<Rightarrow> nat \<Rightarrow> ('a \<times> path option) list \<Rightarrow> 'a localname_cn \<Rightarrow> 'a localname_cn" where
  "cache_entries clock i [] cn = cn"
| "cache_entries clock i ((a, Some laddr) # entries) cn = cache_entries clock (i + 1) entries (insert_hit (clock i) a laddr cn)"
| "cache_entries clock i ((a, None) # entries) cn = cache_entries clock (i + 1) entries (insert_antihit (clock i) a cn)"

definition query_ctl ::
  "(nat \<Rightarrow> nat) \<Rightarrow> 'a list \<Rightarrow> ('a \<times> path option) list result \<Rightarrow> 'a localname_cn \<Rightarrow> 'a localname_cn" where
  "query_ctl clock addrs res cn =
     (case res of
        Inr entries \<Rightarrow> cache_entries clock 0 entries cn
      | Inl _ \<Rightarrow> cache_entries clock 0 (map (\<lambda>a. (a, None)) addrs) cn)"

section \<open>Connections without the registry\<close>

text \<open>\<open>AddrWrap\<close>, over the global connection alone, drops what is addressed by a path.\<close>

definition addr_wrap_send :: "(('a, path) either \<times> 'd) list \<Rightarrow> ('a \<times> 'd) list" where
  "addr_wrap_send burst = List.map_filter (\<lambda>(a, d). case a of Left sk \<Rightarrow> Some (sk, d) | Right _ \<Rightarrow> None) burst"

definition addr_wrap_recv :: "nat \<Rightarrow> ('a \<times> 'd) option list result \<Rightarrow> (('a, path) either \<times> 'd) list result" where
  "addr_wrap_recv n res = res_bind res (\<lambda>ms. Inr (take n (map (\<lambda>(a, d). (Left a, d)) (map_while_take ms))))"

text \<open>
  \<open>connect_wrap\<close> of the two sides: without a registry (or, at a server, without a local address of
  its own) the connection is global only.
\<close>

definition localname_client_wrap ::
  "bool \<Rightarrow> 'r result \<Rightarrow> ('r \<Rightarrow> 'l result) \<Rightarrow> 'g \<Rightarrow> ('g \<times> 'l, 'g) either result" where
  "localname_client_wrap has_ctl raw_connect local_chunnel inner =
     (if has_ctl
      then res_bind raw_connect (\<lambda>raw. res_bind (local_chunnel raw) (\<lambda>l. Inr (Left (inner, l))))
      else Inr (Right inner))"

definition localname_server ::
  "path \<Rightarrow> bool \<Rightarrow> ('ip \<times> u16) reply result \<Rightarrow> path option" where
  "localname_server root connected rep =
     (if connected then (case register_result root rep of Inr laddr \<Rightarrow> Some laddr | Inl _ \<Rightarrow> None) else None)"

definition localname_server_wrap ::
  "path option \<Rightarrow> (path \<Rightarrow> 'r result) \<Rightarrow> ('r \<Rightarrow> 'l result) \<Rightarrow> 'g \<Rightarrow> ('g \<times> 'l, 'g) either result" where
  "localname_server_wrap local_addr raw_listen local_chunnel inner =
     (case local_addr of
        Some laddr \<Rightarrow> res_bind (raw_listen laddr) (\<lambda>raw. res_bind (local_chunnel raw) (\<lambda>l. Inr (Left (inner, l))))
      | None \<Rightarrow> Inr (Right inner))"

section \<open>What a send does with its burst\<close>

lemma split_burst_eq:
  "split_burst burst =
     (List.map_filter (\<lambda>(a, d). case a of Left sk \<Rightarrow> Some (sk, d) | Right _ \<Rightarrow> None) burst,
      List.map_filter (\<lambda>(a, d). case a of Right l \<Rightarrow> Some (l, d) | Left _ \<Rightarrow> None) burst)"
  by (induction burst rule: split_burst.induct) (auto simp: map_filter_simps)

lemma split_burst_payloads:
  "mset (map snd (fst (split_burst burst))) + mset (map snd (snd (split_burst burst))) = mset (map snd burst)"
  by (induction burst rule: split_burst.induct) auto

lemma set_split_burst:
  "(a, d) \<in> set (fst (split_burst burst)) \<longleftrightarrow> (Left a, d) \<in> set burst"
  "(l, d) \<in> set (snd (split_burst burst)) \<longleftrightarrow> (Right l, d) \<in> set burst"
  by (induction burst rule: split_burst.induct) auto

text \<open>Every message of a burst is either kept for the global connection or given a path, in order.\<close>

lemma look_up_miss_global: "look_up now cache a = (True, e) \<Longrightarrow> e = Left a"
  by (auto simp: look_up_def split: option.splits cache_entry.splits if_splits)

lemma look_up_cases:
  obtains miss where "look_up now cache a = (miss, Left a)"
  | l expiry where "look_up now cache a = (False, Right l)" "cache a = Some (Hit l expiry)" "now \<le> expiry"
  by (cases "look_up now cache a"; cases "cache a")
     (auto simp: look_up_def not_less split: cache_entry.splits if_splits option.splits)

lemma look_up_all_payloads:
  assumes "look_up_all clock i cache msgs = (g, l, misses)"
  shows "mset (map snd g) + mset (map snd l) = mset (map snd msgs)"
  using assms
proof (induction clock i cache msgs arbitrary: g l misses rule: look_up_all.induct)
  case (2 clock i cache a d msgs)
  obtain g' l' m' where rest: "look_up_all clock (i + 1) cache msgs = (g', l', m')" by (metis prod_cases3)
  from "2.IH" [OF rest] "2.prems" rest show ?case
    by (cases rule: look_up_cases [of "clock i" cache a]) auto
qed simp

lemma look_up_all_local:
  assumes "look_up_all clock i cache msgs = (g, l, misses)" and "(p, d) \<in> set l"
  shows "\<exists>a k expiry. (a, d) \<in> set msgs \<and> cache a = Some (Hit p expiry) \<and> clock k \<le> expiry"
  using assms
proof (induction clock i cache msgs arbitrary: g l misses rule: look_up_all.induct)
  case (2 clock i cache a d' msgs)
  obtain g' l' m' where rest: "look_up_all clock (i + 1) cache msgs = (g', l', m')" by (metis prod_cases3)
  from "2.IH" [OF rest] "2.prems" rest show ?case
    by (cases rule: look_up_cases [of "clock i" cache a]) (auto, blast+)
qed simp

lemma look_up_all_global:
  assumes "look_up_all clock i cache msgs = (g, l, misses)"
  shows "set g \<subseteq> set msgs" and "set misses \<subseteq> fst ` set g"
proof -
  have "set g \<subseteq> set msgs \<and> set misses \<subseteq> fst ` set g"
    using assms
  proof (induction clock i cache msgs arbitrary: g l misses rule: look_up_all.induct)
    case (2 clock i cache a d msgs)
    obtain g' l' m' where rest: "look_up_all clock (i + 1) cache msgs = (g', l', m')" by (metis prod_cases3)
    from "2.IH" [OF rest] "2.prems" rest show ?case
      by (cases rule: look_up_cases [of "clock i" cache a]) (auto split: if_splits)
  qed simp
  then show "set g \<subseteq> set msgs" "set misses \<subseteq> fst ` set g" by auto
qed

text \<open>What is sent where.\<close>

lemma localname_send_cases:
  assumes "localname_send has_ctl clock ls gs burst cn = (r, out, cn')"
  obtains g l misses where
    "look_up_all clock 0 (addr_cache cn) (fst (split_burst burst)) = (g, l, misses)"
    "sent_local out = (if snd (split_burst burst) @ l = [] then None else Some (snd (split_burst burst) @ l))"
    "sent_global out \<noteq> None \<Longrightarrow> sent_global out = Some g"
    "is_ok r \<Longrightarrow> sent_global out = (if g = [] then None else Some g)"
    "is_ok r \<Longrightarrow> asked out = (if has_ctl \<and> misses \<noteq> [] then Some (remdups_adj misses) else None)"
    "cn' = cn \<or> \<not> has_ctl \<and> cn' = cn\<lparr>addr_cache := fold (\<lambda>a c. c(a \<mapsto> AntiHit None)) misses (addr_cache cn)\<rparr>"
    "asked out \<noteq> None \<Longrightarrow> asked out = Some (remdups_adj misses)"
proof -
  obtain g l misses where look: "look_up_all clock 0 (addr_cache cn) (fst (split_burst burst)) = (g, l, misses)"
    by (metis prod_cases3)
  have *: "(case split_burst burst of (global, local_addr) \<Rightarrow> f global local_addr)
      = f (fst (split_burst burst)) (snd (split_burst burst))" for f :: "_ \<Rightarrow> _ \<Rightarrow> 'z"
    by (simp add: case_prod_unfold)
  show thesis
    by (rule that [OF look])
       (use assms in \<open>auto simp: localname_send_def * look Let_def is_ok_def split: if_splits sum.splits\<close>)
qed

lemma localname_send_local:
  assumes "localname_send has_ctl clock ls gs burst cn = (r, out, cn')" and "sent_local out = Some ms" and "(l, d) \<in> set ms"
  shows "(Right l, d) \<in> set burst \<or> (\<exists>a k expiry. (Left a, d) \<in> set burst \<and> addr_cache cn a = Some (Hit l expiry) \<and> clock k \<le> expiry)"
  using assms(1)
proof (rule localname_send_cases)
  fix g lk misses
  assume look: "look_up_all clock 0 (addr_cache cn) (fst (split_burst burst)) = (g, lk, misses)"
    and loc: "sent_local out = (if snd (split_burst burst) @ lk = [] then None else Some (snd (split_burst burst) @ lk))"
  from loc assms(2,3) have "(l, d) \<in> set (snd (split_burst burst)) \<or> (l, d) \<in> set lk" by (auto split: if_splits)
  with look_up_all_local [OF look, of l d] show ?thesis unfolding set_split_burst by blast
qed

section \<open>The registry, a connection and its lookups\<close>

text \<open>
  A client's connection beside the registry: clients register addresses, the connection sends, the
  registry serves the queries of the spawned lookups (or they fail), and their answers reach the cache
  later, in any order. \<open>hist\<close> remembers all registrations, \<open>burst_log\<close> what the application has sent and
  \<open>local_log\<close> what went out on the local connection.
\<close>

record ('a, 'd) local_sys =
  table :: "'a name_table"
  hist :: "('a \<times> path) set"
  lcn :: "'a localname_cn"
  queries :: "'a list list"
  answers :: "('a list \<times> ('a \<times> path option) list result) list"
  burst_log :: "(('a, path) either \<times> 'd) list"
  local_log :: "(path \<times> 'd) list"

definition local_init :: "('a, 'd) local_sys" where
  "local_init = \<lparr>table = Map.empty, hist = {}, lcn = \<lparr>addr_cache = Map.empty, rev_addr_map = Map.empty\<rparr>,
     queries = [], answers = [], burst_log = [], local_log = []\<rparr>"

inductive local_step :: "path \<Rightarrow> bool \<Rightarrow> ('a, 'd) local_sys \<Rightarrow> ('a, 'd) local_sys \<Rightarrow> bool" for root has_ctl where
  register: "burrito_call p (Register addrs) (table s) = (rep, tbl) \<Longrightarrow>
     local_step root has_ctl s (s\<lparr>table := tbl, hist := hist s \<union> set addrs \<times> {p}\<rparr>)"
| send: "localname_send has_ctl clock ls gs burst (lcn s) = (r, out, cn) \<Longrightarrow>
     local_step root has_ctl s (s\<lparr>lcn := cn, queries := (case asked out of None \<Rightarrow> queries s | Some q \<Rightarrow> queries s @ [q]),
       burst_log := burst_log s @ burst,
       local_log := local_log s @ (case sent_local out of None \<Rightarrow> [] | Some ms \<Rightarrow> ms)\<rparr>)"
| serve: "q \<in> set (queries s) \<Longrightarrow>
     local_step root has_ctl s
       (s\<lparr>queries := remove1 q (queries s),
          answers := answers s @ [(q, query_result root (Inr (fst (burrito_call p (Query q) (table s)))))]\<rparr>)"
| fail: "q \<in> set (queries s) \<Longrightarrow>
     local_step root has_ctl s (s\<lparr>queries := remove1 q (queries s), answers := answers s @ [(q, Inl e)]\<rparr>)"
| answer: "(q, res) \<in> set (answers s) \<Longrightarrow>
     local_step root has_ctl s (s\<lparr>answers := remove1 (q, res) (answers s), lcn := query_ctl clock q res (lcn s)\<rparr>)"

inductive local_reachable :: "path \<Rightarrow> bool \<Rightarrow> ('a, 'd) local_sys \<Rightarrow> bool" for root has_ctl where
  init: "local_reachable root has_ctl local_init"
| step: "local_reachable root has_ctl s \<Longrightarrow> local_step root has_ctl s s' \<Longrightarrow> local_reachable root has_ctl s'"

text \<open>\<open>was_at root h a l\<close>: the address was registered at the path \<open>l\<close>, as a client names it.\<close>

definition was_at :: "path \<Rightarrow> ('a \<times> path) set \<Rightarrow> 'a \<Rightarrow> path \<Rightarrow> bool" where
  "was_at root h a l \<longleftrightarrow> (\<exists>p. (a, p) \<in> h \<and> l = path_join root p)"

definition cn_inv :: "('a \<Rightarrow> path \<Rightarrow> bool) \<Rightarrow> 'a localname_cn \<Rightarrow> bool" where
  "cn_inv was cn \<longleftrightarrow> (\<forall>a l expiry. addr_cache cn a = Some (Hit l expiry) \<longrightarrow> was a l)
     \<and> (\<forall>l a. rev_addr_map cn l = Some a \<longrightarrow> was a l)"

definition local_inv :: "path \<Rightarrow> ('a, 'd) local_sys \<Rightarrow> bool" where
  "local_inv root s \<longleftrightarrow>
     (\<forall>a p. table s a = Some p \<longrightarrow> (a, p) \<in> hist s) \<and> cn_inv (was_at root (hist s)) (lcn s)
   \<and> (\<forall>q res a l. (q, Inr res) \<in> set (answers s) \<longrightarrow> (a, Some l) \<in> set res \<longrightarrow> was_at root (hist s) a l)
   \<and> (\<forall>(l, d) \<in> set (local_log s). (Right l, d) \<in> set (burst_log s)
        \<or> (\<exists>a. (Left a, d) \<in> set (burst_log s) \<and> was_at root (hist s) a l))"

lemma cn_inv_antihit: "cn_inv was cn \<Longrightarrow> cn_inv was (cn\<lparr>addr_cache := (addr_cache cn)(a \<mapsto> AntiHit x)\<rparr>)"
  by (simp add: cn_inv_def)

lemma cn_inv_antihits: "cn_inv was cn \<Longrightarrow> cn_inv was (cn\<lparr>addr_cache := fold (\<lambda>a c. c(a \<mapsto> AntiHit None)) as (addr_cache cn)\<rparr>)"
proof (induction "as" arbitrary: cn)
  case (Cons a "as")
  from Cons.IH [OF cn_inv_antihit [OF Cons.prems, of a None]] show ?case by simp
qed simp

lemma cn_inv_insert_hit:
  assumes "cn_inv was cn" and "was a l"
  shows "cn_inv was (insert_hit now a l cn)"
proof -
  let ?e = "case (case addr_cache cn a of None \<Rightarrow> Hit l (now + 100) | Some e \<Rightarrow> e) of
      Hit existing expiry \<Rightarrow>
        if l = existing \<and> 100 < now - expiry then Hit existing (now + max ((now - expiry) * 2) 10000) else Hit l (now + 100)
    | AntiHit _ \<Rightarrow> Hit l (now + 100)"
  have "\<exists>expiry. ?e = Hit l expiry"
    by (cases "case addr_cache cn a of None \<Rightarrow> Hit l (now + 100) | Some e \<Rightarrow> e") auto
  then obtain expiry where "?e = Hit l expiry" by blast
  then have "addr_cache (insert_hit now a l cn) = (addr_cache cn)(a \<mapsto> Hit l expiry)"
    by (simp add: insert_hit_def Let_def)
  moreover have "rev_addr_map (insert_hit now a l cn) = (rev_addr_map cn)(l \<mapsto> a)"
    by (simp add: insert_hit_def Let_def)
  ultimately show ?thesis using assms by (auto simp: cn_inv_def)
qed

lemma cn_inv_entries:
  "cn_inv was cn \<Longrightarrow> (\<And>a l. (a, Some l) \<in> set entries \<Longrightarrow> was a l) \<Longrightarrow> cn_inv was (cache_entries clock i entries cn)"
proof (induction clock i entries cn rule: cache_entries.induct)
  case (2 clock i a l entries cn)
  then show ?case by (simp add: cn_inv_insert_hit)
next
  case (3 clock i a entries cn)
  then show ?case by (simp add: insert_antihit_def cn_inv_antihit)
qed simp

lemma cn_inv_query_ctl:
  "cn_inv was cn \<Longrightarrow> (\<And>entries a l. res = Inr entries \<Longrightarrow> (a, Some l) \<in> set entries \<Longrightarrow> was a l)
   \<Longrightarrow> cn_inv was (query_ctl clock q res cn)"
  by (cases res) (auto simp: query_ctl_def intro!: cn_inv_entries)

lemma was_at_mono: "was_at root h a l \<Longrightarrow> h \<subseteq> h' \<Longrightarrow> was_at root h' a l"
  by (auto simp: was_at_def)

lemma local_step_inv:
  assumes "local_step root has_ctl s s'" and inv: "local_inv root s"
  shows "local_inv root s'"
  using assms(1)
proof cases
  case (register p addrs rep tbl)
  let ?h = "hist s \<union> set addrs \<times> {p}"
  have mono: "was_at root (hist s) a l \<Longrightarrow> was_at root ?h a l" for a l by (rule was_at_mono) auto
  have s': "s' = s\<lparr>table := \<lambda>a. if a \<in> set addrs then Some p else table s a, hist := ?h\<rparr>" using register by simp
  have "cn_inv (was_at root ?h) (lcn s)" using inv mono by (auto simp: local_inv_def cn_inv_def)
  moreover have "\<forall>(l, d) \<in> set (local_log s). (Right l, d) \<in> set (burst_log s)
      \<or> (\<exists>a. (Left a, d) \<in> set (burst_log s) \<and> was_at root ?h a l)"
    using inv mono by (fastforce simp: local_inv_def)
  ultimately show ?thesis using inv mono by (auto simp: local_inv_def s')
next
  case (send clock ls gs burst r out cn)
  from send(2) have cn: "cn = lcn s \<or> (\<exists>as. cn = (lcn s)\<lparr>addr_cache := fold (\<lambda>a c. c(a \<mapsto> AntiHit None)) as (addr_cache (lcn s))\<rparr>)"
    by (auto elim: localname_send_cases)
  have "(Right l, d) \<in> set burst \<or> (\<exists>a. (Left a, d) \<in> set burst \<and> was_at root (hist s) a l)"
    if "sent_local out = Some ms" "(l, d) \<in> set ms" for l d ms
    using localname_send_local [OF send(2) that] inv by (auto simp: local_inv_def cn_inv_def)
  with inv send(1) cn show ?thesis
    by (auto simp: local_inv_def cn_inv_antihits split: option.splits) blast+
next
  case (serve q p)
  have "was_at root (hist s) a l" if "Some l = map_option (path_join root) (table s a)" for a l
    using that inv by (cases "table s a") (auto simp: local_inv_def was_at_def)
  with serve inv show ?thesis by (auto simp: local_inv_def query_result_def)
next
  case (fail q e)
  then show ?thesis using inv by (auto simp: local_inv_def)
next
  case (answer q res clock)
  have "cn_inv (was_at root (hist s)) (query_ctl clock q res (lcn s))"
    using inv answer(2) by (intro cn_inv_query_ctl) (auto simp: local_inv_def)
  moreover have "set (remove1 (q, res) (answers s)) \<subseteq> set (answers s)" by (rule set_remove1_subset)
  ultimately show ?thesis using inv by (auto simp: local_inv_def answer(1))
qed

lemma local_reachable_inv: "local_reachable root has_ctl s \<Longrightarrow> local_inv root s"
proof (induction rule: local_reachable.induct)
  case init
  show ?case by (simp add: local_init_def local_inv_def cn_inv_def)
next
  case (step s s')
  then show ?case by (blast intro: local_step_inv)
qed

section \<open>Properties\<close>

text \<open>
  The registry answers with the last registration. After any sequence of calls, a query gets for
  each of its addresses the path of the last registration that named the address, joined to the
  root, or nothing if there was none.
\<close>

lemma registry_answers_last_registration:
  "query_result root (Inr (fst (burrito_call p (Query qs) (burrito_run calls Map.empty))))
   = Inr (map (\<lambda>a. (a, map_option (path_join root) (last_registration a calls))) qs)"
proof -
  have "burrito_run calls Map.empty a = last_registration a calls" for a
    by (simp add: burrito_run_last split: option.split)
  then show ?thesis by (simp add: query_result_def)
qed

text \<open>
  A send loses nothing. When the connections accept what they are given, every message of the burst
  goes out exactly once, messages addressed by a path over the local connection, and the addresses
  that are asked for belong to messages that went out over the global one.
\<close>

lemma localname_send_loses_nothing:
  fixes burst :: "(('a, path) either \<times> 'd) list"
  assumes "localname_send has_ctl clock (Inr ()) (Inr ()) burst cn = (r, out, cn')"
  defines "local \<equiv> (case sent_local out of None \<Rightarrow> [] | Some ms \<Rightarrow> ms)"
    and "global \<equiv> (case sent_global out of None \<Rightarrow> [] | Some ms \<Rightarrow> ms)"
  shows "r = Inr () \<and> mset (map snd local) + mset (map snd global) = mset (map snd burst)
     \<and> set (snd (split_burst burst)) \<subseteq> set local
     \<and> (\<forall>as. asked out = Some as \<longrightarrow> set as \<subseteq> fst ` set global)"
proof -
  have r: "r = Inr ()"
    using assms(1) by (auto simp: localname_send_def Let_def split: prod.splits if_splits)
  from assms(1) show ?thesis
  proof (rule localname_send_cases)
    fix g l misses
    assume look: "look_up_all clock 0 (addr_cache cn) (fst (split_burst burst)) = (g, l, misses)"
      and loc: "sent_local out = (if snd (split_burst burst) @ l = [] then None else Some (snd (split_burst burst) @ l))"
      and glob: "is_ok r \<Longrightarrow> sent_global out = (if g = [] then None else Some g)"
      and ask: "asked out \<noteq> None \<Longrightarrow> asked out = Some (remdups_adj misses)"
    have eq: "local = snd (split_burst burst) @ l" "global = g"
      using loc glob r by (auto simp: local_def global_def)
    have "mset (map snd local) + mset (map snd global) = mset (map snd burst)"
      using look_up_all_payloads [OF look] split_burst_payloads [of burst] by (simp add: eq) (metis union_assoc union_commute)
    moreover have "set as \<subseteq> fst ` set global" if "asked out = Some as" for as
      using ask that look_up_all_global(2) [OF look] by (simp add: eq)
    ultimately show ?thesis using r eq by simp
  qed
qed

text \<open>
  C40: The local fast path uses registered paths only. However registrations, sends, lookups and their
  answers interleave, a message that went out on the local connection was addressed by that path, or
  to a socket address that had been registered there; and a message that \<open>recv\<close> attributes to a socket
  address came from a path where that address had been registered.
\<close>

theorem local_fastpath_sound:
  assumes "local_reachable root has_ctl s" and "(l, d) \<in> set (local_log s)"
    and "localname_recv n (From_local (Inr ms)) (lcn s) = Inr out" and "(Left a, m) \<in> set out"
  shows "((Right l, d) \<in> set (burst_log s) \<or> (\<exists>b. (Left b, d) \<in> set (burst_log s) \<and> was_at root (hist s) b l))
     \<and> (\<exists>src. (src, m) \<in> set (map_while_take ms) \<and> was_at root (hist s) a src)"
proof -
  have inv: "local_inv root s" by (rule local_reachable_inv) (rule assms)
  have "\<exists>src. (src, m) \<in> set (map_while_take ms) \<and> rev_addr_map (lcn s) src = Some a"
    using assms(3,4) by (auto simp: localname_recv_def dest!: in_set_takeD split: option.splits) blast
  with inv have "\<exists>src. (src, m) \<in> set (map_while_take ms) \<and> was_at root (hist s) a src"
    by (auto simp: local_inv_def cn_inv_def)
  with inv assms(2) show ?thesis by (auto simp: local_inv_def)
qed

text \<open>Without the registry, messages addressed by a path are dropped.\<close>

lemma addr_wrap_drops_paths: "addr_wrap_send (map (\<lambda>(l, d). (Right l, d)) ms) = []"
  by (induction ms) (auto simp: addr_wrap_send_def map_filter_simps)

section \<open>Examples\<close>

text \<open>An address is registered; the first message to it is a miss, the second one goes out locally.\<close>

definition ex_local1 :: "(nat, nat) local_sys" where
  "ex_local1 = local_init\<lparr>table := [7 \<mapsto> ''x''], hist := {(7, ''x'')}\<rparr>"

definition ex_local2 :: "(nat, nat) local_sys" where
  "ex_local2 = ex_local1\<lparr>queries := [[7]], burst_log := [(Left 7, 1)]\<rparr>"

definition ex_local3 :: "(nat, nat) local_sys" where
  "ex_local3 = ex_local2\<lparr>queries := [], answers := [([7], Inr [(7, Some ''/r/x'')])]\<rparr>"

definition ex_local4 :: "(nat, nat) local_sys" where
  "ex_local4 = ex_local3\<lparr>answers := [], lcn := \<lparr>addr_cache = [7 \<mapsto> Hit ''/r/x'' 105], rev_addr_map = [''/r/x'' \<mapsto> 7]\<rparr>\<rparr>"

definition ex_local5 :: "(nat, nat) local_sys" where
  "ex_local5 = ex_local4\<lparr>burst_log := [(Left 7, 1), (Left 7, 2)], local_log := [(''/r/x'', 2)]\<rparr>"

lemma ex_local_reachable: "local_reachable ''/r'' True ex_local5"
proof -
  have "local_step ''/r'' True local_init ex_local1"
    using local_step.register [of "''x''" "[7]" "local_init :: (nat, nat) local_sys" _ _ "''/r''" True]
    by (simp add: ex_local1_def local_init_def fun_upd_def)
  moreover have "local_step ''/r'' True ex_local1 ex_local2"
  proof -
    have "localname_send True (\<lambda>_. 1) (Inr ()) (Inr ()) [(Left 7, 1)] (lcn ex_local1)
        = (Inr (), \<lparr>sent_local = None, sent_global = Some [(7, 1)], asked = Some [7]\<rparr>, lcn ex_local1)"
      by (simp add: localname_send_def ex_local1_def local_init_def look_up_def)
    from local_step.send [OF this, of "''/r''"] show ?thesis by (simp add: ex_local2_def ex_local1_def local_init_def)
  qed
  moreover have "local_step ''/r'' True ex_local2 ex_local3"
    using local_step.serve [of "[7]" ex_local2 "''/r''" True]
    by (simp add: ex_local3_def ex_local2_def ex_local1_def local_init_def query_result_def path_join_def)
  moreover have "local_step ''/r'' True ex_local3 ex_local4"
    using local_step.answer [of "[7]" "Inr [(7, Some ''/r/x'')]" ex_local3 "''/r''" True "\<lambda>_. 5"]
    by (simp add: ex_local4_def ex_local3_def ex_local2_def ex_local1_def local_init_def query_ctl_def insert_hit_def)
  moreover have "local_step ''/r'' True ex_local4 ex_local5"
  proof -
    have "localname_send True (\<lambda>_. 50) (Inr ()) (Inr ()) [(Left 7, 2)] (lcn ex_local4)
        = (Inr (), \<lparr>sent_local = Some [(''/r/x'', 2)], sent_global = None, asked = None\<rparr>, lcn ex_local4)"
      by (simp add: localname_send_def ex_local4_def look_up_def)
    from local_step.send [OF this, of "''/r''"] show ?thesis
      by (simp add: ex_local5_def ex_local4_def ex_local3_def ex_local2_def ex_local1_def local_init_def)
  qed
  ultimately show ?thesis by (meson local_reachable.intros)
qed

theorem local_fastpath_sound_witness:
  "local_log ex_local5 = [(''/r/x'', 2)] \<and> was_at ''/r'' (hist ex_local5) 7 ''/r/x''"
proof -
  have log: "local_log ex_local5 = [(''/r/x'', 2)]" by (simp add: ex_local5_def)
  have "localname_recv 1 (From_local (Inr [Some (''/r/x'', 3)])) (lcn ex_local5) = Inr [(Left 7, 3 :: nat)]"
    by (simp add: localname_recv_def ex_local5_def ex_local4_def)
  from local_fastpath_sound [OF ex_local_reachable _ this, of "''/r/x''" 2 7 3] log show ?thesis by simp
qed

lemma localname_send_loses_nothing_example:
  "mset (map snd [(''/r/x'', 1), (''/p'', 2 :: nat)]) + mset (map snd [(8 :: nat, 3)])
   = mset (map snd [(Left 7, 1), (Right ''/p'', 2), (Left 8, 3 :: nat)])"
proof -
  have "localname_send True (\<lambda>_. 50) (Inr ()) (Inr ()) [(Left 7, 1), (Right ''/p'', 2), (Left 8, 3)] (lcn ex_local4)
      = (Inr (), \<lparr>sent_local = Some [(''/p'', 2), (''/r/x'', 1)], sent_global = Some [(8, 3)], asked = Some [8]\<rparr>, lcn ex_local4)"
    by (simp add: localname_send_def ex_local4_def ex_local3_def ex_local2_def ex_local1_def look_up_def)
  from localname_send_loses_nothing [OF this] show ?thesis by (simp add: ac_simps)
qed

end
