(* ===== verification/Datapath_Switch.thy ===== *)
theory Datapath_Switch
  imports Prelude
begin

text \<open>
  Switching the DPDK datapath under live connections (\<open>dpdk-direct/src/switcher_lockfree\<close>, with the
  choice of \<open>switcher/mod.rs\<close>). A transition sets a flag, waits on a barrier for every thread that
  uses the datapath, tears the old datapath down, starts the new one and sends each connection its
  replacement over a channel of capacity one. A thread that starts a \<open>send\<close> or polls a \<open>recv\<close> looks at
  the flag: if it is set, the thread waits on the barrier and then for its replacement.

  The two datapaths are foreign code; here a datapath is its kind and a number, and \<open>live\<close> is the
  number of the one that is up. A thread that uses a connection is \<open>In_op\<close>; what matters is that none is
  while the datapath is torn down, and that none uses a datapath that is not up.
\<close>

section \<open>Choosing a datapath\<close>

datatype dp_kind = Thread_dp | Inline_dp

datatype dp_choice = To_thread | To_inline nat

fun choice_kind :: "dp_choice \<Rightarrow> dp_kind" where
  "choice_kind To_thread = Thread_dp"
| "choice_kind (To_inline _) = Inline_dp"

type_synonym datapath = "dp_kind \<times> nat"

definition check_do_transition :: "datapath \<Rightarrow> dp_choice \<Rightarrow> bool" where
  "check_do_transition dp ch =
     (case (fst dp, ch) of
        (Inline_dp, To_thread) \<Rightarrow> True
      | (Thread_dp, To_inline _) \<Rightarrow> True
      | _ \<Rightarrow> False)"

text \<open>
  \<open>from_str\<close>: the first letter decides; an inline choice may give a number of threads after a colon.
  \<open>lower\<close> is \<open>to_lowercase\<close>, \<open>parse_usize\<close> is \<open>str::parse\<close>.
\<close>

definition choice_from_str :: "(string \<Rightarrow> string) \<Rightarrow> (string \<Rightarrow> nat result) \<Rightarrow> string \<Rightarrow> dp_choice result" where
  "choice_from_str lower parse_usize s =
     (let l = lower s in
      case l of
        [] \<Rightarrow> eyre ''got empty string''
      | x # _ \<Rightarrow>
          if x = CHR ''t'' then Inr To_thread
          else if x = CHR ''i''
          then (case split_at (CHR '':'') l of
                  [_] \<Rightarrow> Inr (To_inline 0)
                | [_, n] \<Rightarrow> res_bind (parse_usize n) (\<lambda>k. Inr (To_inline k))
                | _ \<Rightarrow> eyre ''unknown specifier'')
          else eyre ''unknown specifier'')"

section \<open>The state\<close>

text \<open>
  Where a thread is. \<open>Swap_seen\<close> and \<open>Flagged\<close> are before the barrier (and at it, for the threads of
  \<open>waiting\<close>), \<open>Receiving\<close> waits for the replacement of a connection. \<open>Critical\<close> is a transition
  between the barrier and the new datapath, \<open>Sending\<close> one that distributes the replacements.
\<close>

datatype ('h, 'c) point =
    Running
  | In_op 'c
  | Swap_seen 'c
  | Receiving 'c
  | Flagged 'h dp_choice
  | Critical 'h dp_choice
  | Sending 'h "'c list"

record ('t, 'h, 'c) switch =
  curr_datapath :: "'h \<Rightarrow> datapath"
  live :: nat
  swap_now :: bool
  barrier_count :: nat
  parties :: nat
  waiting :: "'t list"
  ids :: "'t \<rightharpoonup> nat"
  conns :: "'c list"
  owner :: "'c \<rightharpoonup> 't"
  dp_of :: "'c \<Rightarrow> datapath"
  updates :: "'c \<Rightarrow> datapath list"
  at :: "'t \<Rightarrow> ('h, 'c) point"

definition switch_init :: "dp_kind \<Rightarrow> ('t, 'h, 'c) switch" where
  "switch_init k = \<lparr>curr_datapath = \<lambda>_. (k, 0), live = 0, swap_now = False, barrier_count = 1, parties = 1,
     waiting = [], ids = Map.empty, conns = [], owner = Map.empty, dp_of = \<lambda>_. (k, 0), updates = \<lambda>_. [],
     at = \<lambda>_. Running\<rparr>"

definition go :: "'t \<Rightarrow> ('h, 'c) point \<Rightarrow> ('t, 'h, 'c) switch \<Rightarrow> ('t, 'h, 'c) switch" where
  "go t p s = s\<lparr>at := (at s)(t := p)\<rparr>"

section \<open>Threads and connections\<close>

text \<open>
  \<open>update_thread_idx_and_count\<close>: a thread's first call takes a number and then replaces the barrier by
  one of that size. Replacing needs the write lock, which waits for the threads at the barrier.
\<close>

definition claim_id :: "'t \<Rightarrow> ('t, 'h, 'c) switch \<Rightarrow> nat option \<times> ('t, 'h, 'c) switch" where
  "claim_id t s =
     (case ids s t of
        Some _ \<Rightarrow> (None, s)
      | None \<Rightarrow> (Some (barrier_count s),
                 s\<lparr>barrier_count := barrier_count s + 1, ids := (ids s)(t \<mapsto> barrier_count s)\<rparr>))"

definition resize_barrier :: "nat \<Rightarrow> ('t, 'h, 'c) switch \<Rightarrow> ('t, 'h, 'c) switch" where
  "resize_barrier cnt s = s\<lparr>parties := cnt\<rparr>"

definition update_thread_idx_and_count :: "'t \<Rightarrow> ('t, 'h, 'c) switch \<Rightarrow> ('t, 'h, 'c) switch" where
  "update_thread_idx_and_count t s =
     (case claim_id t s of (None, s1) \<Rightarrow> s1 | (Some cnt, s1) \<Rightarrow> resize_barrier cnt s1)"

text \<open>\<open>connect\<close> and \<open>listen\<close>.\<close>

definition open_conn :: "'t \<Rightarrow> 'h \<Rightarrow> 'c \<Rightarrow> ('t, 'h, 'c) switch \<Rightarrow> ('t, 'h, 'c) switch" where
  "open_conn t h c s =
     update_thread_idx_and_count t
       (s\<lparr>conns := List.insert c (conns s), owner := (owner s)(c \<mapsto> t),
          dp_of := (dp_of s)(c := curr_datapath s h), updates := (updates s)(c := [])\<rparr>)"

text \<open>\<open>maybe_swap_datapath\<close> at the start of a send or of a poll of recv.\<close>

definition take_update :: "'c \<Rightarrow> ('t, 'h, 'c) switch \<Rightarrow> ('t, 'h, 'c) switch" where
  "take_update c s =
     (case updates s c of
        [] \<Rightarrow> s
      | new_dp # rest \<Rightarrow> s\<lparr>dp_of := (dp_of s)(c := new_dp), updates := (updates s)(c := rest)\<rparr>)"

definition start_op :: "'t \<Rightarrow> 'c \<Rightarrow> ('t, 'h, 'c) switch \<Rightarrow> ('t, 'h, 'c) switch" where
  "start_op t c s = (if swap_now s then go t (Swap_seen c) s else go t (In_op c) (take_update c s))"

text \<open>\<open>Barrier::wait\<close>: the last of the expected threads releases all of them.\<close>

fun released :: "('h, 'c) point \<Rightarrow> ('h, 'c) point" where
  "released (Swap_seen c) = Receiving c"
| "released (Flagged h ch) = Critical h ch"
| "released p = p"

definition barrier_wait :: "'t \<Rightarrow> ('t, 'h, 'c) switch \<Rightarrow> ('t, 'h, 'c) switch" where
  "barrier_wait t s =
     (if length (waiting s) + 1 < parties s then s\<lparr>waiting := t # waiting s\<rparr>
      else s\<lparr>waiting := [],
             at := (\<lambda>u. if u \<in> set (t # waiting s) then released (at s u) else at s u)\<rparr>)"

definition receive_update :: "'t \<Rightarrow> 'c \<Rightarrow> ('t, 'h, 'c) switch \<Rightarrow> ('t, 'h, 'c) switch" where
  "receive_update t c s = go t (In_op c) (take_update c s)"

section \<open>A transition\<close>

definition trigger_transition :: "'t \<Rightarrow> 'h \<Rightarrow> dp_choice \<Rightarrow> ('t, 'h, 'c) switch \<Rightarrow> ('t, 'h, 'c) switch" where
  "trigger_transition t h ch s =
     (if check_do_transition (curr_datapath s h) ch then go t (Flagged h ch) (s\<lparr>swap_now := True\<rparr>) else s)"

text \<open>Tearing down the old datapath and starting the new one; \<open>cs\<close> is the order of the connections.\<close>

definition replace_datapath :: "'t \<Rightarrow> 'h \<Rightarrow> dp_choice \<Rightarrow> 'c list \<Rightarrow> ('t, 'h, 'c) switch \<Rightarrow> ('t, 'h, 'c) switch" where
  "replace_datapath t h ch cs s =
     go t (Sending h cs)
       (s\<lparr>live := live s + 1, curr_datapath := (curr_datapath s)(h := (choice_kind ch, live s + 1))\<rparr>)"

definition send_update :: "'t \<Rightarrow> 'h \<Rightarrow> 'c \<Rightarrow> 'c list \<Rightarrow> ('t, 'h, 'c) switch \<Rightarrow> ('t, 'h, 'c) switch" where
  "send_update t h c cs s = go t (Sending h cs) (s\<lparr>updates := (updates s)(c := updates s c @ [curr_datapath s h])\<rparr>)"

definition transition_complete :: "'t \<Rightarrow> ('t, 'h, 'c) switch \<Rightarrow> ('t, 'h, 'c) switch" where
  "transition_complete t s = go t Running (s\<lparr>swap_now := False\<rparr>)"

section \<open>Steps\<close>

text \<open>
  The steps of all threads with one handle \<open>h\<close>, which \<open>trigger_transition\<close> borrows mutably for as long
  as it runs. A transition is started by a thread that has a number, and not before the previous one
  has settled: everybody has taken the replacements and left the barrier. A transition that fails
  leaves the flag set.
\<close>

fun triggers :: "('h, 'c) point \<Rightarrow> bool" where
  "triggers (Flagged _ _) = True"
| "triggers (Critical _ _) = True"
| "triggers (Sending _ _) = True"
| "triggers _ = False"

definition idle_handle :: "('t, 'h, 'c) switch \<Rightarrow> bool" where
  "idle_handle s \<longleftrightarrow> (\<forall>u. \<not> triggers (at s u))"

definition settled :: "('t, 'h, 'c) switch \<Rightarrow> bool" where
  "settled s \<longleftrightarrow> \<not> swap_now s \<and> waiting s = [] \<and> (\<forall>c. updates s c = [])"

inductive switch_step :: "'h \<Rightarrow> ('t, 'h, 'c) switch \<Rightarrow> ('t, 'h, 'c) switch \<Rightarrow> bool" for h where
  open_conn: "at s t = Running \<Longrightarrow> idle_handle s \<Longrightarrow> waiting s = [] \<Longrightarrow> c \<notin> set (conns s) \<Longrightarrow> switch_step h s (open_conn t h c s)"
| start_op: "at s t = Running \<Longrightarrow> owner s c = Some t \<Longrightarrow> switch_step h s (start_op t c s)"
| end_op: "at s t = In_op c \<Longrightarrow> switch_step h s (go t Running s)"
| swap_wait: "at s t = Swap_seen c \<Longrightarrow> t \<notin> set (waiting s) \<Longrightarrow> switch_step h s (barrier_wait t s)"
| receive: "at s t = Receiving c \<Longrightarrow> updates s c \<noteq> [] \<Longrightarrow> switch_step h s (receive_update t c s)"
| trigger: "at s t = Running \<Longrightarrow> idle_handle s \<Longrightarrow> ids s t \<noteq> None \<Longrightarrow> settled s \<Longrightarrow>
     switch_step h s (trigger_transition t h ch s)"
| trigger_wait: "at s t = Flagged h ch \<Longrightarrow> t \<notin> set (waiting s) \<Longrightarrow> switch_step h s (barrier_wait t s)"
| replace: "at s t = Critical h ch \<Longrightarrow> set cs = set (conns s) \<Longrightarrow> distinct cs \<Longrightarrow> switch_step h s (replace_datapath t h ch cs s)"
| send_update: "at s t = Sending h (c # cs) \<Longrightarrow> updates s c = [] \<Longrightarrow> switch_step h s (send_update t h c cs s)"
| complete: "at s t = Sending h [] \<Longrightarrow> switch_step h s (transition_complete t s)"
| fail: "(\<exists>ch. at s t = Critical h ch) \<or> (\<exists>cs. at s t = Sending h cs) \<Longrightarrow> switch_step h s (go t Running s)"

inductive switch_reachable :: "'h \<Rightarrow> ('t, 'h, 'c) switch \<Rightarrow> bool" for h where
  init: "switch_reachable h (switch_init k)"
| step: "switch_reachable h s \<Longrightarrow> switch_step h s s' \<Longrightarrow> switch_reachable h s'"

section \<open>The invariant\<close>

definition barrier_inv :: "('t, 'h, 'c) switch \<Rightarrow> bool" where
  "barrier_inv s \<longleftrightarrow>
     finite (dom (ids s)) \<and> barrier_count s = card (dom (ids s)) + 1 \<and> parties s = max 1 (card (dom (ids s)))
   \<and> distinct (waiting s) \<and> (\<forall>u \<in> set (waiting s). \<exists>x. at s u = Swap_seen x \<or> (\<exists>h ch. at s u = Flagged h ch))
   \<and> (\<forall>u. at s u \<noteq> Running \<longrightarrow> u \<in> dom (ids s)) \<and> (\<forall>c t. owner s c = Some t \<longrightarrow> t \<in> dom (ids s))"

definition trigger_inv :: "('t, 'h, 'c) switch \<Rightarrow> bool" where
  "trigger_inv s \<longleftrightarrow>
     (\<forall>t u. triggers (at s t) \<longrightarrow> triggers (at s u) \<longrightarrow> t = u) \<and> (\<forall>t. triggers (at s t) \<longrightarrow> swap_now s)
   \<and> (\<forall>t h ch. at s t \<in> {Flagged h ch, Critical h ch} \<longrightarrow> (\<forall>c. updates s c = []))
   \<and> (\<forall>t h ch u. at s t = Critical h ch \<longrightarrow> u \<in> dom (ids s) \<longrightarrow> u = t \<or> (\<exists>c. at s u = Receiving c))"

definition live_inv :: "'h \<Rightarrow> ('t, 'h, 'c) switch \<Rightarrow> bool" where
  "live_inv h s \<longleftrightarrow>
     snd (curr_datapath s h) = live s \<and> (\<forall>c. \<forall>d \<in> set (updates s c). snd d = live s)
   \<and> (\<not> swap_now s \<longrightarrow> (\<forall>c \<in> set (conns s). updates s c = [] \<longrightarrow> snd (dp_of s c) = live s))
   \<and> (\<forall>t c. at s t = In_op c \<longrightarrow> snd (dp_of s c) = live s)
   \<and> (\<forall>t h' cs. at s t = Sending h' cs \<longrightarrow> (\<forall>c \<in> set (conns s) - set cs. updates s c = [] \<longrightarrow> snd (dp_of s c) = live s))
   \<and> dom (owner s) = set (conns s)
   \<and> (\<forall>t c. at s t \<in> {In_op c, Swap_seen c, Receiving c} \<longrightarrow> owner s c = Some t)"

definition switch_inv :: "'h \<Rightarrow> ('t, 'h, 'c) switch \<Rightarrow> bool" where
  "switch_inv h s \<longleftrightarrow> barrier_inv s \<and> trigger_inv s \<and> live_inv h s"

lemma go_simps [simp]:
  "at (go t p s) = (at s)(t := p)" "curr_datapath (go t p s) = curr_datapath s" "live (go t p s) = live s"
  "swap_now (go t p s) = swap_now s" "barrier_count (go t p s) = barrier_count s" "parties (go t p s) = parties s"
  "waiting (go t p s) = waiting s" "ids (go t p s) = ids s" "conns (go t p s) = conns s" "owner (go t p s) = owner s"
  "dp_of (go t p s) = dp_of s" "updates (go t p s) = updates s"
  by (simp_all add: go_def)

lemma take_update_simps [simp]:
  "at (take_update c s) = at s" "curr_datapath (take_update c s) = curr_datapath s" "live (take_update c s) = live s"
  "swap_now (take_update c s) = swap_now s" "barrier_count (take_update c s) = barrier_count s"
  "parties (take_update c s) = parties s" "waiting (take_update c s) = waiting s" "ids (take_update c s) = ids s"
  "conns (take_update c s) = conns s" "owner (take_update c s) = owner s"
  "x \<noteq> c \<Longrightarrow> dp_of (take_update c s) x = dp_of s x" "x \<noteq> c \<Longrightarrow> updates (take_update c s) x = updates s x"
  "set (updates (take_update c s) x) \<subseteq> set (updates s x)"
  "updates s c = [] \<Longrightarrow> take_update c s = s"
  by (auto simp: take_update_def split: list.splits)

lemma switch_invD:
  assumes "switch_inv h s"
  shows "barrier_inv s" "trigger_inv s" "live_inv h s"
  using assms by (simp_all add: switch_inv_def)

text \<open>A thread that takes its replacement, or has none waiting, uses the datapath that is up.\<close>

lemma take_update_live:
  assumes "live_inv h s" and "updates s c \<noteq> [] \<or> \<not> swap_now s" and "c \<in> set (conns s)"
  shows "snd (dp_of (take_update c s) c) = live s"
proof (cases "updates s c")
  case Nil
  with assms show ?thesis by (auto simp: live_inv_def)
next
  case (Cons d rest)
  then have "d \<in> set (updates s c)" by simp
  then have "snd d = live s" using assms(1) unfolding live_inv_def by blast
  with Cons show ?thesis by (simp add: take_update_def)
qed

lemma not_running_registered: "switch_inv h s \<Longrightarrow> at s t \<noteq> Running \<Longrightarrow> t \<in> dom (ids s)"
  unfolding switch_inv_def barrier_inv_def by blast

lemma critical_excludes:
  assumes "switch_inv h s" and "at s t = Critical h' ch" and "u \<in> dom (ids s)" and "u \<noteq> t"
  shows "\<exists>c. at s u = Receiving c"
  using switch_invD(2) [OF assms(1)] assms(2-4) unfolding trigger_inv_def by blast

lemma start_op_inv:
  assumes inv: "switch_inv h s" and run: "at s t = Running" "owner s c = Some t"
  shows "switch_inv h (start_op t c s)"
proof (cases "swap_now s")
  case True
  have "t \<in> dom (ids s)" "t \<notin> set (waiting s)"
    using switch_invD(1) [OF inv] run by (auto simp: barrier_inv_def)
  moreover from this have "at s u \<noteq> Critical h' ch" for u h' ch
    using critical_excludes [OF inv, of u h' ch t] run by (cases "u = t") auto
  ultimately show ?thesis using True run inv
    by (auto simp: start_op_def switch_inv_def barrier_inv_def trigger_inv_def live_inv_def)
next
  case False
  have c: "c \<in> set (conns s)" using switch_invD(3) [OF inv] run by (auto simp: live_inv_def)
  let ?s = "take_update c s"
  have b: "barrier_inv (start_op t c s)"
    using switch_invD(1) [OF inv] run False by (auto simp: start_op_def barrier_inv_def)
  have no: "\<not> triggers (at s u)" for u using switch_invD(2) [OF inv] False by (auto simp: trigger_inv_def)
  have no': "at s u \<noteq> Flagged h' ch" "at s u \<noteq> Critical h' ch" "at s u \<noteq> Sending h' cs" for u h' ch cs
    using no [of u] by auto
  have tr: "trigger_inv (start_op t c s)"
    using no no' False by (auto simp: start_op_def trigger_inv_def)
  have live: "snd (dp_of ?s c) = live s"
    by (rule take_update_live [OF switch_invD(3) [OF inv] _ c]) (simp add: False)
  have others: "u = t" if "at s u = In_op c" for u
    using that switch_invD(3) [OF inv] run by (auto simp: live_inv_def)
  have upd: "\<forall>x. \<forall>d \<in> set (updates ?s x). snd d = live s"
    using switch_invD(3) [OF inv] take_update_simps(13) [of c s] unfolding live_inv_def by blast
  have "\<forall>x \<in> set (conns s). updates ?s x = [] \<longrightarrow> snd (dp_of ?s x) = live s"
    using switch_invD(3) [OF inv] live False by (metis live_inv_def take_update_simps(11,12))
  moreover have "\<forall>u x. ((at s)(t := In_op c)) u = In_op x \<longrightarrow> snd (dp_of ?s x) = live s"
    using switch_invD(3) [OF inv] live by (metis fun_upd_apply live_inv_def point.inject(1) take_update_simps(11))
  ultimately have "live_inv h (start_op t c s)"
    using switch_invD(3) [OF inv] False run upd no' by (auto simp: start_op_def live_inv_def)
  with b tr show ?thesis by (simp add: switch_inv_def)
qed

lemma receive_inv:
  assumes inv: "switch_inv h s" and at: "at s t = Receiving c" "updates s c \<noteq> []"
  shows "switch_inv h (receive_update t c s)"
proof -
  let ?s = "take_update c s"
  have own: "owner s c = Some t" and c: "c \<in> set (conns s)"
    using switch_invD(3) [OF inv] at by (auto simp: live_inv_def)
  have b: "barrier_inv (receive_update t c s)"
    using switch_invD(1) [OF inv] at by (auto simp: receive_update_def barrier_inv_def)
  have no: "at s u \<noteq> Flagged h' ch" "at s u \<noteq> Critical h' ch" for u h' ch
    using switch_invD(2) [OF inv] at(2) unfolding trigger_inv_def by blast+
  have tr: "trigger_inv (receive_update t c s)"
    using switch_invD(2) [OF inv] no by (auto simp: receive_update_def trigger_inv_def)
  have live: "snd (dp_of ?s c) = live s"
    by (rule take_update_live [OF switch_invD(3) [OF inv] _ c]) (simp add: at)
  have upd: "\<forall>x. \<forall>d \<in> set (updates ?s x). snd d = live s"
    using switch_invD(3) [OF inv] take_update_simps(13) [of c s] unfolding live_inv_def by blast
  have fresh: "snd (dp_of ?s x) = live s" if "updates s x = [] \<longrightarrow> snd (dp_of s x) = live s" "updates ?s x = []" for x
    using that live take_update_simps(11,12) [of x c s] by (cases "x = c") auto
  have "snd (dp_of ?s x) = live s" if "((at s)(t := In_op c)) u = In_op x" for u x
    using that switch_invD(3) [OF inv] live take_update_simps(11) [of x c s]
    by (cases "x = c") (auto simp: live_inv_def split: if_splits)
  then have "live_inv h (receive_update t c s)"
    using switch_invD(3) [OF inv] own upd fresh by (auto simp: receive_update_def live_inv_def)
  with b tr show ?thesis by (simp add: switch_inv_def)
qed

lemma end_op_inv:
  assumes inv: "switch_inv h s" and at: "at s t = In_op c"
  shows "switch_inv h (go t Running s)"
proof -
  have "t \<in> dom (ids s)" by (rule not_running_registered [OF inv]) (use at in auto)
  moreover have "t \<notin> set (waiting s)" using switch_invD(1) [OF inv] at by (auto simp: barrier_inv_def)
  moreover from calculation have "at s u \<noteq> Critical h' ch" for u h' ch
    using critical_excludes [OF inv, of u h' ch t] at by (cases "u = t") auto
  ultimately show ?thesis using inv at
    by (auto simp: switch_inv_def barrier_inv_def trigger_inv_def live_inv_def)
qed

lemma fail_inv:
  assumes inv: "switch_inv h s" and at: "(\<exists>ch. at s t = Critical h ch) \<or> (\<exists>cs. at s t = Sending h cs)"
  shows "switch_inv h (go t Running s)"
proof -
  have "t \<in> dom (ids s)" by (rule not_running_registered [OF inv]) (use at in auto)
  moreover have "t \<notin> set (waiting s)" using switch_invD(1) [OF inv] at by (auto simp: barrier_inv_def)
  moreover have "triggers (at s t)" using at by auto
  then have "\<not> triggers (at s u)" if "u \<noteq> t" for u using switch_invD(2) [OF inv] that unfolding trigger_inv_def by blast
  then have "at s u \<noteq> Critical h' ch" "at s u \<noteq> Flagged h' ch" if "u \<noteq> t" for u h' ch using that by fastforce+
  moreover have "swap_now s" using switch_invD(2) [OF inv] \<open>triggers (at s t)\<close> by (auto simp: trigger_inv_def)
  ultimately show ?thesis using inv at
    by (auto simp: switch_inv_def barrier_inv_def trigger_inv_def live_inv_def)
qed

lemma trigger_inv_step:
  assumes inv: "switch_inv h s" and at: "at s t = Running" "idle_handle s" "ids s t \<noteq> None" "settled s"
  shows "switch_inv h (trigger_transition t h ch s)"
proof -
  have no: "\<not> triggers (at s u)" for u using at(2) by (simp add: idle_handle_def)
  then have "at s u \<noteq> Critical h' ch" "at s u \<noteq> Sending h' cs" for u h' ch cs by (metis triggers.simps)+
  with no inv at show ?thesis
    by (auto simp: trigger_transition_def settled_def switch_inv_def barrier_inv_def trigger_inv_def live_inv_def)
qed

lemma complete_inv:
  assumes inv: "switch_inv h s" and at: "at s t = Sending h []"
  shows "switch_inv h (transition_complete t s)"
proof -
  have "t \<notin> set (waiting s)" using switch_invD(1) [OF inv] at by (auto simp: barrier_inv_def)
  moreover have no: "\<not> triggers (at s u)" if "u \<noteq> t" for u
    using switch_invD(2) [OF inv] that at unfolding trigger_inv_def by (metis triggers.simps(3))
  then have "at s u \<noteq> Critical h' ch" "at s u \<noteq> Flagged h' ch" "at s u \<noteq> Sending h' cs" if "u \<noteq> t" for u h' ch cs
    using that by fastforce+
  moreover have "\<forall>c \<in> set (conns s). updates s c = [] \<longrightarrow> snd (dp_of s c) = live s"
    using switch_invD(3) [OF inv] at unfolding live_inv_def by fastforce
  ultimately show ?thesis using inv no
    by (auto simp: transition_complete_def switch_inv_def barrier_inv_def trigger_inv_def live_inv_def)
qed

lemma barrier_wait_inv:
  assumes inv: "switch_inv h s" and at: "(\<exists>c. at s t = Swap_seen c) \<or> (\<exists>ch. at s t = Flagged h ch)" "t \<notin> set (waiting s)"
  shows "switch_inv h (barrier_wait t s)"
proof (cases "length (waiting s) + 1 < parties s")
  case True
  with inv at show ?thesis
    by (auto simp: barrier_wait_def switch_inv_def barrier_inv_def trigger_inv_def live_inv_def)
next
  case False
  let ?W = "set (t # waiting s)" and ?s = "barrier_wait t s"
  note B = switch_invD(1) [OF inv, unfolded barrier_inv_def]
  have w: "(\<exists>c. at s u = Swap_seen c) \<or> (\<exists>h ch. at s u = Flagged h ch)" if "u \<in> ?W" for u
    using B at that by (metis set_ConsD)
  have sub: "?W \<subseteq> dom (ids s)"
    using w not_running_registered [OF inv] by (metis point.distinct(3,7) subsetI)
  moreover have "card ?W = length (waiting s) + 1" using B at(2) by (simp add: distinct_card)
  ultimately have all: "dom (ids s) = ?W" using B False by (intro card_seteq [symmetric]) auto
  have run: "at s u = Running" if "u \<notin> ?W" for u using not_running_registered [OF inv, of u] that all by blast
  have at': "at ?s u = (if u \<in> ?W then released (at s u) else Running)" for u
    using False run by (simp add: barrier_wait_def)
  have cases': "(\<exists>c. at s u = Swap_seen c \<and> at ?s u = Receiving c) \<or> (\<exists>h' ch. at s u = Flagged h' ch \<and> at ?s u = Critical h' ch)
      \<or> at ?s u = Running" for u
    using w [of u] at' [of u] by (cases "u \<in> ?W") auto
  have rest: "waiting ?s = []" "curr_datapath ?s = curr_datapath s" "live ?s = live s" "swap_now ?s = swap_now s"
      "barrier_count ?s = barrier_count s" "parties ?s = parties s" "ids ?s = ids s" "conns ?s = conns s"
      "owner ?s = owner s" "dp_of ?s = dp_of s" "updates ?s = updates s"
    using False by (simp_all add: barrier_wait_def)
  have b: "barrier_inv ?s"
    unfolding barrier_inv_def rest using B at' all by auto
  have critD: "at s u = Flagged h' ch" if "at ?s u = Critical h' ch" for u h' ch using cases' [of u] that by auto
  have trigD: "triggers (at s u)" if "triggers (at ?s u)" for u using cases' [of u] that by fastforce
  have rec: "u = v \<or> (\<exists>c. at ?s u = Receiving c)" if "at ?s v = Critical h' ch" "u \<in> dom (ids s)" for u v h' ch
  proof -
    have "triggers (at s v)" using critD [OF that(1)] by simp
    moreover have "(\<exists>c. at s u = Swap_seen c) \<or> triggers (at s u)" using w [of u] that(2) all by fastforce
    ultimately show ?thesis
      using switch_invD(2) [OF inv] at' [of u] that(2) all unfolding trigger_inv_def by (metis released.simps(1))
  qed
  have flagged: "at ?s u \<noteq> Flagged h' ch" "at ?s u \<noteq> In_op c" "at ?s u \<noteq> Swap_seen c" "at ?s u \<noteq> Sending h' cs" for u h' ch c cs
    using cases' [of u] by auto
  have unique: "u = v" if "triggers (at s u)" "triggers (at s v)" for u v
    using switch_invD(2) [OF inv] that unfolding trigger_inv_def by blast
  have empty: "updates s c = []" if "at s u = Flagged h' ch" for u h' ch c
    using switch_invD(2) [OF inv] that unfolding trigger_inv_def by blast
  have now: "swap_now s" if "triggers (at s u)" for u
    using switch_invD(2) [OF inv] that unfolding trigger_inv_def by blast
  have tr: "trigger_inv ?s"
    unfolding trigger_inv_def rest
  proof (intro conjI allI impI)
    show "u = v" if "triggers (at ?s u)" "triggers (at ?s v)" for u v using that by (blast intro: unique trigD)
    show "swap_now s" if "triggers (at ?s u)" for u using that by (blast intro: now trigD)
    show "updates s c = []" if "at ?s u \<in> {Flagged h' ch, Critical h' ch}" for u h' ch c
      using that flagged(1) [of u h' ch] empty [OF critD] by auto
  qed (rule rec)
  have recD: "owner s c = Some u" if "at ?s u = Receiving c" for u c
    using cases' [of u] that switch_invD(3) [OF inv] unfolding live_inv_def by fastforce
  have "live_inv h ?s"
    unfolding live_inv_def rest using switch_invD(3) [OF inv] flagged recD unfolding live_inv_def by simp
  with b tr show ?thesis by (simp add: switch_inv_def)
qed

lemma replace_inv:
  assumes inv: "switch_inv h s" and at: "at s t = Critical h ch" and cs: "set cs = set (conns s)"
  shows "switch_inv h (replace_datapath t h ch cs s)"
proof -
  have t: "t \<in> dom (ids s)" by (rule not_running_registered [OF inv]) (simp add: at)
  have others: "at s u = Running \<or> (\<exists>c. at s u = Receiving c)" if "u \<noteq> t" for u
    using critical_excludes [OF inv at, of u] not_running_registered [OF inv, of u] that by blast
  have t': "t \<notin> set (waiting s)" using switch_invD(1) [OF inv] at by (auto simp: barrier_inv_def)
  have upd: "updates s c = []" for c using switch_invD(2) [OF inv] at unfolding trigger_inv_def by blast
  have "swap_now s" using switch_invD(2) [OF inv] at unfolding trigger_inv_def by (metis triggers.simps(2))
  have b: "barrier_inv (replace_datapath t h ch cs s)"
    using switch_invD(1) [OF inv] t t' by (auto simp: replace_datapath_def barrier_inv_def)
  have "\<not> triggers (at s u)" "at s u \<noteq> Flagged h' ch'" "at s u \<noteq> Critical h' ch'" "at s u \<noteq> In_op c" "at s u \<noteq> Sending h' cs'"
    if "u \<noteq> t" for u h' ch' c cs' using others [OF that] by auto
  then have "trigger_inv (replace_datapath t h ch cs s)" "live_inv h (replace_datapath t h ch cs s)"
    using \<open>swap_now s\<close> upd cs switch_invD(3) [OF inv]
    by (auto simp: replace_datapath_def trigger_inv_def live_inv_def)
  with b show ?thesis by (simp add: switch_inv_def)
qed

lemma send_update_inv:
  assumes inv: "switch_inv h s" and at: "at s t = Sending h (c # cs)" "updates s c = []"
  shows "switch_inv h (send_update t h c cs s)"
proof -
  have t: "t \<in> dom (ids s)" by (rule not_running_registered [OF inv]) (simp add: at)
  have t': "t \<notin> set (waiting s)" using switch_invD(1) [OF inv] at by (auto simp: barrier_inv_def)
  have "swap_now s" using switch_invD(2) [OF inv] at unfolding trigger_inv_def by (metis triggers.simps(3))
  have no: "\<not> triggers (at s u)" if "u \<noteq> t" for u
    using switch_invD(2) [OF inv] that at unfolding trigger_inv_def by (metis triggers.simps(3))
  then have no': "at s u \<noteq> Critical h' ch" "at s u \<noteq> Flagged h' ch" "at s u \<noteq> Sending h' cs'" if "u \<noteq> t" for u h' ch cs'
    using that by fastforce+
  have b: "barrier_inv (send_update t h c cs s)"
    using switch_invD(1) [OF inv] t t' by (auto simp: send_update_def barrier_inv_def)
  have tr: "trigger_inv (send_update t h c cs s)"
    using \<open>swap_now s\<close> no no' by (auto simp: send_update_def trigger_inv_def)
  have "snd (dp_of s x) = live s" if "x \<in> set (conns s)" "x \<notin> set (c # cs)" "updates s x = []" for x
    using switch_invD(3) [OF inv] at that unfolding live_inv_def by blast
  then have "live_inv h (send_update t h c cs s)"
    using \<open>swap_now s\<close> switch_invD(3) [OF inv] no' at by (auto simp: send_update_def live_inv_def)
  with b tr show ?thesis by (simp add: switch_inv_def)
qed

lemma open_conn_inv:
  assumes inv: "switch_inv h s" and at: "at s t = Running" "idle_handle s" "waiting s = []" "c \<notin> set (conns s)"
  shows "switch_inv h (open_conn t h c s)"
proof -
  have no: "\<not> triggers (at s u)" for u using at(2) by (simp add: idle_handle_def)
  then have no': "at s u \<noteq> Critical h' ch" "at s u \<noteq> Flagged h' ch" "at s u \<noteq> Sending h' cs'" for u h' ch cs'
    by (metis triggers.simps)+
  have c: "owner s c = None" using switch_invD(3) [OF inv] at(4) by (auto simp: live_inv_def)
  then have in_op: "at s u \<noteq> In_op c" "at s u \<noteq> Swap_seen c" "at s u \<noteq> Receiving c" for u
    using switch_invD(3) [OF inv] unfolding live_inv_def by (metis insertCI option.distinct(1))+
  let ?s = "open_conn t h c s"
  have same: "at ?s = at s" "curr_datapath ?s = curr_datapath s" "live ?s = live s" "swap_now ?s = swap_now s"
      "waiting ?s = waiting s" "conns ?s = List.insert c (conns s)" "owner ?s = (owner s)(c \<mapsto> t)"
      "dp_of ?s = (dp_of s)(c := curr_datapath s h)" "updates ?s = (updates s)(c := [])"
    and ids: "ids ?s = (if t \<in> dom (ids s) then ids s else (ids s)(t \<mapsto> barrier_count s))"
      "barrier_count ?s = (if t \<in> dom (ids s) then barrier_count s else barrier_count s + 1)"
      "parties ?s = (if t \<in> dom (ids s) then parties s else barrier_count s)"
    by (cases "ids s t"; force simp: open_conn_def update_thread_idx_and_count_def claim_id_def resize_barrier_def)+
  have dom: "dom (ids ?s) = insert t (dom (ids s))" by (auto simp: ids(1))
  have "barrier_inv ?s"
    using switch_invD(1) [OF inv] at by (auto simp: same barrier_inv_def dom ids(2,3) insert_absorb card_insert_if)
  moreover have "trigger_inv ?s" using no no' by (simp add: same trigger_inv_def)
  moreover have "live_inv h ?s"
    using switch_invD(3) [OF inv] no' in_op c by (auto simp: same live_inv_def)
  ultimately show ?thesis by (simp add: switch_inv_def)
qed

lemma switch_step_inv:
  assumes "switch_step h s s'" and "switch_inv h s"
  shows "switch_inv h s'"
  using assms
proof (induction rule: switch_step.induct)
  case (swap_wait s t c)
  then show ?case by (intro barrier_wait_inv) auto
next
  case (trigger_wait s t ch)
  then show ?case by (intro barrier_wait_inv) auto
qed (simp_all add: open_conn_inv start_op_inv end_op_inv receive_inv trigger_inv_step replace_inv send_update_inv
    complete_inv fail_inv)

lemma switch_reachable_inv: "switch_reachable h s \<Longrightarrow> switch_inv h s"
proof (induction rule: switch_reachable.induct)
  case (init k)
  show ?case by (simp add: switch_init_def switch_inv_def barrier_inv_def trigger_inv_def live_inv_def)
next
  case (step s s')
  then show ?case by (blast intro: switch_step_inv)
qed

section \<open>Properties\<close>



section \<open>Examples\<close>

text \<open>Two threads with a connection each; the first triggers a transition.\<close>

definition ex_open :: "(nat, nat, nat) switch" where
  "ex_open = open_conn 1 0 11 (open_conn 0 0 10 (switch_init Thread_dp))"

definition ex_critical :: "(nat, nat, nat) switch" where
  "ex_critical = barrier_wait 0 (barrier_wait 1 (start_op 1 11 (trigger_transition 0 0 (To_inline 2) ex_open)))"

definition ex_sent :: "(nat, nat, nat) switch" where
  "ex_sent = send_update 0 0 11 [10] (replace_datapath 0 0 (To_inline 2) [11, 10] ex_critical)"

definition ex_resumed :: "(nat, nat, nat) switch" where
  "ex_resumed = receive_update 1 11 ex_sent"

lemma switch_init_simps [simp]:
  "at (switch_init k) t = Running" "waiting (switch_init k) = []" "conns (switch_init k) = []" "idle_handle (switch_init k)"
  by (simp_all add: switch_init_def idle_handle_def)

lemma idle_handle_same: "at s' = at s \<Longrightarrow> idle_handle s' = idle_handle s"
  by (simp add: idle_handle_def)

lemma open_conn_at [simp]: "at (open_conn t h c s) = at s" "waiting (open_conn t h c s) = waiting s"
  by (cases "ids s t"; force simp: open_conn_def update_thread_idx_and_count_def claim_id_def resize_barrier_def)+

lemma ex_open_simps:
  "at ex_open = (\<lambda>_. Running)" "ids ex_open 0 = Some 1" "updates ex_open = (\<lambda>_. [])" "swap_now ex_open = False"
  "waiting ex_open = []" "owner ex_open 11 = Some 1" "curr_datapath ex_open 0 = (Thread_dp, 0)"
  "parties ex_open = 2" "conns ex_open = [11, 10]" "dp_of ex_open = (\<lambda>_. (Thread_dp, 0))"
  by (auto simp: ex_open_def open_conn_def update_thread_idx_and_count_def claim_id_def resize_barrier_def switch_init_def
      fun_eq_iff)

lemma ex_switch_reachable: "switch_reachable 0 ex_critical" "switch_reachable 0 ex_resumed"
proof -
  note go = switch_reachable.step [where h = 0]
  have "switch_reachable 0 (open_conn 0 0 10 (switch_init Thread_dp) :: (nat, nat, nat) switch)"
    by (rule go [OF switch_reachable.init switch_step.open_conn]) simp_all
  then have o: "switch_reachable 0 ex_open" unfolding ex_open_def
    by (rule go [OF _ switch_step.open_conn])
       (auto simp: idle_handle_def open_conn_def update_thread_idx_and_count_def claim_id_def resize_barrier_def switch_init_def)
  have idle: "idle_handle ex_open" "settled ex_open" by (simp_all add: idle_handle_def settled_def ex_open_simps)
  let ?t = "trigger_transition 0 0 (To_inline 2) ex_open"
  have t: "switch_reachable 0 ?t" by (rule go [OF o switch_step.trigger]) (simp_all add: idle ex_open_simps)
  have s: "switch_reachable 0 (start_op 1 11 ?t)"
    by (rule go [OF t switch_step.start_op])
       (simp_all add: trigger_transition_def check_do_transition_def ex_open_simps)
  have w: "switch_reachable 0 (barrier_wait 1 (start_op 1 11 ?t))"
    by (rule go [OF s switch_step.swap_wait [where c = 11]])
       (simp_all add: start_op_def trigger_transition_def check_do_transition_def ex_open_simps)
  show c: "switch_reachable 0 ex_critical" unfolding ex_critical_def
    by (rule go [OF w switch_step.trigger_wait [where ch = "To_inline 2"]])
       (simp_all add: barrier_wait_def start_op_def trigger_transition_def check_do_transition_def ex_open_simps)
  have r: "switch_reachable 0 (replace_datapath 0 0 (To_inline 2) [11, 10] ex_critical)"
    by (rule go [OF c switch_step.replace])
       (simp_all add: ex_critical_def barrier_wait_def start_op_def trigger_transition_def check_do_transition_def ex_open_simps)
  have u: "switch_reachable 0 ex_sent" unfolding ex_sent_def
    by (rule go [OF r switch_step.send_update])
       (simp_all add: replace_datapath_def ex_critical_def barrier_wait_def start_op_def trigger_transition_def
         check_do_transition_def ex_open_simps)
  show "switch_reachable 0 ex_resumed" unfolding ex_resumed_def
    by (rule go [OF u switch_step.receive])
       (simp_all add: ex_sent_def send_update_def replace_datapath_def ex_critical_def barrier_wait_def start_op_def
         trigger_transition_def check_do_transition_def ex_open_simps)
qed

lemma ex_critical_at: "at ex_critical 0 = Critical 0 (To_inline 2)"
  by (simp add: ex_critical_def barrier_wait_def start_op_def trigger_transition_def check_do_transition_def ex_open_simps)


lemma ex_resumed_at: "at ex_resumed 1 = In_op 11" "live ex_resumed = 1"
  by (simp_all add: ex_resumed_def receive_update_def ex_sent_def send_update_def replace_datapath_def ex_critical_def
      barrier_wait_def start_op_def trigger_transition_def check_do_transition_def ex_open_simps
      switch_init_def ex_open_def open_conn_def update_thread_idx_and_count_def claim_id_def resize_barrier_def)


section \<open>What goes wrong otherwise\<close>

text \<open>A transition started by a thread without a number does not wait for all the others.\<close>

lemma unregistered_trigger_races:
  "let s = barrier_wait 1 (trigger_transition 1 0 (To_inline 1)
             (start_op 0 7 (open_conn 0 0 7 (switch_init Thread_dp :: (nat, nat, nat) switch))))
   in at s 1 = Critical 0 (To_inline 1) \<and> at s 0 = In_op 7"
  by code_simp

text \<open>
  Two threads that take their numbers one after the other but replace the barrier in the opposite
  order leave a barrier for one thread.
\<close>

lemma concurrent_registration_shrinks_barrier:
  "case claim_id 0 (switch_init Thread_dp :: (nat, nat, nat) switch) of
     (Some a, s1) \<Rightarrow>
       (case claim_id 1 s1 of
          (Some b, s2) \<Rightarrow>
            parties (resize_barrier a (resize_barrier b s2)) = 1
            \<and> ids (resize_barrier a (resize_barrier b s2)) 0 = Some 1 \<and> ids (resize_barrier a (resize_barrier b s2)) 1 = Some 2
        | _ \<Rightarrow> False)
   | _ \<Rightarrow> False"
  by code_simp

text \<open>
  A transition before the previous one has settled: the thread that triggered the first one has not
  taken its own replacement; released from the barrier it takes that one and goes on, while the second
  transition tears this datapath down.
\<close>

definition ex_unsettled :: "(nat, nat, nat) switch" where
  "ex_unsettled =
     transition_complete 0 (send_update 0 0 10 [] (go 1 Running ex_resumed))"

lemma unsettled_trigger_races:
  "let s = receive_update 0 10 (barrier_wait 1 (barrier_wait 0 (start_op 0 10 (trigger_transition 1 0 To_thread ex_unsettled))))
   in at s 1 = Critical 0 To_thread \<and> at s 0 = In_op 10"
  by code_simp

text \<open>
  A thread with two connections that has its first replacement and uses the second connection before
  the flag is reset waits on the barrier for the next transition.
\<close>

lemma second_connection_strands_thread:
  "let s0 = open_conn 1 0 12 ex_open;
       s1 = barrier_wait 0 (barrier_wait 1 (start_op 1 11 (trigger_transition 0 0 (To_inline 2) s0)));
       s2 = receive_update 1 11 (send_update 0 0 11 [10, 12] (replace_datapath 0 0 (To_inline 2) [11, 10, 12] s1));
       s3 = barrier_wait 1 (start_op 1 12 (go 1 Running s2));
       s4 = transition_complete 0 (send_update 0 0 12 [] (send_update 0 0 10 [12] s3))
   in waiting s4 = [1] \<and> at s4 1 = Swap_seen 12 \<and> at s4 0 = Running \<and> \<not> swap_now s4"
  by code_simp

text \<open>Other clones of the datapath keep the old one, and open connections on it.\<close>

lemma clone_keeps_old_datapath:
  assumes "h' \<noteq> h"
  shows "curr_datapath (replace_datapath t h ch cs s) h' = curr_datapath s h'"
    "dp_of (open_conn u h' c (replace_datapath t h ch cs s)) c = curr_datapath s h'"
    "live (replace_datapath t h ch cs s) = live s + 1"
  using assms
  by (auto simp: replace_datapath_def open_conn_def update_thread_idx_and_count_def claim_id_def resize_barrier_def
      split: option.splits)

end
