(* ===== verification/Dpdk_Inline.thy ===== *)
theory Dpdk_Inline
  imports Prelude "HOL-Library.Multiset"
begin

text \<open>
  The DPDK datapath that runs on the threads of its connections (\<open>dpdk-direct/src/dpdk_inline\<close>): each thread
  owns a queue of the network card. A receive on one connection takes what the card has for the thread and
  stashes the packets of other flows; a packet of an unknown flow to a port in use is a new connection.
  Flow rules of the card steer packets to queues.

  The card is a parameter: a burst of packets is a list in which \<open>None\<close> is one that is not valid, and
  registering a rule, allocating a buffer and writing a header are functions that may fail. An address is
  an IPv4 address and a port.
\<close>

type_synonym addr4 = "32 word \<times> u16"
type_synonym flow = "u16 \<times> addr4"
type_synonym mac = "48 word"

record packet =
  pkt_port :: u16
  pkt_addr :: addr4
  pkt_buf :: bytes

type_synonym stashes = "(flow \<times> packet list) list"

record dpdk_state =
  arp_table :: "32 word \<rightharpoonup> mac"
  rx_packets_for_ports :: stashes
  ip_id :: u16
  new_conn_signaller :: "u16 option"

definition flow_of :: "packet \<Rightarrow> flow" where
  "flow_of m = (pkt_port m, pkt_addr m)"

section \<open>Flow buffers\<close>

definition register_flow_buffer :: "u16 \<Rightarrow> addr4 \<Rightarrow> dpdk_state \<Rightarrow> dpdk_state" where
  "register_flow_buffer local_port remote_addr st =
     st\<lparr>rx_packets_for_ports := rx_packets_for_ports st @ [((local_port, remote_addr), [])]\<rparr>"

definition deregister_flow_buffer :: "u16 \<Rightarrow> addr4 option \<Rightarrow> dpdk_state \<Rightarrow> dpdk_state" where
  "deregister_flow_buffer local_port remote_addr st =
     st\<lparr>rx_packets_for_ports :=
       (case remote_addr of
          Some a \<Rightarrow> filter (\<lambda>(f, _). f \<noteq> (local_port, a)) (rx_packets_for_ports st)
        | None \<Rightarrow> map (\<lambda>(f, q). (f, if fst f = local_port then [] else q)) (rx_packets_for_ports st))\<rparr>"

definition init_accepted :: "flow list \<Rightarrow> dpdk_state \<Rightarrow> dpdk_state" where
  "init_accepted flows st = fold (\<lambda>(p, a). register_flow_buffer p a) flows st"

text \<open>\<open>push_back\<close> on the first stash that a loop over the stashes accepts.\<close>

fun push_first :: "(flow \<Rightarrow> bool) \<Rightarrow> packet \<Rightarrow> stashes \<Rightarrow> stashes option" where
  "push_first P m [] = None"
| "push_first P m ((f, q) # s) = (if P f then Some ((f, q @ [m]) # s) else map_option (Cons (f, q)) (push_first P m s))"

text \<open>Taking packets from stashes: from all in their order, or from the first that matches and is not empty.\<close>

fun take_any :: "nat \<Rightarrow> stashes \<Rightarrow> packet list \<times> stashes" where
  "take_any n [] = ([], [])"
| "take_any n ((f, q) # s) = (case take_any (n - length q) s of (r, s1) \<Rightarrow> (take n q @ r, (f, drop n q) # s1))"

fun take_first :: "(flow \<Rightarrow> bool) \<Rightarrow> nat \<Rightarrow> stashes \<Rightarrow> (packet list \<times> stashes) option" where
  "take_first P n [] = None"
| "take_first P n ((f, q) # s) =
     (if P f \<and> q \<noteq> [] then Some (take n q, (f, drop n q) # s)
      else map_option (\<lambda>(r, s1). (r, (f, q) # s1)) (take_first P n s))"

section \<open>Receiving\<close>

text \<open>
  The channel to a listener holds 16 addresses. \<open>send\<close> waits for space, which here is \<open>None\<close>: the listener
  that would make it runs on the same thread. \<open>try_send\<close> fails.
\<close>

record notifier =
  pending :: "addr4 list"
  listening :: bool

definition signal :: "addr4 \<Rightarrow> notifier option \<Rightarrow> notifier option option" where
  "signal a nc =
     (case nc of
        None \<Rightarrow> Some None
      | Some n \<Rightarrow>
          if \<not> listening n then Some (Some n)
          else if length (pending n) < 16 then Some (Some (n\<lparr>pending := pending n @ [a]\<rparr>)) else None)"

definition try_signal :: "addr4 \<Rightarrow> notifier option \<Rightarrow> notifier option result" where
  "try_signal a nc =
     (case nc of
        None \<Rightarrow> Inr None
      | Some n \<Rightarrow>
          if listening n \<and> length (pending n) < 16 then Inr (Some (n\<lparr>pending := pending n @ [a]\<rparr>))
          else eyre ''New connection channel send failed'')"

definition learn_arp :: "mac \<Rightarrow> packet \<Rightarrow> (32 word \<rightharpoonup> mac) \<Rightarrow> 32 word \<rightharpoonup> mac" where
  "learn_arp src_ether m arp = (case arp (fst (pkt_addr m)) of None \<Rightarrow> arp(fst (pkt_addr m) \<mapsto> src_ether) | Some _ \<Rightarrow> arp)"

record rx =
  rx_arp :: "32 word \<rightharpoonup> mac"
  rx_stash :: stashes
  rx_nc :: "notifier option"
  returned :: "packet list"
  num_invalid :: nat
  num_stashed :: nat
  num_dropped :: nat

definition stashed :: "stashes \<Rightarrow> rx \<Rightarrow> rx" where
  "stashed s x = x\<lparr>rx_stash := s, num_stashed := num_stashed x + 1\<rparr>"

definition dropped :: "rx \<Rightarrow> rx" where
  "dropped x = x\<lparr>num_dropped := num_dropped x + 1\<rparr>"

definition return_or_stash :: "nat \<Rightarrow> packet \<Rightarrow> rx \<Rightarrow> rx" where
  "return_or_stash mx m x =
     (if length (returned x) < mx then x\<lparr>returned := returned x @ [m]\<rparr>
      else (case push_first (\<lambda>f. f = flow_of m) m (rx_stash x) of
              Some s \<Rightarrow> stashed s x
            | None \<Rightarrow> stashed (rx_stash x @ [(flow_of m, [m])]) x))"

definition other_flow :: "packet \<Rightarrow> rx \<Rightarrow> rx option" where
  "other_flow m x =
     (case push_first (\<lambda>f. f = flow_of m) m (rx_stash x) of
        Some s \<Rightarrow> Some (stashed s x)
      | None \<Rightarrow>
          if \<exists>(f, _) \<in> set (rx_stash x). fst f = pkt_port m
          then map_option (\<lambda>nc. (stashed (rx_stash x @ [(flow_of m, [m])]) x)\<lparr>rx_nc := nc\<rparr>) (signal (pkt_addr m) (rx_nc x))
          else Some (dropped x))"

definition recv_packet :: "(u16 \<times> addr4 option) option \<Rightarrow> nat \<Rightarrow> (mac \<times> packet) option \<Rightarrow> rx \<Rightarrow> rx option" where
  "recv_packet port_filter mx raw x =
     (case raw of
        None \<Rightarrow> Some (x\<lparr>num_invalid := num_invalid x + 1\<rparr>)
      | Some (src_ether, m) \<Rightarrow>
          let x1 = x\<lparr>rx_arp := learn_arp src_ether m (rx_arp x)\<rparr> in
          case port_filter of
            Some (p, None) \<Rightarrow>
              if p \<noteq> pkt_port m \<or> mx \<le> length (returned x1)
              then (case push_first (\<lambda>f. fst f = pkt_port m) m (rx_stash x1) of
                      Some s \<Rightarrow> Some (stashed s x1)
                    | None \<Rightarrow> Some (dropped x1))
              else Some (return_or_stash mx m x1)
          | Some (p, Some a) \<Rightarrow>
              if p \<noteq> pkt_port m \<or> a \<noteq> pkt_addr m \<or> mx < length (returned x1)
              then other_flow m x1
              else Some (return_or_stash mx m x1)
          | None \<Rightarrow> Some (return_or_stash mx m x1))"

fun recv_packets :: "(u16 \<times> addr4 option) option \<Rightarrow> nat \<Rightarrow> (mac \<times> packet) option list \<Rightarrow> rx \<Rightarrow> rx option" where
  "recv_packets port_filter mx [] x = Some x"
| "recv_packets port_filter mx (raw # raws) x = Option.bind (recv_packet port_filter mx raw x) (recv_packets port_filter mx raws)"

definition from_stash :: "nat \<Rightarrow> (u16 \<times> addr4 option) option \<Rightarrow> nat \<Rightarrow> stashes \<Rightarrow> (packet list \<times> stashes) option" where
  "from_stash burst port_filter mx s =
     (case port_filter of
        None \<Rightarrow> if mx < burst \<and> (\<exists>(_, q) \<in> set s. q \<noteq> []) then Some (take_any mx s) else None
      | Some (p, a) \<Rightarrow> take_first (\<lambda>f. fst f = p \<and> (a = None \<or> a = Some (snd f))) mx s)"

text \<open>
  \<open>burst\<close> is the size of a burst and of the buffers, \<open>raws\<close> what the card has. \<open>None\<close> when the call never
  returns; otherwise the packets, the state and the channel.
\<close>

definition try_recv_burst ::
  "nat \<Rightarrow> (u16 \<times> addr4 option) option \<Rightarrow> nat option \<Rightarrow> (mac \<times> packet) option list \<Rightarrow> dpdk_state \<Rightarrow> notifier option
     \<Rightarrow> (packet list result \<times> dpdk_state \<times> notifier option) option" where
  "try_recv_burst burst port_filter max_rx raws st nc =
     (let mx = min (case max_rx of Some n \<Rightarrow> n | None \<Rightarrow> burst) burst in
      case from_stash burst port_filter mx (rx_packets_for_ports st) of
        Some (r, s) \<Rightarrow> Some (Inr r, st\<lparr>rx_packets_for_ports := s\<rparr>, nc)
      | None \<Rightarrow>
          map_option (\<lambda>x.
            (if length (returned x) + num_stashed x + num_invalid x + num_dropped x = length raws then Inr (returned x)
             else eyre ''packets have gone missing'',
             st\<lparr>arp_table := rx_arp x, rx_packets_for_ports := rx_stash x\<rparr>, rx_nc x))
          (recv_packets port_filter mx raws
             \<lparr>rx_arp = arp_table st, rx_stash = rx_packets_for_ports st, rx_nc = nc, returned = [],
              num_invalid = 0, num_stashed = 0, num_dropped = 0\<rparr>))"

text \<open>On an error the packets of the burst that were not yet looked at are forgotten.\<close>

fun stash_only ::
  "(mac \<times> packet) option list \<Rightarrow> (32 word \<rightharpoonup> mac) \<Rightarrow> stashes \<Rightarrow> notifier option
     \<Rightarrow> unit result \<times> (32 word \<rightharpoonup> mac) \<times> stashes \<times> notifier option" where
  "stash_only [] arp s nc = (Inr (), arp, s, nc)"
| "stash_only (None # raws) arp s nc = stash_only raws arp s nc"
| "stash_only (Some (src_ether, m) # raws) arp s nc =
     (let arp1 = learn_arp src_ether m arp in
      case push_first (\<lambda>f. f = flow_of m) m s of
        Some s1 \<Rightarrow> stash_only raws arp1 s1 nc
      | None \<Rightarrow>
          (let s1 = s @ [(flow_of m, [m])] in
           case try_signal (pkt_addr m) nc of
             Inl e \<Rightarrow> (Inl e, arp1, s1, nc)
           | Inr nc1 \<Rightarrow> stash_only raws arp1 s1 nc1))"

definition try_recv_burst_stash_only ::
  "(mac \<times> packet) option list \<Rightarrow> dpdk_state \<Rightarrow> notifier option \<Rightarrow> unit result \<times> dpdk_state \<times> notifier option" where
  "try_recv_burst_stash_only raws st nc =
     (case stash_only raws (arp_table st) (rx_packets_for_ports st) nc of
        (r, arp, s, nc1) \<Rightarrow> (r, st\<lparr>arp_table := arp, rx_packets_for_ports := s\<rparr>, nc1))"

section \<open>Sending\<close>

record send_msg =
  src_port :: u16
  to_addr :: addr4
  buf :: bytes

type_synonym frame = "u16 \<times> mac \<times> send_msg"

text \<open>
  A frame is its \<open>ip_id\<close>, the destination's address on the link, and the message. \<open>k\<close> counts the allocations,
  \<open>tx\<close> are the frames that wait for a full burst. A message to an unknown address is skipped; the iterator of
  the messages may panic.
\<close>

fun send_loop ::
  "nat \<Rightarrow> (nat \<Rightarrow> unit result) \<Rightarrow> (frame \<Rightarrow> nat result) \<Rightarrow> (32 word \<rightharpoonup> mac) \<Rightarrow> send_msg result list \<Rightarrow> nat \<Rightarrow> u16 \<Rightarrow> frame list
     \<Rightarrow> frame list list \<times> unit result \<times> u16" where
  "send_loop burst alloc fill_in_header arp [] k i tx = (if tx = [] then [] else [tx], Inr (), i)"
| "send_loop burst alloc fill_in_header arp (Inl e # ms) k i tx = ([], Inl e, i)"
| "send_loop burst alloc fill_in_header arp (Inr m # ms) k i tx =
     (case arp (fst (to_addr m)) of
        None \<Rightarrow> send_loop burst alloc fill_in_header arp ms k i tx
      | Some dst \<Rightarrow>
          (case alloc k of
             Inl _ \<Rightarrow> ([], Inl (Panic ''Failed allocating mbufs''), i)
           | Inr _ \<Rightarrow>
               (case fill_in_header (i, dst, m) of
                  Inl _ \<Rightarrow> send_loop burst alloc fill_in_header arp ms (k + 1) i tx
                | Inr _ \<Rightarrow>
                    (let i1 = (i + 1) mod 0xFFFF; tx1 = tx @ [(i, dst, m)] in
                     if burst \<le> length tx1
                     then (case send_loop burst alloc fill_in_header arp ms (k + 1) i1 [] of (out, r) \<Rightarrow> (tx1 # out, r))
                     else send_loop burst alloc fill_in_header arp ms (k + 1) i1 tx1))))"

definition send_burst ::
  "nat \<Rightarrow> (nat \<Rightarrow> unit result) \<Rightarrow> (frame \<Rightarrow> nat result) \<Rightarrow> send_msg result list \<Rightarrow> dpdk_state \<Rightarrow> frame list list \<times> unit result \<times> dpdk_state" where
  "send_burst burst alloc fill_in_header msgs st =
     (case send_loop burst alloc fill_in_header (arp_table st) msgs 0 (ip_id st) [] of
        (out, r, i) \<Rightarrow> (out, r, st\<lparr>ip_id := i\<rparr>))"

section \<open>Flow steering\<close>

text \<open>
  For a local port, the rule of the card, as the queues it steers to, and the queues that want its packets.
  \<open>mlx\<close> is the feature that turns rules over several queues off.
\<close>

record steering =
  local_dst_port :: "u16 \<rightharpoonup> u16 list option \<times> u16 list"
  remote_src_port :: "u16 \<rightharpoonup> u16"

record match_rule =
  remote_port :: "u16 option"
  local_port :: "u16 option"

definition local_dst_only :: "u16 \<Rightarrow> match_rule" where
  "local_dst_only p = \<lparr>remote_port = None, local_port = Some p\<rparr>"

definition port_entry :: "steering \<Rightarrow> u16 \<Rightarrow> u16 list option \<times> u16 list" where
  "port_entry fs p = (case local_dst_port fs p of Some e \<Rightarrow> e | None \<Rightarrow> (None, []))"

definition set_port :: "u16 \<Rightarrow> u16 list option \<Rightarrow> u16 list \<Rightarrow> steering \<Rightarrow> steering" where
  "set_port p h qs fs = fs\<lparr>local_dst_port := (local_dst_port fs)(p \<mapsto> (h, qs))\<rparr>"

text \<open>\<open>register_flow_steering\<close>: a rule for one queue, or one that spreads over several.\<close>

definition register_flow_steering :: "(u16 \<Rightarrow> u16 \<Rightarrow> unit result) \<Rightarrow> (u16 \<Rightarrow> u16 list \<Rightarrow> unit result) \<Rightarrow> u16 \<Rightarrow> u16 list \<Rightarrow> unit result" where
  "register_flow_steering solo rss p queues =
     wrap_err ''Could not register flow steering'' (case queues of [q] \<Rightarrow> solo p q | _ \<Rightarrow> rss p queues)"

definition add_flow ::
  "bool \<Rightarrow> (u16 \<Rightarrow> u16 \<Rightarrow> unit result) \<Rightarrow> (u16 \<Rightarrow> u16 list \<Rightarrow> unit result) \<Rightarrow> (match_rule \<Rightarrow> u16 \<Rightarrow> unit result)
     \<Rightarrow> u16 \<Rightarrow> match_rule \<Rightarrow> steering \<Rightarrow> unit result \<times> steering" where
  "add_flow mlx solo rss solo_rule qid rule fs =
     (case (case remote_port rule of
              None \<Rightarrow> Inr fs
            | Some sp \<Rightarrow>
                if remote_src_port fs sp \<noteq> None then Inr fs
                else res_bind (solo_rule rule qid) (\<lambda>_. Inr (fs\<lparr>remote_src_port := (remote_src_port fs)(sp \<mapsto> qid)\<rparr>))) of
        Inl e \<Rightarrow> (Inl e, fs)
      | Inr fs1 \<Rightarrow>
          (case local_port rule of
             None \<Rightarrow> (Inr (), fs1)
           | Some p \<Rightarrow>
               (let qs = sort (snd (port_entry fs1 p) @ [qid]) in
                if \<not> mlx \<or> length qs < 2
                then (case register_flow_steering solo rss p qs of
                        Inl e \<Rightarrow> (Inl e, set_port p None qs fs1)
                      | Inr _ \<Rightarrow> (Inr (), set_port p (Some qs) qs fs1))
                else (Inr (), set_port p None qs fs1))))"

definition swap_remove :: "nat \<Rightarrow> 'a list \<Rightarrow> 'a list" where
  "swap_remove i xs = (if Suc i = length xs then butlast xs else (butlast xs)[i := last xs])"

fun position :: "'a \<Rightarrow> 'a list \<Rightarrow> nat option" where
  "position x [] = None"
| "position x (y # ys) = (if x = y then Some 0 else map_option Suc (position x ys))"

definition remove_flow ::
  "bool \<Rightarrow> (u16 \<Rightarrow> u16 \<Rightarrow> unit result) \<Rightarrow> (u16 \<Rightarrow> u16 list \<Rightarrow> unit result) \<Rightarrow> u16 \<Rightarrow> u16 \<Rightarrow> u16 option \<Rightarrow> steering \<Rightarrow> unit result \<times> steering" where
  "remove_flow mlx solo rss qid p rp fs =
     (let fs1 = (case rp of None \<Rightarrow> fs | Some sp \<Rightarrow> fs\<lparr>remote_src_port := (remote_src_port fs)(sp := None)\<rparr>);
          qs = snd (port_entry fs1 p) in
      case position qid qs of
        None \<Rightarrow> (eyre ''queue not registered on port'', set_port p None qs fs1)
      | Some i \<Rightarrow>
          (let qs1 = swap_remove i qs in
           if mlx \<and> 1 < length qs1 \<or> qs1 = [] then (Inr (), set_port p None qs1 fs1)
           else (case register_flow_steering solo rss p (sort qs1) of
                   Inl e \<Rightarrow> (Inl e, set_port p None (sort qs1) fs1)
                 | Inr _ \<Rightarrow> (Inr (), set_port p (Some (sort qs1)) (sort qs1) fs1))))"

section \<open>Ports\<close>

definition ephemeral_ports :: "u16 list" where
  "ephemeral_ports = map of_nat [4096..<16384]"

definition claim_port :: "u16 \<Rightarrow> u16 list \<Rightarrow> bool \<times> u16 list" where
  "claim_port p pool = (case position p pool of None \<Rightarrow> (False, pool) | Some i \<Rightarrow> (True, swap_remove i pool))"

text \<open>
  \<open>connect\<close> takes the port at the random index \<open>idx\<close>; the address is looked at afterwards, and \<open>None\<close> is one that is
  not IPv4. \<open>do_listen_non_accept\<close> takes the port it is given.
\<close>

definition connect_port :: "nat \<Rightarrow> addr4 option \<Rightarrow> u16 list \<Rightarrow> u16 result \<times> u16 list" where
  "connect_port idx addr pool =
     (if pool = [] then (eyre ''Could not find appropriate src port to use'', pool)
      else (case addr of
              None \<Rightarrow> (eyre ''Address must be ipv4'', swap_remove idx pool)
            | Some _ \<Rightarrow> (Inr (pool ! idx), swap_remove idx pool)))"

definition listen_port :: "addr4 option \<Rightarrow> u16 list \<Rightarrow> u16 result \<times> u16 list" where
  "listen_port addr pool =
     (case addr of
        None \<Rightarrow> (eyre ''Only IPv4 is supported'', pool)
      | Some a \<Rightarrow>
          (case claim_port (snd a) pool of
             (True, pool1) \<Rightarrow> (Inr (snd a), pool1)
           | (False, pool1) \<Rightarrow> (eyre ''Tried to listen on port that is already in use'', pool1)))"

text \<open>\<open>Drop for DpdkInlineCn\<close>: a connection that was made with the pool puts its port back.\<close>

definition release_port :: "bool \<Rightarrow> u16 \<Rightarrow> u16 list \<Rightarrow> u16 list" where
  "release_port with_pool p pool = (if with_pool then pool @ [p] else pool)"

text \<open>
  \<open>load_conns\<close> for one connection: its port is taken out of the pool if it is there; \<open>acceptors\<close> are the ports for
  which a stream was made by now. The result says whether a steering rule is set up for the port.
\<close>

definition load_port :: "u16 \<Rightarrow> addr4 option \<Rightarrow> u16 set \<Rightarrow> u16 list \<Rightarrow> (bool \<times> u16 set) result \<times> u16 list" where
  "load_port p remote acceptors pool =
     (case claim_port p pool of (found, pool1) \<Rightarrow>
        (case remote of
           Some _ \<Rightarrow>
             if found \<and> p \<in> acceptors then (eyre ''Found stream state for an unclaimed port'', pool1)
             else (Inr (p \<notin> acceptors, insert p acceptors), pool1)
         | None \<Rightarrow> if found then (Inr (True, acceptors), pool1) else (eyre ''Connection uses a duplicated port'', pool1)))"

section \<open>Connections and listeners\<close>

text \<open>
  \<open>DpdkInlineCn::recv\<close>: polls until packets come. Each poll finds a burst on the card; \<open>None\<close> is still polling, or
  waiting forever for the channel.
\<close>

fun fill_msgs :: "packet list \<Rightarrow> (addr4 \<times> bytes) option list \<Rightarrow> (addr4 \<times> bytes) option list" where
  "fill_msgs (m # ms) (_ # slots) = Some (pkt_addr m, pkt_buf m) # fill_msgs ms slots"
| "fill_msgs _ slots = slots"

fun inline_recv ::
  "nat \<Rightarrow> u16 \<Rightarrow> addr4 option \<Rightarrow> (mac \<times> packet) option list list \<Rightarrow> (addr4 \<times> bytes) option list \<Rightarrow> dpdk_state \<Rightarrow> notifier option
     \<Rightarrow> ((addr4 \<times> bytes) option list result \<times> dpdk_state \<times> notifier option) option" where
  "inline_recv burst lp remote [] msgs_buf st nc = None"
| "inline_recv burst lp remote (raws # polls) msgs_buf st nc =
     (case try_recv_burst burst (Some (lp, remote)) (Some (length msgs_buf)) raws st nc of
        None \<Rightarrow> None
      | Some (Inl e, st1, nc1) \<Rightarrow> Some (Inl e, st1, nc1)
      | Some (Inr ms, st1, nc1) \<Rightarrow>
          if \<not> list_all (\<lambda>m. pkt_port m = lp) ms then Some (eyre ''Port mismatch'', st1, nc1)
          else if length msgs_buf < length ms then Some (Inl (Panic ''index out of bounds''), st1, nc1)
          else if ms \<noteq> [] then Some (Inr (take (length ms) (fill_msgs ms msgs_buf)), st1, nc1)
          else inline_recv burst lp remote polls msgs_buf st1 nc1)"

text \<open>\<open>DpdkInlineCn::send\<close>: an address that is not IPv4 panics, and the card is looked at after sending.\<close>

definition inline_msg :: "u16 \<Rightarrow> addr4 option \<times> bytes \<Rightarrow> send_msg result" where
  "inline_msg lp m =
     (case fst m of
        None \<Rightarrow> Inl (Panic ''Only IPv4 is supported'')
      | Some a \<Rightarrow> Inr \<lparr>src_port = lp, to_addr = a, buf = snd m\<rparr>)"

definition inline_send ::
  "nat \<Rightarrow> (nat \<Rightarrow> unit result) \<Rightarrow> (frame \<Rightarrow> nat result) \<Rightarrow> u16 \<Rightarrow> (addr4 option \<times> bytes) list \<Rightarrow> (mac \<times> packet) option list
     \<Rightarrow> dpdk_state \<Rightarrow> notifier option \<Rightarrow> frame list list \<times> unit result \<times> dpdk_state \<times> notifier option" where
  "inline_send burst alloc fill_in_header lp msgs raws st nc =
     (case send_burst burst alloc fill_in_header (map (inline_msg lp) msgs) st of
        (out, Inl e, st1) \<Rightarrow> (out, Inl e, st1, nc)
      | (out, Inr _, st1) \<Rightarrow>
          (case try_recv_burst_stash_only raws st1 nc of
             (r, st2, nc2) \<Rightarrow> (out, wrap_err ''try_recv_burst_stash_only after send'' r, st2, nc2)))"

text \<open>
  \<open>StreamState::get_next\<close>: without connections the stream polls the card itself, otherwise it waits for a new address
  or the end of a connection; an event it does not wait for then is not taken. The stream keeps senders of
  both channels, so they do not close.
\<close>

datatype stream_event = Polled "unit result" "addr4 option" | NewConn addr4 | ConnClosed

fun stream_next :: "stream_event list \<Rightarrow> nat \<Rightarrow> (addr4 result \<times> nat) option" where
  "stream_next [] conn_count = None"
| "stream_next (Polled r found # evs) conn_count =
     (if conn_count = 0
      then (case r of
              Inl e \<Rightarrow> Some (Inl e, conn_count)
            | Inr _ \<Rightarrow> (case found of Some a \<Rightarrow> Some (Inr a, 1) | None \<Rightarrow> stream_next evs conn_count))
      else stream_next evs conn_count)"
| "stream_next (NewConn a # evs) conn_count =
     (if conn_count = 0 then stream_next evs conn_count else Some (Inr a, conn_count + 1))"
| "stream_next (ConnClosed # evs) conn_count =
     (if conn_count = 0 then stream_next evs conn_count else stream_next evs (conn_count - 1))"

section \<open>Stashes\<close>

text \<open>
  The stash of a flow is the first one with its key. In a good state later ones with the same key are empty;
  with connected flows only, every packet is in a stash of its own flow.
\<close>

definition stash_of :: "stashes \<Rightarrow> flow \<Rightarrow> packet list" where
  "stash_of s f = (case map_of s f of Some q \<Rightarrow> q | None \<Rightarrow> [])"

fun only_first :: "stashes \<Rightarrow> bool" where
  "only_first [] = True"
| "only_first ((f, q) # s) = ((\<forall>q1. (f, q1) \<in> set s \<longrightarrow> q1 = []) \<and> only_first s)"

definition own_flow :: "stashes \<Rightarrow> bool" where
  "own_flow s \<longleftrightarrow> (\<forall>(f, q) \<in> set s. \<forall>m \<in> set q. flow_of m = f)"

definition own_port :: "stashes \<Rightarrow> bool" where
  "own_port s \<longleftrightarrow> (\<forall>(f, q) \<in> set s. \<forall>m \<in> set q. pkt_port m = fst f)"

definition valid :: "(mac \<times> packet) option list \<Rightarrow> packet list" where
  "valid raws = List.map_filter (map_option snd) raws"

definition all_packets :: "stashes \<Rightarrow> packet multiset" where
  "all_packets s = (\<Sum>(_, q) \<leftarrow> s. mset q)"

lemma valid_simps [simp]: "valid [] = []" "valid (None # raws) = valid raws" "valid (Some (e, m) # raws) = m # valid raws"
  by (simp_all add: valid_def map_filter_simps)

lemma all_packets_simps [simp]:
  "all_packets [] = {#}" "all_packets ((f, q) # s) = mset q + all_packets s" "all_packets (s @ t) = all_packets s + all_packets t"
  by (simp_all add: all_packets_def)

lemma mset_take_drop [simp]: "mset (take n q) + mset (drop n q) = mset q"
  by (metis append_take_drop_id mset_append)

lemma push_first_None: "push_first (\<lambda>f. f = k) m s = None \<longleftrightarrow> map_of s k = None"
  by (induction s) auto

lemma push_first_Some:
  "push_first (\<lambda>f. f = k) m s = Some s1 \<Longrightarrow> map_of s1 = (map_of s)(k \<mapsto> stash_of s k @ [m])"
  by (induction s arbitrary: s1) (auto simp: stash_of_def fun_upd_twist split: if_splits)

lemma push_first_packets: "push_first P m s = Some s1 \<Longrightarrow> all_packets s1 = add_mset m (all_packets s)"
  by (induction s arbitrary: s1) (auto split: if_splits)

lemma push_first_set: "push_first P m s = Some s1 \<Longrightarrow> (f, q) \<in> set s1 \<Longrightarrow> (f, q) \<in> set s \<or> (\<exists>q0. (f, q0) \<in> set s \<and> q = q0 @ [m] \<and> P f)"
  by (induction s arbitrary: s1) (auto split: if_splits)

lemma push_first_keys: "push_first P m s = Some s1 \<Longrightarrow> map fst s1 = map fst s"
  by (induction s arbitrary: s1) (auto split: if_splits)

lemma push_first_only: "push_first (\<lambda>f. f = k) m s = Some s1 \<Longrightarrow> only_first s \<Longrightarrow> only_first s1"
proof (induction s arbitrary: s1)
  case (Cons x s)
  obtain f q where x: "x = (f, q)" by (cases x)
  show ?case
  proof (cases "f = k")
    case False
    then obtain s2 where s2: "push_first (\<lambda>f. f = k) m s = Some s2" "s1 = (f, q) # s2" using Cons.prems(1) by (auto simp: x)
    have "q1 = []" if "(f, q1) \<in> set s2" for q1 using push_first_set [OF s2(1) that] Cons.prems(2) False by (auto simp: x)
    then show ?thesis using Cons.IH [OF s2(1)] Cons.prems(2) s2(2) by (simp add: x)
  qed (use Cons.prems in \<open>auto simp: x\<close>)
qed simp

lemma own_flow_push: "push_first (\<lambda>f. f = flow_of m) m s = Some s1 \<Longrightarrow> own_flow s \<Longrightarrow> own_flow s1"
  by (fastforce simp: own_flow_def dest: push_first_set)

lemma own_port_push: "push_first P m s = Some s1 \<Longrightarrow> (\<And>f. P f \<Longrightarrow> fst f = pkt_port m) \<Longrightarrow> own_port s \<Longrightarrow> own_port s1"
  by (fastforce simp: own_port_def dest: push_first_set)

lemma stash_append_new:
  "map_of s (flow_of m) = None \<Longrightarrow> only_first s \<Longrightarrow> only_first (s @ [(flow_of m, [m])])"
  "own_flow s \<Longrightarrow> own_flow (s @ [(flow_of m, [m])])" "own_port s \<Longrightarrow> own_port (s @ [(flow_of m, [m])])"
  by (induction s) (auto simp: own_flow_def own_port_def flow_of_def split: if_splits)

lemma own_flow_port: "own_flow s \<Longrightarrow> own_port s"
  by (fastforce simp: own_flow_def own_port_def flow_of_def)

text \<open>What taking from the stashes does.\<close>

lemma take_any_eq: "take_any n s = (r, s1) \<Longrightarrow> r = take n (concat (map snd s)) \<and> all_packets s = mset r + all_packets s1"
proof (induction n s arbitrary: r s1 rule: take_any.induct)
  case (2 n f q s)
  obtain r2 s2 where t: "take_any (n - length q) s = (r2, s2)" by (cases "take_any (n - length q) s")
  show ?case using 2(1) [OF t] 2(2) t mset_take_drop [of n q] by auto
qed simp

lemma take_first_eq:
  "take_first P n s = Some (r, s1) \<Longrightarrow> \<exists>f q s0 s2. s = s0 @ (f, q) # s2 \<and> s1 = s0 @ (f, drop n q) # s2 \<and> r = take n q \<and> P f \<and> q \<noteq> []
     \<and> (\<forall>(f, q) \<in> set s0. P f \<longrightarrow> q = [])"
proof (induction s arbitrary: s1)
  case (Cons x s)
  obtain f q where x: "x = (f, q)" by (cases x)
  show ?case
  proof (cases "P f \<and> q \<noteq> []")
    case True
    then show ?thesis using Cons.prems by (intro exI [of _ f] exI [of _ q] exI [of _ "[]"] exI [of _ s]) (auto simp: x)
  next
    case False
    then obtain s3 where s3: "take_first P n s = Some (r, s3)" "s1 = (f, q) # s3" using Cons.prems by (auto simp: x)
    from Cons.IH [OF s3(1)] obtain g p t0 t2 where *: "s = t0 @ (g, p) # t2" "s3 = t0 @ (g, drop n p) # t2" "r = take n p" "P g" "p \<noteq> []"
      "\<forall>(f, q) \<in> set t0. P f \<longrightarrow> q = []" by blast
    show ?thesis using * s3(2) False by (intro exI [of _ g] exI [of _ p] exI [of _ "(f, q) # t0"] exI [of _ t2]) (auto simp: x)
  qed
qed simp

lemma take_first_None: "take_first P n s = None \<Longrightarrow> (f, q) \<in> set s \<Longrightarrow> P f \<Longrightarrow> q = []"
  by (induction s) (auto split: if_splits)

lemma take_first_packets: "take_first P n s = Some (r, s1) \<Longrightarrow> all_packets s = mset r + all_packets s1"
proof -
  assume "take_first P n s = Some (r, s1)"
  then obtain f q s0 s2 where *: "s = s0 @ (f, q) # s2" "s1 = s0 @ (f, drop n q) # s2" "r = take n q" using take_first_eq by blast
  then show ?thesis using mset_take_drop [of n q] by simp
qed

section \<open>Accounting for packets\<close>

definition rx_total :: "rx \<Rightarrow> nat" where
  "rx_total x = length (returned x) + num_stashed x + num_invalid x + num_dropped x"

text \<open>One packet is returned, stashed or dropped; it is dropped only if its port has no stash.\<close>

definition ports :: "stashes \<Rightarrow> u16 set" where
  "ports s = (\<lambda>(f, _). fst f) ` set s"

lemma ports_simps [simp]: "ports [] = {}" "ports ((f, q) # s) = insert (fst f) (ports s)" "ports (s @ t) = ports s \<union> ports t"
  by (auto simp: ports_def)

lemma ports_iff: "(\<exists>(f, _) \<in> set s. fst f = p) \<longleftrightarrow> p \<in> ports s"
  by (force simp: ports_def)

lemma push_first_port_None: "push_first (\<lambda>f. fst f = p) m s = None \<longleftrightarrow> p \<notin> ports s"
  by (induction s) (auto split: if_splits)

lemma ports_push: "push_first P m s = Some s1 \<Longrightarrow> ports s1 = ports s"
  by (induction s arbitrary: s1) (auto split: if_splits)

lemma recv_packet_total:
  assumes "recv_packet flt mx raw x = Some x1"
  shows "rx_total x1 = Suc (rx_total x) \<and> (length (returned x) \<le> mx \<longrightarrow> length (returned x1) \<le> mx)"
proof (cases raw)
  case (Some em)
  obtain e m where em: "em = (e, m)" by (cases em)
  have ret: "rx_total (return_or_stash mx m y) = Suc (rx_total y)" for y
    by (auto simp: return_or_stash_def rx_total_def stashed_def split: option.split)
  have other: "rx_total z = Suc (rx_total y)" if "other_flow m y = Some z" for y z
    using that by (auto simp: other_flow_def rx_total_def stashed_def dropped_def split: option.splits if_splits)
  have len: "returned z = returned y" if "other_flow m y = Some z" for y z
    using that by (auto simp: other_flow_def stashed_def dropped_def split: option.splits if_splits)
  show ?thesis using assms Some em ret other len
    by (auto simp: recv_packet_def Let_def rx_total_def stashed_def dropped_def return_or_stash_def
        split: option.splits if_splits prod.splits dest!: other len)
qed (use assms in \<open>auto simp: recv_packet_def rx_total_def\<close>)

lemma recv_packets_total:
  "recv_packets flt mx raws x = Some x1 \<Longrightarrow> length (returned x) \<le> mx \<Longrightarrow>
   rx_total x1 = rx_total x + length raws \<and> length (returned x1) \<le> mx"
proof (induction raws arbitrary: x)
  case (Cons raw raws)
  from Cons.prems(1) obtain x2 where x2: "recv_packet flt mx raw x = Some x2" "recv_packets flt mx raws x2 = Some x1"
    by (auto simp: bind_eq_Some_conv)
  show ?case using recv_packet_total [OF x2(1)] Cons.IH [OF x2(2)] Cons.prems(2) by auto
qed simp

text \<open>What happens to one valid packet, and to the ports and addresses of the stashes.\<close>

definition rx_packets :: "rx \<Rightarrow> packet multiset" where
  "rx_packets x = mset (returned x) + all_packets (rx_stash x)"

lemma recv_packet_packets:
  assumes "recv_packet flt mx (Some (e, m)) x = Some x1"
  shows "(rx_packets x1 = add_mset m (rx_packets x) \<or> rx_packets x1 = rx_packets x \<and> pkt_port m \<notin> ports (rx_stash x))
    \<and> ports (rx_stash x) \<subseteq> ports (rx_stash x1)"
proof -
  let ?x = "x\<lparr>rx_arp := learn_arp e m (rx_arp x)\<rparr>"
  have ret: "rx_packets (return_or_stash mx m ?x) = add_mset m (rx_packets x) \<and> ports (rx_stash x) \<subseteq> ports (rx_stash (return_or_stash mx m ?x))"
    by (auto simp: return_or_stash_def rx_packets_def stashed_def push_first_packets ports_push split: option.split)
  have other: "(rx_packets z = add_mset m (rx_packets x) \<or> rx_packets z = rx_packets x \<and> pkt_port m \<notin> ports (rx_stash x))
      \<and> ports (rx_stash x) \<subseteq> ports (rx_stash z)" if "other_flow m ?x = Some z" for z
    using that by (auto simp: other_flow_def rx_packets_def stashed_def dropped_def push_first_packets ports_push ports_iff split: option.splits if_splits)
  have unconnected: "(rx_packets z = add_mset m (rx_packets x) \<or> rx_packets z = rx_packets x \<and> pkt_port m \<notin> ports (rx_stash x))
      \<and> ports (rx_stash x) \<subseteq> ports (rx_stash z)"
    if "(case push_first (\<lambda>f. fst f = pkt_port m) m (rx_stash x) of Some s \<Rightarrow> Some (stashed s ?x) | None \<Rightarrow> Some (dropped ?x)) = Some z" for z
    using that by (auto simp: rx_packets_def stashed_def dropped_def push_first_packets ports_push push_first_port_None split: option.splits)
  show ?thesis using assms ret other [of x1] unconnected [of x1] by (auto simp: recv_packet_def Let_def split: option.splits if_splits)
qed

lemma recv_packets_packets:
  "recv_packets flt mx raws x = Some x1 \<Longrightarrow>
   \<exists>d. rx_packets x1 + mset d = rx_packets x + mset (valid raws) \<and> (\<forall>m \<in> set d. pkt_port m \<notin> ports (rx_stash x))"
proof (induction raws arbitrary: x)
  case (Cons raw raws)
  from Cons.prems(1) obtain x2 where x2: "recv_packet flt mx raw x = Some x2" "recv_packets flt mx raws x2 = Some x1"
    by (auto simp: bind_eq_Some_conv)
  from Cons.IH [OF x2(2)] obtain d where d: "rx_packets x1 + mset d = rx_packets x2 + mset (valid raws)" "\<forall>m \<in> set d. pkt_port m \<notin> ports (rx_stash x2)"
    by blast
  show ?case
  proof (cases raw)
    case None
    then show ?thesis using d x2 by (auto simp: recv_packet_def rx_packets_def)
  next
    case (Some em)
    obtain e m where em: "em = (e, m)" by (cases em)
    from recv_packet_packets [OF x2(1) [unfolded Some em]] consider
        "rx_packets x2 = add_mset m (rx_packets x)" "ports (rx_stash x) \<subseteq> ports (rx_stash x2)"
      | "rx_packets x2 = rx_packets x" "pkt_port m \<notin> ports (rx_stash x)" "ports (rx_stash x) \<subseteq> ports (rx_stash x2)" by blast
    then show ?thesis
    proof cases
      case 1
      then show ?thesis using d by (intro exI [of _ d]) (auto simp: Some em)
    next
      case 2
      then show ?thesis using d by (intro exI [of _ "m # d"]) (auto simp: Some em)
    qed
  qed
qed (auto intro: exI [of _ "[]"])

lemma recv_accounting:
  assumes "try_recv_burst burst flt max_rx raws st nc = Some (r, st1, nc1)"
  shows "\<exists>ms seen d. r = Inr ms \<and> length ms \<le> burst \<and> (\<forall>n. max_rx = Some n \<longrightarrow> length ms \<le> n)
    \<and> (seen = [] \<or> seen = valid raws)
    \<and> mset ms + all_packets (rx_packets_for_ports st1) + mset d = all_packets (rx_packets_for_ports st) + mset seen
    \<and> (\<forall>m \<in> set d. pkt_port m \<notin> ports (rx_packets_for_ports st))"
proof -
  let ?mx = "min (case max_rx of Some n \<Rightarrow> n | None \<Rightarrow> burst) burst"
  show ?thesis
  proof (cases "from_stash burst flt ?mx (rx_packets_for_ports st)")
    case (Some rs)
    obtain ms s where rs: "rs = (ms, s)" by (cases rs)
    have "all_packets (rx_packets_for_ports st) = mset ms + all_packets s \<and> length ms \<le> ?mx"
      using Some unfolding rs from_stash_def
      by (auto simp: take_first_packets take_any_eq dest!: take_first_eq dest: take_any_eq split: option.splits if_splits)
    then show ?thesis using assms Some by (intro exI [of _ ms] exI [of _ "[]"]) (auto simp: try_recv_burst_def rs split: option.splits)
  next
    case None
    let ?x0 = "\<lparr>rx_arp = arp_table st, rx_stash = rx_packets_for_ports st, rx_nc = nc, returned = [], num_invalid = 0, num_stashed = 0, num_dropped = 0\<rparr>"
    from assms None obtain x where x: "recv_packets flt ?mx raws ?x0 = Some x"
      and r: "r = (if length (returned x) + num_stashed x + num_invalid x + num_dropped x = length raws then Inr (returned x) else eyre ''packets have gone missing'')"
      and st1: "rx_packets_for_ports st1 = rx_stash x" by (auto simp: try_recv_burst_def Let_def)
    from recv_packets_total [OF x] have t: "rx_total x = length raws" "length (returned x) \<le> ?mx" by (simp_all add: rx_total_def)
    from recv_packets_packets [OF x] obtain d where "rx_packets x + mset d = rx_packets ?x0 + mset (valid raws)"
      "\<forall>m \<in> set d. pkt_port m \<notin> ports (rx_packets_for_ports st)" by auto
    then show ?thesis using r t st1 by (intro exI [of _ "returned x"] exI [of _ "valid raws"] exI [of _ d]) (auto simp: rx_total_def rx_packets_def)
  qed
qed

section \<open>Connected flows\<close>

text \<open>
  A receive for the flow \<open>k\<close>: the stash of \<open>k\<close> is empty until as many packets are returned as were asked for.
\<close>

definition good_stash :: "stashes \<Rightarrow> bool" where
  "good_stash s \<longleftrightarrow> only_first s \<and> own_flow s"

definition rx_good :: "flow \<Rightarrow> nat \<Rightarrow> rx \<Rightarrow> bool" where
  "rx_good k mx x \<longleftrightarrow> good_stash (rx_stash x) \<and> list_all (\<lambda>m. flow_of m = k) (returned x) \<and> length (returned x) \<le> mx
     \<and> (length (returned x) < mx \<longrightarrow> stash_of (rx_stash x) k = [])"

definition given :: "flow \<Rightarrow> packet list \<Rightarrow> flow \<Rightarrow> packet list" where
  "given k ms h = (if h = k then ms else [])"

text \<open>A packet that is stashed: behind the others of its flow, or in a stash of its own.\<close>

definition put :: "packet \<Rightarrow> stashes \<Rightarrow> stashes" where
  "put m s = (case push_first (\<lambda>f. f = flow_of m) m s of Some s1 \<Rightarrow> s1 | None \<Rightarrow> s @ [(flow_of m, [m])])"

lemma good_put: "good_stash s \<Longrightarrow> good_stash (put m s)"
  by (auto simp: put_def good_stash_def push_first_None push_first_only own_flow_push stash_append_new split: option.split)

lemma mapped_put: "map_of s h \<noteq> None \<Longrightarrow> map_of (put m s) h \<noteq> None"
  by (auto simp: put_def push_first_Some map_add_def split: option.split)

lemma stash_of_put: "map_of s h \<noteq> None \<Longrightarrow> stash_of (put m s) h = stash_of s h @ given (flow_of m) [m] h"
  by (auto simp: put_def stash_of_def push_first_Some push_first_None map_add_def given_def split: option.split)

lemma stash_of_put_other: "flow_of m \<noteq> h \<Longrightarrow> stash_of (put m s) h = stash_of s h"
  by (auto simp: put_def stash_of_def push_first_Some map_add_def split: option.split)

lemma return_or_stash_eq:
  "return_or_stash mx m x =
     (if length (returned x) < mx then x\<lparr>returned := returned x @ [m]\<rparr> else stashed (put m (rx_stash x)) x)"
  by (simp add: return_or_stash_def put_def split: option.split)

lemma other_flow_cases:
  assumes "other_flow m x = Some z"
  obtains "rx_stash z = put m (rx_stash x)" "returned z = returned x" | "z = dropped x" "map_of (rx_stash x) (flow_of m) = None"
  using assms by (auto simp: other_flow_def put_def stashed_def push_first_None split: option.splits if_splits)

lemma recv_packet_cases:
  assumes "recv_packet (Some (p, Some a)) mx (Some (e, m)) x = Some x1" "length (returned x) \<le> mx"
  obtains "flow_of m = (p, a)" "x1 = return_or_stash mx m (x\<lparr>rx_arp := learn_arp e m (rx_arp x)\<rparr>)"
    | "flow_of m \<noteq> (p, a)" "other_flow m (x\<lparr>rx_arp := learn_arp e m (rx_arp x)\<rparr>) = Some x1"
  using assms by (auto simp: recv_packet_def Let_def flow_of_def split: if_splits)

lemma recv_packet_fifo:
  assumes step: "recv_packet (Some (p, Some a)) mx (Some (e, m)) x = Some x1" and good: "rx_good (p, a) mx x" and h: "map_of (rx_stash x) h \<noteq> None"
  shows "given (p, a) (returned x1) h @ stash_of (rx_stash x1) h
      = given (p, a) (returned x) h @ stash_of (rx_stash x) h @ given (flow_of m) [m] h \<and> map_of (rx_stash x1) h \<noteq> None"
proof -
  have "length (returned x) \<le> mx" using good by (simp add: rx_good_def)
  from step this show ?thesis
  proof (cases rule: recv_packet_cases)
    case 1
    then show ?thesis using h good stash_of_put [OF h, of m] mapped_put [OF h, of m]
      by (auto simp: return_or_stash_eq stashed_def given_def rx_good_def)
  next
    case 2
    from 2(2) show ?thesis
    proof (cases rule: other_flow_cases)
      case 1
      then show ?thesis using 2(1) h stash_of_put [OF h, of m] mapped_put [OF h, of m] by (auto simp: given_def)
    next
      case 2
      then show ?thesis using h by (auto simp: dropped_def given_def)
    qed
  qed
qed

lemma recv_packet_good:
  assumes step: "recv_packet (Some (p, Some a)) mx raw x = Some x1" and good: "rx_good (p, a) mx x"
  shows "rx_good (p, a) mx x1"
proof (cases raw)
  case None
  then show ?thesis using step good by (auto simp: recv_packet_def rx_good_def)
next
  case (Some em)
  obtain e m where em: "em = (e, m)" by (cases em)
  have g: "good_stash (rx_stash x)" and len: "length (returned x) \<le> mx" using good by (simp_all add: rx_good_def)
  from step [unfolded Some em] len show ?thesis
  proof (cases rule: recv_packet_cases)
    case 1
    then show ?thesis using good good_put [OF g, of m] by (auto simp: return_or_stash_eq rx_good_def stashed_def)
  next
    case 2
    from 2(2) show ?thesis
    proof (cases rule: other_flow_cases)
      case 1
      then show ?thesis using good 2(1) good_put [OF g, of m] by (simp add: rx_good_def stash_of_put_other)
    next
      case 2
      then show ?thesis using good by (simp add: rx_good_def dropped_def)
    qed
  qed
qed

lemma recv_packets_fifo:
  "recv_packets (Some (p, Some a)) mx raws x = Some x1 \<Longrightarrow> rx_good (p, a) mx x \<Longrightarrow>
   rx_good (p, a) mx x1 \<and> (\<forall>h. map_of (rx_stash x) h \<noteq> None \<longrightarrow>
     given (p, a) (returned x1) h @ stash_of (rx_stash x1) h
       = given (p, a) (returned x) h @ stash_of (rx_stash x) h @ filter (\<lambda>m. flow_of m = h) (valid raws)
     \<and> map_of (rx_stash x1) h \<noteq> None)"
proof (induction raws arbitrary: x)
  case (Cons raw raws)
  from Cons.prems(1) obtain x2 where x2: "recv_packet (Some (p, Some a)) mx raw x = Some x2" "recv_packets (Some (p, Some a)) mx raws x2 = Some x1"
    by (auto simp: bind_eq_Some_conv)
  note good2 = recv_packet_good [OF x2(1) Cons.prems(2)]
  note ih = Cons.IH [OF x2(2) good2]
  show ?case
  proof (cases raw)
    case None
    then show ?thesis using ih x2(1) by (auto simp: recv_packet_def)
  next
    case (Some em)
    obtain e m where em: "em = (e, m)" by (cases em)
    note step = recv_packet_fifo [OF x2(1) [unfolded Some em] Cons.prems(2)]
    have "given (flow_of m) [m] h @ filter (\<lambda>m. flow_of m = h) (valid raws) = filter (\<lambda>m. flow_of m = h) (valid raw1)"
      if "raw1 = raw # raws" for raw1 h using that by (simp add: Some em given_def)
    then show ?thesis using ih step by (metis append_assoc)
  qed
qed simp

lemma take_first_key:
  "take_first (\<lambda>f. f = k) n s = Some (r, s1) \<Longrightarrow> only_first s \<Longrightarrow>
   r = take n (stash_of s k) \<and> map_of s k \<noteq> None \<and> map_of s1 = (map_of s)(k \<mapsto> drop n (stash_of s k)) \<and> only_first s1
   \<and> (\<forall>f q. (f, q) \<in> set s1 \<longrightarrow> (\<exists>q0. (f, q0) \<in> set s \<and> set q \<subseteq> set q0 \<and> (q0 = [] \<longrightarrow> q = [])))"
proof (induction s arbitrary: s1)
  case (Cons x s)
  obtain f q where x: "x = (f, q)" by (cases x)
  show ?case
  proof (cases "f = k \<and> q \<noteq> []")
    case True
    then have s1: "s1 = (f, drop n q) # s" "r = take n q" using Cons.prems by (auto simp: x)
    have "\<exists>q0. (g, q0) \<in> set (x # s) \<and> set p \<subseteq> set q0 \<and> (q0 = [] \<longrightarrow> p = [])" if "(g, p) \<in> set s1" for g p
      using that by (auto simp: s1 x dest: in_set_dropD)
    then show ?thesis using True Cons.prems(2) by (auto simp: x s1 stash_of_def)
  next
    case False
    then obtain s3 where s3: "take_first (\<lambda>f. f = k) n s = Some (r, s3)" "s1 = (f, q) # s3" using Cons.prems(1) by (auto simp: x split: if_splits)
    note ih = Cons.IH [OF s3(1)]
    obtain g p s0 s2 where "s = s0 @ (g, p) # s2" "g = k" "p \<noteq> []" using take_first_eq [OF s3(1)] by blast
    then have fk: "f \<noteq> k" using Cons.prems(2) False by (auto simp: x)
    have "q1 = []" if "(f, q1) \<in> set s3" for q1 using ih that Cons.prems(2) by (fastforce simp: x)
    then show ?thesis using ih Cons.prems(2) fk s3(2) by (fastforce simp: x stash_of_def fun_upd_twist)
  qed
qed simp

lemma take_first_good:
  assumes "take_first P n s = Some (r, s1)" "\<And>f. P f \<longleftrightarrow> f = k" "good_stash s"
  shows "good_stash s1" "given k r h @ stash_of s1 h = stash_of s h" "map_of s h \<noteq> None \<Longrightarrow> map_of s1 h \<noteq> None" "list_all (\<lambda>m. flow_of m = k) r"
proof -
  have o: "only_first s" "own_flow s" using assms(3) by (simp_all add: good_stash_def)
  have "P = (\<lambda>f. f = k)" using assms(2) by blast
  note t = take_first_key [OF assms(1) [unfolded this] o(1)]
  show "good_stash s1" using t o(2) by (fastforce simp: good_stash_def own_flow_def)
  show "given k r h @ stash_of s1 h = stash_of s h" using t by (auto simp: given_def stash_of_def)
  show "map_of s h \<noteq> None \<Longrightarrow> map_of s1 h \<noteq> None" using t by auto
  obtain q where q: "map_of s k = Some q" using t by auto
  then have "\<forall>m \<in> set (stash_of s k). flow_of m = k" using o(2) map_of_SomeD [OF q] by (fastforce simp: own_flow_def stash_of_def)
  then show "list_all (\<lambda>m. flow_of m = k) r" using t by (auto simp: list_all_iff dest: in_set_takeD)
qed

lemma connected_recv:
  assumes recv: "try_recv_burst burst (Some (p, Some a)) (Some n) raws st nc = Some (r, st1, nc1)" and good: "good_stash (rx_packets_for_ports st)"
  shows "\<exists>ms seen. r = Inr ms \<and> seen = (if from_stash burst (Some (p, Some a)) (min n burst) (rx_packets_for_ports st) = None then valid raws else [])
    \<and> list_all (\<lambda>m. flow_of m = (p, a)) ms \<and> good_stash (rx_packets_for_ports st1)
    \<and> (\<forall>h. map_of (rx_packets_for_ports st) h \<noteq> None \<longrightarrow> map_of (rx_packets_for_ports st1) h \<noteq> None
         \<and> given (p, a) ms h @ stash_of (rx_packets_for_ports st1) h
             = stash_of (rx_packets_for_ports st) h @ filter (\<lambda>m. flow_of m = h) seen)"
proof (cases "from_stash burst (Some (p, Some a)) (min n burst) (rx_packets_for_ports st)")
  case (Some rs)
  obtain ms s where rs: "rs = (ms, s)" by (cases rs)
  have t: "take_first (\<lambda>f. fst f = p \<and> a = snd f) (min n burst) (rx_packets_for_ports st) = Some (ms, s)"
    using Some by (simp add: from_stash_def rs)
  have k: "fst f = p \<and> a = snd f \<longleftrightarrow> f = (p, a)" for f :: flow by auto
  note g = take_first_good [OF t k good]
  have "r = Inr ms" "rx_packets_for_ports st1 = s" using recv Some by (auto simp: try_recv_burst_def rs)
  then show ?thesis using g Some by simp
next
  case None
  let ?x0 = "\<lparr>rx_arp = arp_table st, rx_stash = rx_packets_for_ports st, rx_nc = nc, returned = [], num_invalid = 0, num_stashed = 0, num_dropped = 0\<rparr>"
  from recv_accounting [OF recv] obtain ms where ms: "r = Inr ms" by blast
  from recv None ms obtain x where x: "recv_packets (Some (p, Some a)) (min n burst) raws ?x0 = Some x"
    "ms = returned x" "rx_packets_for_ports st1 = rx_stash x" by (auto simp: try_recv_burst_def Let_def split: if_splits)
  have "stash_of (rx_packets_for_ports st) (p, a) = []"
    using take_first_None [of _ _ "rx_packets_for_ports st" "(p, a)"] None
    by (auto simp: from_stash_def stash_of_def dest!: map_of_SomeD split: option.split)
  then have "rx_good (p, a) (min n burst) ?x0" using good by (simp add: rx_good_def)
  from recv_packets_fifo [OF x(1) this] show ?thesis using ms x None
    by (intro exI [of _ ms] exI [of _ "valid raws"]) (simp add: rx_good_def given_def)
qed

lemma stash_only_put: "stash_only raws arp s nc = (Inr u, arp1, s1, nc1) \<Longrightarrow> s1 = fold put (valid raws) s"
  by (induction raws arp s nc rule: stash_only.induct) (auto simp: Let_def put_def split: option.splits sum.splits)

lemma fold_put:
  "good_stash s \<Longrightarrow> good_stash (fold put ms s)"
  "map_of s h \<noteq> None \<Longrightarrow> map_of (fold put ms s) h \<noteq> None \<and> stash_of (fold put ms s) h = stash_of s h @ filter (\<lambda>m. flow_of m = h) ms"
proof (induction ms arbitrary: s)
  case (Cons m ms)
  { case 1 then show ?case using Cons.IH(1) [OF good_put] by simp }
  { case 2 then show ?case using Cons.IH(2) [OF mapped_put [OF 2], of m] stash_of_put [OF 2, of m] by (simp add: given_def) }
qed simp_all

section \<open>Runs\<close>

text \<open>
  What the connections of a thread do: receives, polls without a receive, and flows that come and go. A
  step gives the packets that were returned, with the flow that asked for them, and the valid packets that
  were read from the card.
\<close>

datatype dp_op =
    Recv_op flow nat "(mac \<times> packet) option list"
  | Stash_op "(mac \<times> packet) option list"
  | Register_op flow
  | Deregister_op flow

fun dp_step :: "nat \<Rightarrow> dp_op \<Rightarrow> dpdk_state \<Rightarrow> notifier option \<Rightarrow> ((flow \<times> packet) list \<times> packet list \<times> dpdk_state \<times> notifier option) option" where
  "dp_step burst (Recv_op f n raws) st nc =
     (case try_recv_burst burst (Some (fst f, Some (snd f))) (Some n) raws st nc of
        Some (Inr ms, st1, nc1) \<Rightarrow>
          Some (map (Pair f) ms,
            if from_stash burst (Some (fst f, Some (snd f))) (min n burst) (rx_packets_for_ports st) = None then valid raws else [], st1, nc1)
      | _ \<Rightarrow> None)"
| "dp_step burst (Stash_op raws) st nc =
     (case try_recv_burst_stash_only raws st nc of (Inr _, st1, nc1) \<Rightarrow> Some ([], valid raws, st1, nc1) | _ \<Rightarrow> None)"
| "dp_step burst (Register_op f) st nc = Some ([], [], register_flow_buffer (fst f) (snd f) st, nc)"
| "dp_step burst (Deregister_op f) st nc = Some ([], [], deregister_flow_buffer (fst f) (Some (snd f)) st, nc)"

fun dp_run :: "nat \<Rightarrow> dp_op list \<Rightarrow> dpdk_state \<Rightarrow> notifier option \<Rightarrow> ((flow \<times> packet) list \<times> packet list \<times> dpdk_state \<times> notifier option) option" where
  "dp_run burst [] st nc = Some ([], [], st, nc)"
| "dp_run burst (op # ops) st nc =
     (case dp_step burst op st nc of
        None \<Rightarrow> None
      | Some (out, seen, st1, nc1) \<Rightarrow>
          map_option (\<lambda>(out1, seen1, r). (out @ out1, seen @ seen1, r)) (dp_run burst ops st1 nc1))"

definition returned_to :: "flow \<Rightarrow> (flow \<times> packet) list \<Rightarrow> packet list" where
  "returned_to h out = map snd (filter (\<lambda>x. fst x = h) out)"

lemma returned_to_append: "returned_to h (a @ b) = returned_to h a @ returned_to h b"
  by (simp add: returned_to_def)

lemma dp_step_fifo:
  assumes step: "dp_step burst op st nc = Some (out, seen, st1, nc1)" and good: "good_stash (rx_packets_for_ports st)"
  shows "good_stash (rx_packets_for_ports st1) \<and> (\<forall>(f, m) \<in> set out. flow_of m = f)
    \<and> (map_of (rx_packets_for_ports st) h \<noteq> None \<longrightarrow> op \<noteq> Deregister_op h \<longrightarrow> map_of (rx_packets_for_ports st1) h \<noteq> None
         \<and> returned_to h out @ stash_of (rx_packets_for_ports st1) h
             = stash_of (rx_packets_for_ports st) h @ filter (\<lambda>m. flow_of m = h) seen)"
proof (cases op)
  case (Recv_op f n raws)
  obtain p a where f: "f = (p, a)" by (cases f)
  from step obtain ms where ms: "try_recv_burst burst (Some (p, Some a)) (Some n) raws st nc = Some (Inr ms, st1, nc1)"
    and out: "out = map (Pair f) ms"
    and seen: "seen = (if from_stash burst (Some (p, Some a)) (min n burst) (rx_packets_for_ports st) = None then valid raws else [])"
    by (auto simp: Recv_op f split: option.splits sum.splits)
  have "returned_to h out = given (p, a) ms h"
    unfolding out f returned_to_def given_def by (induction ms) auto
  moreover from connected_recv [OF ms good] have
    "list_all (\<lambda>m. flow_of m = (p, a)) ms" "good_stash (rx_packets_for_ports st1)"
    "map_of (rx_packets_for_ports st) h \<noteq> None \<longrightarrow> map_of (rx_packets_for_ports st1) h \<noteq> None
      \<and> given (p, a) ms h @ stash_of (rx_packets_for_ports st1) h = stash_of (rx_packets_for_ports st) h @ filter (\<lambda>m. flow_of m = h) seen"
    unfolding seen by blast+
  ultimately show ?thesis by (simp add: out f list_all_iff)
next
  case (Stash_op raws)
  then obtain u arp where so: "stash_only raws (arp_table st) (rx_packets_for_ports st) nc = (Inr u, arp, rx_packets_for_ports st1, nc1)"
    and out: "out = []" "seen = valid raws"
    using step by (auto simp: try_recv_burst_stash_only_def split: prod.splits sum.splits)
  show ?thesis using fold_put(1) [OF good, of "valid raws"] fold_put(2) [of "rx_packets_for_ports st" h "valid raws"]
    by (simp add: stash_only_put [OF so] out returned_to_def)
next
  case (Register_op f)
  have "good_stash (s @ [(f, [])])" if "good_stash s" for s
    using that unfolding good_stash_def own_flow_def by (induction s) auto
  then show ?thesis using step good by (auto simp: Register_op register_flow_buffer_def returned_to_def stash_of_def map_add_def)
next
  case (Deregister_op f)
  have o: "only_first s \<Longrightarrow> only_first (filter Q s)" for Q s by (induction s) auto
  have "map_of (filter (\<lambda>(g, _). g \<noteq> f) s) h = map_of s h" if "h \<noteq> f" for s :: stashes
    using that by (induction s) auto
  moreover have "own_flow s \<Longrightarrow> own_flow (filter Q s)" for Q s by (simp add: own_flow_def)
  ultimately show ?thesis using step good o by (auto simp: Deregister_op deregister_flow_buffer_def good_stash_def returned_to_def stash_of_def)
qed

lemma dp_run_fifo:
  "dp_run burst ops st nc = Some (out, seen, st1, nc1) \<Longrightarrow> good_stash (rx_packets_for_ports st) \<Longrightarrow>
   good_stash (rx_packets_for_ports st1) \<and> (\<forall>(f, m) \<in> set out. flow_of m = f)
   \<and> (map_of (rx_packets_for_ports st) h \<noteq> None \<longrightarrow> Deregister_op h \<notin> set ops \<longrightarrow>
        returned_to h out @ stash_of (rx_packets_for_ports st1) h
          = stash_of (rx_packets_for_ports st) h @ filter (\<lambda>m. flow_of m = h) seen)"
proof (induction ops arbitrary: st nc out seen)
  case (Cons op ops)
  from Cons.prems(1) obtain out1 seen1 st2 nc2 out2 seen2 where
    step: "dp_step burst op st nc = Some (out1, seen1, st2, nc2)" and run: "dp_run burst ops st2 nc2 = Some (out2, seen2, st1, nc1)"
    and o: "out = out1 @ out2" "seen = seen1 @ seen2" by (auto split: option.splits)
  note s = dp_step_fifo [OF step Cons.prems(2), of h]
  show ?case using s Cons.IH [OF run conjunct1 [OF s]] by (auto simp: o returned_to_append)
qed (simp add: returned_to_def)

section \<open>Rules and ports\<close>

text \<open>With all rules registered and without the feature, a port's rule steers to exactly the queues that want it.\<close>

definition steering_ok :: "steering \<Rightarrow> bool" where
  "steering_ok fs \<longleftrightarrow> (\<forall>p h qs. local_dst_port fs p = Some (h, qs) \<longrightarrow> sorted qs \<and> h = (if qs = [] then None else Some qs))"

lemma port_entry_upd [simp]: "port_entry (set_port p h qs fs) q = (if q = p then (h, qs) else port_entry fs q)"
  by (simp add: port_entry_def set_port_def)

lemma steering_ok_set: "steering_ok fs \<Longrightarrow> sorted qs \<Longrightarrow> h = (if qs = [] then None else Some qs) \<Longrightarrow> steering_ok (set_port p h qs fs)"
  by (auto simp: steering_ok_def set_port_def)

lemma position_eq: "position x xs = Some i \<Longrightarrow> i < length xs \<and> xs ! i = x"
  by (induction xs arbitrary: i) (auto split: if_splits)

lemma position_None: "position x xs = None \<longleftrightarrow> x \<notin> set xs"
  by (induction xs) auto

lemma mset_swap_remove: "i < length xs \<Longrightarrow> mset (swap_remove i xs) = mset xs - {#xs ! i#}"
proof -
  assume i: "i < length xs"
  then obtain ys y where xs: "xs = ys @ [y]" by (cases xs rule: rev_cases) auto
  show ?thesis using i by (auto simp: swap_remove_def xs nth_append mset_update)
qed

lemma mset_claim: "position x xs = Some i \<Longrightarrow> mset (swap_remove i xs) = mset xs - {#x#}"
  using position_eq [of x xs i] mset_swap_remove [of i xs] by simp

lemma add_flow_ok:
  assumes "\<forall>p q. is_ok (solo p q)" "\<forall>p qs. is_ok (rss p qs)" "steering_ok fs"
  shows "\<exists>fs1. add_flow False solo rss solo_rule qid (local_dst_only p) fs = (Inr (), fs1) \<and> steering_ok fs1
     \<and> (\<forall>q. mset (snd (port_entry fs1 q)) = mset (snd (port_entry fs q)) + (if q = p then {#qid#} else {#}))"
proof -
  let ?qs = "sort (snd (port_entry fs p) @ [qid])"
  have "is_ok (register_flow_steering solo rss p ?qs)"
    using assms(1,2) by (auto simp: register_flow_steering_def is_ok_iff split: list.split)
  then obtain u where "register_flow_steering solo rss p ?qs = Inr u" by (auto simp: is_ok_iff)
  then have "add_flow False solo rss solo_rule qid (local_dst_only p) fs = (Inr (), set_port p (Some ?qs) ?qs fs)"
    by (simp add: add_flow_def local_dst_only_def Let_def del: sort_key_simps)
  moreover have "?qs \<noteq> []" by (metis append_is_Nil_conv length_0_conv length_sort list.distinct(1))
  ultimately show ?thesis using steering_ok_set [OF assms(3), of ?qs] by auto
qed

lemma remove_flow_ok:
  assumes "\<forall>p q. is_ok (solo p q)" "\<forall>p qs. is_ok (rss p qs)" "steering_ok fs" "qid \<in> set (snd (port_entry fs p))"
  shows "\<exists>fs1. remove_flow False solo rss qid p rp fs = (Inr (), fs1) \<and> steering_ok fs1
     \<and> (\<forall>q. mset (snd (port_entry fs1 q)) = mset (snd (port_entry fs q)) - (if q = p then {#qid#} else {#}))"
proof -
  let ?fs = "case rp of None \<Rightarrow> fs | Some sp \<Rightarrow> fs\<lparr>remote_src_port := (remote_src_port fs)(sp := None)\<rparr>"
  have same: "port_entry ?fs q = port_entry fs q" for q by (simp add: port_entry_def split: option.split)
  have ok: "steering_ok ?fs" using assms(3) by (cases rp) (auto simp: steering_ok_def)
  from assms(4) obtain i where i: "position qid (snd (port_entry fs p)) = Some i" by (metis not_None_eq position_None)
  let ?qs = "swap_remove i (snd (port_entry fs p))"
  note m = mset_claim [OF i]
  have "is_ok (register_flow_steering solo rss p (sort ?qs))"
    using assms(1,2) by (auto simp: register_flow_steering_def is_ok_iff split: list.split)
  then obtain u where "register_flow_steering solo rss p (sort ?qs) = Inr u" by (auto simp: is_ok_iff)
  then have r: "remove_flow False solo rss qid p rp fs
      = (Inr (), if ?qs = [] then set_port p None [] ?fs else set_port p (Some (sort ?qs)) (sort ?qs) ?fs)"
    by (simp add: remove_flow_def i Let_def same)
  have "sort ?qs = [] \<longleftrightarrow> ?qs = []" by (metis length_0_conv length_sort)
  then have "steering_ok (if ?qs = [] then set_port p None [] ?fs else set_port p (Some (sort ?qs)) (sort ?qs) ?fs)"
    by (auto intro!: steering_ok_set [OF ok])
  moreover have "mset ?qs = {#}" if "?qs = []" using that by simp
  ultimately show ?thesis using r m by (auto simp: same split: if_splits)
qed

text \<open>The frames of a send, in the order of the messages: those with a known address whose header can be written.\<close>

fun frames_of :: "(frame \<Rightarrow> nat result) \<Rightarrow> (32 word \<rightharpoonup> mac) \<Rightarrow> send_msg list \<Rightarrow> u16 \<Rightarrow> frame list" where
  "frames_of fill arp [] i = []"
| "frames_of fill arp (m # ms) i =
     (case arp (fst (to_addr m)) of
        None \<Rightarrow> frames_of fill arp ms i
      | Some dst \<Rightarrow>
          if is_ok (fill (i, dst, m)) then (i, dst, m) # frames_of fill arp ms ((i + 1) mod 0xFFFF) else frames_of fill arp ms i)"

lemma send_loop_eq:
  assumes "\<forall>k. is_ok (alloc k)" "0 < burst"
  shows "length tx < burst \<Longrightarrow> \<exists>out i1. send_loop burst alloc fill arp (map Inr ms) k i tx = (out, Inr (), i1)
    \<and> concat out = tx @ frames_of fill arp ms i \<and> (\<forall>b \<in> set out. b \<noteq> [] \<and> length b \<le> burst)"
proof (induction ms arbitrary: k i tx)
  case (Cons m ms)
  show ?case
  proof (cases "arp (fst (to_addr m))")
    case None
    then show ?thesis using Cons by simp
  next
    case (Some dst)
    obtain u where a: "alloc k = Inr u" using assms(1) by (auto simp: is_ok_iff)
    show ?thesis
    proof (cases "fill (i, dst, m)")
      case (Inl e)
      then show ?thesis using Cons Some a by simp
    next
      case (Inr n)
      let ?i = "(i + 1) mod 0xFFFF" and ?tx = "tx @ [(i, dst, m)]"
      show ?thesis
      proof (cases "burst \<le> length ?tx")
        case True
        then have full: "length ?tx = burst" using Cons.prems by simp
        from Cons.IH [of "[]" "k + 1" ?i] assms(2) obtain out i1 where
          ih: "send_loop burst alloc fill arp (map Inr ms) (k + 1) ?i [] = (out, Inr (), i1)" "concat out = frames_of fill arp ms ?i"
            "\<forall>b \<in> set out. b \<noteq> [] \<and> length b \<le> burst" by auto
        then have "send_loop burst alloc fill arp (map Inr (m # ms)) k i tx = (?tx # out, Inr (), i1)"
          using True Some a Inr by (simp add: Let_def)
        then show ?thesis using ih full Some Inr by auto
      next
        case False
        then show ?thesis using Cons.IH [of ?tx "k + 1" ?i] Some a Inr by (auto simp: Let_def)
      qed
    qed
  qed
qed auto

section \<open>Properties\<close>

text \<open>
  C35: No packet goes missing. The check at the end of a receive never fails and no more packets are returned
  than were asked for. Either the packets come from the stashes, and the card is not read; or everything
  valid that the card had is returned, is in a stash, or went to a port without a stash.
\<close>

theorem no_packet_missing:
  assumes "try_recv_burst burst flt max_rx raws st nc = Some (r, st1, nc1)"
  shows "\<exists>ms seen d. r = Inr ms \<and> length ms \<le> burst \<and> (\<forall>n. max_rx = Some n \<longrightarrow> length ms \<le> n)
    \<and> (seen = [] \<or> seen = valid raws)
    \<and> mset ms + all_packets (rx_packets_for_ports st1) + mset d = all_packets (rx_packets_for_ports st) + mset seen
    \<and> (\<forall>m \<in> set d. pkt_port m \<notin> ports (rx_packets_for_ports st))"
  using assms by (rule recv_accounting)


text \<open>
  The rule of a port follows its queues. If the card accepts all rules, adding and removing flows succeed and
  change the queues of that port by the one queue; and the rule of a port is always the one for exactly the
  queues that want its packets, and there is none for a port that no queue wants.
\<close>

lemma steering_follows_queues:
  assumes "\<forall>p q. is_ok (solo p q)" "\<forall>p qs. is_ok (rss p qs)" "steering_ok fs"
  shows "(\<exists>fs1. add_flow False solo rss solo_rule qid (local_dst_only p) fs = (Inr (), fs1) \<and> steering_ok fs1
       \<and> (\<forall>q. mset (snd (port_entry fs1 q)) = mset (snd (port_entry fs q)) + (if q = p then {#qid#} else {#})))
    \<and> (qid \<in> set (snd (port_entry fs p)) \<longrightarrow>
        (\<exists>fs1. remove_flow False solo rss qid p rp fs = (Inr (), fs1) \<and> steering_ok fs1
           \<and> (\<forall>q. mset (snd (port_entry fs1 q)) = mset (snd (port_entry fs q)) - (if q = p then {#qid#} else {#}))))"
  using add_flow_ok [OF assms, of solo_rule qid p] remove_flow_ok [OF assms, of qid p rp] by blast

text \<open>
  A send transmits, in bursts of at most the size of a burst, the frames of its messages in their order,
  without those to addresses that are not known or whose header cannot be written, which are skipped
  silently.
\<close>

lemma send_in_bursts:
  assumes "\<forall>k. is_ok (alloc k)" "0 < burst"
  shows "\<exists>out st1. send_burst burst alloc fill (map Inr ms) st = (out, Inr (), st1)
    \<and> concat out = frames_of fill (arp_table st) ms (ip_id st) \<and> (\<forall>b \<in> set out. b \<noteq> [] \<and> length b \<le> burst)"
  using send_loop_eq [OF assms, of "[]" fill "arp_table st" ms 0 "ip_id st"] assms(2) by (auto simp: send_burst_def)

section \<open>Witnesses\<close>

definition ex_pkt :: "u16 \<Rightarrow> u16 \<Rightarrow> u8 \<Rightarrow> (mac \<times> packet) option" where
  "ex_pkt p a b = Some (1, \<lparr>pkt_port = p, pkt_addr = (9, a), pkt_buf = [b]\<rparr>)"

definition ex_dpdk :: dpdk_state where
  "ex_dpdk = \<lparr>arp_table = Map.empty, rx_packets_for_ports = [((80, (9, 1)), []), ((80, (9, 2)), [])], ip_id = 0, new_conn_signaller = None\<rparr>"

theorem no_packet_missing_witness:
  "\<exists>ms seen d st1. try_recv_burst 4 (Some (80, Some (9, 1))) (Some 1) [ex_pkt 80 1 5, None, ex_pkt 80 2 6, ex_pkt 81 2 7] ex_dpdk None = Some (Inr ms, st1, None)
     \<and> mset ms + all_packets (rx_packets_for_ports st1) + mset d = all_packets (rx_packets_for_ports ex_dpdk) + mset seen \<and> length ms \<le> 1"
proof -
  obtain st1 where r: "try_recv_burst 4 (Some (80, Some (9, 1))) (Some 1) [ex_pkt 80 1 5, None, ex_pkt 80 2 6, ex_pkt 81 2 7] ex_dpdk None
      = Some (Inr [\<lparr>pkt_port = 80, pkt_addr = (9, 1), pkt_buf = [5]\<rparr>], st1, None)"
    by (simp add: try_recv_burst_def ex_dpdk_def ex_pkt_def from_stash_def recv_packet_def learn_arp_def return_or_stash_def other_flow_def
        flow_of_def stashed_def dropped_def signal_def)
  from no_packet_missing [OF r] show ?thesis using r by auto
qed

definition ex_ops :: "dp_op list" where
  "ex_ops = [Recv_op (80, (9, 1)) 2 [ex_pkt 80 2 6, ex_pkt 80 1 5], Stash_op [ex_pkt 80 2 7], Recv_op (80, (9, 2)) 1 [ex_pkt 80 2 8]]"


lemma steering_follows_queues_example:
  "\<exists>fs1 fs2. add_flow False (\<lambda>_ _. Inr ()) (\<lambda>_ _. Inr ()) (\<lambda>_ _. Inr ()) 3 (local_dst_only 80) \<lparr>local_dst_port = [80 \<mapsto> (Some [5], [5])], remote_src_port = Map.empty\<rparr> = (Inr (), fs1)
     \<and> mset (snd (port_entry fs1 80)) = {#5, 3#}
     \<and> remove_flow False (\<lambda>_ _. Inr ()) (\<lambda>_ _. Inr ()) 5 80 None \<lparr>local_dst_port = [80 \<mapsto> (Some [5], [5])], remote_src_port = Map.empty\<rparr> = (Inr (), fs2)
     \<and> mset (snd (port_entry fs2 80)) = {#}"
proof -
  let ?fs = "\<lparr>local_dst_port = [80 \<mapsto> (Some [5], [5])], remote_src_port = Map.empty\<rparr> :: steering"
  have ok: "steering_ok ?fs" by (simp add: steering_ok_def)
  have e: "port_entry ?fs 80 = (Some [5], [5])" by (simp add: port_entry_def)
  from steering_follows_queues [of "\<lambda>_ _. Inr ()" "\<lambda>_ _. Inr ()", OF _ _ ok, of "\<lambda>_ _. Inr ()" 3 80 None] e obtain fs1 where
    a: "add_flow False (\<lambda>_ _. Inr ()) (\<lambda>_ _. Inr ()) (\<lambda>_ _. Inr ()) 3 (local_dst_only 80) ?fs = (Inr (), fs1)"
      "mset (snd (port_entry fs1 80)) = {#5, 3#}" by (auto simp: add_mset_commute)
  from steering_follows_queues [of "\<lambda>_ _. Inr ()" "\<lambda>_ _. Inr ()", OF _ _ ok, of "\<lambda>_ _. Inr ()" 5 80 None] e obtain fs2 where
    r: "remove_flow False (\<lambda>_ _. Inr ()) (\<lambda>_ _. Inr ()) 5 80 None ?fs = (Inr (), fs2)"
    and all: "\<forall>q. mset (snd (port_entry fs2 q)) = mset (snd (port_entry ?fs q)) - (if q = 80 then {#5#} else {#})"
    by auto
  from spec [OF all, of 80] e have "mset (snd (port_entry fs2 80)) = {#}" by simp
  with a r show ?thesis by blast
qed

section \<open>Behaviour at the edges\<close>

text \<open>
  A receive on a port without a remote address puts a packet for another port into the first stash of that
  port, whoever it belongs to; the flow (80, A) is then given a packet that came from B.
\<close>

lemma unconnected_recv_misdelivers:
  "\<exists>st1 st2. try_recv_burst 4 (Some (53, None)) None [ex_pkt 80 2 6] ex_dpdk None = Some (Inr [], st1, None)
     \<and> try_recv_burst 4 (Some (80, Some (9, 1))) None [] st1 None = Some (Inr [\<lparr>pkt_port = 80, pkt_addr = (9, 2), pkt_buf = [6]\<rparr>], st2, None)"
  by (simp add: try_recv_burst_def ex_dpdk_def ex_pkt_def from_stash_def recv_packet_def learn_arp_def stashed_def dropped_def)

text \<open>A new flow to any port with a stash is announced to the listener of the connection that happens to receive.\<close>

lemma new_flow_signals_receivers_listener:
  "\<exists>st1. try_recv_burst 4 (Some (80, Some (9, 1))) None [ex_pkt 443 7 6]
       (ex_dpdk\<lparr>rx_packets_for_ports := [((80, (9, 1)), []), ((443, (9, 2)), [])]\<rparr>) (Some \<lparr>pending = [], listening = True\<rparr>)
     = Some (Inr [], st1, Some \<lparr>pending = [(9, 7)], listening = True\<rparr>)"
  by (simp add: try_recv_burst_def ex_dpdk_def ex_pkt_def from_stash_def recv_packet_def learn_arp_def other_flow_def flow_of_def stashed_def signal_def)

text \<open>Polling without a receive accepts packets to any port, listened to or not, and announces them as connections.\<close>

lemma stash_only_any_port:
  "\<exists>st1. try_recv_burst_stash_only [ex_pkt 9999 7 6] (ex_dpdk\<lparr>rx_packets_for_ports := []\<rparr>) (Some \<lparr>pending = [], listening = True\<rparr>)
     = (Inr (), st1, Some \<lparr>pending = [(9, 7)], listening = True\<rparr>) \<and> rx_packets_for_ports st1 \<noteq> []"
  by (simp add: try_recv_burst_stash_only_def ex_dpdk_def ex_pkt_def learn_arp_def flow_of_def try_signal_def)

text \<open>A full channel: a receive waits for the listener that runs on its own thread.\<close>

lemma full_channel_blocks_receive:
  assumes "length (pending n) = 16" "listening n"
  shows "try_recv_burst 4 (Some (80, Some (9, 1))) None [ex_pkt 80 7 6] ex_dpdk (Some n) = None"
  using assms by (simp add: try_recv_burst_def ex_dpdk_def ex_pkt_def from_stash_def recv_packet_def learn_arp_def other_flow_def flow_of_def stashed_def signal_def)

text \<open>Removing a queue that is not registered fails, but the rule of the other queues is gone.\<close>

lemma failed_remove_clears_rule:
  assumes "qid \<notin> set (snd (port_entry fs p))"
  shows "\<exists>fs1. remove_flow mlx solo rss qid p None fs = (eyre ''queue not registered on port'', fs1) \<and> port_entry fs1 p = (None, snd (port_entry fs p))"
  using assms by (simp add: remove_flow_def Let_def position_None [symmetric])

text \<open>Connecting to an address that is not IPv4 fails and loses a port.\<close>

lemma failed_connect_leaks_port: "pool \<noteq> [] \<Longrightarrow> idx < length pool \<Longrightarrow>
   \<exists>pool1. connect_port idx None pool = (eyre ''Address must be ipv4'', pool1) \<and> length pool1 < length pool"
  by (auto simp: connect_port_def swap_remove_def)

text \<open>Two accepted connections that a transition loads on one port both put it back: the pool then has it twice.\<close>

lemma loaded_port_returned_twice:
  assumes "p \<notin> set pool" "p \<notin> acceptors"
  shows "\<exists>acc1. load_port p (Some a) acceptors pool = (Inr (True, acc1), pool) \<and> load_port p (Some b) acc1 pool = (Inr (False, acc1), pool)
    \<and> \<not> distinct (release_port True p (release_port True p pool))"
  using assms by (simp add: load_port_def claim_port_def release_port_def position_None [symmetric])

end
