(* ===== verification/Dpdk_Conn.thy ===== *)
theory Dpdk_Conn
  imports Dpdk_Inline
begin

text \<open>
  The life of connections on the inline DPDK datapath (\<open>dpdk-direct/src/dpdk_inline/mod.rs\<close>): a thread takes a core
  and a queue of the card when it opens its first connection, a connection claims a port, a steering rule and
  a flow buffer, and gives them back when it is dropped. Ports and rules are shared by the threads, the
  state of a queue belongs to its thread.
\<close>

section \<open>Threads\<close>

record inline_chunnel =
  lcore_map :: "nat list"
  mempools :: "(u16 \<times> dpdk_state) list"
  free_ports :: "u16 list"
  flow_steering :: steering
  shut :: bool

text \<open>The number of a thread's queue and its state.\<close>

type_synonym thread_local = "(u16 \<times> dpdk_state) option"

definition init_err :: "string \<Rightarrow> unit result" where
  "init_err m = wrap_err ''Error initializing thread-local dpdk state'' (eyre m)"

definition try_init_thread :: "(nat \<Rightarrow> unit result) \<Rightarrow> inline_chunnel \<Rightarrow> thread_local \<Rightarrow> unit result \<times> inline_chunnel \<times> thread_local" where
  "try_init_thread affinitize ch loc =
     (if loc \<noteq> None then (Inr (), ch, loc)
      else if lcore_map ch = [] then (init_err ''No remaining lcores'', ch, loc)
      else let ch1 = ch\<lparr>lcore_map := butlast (lcore_map ch)\<rparr> in
        case wrap_err ''affinitizing thread'' (affinitize (last (lcore_map ch))) of
          Inl e \<Rightarrow> (wrap_err ''Error initializing thread-local dpdk state'' (Inl e), ch1, loc)
        | Inr _ \<Rightarrow>
            if mempools ch1 = [] then (init_err ''No remaining initialized dpdk thread mempools'', ch1, loc)
            else (Inr (), ch1\<lparr>mempools := butlast (mempools ch1)\<rparr>, Some (last (mempools ch1))))"

definition do_shutdown :: "inline_chunnel \<Rightarrow> inline_chunnel" where
  "do_shutdown ch = ch\<lparr>flow_steering := \<lparr>local_dst_port = Map.empty, remote_src_port = Map.empty\<rparr>, shut := True\<rparr>"

section \<open>Connections\<close>

text \<open>
  What a connection was made with: the channel for new flows, by the port of the stream at its other end; the
  pool of ports; the steering rules; a stream to tell of its end.
\<close>

record inline_cn =
  cn_port :: u16
  cn_remote :: "addr4 option"
  cn_new_conns :: "u16 option"
  cn_pool :: bool
  cn_steering :: bool
  cn_closed :: bool

record card =
  mlx :: bool
  solo :: "u16 \<Rightarrow> u16 \<Rightarrow> unit result"
  rss :: "u16 \<Rightarrow> u16 list \<Rightarrow> unit result"
  solo_rule :: "match_rule \<Rightarrow> u16 \<Rightarrow> unit result"

text \<open>An error of the steering rules is only logged.\<close>

definition steer :: "card \<Rightarrow> u16 \<Rightarrow> u16 \<Rightarrow> inline_chunnel \<Rightarrow> inline_chunnel" where
  "steer c qid p ch = ch\<lparr>flow_steering := snd (add_flow (mlx c) (solo c) (rss c) (solo_rule c) qid (local_dst_only p) (flow_steering ch))\<rparr>"

definition unsteer :: "card \<Rightarrow> u16 \<Rightarrow> u16 \<Rightarrow> u16 option \<Rightarrow> inline_chunnel \<Rightarrow> inline_chunnel" where
  "unsteer c qid p rp ch = ch\<lparr>flow_steering := snd (remove_flow (mlx c) (solo c) (rss c) qid p rp (flow_steering ch))\<rparr>"

text \<open>\<open>claimed\<close> is what claiming a port gave, \<open>remote\<close> the address of the flow buffer.\<close>

definition open_on :: "card \<Rightarrow> u16 \<Rightarrow> addr4 \<Rightarrow> addr4 option \<Rightarrow> u16 option \<Rightarrow> inline_chunnel \<Rightarrow> u16 \<times> dpdk_state \<Rightarrow> inline_cn \<times> inline_chunnel \<times> thread_local" where
  "open_on c p buffer remote new_conns ch q =
     (\<lparr>cn_port = p, cn_remote = remote, cn_new_conns = new_conns, cn_pool = True, cn_steering = True, cn_closed = False\<rparr>,
      steer c (fst q) p ch, Some (fst q, register_flow_buffer p buffer (snd q)))"

definition inline_connect ::
  "card \<Rightarrow> (nat \<Rightarrow> unit result) \<Rightarrow> nat \<Rightarrow> addr4 option \<Rightarrow> inline_chunnel \<Rightarrow> thread_local \<Rightarrow> inline_cn result \<times> inline_chunnel \<times> thread_local" where
  "inline_connect c affinitize idx addr ch loc =
     (case try_init_thread affinitize ch loc of
        (Inl e, ch1, loc1) \<Rightarrow> (Inl e, ch1, loc1)
      | (Inr _, ch1, None) \<Rightarrow> (eyre ''dpdk not initialized on core'', ch1, None)
      | (Inr _, ch1, Some q) \<Rightarrow>
          (case connect_port idx addr (free_ports ch1) of
             (Inl e, pool) \<Rightarrow> (Inl e, ch1\<lparr>free_ports := pool\<rparr>, Some q)
           | (Inr p, pool) \<Rightarrow>
               (case open_on c p (the addr) addr (new_conn_signaller (snd q)) (ch1\<lparr>free_ports := pool\<rparr>) q of (cn, r) \<Rightarrow> (Inr cn, r))))"

definition listen_non_accept ::
  "card \<Rightarrow> (nat \<Rightarrow> unit result) \<Rightarrow> addr4 option \<Rightarrow> inline_chunnel \<Rightarrow> thread_local \<Rightarrow> inline_cn result \<times> inline_chunnel \<times> thread_local" where
  "listen_non_accept c affinitize addr ch loc =
     (case addr of
        None \<Rightarrow> (eyre ''Only IPv4 is supported'', ch, loc)
      | Some _ \<Rightarrow>
          (case try_init_thread affinitize ch loc of
             (Inl e, ch1, loc1) \<Rightarrow> (Inl e, ch1, loc1)
           | (Inr _, ch1, loc1) \<Rightarrow>
               (case listen_port addr (free_ports ch1) of
                  (Inl e, pool) \<Rightarrow> (Inl e, ch1\<lparr>free_ports := pool\<rparr>, loc1)
                | (Inr p, pool) \<Rightarrow>
                    (case loc1 of
                       None \<Rightarrow> (eyre ''dpdk not initialized on core'', ch1\<lparr>free_ports := pool\<rparr>, None)
                     | Some q \<Rightarrow> (case open_on c p (0, 0) None None (ch1\<lparr>free_ports := pool\<rparr>) q of (cn, r) \<Rightarrow> (Inr cn, r))))))"

text \<open>
  \<open>listen\<close>: the rule for the port of a stream, which also becomes the one that the thread tells of new flows; its
  connections have neither a rule nor a port of the pool.
\<close>

definition inline_listen ::
  "card \<Rightarrow> (nat \<Rightarrow> unit result) \<Rightarrow> addr4 option \<Rightarrow> inline_chunnel \<Rightarrow> thread_local \<Rightarrow> unit result \<times> inline_chunnel \<times> thread_local" where
  "inline_listen c affinitize addr ch loc =
     (case addr of
        None \<Rightarrow> (eyre ''Only IPv4 is supported'', ch, loc)
      | Some a \<Rightarrow>
          (case try_init_thread affinitize ch loc of
             (Inl e, ch1, loc1) \<Rightarrow> (wrap_err ''try_init_thread failed'' (Inl e), ch1, loc1)
           | (Inr _, ch1, None) \<Rightarrow> (eyre ''dpdk not initialized on core'', ch1, None)
           | (Inr _, ch1, Some q) \<Rightarrow> (Inr (), steer c (fst q) (snd a) ch1, Some (fst q, (snd q)\<lparr>new_conn_signaller := Some (snd a)\<rparr>))))"

definition accepted_cn :: "u16 \<Rightarrow> addr4 \<Rightarrow> inline_cn" where
  "accepted_cn p a = \<lparr>cn_port = p, cn_remote = Some a, cn_new_conns = Some p, cn_pool = False, cn_steering = False, cn_closed = True\<rparr>"

text \<open>
  \<open>Drop for DpdkInlineCn\<close>, on the thread that drops it, and \<open>Drop for StreamState\<close>. After a shutdown only the state of
  the thread is dropped. A connection says whether it has told a stream of its end.
\<close>

definition drop_cn :: "card \<Rightarrow> inline_cn \<Rightarrow> inline_chunnel \<Rightarrow> thread_local \<Rightarrow> bool \<times> inline_chunnel \<times> thread_local" where
  "drop_cn c cn ch loc =
     (if shut ch then (False, ch, None)
      else (case (case loc of
                    None \<Rightarrow> (ch, None)
                  | Some q \<Rightarrow>
                      (if cn_steering cn then unsteer c (fst q) (cn_port cn) (map_option snd (cn_remote cn)) ch else ch,
                       Some (fst q, deregister_flow_buffer (cn_port cn) (cn_remote cn) (snd q)))) of
              (ch1, loc1) \<Rightarrow> (cn_closed cn, ch1\<lparr>free_ports := release_port (cn_pool cn) (cn_port cn) (free_ports ch1)\<rparr>, loc1)))"

definition drop_stream :: "card \<Rightarrow> u16 \<Rightarrow> inline_chunnel \<Rightarrow> thread_local \<Rightarrow> inline_chunnel \<times> thread_local" where
  "drop_stream c p ch loc =
     (if shut ch then (ch, None)
      else (case loc of None \<Rightarrow> (ch, loc) | Some q \<Rightarrow> (unsteer c (fst q) p None ch, loc)))"

section \<open>Loading connections\<close>

text \<open>
  \<open>load_conns\<close> makes the connections of another datapath on this one, when the program switches to it. A connection is
  given by its port and the address of its peer, if it has one. The loop takes a port, sets up a rule for the
  first connection with a peer on each port and for those without a peer, and puts the connection into a hash
  map, dropping one that was there with the same key.
\<close>

definition desc_of :: "u16 \<times> addr4 option \<Rightarrow> flow" where
  "desc_of d = (fst d, case snd d of Some a \<Rightarrow> a | None \<Rightarrow> (0, 0))"

definition loaded_cn :: "u16 \<times> addr4 option \<Rightarrow> inline_cn" where
  "loaded_cn d = (case snd d of
     Some a \<Rightarrow> \<lparr>cn_port = fst d, cn_remote = Some a, cn_new_conns = Some (fst d), cn_pool = True, cn_steering = False, cn_closed = True\<rparr>
   | None \<Rightarrow> \<lparr>cn_port = fst d, cn_remote = None, cn_new_conns = None, cn_pool = True, cn_steering = True, cn_closed = False\<rparr>)"

definition load_iter :: "card \<Rightarrow> u16 \<Rightarrow> u16 \<times> addr4 option \<Rightarrow> u16 set \<Rightarrow> inline_chunnel \<Rightarrow> u16 set result \<times> inline_chunnel" where
  "load_iter c qid d acceptors ch =
     (case load_port (fst d) (snd d) acceptors (free_ports ch) of
        (Inl e, pool) \<Rightarrow> (Inl e, ch\<lparr>free_ports := pool\<rparr>)
      | (Inr (init_steering, acceptors1), pool) \<Rightarrow>
          (Inr acceptors1, if init_steering then steer c qid (fst d) (ch\<lparr>free_ports := pool\<rparr>) else ch\<lparr>free_ports := pool\<rparr>))"

type_synonym made = "((u16 \<times> addr4 option) \<times> inline_cn) list"

definition drop_made :: "card \<Rightarrow> inline_cn list \<Rightarrow> inline_chunnel \<times> thread_local \<Rightarrow> inline_chunnel \<times> thread_local" where
  "drop_made c ms s = fold (\<lambda>cn (ch, loc). snd (drop_cn c cn ch loc)) ms s"

fun load_loop ::
  "card \<Rightarrow> u16 \<Rightarrow> (u16 \<times> addr4 option) list \<Rightarrow> u16 set \<Rightarrow> made \<Rightarrow> inline_chunnel \<times> thread_local \<Rightarrow> unit result \<times> u16 set \<times> made \<times> inline_chunnel \<times> thread_local" where
  "load_loop c qid [] acceptors made s = (Inr (), acceptors, made, s)"
| "load_loop c qid (d # ds) acceptors made s =
     (case load_iter c qid d acceptors (fst s) of
        (Inl e, ch1) \<Rightarrow> (Inl e, acceptors, made, ch1, snd s)
      | (Inr acceptors1, ch1) \<Rightarrow>
          load_loop c qid ds acceptors1 (filter (\<lambda>x. fst x \<noteq> d) made @ [(d, loaded_cn d)])
            (drop_made c (map snd (filter (\<lambda>x. fst x = d) made)) (ch1, snd s)))"

text \<open>
  At the end of \<open>load_conns\<close> the streams in \<open>acceptors\<close> are dropped, and after an error first the connections that were
  made. \<open>walk\<close> and \<open>walk_made\<close> are the orders in which the hash maps have them.
\<close>

definition load_conns ::
  "card \<Rightarrow> (nat \<Rightarrow> unit result) \<Rightarrow> (u16 set \<Rightarrow> u16 list) \<Rightarrow> (made \<Rightarrow> made) \<Rightarrow> (u16 \<times> addr4 option) list \<Rightarrow> inline_chunnel \<Rightarrow> thread_local
     \<Rightarrow> made result \<times> inline_chunnel \<times> thread_local" where
  "load_conns c affinitize walk walk_made conns ch loc =
     (case try_init_thread affinitize ch loc of
        (Inl e, ch1, loc1) \<Rightarrow> (Inl e, ch1, loc1)
      | (Inr _, ch1, None) \<Rightarrow> (eyre ''dpdk not initialized on core'', ch1, None)
      | (Inr _, ch1, Some q) \<Rightarrow>
          (case load_loop c (fst q) conns {} [] (ch1, Some (fst q, init_accepted (map desc_of conns) (snd q))) of
             (r, acceptors, made, s) \<Rightarrow>
               (map_sum id (\<lambda>_. made) r,
                fold (\<lambda>p (ch, loc). drop_stream c p ch loc) (walk acceptors)
                  (if is_ok r then s else drop_made c (map snd (walk_made made)) s))))"

section \<open>What is shared\<close>

text \<open>
  The connections that threads have opened with ports of the pool and the streams they listen with, each with
  its thread, which also drops it. A step is a call on some thread; one that fails changes at most the state
  of the thread and the pool.
\<close>

record 't inline_sys =
  chunnel :: inline_chunnel
  tls :: "'t \<Rightarrow> thread_local"
  cns :: "('t \<times> inline_cn) list"
  streams :: "('t \<times> u16) list"

definition after_call :: "'t \<Rightarrow> inline_chunnel \<times> thread_local \<Rightarrow> 't inline_sys \<Rightarrow> 't inline_sys" where
  "after_call t r s = s\<lparr>chunnel := fst r, tls := (tls s)(t := snd r)\<rparr>"

inductive inline_step :: "card \<Rightarrow> (nat \<Rightarrow> unit result) \<Rightarrow> 't inline_sys \<Rightarrow> 't inline_sys \<Rightarrow> bool" for c affinitize where
  Connect: "inline_connect c affinitize idx (Some a) (chunnel s) (tls s t) = (Inr cn, r) \<Longrightarrow> idx < length (free_ports (chunnel s)) \<Longrightarrow>
    inline_step c affinitize s ((after_call t r s)\<lparr>cns := (t, cn) # cns s\<rparr>)"
| Connect_failed: "inline_connect c affinitize idx addr (chunnel s) (tls s t) = (Inl e, r) \<Longrightarrow>
    free_ports (chunnel s) = [] \<or> idx < length (free_ports (chunnel s)) \<Longrightarrow> inline_step c affinitize s (after_call t r s)"
| Listen: "listen_non_accept c affinitize addr (chunnel s) (tls s t) = (Inr cn, r) \<Longrightarrow>
    inline_step c affinitize s ((after_call t r s)\<lparr>cns := (t, cn) # cns s\<rparr>)"
| Listen_failed: "listen_non_accept c affinitize addr (chunnel s) (tls s t) = (Inl e, r) \<Longrightarrow> inline_step c affinitize s (after_call t r s)"
| Stream: "inline_listen c affinitize (Some a) (chunnel s) (tls s t) = (Inr (), r) \<Longrightarrow>
    inline_step c affinitize s ((after_call t r s)\<lparr>streams := (t, snd a) # streams s\<rparr>)"
| Stream_failed: "inline_listen c affinitize addr (chunnel s) (tls s t) = (Inl e, r) \<Longrightarrow> inline_step c affinitize s (after_call t r s)"
| Drop: "(t, cn) \<in> set (cns s) \<Longrightarrow>
    inline_step c affinitize s ((after_call t (snd (drop_cn c cn (chunnel s) (tls s t))) s)\<lparr>cns := remove1 (t, cn) (cns s)\<rparr>)"
| Drop_stream: "(t, p) \<in> set (streams s) \<Longrightarrow>
    inline_step c affinitize s ((after_call t (drop_stream c p (chunnel s) (tls s t)) s)\<lparr>streams := remove1 (t, p) (streams s)\<rparr>)"

inductive inline_reachable :: "card \<Rightarrow> (nat \<Rightarrow> unit result) \<Rightarrow> 't inline_sys \<Rightarrow> 't inline_sys \<Rightarrow> bool" for c affinitize s0 where
  Start: "inline_reachable c affinitize s0 s0"
| Step: "inline_reachable c affinitize s0 s \<Longrightarrow> inline_step c affinitize s s1 \<Longrightarrow> inline_reachable c affinitize s0 s1"

text \<open>After \<open>new\<close>: cores, initialised queues, all ephemeral ports, and no rule.\<close>

definition inline_new :: "nat list \<Rightarrow> (u16 \<times> dpdk_state) list \<Rightarrow> inline_chunnel" where
  "inline_new lcores queues = \<lparr>lcore_map = lcores, mempools = queues, free_ports = ephemeral_ports,
     flow_steering = \<lparr>local_dst_port = Map.empty, remote_src_port = Map.empty\<rparr>, shut = False\<rparr>"

definition inline_do_new :: "nat list result \<Rightarrow> (u16 \<times> dpdk_state) list \<Rightarrow> nat \<Rightarrow> inline_chunnel result" where
  "inline_do_new get_lcore_map dpdks num_dpdk_threads =
     res_bind (wrap_err ''Could not fetch DPDK lcore map'' get_lcore_map) (\<lambda>lcores.
       if length lcores < num_dpdk_threads then eyre ''Not enough DPDK lcores'' else Inr (inline_new lcores dpdks))"

definition inline_start :: "nat list \<Rightarrow> (u16 \<times> dpdk_state) list \<Rightarrow> 't inline_sys" where
  "inline_start lcores queues = \<lparr>chunnel = inline_new lcores queues, tls = (\<lambda>_. None), cns = [], streams = []\<rparr>"

definition accepts_rules :: "card \<Rightarrow> bool" where
  "accepts_rules c \<longleftrightarrow> \<not> mlx c \<and> (\<forall>p q. is_ok (solo c p q)) \<and> (\<forall>p qs. is_ok (rss c p qs))"

text \<open>The threads that want the packets of a port, once for each connection and stream, and their queues.\<close>

definition owners :: "'t inline_sys \<Rightarrow> ('t \<times> u16) list" where
  "owners s = map (\<lambda>(t, cn). (t, cn_port cn)) (cns s) @ streams s"

definition queue_of :: "thread_local \<Rightarrow> u16" where
  "queue_of loc = (case loc of Some q \<Rightarrow> fst q | None \<Rightarrow> 0)"

definition wanted :: "'t inline_sys \<Rightarrow> u16 \<Rightarrow> u16 multiset" where
  "wanted s p = image_mset (\<lambda>x. queue_of (tls s (fst x))) (filter_mset (\<lambda>x. snd x = p) (mset (owners s)))"

definition inline_inv :: "'t inline_sys \<Rightarrow> bool" where
  "inline_inv s \<longleftrightarrow> \<not> shut (chunnel s) \<and> distinct (free_ports (chunnel s) @ map (cn_port \<circ> snd) (cns s))
     \<and> steering_ok (flow_steering (chunnel s)) \<and> (\<forall>x \<in> set (owners s). tls s (fst x) \<noteq> None)
     \<and> (\<forall>x \<in> set (cns s). cn_pool (snd x) \<and> cn_steering (snd x))
     \<and> (\<forall>p. mset (snd (port_entry (flow_steering (chunnel s)) p)) = wanted s p)"


lemma steer_ok:
  assumes "accepts_rules c" "steering_ok (flow_steering ch)"
  shows "steering_ok (flow_steering (steer c qid p ch))"
    "mset (snd (port_entry (flow_steering (steer c qid p ch)) q)) = mset (snd (port_entry (flow_steering ch) q)) + (if q = p then {#qid#} else {#})"
proof -
  have "\<exists>fs1. add_flow (mlx c) (solo c) (rss c) (solo_rule c) qid (local_dst_only p) (flow_steering ch) = (Inr (), fs1) \<and> steering_ok fs1
     \<and> (\<forall>q. mset (snd (port_entry fs1 q)) = mset (snd (port_entry (flow_steering ch) q)) + (if q = p then {#qid#} else {#}))"
    using add_flow_ok [of "solo c" "rss c" "flow_steering ch" "solo_rule c" qid p] assms by (simp add: accepts_rules_def)
  then show "steering_ok (flow_steering (steer c qid p ch))"
    "mset (snd (port_entry (flow_steering (steer c qid p ch)) q)) = mset (snd (port_entry (flow_steering ch) q)) + (if q = p then {#qid#} else {#})"
    by (auto simp: steer_def)
qed

lemma unsteer_ok:
  assumes "accepts_rules c" "steering_ok (flow_steering ch)" "qid \<in> set (snd (port_entry (flow_steering ch) p))"
  shows "steering_ok (flow_steering (unsteer c qid p rp ch))"
    "mset (snd (port_entry (flow_steering (unsteer c qid p rp ch)) q)) = mset (snd (port_entry (flow_steering ch) q)) - (if q = p then {#qid#} else {#})"
proof -
  have "\<exists>fs1. remove_flow (mlx c) (solo c) (rss c) qid p rp (flow_steering ch) = (Inr (), fs1) \<and> steering_ok fs1
     \<and> (\<forall>q. mset (snd (port_entry fs1 q)) = mset (snd (port_entry (flow_steering ch) q)) - (if q = p then {#qid#} else {#}))"
    using remove_flow_ok [of "solo c" "rss c" "flow_steering ch" qid p rp] assms by (simp add: accepts_rules_def)
  then show "steering_ok (flow_steering (unsteer c qid p rp ch))"
    "mset (snd (port_entry (flow_steering (unsteer c qid p rp ch)) q)) = mset (snd (port_entry (flow_steering ch) q)) - (if q = p then {#qid#} else {#})"
    by (auto simp: unsteer_def)
qed

lemma steer_keeps [simp]:
  "free_ports (steer c qid p ch) = free_ports ch" "shut (steer c qid p ch) = shut ch"
  "free_ports (unsteer c qid p rp ch) = free_ports ch" "shut (unsteer c qid p rp ch) = shut ch"
  by (simp_all add: steer_def unsteer_def)

lemma try_init_thread_shares:
  "try_init_thread affinitize ch loc = (r, ch1, loc1) \<Longrightarrow>
   free_ports ch1 = free_ports ch \<and> flow_steering ch1 = flow_steering ch \<and> shut ch1 = shut ch \<and> (loc \<noteq> None \<longrightarrow> loc1 = loc)
   \<and> (is_ok r \<longrightarrow> loc1 \<noteq> None)"
  by (auto simp: try_init_thread_def init_err_def Let_def split: sum.splits if_splits)

section \<open>Loaded connections lose their rules\<close>

text \<open>
  The streams that \<open>load_conns\<close> makes for connections with a peer are dropped when it returns, and with them the rules
  it has set up: no such connection is left with a rule.
\<close>

lemma load_iter_rules:
  assumes "accepts_rules c" "steering_ok (flow_steering ch)" "load_iter c qid (p, Some a) acc ch = (Inr acc1, ch1)"
  shows "acc1 = insert p acc \<and> steering_ok (flow_steering ch1) \<and> shut ch1 = shut ch
    \<and> (\<forall>r. mset (snd (port_entry (flow_steering ch1) r)) = mset (snd (port_entry (flow_steering ch) r)) + (if r = p \<and> p \<notin> acc then {#qid#} else {#}))"
proof -
  have ok: "steering_ok (flow_steering (ch\<lparr>free_ports := pool\<rparr>))" for pool using assms(2) by simp
  show ?thesis using assms(2,3) steer_ok [OF assms(1) ok, of qid p]
    by (auto simp: load_iter_def load_port_def split: prod.splits if_splits)
qed

lemma load_loop_rules:
  assumes "accepts_rules c" "\<forall>d \<in> set ds. snd d \<noteq> None" "distinct ds" "set ds \<inter> fst ` set made = {}" "steering_ok (flow_steering ch)"
    "load_loop c qid ds acc made (ch, loc) = (Inr (), acc1, made1, ch1, loc1)"
  shows "acc \<subseteq> acc1 \<and> acc1 = acc \<union> fst ` set ds \<and> steering_ok (flow_steering ch1) \<and> shut ch1 = shut ch \<and> loc1 = loc
    \<and> (\<forall>r. mset (snd (port_entry (flow_steering ch1) r)) = mset (snd (port_entry (flow_steering ch) r)) + (if r \<in> acc1 - acc then {#qid#} else {#}))"
  using assms(2-)
proof (induction ds arbitrary: acc made ch)
  case Nil
  then show ?case by auto
next
  case (Cons d ds)
  obtain p a where d: "d = (p, Some a)" using Cons.prems(1) by (cases d) auto
  have none: "filter (\<lambda>x. fst x = d) made = []" using Cons.prems(3) by (auto simp: filter_empty_conv)
  from Cons.prems(5) obtain acc2 ch2 where i: "load_iter c qid d acc ch = (Inr acc2, ch2)"
    and l: "load_loop c qid ds acc2 (filter (\<lambda>x. fst x \<noteq> d) made @ [(d, loaded_cn d)]) (ch2, loc) = (Inr (), acc1, made1, ch1, loc1)"
    by (auto simp: none drop_made_def split: prod.splits sum.splits)
  note it = load_iter_rules [OF assms(1) Cons.prems(4) i [unfolded d]]
  have "acc2 \<subseteq> acc1 \<and> acc1 = acc2 \<union> fst ` set ds \<and> steering_ok (flow_steering ch1) \<and> shut ch1 = shut ch2 \<and> loc1 = loc
    \<and> (\<forall>r. mset (snd (port_entry (flow_steering ch1) r)) = mset (snd (port_entry (flow_steering ch2) r)) + (if r \<in> acc1 - acc2 then {#qid#} else {#}))"
    by (rule Cons.IH [OF _ _ _ _ l]) (use Cons.prems it in auto)
  then show ?case using it by (auto simp: d)
qed

lemma drop_streams_rules:
  assumes "accepts_rules c" "distinct ps" "\<forall>p \<in> set ps. fst q \<in> set (snd (port_entry (flow_steering ch) p))" "steering_ok (flow_steering ch)" "\<not> shut ch"
    "fold (\<lambda>p (ch, loc). drop_stream c p ch loc) ps (ch, Some q) = (ch1, loc1)"
  shows "steering_ok (flow_steering ch1)
    \<and> (\<forall>r. mset (snd (port_entry (flow_steering ch1) r)) = mset (snd (port_entry (flow_steering ch) r)) - (if r \<in> set ps then {#fst q#} else {#}))"
  using assms(2-)
proof (induction ps arbitrary: ch)
  case Nil
  then show ?case by simp
next
  case (Cons p ps)
  let ?ch = "unsteer c (fst q) p None ch"
  have st: "steering_ok (flow_steering ?ch)"
    "\<And>r. mset (snd (port_entry (flow_steering ?ch) r)) = mset (snd (port_entry (flow_steering ch) r)) - (if r = p then {#fst q#} else {#})"
    using unsteer_ok [OF assms(1) Cons.prems(3), of "fst q" p None] Cons.prems(2) by auto
  have same: "set (snd (port_entry (flow_steering ?ch) r)) = set (snd (port_entry (flow_steering ch) r))" if "r \<in> set ps" for r
  proof -
    have "r \<noteq> p" using that Cons.prems(1) by auto
    then have "mset (snd (port_entry (flow_steering ?ch) r)) = mset (snd (port_entry (flow_steering ch) r))" by (simp add: st(2))
    then show ?thesis by (rule mset_eq_setD)
  qed
  have f: "fold (\<lambda>p (ch, loc). drop_stream c p ch loc) ps (?ch, Some q) = (ch1, loc1)"
    using Cons.prems(4,5) by (simp add: drop_stream_def)
  have "steering_ok (flow_steering ch1)
    \<and> (\<forall>r. mset (snd (port_entry (flow_steering ch1) r)) = mset (snd (port_entry (flow_steering ?ch) r)) - (if r \<in> set ps then {#fst q#} else {#}))"
    by (rule Cons.IH [OF _ _ _ _ f]) (use Cons.prems st same in auto)
  then show ?case using st(2) Cons.prems(1) by auto
qed

lemma map_sum_Inr: "map_sum id f r = Inr y \<longleftrightarrow> (\<exists>x. r = Inr x \<and> y = f x)"
  by (cases r) auto

lemma loaded_connections_unsteered:
  assumes c: "accepts_rules c" and ds: "\<forall>d \<in> set ds. snd d \<noteq> None" "distinct ds" and walk: "\<And>A. finite A \<Longrightarrow> distinct (walk A) \<and> set (walk A) = A"
    and ok: "steering_ok (flow_steering ch)" "\<not> shut ch"
    and l: "load_conns c affinitize walk walk_made ds ch loc = (Inr made, ch1, loc1)"
  shows "mset (snd (port_entry (flow_steering ch1) r)) = mset (snd (port_entry (flow_steering ch) r))"
proof -
  obtain u ch2 loc2 where i: "try_init_thread affinitize ch loc = (u, ch2, loc2)" by (cases "try_init_thread affinitize ch loc")
  note sh = try_init_thread_shares [OF i]
  from l i sh obtain q acc made1 ch3 loc3 where q: "loc2 = Some q"
    and lo: "load_loop c (fst q) ds {} [] (ch2, Some (fst q, init_accepted (map desc_of ds) (snd q))) = (Inr (), acc, made1, ch3, loc3)"
    and f: "fold (\<lambda>p (ch, loc). drop_stream c p ch loc) (walk acc) (ch3, loc3) = (ch1, loc1)"
    by (auto simp: load_conns_def is_ok_iff map_sum_Inr split: prod.splits sum.splits option.splits if_splits)
  have lr: "acc = fst ` set ds \<and> steering_ok (flow_steering ch3) \<and> shut ch3 = shut ch2 \<and> loc3 = Some (fst q, init_accepted (map desc_of ds) (snd q))
    \<and> (\<forall>r. mset (snd (port_entry (flow_steering ch3) r)) = mset (snd (port_entry (flow_steering ch2) r)) + (if r \<in> acc then {#fst q#} else {#}))"
    using load_loop_rules [OF c ds _ _ lo] ok sh by auto
  have w: "distinct (walk acc)" "set (walk acc) = acc" using walk [of acc] lr by auto
  have "fst q \<in># mset (snd (port_entry (flow_steering ch3) p))" if "p \<in> acc" for p
    using lr that by (simp del: set_mset_mset)
  then have "\<forall>p \<in> set (walk acc). fst q \<in> set (snd (port_entry (flow_steering ch3) p))" by (simp add: w)
  from drop_streams_rules [OF c w(1) _ _ _ f [unfolded conjunct1 [OF conjunct2 [OF conjunct2 [OF conjunct2 [OF lr]]]]]] this lr ok sh w
  show ?thesis by auto
qed

section \<open>Each step keeps the invariant\<close>

lemma after_call_simps [simp]:
  "chunnel (after_call t r s) = fst r" "cns (after_call t r s) = cns s" "streams (after_call t r s) = streams s"
  "owners (after_call t r s) = owners s" "tls (after_call t r s) = (tls s)(t := snd r)"
  by (simp_all add: after_call_def owners_def)

lemma owners_update [simp]:
  "mset (owners (s\<lparr>cns := (t, cn) # cns s\<rparr>)) = add_mset (t, cn_port cn) (mset (owners s))"
  "mset (owners (s\<lparr>streams := (t, p) # streams s\<rparr>)) = add_mset (t, p) (mset (owners s))"
  by (simp_all add: owners_def)

text \<open>A call keeps the queue of its thread once it has one.\<close>

definition same_queue :: "thread_local \<Rightarrow> thread_local \<Rightarrow> bool" where
  "same_queue loc loc1 \<longleftrightarrow> (loc \<noteq> None \<longrightarrow> map_option fst loc1 = map_option fst loc)"

lemma wanted_after:
  assumes "\<forall>x \<in> set (owners s). tls s (fst x) \<noteq> None" "same_queue (tls s t) (snd r)"
  shows "wanted (after_call t r s) p = wanted s p"
proof -
  have "queue_of (tls (after_call t r s) (fst x)) = queue_of (tls s (fst x))" if "x \<in># mset (owners s)" for x
    using that assms by (auto simp: queue_of_def same_queue_def split: option.splits)
  then show ?thesis unfolding wanted_def after_call_simps(4) by (intro image_mset_cong) auto
qed

lemma wanted_update [simp]:
  "wanted (s\<lparr>cns := (t, cn) # cns s\<rparr>) p = wanted s p + (if p = cn_port cn then {#queue_of (tls s t)#} else {#})"
  "wanted (s\<lparr>streams := (t, p1) # streams s\<rparr>) p = wanted s p + (if p = p1 then {#queue_of (tls s t)#} else {#})"
  by (simp_all add: wanted_def)

text \<open>Taking an owner away, from the connections or the streams.\<close>

lemma owners_remove:
  assumes "(t, cn) \<in> set (cns s)"
  shows "mset (owners s) = add_mset (t, cn_port cn) (mset (owners (s\<lparr>cns := remove1 (t, cn) (cns s)\<rparr>)))"
    "mset (map (cn_port \<circ> snd) (cns s)) = add_mset (cn_port cn) (mset (map (cn_port \<circ> snd) (remove1 (t, cn) (cns s))))"
proof -
  have "mset (cns s) = add_mset (t, cn) (mset (remove1 (t, cn) (cns s)))" using assms by simp
  then have "image_mset f (mset (cns s)) = add_mset (f (t, cn)) (image_mset f (mset (remove1 (t, cn) (cns s))))"
    for f :: "'a \<times> inline_cn \<Rightarrow> 'b" by (metis image_mset_add_mset)
  from this [of "\<lambda>(t, cn). (t, cn_port cn)"]
  show "mset (owners s) = add_mset (t, cn_port cn) (mset (owners (s\<lparr>cns := remove1 (t, cn) (cns s)\<rparr>)))"
    by (simp add: owners_def del: mset_remove1)
next
  have "mset (cns s) = add_mset (t, cn) (mset (remove1 (t, cn) (cns s)))" using assms by simp
  then show "mset (map (cn_port \<circ> snd) (cns s)) = add_mset (cn_port cn) (mset (map (cn_port \<circ> snd) (remove1 (t, cn) (cns s))))"
    by (simp del: mset_remove1)
qed

lemma owners_remove_stream:
  assumes "(t, p) \<in> set (streams s)"
  shows "mset (owners s) = add_mset (t, p) (mset (owners (s\<lparr>streams := remove1 (t, p) (streams s)\<rparr>)))"
  using assms by (simp add: owners_def)

lemma wanted_remove:
  assumes "mset (owners s) = add_mset (t, p1) (mset (owners s1))" "tls s1 = tls s"
  shows "wanted s1 p = wanted s p - (if p = p1 then {#queue_of (tls s t)#} else {#})"
  using assms by (simp add: wanted_def)

lemma owner_served:
  assumes "inline_inv s" "(t, p) \<in> set (owners s)"
  shows "\<exists>q. tls s t = Some q \<and> fst q \<in> set (snd (port_entry (flow_steering (chunnel s)) p))"
proof -
  have "queue_of (tls s t) \<in># wanted s p" using assms(2) by (force simp: wanted_def)
  moreover have "wanted s p = mset (snd (port_entry (flow_steering (chunnel s)) p))" using assms(1) by (simp add: inline_inv_def)
  moreover have "tls s t \<noteq> None" using assms by (force simp: inline_inv_def)
  ultimately show ?thesis by (auto simp: queue_of_def)
qed

lemma distinct_submset: "distinct xs \<Longrightarrow> mset ys \<subseteq># mset xs \<Longrightarrow> distinct ys"
proof -
  assume d: "distinct xs" and "mset ys \<subseteq># mset xs"
  then obtain zs where "mset xs = mset (ys @ zs)" by (metis ex_mset mset_append mset_subset_eq_exists_conv)
  then show ?thesis using d mset_eq_imp_distinct_iff by fastforce
qed

text \<open>A call that changes no rule, and one that opens a connection or a stream, on a thread that keeps its queue.\<close>

lemma plain_call_inv:
  assumes inv: "inline_inv s" and q: "same_queue (tls s t) (snd r)"
    and ch: "flow_steering (fst r) = flow_steering (chunnel s)" "\<not> shut (fst r)"
    and free: "mset (free_ports (fst r)) \<subseteq># mset (free_ports (chunnel s))"
  shows "inline_inv (after_call t r s)"
proof -
  have "distinct (free_ports (fst r) @ map (cn_port \<circ> snd) (cns s))"
    by (rule distinct_submset [of "free_ports (chunnel s) @ map (cn_port \<circ> snd) (cns s)"]) (use inv free in \<open>simp_all add: inline_inv_def\<close>)
  moreover have "wanted (after_call t r s) p = wanted s p" for p
    using inv q by (intro wanted_after) (auto simp: inline_inv_def)
  moreover have "\<forall>x \<in> set (owners s). ((tls s)(t := snd r)) (fst x) \<noteq> None"
    using inv q by (metis fun_upd_apply inline_inv_def option.map_disc_iff same_queue_def)
  ultimately show ?thesis using inv ch by (simp add: inline_inv_def)
qed

lemma opened_inv:
  assumes inv: "inline_inv s" and c: "accepts_rules c" and q: "same_queue (tls s t) (snd r)" "map_option fst (snd r) = Some qid"
    and ch: "fst r = steer c qid p ch" "flow_steering ch = flow_steering (chunnel s)" "\<not> shut ch"
    and own: "mset (owners s1) = add_mset (t, p) (mset (owners s))" "chunnel s1 = fst r" "tls s1 = (tls s)(t := snd r)"
    and free: "mset (free_ports ch @ map (cn_port \<circ> snd) (cns s1)) = mset (free_ports (chunnel s) @ map (cn_port \<circ> snd) (cns s))"
    and made: "\<forall>x \<in> set (cns s1). cn_pool (snd x) \<and> cn_steering (snd x)"
  shows "inline_inv s1"
proof -
  have served: "\<forall>x \<in> set (owners s). tls s (fst x) \<noteq> None" and ok: "steering_ok (flow_steering ch)"
    and d: "distinct (free_ports (chunnel s) @ map (cn_port \<circ> snd) (cns s))"
    and rules: "mset (snd (port_entry (flow_steering (chunnel s)) p)) = wanted s p" for p
    using inv ch by (auto simp: inline_inv_def)
  note st = steer_ok [OF c ok, of qid p]
  have "queue_of (snd r) = qid" using q(2) by (auto simp: queue_of_def)
  then have "wanted s1 p1 = wanted (after_call t r s) p1 + (if p1 = p then {#qid#} else {#})" for p1
    using own by (simp add: wanted_def)
  then have "mset (snd (port_entry (flow_steering (chunnel s1)) p1)) = wanted s1 p1" for p1
    using st(2) [of p1] rules [of p1] wanted_after [of s t r p1] served q ch own by simp
  moreover have "distinct (free_ports (chunnel s1) @ map (cn_port \<circ> snd) (cns s1))"
    using d free mset_eq_imp_distinct_iff own(2) ch(1) by (metis steer_keeps(1))
  moreover have "\<forall>x \<in> set (owners s1). tls s1 (fst x) \<noteq> None"
    using served q own by (auto simp: same_queue_def simp flip: set_mset_mset)
  ultimately show ?thesis using st(1) ch own made by (simp add: inline_inv_def)
qed

lemma closed_inv:
  assumes inv: "inline_inv s" and c: "accepts_rules c" and q: "same_queue (tls s t) (snd r)" "map_option fst (tls s t) = Some qid"
    and ch: "flow_steering (fst r) = flow_steering (unsteer c qid p rp (chunnel s))" "\<not> shut (fst r)"
    and own: "mset (owners s) = add_mset (t, p) (mset (owners s1))" "chunnel s1 = fst r" "tls s1 = (tls s)(t := snd r)"
    and free: "mset (free_ports (fst r) @ map (cn_port \<circ> snd) (cns s1)) = mset (free_ports (chunnel s) @ map (cn_port \<circ> snd) (cns s))"
    and made: "set (cns s1) \<subseteq> set (cns s)"
  shows "inline_inv s1"
proof -
  have served: "\<forall>x \<in> set (owners s). tls s (fst x) \<noteq> None" and ok: "steering_ok (flow_steering (chunnel s))"
    and d: "distinct (free_ports (chunnel s) @ map (cn_port \<circ> snd) (cns s))"
    and rules: "mset (snd (port_entry (flow_steering (chunnel s)) p)) = wanted s p" for p
    using inv by (auto simp: inline_inv_def)
  have "(t, p) \<in> set (owners s)" using own(1) by (metis set_mset_mset union_single_eq_member)
  from owner_served [OF inv this] q(2) have "qid \<in> set (snd (port_entry (flow_steering (chunnel s)) p))" by auto
  note st = unsteer_ok [OF c ok this, of rp]
  have "queue_of (tls s t) = qid" using q(2) by (auto simp: queue_of_def)
  moreover have "queue_of (snd r) = queue_of (tls s t)" using q by (auto simp: queue_of_def same_queue_def)
  ultimately have "wanted s1 p1 = wanted (after_call t r s) p1 - (if p1 = p then {#qid#} else {#})" for p1
    using own by (simp add: wanted_def)
  then have "mset (snd (port_entry (flow_steering (chunnel s1)) p1)) = wanted s1 p1" for p1
    using st(2) [of p1] rules [of p1] wanted_after [of s t r p1] served q ch own by simp
  moreover have "distinct (free_ports (chunnel s1) @ map (cn_port \<circ> snd) (cns s1))"
    using d free mset_eq_imp_distinct_iff own(2) by metis
  moreover have "set (owners s1) \<subseteq> set (owners s)" using own(1) by (metis set_mset_mset set_mset_add_mset_insert subset_insertI)
  then have "\<forall>x \<in> set (owners s1). tls s1 (fst x) \<noteq> None"
    using served q own by (auto simp: same_queue_def)
  ultimately show ?thesis using st(1) ch own made inv by (auto simp: inline_inv_def)
qed

lemma pool_swap_remove: "i < length pool \<Longrightarrow> mset pool = add_mset (pool ! i) (mset (swap_remove i pool))"
  by (simp add: mset_swap_remove)

text \<open>A connection that is opened on a port of the pool.\<close>

lemma open_on_inv:
  assumes inv: "inline_inv s" and c: "accepts_rules c" and pool: "mset (free_ports (chunnel s)) = add_mset p (mset pool)"
    and same: "flow_steering ch = flow_steering (chunnel s)" "shut ch = shut (chunnel s)" and q: "same_queue (tls s t) (Some q)"
    and op: "open_on c p buffer remote nc (ch\<lparr>free_ports := pool\<rparr>) q = (cn, r)"
  shows "inline_inv ((after_call t r s)\<lparr>cns := (t, cn) # cns s\<rparr>)"
proof (rule opened_inv [OF inv c, of t r "fst q" p "ch\<lparr>free_ports := pool\<rparr>"])
  have cn: "cn_port cn = p" "cn_pool cn" "cn_steering cn" using op by (auto simp: open_on_def)
  show "mset (owners ((after_call t r s)\<lparr>cns := (t, cn) # cns s\<rparr>)) = add_mset (t, p) (mset (owners s))"
    using cn by (simp add: owners_def)
  show "mset (free_ports (ch\<lparr>free_ports := pool\<rparr>) @ map (cn_port \<circ> snd) (cns ((after_call t r s)\<lparr>cns := (t, cn) # cns s\<rparr>)))
      = mset (free_ports (chunnel s) @ map (cn_port \<circ> snd) (cns s))"
    using cn pool by simp
  show "\<forall>x \<in> set (cns ((after_call t r s)\<lparr>cns := (t, cn) # cns s\<rparr>)). cn_pool (snd x) \<and> cn_steering (snd x)"
    using cn inv by (auto simp: inline_inv_def)
qed (use op q same inv in \<open>auto simp: open_on_def same_queue_def inline_inv_def\<close>)

lemma connect_inv:
  assumes inv: "inline_inv s" and c: "accepts_rules c" and idx: "idx < length (free_ports (chunnel s))"
    and con: "inline_connect c affinitize idx (Some a) (chunnel s) (tls s t) = (Inr cn, r)"
  shows "inline_inv ((after_call t r s)\<lparr>cns := (t, cn) # cns s\<rparr>)"
proof -
  obtain u ch loc where i: "try_init_thread affinitize (chunnel s) (tls s t) = (u, ch, loc)"
    by (cases "try_init_thread affinitize (chunnel s) (tls s t)")
  note sh = try_init_thread_shares [OF i]
  have ne: "free_ports (chunnel s) \<noteq> []" using idx by auto
  from con i sh ne obtain q where q: "loc = Some q" and op: "open_on c (free_ports (chunnel s) ! idx) a (Some a) (new_conn_signaller (snd q))
      (ch\<lparr>free_ports := swap_remove idx (free_ports (chunnel s))\<rparr>) q = (cn, r)"
    by (auto simp: inline_connect_def connect_port_def split: sum.splits option.splits prod.splits)
  show ?thesis
    by (rule open_on_inv [OF inv c pool_swap_remove [OF idx] _ _ _ op]) (use sh q in \<open>auto simp: same_queue_def\<close>)
qed

lemma listen_inv:
  assumes inv: "inline_inv s" and c: "accepts_rules c"
    and lis: "listen_non_accept c affinitize addr (chunnel s) (tls s t) = (Inr cn, r)"
  shows "inline_inv ((after_call t r s)\<lparr>cns := (t, cn) # cns s\<rparr>)"
proof -
  obtain u ch loc where i: "try_init_thread affinitize (chunnel s) (tls s t) = (u, ch, loc)"
    by (cases "try_init_thread affinitize (chunnel s) (tls s t)")
  note sh = try_init_thread_shares [OF i]
  from lis i sh obtain a q k where q: "loc = Some q" and k: "position (snd a) (free_ports (chunnel s)) = Some k"
    and op: "open_on c (snd a) (0, 0) None None (ch\<lparr>free_ports := swap_remove k (free_ports (chunnel s))\<rparr>) q = (cn, r)"
    by (auto simp: listen_non_accept_def listen_port_def claim_port_def split: sum.splits option.splits prod.splits if_splits)
  have pool: "mset (free_ports (chunnel s)) = add_mset (snd a) (mset (swap_remove k (free_ports (chunnel s))))"
    using position_eq [OF k] pool_swap_remove [of k "free_ports (chunnel s)"] by simp
  show ?thesis by (rule open_on_inv [OF inv c pool _ _ _ op]) (use sh q in \<open>auto simp: same_queue_def\<close>)
qed

lemma stream_inv:
  assumes inv: "inline_inv s" and c: "accepts_rules c"
    and lis: "inline_listen c affinitize (Some a) (chunnel s) (tls s t) = (Inr (), r)"
  shows "inline_inv ((after_call t r s)\<lparr>streams := (t, snd a) # streams s\<rparr>)"
proof -
  obtain u ch loc where i: "try_init_thread affinitize (chunnel s) (tls s t) = (u, ch, loc)"
    by (cases "try_init_thread affinitize (chunnel s) (tls s t)")
  note sh = try_init_thread_shares [OF i]
  from lis i sh obtain q where q: "loc = Some q"
    and r: "r = (steer c (fst q) (snd a) ch, Some (fst q, (snd q)\<lparr>new_conn_signaller := Some (snd a)\<rparr>))"
    by (auto simp: inline_listen_def split: sum.splits option.splits prod.splits)
  show ?thesis
    by (rule opened_inv [OF inv c, of t r "fst q" "snd a" ch])
      (use inv sh q in \<open>auto simp: r same_queue_def inline_inv_def owners_def\<close>)
qed

text \<open>Calls that fail: only \<open>connect\<close> may have taken a port by then.\<close>

lemma connect_failed_inv:
  assumes inv: "inline_inv s" and idx: "free_ports (chunnel s) = [] \<or> idx < length (free_ports (chunnel s))"
    and con: "inline_connect c affinitize idx addr (chunnel s) (tls s t) = (Inl e, r)"
  shows "inline_inv (after_call t r s)"
proof -
  obtain u ch loc where i: "try_init_thread affinitize (chunnel s) (tls s t) = (u, ch, loc)"
    by (cases "try_init_thread affinitize (chunnel s) (tls s t)")
  note sh = try_init_thread_shares [OF i]
  from con i sh have l: "snd r = loc" "flow_steering (fst r) = flow_steering (chunnel s)" "shut (fst r) = shut (chunnel s)"
    and pool: "free_ports (fst r) = free_ports (chunnel s)
      \<or> free_ports (chunnel s) \<noteq> [] \<and> free_ports (fst r) = swap_remove idx (free_ports (chunnel s))"
    by (auto simp: inline_connect_def connect_port_def open_on_def split: sum.splits option.splits prod.splits if_splits)
  from pool idx have "mset (free_ports (fst r)) \<subseteq># mset (free_ports (chunnel s))"
    using pool_swap_remove [of idx "free_ports (chunnel s)"] by auto
  then show ?thesis by (rule plain_call_inv [rotated -1]) (use inv sh l in \<open>auto simp: same_queue_def inline_inv_def\<close>)
qed

lemma listen_failed_inv:
  assumes inv: "inline_inv s"
    and lis: "listen_non_accept c affinitize addr (chunnel s) (tls s t) = (Inl e, r) \<or> inline_listen c affinitize addr (chunnel s) (tls s t) = (Inl e, r)"
  shows "inline_inv (after_call t r s)"
proof -
  obtain u ch loc where i: "try_init_thread affinitize (chunnel s) (tls s t) = (u, ch, loc)"
    by (cases "try_init_thread affinitize (chunnel s) (tls s t)")
  note sh = try_init_thread_shares [OF i]
  from lis i sh have "snd r = loc \<or> snd r = tls s t" "flow_steering (fst r) = flow_steering (chunnel s)" "shut (fst r) = shut (chunnel s)"
    "free_ports (fst r) = free_ports (chunnel s)"
    by (auto simp: listen_non_accept_def inline_listen_def listen_port_def claim_port_def open_on_def split: sum.splits option.splits prod.splits if_splits)
  with inv sh show ?thesis by (intro plain_call_inv) (auto simp: same_queue_def inline_inv_def)
qed

lemma drop_inv:
  assumes inv: "inline_inv s" and c: "accepts_rules c" and mem: "(t, cn) \<in> set (cns s)"
  shows "inline_inv ((after_call t (snd (drop_cn c cn (chunnel s) (tls s t))) s)\<lparr>cns := remove1 (t, cn) (cns s)\<rparr>)"
proof -
  have up: "\<not> shut (chunnel s)" using inv by (simp add: inline_inv_def)
  have cn: "cn_pool cn" "cn_steering cn" using inv mem by (force simp: inline_inv_def)+
  have "(t, cn_port cn) \<in> set (owners s)" using mem by (force simp: owners_def)
  from owner_served [OF inv this] obtain q where q: "tls s t = Some q" by auto
  let ?r = "snd (drop_cn c cn (chunnel s) (tls s t))"
  have r: "fst ?r = (unsteer c (fst q) (cn_port cn) (map_option snd (cn_remote cn)) (chunnel s))\<lparr>free_ports := free_ports (chunnel s) @ [cn_port cn]\<rparr>"
    "map_option fst (snd ?r) = Some (fst q)"
    using up cn by (auto simp: drop_cn_def q release_port_def)
  have own: "mset (owners s) = add_mset (t, cn_port cn) (mset (owners ((after_call t ?r s)\<lparr>cns := remove1 (t, cn) (cns s)\<rparr>)))"
    using owners_remove(1) [OF mem] by (simp add: owners_def)
  have free: "mset (free_ports (fst ?r) @ map (cn_port \<circ> snd) (cns ((after_call t ?r s)\<lparr>cns := remove1 (t, cn) (cns s)\<rparr>)))
      = mset (free_ports (chunnel s) @ map (cn_port \<circ> snd) (cns s))"
    using owners_remove(2) [OF mem] r(1) by simp
  show ?thesis
    by (rule closed_inv [OF inv c _ _ _ _ own _ _ free, where qid = "fst q" and rp = "map_option snd (cn_remote cn)"])
      (use r q up in \<open>auto simp: same_queue_def set_remove1_subset notin_set_remove1 dest: notin_set_remove1\<close>)
qed

lemma drop_stream_inv:
  assumes inv: "inline_inv s" and c: "accepts_rules c" and mem: "(t, p) \<in> set (streams s)"
  shows "inline_inv ((after_call t (drop_stream c p (chunnel s) (tls s t)) s)\<lparr>streams := remove1 (t, p) (streams s)\<rparr>)"
proof -
  have up: "\<not> shut (chunnel s)" using inv by (simp add: inline_inv_def)
  have "(t, p) \<in> set (owners s)" using mem by (simp add: owners_def)
  from owner_served [OF inv this] obtain q where q: "tls s t = Some q" by auto
  have r: "drop_stream c p (chunnel s) (tls s t) = (unsteer c (fst q) p None (chunnel s), tls s t)"
    using up by (simp add: drop_stream_def q)
  have own: "mset (owners s) = add_mset (t, p) (mset (owners ((after_call t (drop_stream c p (chunnel s) (tls s t)) s)\<lparr>streams := remove1 (t, p) (streams s)\<rparr>)))"
    using owners_remove_stream [OF mem] by (simp add: owners_def)
  show ?thesis
    by (rule closed_inv [OF inv c _ _ _ _ own, where r = "drop_stream c p (chunnel s) (tls s t)" and qid = "fst q" and rp = None]) (use up in \<open>auto simp: r [unfolded q] q same_queue_def\<close>)
qed

lemma inline_step_inv:
  assumes "inline_step c affinitize s s1" "accepts_rules c" "inline_inv s"
  shows "inline_inv s1"
  using assms
proof (induction rule: inline_step.induct)
  case Connect
  then show ?case by (intro connect_inv)
next
  case Connect_failed
  then show ?case by (intro connect_failed_inv)
next
  case Listen
  then show ?case by (intro listen_inv)
next
  case Listen_failed
  then show ?case by (intro listen_failed_inv) auto
next
  case Stream
  then show ?case by (intro stream_inv)
next
  case Stream_failed
  then show ?case by (intro listen_failed_inv) auto
next
  case Drop
  then show ?case by (intro drop_inv)
next
  case Drop_stream
  then show ?case by (intro drop_stream_inv)
qed

lemma distinct_ephemeral: "distinct ephemeral_ports"
proof -
  have "inj_on (of_nat :: nat \<Rightarrow> u16) {4096..<16384}"
  proof (rule inj_onI)
    fix x y :: nat
    assume le: "x \<in> {4096..<16384}" "y \<in> {4096..<16384}" and "(of_nat x :: u16) = of_nat y"
    then have "unat (of_nat x :: u16) = unat (of_nat y :: u16)" by simp
    then show "x = y" using le by (simp add: unat_of_nat)
  qed
  then show ?thesis unfolding ephemeral_ports_def distinct_map set_upt by (intro conjI distinct_upt)
qed

lemma inline_start_inv: "inline_inv (inline_start lcores queues)"
  by (simp add: inline_inv_def inline_start_def inline_new_def distinct_ephemeral owners_def wanted_def steering_ok_def port_entry_def)

lemma inline_reachable_inv:
  "inline_reachable c affinitize s0 s \<Longrightarrow> accepts_rules c \<Longrightarrow> inline_inv s0 \<Longrightarrow> inline_inv s"
  by (induction rule: inline_reachable.induct) (auto intro: inline_step_inv)

text \<open>The state of a thread keeps the signaller of a stream that has been dropped: later connections get it.\<close>

lemma dropped_stream_still_signalled:
  assumes "inline_listen c affinitize (Some a) ch loc = (Inr (), ch1, loc1)" "drop_stream c (snd a) ch1 loc1 = (ch2, loc2)" "\<not> shut ch"
    "inline_connect c affinitize idx (Some b) ch2 loc2 = (Inr cn, ch3, loc3)"
  shows "cn_new_conns cn = Some (snd a)"
proof -
  obtain u ch4 loc4 where i: "try_init_thread affinitize ch loc = (u, ch4, loc4)" by (cases "try_init_thread affinitize ch loc")
  note sh = try_init_thread_shares [OF i]
  from assms(1) i obtain q where q: "loc1 = Some q" "new_conn_signaller (snd q) = Some (snd a)"
    by (auto simp: inline_listen_def split: sum.splits option.splits prod.splits)
  then have "loc2 = Some q" using assms(1,2,3) i sh
    by (auto simp: inline_listen_def drop_stream_def split: sum.splits option.splits prod.splits if_splits)
  with assms(4) q show ?thesis
    by (auto simp: inline_connect_def try_init_thread_def open_on_def split: sum.splits option.splits prod.splits)
qed

section \<open>Properties\<close>


text \<open>A thread that listens on port 80 with the queue 3: the card sends the packets of that port there.\<close>

definition ex_card :: card where
  "ex_card = \<lparr>mlx = False, solo = (\<lambda>_ _. Inr ()), rss = (\<lambda>_ _. Inr ()), solo_rule = (\<lambda>_ _. Inr ())\<rparr>"

definition ex_listening :: "nat inline_sys" where
  "ex_listening = (after_call 0 (snd (inline_listen ex_card (\<lambda>_. Inr ()) (Some (9, 80)) (inline_new [1] [(3, ex_dpdk)]) None)) (inline_start [1] [(3, ex_dpdk)]))
     \<lparr>streams := [(0, 80)]\<rparr>"

lemma ex_listening_reachable: "inline_reachable ex_card (\<lambda>_. Inr ()) (inline_start [1] [(3, ex_dpdk)]) ex_listening"
proof -
  let ?s = "inline_start [1] [(3, ex_dpdk)] :: nat inline_sys"
  let ?r = "inline_listen ex_card (\<lambda>_. Inr ()) (Some (9, 80)) (chunnel ?s) (tls ?s 0)"
  have "?r = (Inr (), snd ?r)"
    by (simp add: inline_listen_def try_init_thread_def inline_start_def inline_new_def Let_def wrap_err_def)
  from inline_step.Stream [OF this] have "inline_step ex_card (\<lambda>_. Inr ()) ?s ex_listening"
    by (simp add: ex_listening_def inline_start_def)
  then show ?thesis by (rule inline_reachable.Step [OF inline_reachable.Start])
qed



definition ex_loading :: inline_chunnel where
  "ex_loading = (inline_new [1] [(3, ex_dpdk)])\<lparr>free_ports := [80]\<rparr>"


end
