(* ===== verification/Tcp.thy ===== *)
theory Tcp
  imports Codecs Byte_Order "HOL-Library.Sublist"
begin

text \<open>
  The message-oriented TCP connection (\<open>tcp/src/lib.rs\<close>): every message travels behind its length in
  four bytes. \<open>tcp_send\<close> and \<open>tcp_recv\<close> are the loops of \<open>TcpCn\<close> over the results of \<open>try_write\<close> and
  \<open>try_read\<close>, which move as many bytes as the socket likes; \<open>wrap_server\<close> hands accepted connections to
  the peers that wait for them.

  The socket is outside: each turn of a loop gets an event that says what the socket does. The bytes
  themselves go through: what \<open>try_write\<close> takes is what \<open>try_read\<close> finds, in order.
\<close>

section \<open>Sending\<close>

text \<open>What a turn of a loop of \<open>send\<close> meets: \<open>writable\<close> fails, or \<open>try_write\<close> accepts up to so many bytes.\<close>

datatype write_event =
    Writable_error string
  | Accepts nat
  | Write_blocks
  | Write_error string

definition try_write :: "nat \<Rightarrow> bytes \<Rightarrow> nat" where
  "try_write k buf = min k (length buf)"

text \<open>
  One of the two loops: the bytes it puts on the wire, its result (\<open>None\<close> while it waits for the next
  event) and the events that are left.
\<close>

fun write_loop :: "string \<Rightarrow> bytes \<Rightarrow> nat \<Rightarrow> write_event list \<Rightarrow> bytes \<times> unit result option \<times> write_event list" where
  "write_loop assert_msg buf wrote [] = ([], None, [])"
| "write_loop assert_msg buf wrote (Writable_error e # evs) = ([], Some (eyre e), evs)"
| "write_loop assert_msg buf wrote (Write_blocks # evs) = write_loop assert_msg buf wrote evs"
| "write_loop assert_msg buf wrote (Write_error e # evs) = ([], Some (Inl (Err [''try_write error'', e])), evs)"
| "write_loop assert_msg buf wrote (Accepts k # evs) =
     (let n = try_write k (drop wrote buf); out = take n (drop wrote buf) in
      if length buf < wrote + n then (out, Some (Inl (Panic assert_msg)), evs)
      else if wrote + n = length buf then (out, Some (Inr ()), evs)
      else (case write_loop assert_msg buf (wrote + n) evs of (w, r, rest) \<Rightarrow> (out @ w, r, rest)))"

definition len_buf_of :: "bytes \<Rightarrow> bytes" where
  "len_buf_of msg = be_bytes 4 (of_nat (length msg) :: u32)"

fun tcp_send :: "bytes list \<Rightarrow> write_event list \<Rightarrow> bytes \<times> unit result option \<times> write_event list" where
  "tcp_send [] evs = ([], Some (Inr ()), evs)"
| "tcp_send (msg # burst) evs =
     (case write_loop ''cannot write more than 4'' (len_buf_of msg) 0 evs of
        (w1, Some (Inr _), evs1) \<Rightarrow>
          (case write_loop ''cannot write more than msg size'' msg 0 evs1 of
             (w2, Some (Inr _), evs2) \<Rightarrow>
               (case tcp_send burst evs2 of (w3, r, rest) \<Rightarrow> (w1 @ w2 @ w3, r, rest))
           | (w2, r, rest) \<Rightarrow> (w1 @ w2, r, rest))
      | (w1, r, rest) \<Rightarrow> (w1, r, rest))"

definition frame :: "bytes \<Rightarrow> bytes" where
  "frame msg = len_buf_of msg @ msg"

text \<open>What is on the wire is the frames of the burst, up to where the sending has got.\<close>

lemma write_loop_spec:
  "wrote \<le> length buf \<Longrightarrow> write_loop m buf wrote evs = (w, r, rest) \<Longrightarrow>
   prefix w (drop wrote buf) \<and> (r = Some (Inr ()) \<longrightarrow> w = drop wrote buf) \<and> (\<forall>e. r = Some (Inl e) \<longrightarrow> \<not> is_panic e)"
proof (induction m buf wrote evs arbitrary: w r rest rule: write_loop.induct)
  case (5 m buf wrote k evs)
  define n where "n = try_write k (drop wrote buf)"
  have le: "wrote + n \<le> length buf" using "5.prems"(1) by (auto simp: n_def try_write_def)
  show ?case
  proof (cases "wrote + n = length buf")
    case True
    then show ?thesis using "5.prems" by (auto simp: n_def [symmetric] Let_def)
  next
    case False
    obtain w' where w': "write_loop m buf (wrote + n) evs = (w', r, rest)" "w = take n (drop wrote buf) @ w'"
      using "5.prems"(2) le False by (auto simp: n_def [symmetric] Let_def split: prod.splits)
    have "drop wrote buf = take n (drop wrote buf) @ drop (wrote + n) buf"
      by (metis append_take_drop_id drop_drop add.commute)
    then show ?thesis using "5.IH" [OF n_def refl _ False le w'(1)] le w'(2)
      by (metis prefix_append same_prefix_prefix not_less)
  qed
qed (auto split: prod.splits)

lemma tcp_send_spec:
  "tcp_send burst evs = (w, r, rest) \<Longrightarrow>
   prefix w (concat (map frame burst)) \<and> (r = Some (Inr ()) \<longrightarrow> w = concat (map frame burst))
   \<and> (\<forall>e. r = Some (Inl e) \<longrightarrow> \<not> is_panic e)"
proof (induction burst arbitrary: evs w)
  case (Cons msg burst)
  obtain w1 r1 evs1 where h: "write_loop ''cannot write more than 4'' (len_buf_of msg) 0 evs = (w1, r1, evs1)"
    by (cases "write_loop ''cannot write more than 4'' (len_buf_of msg) 0 evs")
  obtain w2 r2 evs2 where b: "write_loop ''cannot write more than msg size'' msg 0 evs1 = (w2, r2, evs2)"
    by (cases "write_loop ''cannot write more than msg size'' msg 0 evs1")
  obtain w3 r3 evs3 where c: "tcp_send burst evs2 = (w3, r3, evs3)" by (cases "tcp_send burst evs2")
  note hs = write_loop_spec [OF _ h, simplified] and bs = write_loop_spec [OF _ b, simplified]
  have eq: "(w, r, rest) =
      (case r1 of
         None \<Rightarrow> (w1, None, evs1)
       | Some (Inl e) \<Rightarrow> (w1, Some (Inl e), evs1)
       | Some (Inr _) \<Rightarrow>
           (case r2 of
              None \<Rightarrow> (w1 @ w2, None, evs2)
            | Some (Inl e) \<Rightarrow> (w1 @ w2, Some (Inl e), evs2)
            | Some (Inr _) \<Rightarrow> (w1 @ w2 @ w3, r3, evs3)))"
    using Cons.prems by (simp only: tcp_send.simps h b c prod.case)
  show ?case
  proof (cases "r1 = Some (Inr ())")
    case True
    note r1 = True
    show ?thesis
    proof (cases "r2 = Some (Inr ())")
      case True
      with r1 eq hs bs Cons.IH [of evs2 w3] c show ?thesis by (simp add: frame_def)
    next
      case False
      with r1 eq have "w = w1 @ w2" "r = r2" by (auto split: option.splits sum.splits)
      with False r1 hs bs show ?thesis by (simp add: frame_def)
    qed
  next
    case False
    with eq have "w = w1" "r = r1" by (auto split: option.splits sum.splits)
    with False hs show ?thesis by (simp add: frame_def)
  qed
qed auto

section \<open>Receiving\<close>

text \<open>
  A \<open>Vec<u8>\<close> with its capacity. \<open>alloc cap n\<close> is the capacity the allocator gives to a vector of capacity
  \<open>cap\<close> that has to hold \<open>n\<close> bytes. \<open>set_len\<close> exposes memory that has not been written, here zeros;
  beyond the capacity its behaviour is undefined, and the model stops.
\<close>

record vec =
  capacity :: nat
  content :: bytes

definition reserve :: "(nat \<Rightarrow> nat \<Rightarrow> nat) \<Rightarrow> nat \<Rightarrow> vec \<Rightarrow> vec" where
  "reserve alloc additional v =
     (if length (content v) + additional \<le> capacity v then v
      else v\<lparr>capacity := alloc (capacity v) (length (content v) + additional)\<rparr>)"

definition set_len :: "nat \<Rightarrow> vec \<Rightarrow> vec result" where
  "set_len n v =
     (if n \<le> capacity v then Inr (v\<lparr>content := take n (content v) @ replicate (n - length (content v)) 0\<rparr>)
      else Inl (Panic ''undefined behaviour: set_len beyond the capacity''))"

text \<open>
  What \<open>try_read\<close> meets: up to \<open>Suc k\<close> bytes at once, nothing yet, the end of the stream once everything
  is read, or an error. The first component of its result is \<open>None\<close> for \<open>WouldBlock\<close>.
\<close>

datatype read_event =
    Available nat
  | Blocks
  | Closed
  | Read_error string

fun try_read :: "read_event \<Rightarrow> nat \<Rightarrow> bytes \<Rightarrow> bytes result option \<times> bytes" where
  "try_read (Available k) room st =
     (if st = [] then (None, []) else (Some (Inr (take (min (Suc k) room) st)), drop (min (Suc k) room) st))"
| "try_read Blocks room st = (None, st)"
| "try_read Closed room st = (Some (Inr (take room st)), drop room st)"
| "try_read (Read_error e) room st = (Some (eyre e), st)"

record recv_state =
  slots :: "vec option list"
  stream :: bytes
  partial_header_len :: nat
  len_buf :: bytes
  curr_expected_len :: "nat option"
  tot_msgs :: nat

text \<open>
  \<open>curr_expected_len\<close> is a count and the buffer of the slot \<open>tot_msgs\<close>, which it borrows. A turn of the
  loop \<open>'msg\<close> goes on with the next turn, with \<open>readable\<close>, or returns the number of slots of the slice.
\<close>

datatype turn = Next_msg | Next_readable | Return "nat result"

definition start_msg :: "(nat \<Rightarrow> nat \<Rightarrow> nat) \<Rightarrow> recv_state \<Rightarrow> turn \<times> recv_state" where
  "start_msg alloc s =
     (let tot_expect = unat (from_be_bytes (len_buf s) :: u32) in
      if \<not> (0 < tot_expect \<and> tot_expect \<le> 8192) then (Return (eyre ''invalid message length''), s)
      else if length (slots s) \<le> tot_msgs s then (Return (Inl (Panic ''index out of bounds'')), s)
      else
        (let dst_buf = (case slots s ! tot_msgs s of
                          Some v \<Rightarrow> v
                        | None \<Rightarrow> \<lparr>capacity = alloc 0 tot_expect, content = []\<rparr>);
             dst_buf1 = (if capacity dst_buf < tot_expect then reserve alloc (tot_expect - capacity dst_buf) dst_buf
                         else dst_buf) in
         case set_len tot_expect dst_buf1 of
           Inl e \<Rightarrow> (Return (Inl e), s)
         | Inr v \<Rightarrow> (Next_msg, s\<lparr>slots := (slots s)[tot_msgs s := Some v], curr_expected_len := Some 0,
                            partial_header_len := 0, len_buf := [0, 0, 0, 0]\<rparr>)))"

definition header_turn :: "(nat \<Rightarrow> nat \<Rightarrow> nat) \<Rightarrow> read_event \<Rightarrow> recv_state \<Rightarrow> turn \<times> recv_state" where
  "header_turn alloc ev s =
     (let got = partial_header_len s in
      if \<not> got < length (len_buf s) then (Return (eyre ''partial_header_len is wrong''), s)
      else
        (case try_read ev (length (len_buf s) - got) (stream s) of
           (None, st) \<Rightarrow>
             (if 0 < tot_msgs s then (Return (Inr (tot_msgs s)), s\<lparr>stream := st\<rparr>)
              else (Next_readable, s\<lparr>stream := st\<rparr>))
         | (Some (Inl e), st) \<Rightarrow> (Return (wrap_err ''Error reading message header'' (Inl e)), s\<lparr>stream := st\<rparr>)
         | (Some (Inr bs), st) \<Rightarrow>
             (if bs = [] then (Return (eyre ''connection closed by peer''), s\<lparr>stream := st\<rparr>)
              else
                (let s1 = s\<lparr>stream := st, partial_header_len := got + length bs,
                            len_buf := take got (len_buf s) @ bs @ drop (got + length bs) (len_buf s)\<rparr> in
                 if partial_header_len s1 < length (len_buf s1) then (Next_readable, s1)
                 else start_msg alloc s1))))"

definition body_turn :: "read_event \<Rightarrow> nat \<Rightarrow> recv_state \<Rightarrow> turn \<times> recv_state" where
  "body_turn ev so_far s =
     (case slots s ! tot_msgs s of
        None \<Rightarrow> (Return (Inl (Panic ''no buffer'')), s)
      | Some dst_buf \<Rightarrow>
          if \<not> so_far < length (content dst_buf) then (Return (eyre ''invalid state''), s\<lparr>curr_expected_len := None\<rparr>)
          else
            (case try_read ev (length (content dst_buf) - so_far) (stream s) of
               (None, st) \<Rightarrow> (Next_readable, s\<lparr>stream := st\<rparr>)
             | (Some (Inl e), st) \<Rightarrow>
                 (Return (wrap_err ''Error reading message body'' (Inl e)), s\<lparr>stream := st, curr_expected_len := None\<rparr>)
             | (Some (Inr bs), st) \<Rightarrow>
                 if bs = [] then (Return (Inl (Panic ''unreachable'')), s\<lparr>stream := st, curr_expected_len := None\<rparr>)
                 else
                   (let so_far1 = so_far + length bs;
                        c = take so_far (content dst_buf) @ bs @ drop so_far1 (content dst_buf);
                        s1 = s\<lparr>stream := st, slots := (slots s)[tot_msgs s := Some (dst_buf\<lparr>content := c\<rparr>)]\<rparr> in
                    if so_far1 < length (content dst_buf)
                    then (Next_readable, s1\<lparr>curr_expected_len := Some so_far1\<rparr>)
                    else
                      (let s2 = s1\<lparr>curr_expected_len := None, tot_msgs := tot_msgs s + 1\<rparr> in
                       if tot_msgs s2 = length (slots s2) then (Return (Inr (length (slots s2))), s2)
                       else (Next_msg, s2)))))"

definition tcp_turn :: "(nat \<Rightarrow> nat \<Rightarrow> nat) \<Rightarrow> read_event \<Rightarrow> recv_state \<Rightarrow> turn \<times> recv_state" where
  "tcp_turn alloc ev s =
     (case curr_expected_len s of Some so_far \<Rightarrow> body_turn ev so_far s | None \<Rightarrow> header_turn alloc ev s)"

text \<open>
  The two loops. \<open>rs\<close> are the results of the calls of \<open>readable\<close>, \<open>evs\<close> what the calls of \<open>try_read\<close>
  meet; a result \<open>None\<close> is a receive that still waits.
\<close>

fun recv_loop ::
  "(nat \<Rightarrow> nat \<Rightarrow> nat) \<Rightarrow> bool \<Rightarrow> string option list \<Rightarrow> read_event list \<Rightarrow> recv_state \<Rightarrow> nat result option \<times> recv_state" where
  "recv_loop alloc True [] evs s = (None, s)"
| "recv_loop alloc True (Some e # rs) evs s = (Some (eyre e), s)"
| "recv_loop alloc True (None # rs) evs s = recv_loop alloc False rs evs s"
| "recv_loop alloc False rs [] s = (None, s)"
| "recv_loop alloc False rs (ev # evs) s =
     (case tcp_turn alloc ev s of
        (Next_msg, s1) \<Rightarrow> recv_loop alloc False rs evs s1
      | (Next_readable, s1) \<Rightarrow> recv_loop alloc True rs evs s1
      | (Return r, s1) \<Rightarrow> (Some r, s1))"

definition tcp_recv_init :: "vec option list \<Rightarrow> bytes \<Rightarrow> recv_state" where
  "tcp_recv_init msgs_buf st =
     \<lparr>slots = msgs_buf, stream = st, partial_header_len = 0, len_buf = [0, 0, 0, 0],
      curr_expected_len = None, tot_msgs = 0\<rparr>"

definition tcp_recv ::
  "(nat \<Rightarrow> nat \<Rightarrow> nat) \<Rightarrow> vec option list \<Rightarrow> string option list \<Rightarrow> read_event list \<Rightarrow> bytes
     \<Rightarrow> nat result option \<times> recv_state" where
  "tcp_recv alloc msgs_buf rs evs st = recv_loop alloc True rs evs (tcp_recv_init msgs_buf st)"

section \<open>What a receive returns\<close>

text \<open>
  \<open>ms\<close> are the messages on the stream. The invariant relates a receive to them: the messages before
  \<open>tot_msgs\<close> are in their slots, and the stream goes on where the current message has got to. A buffer
  that the caller passes in is \<open>roomy\<close> if it is full or has room for every message.
\<close>

definition sendable :: "bytes \<Rightarrow> bool" where
  "sendable m \<longleftrightarrow> 0 < length m \<and> length m \<le> 8192"

definition roomy :: "vec option \<Rightarrow> bool" where
  "roomy slot = (case slot of None \<Rightarrow> True | Some v \<Rightarrow> capacity v = length (content v) \<or> 8192 \<le> capacity v)"

definition frames :: "bytes list \<Rightarrow> bytes" where
  "frames ms = concat (map frame ms)"

definition at_header :: "bytes list \<Rightarrow> recv_state \<Rightarrow> bool" where
  "at_header ms s \<longleftrightarrow>
     length (len_buf s) = 4 \<and> partial_header_len s < 4 \<and> (0 < partial_header_len s \<longrightarrow> tot_msgs s < length ms)
   \<and> take (partial_header_len s) (len_buf s) = take (partial_header_len s) (len_buf_of (ms ! tot_msgs s))
   \<and> stream s = drop (partial_header_len s) (frames (drop (tot_msgs s) ms))
   \<and> (\<forall>i. tot_msgs s \<le> i \<and> i < length (slots s) \<longrightarrow> roomy (slots s ! i))"

definition at_body :: "bytes list \<Rightarrow> nat \<Rightarrow> recv_state \<Rightarrow> bool" where
  "at_body ms k s \<longleftrightarrow>
     length (len_buf s) = 4 \<and> partial_header_len s = 0 \<and> tot_msgs s < length ms
   \<and> (\<exists>v. slots s ! tot_msgs s = Some v \<and> length (content v) = length (ms ! tot_msgs s)
         \<and> take k (content v) = take k (ms ! tot_msgs s))
   \<and> k < length (ms ! tot_msgs s) \<and> stream s = drop k (ms ! tot_msgs s) @ frames (drop (Suc (tot_msgs s)) ms)
   \<and> (\<forall>i. tot_msgs s < i \<and> i < length (slots s) \<longrightarrow> roomy (slots s ! i))"

definition received :: "bytes list \<Rightarrow> recv_state \<Rightarrow> bool" where
  "received ms s \<longleftrightarrow> tot_msgs s \<le> length ms
     \<and> (\<forall>i < tot_msgs s. map_option content (slots s ! i) = Some (ms ! i))"

definition recv_inv :: "bytes list \<Rightarrow> recv_state \<Rightarrow> bool" where
  "recv_inv ms s \<longleftrightarrow> tot_msgs s < length (slots s) \<and> received ms s
     \<and> (case curr_expected_len s of None \<Rightarrow> at_header ms s | Some k \<Rightarrow> at_body ms k s)"

definition returned :: "bytes list \<Rightarrow> nat \<Rightarrow> recv_state \<Rightarrow> bool" where
  "returned ms n s \<longleftrightarrow> 0 < n \<and> n = tot_msgs s \<and> n \<le> length (slots s) \<and> received ms s
     \<and> partial_header_len s < 4 \<and> (0 < partial_header_len s \<longrightarrow> n < length (slots s))
     \<and> stream s = drop (partial_header_len s) (frames (drop n ms))"

lemma frames_Nil [simp]: "frames [] = []"
  by (simp add: frames_def)

lemma frames_drop: "n < length ms \<Longrightarrow> frames (drop n ms) = len_buf_of (ms ! n) @ ms ! n @ frames (drop (Suc n) ms)"
  by (simp add: frames_def frame_def Cons_nth_drop_Suc [symmetric])

lemma length_len_buf_of [simp]: "length (len_buf_of m) = 4"
  by (simp add: len_buf_of_def)

lemma header_value: "sendable m \<Longrightarrow> unat (from_be_bytes (len_buf_of m) :: u32) = length m"
  by (simp add: len_buf_of_def from_be_bytes_be_bytes sendable_def unat_of_nat take_bit_nat_eq_self)

lemma try_read_none: "try_read ev room st = (None, st') \<Longrightarrow> st' = st"
  by (cases ev) (auto split: if_splits)

lemma try_read_err: "try_read ev room st = (Some (Inl e), st') \<Longrightarrow> \<exists>m. ev = Read_error m \<and> e = Err [m]"
  by (cases ev) (auto split: if_splits)

lemma try_read_eof: "try_read ev room st = (Some (Inr []), st') \<Longrightarrow> 0 < room \<Longrightarrow> ev = Closed \<and> st = [] \<and> st' = []"
  by (cases ev) (auto split: if_splits)

lemma try_read_bytes:
  assumes "try_read ev room st = (Some (Inr bs), st')" and "bs \<noteq> []"
  shows "0 < length bs \<and> length bs \<le> room \<and> st = bs @ st'"
  using assms by (cases ev) (auto split: if_splits)

text \<open>Starting a message: a roomy slot gets a buffer of the length of the message.\<close>

lemma reserve_roomy:
  assumes "\<And>c n. n \<le> alloc c n" and "roomy (Some v)" and "capacity v < n" and "n \<le> 8192"
  shows "n \<le> capacity (reserve alloc (n - capacity v) v)"
  using assms by (auto simp: reserve_def roomy_def intro: order_trans [OF _ assms(1)])

lemma start_msg_ok:
  assumes alloc: "\<And>c n. n \<le> alloc c n" and room: "roomy (slots s ! tot_msgs s)" "tot_msgs s < length (slots s)"
    and m: "sendable m" "len_buf s = len_buf_of m"
  obtains v where "length (content v) = length m"
    "start_msg alloc s = (Next_msg, s\<lparr>slots := (slots s)[tot_msgs s := Some v], curr_expected_len := Some 0,
        partial_header_len := 0, len_buf := [0, 0, 0, 0]\<rparr>)"
proof -
  define dst where "dst = (case slots s ! tot_msgs s of Some v \<Rightarrow> v | None \<Rightarrow> \<lparr>capacity = alloc 0 (length m), content = []\<rparr>)"
  define dst1 where "dst1 = (if capacity dst < length m then reserve alloc (length m - capacity dst) dst else dst)"
  have "roomy (Some dst) \<or> length m \<le> capacity dst"
    using room(1) alloc by (auto simp: dst_def split: option.splits)
  then have cap: "length m \<le> capacity dst1"
    using reserve_roomy [of alloc dst "length m"] alloc m(1) by (auto simp: dst1_def sendable_def)
  let ?v = "dst1\<lparr>content := take (length m) (content dst1) @ replicate (length m - length (content dst1)) 0\<rparr>"
  have "set_len (length m) dst1 = Inr ?v" using cap by (simp add: set_len_def)
  moreover have "length (content ?v) = length m" by simp
  ultimately show ?thesis using that [of ?v] room(2) m(1) header_value [OF m(1)]
    by (simp add: start_msg_def m(2) Let_def sendable_def dst_def [symmetric] dst1_def [symmetric] not_le)
qed

text \<open>What a turn may do from a state that satisfies the invariant.\<close>

definition turn_ok :: "bytes list \<Rightarrow> read_event \<Rightarrow> turn \<times> recv_state \<Rightarrow> bool" where
  "turn_ok ms ev r =
     (case r of
        (Next_msg, s1) \<Rightarrow> recv_inv ms s1
      | (Next_readable, s1) \<Rightarrow> recv_inv ms s1
      | (Return (Inr n), s1) \<Rightarrow> returned ms n s1
      | (Return (Inl e), s1) \<Rightarrow> \<not> is_panic e \<and> (ev = Closed \<or> (\<exists>m. ev = Read_error m)))"

lemma received_update [simp]:
  "received ms (s\<lparr>stream := st\<rparr>) = received ms s" "received ms (s\<lparr>partial_header_len := n\<rparr>) = received ms s"
  "received ms (s\<lparr>len_buf := b\<rparr>) = received ms s" "received ms (s\<lparr>curr_expected_len := c\<rparr>) = received ms s"
  "received ms (s\<lparr>slots := (slots s)[tot_msgs s := x]\<rparr>) = received ms s"
  by (simp_all add: received_def)

text \<open>
  Reading into a buffer whose first \<open>g\<close> bytes are those of \<open>h\<close>, from a stream that goes on with the rest of
  \<open>h\<close>: one more piece of \<open>h\<close> is there, and the stream goes on behind it.
\<close>

lemma read_piece:
  assumes "take g buf = take g h" "length buf = length h" "g + length bs \<le> length h" "bs @ st = drop g h @ rest"
  shows "length (take g buf @ bs @ drop (g + length bs) buf) = length h"
    "take (g + length bs) (take g buf @ bs @ drop (g + length bs) buf) = take (g + length bs) h"
    "st = drop (g + length bs) h @ rest"
proof -
  have "bs = take (length bs) (drop g h)" using arg_cong [OF assms(4), of "take (length bs)"] assms(3) by simp
  then have "take (g + length bs) h = take g buf @ bs" using assms(1) take_add [of g "length bs" h] by simp
  then show "take (g + length bs) (take g buf @ bs @ drop (g + length bs) buf) = take (g + length bs) h"
    using assms(2,3) by simp
  show "st = drop (g + length bs) h @ rest"
    using arg_cong [OF assms(4), of "drop (length bs)"] assms(3) by (simp add: add.commute)
  show "length (take g buf @ bs @ drop (g + length bs) buf) = length h" using assms(2,3) by simp
qed

lemma header_bytes_ok:
  assumes alloc: "\<And>c n. n \<le> alloc c n" and ms: "list_all sendable ms"
    and inv: "recv_inv ms s" and c: "curr_expected_len s = None"
    and tr: "try_read ev (4 - partial_header_len s) (stream s) = (Some (Inr bs), st)" and ne: "bs \<noteq> []"
  shows "turn_ok ms ev (header_turn alloc ev s)"
proof -
  let ?t = "tot_msgs s" and ?g = "partial_header_len s"
  have hd: "at_header ms s" "?t < length (slots s)" "received ms s" using inv c by (simp_all add: recv_inv_def)
  then have g: "?g < 4" "length (len_buf s) = 4" and tk: "take ?g (len_buf s) = take ?g (len_buf_of (ms ! ?t))"
    by (simp_all add: at_header_def)
  note b = try_read_bytes [OF tr ne]
  have lt: "?t < length ms"
  proof (rule ccontr)
    assume "\<not> ?t < length ms"
    then have "stream s = []" using hd(1) by (simp add: at_header_def)
    then show False using b ne by simp
  qed
  then have sd: "sendable (ms ! ?t)" using ms by (simp add: list_all_length)
  let ?h = "len_buf_of (ms ! ?t)" and ?rest = "ms ! ?t @ frames (drop (Suc ?t) ms)"
  let ?lb = "take ?g (len_buf s) @ bs @ drop (?g + length bs) (len_buf s)"
  have le: "?g + length bs \<le> 4" using b g by linarith
  have "bs @ st = drop ?g ?h @ ?rest" using hd(1) b g lt by (simp add: at_header_def frames_drop)
  with tk g le have lb: "length ?lb = 4" "take (?g + length bs) ?lb = take (?g + length bs) ?h"
    and st: "st = drop (?g + length bs) ?h @ ?rest"
    using read_piece [of ?g "len_buf s" ?h bs st ?rest] by simp_all
  let ?s1 = "s\<lparr>stream := st, partial_header_len := ?g + length bs, len_buf := ?lb\<rparr>"
  have eq: "header_turn alloc ev s = (if ?g + length bs < 4 then (Next_readable, ?s1) else start_msg alloc ?s1)"
    using tr g lb(1) ne by (simp add: header_turn_def Let_def)
  show ?thesis
  proof (cases "?g + length bs < 4")
    case True
    then have "at_header ms ?s1" using hd(1) lt lb st by (simp add: at_header_def frames_drop)
    then show ?thesis using True hd c eq by (simp add: turn_ok_def recv_inv_def)
  next
    case False
    then have four: "?g + length bs = 4" using le by simp
    then have l: "len_buf ?s1 = ?h" using lb by simp
    have r: "roomy (slots ?s1 ! tot_msgs ?s1)" "tot_msgs ?s1 < length (slots ?s1)" using hd by (simp_all add: at_header_def)
    obtain v where v: "length (content v) = length (ms ! ?t)"
      "start_msg alloc ?s1 = (Next_msg, ?s1\<lparr>slots := (slots ?s1)[tot_msgs ?s1 := Some v], curr_expected_len := Some 0,
         partial_header_len := 0, len_buf := [0, 0, 0, 0]\<rparr>)"
      by (rule start_msg_ok [OF alloc r sd l])
    have "recv_inv ms (snd (start_msg alloc ?s1))"
      using v hd lt sd st four by (simp add: recv_inv_def received_def at_body_def at_header_def sendable_def)
    then show ?thesis using eq False v(2) by (simp add: turn_ok_def)
  qed
qed

lemma header_turn_ok:
  assumes alloc: "\<And>c n. n \<le> alloc c n" and ms: "list_all sendable ms"
    and inv: "recv_inv ms s" and c: "curr_expected_len s = None"
  shows "turn_ok ms ev (header_turn alloc ev s)"
proof -
  let ?g = "partial_header_len s"
  have hd: "at_header ms s" "tot_msgs s < length (slots s)" "received ms s" using inv c by (simp_all add: recv_inv_def)
  then have g: "?g < 4" "length (len_buf s) = 4" by (simp_all add: at_header_def)
  obtain res st where tr: "try_read ev (4 - ?g) (stream s) = (res, st)" by (cases "try_read ev (4 - ?g) (stream s)")
  consider "res = None" | e where "res = Some (Inl e)" | "res = Some (Inr [])"
    | bs where "res = Some (Inr bs)" "bs \<noteq> []"
    by (metis option.exhaust sum.exhaust)
  then show ?thesis
  proof cases
    case 1
    then have "st = stream s" using tr by (simp add: try_read_none)
    then have "header_turn alloc ev s =
        (if 0 < tot_msgs s then (Return (Inr (tot_msgs s)), s) else (Next_readable, s))"
      using 1 tr g by (simp add: header_turn_def Let_def)
    then show ?thesis using inv hd g by (simp add: turn_ok_def returned_def at_header_def)
  next
    case 2
    then have "\<exists>m. ev = Read_error m \<and> e = Err [m]" using tr by (simp add: try_read_err)
    with 2 tr g show ?thesis by (auto simp: header_turn_def turn_ok_def Let_def)
  next
    case 3
    with tr g try_read_eof [of ev "4 - ?g" "stream s" st] show ?thesis by (simp add: header_turn_def turn_ok_def Let_def)
  next
    case 4
    show ?thesis by (rule header_bytes_ok [OF alloc ms inv c tr [unfolded 4(1)] 4(2)])
  qed
qed

lemma body_bytes_ok:
  assumes inv: "recv_inv ms s" and c: "curr_expected_len s = Some k"
    and tr: "try_read ev (length (ms ! tot_msgs s) - k) (stream s) = (Some (Inr bs), st)" and ne: "bs \<noteq> []"
  shows "turn_ok ms ev (body_turn ev k s)"
proof -
  let ?t = "tot_msgs s"
  let ?k = "k + length bs" and ?m = "ms ! ?t" and ?rest = "frames (drop (Suc ?t) ms)"
  have bd: "at_body ms k s" "?t < length (slots s)" "received ms s" using inv c by (simp_all add: recv_inv_def)
  obtain v where v: "slots s ! ?t = Some v" "length (content v) = length ?m" "take k (content v) = take k ?m"
    using bd(1) by (auto simp: at_body_def)
  have k: "k < length ?m" "?t < length ms" and str: "stream s = drop k ?m @ ?rest"
    using bd(1) by (simp_all add: at_body_def)
  note b = try_read_bytes [OF tr ne]
  let ?c = "take k (content v) @ bs @ drop ?k (content v)"
  have le: "?k \<le> length ?m" using b k by linarith
  have "bs @ st = drop k ?m @ ?rest" using b str by simp
  with v le have c1: "length ?c = length ?m" "take ?k ?c = take ?k ?m" and st: "st = drop ?k ?m @ ?rest"
    using read_piece [of k "content v" ?m bs st ?rest] by simp_all
  let ?s1 = "s\<lparr>stream := st, slots := (slots s)[?t := Some (v\<lparr>content := ?c\<rparr>)]\<rparr>"
  show ?thesis
  proof (cases "?k < length ?m")
    case True
    then have "body_turn ev k s = (Next_readable, ?s1\<lparr>curr_expected_len := Some ?k\<rparr>)"
      using tr ne k v by (simp add: body_turn_def Let_def)
    moreover have "recv_inv ms (?s1\<lparr>curr_expected_len := Some ?k\<rparr>)"
      using bd k c1 True st by (simp add: recv_inv_def received_def at_body_def)
    ultimately show ?thesis by (simp add: turn_ok_def)
  next
    case False
    then have "?k = length ?m" using le by simp
    then have cm: "?c = ?m" "st = ?rest" using c1 st by simp_all
    let ?s2 = "?s1\<lparr>curr_expected_len := None, tot_msgs := ?t + 1\<rparr>"
    have eq: "body_turn ev k s =
        (if ?t + 1 = length (slots s) then (Return (Inr (length (slots s))), ?s2) else (Next_msg, ?s2))"
      using tr ne k v False by (simp add: body_turn_def Let_def)
    have rc: "received ms ?s2" using bd(2,3) k(2) cm(1) by (auto simp: received_def less_Suc_eq)
    have hd: "at_header ms ?s2" using bd(1) cm(2) by (simp add: at_header_def at_body_def)
    have "partial_header_len s = 0" using bd(1) by (simp add: at_body_def)
    then show ?thesis using eq rc hd bd(2) cm(2) by (auto simp: turn_ok_def returned_def recv_inv_def)
  qed
qed

lemma body_turn_ok:
  assumes inv: "recv_inv ms s" and c: "curr_expected_len s = Some k"
  shows "turn_ok ms ev (body_turn ev k s)"
proof -
  let ?room = "length (ms ! tot_msgs s) - k"
  have bd: "at_body ms k s" using inv c by (simp add: recv_inv_def)
  then obtain v where v: "slots s ! tot_msgs s = Some v" "length (content v) = length (ms ! tot_msgs s)"
    by (auto simp: at_body_def)
  have k: "k < length (ms ! tot_msgs s)" and str: "stream s \<noteq> []" using bd by (auto simp: at_body_def)
  obtain res st where tr: "try_read ev ?room (stream s) = (res, st)" by (cases "try_read ev ?room (stream s)")
  consider "res = None" | e where "res = Some (Inl e)" | bs where "res = Some (Inr bs)"
    by (metis option.exhaust sum.exhaust)
  then show ?thesis
  proof cases
    case 1
    then have "st = stream s" using tr by (simp add: try_read_none)
    then have "body_turn ev k s = (Next_readable, s)" using 1 tr k v by (simp add: body_turn_def)
    then show ?thesis using inv by (simp add: turn_ok_def)
  next
    case 2
    then have "\<exists>m. ev = Read_error m \<and> e = Err [m]" using tr by (simp add: try_read_err)
    with 2 tr k v show ?thesis by (auto simp: body_turn_def turn_ok_def)
  next
    case 3
    moreover have "bs \<noteq> []" using try_read_eof [of ev ?room "stream s" st] tr 3 k str by auto
    ultimately show ?thesis using body_bytes_ok [OF inv c] tr by simp
  qed
qed

lemma tcp_turn_ok:
  assumes "\<And>c n. n \<le> alloc c n" and "list_all sendable ms" and "recv_inv ms s"
  shows "turn_ok ms ev (tcp_turn alloc ev s)"
  using header_turn_ok [OF assms] body_turn_ok [OF assms(3)] by (simp add: tcp_turn_def split: option.split)

lemma recv_loop_ok:
  "\<forall>c n. n \<le> alloc c n \<Longrightarrow> list_all sendable ms \<Longrightarrow> recv_inv ms s \<Longrightarrow>
   recv_loop alloc at_readable rs evs s = (r, s') \<Longrightarrow>
   (\<forall>n. r = Some (Inr n) \<longrightarrow> returned ms n s') \<and> (\<forall>e. r = Some (Inl e) \<longrightarrow> \<not> is_panic e)"
proof (induction alloc at_readable rs evs s rule: recv_loop.induct)
  case (5 alloc rs ev evs s)
  obtain t s1 where t: "tcp_turn alloc ev s = (t, s1)" by (cases "tcp_turn alloc ev s")
  have ok: "turn_ok ms ev (t, s1)" using tcp_turn_ok [of alloc ms s ev] "5.prems" t by simp
  show ?case
  proof (cases t)
    case (Return x)
    with "5.prems"(4) t ok show ?thesis by (cases x) (auto simp: turn_ok_def)
  next
    case Next_msg
    with "5.prems" t ok show ?thesis using "5.IH"(1) [of t s1] by (simp add: turn_ok_def)
  next
    case Next_readable
    with "5.prems" t ok show ?thesis using "5.IH"(2) [of t s1] by (simp add: turn_ok_def)
  qed
qed auto

lemma tcp_turn_length: "tcp_turn alloc ev s = (t, s1) \<Longrightarrow> length (slots s1) = length (slots s)"
  by (auto simp: tcp_turn_def header_turn_def body_turn_def start_msg_def Let_def
      split: option.splits prod.splits sum.splits if_splits)

lemma recv_loop_length: "recv_loop alloc at_readable rs evs s = (r, s') \<Longrightarrow> length (slots s') = length (slots s)"
  by (induction alloc at_readable rs evs s rule: recv_loop.induct)
     (auto dest: tcp_turn_length split: prod.splits turn.splits)

lemma recv_inv_init:
  "msgs_buf \<noteq> [] \<Longrightarrow> list_all roomy msgs_buf \<Longrightarrow> recv_inv ms (tcp_recv_init msgs_buf (frames ms))"
  by (auto simp: recv_inv_def tcp_recv_init_def received_def at_header_def list_all_length)

text \<open>A socket that has bytes as long as there are any left: every turn reads some, or the receive returns.\<close>

lemma frames_drop_Nil: "drop g (frames (drop n ms)) = [] \<Longrightarrow> g < 4 \<Longrightarrow> length ms \<le> n"
  using frames_drop [of n ms] by (metis drop_eq_Nil length_append length_len_buf_of le_add1 not_le order_trans)

lemma start_msg_cases:
  assumes "start_msg alloc s = (t, s1)"
  shows "(t = Next_msg \<or> (\<exists>e. t = Return (Inl e))) \<and> stream s1 = stream s"
  using assms by (auto simp: start_msg_def Let_def split: sum.splits if_splits)

lemma header_turn_bytes:
  assumes "try_read ev (length (len_buf s) - partial_header_len s) (stream s) = (Some (Inr bs), st)" and "bs \<noteq> []"
    and "partial_header_len s < length (len_buf s)"
  obtains s1 where "stream s1 = st" "header_turn alloc ev s \<in> {(Next_readable, s1), start_msg alloc s1}"
proof -
  let ?s1 = "s\<lparr>stream := st, partial_header_len := partial_header_len s + length bs,
    len_buf := take (partial_header_len s) (len_buf s) @ bs @ drop (partial_header_len s + length bs) (len_buf s)\<rparr>"
  show ?thesis by (rule that [of ?s1]) (use assms in \<open>simp_all add: header_turn_def Let_def\<close>)
qed

lemma available_turn:
  assumes inv: "recv_inv ms s" and ms: "ms \<noteq> []" and t: "tcp_turn alloc (Available k) s = (t, s1)"
  shows "(t = Next_msg \<or> t = Next_readable) \<and> length (stream s1) < length (stream s)
       \<or> (\<exists>r. t = Return r \<and> (\<forall>n. r = Inr n \<longrightarrow> n = length (slots s1) \<or> stream s1 = []))"
proof (cases "curr_expected_len s")
  case None
  then have hd: "at_header ms s" using inv by (simp add: recv_inv_def)
  show ?thesis
  proof (cases "stream s = []")
    case True
    then have "0 < tot_msgs s" using hd frames_drop_Nil [of "partial_header_len s" "tot_msgs s" ms] ms
      by (cases ms) (auto simp: at_header_def)
    then show ?thesis using t None True hd by (auto simp: tcp_turn_def header_turn_def at_header_def)
  next
    case False
    let ?n = "min (Suc k) (length (len_buf s) - partial_header_len s)"
    have n: "0 < ?n" "partial_header_len s < length (len_buf s)" using hd by (simp_all add: at_header_def)
    obtain s2 where "stream s2 = drop ?n (stream s)" "header_turn alloc (Available k) s \<in> {(Next_readable, s2), start_msg alloc s2}"
      by (rule header_turn_bytes [of "Available k" s "take ?n (stream s)" "drop ?n (stream s)" alloc])
         (use False n in simp_all)
    moreover have "length (drop ?n (stream s)) < length (stream s)" using False n(1) by simp
    ultimately show ?thesis using t None start_msg_cases [of alloc s2 t s1] by (auto simp: tcp_turn_def)
  qed
next
  case (Some so_far)
  then have "at_body ms so_far s" using inv by (simp add: recv_inv_def)
  then show ?thesis using t Some
    by (auto simp: tcp_turn_def body_turn_def at_body_def Let_def split: if_splits)
qed

lemma recv_loop_available:
  "\<forall>c n. n \<le> alloc c n \<Longrightarrow> list_all sendable ms \<Longrightarrow> ms \<noteq> [] \<Longrightarrow> recv_inv ms s \<Longrightarrow>
   (\<forall>x \<in> set rs. x = None) \<Longrightarrow> (\<forall>ev \<in> set evs. \<exists>k. ev = Available k) \<Longrightarrow>
   length (stream s) < length evs \<Longrightarrow> length (stream s) + (if at_readable then 1 else 0) \<le> length rs \<Longrightarrow>
   \<exists>n s'. recv_loop alloc at_readable rs evs s = (Some (Inr n), s') \<and> (n = length (slots s') \<or> stream s' = [])"
proof (induction alloc at_readable rs evs s rule: recv_loop.induct)
  case (5 alloc rs ev evs s)
  obtain t s1 where t: "tcp_turn alloc ev s = (t, s1)" by (cases "tcp_turn alloc ev s")
  obtain k where k: "ev = Available k" using "5.prems"(6) by auto
  have ok: "turn_ok ms ev (t, s1)" using tcp_turn_ok [of alloc ms s ev] "5.prems" t by simp
  note av = available_turn [OF "5.prems"(4,3) t [unfolded k]]
  show ?case
  proof (cases t)
    case (Return x)
    with ok k obtain n where "x = Inr n" by (cases x) (auto simp: turn_ok_def)
    with Return t av show ?thesis by auto
  next
    case Next_msg
    with "5.prems" t ok av show ?thesis using "5.IH"(1) [of t s1] by (auto simp: turn_ok_def)
  next
    case Next_readable
    with "5.prems" t ok av show ?thesis using "5.IH"(2) [of t s1] by (auto simp: turn_ok_def)
  qed
qed auto

section \<open>Addresses on top\<close>

text \<open>
  \<open>IgnoreAddr\<close> drops the addresses of what it sends and gives the peer's address to what it receives;
  the connection below gets the payloads of the occupied slots as its buffers. \<open>Connect\<close> replaces the
  addresses in both directions.
\<close>

definition ignore_addr_send :: "('a \<times> 'd) list \<Rightarrow> 'd list" where
  "ignore_addr_send burst = map snd burst"

definition ignore_addr_recv ::
  "'a \<Rightarrow> ('d option list \<Rightarrow> 'd option list result option) \<Rightarrow> ('a \<times> 'd) option list
     \<Rightarrow> (('a \<times> 'd) option list result \<times> ('a \<times> 'd) option list) option" where
  "ignore_addr_recv addr inner msgs_buf =
     (let with_addr_slots = map (map_option snd) msgs_buf; emptied = replicate (length msgs_buf) None in
      map_option (\<lambda>r. case r of
          Inl e \<Rightarrow> (Inl e, emptied)
        | Inr ms \<Rightarrow>
            (let out = take (length msgs_buf) (map_while_take ms);
                 msgs_buf1 = map (\<lambda>m. Some (addr, m)) out @ drop (length out) emptied in
             (Inr (take (length out) msgs_buf1), msgs_buf1)))
        (inner with_addr_slots))"

definition connect_send :: "'a \<Rightarrow> ('a \<times> 'd) list \<Rightarrow> ('a \<times> 'd) list" where
  "connect_send addr burst = map (\<lambda>(_, data). (addr, data)) burst"

fun readdress :: "'a \<Rightarrow> ('a \<times> 'd) option list \<Rightarrow> ('a \<times> 'd) option list" where
  "readdress addr (Some (_, d) # ms) = Some (addr, d) # readdress addr ms"
| "readdress addr ms = ms"

definition connect_recv :: "'a \<Rightarrow> ('a \<times> 'd) option list result option \<Rightarrow> ('a \<times> 'd) option list result option" where
  "connect_recv addr inner = map_option (\<lambda>r. res_bind r (\<lambda>msgs. Inr (readdress addr msgs))) inner"

lemma ignore_addr_recv_all:
  assumes "inner (map (map_option snd) msgs_buf) = Some (Inr (map Some ds))" and "length ds \<le> length msgs_buf"
  shows "\<exists>buf. ignore_addr_recv addr inner msgs_buf = Some (Inr (map (\<lambda>d. Some (addr, d)) ds), buf)"
  using assms map_while_take_Some [of ds 0] by (simp add: ignore_addr_recv_def Let_def)

lemma readdress_taken: "map_while_take (readdress addr ms) = map (\<lambda>(_, d). (addr, d)) (map_while_take ms)"
  by (induction addr ms rule: readdress.induct) auto

section \<open>Handing accepted connections to their peers\<close>

text \<open>
  \<open>TcpChunnelWrapServer\<close>: its clones share the listening socket, behind a lock, and the connections
  that were accepted for somebody else. \<open>backlog\<close> are the connections the socket will accept next, each
  with its peer. A task is at the lock, in the loop, or done.
\<close>

datatype ('p, 'c) wrap_point =
    Not_started
  | Wait_lock 'p
  | Accepting 'p
  | Wrapped 'p 'c
  | Wrap_failed failure

record ('t, 'p, 'c) wrap_server =
  listen_addr :: 'p
  cached_conns :: "'p \<rightharpoonup> 'c"
  backlog :: "('p \<times> 'c) list"
  lock_held :: bool
  tasks :: "'t \<Rightarrow> ('p, 'c) wrap_point"

definition wrap_new :: "'p \<Rightarrow> ('t, 'p, 'c) wrap_server" where
  "wrap_new a = \<lparr>listen_addr = a, cached_conns = Map.empty, backlog = [], lock_held = False, tasks = \<lambda>_. Not_started\<rparr>"

definition task_goes :: "'t \<Rightarrow> ('p, 'c) wrap_point \<Rightarrow> ('t, 'p, 'c) wrap_server \<Rightarrow> ('t, 'p, 'c) wrap_server" where
  "task_goes t p s = s\<lparr>tasks := (tasks s)(t := p)\<rparr>"

definition wrap_start :: "'t \<Rightarrow> 'p \<Rightarrow> 'p option \<Rightarrow> ('t, 'p, 'c) wrap_server \<Rightarrow> ('t, 'p, 'c) wrap_server" where
  "wrap_start t local peer s =
     (if local \<noteq> listen_addr s then task_goes t (Wrap_failed (Err [''TcpChunnelWrapServer: local address mismatched''])) s
      else
        (case peer of
           None \<Rightarrow> task_goes t (Wrap_failed (Err [''TcpChunnelWrapServer: no peer address for inner connection''])) s
         | Some p \<Rightarrow>
             (case cached_conns s p of
                Some c \<Rightarrow> task_goes t (Wrapped p c) (s\<lparr>cached_conns := (cached_conns s)(p := None)\<rparr>)
              | None \<Rightarrow> task_goes t (Wait_lock p) s)))"

definition wrap_lock :: "'t \<Rightarrow> 'p \<Rightarrow> ('t, 'p, 'c) wrap_server \<Rightarrow> ('t, 'p, 'c) wrap_server" where
  "wrap_lock t p s = task_goes t (Accepting p) (s\<lparr>lock_held := True\<rparr>)"

text \<open>
  A turn of the loop: \<open>try_next\<close> gives an error or the next connection; asking that for its peer panics if
  the peer is gone.
\<close>

definition wrap_accept_fails :: "'t \<Rightarrow> failure \<Rightarrow> ('t, 'p, 'c) wrap_server \<Rightarrow> ('t, 'p, 'c) wrap_server" where
  "wrap_accept_fails t e s = task_goes t (Wrap_failed e) (s\<lparr>lock_held := False\<rparr>)"

fun wrap_accept :: "'t \<Rightarrow> 'p \<Rightarrow> 'p \<times> 'c \<Rightarrow> ('t, 'p, 'c) wrap_server \<Rightarrow> ('t, 'p, 'c) wrap_server" where
  "wrap_accept t p (peer, cn) s =
     (if peer = p then task_goes t (Wrapped p cn) (s\<lparr>lock_held := False\<rparr>)
      else s\<lparr>cached_conns := (cached_conns s)(peer \<mapsto> cn)\<rparr>)"

inductive wrap_step :: "('p \<times> 'c) set \<times> ('t, 'p, 'c) wrap_server \<Rightarrow> ('p \<times> 'c) set \<times> ('t, 'p, 'c) wrap_server \<Rightarrow> bool" where
  arrival: "\<forall>p'. (p', c) \<notin> A \<Longrightarrow> wrap_step (A, s) (insert (p, c) A, s\<lparr>backlog := backlog s @ [(p, c)]\<rparr>)"
| start: "tasks s t = Not_started \<Longrightarrow> wrap_step (A, s) (A, wrap_start t local peer s)"
| lock: "tasks s t = Wait_lock p \<Longrightarrow> \<not> lock_held s \<Longrightarrow> wrap_step (A, s) (A, wrap_lock t p s)"
| accept: "tasks s t = Accepting p \<Longrightarrow> backlog s = cn # rest \<Longrightarrow>
     wrap_step (A, s) (A, wrap_accept t p cn (s\<lparr>backlog := rest\<rparr>))"
| accept_fails: "tasks s t = Accepting p \<Longrightarrow> wrap_step (A, s) (A, wrap_accept_fails t (Err [e]) s)"
| peer_gone: "tasks s t = Accepting p \<Longrightarrow> backlog s = cn # rest \<Longrightarrow>
     wrap_step (A, s) (A, wrap_accept_fails t (Panic ''called unwrap on an Err value'') (s\<lparr>backlog := rest\<rparr>))"

inductive wrap_reachable :: "('p \<times> 'c) set \<times> ('t, 'p, 'c) wrap_server \<Rightarrow> bool" where
  init: "wrap_reachable ({}, wrap_new a)"
| step: "wrap_reachable x \<Longrightarrow> wrap_step x y \<Longrightarrow> wrap_reachable y"

text \<open>
  A connection is in at most one place: waiting to be accepted, cached for its peer, or with the task
  that asked for its peer.
\<close>

definition wrap_inv :: "('p \<times> 'c) set \<times> ('t, 'p, 'c) wrap_server \<Rightarrow> bool" where
  "wrap_inv x =
     (case x of (A, s) \<Rightarrow>
        (\<forall>p p' c. (p, c) \<in> A \<longrightarrow> (p', c) \<in> A \<longrightarrow> p = p')
      \<and> set (backlog s) \<subseteq> A \<and> distinct (map snd (backlog s))
      \<and> (\<forall>p c. cached_conns s p = Some c \<longrightarrow> (p, c) \<in> A \<and> (p, c) \<notin> set (backlog s))
      \<and> (\<forall>t p c. tasks s t = Wrapped p c \<longrightarrow> (p, c) \<in> A \<and> (p, c) \<notin> set (backlog s) \<and> cached_conns s p \<noteq> Some c)
      \<and> (\<forall>t t' p p' c. tasks s t = Wrapped p c \<longrightarrow> tasks s t' = Wrapped p' c \<longrightarrow> t = t'))"

lemma task_goes_simps [simp]:
  "tasks (task_goes t p s) = (tasks s)(t := p)" "backlog (task_goes t p s) = backlog s"
  "cached_conns (task_goes t p s) = cached_conns s"
  by (simp_all add: task_goes_def)

lemma wrap_invD:
  assumes "wrap_inv (A, s)"
  shows "(p, c) \<in> A \<Longrightarrow> (p', c) \<in> A \<Longrightarrow> p = p'"
    "(p, c) \<in> set (backlog s) \<Longrightarrow> (p, c) \<in> A"
    "cached_conns s p = Some c \<Longrightarrow> (p, c) \<in> A \<and> (p, c) \<notin> set (backlog s)"
    "tasks s t = Wrapped p c \<Longrightarrow> (p, c) \<in> A \<and> (p, c) \<notin> set (backlog s) \<and> cached_conns s p \<noteq> Some c"
    "tasks s t = Wrapped p c \<Longrightarrow> tasks s t' = Wrapped p' c \<Longrightarrow> t = t'"
  using assms unfolding wrap_inv_def by blast+

lemma wrap_inv_goes:
  "wrap_inv (A, s) \<Longrightarrow> (\<forall>p c. x \<noteq> Wrapped p c) \<Longrightarrow> wrap_inv (A, task_goes t x s)"
  "wrap_inv (A, s\<lparr>lock_held := b\<rparr>) = wrap_inv (A, s)"
  by (auto simp: wrap_inv_def)

lemma wrap_inv_drop: "wrap_inv (A, s) \<Longrightarrow> backlog s = cn # rest \<Longrightarrow> wrap_inv (A, s\<lparr>backlog := rest\<rparr>)"
  by (auto simp: wrap_inv_def)

lemma wrap_inv_takes:
  assumes "wrap_inv (A, s)" and "(p, c) \<in> A" "(p, c) \<notin> set (backlog s)" "\<And>p'. cached_conns s p' \<noteq> Some c"
    "\<And>t' p'. tasks s t' \<noteq> Wrapped p' c"
  shows "wrap_inv (A, task_goes t (Wrapped p c) s)"
  using assms by (auto simp: wrap_inv_def)

lemma wrap_start_inv:
  assumes inv: "wrap_inv (A, s)"
  shows "wrap_inv (A, wrap_start t local peer s)"
proof (cases "local = listen_addr s \<and> (\<exists>p c. peer = Some p \<and> cached_conns s p = Some c)")
  case True
  then obtain p c where pc: "local = listen_addr s" "peer = Some p" "cached_conns s p = Some c" by blast
  let ?s = "s\<lparr>cached_conns := (cached_conns s)(p := None)\<rparr>"
  have "wrap_inv (A, ?s)" using inv by (auto simp: wrap_inv_def)
  moreover have "(p, c) \<in> A" "(p, c) \<notin> set (backlog s)" using inv pc(3) by (auto simp: wrap_inv_def)
  moreover have "cached_conns ?s p' \<noteq> Some c" "tasks s t' \<noteq> Wrapped p' c" for p' t'
    using wrap_invD(3) [OF inv pc(3)] wrap_invD(3) [OF inv, of p' c] wrap_invD(4) [OF inv, of t' p' c] wrap_invD(1) [OF inv, of p c p'] pc(3)
    by auto
  ultimately have "wrap_inv (A, task_goes t (Wrapped p c) ?s)" by (intro wrap_inv_takes) simp_all
  then show ?thesis using pc by (simp add: wrap_start_def)
next
  case False
  then show ?thesis using inv by (auto simp: wrap_start_def wrap_inv_goes split: option.split)
qed

lemma wrap_accept_inv:
  assumes inv: "wrap_inv (A, s)" and b: "backlog s = (peer, c) # rest"
  shows "wrap_inv (A, wrap_accept t p (peer, c) (s\<lparr>backlog := rest\<rparr>))"
proof -
  have d: "wrap_inv (A, s\<lparr>backlog := rest\<rparr>)" by (rule wrap_inv_drop [OF inv b])
  have "c \<notin> snd ` set rest" and cA: "(peer, c) \<in> A" using inv b by (simp_all add: wrap_inv_def)
  then have c: "(p', c) \<notin> set rest" for p' by force
  have fresh: "cached_conns s p' \<noteq> Some c" "tasks s t' \<noteq> Wrapped p' c" for p' t'
    using wrap_invD(2) [OF inv, of peer c] wrap_invD(3) [OF inv, of p' c] wrap_invD(4) [OF inv, of t' p' c]
      wrap_invD(1) [OF inv, of peer c p'] b
    by auto
  show ?thesis
  proof (cases "peer = p")
    case True
    have "wrap_inv (A, s\<lparr>backlog := rest, lock_held := False\<rparr>)" using d by (simp add: wrap_inv_goes)
    then show ?thesis using True wrap_inv_takes [of A "s\<lparr>backlog := rest, lock_held := False\<rparr>" p c t] c cA fresh by simp
  next
    case False
    then show ?thesis using d c cA fresh by (fastforce simp: wrap_inv_def)
  qed
qed

lemma wrap_step_inv: "wrap_step x y \<Longrightarrow> wrap_inv x \<Longrightarrow> wrap_inv y"
proof (induction rule: wrap_step.induct)
  case (arrival c A s p)
  note D = wrap_invD [OF arrival.prems]
  have "c \<notin> snd ` set (backlog s)" "\<And>q. cached_conns s q \<noteq> Some c" "\<And>t q. tasks s t \<noteq> Wrapped q c"
    using arrival.hyps D(2-4) by fastforce+
  then show ?case using arrival by (auto simp: wrap_inv_def)
next
  case (accept s t p cn rest A)
  then show ?case by (cases cn) (simp only: wrap_accept_inv)
next
  case (peer_gone s t p cn rest A)
  then show ?case using wrap_inv_drop [of A s cn rest] by (simp add: wrap_accept_fails_def wrap_inv_goes)
qed (simp_all add: wrap_start_inv wrap_lock_def wrap_accept_fails_def wrap_inv_goes)

lemma wrap_reachable_inv: "wrap_reachable x \<Longrightarrow> wrap_inv x"
proof (induction rule: wrap_reachable.induct)
  case (init a)
  show ?case by (simp add: wrap_inv_def wrap_new_def)
qed (rule wrap_step_inv)

section \<open>Properties\<close>


text \<open>
  C16: A receive completes. While bytes are there whenever the receive asks, one event per byte on the wire
  is enough for it to return, and it returns as many of the messages as it has slots for.
\<close>

theorem tcp_recv_completes:
  assumes alloc: "\<forall>c n. n \<le> alloc c n" and ms: "list_all sendable ms" "ms \<noteq> []"
    and buf: "msgs_buf \<noteq> []" "list_all roomy msgs_buf"
    and rs: "\<forall>x \<in> set rs. x = None" "length (concat (map frame ms)) < length rs"
    and evs: "\<forall>ev \<in> set evs. \<exists>k. ev = Available k" "length (concat (map frame ms)) < length evs"
  shows "\<exists>s. tcp_recv alloc msgs_buf rs evs (concat (map frame ms)) = (Some (Inr (min (length ms) (length msgs_buf))), s)
       \<and> map (map_option content) (take (length ms) (slots s)) = map Some (take (length msgs_buf) ms)"
proof -
  let ?s0 = "tcp_recv_init msgs_buf (frames ms)"
  have inv: "recv_inv ms ?s0" by (rule recv_inv_init [OF buf])
  have str: "length (stream ?s0) < length evs" "length (stream ?s0) + (if True then 1 else 0) \<le> length rs"
    using rs(2) evs(2) by (simp_all add: tcp_recv_init_def frames_def)
  obtain n s where r: "recv_loop alloc True rs evs ?s0 = (Some (Inr n), s)" "n = length (slots s) \<or> stream s = []"
    using recv_loop_available [OF alloc ms inv rs(1) evs(1) str] by blast
  have ret: "returned ms n s" using recv_loop_ok [OF alloc ms(1) inv r(1)] by simp
  then have le: "n \<le> length ms" "n \<le> length (slots s)" by (simp_all add: returned_def received_def)
  have len: "length (slots s) = length msgs_buf" using recv_loop_length [OF r(1)] by (simp add: tcp_recv_init_def)
  have "stream s = drop (partial_header_len s) (frames (drop n ms))" "partial_header_len s < 4"
    using ret unfolding returned_def by blast+
  then have "stream s = [] \<longrightarrow> length ms \<le> n" by (metis frames_drop_Nil)
  with r(2) have "n = length (slots s) \<or> length ms \<le> n" by blast
  then have n: "n = min (length ms) (length msgs_buf)" using le unfolding len by linarith
  have "\<forall>i < n. map_option content (slots s ! i) = Some (ms ! i)"
    using ret unfolding returned_def received_def by blast
  then have "map_option content (slots s ! i) = Some (ms ! i)" if "i < length ms" "i < length msgs_buf" for i
    using n that by simp
  then have "map (map_option content) (take (length ms) (slots s)) = map Some (take (length msgs_buf) ms)"
    using len by (simp add: list_eq_iff_nth_eq)
  then show ?thesis using r(1) n by (simp add: tcp_recv_def frames_def)
qed

text \<open>
  Accepted connections reach their peers. However the tasks of a \<open>TcpChunnelWrapServer\<close> interleave, a
  task gets a connection that came from the peer it asked for, and no two tasks get the same one.
\<close>

lemma wrap_hands_to_peer:
  assumes "wrap_reachable (A, s)" and "tasks s t = Wrapped p c"
  shows "(p, c) \<in> A \<and> (\<forall>t' p'. tasks s t' = Wrapped p' c \<longrightarrow> t' = t \<and> p' = p)"
proof -
  have inv: "wrap_inv (A, s)" by (rule wrap_reachable_inv) (rule assms)
  have "t' = t" if "tasks s t' = Wrapped p' c" for t' p' by (rule wrap_invD(5) [OF inv that assms(2)])
  with wrap_invD(4) [OF inv assms(2)] assms(2) show ?thesis by (metis wrap_point.inject(3))
qed

section \<open>Examples\<close>

text \<open>Two messages through a socket that moves a few bytes at a time.\<close>

definition ex_ms :: "bytes list" where
  "ex_ms = [[7, 8], [9]]"

definition ex_wire :: bytes where
  "ex_wire = [0, 0, 0, 2, 7, 8, 0, 0, 0, 1, 9]"

lemma ex_sent: "tcp_send ex_ms [Accepts 3, Write_blocks, Accepts 9, Accepts 9, Accepts 4, Accepts 1] = (ex_wire, Some (Inr ()), [])"
  by code_simp

lemma ex_ms_ok: "list_all sendable ex_ms" "ex_ms \<noteq> []"
  by code_simp+

lemma ex_frames: "concat (map frame ex_ms) = ex_wire"
  by code_simp

definition ex_run :: "read_event list \<Rightarrow> nat result option \<times> recv_state" where
  "ex_run evs = tcp_recv (\<lambda>_ n. n) [None, None, None] (replicate 12 None) evs ex_wire"

lemma ex_run_value:
  "fst (ex_run [Available 2, Available 2, Blocks, Available 5, Available 3, Available 0, Blocks]) = Some (Inr 2)"
  by code_simp


theorem tcp_recv_completes_witness:
  "\<exists>s. tcp_recv (\<lambda>_ n. n) [None] (replicate 20 None) (replicate 20 (Available 0)) (concat (map frame ex_ms))
       = (Some (Inr (min (length ex_ms) (length [None :: vec option]))), s)
     \<and> map (map_option content) (take (length ex_ms) (slots s)) = map Some (take (length [None :: vec option]) ex_ms)"
  by (rule tcp_recv_completes [OF _ ex_ms_ok])
     (auto simp: roomy_def ex_frames ex_wire_def)

definition ex_wrap :: "(nat, nat, nat) wrap_server" where
  "ex_wrap = wrap_accept 0 7 (7, 70) (wrap_lock 0 7 (wrap_start 0 1 (Some 7) (wrap_new 1)))"

lemma ex_wrap_reachable: "wrap_reachable ({(7, 70)}, ex_wrap)"
proof -
  let ?s1 = "wrap_lock 0 7 (wrap_start 0 1 (Some 7) (wrap_new 1 :: (nat, nat, nat) wrap_server))"
  have "wrap_reachable ({}, wrap_start 0 1 (Some 7) (wrap_new 1 :: (nat, nat, nat) wrap_server))"
    by (rule wrap_reachable.step [OF wrap_reachable.init wrap_step.start]) (simp add: wrap_new_def)
  then have "wrap_reachable ({} :: (nat \<times> nat) set, ?s1)"
    by (rule wrap_reachable.step [OF _ wrap_step.lock]) (simp_all add: wrap_start_def wrap_new_def task_goes_def)
  then have "wrap_reachable ({(7, 70)}, ?s1\<lparr>backlog := [(7, 70)]\<rparr>)"
    using wrap_step.arrival [of 70 "{}" ?s1 7]
    by (auto simp: wrap_lock_def wrap_start_def wrap_new_def task_goes_def intro: wrap_reachable.step)
  then have "wrap_reachable ({(7, 70)}, wrap_accept 0 7 (7, 70) (?s1\<lparr>backlog := [(7, 70)], backlog := []\<rparr>))"
    by (rule wrap_reachable.step [OF _ wrap_step.accept])
       (simp_all add: wrap_lock_def wrap_start_def wrap_new_def task_goes_def)
  then show ?thesis by (simp add: ex_wrap_def wrap_lock_def wrap_start_def wrap_new_def task_goes_def)
qed

lemma wrap_hands_to_peer_example: "tasks ex_wrap 0 = Wrapped 7 70 \<and> tasks ex_wrap 1 \<noteq> Wrapped 7 70"
proof -
  have w: "tasks ex_wrap 0 = Wrapped 7 70" by code_simp
  have "\<forall>t' p'. tasks ex_wrap t' = Wrapped p' 70 \<longrightarrow> t' = 0 \<and> p' = 7"
    using wrap_hands_to_peer [OF ex_wrap_reachable w] by (rule conjunct2)
  with w show ?thesis by (metis zero_neq_one)
qed

section \<open>What goes wrong\<close>

text \<open>
  A receive that has a message and part of the next header when the socket has nothing more returns, and
  the part of the header is lost: the next receive takes bytes of the message for its length.
\<close>

lemma partial_header_lost:
  "let (r, s) = tcp_recv (\<lambda>_ n. n) [None, None] [None, None] [Available 3, Available 1, Available 0, Blocks] ex_wire;
       (r', s') = tcp_recv (\<lambda>_ n. n) [None, None] [None] [Available 3] (stream s)
   in r = Some (Inr 1) \<and> partial_header_len s = 1 \<and> r' = None \<and> map_option (length \<circ> content) (slots s' ! 0) = Some 265"
  by code_simp

text \<open>A buffer with free capacity may be grown too little, and is then written beyond its capacity.\<close>

lemma reserve_too_small:
  "fst (tcp_recv (\<lambda>_ n. n) [Some \<lparr>capacity = 4, content = []\<rparr>] [None] [Available 3] (frame [1, 2, 3, 4, 5, 6]))
   = Some (Inl (Panic ''undefined behaviour: set_len beyond the capacity''))"
  by code_simp

text \<open>A peer that closes inside a message panics the receiver, and empty messages are sent but refused.\<close>

lemma closed_in_message_panics:
  "fst (tcp_recv (\<lambda>_ n. n) [None] [None] [Available 3, Closed] (len_buf_of [1, 2])) = Some (Inl (Panic ''unreachable''))"
  by code_simp

lemma empty_message_refused:
  "tcp_send [[]] [Accepts 4, Accepts 1] = ([0, 0, 0, 0], Some (Inr ()), [])"
  "fst (tcp_recv (\<lambda>_ n. n) [None] [None] [Available 3] [0, 0, 0, 0]) = Some (eyre ''invalid message length'')"
  by code_simp+

text \<open>
  A task that waits for the lock while its connection is accepted and cached by another task does not look
  into the cache again; it waits for a second connection of its peer.
\<close>

lemma cached_while_waiting:
  "let s0 = wrap_start 1 9 (Some 8) (wrap_lock 0 7 (wrap_start 0 9 (Some 7) (wrap_new 9 :: (nat, nat, nat) wrap_server)));
       s1 = wrap_lock 1 8 (wrap_accept 0 7 (7, 70) (wrap_accept 0 7 (8, 80) s0))
   in tasks s1 0 = Wrapped 7 70 \<and> tasks s1 1 = Accepting 8 \<and> cached_conns s1 8 = Some 80"
  by code_simp

end
