(* ===== verification/Sqs.thy ===== *)
theory Sqs
  imports Prelude "HOL-Library.AList" "HOL-Library.Sublist" "HOL-Library.Multiset"
begin

text \<open>
  The SQS transport (\<open>sqs/src\<close>): \<open>send\<close> of the best-effort and of the ordered chunnel, which group a burst into
  batches of ten messages per queue, the entries of a batch with their deduplication ids, and
  \<open>do_recv_batch\<close>, which waits on one saved request per queue, deletes what it got and returns it.

  The service is a parameter: its answers to the requests are arguments. So are the order in which a
  \<open>HashMap\<close> is walked and the base64 encoding. The call counter is the sender's own. Message bodies are
  their UTF-8 bytes.
\<close>

section \<open>Addresses and batches\<close>

record sqs_addr =
  queue_id :: string
  group :: "string option"

type_synonym sqs_msg = "sqs_addr \<times> bytes"
type_synonym batches = "(string \<times> sqs_msg list) list"

text \<open>The ordered chunnel adds the suffix of a FIFO queue where it is missing.\<close>

definition fifo_name :: "bool \<Rightarrow> string \<Rightarrow> string" where
  "fifo_name fifo q = (if fifo \<and> \<not> suffix ''.fifo'' q then q @ ''.fifo'' else q)"

definition ordered_from :: "string list \<Rightarrow> string list" where
  "ordered_from urls = map (fifo_name True) urls"

fun ordered_new :: "string list \<Rightarrow> string list result" where
  "ordered_new [] = Inr []"
| "ordered_new (u # us) =
     (if suffix ''.fifo'' u then res_bind (ordered_new us) (\<lambda>vs. Inr (u # vs))
      else eyre ''OrderedSqsChunnel must use fifo queues'')"

definition batch_of :: "batches \<Rightarrow> string \<Rightarrow> sqs_msg list" where
  "batch_of p q = (case map_of p q of Some b \<Rightarrow> b | None \<Rightarrow> [])"

text \<open>The loop that pulls messages from the burst until a batch is full.\<close>

fun fill_batches :: "bool \<Rightarrow> sqs_msg list \<Rightarrow> batches \<Rightarrow> string option \<times> sqs_msg list \<times> batches" where
  "fill_batches fifo [] p = (None, [], p)"
| "fill_batches fifo ((a, body) # burst) p =
     (let q = fifo_name fifo (queue_id a);
          q_batch = batch_of p q @ [(a\<lparr>queue_id := q\<rparr>, body)];
          p1 = AList.update q q_batch p in
      if length q_batch = 10 then (Some q, burst, p1) else fill_batches fifo burst p1)"

section \<open>Sending a batch\<close>

record entry =
  message_body :: bytes
  message_group_id :: "string option"
  message_deduplication_id :: "string option"
  entry_id :: nat

text \<open>The first eight bytes of the body are sliced without a check.\<close>

definition get_dedup :: "(bytes \<Rightarrow> string) \<Rightarrow> nat \<Rightarrow> bytes \<Rightarrow> string result" where
  "get_dedup base64 ctr body =
     (if length body < 8 then Inl (Panic ''range end index out of range'')
      else Inr (show_nat ctr @ base64 (take 8 body)))"

definition batch_entry :: "bool \<Rightarrow> (bytes \<Rightarrow> string) \<Rightarrow> nat \<Rightarrow> nat \<Rightarrow> sqs_msg \<Rightarrow> entry result" where
  "batch_entry fifo base64 ctr i m =
     (if fifo
      then res_bind (get_dedup base64 (ctr + i) (snd m))
             (\<lambda>d. Inr \<lparr>message_body = snd m, message_group_id = group (fst m), message_deduplication_id = Some d, entry_id = i\<rparr>)
      else Inr \<lparr>message_body = snd m, message_group_id = None, message_deduplication_id = None, entry_id = i\<rparr>)"

fun batch_entries :: "bool \<Rightarrow> (bytes \<Rightarrow> string) \<Rightarrow> nat \<Rightarrow> nat \<Rightarrow> sqs_msg list \<Rightarrow> entry list result" where
  "batch_entries fifo base64 ctr i [] = Inr []"
| "batch_entries fifo base64 ctr i (m # ms) =
     res_bind (batch_entry fifo base64 ctr i m)
       (\<lambda>e. res_bind (batch_entries fifo base64 ctr (Suc i) ms) (\<lambda>es. Inr (e # es)))"

text \<open>
  A request is a queue and its entries. The service answers with an error or with the entries that
  failed. The result has the requests that were issued.
\<close>

type_synonym request = "string \<times> entry list"
type_synonym service = "nat \<Rightarrow> request \<Rightarrow> string list result"

definition do_send_batch ::
  "bool \<Rightarrow> (bytes \<Rightarrow> string) \<Rightarrow> service \<Rightarrow> string \<Rightarrow> nat \<Rightarrow> sqs_msg list \<Rightarrow> request list \<times> unit result" where
  "do_send_batch fifo base64 sqs qid ctr msgs =
     (case batch_entries fifo base64 ctr 0 msgs of
        Inl e \<Rightarrow> ([], Inl e)
      | Inr es \<Rightarrow>
          ([(qid, es)],
           case wrap_err ''send_message_batch'' (sqs ctr (qid, es)) of
             Inl e \<Rightarrow> Inl e
           | Inr failed \<Rightarrow>
               if failed = [] then Inr () else Inl (Err (rev failed @ [''one or more messages failed to send'']))))"

section \<open>Sending a burst\<close>

fun send_residual ::
  "bool \<Rightarrow> (bytes \<Rightarrow> string) \<Rightarrow> service \<Rightarrow> nat \<Rightarrow> batches \<Rightarrow> request list \<times> unit result \<times> nat" where
  "send_residual fifo base64 sqs ctr [] = ([], Inr (), ctr)"
| "send_residual fifo base64 sqs ctr ((qid, msgs) # p) =
     (case do_send_batch fifo base64 sqs qid ctr msgs of
        (out, Inl e) \<Rightarrow> (out, Inl e, ctr + 1)
      | (out, Inr _) \<Rightarrow>
          (case send_residual fifo base64 sqs (ctr + 1) p of (out1, r, ctr1) \<Rightarrow> (out @ out1, r, ctr1)))"

lemma fill_batches_shorter: "fill_batches fifo burst p = (Some q, rest, p1) \<Longrightarrow> length rest < length burst"
  by (induction fifo burst p rule: fill_batches.induct) (fastforce simp: Let_def split: if_splits)+

function sqs_send ::
  "bool \<Rightarrow> (bytes \<Rightarrow> string) \<Rightarrow> service \<Rightarrow> (batches \<Rightarrow> batches) \<Rightarrow> nat \<Rightarrow> sqs_msg list \<Rightarrow> batches
     \<Rightarrow> request list \<times> unit result \<times> nat" where
  "sqs_send fifo base64 sqs walk ctr burst pending_batches =
     (case fill_batches fifo burst pending_batches of
        (Some qid, rest, p) \<Rightarrow>
          (case do_send_batch fifo base64 sqs qid ctr (batch_of p qid) of
             (out, Inl e) \<Rightarrow> (out, Inl e, ctr + 1)
           | (out, Inr _) \<Rightarrow>
               (case sqs_send fifo base64 sqs walk (ctr + 1) rest (AList.delete qid p) of
                  (out1, r, ctr1) \<Rightarrow> (out @ out1, r, ctr1)))
      | (None, _, p) \<Rightarrow> send_residual fifo base64 sqs ctr (walk p))"
  by pat_completeness auto

termination
  by (relation "measure (\<lambda>(_, _, _, _, _, burst, _). length burst)") (auto dest: fill_batches_shorter [OF sym])

declare sqs_send.simps [simp del]

section \<open>What reaches a queue\<close>

text \<open>
  A message as the service sees it: its group, which best-effort queues do not have, and its body. The
  messages of the burst for a queue, and those of the requests for it, in their order.
\<close>

definition as_sent :: "bool \<Rightarrow> sqs_msg \<Rightarrow> string option \<times> bytes" where
  "as_sent fifo m = (if fifo then group (fst m) else None, snd m)"

definition for_queue :: "bool \<Rightarrow> string \<Rightarrow> sqs_msg list \<Rightarrow> (string option \<times> bytes) list" where
  "for_queue fifo q burst = map (as_sent fifo) (filter (\<lambda>m. fifo_name fifo (queue_id (fst m)) = q) burst)"

definition sent_to :: "string \<Rightarrow> request list \<Rightarrow> (string option \<times> bytes) list" where
  "sent_to q reqs = concat (map (\<lambda>r. map (\<lambda>e. (message_group_id e, message_body e)) (snd r)) (filter (\<lambda>r. fst r = q) reqs))"

definition good_request :: "request \<Rightarrow> bool" where
  "good_request r \<longleftrightarrow> snd r \<noteq> [] \<and> length (snd r) \<le> 10 \<and> map entry_id (snd r) = [0..<length (snd r)]"

definition batches_ok :: "nat \<Rightarrow> batches \<Rightarrow> bool" where
  "batches_ok n p \<longleftrightarrow> distinct (map fst p) \<and> (\<forall>q b. map_of p q = Some b \<longrightarrow> b \<noteq> [] \<and> length b \<le> n)"

lemma for_queue_simps [simp]:
  "for_queue fifo q [] = []"
  "for_queue fifo q (m # ms) =
     (if fifo_name fifo (queue_id (fst m)) = q then as_sent fifo m # for_queue fifo q ms else for_queue fifo q ms)"
  by (simp_all add: for_queue_def)

lemma sent_to_simps [simp]:
  "sent_to q [] = []" "sent_to q (r1 @ r2) = sent_to q r1 @ sent_to q r2"
  "sent_to q ((q', es) # rs) =
     (if q' = q then map (\<lambda>e. (message_group_id e, message_body e)) es @ sent_to q rs else sent_to q rs)"
  by (simp_all add: sent_to_def)

lemma batch_of_update [simp]:
  "batch_of (AList.update q b p) q' = (if q' = q then b else batch_of p q')"
  "batch_of (AList.delete q p) q' = (if q' = q then [] else batch_of p q')"
  by (simp_all add: batch_of_def update_conv' delete_conv')

lemma delete_update [simp]: "AList.delete q (AList.update q b p) = AList.delete q p"
  by (induction p) auto

lemma as_sent_queue [simp]: "as_sent fifo (a\<lparr>queue_id := q\<rparr>, body) = as_sent fifo (a, body)"
  by (simp add: as_sent_def)

lemma batches_ok_Cons:
  assumes "batches_ok n ((q, b) # p)"
  shows "batches_ok n p" "b \<noteq> []" "length b \<le> n" "batch_of p q = []"
proof -
  have d: "q \<notin> fst ` set p" using assms by (simp add: batches_ok_def)
  then have none: "map_of p q = None" by (simp add: map_of_eq_None_iff)
  then show "batch_of p q = []" by (simp add: batch_of_def)
  have all: "\<forall>q' b'. map_of ((q, b) # p) q' = Some b' \<longrightarrow> b' \<noteq> [] \<and> length b' \<le> n"
    using assms by (simp add: batches_ok_def)
  from all [rule_format, of q b] show "b \<noteq> []" "length b \<le> n" by simp_all
  have "b' \<noteq> [] \<and> length b' \<le> n" if "map_of p q' = Some b'" for q' b'
    using all [rule_format, of q' b'] that none by (cases "q' = q") simp_all
  then show "batches_ok n p" using assms by (simp add: batches_ok_def)
qed

lemma batches_ok_update: "batches_ok n p \<Longrightarrow> b \<noteq> [] \<Longrightarrow> length b \<le> n \<Longrightarrow> batches_ok n (AList.update q b p)"
  by (auto simp: batches_ok_def distinct_update update_conv' split: if_splits)

lemma batches_ok_delete: "batches_ok n p \<Longrightarrow> batches_ok n (AList.delete q p)"
  by (auto simp: batches_ok_def distinct_delete delete_conv' split: if_splits)

lemma batch_entries_ok:
  "batch_entries fifo base64 ctr i ms = Inr es \<Longrightarrow>
   map (\<lambda>e. (message_group_id e, message_body e)) es = map (as_sent fifo) ms \<and> map entry_id es = [i..<i + length ms]"
proof (induction ms arbitrary: i es)
  case (Cons m ms)
  then obtain e es' where e: "batch_entry fifo base64 ctr i m = Inr e" "batch_entries fifo base64 ctr (Suc i) ms = Inr es'"
    "es = e # es'" by (auto simp: res_bind_Inr_iff)
  have "message_group_id e = fst (as_sent fifo m) \<and> message_body e = snd (as_sent fifo m) \<and> entry_id e = i"
    using e(1) by (auto simp: batch_entry_def as_sent_def res_bind_Inr_iff split: if_splits)
  moreover have "[i..<i + length (m # ms)] = i # [Suc i..<Suc i + length ms]" by (simp add: upt_conv_Cons del: upt_Suc)
  ultimately show ?case using Cons.IH [OF e(2)] e(3) by (simp del: upt_Suc)
qed simp

lemma do_send_batch_cases:
  assumes "do_send_batch fifo base64 sqs qid ctr msgs = (out, r)"
  obtains (refused) e where "out = []" "r = Inl e"
  | (issued) es where "out = [(qid, es)]" "map (\<lambda>e. (message_group_id e, message_body e)) es = map (as_sent fifo) msgs"
      "map entry_id es = [0..<length msgs]"
proof (cases "batch_entries fifo base64 ctr 0 msgs")
  case (Inl e)
  then have "out = []" "r = Inl e" using assms by (simp_all add: do_send_batch_def)
  then show ?thesis by (rule refused)
next
  case (Inr es)
  then show ?thesis using assms issued [of es] batch_entries_ok [OF Inr] by (simp add: do_send_batch_def)
qed

text \<open>Filling keeps what is to reach each queue, and leaves full batches only where it stops.\<close>

lemma fill_batches_keeps:
  "fill_batches fifo burst p = (r, rest, p1) \<Longrightarrow>
   map (as_sent fifo) (batch_of p1 q) @ for_queue fifo q rest = map (as_sent fifo) (batch_of p q) @ for_queue fifo q burst"
proof (induction fifo burst p rule: fill_batches.induct)
  case (2 fifo a body burst p)
  let ?q = "fifo_name fifo (queue_id a)"
  let ?b = "batch_of p ?q @ [(a\<lparr>queue_id := ?q\<rparr>, body)]"
  show ?case
  proof (cases "length ?b = 10")
    case True
    then have "rest = burst" "p1 = AList.update ?q ?b p" using "2.prems" by (simp_all add: Let_def)
    then show ?thesis by simp
  next
    case False
    then have "fill_batches fifo burst (AList.update ?q ?b p) = (r, rest, p1)" using "2.prems" by (simp add: Let_def)
    from "2.IH" [OF refl refl refl False this] show ?thesis by auto
  qed
qed simp

lemma fill_batches_bounded:
  "batches_ok 9 p \<Longrightarrow> fill_batches fifo burst p = (r, rest, p1) \<Longrightarrow>
   (case r of None \<Rightarrow> rest = [] \<and> batches_ok 9 p1
    | Some qid \<Rightarrow> length (batch_of p1 qid) = 10 \<and> batches_ok 9 (AList.delete qid p1))"
proof (induction fifo burst p rule: fill_batches.induct)
  case (2 fifo a body burst p)
  let ?q = "fifo_name fifo (queue_id a)"
  let ?b = "batch_of p ?q @ [(a\<lparr>queue_id := ?q\<rparr>, body)]"
  have l: "length (batch_of p ?q) \<le> 9" using "2.prems"(1) by (auto simp: batches_ok_def batch_of_def split: option.split)
  show ?case
  proof (cases "length ?b = 10")
    case True
    then show ?thesis using "2.prems" by (auto simp: Let_def batches_ok_delete)
  next
    case False
    then have f: "fill_batches fifo burst (AList.update ?q ?b p) = (r, rest, p1)" using "2.prems" by (simp add: Let_def)
    have "batches_ok 9 (AList.update ?q ?b p)" using "2.prems"(1) False l by (intro batches_ok_update) auto
    from "2.IH" [OF refl refl refl False this f] show ?thesis .
  qed
qed simp

lemma send_residual_spec:
  "send_residual fifo base64 sqs ctr p = (out, r, ctr1) \<Longrightarrow> batches_ok 9 p \<Longrightarrow>
   prefix (sent_to q out) (map (as_sent fifo) (batch_of p q)) \<and> list_all good_request out
   \<and> (r = Inr () \<longrightarrow> sent_to q out = map (as_sent fifo) (batch_of p q))"
proof (induction p arbitrary: ctr out r ctr1)
  case (Cons b p)
  obtain qid msgs where b: "b = (qid, msgs)" by (cases b)
  obtain out1 r1 where d: "do_send_batch fifo base64 sqs qid ctr msgs = (out1, r1)" by fastforce
  obtain out2 r2 c2 where s: "send_residual fifo base64 sqs (ctr + 1) p = (out2, r2, c2)" by (cases "send_residual fifo base64 sqs (ctr + 1) p")
  note p = batches_ok_Cons [OF Cons.prems(2) [unfolded b]]
  from d show ?case
  proof (cases rule: do_send_batch_cases)
    case (refused e)
    then show ?thesis using Cons.prems(1) b d by auto
  next
    case (issued es)
    have "length es = length msgs" using arg_cong [OF issued(2), of length] by simp
    then have g: "good_request (qid, es)" using issued(3) p by (auto simp: good_request_def)
    have bq: "batch_of (b # p) q = (if q = qid then msgs else batch_of p q)" by (simp add: b batch_of_def)
    note ih = Cons.IH [OF s p(1)]
    show ?thesis
    proof (cases r1)
      case (Inl e)
      then have "out = [(qid, es)]" "r = Inl e" using Cons.prems(1) b d issued(1) by auto
      then show ?thesis using issued(2) g bq by auto
    next
      case (Inr u)
      then have "out = out1 @ out2" "r = r2" using Cons.prems(1) b d s by simp_all
      then show ?thesis using issued g bq ih p(4) by auto
    qed
  qed
qed (simp add: batch_of_def)

lemma same_walk:
  assumes "mset xs = mset ys" and "distinct (map fst ys)"
  shows "map_of xs = map_of ys" "distinct (map fst xs)"
proof -
  have "mset (map fst xs) = mset (map fst ys)" using assms(1) by simp
  then show d: "distinct (map fst xs)" using assms(2) by (metis mset_eq_imp_distinct_iff)
  show "map_of xs = map_of ys" using map_of_inject_set [OF d assms(2)] mset_eq_setD [OF assms(1)] by simp
qed

lemma sqs_send_spec:
  "sqs_send fifo base64 sqs walk ctr burst p = (out, r, ctr1) \<Longrightarrow> batches_ok 9 p \<Longrightarrow> (\<forall>p. mset (walk p) = mset p) \<Longrightarrow>
   prefix (sent_to q out) (map (as_sent fifo) (batch_of p q) @ for_queue fifo q burst) \<and> list_all good_request out
   \<and> (r = Inr () \<longrightarrow> sent_to q out = map (as_sent fifo) (batch_of p q) @ for_queue fifo q burst)"
proof (induction fifo base64 sqs walk ctr burst p arbitrary: out r ctr1 rule: sqs_send.induct)
  case (1 fifo base64 sqs walk ctr burst p)
  obtain rq rest p1 where f: "fill_batches fifo burst p = (rq, rest, p1)" by (cases "fill_batches fifo burst p")
  note keeps = fill_batches_keeps [OF f, of q] and bounded = fill_batches_bounded [OF "1.prems"(2) f]
  show ?case
  proof (cases rq)
    case None
    then have w: "send_residual fifo base64 sqs ctr (walk p1) = (out, r, ctr1)" and p1: "batches_ok 9 p1" "rest = []"
      using "1.prems"(1) f bounded by (simp_all add: sqs_send.simps [of _ _ _ _ _ _ p])
    have "mset (walk p1) = mset p1" "distinct (map fst p1)" using "1.prems"(3) p1(1) by (simp_all add: batches_ok_def)
    from same_walk [OF this]
    have "batches_ok 9 (walk p1)" "batch_of (walk p1) q = batch_of p1 q"
      using p1(1) by (simp_all add: batches_ok_def batch_of_def)
    then show ?thesis using send_residual_spec [OF w, of q] keeps p1(2) by simp
  next
    case (Some qid)
    let ?b = "batch_of p1 qid"
    obtain out1 r1 where d: "do_send_batch fifo base64 sqs qid ctr ?b = (out1, r1)" by fastforce
    obtain out2 r2 c2 where s: "sqs_send fifo base64 sqs walk (ctr + 1) rest (AList.delete qid p1) = (out2, r2, c2)"
      by (cases "sqs_send fifo base64 sqs walk (ctr + 1) rest (AList.delete qid p1)")
    have bd: "length ?b = 10" "batches_ok 9 (AList.delete qid p1)" using bounded Some by simp_all
    from d show ?thesis
    proof (cases rule: do_send_batch_cases)
      case (refused e)
      then show ?thesis using "1.prems"(1) f Some d by (auto simp: sqs_send.simps [of _ _ _ _ _ _ p])
    next
      case (issued es)
      have "length es = 10" using arg_cong [OF issued(2), of length] bd(1) by simp
      then have g: "good_request (qid, es)" using issued(3) bd(1) by (auto simp: good_request_def)
      show ?thesis
      proof (cases r1)
        case (Inl e)
        then have "out = out1" "r = Inl e" using "1.prems"(1) f Some d by (simp_all add: sqs_send.simps [of _ _ _ _ _ _ p])
        then show ?thesis using issued g by (auto simp: keeps [symmetric])
      next
        case (Inr u)
        then have o: "out = out1 @ out2" "r = r2" using "1.prems"(1) f Some d s by (simp_all add: sqs_send.simps [of _ _ _ _ _ _ p])
        have ih: "prefix (sent_to q out2) (map (as_sent fifo) (batch_of (AList.delete qid p1) q) @ for_queue fifo q rest)
            \<and> list_all good_request out2
            \<and> (r2 = Inr () \<longrightarrow> sent_to q out2 = map (as_sent fifo) (batch_of (AList.delete qid p1) q) @ for_queue fifo q rest)"
          using "1.IH" [OF f [symmetric] Some refl d [symmetric] Inr] "1.prems"(3) bd(2) s o by simp
        show ?thesis using issued g keeps o ih by (auto simp: keeps [symmetric])
      qed
    qed
  qed
qed

section \<open>Receiving\<close>

text \<open>
  A message of the service, and the saved requests: for every queue the number of messages its
  request asked for, which is the number of slots of the receive that started it.
\<close>

record sqs_message =
  receipt_handle :: "string option"
  m_body :: "bytes option"
  attributes :: "string \<rightharpoonup> string"
  message_attributes :: "string \<rightharpoonup> string option"

type_synonym recv_futs = "(string \<times> nat) list"

definition group_attribute :: string where
  "group_attribute = ''MessageGroupId''"

definition refill :: "string list \<Rightarrow> nat \<Rightarrow> recv_futs \<Rightarrow> recv_futs" where
  "refill urls num_slots futs = fold (\<lambda>q f. if map_of f q = None then AList.update q num_slots f else f) urls futs"

text \<open>
  \<open>select_ok\<close> and the loop around it. An event is the completion of the request of a queue with an error or
  with the messages of the queue, of which the service returns at most as many as the request asked
  for. A failed request is dropped while others are left. \<open>None\<close> is a receive that still waits.
\<close>

fun await_batch ::
  "string list \<Rightarrow> nat \<Rightarrow> recv_futs \<Rightarrow> (string \<times> sqs_message list option result) list
     \<Rightarrow> (string \<times> sqs_message list) result option \<times> recv_futs" where
  "await_batch urls num_slots futs [] = (None, futs)"
| "await_batch urls num_slots futs ((q, r) # evs) =
     (case map_of futs q of
        None \<Rightarrow> await_batch urls num_slots futs evs
      | Some asked \<Rightarrow>
        (let leftover = AList.delete q futs in
         case r of
           Inl e \<Rightarrow>
             if leftover = [] then (Some (wrap_err ''sqs.receive_message'' (Inl e)), leftover)
             else await_batch urls num_slots leftover evs
         | Inr None \<Rightarrow> await_batch urls num_slots (refill urls num_slots leftover) evs
         | Inr (Some msgs) \<Rightarrow>
             if take asked msgs = [] then await_batch urls num_slots (refill urls num_slots leftover) evs
             else (Some (Inr (q, take asked msgs)), leftover)))"

fun receipts :: "sqs_message list \<Rightarrow> string list result" where
  "receipts [] = Inr []"
| "receipts (m # ms) =
     (case receipt_handle m of
        None \<Rightarrow> Inl (Panic ''called unwrap on a None value'')
      | Some h \<Rightarrow> res_bind (receipts ms) (\<lambda>hs. Inr (h # hs)))"

definition from_group :: "sqs_message \<Rightarrow> string option" where
  "from_group m =
     (case attributes m group_attribute of
        Some g \<Rightarrow> Some g
      | None \<Rightarrow>
          (case message_attributes m group_attribute of
             Some (Some g) \<Rightarrow> if g = [] then None else Some g
           | _ \<Rightarrow> None))"

fun fill_slots :: "string \<Rightarrow> nat \<Rightarrow> sqs_message list \<Rightarrow> sqs_msg list result" where
  "fill_slots q n [] = Inr []"
| "fill_slots q n (m # ms) =
     (case m_body m of
        None \<Rightarrow> Inl (Panic ''called unwrap on a None value'')
      | Some body \<Rightarrow>
          if n = 0 then Inl (Panic ''index out of bounds'')
          else res_bind (fill_slots q (n - 1) ms)
                 (\<lambda>out. Inr ((\<lparr>queue_id = q, group = from_group m\<rparr>, body) # out)))"

text \<open>
  The whole receive. \<open>del\<close> is the service's answer to the deletion; the second component are the
  receipts of the deletion that was issued, if any.
\<close>

definition do_recv_batch ::
  "(string \<Rightarrow> string list \<Rightarrow> string list result) \<Rightarrow> string list \<Rightarrow> nat \<Rightarrow> recv_futs
     \<Rightarrow> (string \<times> sqs_message list option result) list
     \<Rightarrow> sqs_msg list result option \<times> (string \<times> string list) option \<times> recv_futs" where
  "do_recv_batch del urls num_slots futs evs =
     (if refill urls num_slots futs = [] then (Some (Inl (Panic ''select_ok of nothing'')), None, [])
      else
        (case await_batch urls num_slots (refill urls num_slots futs) evs of
           (None, futs1) \<Rightarrow> (None, None, futs1)
         | (Some (Inl e), futs1) \<Rightarrow> (Some (Inl e), None, futs1)
         | (Some (Inr (q, msgs)), futs1) \<Rightarrow>
             (case receipts msgs of
                Inl e \<Rightarrow> (Some (Inl e), None, futs1)
              | Inr hs \<Rightarrow>
                  (Some (res_bind (wrap_err ''sqs.delete_message_batch'' (del q hs))
                     (\<lambda>failed. if failed \<noteq> [] then Inl (Err (rev failed @ [''one or more messages failed to delete'']))
                               else fill_slots q num_slots msgs)),
                   Some (q, hs), futs1))))"

definition asks_at_most :: "nat \<Rightarrow> recv_futs \<Rightarrow> bool" where
  "asks_at_most n futs \<longleftrightarrow> (\<forall>q k. map_of futs q = Some k \<longrightarrow> k \<le> n)"

definition complete :: "sqs_message \<Rightarrow> bool" where
  "complete m \<longleftrightarrow> receipt_handle m \<noteq> None \<and> m_body m \<noteq> None"

lemma asks_at_most_upd:
  "asks_at_most n futs \<Longrightarrow> asks_at_most n (AList.update q n futs)" "asks_at_most n futs \<Longrightarrow> asks_at_most n (AList.delete q futs)"
  by (auto simp: asks_at_most_def update_conv' delete_conv' split: if_splits)

lemma asks_at_most_refill: "asks_at_most n futs \<Longrightarrow> asks_at_most n (refill urls n futs)"
  unfolding refill_def by (induction urls arbitrary: futs) (simp_all add: asks_at_most_upd)

lemma refill_nonempty: "urls \<noteq> [] \<Longrightarrow> refill urls n futs \<noteq> []"
proof -
  have keep: "f \<noteq> [] \<Longrightarrow> fold (\<lambda>q f. if map_of f q = None then AList.update q n f else f) us f \<noteq> []" for us f
    by (induction us arbitrary: f) auto
  assume "urls \<noteq> []"
  then obtain u us where "urls = u # us" by (cases urls) auto
  then show ?thesis using keep [of "if map_of futs u = None then AList.update u n futs else futs" us]
    by (cases futs) (auto simp: refill_def split: if_splits)
qed

lemma await_batch_ok:
  "await_batch urls n futs evs = (r, futs1) \<Longrightarrow> asks_at_most n futs \<Longrightarrow>
   asks_at_most n futs1
   \<and> (\<forall>q ms. r = Some (Inr (q, ms)) \<longrightarrow>
        ms \<noteq> [] \<and> length ms \<le> n \<and> map_of futs1 q = None \<and> (\<exists>avail. (q, Inr (Some avail)) \<in> set evs \<and> prefix ms avail))
   \<and> (\<forall>e. r = Some (Inl e) \<longrightarrow> (\<exists>q e'. (q, Inl e') \<in> set evs \<and> e = wrap_report ''sqs.receive_message'' e'))"
proof (induction urls n futs evs rule: await_batch.induct)
  case (2 urls n futs q res evs)
  show ?case
  proof (cases "map_of futs q")
    case None
    then show ?thesis using "2.IH"(1) [OF None] "2.prems" by simp blast
  next
    case (Some asked)
    let ?l = "AList.delete q futs"
    have l: "asks_at_most n ?l" "asks_at_most n (refill urls n ?l)" "asked \<le> n"
      using "2.prems"(2) Some by (simp_all add: asks_at_most_refill asks_at_most_upd) (simp add: asks_at_most_def)
    consider e where "res = Inl e" "?l = []" | e where "res = Inl e" "?l \<noteq> []" | "res = Inr None"
      | ms where "res = Inr (Some ms)" "take asked ms = []" | ms where "res = Inr (Some ms)" "take asked ms \<noteq> []"
      by (metis sum.exhaust option.exhaust)
    then show ?thesis
    proof cases
      case 1
      then show ?thesis using "2.prems"(1) Some l by (auto simp: Let_def)
    next
      case 2
      then show ?thesis using "2.prems"(1) Some l "2.IH"(2) [OF Some refl] by (simp add: Let_def) blast
    next
      case 3
      then show ?thesis using "2.prems"(1) Some l "2.IH"(3) [OF Some refl] by (simp add: Let_def)
    next
      case 4
      then show ?thesis using "2.prems"(1) Some l "2.IH"(4) [OF Some refl] by (simp add: Let_def) blast
    next
      case 5
      then have "r = Some (Inr (q, take asked ms))" "futs1 = ?l" using "2.prems"(1) Some by (simp_all add: Let_def)
      then show ?thesis using l 5 by (auto simp: delete_conv' intro: take_is_prefix)
    qed
  qed
qed simp

lemma receipts_complete: "list_all complete ms \<Longrightarrow> receipts ms = Inr (map (the \<circ> receipt_handle) ms)"
  by (induction ms) (auto simp: complete_def split: option.split)

lemma fill_slots_complete:
  "list_all complete ms \<Longrightarrow> length ms \<le> n \<Longrightarrow>
   fill_slots q n ms = Inr (map (\<lambda>m. (\<lparr>queue_id = q, group = from_group m\<rparr>, the (m_body m))) ms)"
  by (induction ms arbitrary: n) (auto simp: complete_def split: option.split)

section \<open>Properties\<close>

text \<open>
  C17: A burst reaches its queues in order, in batches the service accepts. Every request has one to ten
  entries with the ids from zero on. What the requests for a queue carry, one after the other, is a
  prefix of the messages of the burst for that queue, in their order; if \<open>send\<close> succeeds it is all of
  them. In whatever order the unfinished batches are walked.
\<close>

theorem sqs_send_in_order:
  assumes "\<forall>p. mset (walk p) = mset p" and "sqs_send fifo base64 sqs walk ctr burst [] = (out, r, ctr1)"
  shows "list_all good_request out \<and> prefix (sent_to q out) (for_queue fifo q burst)
    \<and> (r = Inr () \<longrightarrow> sent_to q out = for_queue fifo q burst)"
  using sqs_send_spec [OF assms(2) _ assms(1), of q] by (simp add: batches_ok_def batch_of_def)

text \<open>
  C18: What is received is what is deleted. If no saved request asked for more messages than there are
  slots, and the service sends whole messages and does not fail by panicking, a receive does not panic;
  if it succeeds, its messages are messages of one queue in the order of the queue, and their receipts,
  in the same order, are those of the deletion it has issued.
\<close>

theorem sqs_recv_returns_deleted:
  assumes futs: "asks_at_most num_slots futs" and urls: "urls \<noteq> []"
    and evs: "\<forall>q avail. (q, Inr (Some avail)) \<in> set evs \<longrightarrow> list_all complete avail"
    and errs: "\<forall>q e. (q, Inl e) \<in> set evs \<longrightarrow> \<not> is_panic e" "\<forall>q hs e. del q hs = Inl e \<longrightarrow> \<not> is_panic e"
    and recv: "do_recv_batch del urls num_slots futs evs = (Some r, deleted, futs1)"
  shows "asks_at_most num_slots futs1 \<and> \<not> panics r
    \<and> (\<forall>out. r = Inr out \<longrightarrow> (\<exists>q ms avail. out = map (\<lambda>m. (\<lparr>queue_id = q, group = from_group m\<rparr>, the (m_body m))) ms
          \<and> deleted = Some (q, map (the \<circ> receipt_handle) ms)
          \<and> ms \<noteq> [] \<and> length ms \<le> num_slots \<and> (q, Inr (Some avail)) \<in> set evs \<and> prefix ms avail))"
proof -
  let ?f = "refill urls num_slots futs"
  obtain x f1 where w: "await_batch urls num_slots ?f evs = (x, f1)" by (cases "await_batch urls num_slots ?f evs")
  note ok = await_batch_ok [OF w asks_at_most_refill [OF futs]]
  have ne: "?f \<noteq> []" by (rule refill_nonempty [OF urls])
  have "x \<noteq> None" using recv w ne by (cases x) (auto simp: do_recv_batch_def)
  then consider e where "x = Some (Inl e)" | q ms where "x = Some (Inr (q, ms))" by (metis option.exhaust sum.exhaust prod.exhaust)
  then show ?thesis
  proof cases
    case 1
    then have "r = Inl e" "futs1 = f1" using recv w ne by (simp_all add: do_recv_batch_def)
    moreover have "\<not> is_panic e" using ok 1 errs(1) by auto
    ultimately show ?thesis using ok by simp
  next
    case 2
    then obtain avail where a: "ms \<noteq> []" "length ms \<le> num_slots" "(q, Inr (Some avail)) \<in> set evs" "prefix ms avail"
      using ok by blast
    have c: "list_all complete ms" using a(3,4) evs [rule_format, OF a(3)] by (auto simp: prefix_def)
    let ?out = "map (\<lambda>m. (\<lparr>queue_id = q, group = from_group m\<rparr>, the (m_body m))) ms"
      and ?hs = "map (the \<circ> receipt_handle) ms"
    have r: "r = res_bind (wrap_err ''sqs.delete_message_batch'' (del q ?hs))
        (\<lambda>failed. if failed \<noteq> [] then Inl (Err (rev failed @ [''one or more messages failed to delete'']))
                  else fill_slots q num_slots ms)"
      and d: "deleted = Some (q, ?hs)" "futs1 = f1"
      using recv w ne 2 receipts_complete [OF c] by (auto simp: do_recv_batch_def)
    have "\<not> panics r \<and> (\<forall>out. r = Inr out \<longrightarrow> out = ?out)"
      using errs(2) fill_slots_complete [OF c a(2), of q] by (cases "del q ?hs") (auto simp: r)
    then show ?thesis using ok d a by blast
  qed
qed

section \<open>Examples\<close>

definition ex_burst :: "sqs_msg list" where
  "ex_burst = map (\<lambda>i. (\<lparr>queue_id = if even i then ''a'' else ''b'', group = Some ''g''\<rparr>, replicate 8 (of_nat i))) [0..<21]"

definition ex_base64 :: "bytes \<Rightarrow> string" where
  "ex_base64 bs = map (\<lambda>b. char_of (unat b)) bs"

lemma ex_sqs_value:
  "(case sqs_send True ex_base64 (\<lambda>_ _. Inr []) rev 0 ex_burst [] of (out, r, c) \<Rightarrow>
      (map (\<lambda>x. (fst x, length (snd x))) out, r, c))
   = ([(''a.fifo'', 10), (''b.fifo'', 10), (''a.fifo'', 1)], Inr (), 3)"
  by code_simp

theorem sqs_send_in_order_witness:
  "sent_to ''a.fifo'' (fst (sqs_send True ex_base64 (\<lambda>_ _. Inr []) rev 0 ex_burst [])) = for_queue True ''a.fifo'' ex_burst"
proof -
  have m: "\<forall>p. mset (rev p) = mset (p :: batches)" by simp
  obtain out r c where s: "sqs_send True ex_base64 (\<lambda>_ _. Inr []) rev 0 ex_burst [] = (out, r, c)"
    by (cases "sqs_send True ex_base64 (\<lambda>_ _. Inr []) rev 0 ex_burst []")
  then have "r = Inr ()" using ex_sqs_value by simp
  then show ?thesis using sqs_send_in_order [OF m s, of "''a.fifo''"] s by simp
qed

definition ex_message :: "nat \<Rightarrow> sqs_message" where
  "ex_message i = \<lparr>receipt_handle = Some (show_nat i), m_body = Some [of_nat i], attributes = [''MessageGroupId'' \<mapsto> ''g''],
     message_attributes = Map.empty\<rparr>"

theorem sqs_recv_returns_deleted_witness:
  "\<exists>r deleted futs1. do_recv_batch (\<lambda>_ _. Inr []) [''a'', ''b''] 2 []
      [(''b'', Inr (Some [])), (''b'', Inr (Some [ex_message 0, ex_message 1, ex_message 2]))] = (Some r, deleted, futs1)
    \<and> is_ok r \<and> \<not> panics r"
proof -
  let ?evs = "[(''b'', Inr (Some [])), (''b'', Inr (Some [ex_message 0, ex_message 1, ex_message 2]))]
    :: (string \<times> sqs_message list option result) list"
  let ?run = "do_recv_batch (\<lambda>_ _. Inr []) [''a'', ''b''] 2 [] ?evs"
  have v: "(case fst ?run of Some r \<Rightarrow> is_ok r | None \<Rightarrow> False)" by code_simp
  then obtain r where r: "fst ?run = Some r" "is_ok r" by (cases "fst ?run") auto
  then obtain d f where run: "?run = (Some r, d, f)" by (cases ?run) auto
  have c: "list_all complete [ex_message 0, ex_message 1, ex_message 2]" by (simp add: complete_def ex_message_def)
  have "\<not> panics r"
    using sqs_recv_returns_deleted [OF _ _ _ _ _ run] c by (auto simp: asks_at_most_def)
  with r run show ?thesis by blast
qed

section \<open>What goes wrong\<close>

text \<open>
  Deduplication ids add the index in the batch to the number of the batch, so that messages of two
  batches that start with the same eight bytes get the same id; the service drops the second one.
\<close>

lemma dedup_ids_collide:
  assumes "take 8 (snd m) = take 8 (snd m')" "8 \<le> length (snd m)" "8 \<le> length (snd m')"
  obtains e e' where "batch_entry True base64 ctr 1 m = Inr e" "batch_entry True base64 (ctr + 1) 0 m' = Inr e'"
    "message_deduplication_id e = message_deduplication_id e'"
  using assms that by (simp add: batch_entry_def get_dedup_def not_less [symmetric])

text \<open>A body of fewer than eight bytes panics the ordered sender.\<close>

lemma short_body_panics:
  "fst (snd (sqs_send True ex_base64 (\<lambda>_ _. Inr []) rev 0 [(\<lparr>queue_id = ''a'', group = None\<rparr>, [1, 2, 3])] []))
   = Inl (Panic ''range end index out of range'')"
  by code_simp

text \<open>The best-effort sender does not pass the group on.\<close>

lemma best_effort_drops_group: "batch_entry False base64 ctr i m = Inr e \<Longrightarrow> message_group_id e = None"
  by (auto simp: batch_entry_def)

text \<open>
  A request that an earlier receive with more slots has started returns more messages than the later one
  has slots for: they are deleted, and then the receive panics.
\<close>

lemma saved_request_overflows:
  "case do_recv_batch (\<lambda>_ _. Inr []) [''a''] 1 [(''a'', 2)] [(''a'', Inr (Some [ex_message 0, ex_message 1]))] of
     (r, deleted, _) \<Rightarrow> r = Some (Inl (Panic ''index out of bounds'')) \<and> deleted = Some (''a'', [''0'', ''1''])"
  by code_simp

end
