(* ===== verification/Pubsub.thy ===== *)
theory Pubsub
  imports Codecs "HOL-Library.AList" "HOL-Library.Sublist" "HOL-Library.Multiset"
begin

text \<open>
  The Google PubSub transport (\<open>gcp-pubsub/src/lib.rs\<close>) and the group wrapper of \<open>queue-steer/src/set_group.rs\<close>.
  A send sorts its burst by topic and by group and publishes each group; a receive fetches messages from
  all subscriptions, keeps what it has no slots for in a cache that the clones of the connection share,
  and acknowledges what it returns. The ordered connection uses topics with a suffix of their own.

  The service is a parameter: looking up a topic, publishing, fetching and acknowledging are arguments,
  and so is the order in which a \<open>HashMap\<close> is walked. Bodies are bytes.
\<close>

record queue_addr =
  topic_id :: string
  group :: "string option"

section \<open>Topics\<close>

definition ordering_topic_suffix :: string where
  "ordering_topic_suffix = ''.ord''"

text \<open>\<open>create\<close> and \<open>delete\<close> are the calls of the service; both topics are tried whatever happens to the first.\<close>

definition both_results :: "'a result \<Rightarrow> 'b result \<Rightarrow> 'a result" where
  "both_results a b =
     (case (a, b) of
        (Inr t, Inr _) \<Rightarrow> Inr t
      | (Inl e, Inr _) \<Rightarrow> Inl e
      | (Inr _, Inl e) \<Rightarrow> Inl e
      | (Inl e1, Inl e2) \<Rightarrow> wrap_err (report_string e2) (Inl e1))"

definition make_topic :: "(string \<Rightarrow> string result) \<Rightarrow> string \<Rightarrow> string result" where
  "make_topic create name =
     (if suffix ordering_topic_suffix name then eyre ''topic name cannot end with .ord''
      else both_results (wrap_err ''create default topic'' (create name))
             (wrap_err ''create topic for ordered subscriptions'' (create (name @ ordering_topic_suffix))))"

definition delete_one :: "(string \<Rightarrow> bool result) \<Rightarrow> (string \<Rightarrow> unit result) \<Rightarrow> string \<Rightarrow> unit result" where
  "delete_one exists_topic delete name =
     res_bind (exists_topic name) (\<lambda>found. if found then delete name else Inr ())"

definition delete_topic :: "(string \<Rightarrow> bool result) \<Rightarrow> (string \<Rightarrow> unit result) \<Rightarrow> string \<Rightarrow> unit result" where
  "delete_topic exists_topic delete name =
     both_results (delete_one exists_topic delete name) (delete_one exists_topic delete (name @ ordering_topic_suffix))"

section \<open>Sending\<close>

text \<open>
  The batches of a burst: for every topic its handle and, for every group, the messages. A message of
  the service is its body and its ordering key.
\<close>

type_synonym publish_message = "bytes \<times> string option"
type_synonym 't topic_batches = "(string \<times> 't \<times> (string option \<times> publish_message list) list) list"

definition push_group :: "string option \<Rightarrow> publish_message \<Rightarrow> (string option \<times> publish_message list) list
    \<Rightarrow> (string option \<times> publish_message list) list" where
  "push_group g m gs = AList.update g ((case map_of gs g of Some ms \<Rightarrow> ms | None \<Rightarrow> []) @ [m]) gs"

definition push_msg :: "string \<Rightarrow> 't \<Rightarrow> string option \<Rightarrow> bytes \<Rightarrow> 't topic_batches \<Rightarrow> 't topic_batches" where
  "push_msg tname t g body tb =
     (let (t1, gs) = (case map_of tb tname of Some x \<Rightarrow> x | None \<Rightarrow> (t, [])) in
      AList.update tname (t1, push_group g (body, g) gs) tb)"

text \<open>
  Sorting: \<open>cached\<close> are the topics that were known when the send started; the others are looked up, each
  time they occur.
\<close>

fun sort_burst ::
  "(string \<rightharpoonup> 't) \<Rightarrow> (string \<Rightarrow> 't option result) \<Rightarrow> (queue_addr \<times> bytes) list \<Rightarrow> (string \<rightharpoonup> 't) \<Rightarrow> 't topic_batches
     \<Rightarrow> ((string \<rightharpoonup> 't) \<times> 't topic_batches) result" where
  "sort_burst cached look_up [] new_topics tb = Inr (new_topics, tb)"
| "sort_burst cached look_up ((a, body) # burst) new_topics tb =
     (case cached (topic_id a) of
        Some t \<Rightarrow> sort_burst cached look_up burst new_topics (push_msg (topic_id a) t (group a) body tb)
      | None \<Rightarrow>
          (case wrap_err ''get topic'' (look_up (topic_id a)) of
             Inl e \<Rightarrow> Inl e
           | Inr None \<Rightarrow> eyre ''topic not found''
           | Inr (Some t) \<Rightarrow>
               sort_burst cached look_up burst (new_topics(topic_id a \<mapsto> t)) (push_msg (topic_id a) t (group a) body tb)))"

text \<open>A call of \<open>publish\<close>: the topic's name and handle, and the batch.\<close>

type_synonym 't publication = "string \<times> 't \<times> publish_message list"

fun publish_groups ::
  "('t publication \<Rightarrow> unit result) \<Rightarrow> string \<Rightarrow> 't \<Rightarrow> (string option \<times> publish_message list) list
     \<Rightarrow> 't publication list \<times> unit result" where
  "publish_groups publish tname t [] = ([], Inr ())"
| "publish_groups publish tname t ((g, ms) # gs) =
     (case wrap_err ''Send on topic'' (publish (tname, t, ms)) of
        Inl e \<Rightarrow> ([(tname, t, ms)], Inl e)
      | Inr _ \<Rightarrow> (case publish_groups publish tname t gs of (out, r) \<Rightarrow> ((tname, t, ms) # out, r)))"

fun publish_topics ::
  "('t publication \<Rightarrow> unit result) \<Rightarrow> ((string option \<times> publish_message list) list \<Rightarrow> (string option \<times> publish_message list) list)
     \<Rightarrow> 't topic_batches \<Rightarrow> 't publication list \<times> unit result" where
  "publish_topics publish walk_groups [] = ([], Inr ())"
| "publish_topics publish walk_groups ((tname, t, gs) # tb) =
     (case publish_groups publish tname t (walk_groups gs) of
        (out, Inl e) \<Rightarrow> (out, Inl e)
      | (out, Inr _) \<Rightarrow> (case publish_topics publish walk_groups tb of (out1, r) \<Rightarrow> (out @ out1, r)))"

text \<open>The whole send: the calls, the result, and the known topics afterwards, which change only if it succeeds.\<close>

definition pubsub_send ::
  "('t publication \<Rightarrow> unit result) \<Rightarrow> (string \<Rightarrow> 't option result)
     \<Rightarrow> ('t topic_batches \<Rightarrow> 't topic_batches)
     \<Rightarrow> ((string option \<times> publish_message list) list \<Rightarrow> (string option \<times> publish_message list) list)
     \<Rightarrow> (string \<rightharpoonup> 't) \<Rightarrow> (queue_addr \<times> bytes) list \<Rightarrow> 't publication list \<times> unit result \<times> (string \<rightharpoonup> 't)" where
  "pubsub_send publish look_up walk walk_groups topics burst =
     (case sort_burst topics look_up burst Map.empty [] of
        Inl e \<Rightarrow> ([], Inl e, topics)
      | Inr (new_topics, tb) \<Rightarrow>
          (case publish_topics publish walk_groups (walk tb) of
             (out, Inl e) \<Rightarrow> (out, Inl e, topics)
           | (out, Inr u) \<Rightarrow> (out, Inr u, topics ++ new_topics)))"

section \<open>Receiving\<close>

record message =
  data :: bytes
  ordering_key :: string

type_synonym cached_msg = "string \<times> message"

text \<open>
  \<open>ack_and_drain_locked_cache\<close>: the first messages of the cache, each acknowledged and decoded; the first
  failure is the result. \<open>ack\<close> is the service's answer, \<open>utf8\<close> the check of the body.
\<close>

fun ack_all :: "(cached_msg \<Rightarrow> unit result) \<Rightarrow> (bytes \<Rightarrow> unit result) \<Rightarrow> cached_msg list \<Rightarrow> (queue_addr \<times> bytes) list result" where
  "ack_all ack utf8 [] = Inr []"
| "ack_all ack utf8 ((t, m) # ms) =
     res_bind (wrap_err ''ACKing message'' (ack (t, m)))
       (\<lambda>_. res_bind (utf8 (data m))
         (\<lambda>_. res_bind (ack_all ack utf8 ms)
           (\<lambda>out. Inr ((\<lparr>topic_id = t, group = if ordering_key m = [] then None else Some (ordering_key m)\<rparr>, data m) # out))))"

definition ack_and_drain ::
  "(cached_msg \<Rightarrow> unit result) \<Rightarrow> (bytes \<Rightarrow> unit result) \<Rightarrow> nat \<Rightarrow> cached_msg list \<Rightarrow> (queue_addr \<times> bytes) list result" where
  "ack_and_drain ack utf8 limit rcg = ack_all ack utf8 (take (min limit (length rcg)) rcg)"

text \<open>
  With the lock held: the messages that are returned leave the cache (\<open>rotate_left\<close> and \<open>truncate\<close>), an
  error leaves it as it was.
\<close>

definition return_cached ::
  "(cached_msg \<Rightarrow> unit result) \<Rightarrow> (bytes \<Rightarrow> unit result) \<Rightarrow> nat \<Rightarrow> cached_msg list
     \<Rightarrow> (queue_addr \<times> bytes) list result \<times> cached_msg list" where
  "return_cached ack utf8 num_slots rcg =
     (case ack_and_drain ack utf8 num_slots rcg of
        Inl e \<Rightarrow> (Inl e, rcg)
      | Inr acked \<Rightarrow> (Inr acked, take (length rcg - length acked) (rotate (length acked) rcg)))"

text \<open>
  \<open>sub_receive\<close>: ten failures are retried. The events are the answers of the service to one subscription;
  a result \<open>None\<close> still waits.
\<close>

fun sub_receive :: "string \<Rightarrow> nat \<Rightarrow> nat \<Rightarrow> message list result list \<Rightarrow> cached_msg list result option" where
  "sub_receive topic fail_count remaining_slots [] = None"
| "sub_receive topic fail_count remaining_slots (Inr ms # evs) =
     Some (Inr (map (\<lambda>m. (topic, m)) (take remaining_slots ms)))"
| "sub_receive topic fail_count remaining_slots (Inl e # evs) =
     (if 10 < fail_count + 1 then Some (wrap_err ''receive messages'' (Inl e))
      else sub_receive topic (fail_count + 1) remaining_slots evs)"

text \<open>
  The loop over \<open>select_ok\<close>: an event is a finished \<open>sub_receive\<close> of a topic. One that got nothing is started
  again, one that failed is dropped.
\<close>

fun poll_subscriptions ::
  "string list \<Rightarrow> (string \<times> cached_msg list result) list \<Rightarrow> cached_msg list result option" where
  "poll_subscriptions [] evs = Some (Inl (Panic ''select_ok of nothing''))"
| "poll_subscriptions (f # fs) [] = None"
| "poll_subscriptions (f # fs) ((topic, r) # evs) =
     (let leftover = remove1 topic (f # fs) in
      if topic \<notin> set (f # fs) then poll_subscriptions (f # fs) evs
      else
        (case r of
           Inl e \<Rightarrow>
             if leftover = [] then Some (wrap_err ''receiving all subscriptions failed'' (Inl e))
             else poll_subscriptions leftover evs
         | Inr ms \<Rightarrow> if ms = [] then poll_subscriptions (leftover @ [topic]) evs else Some (Inr ms)))"

text \<open>Renaming for the ordered connection.\<close>

definition ordered_addr :: "queue_addr \<times> 'b \<Rightarrow> queue_addr \<times> 'b" where
  "ordered_addr m = ((fst m)\<lparr>topic_id := topic_id (fst m) @ ordering_topic_suffix\<rparr>, snd m)"

fun strip_ordered :: "(queue_addr \<times> 'b) list \<Rightarrow> (queue_addr \<times> 'b) list result" where
  "strip_ordered [] = Inr []"
| "strip_ordered ((a, b) # ms) =
     (if \<not> suffix ordering_topic_suffix (topic_id a) then eyre ''Received on non-ordered topic''
      else res_bind (strip_ordered ms)
             (\<lambda>out. Inr ((a\<lparr>topic_id := take (length (topic_id a) - length ordering_topic_suffix) (topic_id a)\<rparr>, b) # out)))"

definition ordered_pubsub_send where
  "ordered_pubsub_send publish look_up walk walk_groups topics burst =
     pubsub_send publish look_up walk walk_groups topics (map ordered_addr burst)"

definition ordered_pubsub_recv :: "(queue_addr \<times> 'b) list result \<Rightarrow> (queue_addr \<times> 'b) list result" where
  "ordered_pubsub_recv inner = res_bind (wrap_err ''ordered pubsub conn inner recv'' inner) strip_ordered"

text \<open>\<open>FakeSetGroup\<close>: groups on a connection that has none.\<close>

type_synonym fake_addr = "string \<times> string"

definition fake_group_send :: "(fake_addr \<times> 'd) list \<Rightarrow> (string \<times> 'd) list" where
  "fake_group_send burst = map (\<lambda>((addr, _), body). (addr, body)) burst"

definition fake_group_recv ::
  "(string \<times> 'd) inner_recv \<Rightarrow> (fake_addr \<times> 'd) option list \<Rightarrow> (fake_addr \<times> 'd) option list result option" where
  "fake_group_recv inner msgs_buf =
     map_option (\<lambda>r. res_bind r (\<lambda>bufs.
         let out = take (length msgs_buf) (map_while_take bufs) in
         Inr (map (\<lambda>(a, d). Some ((a, []), d)) out)))
       (inner (length msgs_buf))"

section \<open>What a send publishes\<close>

definition published :: "string \<Rightarrow> string option \<Rightarrow> 't publication list \<Rightarrow> publish_message list" where
  "published tname g out = filter (\<lambda>m. snd m = g) (concat (map (\<lambda>p. if fst p = tname then snd (snd p) else []) out))"

definition of_burst :: "string \<Rightarrow> string option \<Rightarrow> (queue_addr \<times> bytes) list \<Rightarrow> publish_message list" where
  "of_burst tname g burst = map (\<lambda>(a, body). (body, g)) (filter (\<lambda>(a, body). topic_id a = tname \<and> group a = g) burst)"

definition group_of :: "(string option \<times> publish_message list) list \<Rightarrow> string option \<Rightarrow> publish_message list" where
  "group_of gs g = (case map_of gs g of Some ms \<Rightarrow> ms | None \<Rightarrow> [])"

definition batch_for :: "'t topic_batches \<Rightarrow> string \<Rightarrow> string option \<Rightarrow> publish_message list" where
  "batch_for tb tname g = (case map_of tb tname of Some (_, gs) \<Rightarrow> group_of gs g | None \<Rightarrow> [])"

definition groups_ok :: "(string option \<times> publish_message list) list \<Rightarrow> bool" where
  "groups_ok gs \<longleftrightarrow> distinct (map fst gs) \<and> (\<forall>(g, ms) \<in> set gs. ms \<noteq> [] \<and> (\<forall>m \<in> set ms. snd m = g))"

definition topics_ok :: "'t topic_batches \<Rightarrow> bool" where
  "topics_ok tb \<longleftrightarrow> distinct (map fst tb) \<and> (\<forall>(tname, t, gs) \<in> set tb. groups_ok gs)"

text \<open>One publication is for one group and not empty.\<close>

definition one_group :: "'t publication \<Rightarrow> bool" where
  "one_group p \<longleftrightarrow> snd (snd p) \<noteq> [] \<and> (\<exists>g. \<forall>m \<in> set (snd (snd p)). snd m = g)"

lemma published_simps [simp]:
  "published tn g [] = []"
  "published tn g (p # out) = (if fst p = tn then filter (\<lambda>m. snd m = g) (snd (snd p)) @ published tn g out else published tn g out)"
  "published tn g (out @ out') = published tn g out @ published tn g out'"
  by (simp_all add: published_def)

lemma in_update_iff:
  "distinct (map fst al) \<Longrightarrow> (k, v) \<in> set (AList.update k' v' al) \<longleftrightarrow> (if k = k' then v = v' else (k, v) \<in> set al)"
  using map_of_eq_Some_iff [of "AList.update k' v' al" k v] map_of_eq_Some_iff [of al k v]
  by (auto simp: distinct_update update_conv')

lemma update_all:
  assumes "distinct (map fst al)" "\<forall>(k, v) \<in> set al. P k v" "P k' v'"
  shows "\<forall>(k, v) \<in> set (AList.update k' v' al). P k v"
proof (clarify)
  fix k v
  assume "(k, v) \<in> set (AList.update k' v' al)"
  then have "if k = k' then v = v' else (k, v) \<in> set al" by (simp add: in_update_iff [OF assms(1)])
  then show "P k v" using assms(2,3) by (cases "k = k'") auto
qed

lemma push_group_ok:
  assumes "groups_ok gs"
  shows "groups_ok (push_group g (b, g) gs)" "group_of (push_group g (b, g) gs) g' = (if g' = g then group_of gs g @ [(b, g)] else group_of gs g')"
proof -
  have d: "distinct (map fst gs)" using assms by (simp add: groups_ok_def)
  have "\<forall>m \<in> set (group_of gs g). snd m = g"
  proof (cases "map_of gs g")
    case (Some ms)
    then have "(g, ms) \<in> set gs" by (rule map_of_SomeD)
    then show ?thesis using assms Some by (auto simp: groups_ok_def group_of_def)
  qed (simp add: group_of_def)
  then have "\<forall>m \<in> set (group_of gs g @ [(b, g)]). snd m = g" by auto
  then have "\<forall>(g', ms) \<in> set (AList.update g (group_of gs g @ [(b, g)]) gs). ms \<noteq> [] \<and> (\<forall>m \<in> set ms. snd m = g')"
    using assms by (intro update_all [OF d]) (simp_all add: groups_ok_def)
  then show "groups_ok (push_group g (b, g) gs)"
    using d by (simp add: groups_ok_def push_group_def group_of_def [symmetric] distinct_update)
  show "group_of (push_group g (b, g) gs) g' = (if g' = g then group_of gs g @ [(b, g)] else group_of gs g')"
    by (simp add: group_of_def push_group_def update_conv')
qed

lemma push_msg_ok:
  assumes ok: "topics_ok tb"
  shows "topics_ok (push_msg tn t g b tb)"
    "batch_for (push_msg tn t g b tb) tn' g' = (if tn' = tn \<and> g' = g then batch_for tb tn g @ [(b, g)] else batch_for tb tn' g')"
proof -
  have d: "distinct (map fst tb)" using ok by (simp add: topics_ok_def)
  obtain t1 gs where x: "(case map_of tb tn of Some x \<Rightarrow> x | None \<Rightarrow> (t, [])) = (t1, gs)" by fastforce
  have gs: "groups_ok gs"
  proof (cases "map_of tb tn")
    case None
    then show ?thesis using x by (simp add: groups_ok_def)
  next
    case (Some y)
    then have "(tn, t1, gs) \<in> set tb" using x by (simp add: map_of_SomeD)
    then show ?thesis using ok by (auto simp: topics_ok_def)
  qed
  have eq: "push_msg tn t g b tb = AList.update tn (t1, push_group g (b, g) gs) tb" using x by (simp add: push_msg_def)
  show "topics_ok (push_msg tn t g b tb)"
    using ok d push_group_ok(1) [OF gs] update_all [OF d, of "\<lambda>_ (_, gs). groups_ok gs" tn "(t1, push_group g (b, g) gs)"]
    by (simp add: eq topics_ok_def distinct_update)
  have old: "batch_for tb tn g'' = group_of gs g''" for g''
    using x by (auto simp: batch_for_def group_of_def split: option.splits)
  show "batch_for (push_msg tn t g b tb) tn' g' = (if tn' = tn \<and> g' = g then batch_for tb tn g @ [(b, g)] else batch_for tb tn' g')"
    using old push_group_ok(2) [OF gs, of g b g'] by (auto simp: eq batch_for_def update_conv')
qed

lemma sort_burst_ok:
  "sort_burst cached look_up burst new_topics tb = Inr (new1, tb1) \<Longrightarrow> topics_ok tb \<Longrightarrow>
   topics_ok tb1 \<and> batch_for tb1 tn g = batch_for tb tn g @ of_burst tn g burst"
proof (induction cached look_up burst new_topics tb rule: sort_burst.induct)
  case (2 cached look_up a body burst new_topics tb)
  let ?p = "\<lambda>t. push_msg (topic_id a) t (group a) body tb"
  have pm: "topics_ok (?p t)" "batch_for (?p t) tn g @ of_burst tn g burst = batch_for tb tn g @ of_burst tn g ((a, body) # burst)" for t
    using push_msg_ok [OF "2.prems"(2)] by (auto simp: of_burst_def)
  show ?case
  proof (cases "cached (topic_id a)")
    case (Some t)
    then show ?thesis using "2.IH"(2) [OF Some] "2.prems"(1) pm by simp
  next
    case None
    then obtain t where t: "wrap_err ''get topic'' (look_up (topic_id a)) = Inr (Some t)"
      using "2.prems"(1) by (auto split: sum.splits option.splits)
    then show ?thesis using "2.IH"(1) [OF None t refl] "2.prems"(1) None pm by (simp add: fun_upd_def)
  qed
qed (simp add: of_burst_def)

lemma groups_ok_Cons:
  assumes "groups_ok ((g, ms) # gs)"
  shows "groups_ok gs" "ms \<noteq> []" "\<forall>m \<in> set ms. snd m = g" "group_of gs g = []" "filter (\<lambda>m. snd m = g') ms = (if g' = g then ms else [])"
proof -
  have "g \<notin> fst ` set gs" using assms by (simp add: groups_ok_def)
  then show "group_of gs g = []" by (simp add: group_of_def map_of_eq_None_iff [THEN iffD2])
  show m: "groups_ok gs" "ms \<noteq> []" "\<forall>m \<in> set ms. snd m = g" using assms by (auto simp: groups_ok_def)
  show "filter (\<lambda>m. snd m = g') ms = (if g' = g then ms else [])" using m(3) by (auto simp: filter_empty_conv)
qed

lemma publish_groups_ok:
  "publish_groups publish tname t gs = (out, r) \<Longrightarrow> groups_ok gs \<Longrightarrow>
   list_all one_group out \<and> (\<forall>p \<in> set out. fst p = tname)
   \<and> prefix (published tname g out) (group_of gs g) \<and> (r = Inr () \<longrightarrow> published tname g out = group_of gs g)"
proof (induction gs arbitrary: out)
  case (Cons x gs)
  obtain g1 ms where x: "x = (g1, ms)" by (cases x)
  note ok = groups_ok_Cons [OF Cons.prems(2) [unfolded x]]
  have one: "one_group (tname, t, ms)" using ok(2,3) by (auto simp: one_group_def)
  have go: "group_of (x # gs) g = (if g = g1 then ms else group_of gs g)" by (simp add: group_of_def x)
  show ?case
  proof (cases "wrap_err ''Send on topic'' (publish (tname, t, ms))")
    case (Inl e)
    then have "out = [(tname, t, ms)]" "r = Inl e" using Cons.prems(1) x by simp_all
    then show ?thesis using one go ok(5) [of g] by simp
  next
    case (Inr u)
    then obtain out1 where o: "publish_groups publish tname t gs = (out1, r)" "out = (tname, t, ms) # out1"
      using Cons.prems(1) x by (auto split: prod.splits)
    show ?thesis using Cons.IH [OF o(1) ok(1)] one go ok(4) ok(5) [of g] o(2) by auto
  qed
qed (simp add: group_of_def)

lemma published_elsewhere: "\<forall>p \<in> set out. fst p \<noteq> tn \<Longrightarrow> published tn g out = []"
  by (induction out) auto

lemma perm_groups:
  assumes "mset gs' = mset gs" "groups_ok gs"
  shows "groups_ok gs'" "group_of gs' g = group_of gs g"
proof -
  have d: "distinct (map fst gs)" using assms(2) by (simp add: groups_ok_def)
  have "mset (map fst gs') = mset (map fst gs)" using assms(1) by simp
  then have d': "distinct (map fst gs')" using d by (metis mset_eq_imp_distinct_iff)
  show "groups_ok gs'" using assms d' mset_eq_setD [OF assms(1)] by (simp add: groups_ok_def)
  show "group_of gs' g = group_of gs g"
    using map_of_inject_set [OF d' d] mset_eq_setD [OF assms(1)] by (simp add: group_of_def)
qed

lemma publish_topics_ok:
  "publish_topics publish walk_groups tb = (out, r) \<Longrightarrow> (\<forall>gs. mset (walk_groups gs) = mset gs) \<Longrightarrow> topics_ok tb \<Longrightarrow>
   list_all one_group out \<and> (\<forall>p \<in> set out. fst p \<in> fst ` set tb)
   \<and> prefix (published tn g out) (batch_for tb tn g) \<and> (r = Inr () \<longrightarrow> published tn g out = batch_for tb tn g)"
proof (induction tb arbitrary: out)
  case (Cons x tb)
  obtain tname t gs where x: "x = (tname, t, gs)" by (cases x)
  have ok: "topics_ok tb" "groups_ok gs" "tname \<notin> fst ` set tb" using Cons.prems(3) x by (auto simp: topics_ok_def)
  note w = perm_groups [OF Cons.prems(2) [rule_format, of gs] ok(2)]
  obtain out1 r1 where p: "publish_groups publish tname t (walk_groups gs) = (out1, r1)" by fastforce
  note pg = publish_groups_ok [OF p w(1), of g, unfolded w(2)]
  have bf: "batch_for (x # tb) tn g = (if tn = tname then group_of gs g else batch_for tb tn g)" by (simp add: batch_for_def x)
  have pub1: "tn \<noteq> tname \<Longrightarrow> published tn g out1 = []" using pg by (intro published_elsewhere) auto
  show ?case
  proof (cases r1)
    case (Inl e)
    then have "out = out1" "r = Inl e" using Cons.prems(1) x p by simp_all
    then show ?thesis using pg bf pub1 x by auto
  next
    case (Inr u)
    then obtain out2 where o: "publish_topics publish walk_groups tb = (out2, r)" "out = out1 @ out2"
      using Cons.prems(1) x p by (auto split: prod.splits)
    note ih = Cons.IH [OF o(1) Cons.prems(2) ok(1)]
    have pub2: "tn = tname \<Longrightarrow> published tn g out2 = []" using ih ok(3) by (intro published_elsewhere) auto
    show ?thesis using ih pg bf pub1 pub2 o(2) Inr x by (cases "tn = tname") auto
  qed
qed (simp add: batch_for_def)

section \<open>The shared cache\<close>

text \<open>
  Receives of several tasks on clones of a connection. A receive that gets the lock at once and finds
  messages acknowledges those; otherwise it polls the subscriptions and then waits for the lock, with
  which it adds what it got to the cache and acknowledges from its front. The lock is held until the
  receive returns. \<open>arrived\<close> and \<open>delivered\<close> record what has entered the cache and what receives returned.
\<close>

datatype recv_point = Idle | Called nat | Polling nat | Fetched nat "cached_msg list" | Acking nat

record 't pubsub =
  recv_cache :: "cached_msg list"
  lock_holder :: "'t option"
  at :: "'t \<Rightarrow> recv_point"
  arrived :: "cached_msg list"
  delivered :: "(queue_addr \<times> bytes) list"

definition pubsub_init :: "'t pubsub" where
  "pubsub_init = \<lparr>recv_cache = [], lock_holder = None, at = \<lambda>_. Idle, arrived = [], delivered = []\<rparr>"

definition recv_start :: "'t \<Rightarrow> nat \<Rightarrow> 't pubsub \<Rightarrow> 't pubsub" where
  "recv_start t num_slots s =
     (if lock_holder s = None \<and> recv_cache s \<noteq> []
      then s\<lparr>lock_holder := Some t, at := (at s)(t := Acking num_slots)\<rparr>
      else s\<lparr>at := (at s)(t := Polling num_slots)\<rparr>)"

definition recv_locked :: "'t \<Rightarrow> nat \<Rightarrow> cached_msg list \<Rightarrow> 't pubsub \<Rightarrow> 't pubsub" where
  "recv_locked t num_slots msgs s =
     s\<lparr>lock_holder := Some t, recv_cache := recv_cache s @ msgs, arrived := arrived s @ msgs,
       at := (at s)(t := Acking num_slots)\<rparr>"

definition recv_return ::
  "(cached_msg \<Rightarrow> unit result) \<Rightarrow> (bytes \<Rightarrow> unit result) \<Rightarrow> 't \<Rightarrow> nat \<Rightarrow> 't pubsub \<Rightarrow> (queue_addr \<times> bytes) list result \<times> 't pubsub" where
  "recv_return ack utf8 t num_slots s =
     (case return_cached ack utf8 num_slots (recv_cache s) of
        (r, rcg) \<Rightarrow>
          (r, s\<lparr>recv_cache := rcg, lock_holder := None, at := (at s)(t := Idle),
                delivered := delivered s @ (case r of Inr out \<Rightarrow> out | Inl _ \<Rightarrow> [])\<rparr>))"

text \<open>Dropping the future of a receive gives the lock back.\<close>

definition recv_drop :: "'t \<Rightarrow> 't pubsub \<Rightarrow> 't pubsub" where
  "recv_drop t s = s\<lparr>lock_holder := if lock_holder s = Some t then None else lock_holder s, at := (at s)(t := Idle)\<rparr>"

inductive pubsub_step :: "'t pubsub \<Rightarrow> 't pubsub \<Rightarrow> bool" where
  call: "at s t = Idle \<Longrightarrow> pubsub_step s (s\<lparr>at := (at s)(t := Called n)\<rparr>)"
| start: "at s t = Called n \<Longrightarrow> pubsub_step s (recv_start t n s)"
| fetched: "at s t = Polling n \<Longrightarrow> poll_subscriptions futs evs = Some (Inr ms) \<Longrightarrow> pubsub_step s (s\<lparr>at := (at s)(t := Fetched n ms)\<rparr>)"
| failed: "at s t = Polling n \<Longrightarrow> poll_subscriptions futs evs = Some (Inl e) \<Longrightarrow> pubsub_step s (s\<lparr>at := (at s)(t := Idle)\<rparr>)"
| locked: "at s t = Fetched n ms \<Longrightarrow> lock_holder s = None \<Longrightarrow> pubsub_step s (recv_locked t n ms s)"
| returns: "at s t = Acking n \<Longrightarrow> recv_return ack utf8 t n s = (r, s') \<Longrightarrow> pubsub_step s s'"
| dropped: "pubsub_step s (recv_drop t s)"

inductive pubsub_reachable :: "'t pubsub \<Rightarrow> bool" where
  init: "pubsub_reachable pubsub_init"
| step: "pubsub_reachable s \<Longrightarrow> pubsub_step s s' \<Longrightarrow> pubsub_reachable s'"

definition as_received :: "cached_msg \<Rightarrow> queue_addr \<times> bytes" where
  "as_received c =
     (\<lparr>topic_id = fst c, group = if ordering_key (snd c) = [] then None else Some (ordering_key (snd c))\<rparr>, data (snd c))"

lemma ack_all_ok: "ack_all ack utf8 ms = Inr out \<Longrightarrow> out = map as_received ms"
  by (induction ack utf8 ms arbitrary: out rule: ack_all.induct) (auto simp: res_bind_Inr_iff as_received_def)

lemma return_cached_ok:
  assumes "return_cached ack utf8 n rcg = (r, rcg1)"
  shows "map as_received rcg = (case r of Inr out \<Rightarrow> out | Inl _ \<Rightarrow> []) @ map as_received rcg1"
    "r = Inr out \<Longrightarrow> length out = min n (length rcg)"
proof -
  let ?k = "min n (length rcg)"
  have ok: "acked = map as_received (take ?k rcg)" if "ack_and_drain ack utf8 n rcg = Inr acked" for acked
    using ack_all_ok [OF that [unfolded ack_and_drain_def]] .
  have rot: "take (length rcg - ?k) (rotate ?k rcg) = drop ?k rcg"
    using append_take_drop_id [of ?k rcg] rotate_append [of "take ?k rcg" "drop ?k rcg"] by simp
  show "map as_received rcg = (case r of Inr out \<Rightarrow> out | Inl _ \<Rightarrow> []) @ map as_received rcg1"
  proof (cases "ack_and_drain ack utf8 n rcg")
    case (Inl e)
    then have "r = Inl e" "rcg1 = rcg" using assms by (simp_all add: return_cached_def)
    then show ?thesis by simp
  next
    case (Inr acked)
    then have "r = Inr (map as_received (take ?k rcg))" "rcg1 = drop ?k rcg"
      using assms ok [OF Inr] rot by (auto simp: return_cached_def)
    then show ?thesis by (simp add: map_append [symmetric] del: map_append)
  qed
  show "r = Inr out \<Longrightarrow> length out = min n (length rcg)"
    using assms ok by (auto simp: return_cached_def split: sum.splits)
qed

definition pubsub_inv :: "'t pubsub \<Rightarrow> bool" where
  "pubsub_inv s \<longleftrightarrow> map as_received (arrived s) = delivered s @ map as_received (recv_cache s)
     \<and> (\<forall>t n. at s t = Acking n \<longrightarrow> lock_holder s = Some t)"

lemma pubsub_step_inv: "pubsub_step s s' \<Longrightarrow> pubsub_inv s \<Longrightarrow> pubsub_inv s'"
proof (induction rule: pubsub_step.induct)
  case (returns s t n ack utf8 r s')
  obtain rcg where rc: "return_cached ack utf8 n (recv_cache s) = (r, rcg)"
    using returns.hyps(2) by (auto simp: recv_return_def split: prod.splits)
  then have s': "s' = s\<lparr>recv_cache := rcg, lock_holder := None, at := (at s)(t := Idle),
      delivered := delivered s @ (case r of Inr out \<Rightarrow> out | Inl _ \<Rightarrow> [])\<rparr>"
    using returns.hyps(2) by (simp add: recv_return_def)
  have "u = t" if "at s u = Acking m" for u m using returns.hyps(1) returns.prems that unfolding pubsub_inv_def by (metis option.inject)
  then show ?case using returns.prems return_cached_ok(1) [OF rc] by (auto simp: pubsub_inv_def s')
qed (auto simp: pubsub_inv_def recv_start_def recv_locked_def recv_drop_def)

lemma pubsub_reachable_inv: "pubsub_reachable s \<Longrightarrow> pubsub_inv s"
proof (induction rule: pubsub_reachable.induct)
  case init
  show ?case by (simp add: pubsub_inv_def pubsub_init_def)
qed (rule pubsub_step_inv)

section \<open>Properties\<close>

text \<open>
  A send publishes per topic and group, in order. Every call of \<open>publish\<close> carries messages of one
  group. For every topic and group the published messages are a prefix of those of the burst, in their
  order, and all of them if the send succeeds; however the hash maps are walked.
\<close>

lemma pubsub_send_in_order:
  fixes walk :: "'t topic_batches \<Rightarrow> 't topic_batches"
  assumes walks: "\<forall>tb. mset (walk tb) = mset tb" "\<forall>gs. mset (walk_groups gs) = mset gs"
    and send: "pubsub_send publish look_up walk walk_groups topics burst = (out, r, topics1)"
  shows "list_all one_group out \<and> prefix (published tn g out) (of_burst tn g burst)
    \<and> (r = Inr () \<longrightarrow> published tn g out = of_burst tn g burst)"
proof (cases "sort_burst topics look_up burst Map.empty []")
  case (Inl e)
  then show ?thesis using send by (auto simp: pubsub_send_def)
next
  case (Inr x)
  then obtain nt tb where x: "sort_burst topics look_up burst Map.empty [] = Inr (nt, tb)" by (cases x) auto
  have ok: "topics_ok tb" "batch_for tb tn g = of_burst tn g burst"
    using sort_burst_ok [OF x, of tn g] by (simp_all add: topics_ok_def batch_for_def)
  have d: "distinct (map fst tb)" using ok(1) by (simp add: topics_ok_def)
  have m: "mset (walk tb) = mset tb" using walks(1) by simp
  then have "mset (map fst (walk tb)) = mset (map fst tb)" by simp
  then have d': "distinct (map fst (walk tb))" using d by (metis mset_eq_imp_distinct_iff)
  have "map_of (walk tb) = map_of tb" using map_of_inject_set [OF d' d] mset_eq_setD [OF m] by simp
  then have w: "topics_ok (walk tb)" "batch_for (walk tb) tn g = of_burst tn g burst"
    using ok d' mset_eq_setD [OF m] by (simp_all add: topics_ok_def batch_for_def)
  obtain r1 where p: "publish_topics publish walk_groups (walk tb) = (out, r1)" "r1 = Inr () \<longleftrightarrow> r = Inr ()"
    using send x by (auto simp: pubsub_send_def split: prod.splits sum.splits)
  show ?thesis using publish_topics_ok [OF p(1) walks(2) w(1), of tn g] w(2) p(2) by simp
qed


text \<open>The ordered connection gives back the addresses it was given, and refuses other topics.\<close>

lemma ordered_round_trip: "ordered_pubsub_recv (Inr (map ordered_addr ms)) = Inr ms"
proof -
  have "strip_ordered (map ordered_addr ms) = Inr ms"
    by (induction ms) (auto simp: ordered_addr_def suffix_def)
  then show ?thesis by (simp add: ordered_pubsub_recv_def)
qed

text \<open>A subscription gives up after eleven failures, whatever the service answers afterwards.\<close>

lemma sub_receive_gives_up: "11 \<le> length evs \<Longrightarrow> sub_receive topic 0 n evs \<noteq> None"
proof -
  have "k \<le> 10 \<Longrightarrow> 11 - k \<le> length evs \<Longrightarrow> sub_receive topic k n evs \<noteq> None" for k
  proof (induction topic k n evs rule: sub_receive.induct)
    case (3 topic k n e evs)
    then show ?case by (cases "k = 10") auto
  qed auto
  then show "11 \<le> length evs \<Longrightarrow> ?thesis" by simp
qed

section \<open>Examples\<close>

definition ex_topic_burst :: "(queue_addr \<times> bytes) list" where
  "ex_topic_burst =
     [(\<lparr>topic_id = ''x'', group = Some ''a''\<rparr>, [1]), (\<lparr>topic_id = ''y'', group = None\<rparr>, [2]),
      (\<lparr>topic_id = ''x'', group = Some ''b''\<rparr>, [3]), (\<lparr>topic_id = ''x'', group = Some ''a''\<rparr>, [4])]"

definition ex_pub :: "nat publication list \<times> unit result \<times> (string \<rightharpoonup> nat)" where
  "ex_pub = pubsub_send (\<lambda>_. Inr ()) (\<lambda>t. Inr (Some (length t))) rev rev Map.empty ex_topic_burst"

lemma ex_pub_value: "fst (snd ex_pub) = Inr () \<and> map (snd \<circ> snd) (fst ex_pub) = [[([2], None)], [([3], Some ''b'')], [([1], Some ''a''), ([4], Some ''a'')]]"
  by code_simp

lemma pubsub_send_in_order_example:
  "published ''x'' (Some ''a'') (fst ex_pub) = of_burst ''x'' (Some ''a'') ex_topic_burst"
proof -
  obtain out r ts where p: "pubsub_send (\<lambda>_. Inr ()) (\<lambda>t. Inr (Some (length t))) rev rev Map.empty ex_topic_burst = (out, r, ts)"
    by (cases ex_pub) (auto simp: ex_pub_def)
  then have "r = Inr ()" "fst ex_pub = out" using ex_pub_value by (simp_all add: ex_pub_def)
  then show ?thesis using pubsub_send_in_order [OF _ _ p, of "''x''" "Some ''a''"] by simp
qed

definition ex_m :: "nat \<Rightarrow> message" where
  "ex_m i = \<lparr>data = [of_nat i], ordering_key = []\<rparr>"

definition ex_cache :: "nat pubsub" where
  "ex_cache = snd (recv_return (\<lambda>_. Inr ()) (\<lambda>_. Inr ()) 0 1 (recv_locked 0 1 [(''x'', ex_m 0), (''x'', ex_m 1)]
     (pubsub_init\<lparr>at := (\<lambda>_. Idle)(0 := Fetched 1 [(''x'', ex_m 0), (''x'', ex_m 1)])\<rparr>)))"

lemma ex_cache_reachable: "pubsub_reachable ex_cache"
proof -
  note go = pubsub_reachable.step
  let ?ms = "[(''x'', ex_m 0), (''x'', ex_m 1)]"
  let ?s = "\<lambda>p. pubsub_init\<lparr>at := (\<lambda>_. Idle)(0 := p)\<rparr> :: nat pubsub"
  have "pubsub_reachable (?s (Called 1))"
    using go [OF pubsub_reachable.init pubsub_step.call [of pubsub_init 0 1]] by (simp add: pubsub_init_def)
  then have "pubsub_reachable (recv_start 0 1 (?s (Called 1)))" by (rule go) (rule pubsub_step.start, simp)
  then have "pubsub_reachable (?s (Polling 1))" by (simp add: recv_start_def pubsub_init_def)
  then have "pubsub_reachable ((?s (Polling 1))\<lparr>at := (at (?s (Polling 1)))(0 := Fetched 1 ?ms)\<rparr>)"
    by (rule go) (rule pubsub_step.fetched [where futs = "[''x'']" and evs = "[(''x'', Inr ?ms)]"], simp_all)
  then have "pubsub_reachable (?s (Fetched 1 ?ms))" by simp
  then have "pubsub_reachable (recv_locked 0 1 ?ms (?s (Fetched 1 ?ms)))"
    by (rule go) (rule pubsub_step.locked, simp_all add: pubsub_init_def)
  then show ?thesis unfolding ex_cache_def
    by (rule go) (rule pubsub_step.returns [where n = 1], simp add: recv_locked_def, rule surjective_pairing)
qed


end
