(* ===== verification/Stack_Optimizer.thy ===== *)
theory Stack_Optimizer
  imports Prelude
begin

text \<open>
  The rewriting of chunnel stacks (\<open>cx-list-opt/src/lib.rs\<close>): from a transform of one stack into another, the
  macro generates two implementations of a trait, whose types, patterns and expressions this theory
  computes as syntax trees in place of token streams. A small typing of that syntax says when the
  compiler accepts what was generated. The parser of the transform is a use of the \<open>nom\<close> library and not
  modelled.
\<close>

section \<open>Transforms\<close>

datatype var = StoreDefaultName | StoreName string | CreateDefault | FromName string

datatype expr = Ident string var | Wildcard

datatype stack = Leaf expr | Exprs "expr list" | Select stack stack

text \<open>What is generated: types, the pattern of a \<open>let\<close>, and the returned expression.\<close>

datatype ty = Named string | TVar nat | CxList ty ty | CxNil | SelectTy ty ty

datatype pat = PVar string | PCxList pat pat | PCxNil

datatype code = Var string | Into string | FieldInto string | DefaultValue | MkCxList code code | MkCxNil

datatype restructured = Returns code | LetSelf "code option"

definition vname :: "nat \<Rightarrow> string" where
  "vname i = ''v'' @ show_nat i"

definition tname :: "nat \<Rightarrow> string" where
  "tname i = ''t'' @ show_nat i"

section \<open>Types\<close>

fun wild_type :: "nat \<Rightarrow> nat list \<times> ty" where
  "wild_type 0 = ([0], CxList (TVar 0) CxNil)"
| "wild_type (Suc n) = (case wild_type n of (ts, t) \<Rightarrow> (Suc n # ts, CxList (TVar (Suc n)) t))"

definition wrap_wild :: "nat \<Rightarrow> nat list \<times> ty \<Rightarrow> nat list \<times> ty" where
  "wrap_wild n x = fold (\<lambda>i (ts, t). (i # ts, CxList (TVar i) t)) [0..<n] x"

fun list_type :: "expr list \<Rightarrow> nat \<Rightarrow> (nat list \<times> ty) result" where
  "list_type [] n = Inl (Panic ''need at least 1 list element'')"
| "list_type [Wildcard] n = Inr (wild_type n)"
| "list_type [Ident name _] n = Inr ([], CxList (Named name) CxNil)"
| "list_type (Wildcard # e # es) n = res_bind (list_type (e # es) n) (\<lambda>r. Inr (wrap_wild n r))"
| "list_type (Ident name _ # e # es) n = res_bind (list_type (e # es) n) (\<lambda>(ts, t). Inr (ts, CxList (Named name) t))"

fun get_type :: "stack \<Rightarrow> nat \<Rightarrow> (nat list \<times> ty) result" where
  "get_type (Leaf (Ident name _)) n = Inr ([], Named name)"
| "get_type (Leaf Wildcard) n = Inr (wild_type n)"
| "get_type (Exprs es) n = list_type es n"
| "get_type (Select l r) n =
     res_bind (get_type l n) (\<lambda>(ts, t). res_bind (get_type r n) (\<lambda>(us, u). Inr (ts @ us, SelectTy t u)))"

section \<open>Taking the old stack apart and building the new one\<close>

definition pcons :: "string \<Rightarrow> pat option \<Rightarrow> pat option" where
  "pcons x p = Some (PCxList (PVar x) (case p of Some q \<Rightarrow> q | None \<Rightarrow> PCxNil))"

definition mkcons :: "code \<Rightarrow> code option \<Rightarrow> code option" where
  "mkcons h c = Some (MkCxList h (case c of Some d \<Rightarrow> d | None \<Rightarrow> MkCxNil))"

definition wild_pat :: "nat \<Rightarrow> pat option \<Rightarrow> pat option" where
  "wild_pat n p = fold (\<lambda>i. pcons (tname i)) [0..<n] p"

definition wild_code :: "nat \<Rightarrow> code option \<Rightarrow> code option" where
  "wild_code n c = fold (\<lambda>i. mkcons (Var (tname i))) [0..<n] c"

text \<open>One element of a list; the elements come from the last to the first, \<open>val\<close> numbers the default names.\<close>

fun des_elem :: "nat \<Rightarrow> expr \<Rightarrow> nat \<times> pat option \<Rightarrow> (nat \<times> pat option) result" where
  "des_elem n (Ident _ StoreDefaultName) (val, p) = Inr (val + 1, pcons (vname val) p)"
| "des_elem n (Ident _ (StoreName x)) (val, p) = Inr (val, pcons x p)"
| "des_elem n (Ident _ _) (val, p) = Inl (Panic ''unreachable'')"
| "des_elem n Wildcard (val, p) = Inr (val, wild_pat n p)"

fun res_elem :: "nat \<Rightarrow> expr \<Rightarrow> nat \<times> code option \<Rightarrow> (nat \<times> code option) result" where
  "res_elem n (Ident _ StoreDefaultName) (val, c) = Inr (val + 1, mkcons (Into (vname val)) c)"
| "res_elem n (Ident _ CreateDefault) (val, c) = Inr (val, mkcons DefaultValue c)"
| "res_elem n (Ident _ (FromName x)) (val, c) = Inr (val, mkcons (Into x) c)"
| "res_elem n (Ident _ (StoreName _)) (val, c) = Inl (Panic ''unreachable'')"
| "res_elem n Wildcard (val, c) = Inr (val, wild_code n c)"

fun each :: "('e \<Rightarrow> 's \<Rightarrow> 's result) \<Rightarrow> 'e list \<Rightarrow> 's \<Rightarrow> 's result" where
  "each f [] s = Inr s"
| "each f (e # es) s = res_bind (f e s) (each f es)"

fun get_destructure :: "stack \<Rightarrow> nat \<Rightarrow> pat option result" where
  "get_destructure (Leaf (Ident _ StoreDefaultName)) n = Inr (Some (PVar (vname 0)))"
| "get_destructure (Leaf (Ident _ (StoreName x))) n = Inr (Some (PVar x))"
| "get_destructure (Leaf (Ident _ _)) n = Inl (Panic ''unreachable'')"
| "get_destructure (Leaf Wildcard) n = Inr (wild_pat n None)"
| "get_destructure (Exprs es) n = res_bind (each (des_elem n) (rev es) (0, None)) (\<lambda>(_, p). Inr p)"
| "get_destructure (Select _ _) n = Inl (Panic ''not yet implemented'')"

fun get_restructure :: "stack \<Rightarrow> nat \<Rightarrow> restructured option result" where
  "get_restructure (Leaf (Ident _ CreateDefault)) n = Inr (Some (Returns DefaultValue))"
| "get_restructure (Leaf (Ident _ (FromName x))) n = Inr (Some (Returns (Into x)))"
| "get_restructure (Leaf (Ident _ StoreDefaultName)) n = Inr (Some (Returns (FieldInto (vname 0))))"
| "get_restructure (Leaf (Ident _ (StoreName _))) n = Inl (Panic ''unreachable'')"
| "get_restructure (Leaf Wildcard) n = Inr (Some (LetSelf (wild_code n None)))"
| "get_restructure (Exprs es) n =
     res_bind (each (res_elem n) (rev es) (0, None)) (\<lambda>(_, c). Inr (map_option Returns c))"
| "get_restructure (Select _ _) n = Inl (Panic ''not yet implemented'')"

text \<open>An implementation: its type parameters, its type, its return type, and its body.\<close>

record impl =
  params :: "nat list"
  from_type :: ty
  to_type :: ty
  des :: "pat option"
  res :: "restructured option"

definition write_impl_at :: "stack \<Rightarrow> stack \<Rightarrow> nat \<Rightarrow> impl result" where
  "write_impl_at left right i =
     res_bind (get_type left i) (\<lambda>(ts, ft). res_bind (get_type right i) (\<lambda>(_, tt).
       res_bind (get_destructure left i) (\<lambda>d. res_bind (get_restructure right i) (\<lambda>r.
         Inr \<lparr>params = ts, from_type = ft, to_type = tt, des = d, res = r\<rparr>))))"

definition write_impl :: "stack \<Rightarrow> stack \<Rightarrow> (impl \<times> impl) result" where
  "write_impl left right =
     res_bind (write_impl_at left right 0) (\<lambda>i0. res_bind (write_impl_at left right 1) (\<lambda>i1. Inr (i0, i1)))"

section \<open>When the compiler accepts an implementation\<close>

text \<open>
  A pattern has to fit the type it takes apart and binds its variables. An expression has to fit its
  type: a variable by its own type, a conversion if its variable is bound; that the conversions and the
  default values exist is left to the types of the stack.
\<close>

fun binds :: "pat \<Rightarrow> ty \<Rightarrow> (string \<times> ty) list option" where
  "binds (PVar x) t = Some [(x, t)]"
| "binds PCxNil CxNil = Some []"
| "binds (PCxList p q) (CxList t u) =
     (case (binds p t, binds q u) of (Some a, Some b) \<Rightarrow> Some (a @ b) | _ \<Rightarrow> None)"
| "binds _ _ = None"

fun fits :: "(string \<rightharpoonup> ty) \<Rightarrow> code \<Rightarrow> ty \<Rightarrow> bool" where
  "fits env (Var x) t = (env x = Some t)"
| "fits env (Into x) t = (env x \<noteq> None)"
| "fits env DefaultValue t = True"
| "fits env MkCxNil t = (t = CxNil)"
| "fits env (MkCxList c d) (CxList t u) = (fits env c t \<and> fits env d u)"
| "fits env _ _ = False"

fun tvars :: "ty \<Rightarrow> nat set" where
  "tvars (Named _) = {}"
| "tvars (TVar i) = {i}"
| "tvars (CxList t u) = tvars t \<union> tvars u"
| "tvars CxNil = {}"
| "tvars (SelectTy t u) = tvars t \<union> tvars u"

definition well_typed :: "impl \<Rightarrow> bool" where
  "well_typed i \<longleftrightarrow> distinct (params i) \<and> tvars (from_type i) = set (params i) \<and> tvars (to_type i) \<subseteq> set (params i)
     \<and> (case (des i, res i) of
          (Some p, Some (Returns c)) \<Rightarrow>
            (case binds p (from_type i) of
               None \<Rightarrow> False
             | Some env \<Rightarrow> distinct (map fst env) \<and> fits (map_of env) c (to_type i))
        | _ \<Rightarrow> False)"

section \<open>Lists that end in a chunnel\<close>

text \<open>
  The transforms the macro is for: lists that end in a named chunnel and have at most one wildcard. The
  new list takes what the old one stores.
\<close>

fun var_of :: "expr \<Rightarrow> var option" where
  "var_of (Ident _ v) = Some v"
| "var_of Wildcard = None"

definition defaults :: "expr list \<Rightarrow> nat" where
  "defaults es = length (filter (\<lambda>e. var_of e = Some StoreDefaultName) es)"

definition stored :: "expr list \<Rightarrow> string list" where
  "stored es = concat (map (\<lambda>e. case var_of e of Some (StoreName x) \<Rightarrow> [x] | _ \<Rightarrow> []) es)"

definition wildcards :: "expr list \<Rightarrow> nat" where
  "wildcards es = length (filter (\<lambda>e. e = Wildcard) es)"

definition list_ok :: "expr list \<Rightarrow> bool" where
  "list_ok es \<longleftrightarrow> es \<noteq> [] \<and> last es \<noteq> Wildcard \<and> wildcards es \<le> 1"

definition left_ok :: "expr list \<Rightarrow> bool" where
  "left_ok es \<longleftrightarrow> list_ok es \<and> (\<forall>e \<in> set es. case var_of e of Some CreateDefault \<Rightarrow> False | Some (FromName _) \<Rightarrow> False | _ \<Rightarrow> True)
     \<and> distinct (stored es) \<and> (\<forall>x \<in> set (stored es). \<forall>i. x \<noteq> vname i \<and> x \<noteq> tname i)"

definition right_ok :: "expr list \<Rightarrow> expr list \<Rightarrow> bool" where
  "right_ok ls rs \<longleftrightarrow> list_ok rs \<and> wildcards rs \<le> wildcards ls \<and> defaults rs \<le> defaults ls
     \<and> (\<forall>e \<in> set rs. case var_of e of Some (StoreName _) \<Rightarrow> False | Some (FromName x) \<Rightarrow> x \<in> set (stored ls) | _ \<Rightarrow> True)"

text \<open>Such a list is generated as a plain list of types, of names, and of expressions.\<close>

fun elem_tys :: "nat \<Rightarrow> expr \<Rightarrow> ty list" where
  "elem_tys n (Ident name _) = [Named name]"
| "elem_tys n Wildcard = map TVar (rev [0..<n])"

fun elem_params :: "nat \<Rightarrow> expr \<Rightarrow> nat list" where
  "elem_params n (Ident _ _) = []"
| "elem_params n Wildcard = rev [0..<n]"

fun names :: "nat \<Rightarrow> expr list \<Rightarrow> string list" where
  "names n [] = []"
| "names n (Ident _ (StoreName x) # es) = x # names n es"
| "names n (Ident _ _ # es) = vname (defaults es) # names n es"
| "names n (Wildcard # es) = map tname (rev [0..<n]) @ names n es"

fun codes :: "nat \<Rightarrow> expr list \<Rightarrow> code list" where
  "codes n [] = []"
| "codes n (Ident _ CreateDefault # es) = DefaultValue # codes n es"
| "codes n (Ident _ (FromName x) # es) = Into x # codes n es"
| "codes n (Ident _ _ # es) = Into (vname (defaults es)) # codes n es"
| "codes n (Wildcard # es) = map (\<lambda>i. Var (tname i)) (rev [0..<n]) @ codes n es"

definition list_tys :: "nat \<Rightarrow> expr list \<Rightarrow> ty list" where
  "list_tys n es = concat (map (elem_tys n) es)"

definition fold_ty :: "ty list \<Rightarrow> ty" where
  "fold_ty ts = foldr CxList ts CxNil"

definition fold_pat :: "string list \<Rightarrow> pat" where
  "fold_pat xs = foldr (\<lambda>x. PCxList (PVar x)) xs PCxNil"

definition fold_code :: "code list \<Rightarrow> code" where
  "fold_code cs = foldr MkCxList cs MkCxNil"

lemma fold_simps [simp]:
  "fold_ty [] = CxNil" "fold_ty (t # ts) = CxList t (fold_ty ts)"
  "fold_pat [] = PCxNil" "fold_pat (x # xs) = PCxList (PVar x) (fold_pat xs)"
  "fold_code [] = MkCxNil" "fold_code (c # cs) = MkCxList c (fold_code cs)"
  by (simp_all add: fold_ty_def fold_pat_def fold_code_def)

lemma list_tys_simps [simp]: "list_tys n [] = []" "list_tys n (e # es) = elem_tys n e @ list_tys n es"
  by (simp_all add: list_tys_def)

lemma defaults_simps [simp]:
  "defaults [] = 0" "defaults (e # es) = (if var_of e = Some StoreDefaultName then Suc (defaults es) else defaults es)"
  "wildcards [] = 0" "wildcards (e # es) = (if e = Wildcard then Suc (wildcards es) else wildcards es)"
  "stored [] = []" "stored (e # es) = (case var_of e of Some (StoreName x) \<Rightarrow> [x] | _ \<Rightarrow> []) @ stored es"
  by (simp_all add: defaults_def wildcards_def stored_def)

lemma wrap_wild_eq: "wrap_wild n (ts, fold_ty us) = (rev [0..<n] @ ts, fold_ty (map TVar (rev [0..<n]) @ us))"
  unfolding wrap_wild_def by (induction n arbitrary: ts us) simp_all

lemma list_type_eq:
  "es \<noteq> [] \<Longrightarrow> last es \<noteq> Wildcard \<Longrightarrow> list_type es n = Inr (concat (map (elem_params n) es), fold_ty (list_tys n es))"
  by (induction es n rule: list_type.induct) (auto simp: wrap_wild_eq)

lemma each_append: "each f (xs @ ys) s = res_bind (each f xs s) (each f ys)"
  by (induction xs arbitrary: s) (simp_all add: res_bind_def split: sum.split)

definition opt_pat :: "string list \<Rightarrow> pat option" where
  "opt_pat xs = (if xs = [] then None else Some (fold_pat xs))"

definition opt_code :: "code list \<Rightarrow> code option" where
  "opt_code cs = (if cs = [] then None else Some (fold_code cs))"

lemma cons_opt [simp]: "pcons x (opt_pat xs) = opt_pat (x # xs)" "mkcons c (opt_code cs) = opt_code (c # cs)"
  by (simp_all add: pcons_def opt_pat_def mkcons_def opt_code_def)

lemma wild_eq: "wild_pat n (opt_pat xs) = opt_pat (map tname (rev [0..<n]) @ xs)"
  "wild_code n (opt_code cs) = opt_code (map (\<lambda>i. Var (tname i)) (rev [0..<n]) @ cs)"
  unfolding wild_pat_def wild_code_def by (induction n arbitrary: xs cs) simp_all

lemma des_eq:
  "\<forall>e \<in> set es. case var_of e of Some CreateDefault \<Rightarrow> False | Some (FromName _) \<Rightarrow> False | _ \<Rightarrow> True \<Longrightarrow>
   each (des_elem n) (rev es) (0, None) = Inr (defaults es, opt_pat (names n es))"
proof (induction es)
  case Nil
  show ?case by (simp add: opt_pat_def)
next
  case (Cons e es)
  then have ih: "each (des_elem n) (rev es) (0, None) = Inr (defaults es, opt_pat (names n es))" by simp
  show ?case
  proof (cases e)
    case (Ident name v)
    then show ?thesis using Cons.prems ih by (cases v) (simp_all add: each_append)
  next
    case Wildcard
    then show ?thesis using ih by (simp add: each_append wild_eq)
  qed
qed

lemma res_eq:
  "\<forall>e \<in> set es. case var_of e of Some (StoreName _) \<Rightarrow> False | _ \<Rightarrow> True \<Longrightarrow>
   each (res_elem n) (rev es) (0, None) = Inr (defaults es, opt_code (codes n es))"
proof (induction es)
  case Nil
  show ?case by (simp add: opt_code_def)
next
  case (Cons e es)
  then have ih: "each (res_elem n) (rev es) (0, None) = Inr (defaults es, opt_code (codes n es))" by simp
  show ?case
  proof (cases e)
    case (Ident name v)
    then show ?thesis using Cons.prems ih by (cases v) (simp_all add: each_append)
  next
    case Wildcard
    then show ?thesis using ih by (simp add: each_append wild_eq)
  qed
qed

lemma names_inject [simp]: "vname i = vname j \<longleftrightarrow> i = j" "tname i = tname j \<longleftrightarrow> i = j" "vname i \<noteq> tname j" "tname j \<noteq> vname i"
  by (simp_all add: vname_def tname_def)

lemma length_names: "length (names n es) = length (list_tys n es)"
  by (induction n es rule: names.induct) auto

lemma set_names:
  assumes "\<forall>e \<in> set es. case var_of e of Some CreateDefault \<Rightarrow> False | Some (FromName _) \<Rightarrow> False | _ \<Rightarrow> True"
  shows "set (names n es) = vname ` {..<defaults es} \<union> set (stored es) \<union> (if wildcards es = 0 then {} else tname ` {..<n})"
  using assms by (induction n es rule: names.induct) (auto simp: lessThan_Suc split: var.splits)

lemma distinct_names:
  assumes "\<forall>e \<in> set es. case var_of e of Some CreateDefault \<Rightarrow> False | Some (FromName _) \<Rightarrow> False | _ \<Rightarrow> True"
    "distinct (stored es)" "\<forall>x \<in> set (stored es). \<forall>i. x \<noteq> vname i \<and> x \<noteq> tname i" "wildcards es \<le> 1"
  shows "distinct (names n es)"
  using assms
proof (induction es)
  case (Cons e es)
  have vars: "\<forall>e \<in> set es. case var_of e of Some CreateDefault \<Rightarrow> False | Some (FromName _) \<Rightarrow> False | _ \<Rightarrow> True"
    using Cons.prems(1) by simp
  note set = set_names [OF vars, of n]
  have ih: "distinct (names n es)" using Cons.prems by (intro Cons.IH [OF vars]) (auto split: var.splits option.splits if_splits)
  show ?case
  proof (cases e)
    case (Ident name v)
    then show ?thesis using Cons.prems ih set by (cases v) (auto split: if_splits)
  next
    case Wildcard
    then have "wildcards es = 0" using Cons.prems(4) by simp
    moreover have "distinct (map tname (rev [0..<n]))" by (simp add: distinct_map inj_on_def)
    ultimately show ?thesis using Wildcard Cons.prems(3) ih set by auto
  qed
qed simp

text \<open>The pattern fits the type of the old list, and the expression that of the new one.\<close>

lemma binds_fold: "length xs = length ts \<Longrightarrow> binds (fold_pat xs) (fold_ty ts) = Some (zip xs ts)"
  by (induction xs ts rule: list_induct2) auto

lemma fits_fold: "list_all2 (fits env) cs ts \<Longrightarrow> fits env (fold_code cs) (fold_ty ts)"
  by (induction cs ts rule: list_all2_induct) auto

lemma wild_bound: "wildcards es \<noteq> 0 \<Longrightarrow> i < n \<Longrightarrow> (tname i, TVar i) \<in> set (zip (names n es) (list_tys n es))"
proof (induction es)
  case (Cons e es)
  have ti: "(tname i, TVar i) \<in> set (zip (map tname (rev [0..<n])) (map TVar (rev [0..<n])))"
    using Cons.prems(2) by (auto simp: zip_map_map zip_same_conv_map)
  show ?case
  proof (cases e)
    case (Ident name v)
    then show ?thesis using Cons by (cases v) auto
  next
    case Wildcard
    then show ?thesis using ti by (simp add: zip_append)
  qed
qed simp

lemma codes_fit:
  assumes v: "\<forall>i < k. env (vname i) \<noteq> None" and t: "w \<noteq> 0 \<Longrightarrow> \<forall>i < n. env (tname i) = Some (TVar i)"
    and s: "\<forall>x \<in> S. env x \<noteq> None"
  shows "\<forall>e \<in> set rs. case var_of e of Some (StoreName _) \<Rightarrow> False | Some (FromName x) \<Rightarrow> x \<in> S | _ \<Rightarrow> True \<Longrightarrow>
    defaults rs \<le> k \<Longrightarrow> wildcards rs \<le> w \<Longrightarrow> list_all2 (fits env) (codes n rs) (list_tys n rs)"
proof (induction rs)
  case (Cons e rs)
  then have ih: "list_all2 (fits env) (codes n rs) (list_tys n rs)" by (auto split: if_splits)
  show ?case
  proof (cases e)
    case (Ident name va)
    then show ?thesis using ih Cons.prems v s by (cases va) auto
  next
    case Wildcard
    then have "w \<noteq> 0" using Cons.prems(3) by simp
    then have "list_all2 (fits env) (map (\<lambda>i. Var (tname i)) (rev [0..<n])) (map TVar (rev [0..<n]))"
      using t by (auto simp: list_all2_conv_all_nth rev_nth)
    then show ?thesis using Wildcard ih by (simp add: list_all2_appendI)
  qed
qed simp

lemma params_eq:
  "wildcards es \<le> 1 \<Longrightarrow> concat (map (elem_params n) es) = (if wildcards es = 0 then [] else rev [0..<n])"
proof (induction es)
  case (Cons e es)
  then show ?case by (cases e) auto
qed simp

lemma tvars_fold: "tvars (fold_ty ts) = (\<Union>t \<in> set ts. tvars t)"
  by (induction ts) auto

lemma tvars_list: "tvars (fold_ty (list_tys n es)) = (if wildcards es = 0 then {} else {..<n})"
proof (induction es)
  case (Cons e es)
  then show ?case by (cases e) (auto simp: tvars_fold)
qed (simp add: tvars_fold)

lemma nonempty_generated:
  "es \<noteq> [] \<Longrightarrow> last es \<noteq> Wildcard \<Longrightarrow> names n es \<noteq> []"
  "es \<noteq> [] \<Longrightarrow> last es \<noteq> Wildcard \<Longrightarrow> codes n es \<noteq> []"
  by (induction n es rule: names.induct, auto, induction n es rule: codes.induct, auto split: if_splits)

section \<open>Properties\<close>



text \<open>
  A wildcard at the end of the list is given one type more than the pattern takes apart, so neither
  implementation of \<open>Foo |> * => Bar |> *\<close> compiles.
\<close>

lemma trailing_wildcard_ill_typed:
  "\<exists>i0 i1. write_impl (Exprs [Ident ''Foo'' StoreDefaultName, Wildcard]) (Exprs [Ident ''Bar'' StoreDefaultName, Wildcard]) = Inr (i0, i1)
     \<and> \<not> well_typed i0 \<and> \<not> well_typed i1"
  by (simp add: write_impl_def write_impl_at_def well_typed_def pcons_def mkcons_def wild_pat_def wild_code_def upt_rec)

text \<open>A stack of alternatives has a type but no code: the macro panics on it.\<close>

lemma select_not_generated:
  assumes "get_type (Select l r) 0 = Inr t" "get_type right 0 = Inr u"
  shows "write_impl (Select l r) right = Inl (Panic ''not yet implemented'')"
  using assms by (cases t; cases u) (simp add: write_impl_def write_impl_at_def)

end
