(* ===== verification/Log_Parser.thy ===== *)
theory Log_Parser
  imports Kvstore Pubsub
begin

text \<open>
  The log parsing application (\<open>elk-app-logparser/src\<close>), its data and its last two stages: log lines and the
  addresses in them (\<open>parse_log.rs\<close>), the estimate of a client's output rate, the connection that carries
  histograms (\<open>EstOutputRateCn\<close>), the loop of the parser (\<open>bin/logparser.rs\<close>) and the consumer
  (\<open>bin/consumer.rs\<close>).

  The parser of log lines and the histogram are libraries, and so parameters; a histogram is what records
  values, counts them and can be serialized. An estimated rate is a quotient in floating point, which is a
  parameter of its own. Times are integers in nanoseconds.
\<close>

section \<open>Addresses as text\<close>

text \<open>
  \<open>IpAddr::to_string\<close> and \<open>IpAddr::from_str\<close>: four decimal numbers without leading zeros and with dots between them;
  the text of the longer addresses is a parameter.
\<close>

fun join_with :: "char \<Rightarrow> string list \<Rightarrow> string" where
  "join_with d [] = []"
| "join_with d [w] = w"
| "join_with d (w # ws) = w @ d # join_with d ws"

definition show_v4 :: "32 word \<Rightarrow> string" where
  "show_v4 w = join_with (CHR ''.'') (map (\<lambda>b. show_nat (unat b)) (be_bytes 4 w))"

definition parse_octet :: "string \<Rightarrow> u8 option" where
  "parse_octet s = (let n = read_nat s in if n < 256 \<and> show_nat n = s then Some (of_nat n) else None)"

definition parse_v4 :: "string \<Rightarrow> 32 word option" where
  "parse_v4 s =
     (case map parse_octet (split_at (CHR ''.'') s) of
        [Some a, Some b, Some c, Some d] \<Rightarrow> Some (from_be_bytes [a, b, c, d])
      | _ \<Rightarrow> None)"

fun show_ip :: "(128 word \<Rightarrow> string) \<Rightarrow> ip_addr \<Rightarrow> string" where
  "show_ip show_v6 (V4 w) = show_v4 w"
| "show_ip show_v6 (V6 w) = show_v6 w"

definition parse_ip :: "(string \<Rightarrow> 128 word option) \<Rightarrow> string \<Rightarrow> ip_addr option" where
  "parse_ip parse_v6 s = (case parse_v4 s of Some w \<Rightarrow> Some (V4 w) | None \<Rightarrow> map_option V6 (parse_v6 s))"

definition v6_text :: "(128 word \<Rightarrow> string) \<Rightarrow> (string \<Rightarrow> 128 word option) \<Rightarrow> bool" where
  "v6_text show_v6 parse_v6 \<longleftrightarrow> (\<forall>w. parse_v6 (show_v6 w) = Some w \<and> CHR '':'' \<in> set (show_v6 w))"

lemma digits_show_nat: "c \<in> set (show_nat n) \<Longrightarrow> 48 \<le> (of_char c :: nat) \<and> (of_char c :: nat) < 58"
proof (induction n rule: show_nat.induct)
  case (1 n)
  have "n mod 10 < 10" by simp
  then show ?case using 1 by (cases "n < 10") (auto simp: show_nat.simps [of n] of_char_digit)
qed

lemma no_separator [simp]: "CHR ''.'' \<notin> set (show_nat n)" "CHR '':'' \<notin> set (show_nat n)"
  by (auto dest!: digits_show_nat)

lemma split_at_word: "d \<notin> set w \<Longrightarrow> split_at d w = [w]"
  by (induction w) auto

lemma split_at_append: "d \<notin> set w \<Longrightarrow> split_at d (w @ d # s) = w # split_at d s"
  by (induction w) auto

lemma split_join: "ws \<noteq> [] \<Longrightarrow> \<forall>w \<in> set ws. d \<notin> set w \<Longrightarrow> split_at d (join_with d ws) = ws"
  by (induction d ws rule: join_with.induct) (auto simp: split_at_word split_at_append)

lemma parse_show_octet [simp]: "parse_octet (show_nat (unat b)) = Some b"
  using unsigned_less [of b, where ?'a = nat] by (simp add: parse_octet_def Let_def)

lemma parse_show_v4 [simp]: "parse_v4 (show_v4 w) = Some w"
proof -
  have "map parse_octet (split_at (CHR ''.'') (show_v4 w)) = map Some (be_bytes 4 w)"
    unfolding show_v4_def by (subst split_join) (auto simp: numeral_eq_Suc)
  moreover have "from_be_bytes (be_bytes 4 w) = w" by (rule from_be_bytes_be_bytes) simp
  ultimately show ?thesis by (simp add: parse_v4_def numeral_eq_Suc)
qed

lemma split_at_chars: "c \<in> set s \<Longrightarrow> c = d \<or> (\<exists>w \<in> set (split_at d s). c \<in> set w)"
  by (induction s) (auto split: list.splits)

lemma parse_octet_digits: "parse_octet s = Some b \<Longrightarrow> CHR '':'' \<notin> set s"
  by (metis no_separator(2) option.distinct(1) parse_octet_def)

lemma parse_v4_digits: "CHR '':'' \<in> set s \<Longrightarrow> parse_v4 s = None"
proof -
  assume "CHR '':'' \<in> set s"
  then obtain w where "w \<in> set (split_at (CHR ''.'') s)" "CHR '':'' \<in> set w"
    using split_at_chars [of "CHR '':''" s "CHR ''.''"] by auto
  then have "None \<in> set (map parse_octet (split_at (CHR ''.'') s))"
    by (metis image_eqI list.set_map not_None_eq parse_octet_digits)
  then show ?thesis by (auto simp: parse_v4_def split: list.splits option.splits)
qed

lemma parse_show_ip: "v6_text show_v6 parse_v6 \<Longrightarrow> parse_ip parse_v6 (show_ip show_v6 a) = Some a"
  by (cases a) (simp_all add: parse_ip_def v6_text_def parse_v4_digits)

section \<open>Log lines\<close>

datatype line = Report string | Ack

fun line_key :: "line \<Rightarrow> string" where
  "line_key (Report s) = s"
| "line_key Ack = ''ack''"

record parsed_line =
  client_ip :: ip_addr
  line_text :: string

text \<open>The lines of the load generator, as functions of their position.\<close>

definition sample_ips :: "ip_addr list" where
  "sample_ips = map (\<lambda>i. V4 (from_be_bytes [10, 0, 0, i])) [0, 1, 2, 3, 4, 5, 6, 7, 8, 9]"

definition sample_parsed_line :: "nat \<Rightarrow> parsed_line" where
  "sample_parsed_line i = \<lparr>client_ip = sample_ips ! (i mod length sample_ips), line_text = replicate 128 (CHR ''a'')\<rparr>"

definition line_from_ts :: "(128 word \<Rightarrow> string) \<Rightarrow> ('ts \<Rightarrow> string) \<Rightarrow> 'ts \<times> parsed_line \<Rightarrow> string" where
  "line_from_ts show_v6 to_rfc3339 x =
     (case x of (ts, p) \<Rightarrow>
        show_ip show_v6 (client_ip p) @ '' - - ['' @ to_rfc3339 ts @ ''] '' @ [CHR 0x22] @ line_text p @ [CHR 0x22]
          @ '' '' @ show_nat 200 @ '' '' @ show_nat 100)"

definition sample_interarrival_ms :: int where
  "sample_interarrival_ms = 19"

definition sample_logentry_line :: "(128 word \<Rightarrow> string) \<Rightarrow> (int \<Rightarrow> string) \<Rightarrow> int \<Rightarrow> nat \<Rightarrow> string" where
  "sample_logentry_line show_v6 to_rfc3339 start i =
     line_from_ts show_v6 to_rfc3339 (start + int i * sample_interarrival_ms * 1000000, sample_parsed_line i)"

text \<open>
  \<open>peel_ip\<close> is \<open>None\<close> for a line it cannot read, and otherwise the address of the line if it has one; \<open>parse\<close> is \<open>None\<close>
  for a line that is not an entry.
\<close>

definition parse_raw :: "(string \<Rightarrow> ip_addr option option) \<Rightarrow> string list \<Rightarrow> parsed_line list" where
  "parse_raw peel_ip ls =
     List.map_filter (\<lambda>l. Option.bind (peel_ip l) (\<lambda>ip. map_option (\<lambda>a. \<lparr>client_ip = a, line_text = l\<rparr>) ip)) ls"

record log_entry =
  status_code :: "nat option"
  time :: "int option"
  object_size :: "nat option"

definition parse_lines :: "(string \<Rightarrow> log_entry result) \<Rightarrow> parsed_line list \<Rightarrow> log_entry result list" where
  "parse_lines parse ls = map (\<lambda>p. parse (line_text p)) ls"

lemma parse_raw_append: "parse_raw peel_ip (a @ b) = parse_raw peel_ip a @ parse_raw peel_ip b"
  by (simp add: parse_raw_def List.map_filter_def)

lemma parse_lines_append: "parse_lines parse (a @ b) = parse_lines parse a @ parse_lines parse b"
  by (simp add: parse_lines_def)

section \<open>Estimated output rates\<close>

record 'h est_output_rate =
  hist :: 'h
  prev_ts :: "int option"

text \<open>What the histogram is: an empty one, recording a value, the number of its values.\<close>

record 'h histogram_ops =
  new_hist :: 'h
  record_value :: "u64 \<Rightarrow> 'h \<Rightarrow> 'h result"
  hist_len :: "'h \<Rightarrow> nat"

definition default_rate :: "'h histogram_ops \<Rightarrow> 'h est_output_rate" where
  "default_rate ops = \<lparr>hist = new_hist ops, prev_ts = None\<rparr>"

definition rate_len :: "'h histogram_ops \<Rightarrow> 'h est_output_rate \<Rightarrow> nat" where
  "rate_len ops e = hist_len ops (hist e)"

text \<open>Only entries of successful requests with a time and a size count.\<close>

definition is_success :: "nat \<Rightarrow> bool" where
  "is_success sc \<longleftrightarrow> 200 \<le> sc \<and> sc < 300"

definition entry_sample :: "log_entry \<Rightarrow> (int \<times> nat) option" where
  "entry_sample e =
     (if (case status_code e of Some sc \<Rightarrow> is_success sc | None \<Rightarrow> False)
      then Option.bind (time e) (\<lambda>t. map_option (Pair t) (object_size e)) else None)"

text \<open>\<open>rate size elapsed\<close> is the quotient; \<open>to_std\<close> refuses a negative duration.\<close>

definition to_std :: "int \<Rightarrow> nat result" where
  "to_std d = (if d < 0 then eyre ''out of range'' else Inr (nat d))"

definition record_or_warn :: "'h histogram_ops \<Rightarrow> u64 \<Rightarrow> 'h \<Rightarrow> 'h" where
  "record_or_warn ops v h = (case record_value ops v h of Inl _ \<Rightarrow> h | Inr h1 \<Rightarrow> h1)"

fun new_samples ::
  "'h histogram_ops \<Rightarrow> (nat \<Rightarrow> nat \<Rightarrow> u64) \<Rightarrow> (int \<times> nat) list \<Rightarrow> 'h est_output_rate \<Rightarrow> nat \<Rightarrow> ('h est_output_rate \<times> nat) result" where
  "new_samples ops rate [] st proc_cnt = Inr (st, proc_cnt)"
| "new_samples ops rate ((ts, obj_size) # samples) st proc_cnt =
     (case prev_ts st of
        None \<Rightarrow> new_samples ops rate samples (st\<lparr>prev_ts := Some ts\<rparr>) (proc_cnt + 1)
      | Some p \<Rightarrow>
          if ts < p then new_samples ops rate samples st proc_cnt
          else res_bind (expect ''negative condition checked above'' (to_std (ts - p))) (\<lambda>el.
                 new_samples ops rate samples
                   (st\<lparr>hist := record_or_warn ops (rate obj_size el) (hist st), prev_ts := Some ts\<rparr>) (proc_cnt + 1)))"

definition new_entries ::
  "'h histogram_ops \<Rightarrow> (nat \<Rightarrow> nat \<Rightarrow> u64) \<Rightarrow> log_entry list \<Rightarrow> 'h est_output_rate \<Rightarrow> ('h est_output_rate \<times> nat) result" where
  "new_entries ops rate entries st = new_samples ops rate (List.map_filter entry_sample entries) st 0"

text \<open>
  The reference: of the samples, those count that are not before the last one that counted, and each
  but the first contributes the rate since the one before.
\<close>

fun in_time :: "int option \<Rightarrow> (int \<times> nat) list \<Rightarrow> (int \<times> nat) list" where
  "in_time p [] = []"
| "in_time p ((ts, s) # samples) =
     (if (case p of Some q \<Rightarrow> ts < q | None \<Rightarrow> False) then in_time p samples else (ts, s) # in_time (Some ts) samples)"

fun rates_after :: "(nat \<Rightarrow> nat \<Rightarrow> u64) \<Rightarrow> int option \<Rightarrow> (int \<times> nat) list \<Rightarrow> u64 list" where
  "rates_after rate p [] = []"
| "rates_after rate None ((ts, _) # samples) = rates_after rate (Some ts) samples"
| "rates_after rate (Some p) ((ts, s) # samples) = rate s (nat (ts - p)) # rates_after rate (Some ts) samples"

definition last_time :: "int option \<Rightarrow> (int \<times> nat) list \<Rightarrow> int option" where
  "last_time p samples = (if samples = [] then p else Some (fst (last samples)))"

lemma last_time_simps [simp]: "last_time p [] = p" "last_time p ((ts, s) # samples) = last_time (Some ts) samples"
  by (simp_all add: last_time_def)

lemma new_samples_eq:
  "new_samples ops rate samples st n =
     Inr (st\<lparr>hist := fold (record_or_warn ops) (rates_after rate (prev_ts st) (in_time (prev_ts st) samples)) (hist st),
             prev_ts := last_time (prev_ts st) (in_time (prev_ts st) samples)\<rparr>,
          n + length (in_time (prev_ts st) samples))"
proof (induction samples arbitrary: st n)
  case (Cons x samples)
  obtain ts s where x: "x = (ts, s)" by (cases x)
  show ?case
  proof (cases "prev_ts st")
    case None
    then show ?thesis by (simp add: x Cons.IH)
  next
    case (Some p)
    then show ?thesis by (cases "ts < p") (simp_all add: x Cons.IH to_std_def)
  qed
qed simp

lemma new_samples_append:
  "new_samples ops rate (a @ b) st n = res_bind (new_samples ops rate a st n) (\<lambda>(st1, n1). new_samples ops rate b st1 n1)"
  by (induction a arbitrary: st n) (auto simp: to_std_def split: option.split)

text \<open>Entries may come in one batch or in several.\<close>

lemma new_entries_append:
  "new_entries ops rate (a @ b) st =
     res_bind (new_entries ops rate a st) (\<lambda>(st1, n). res_bind (new_entries ops rate b st1) (\<lambda>(st2, m). Inr (st2, n + m)))"
proof -
  have mf: "List.map_filter f (a @ b) = List.map_filter f a @ List.map_filter f b" for f :: "log_entry \<Rightarrow> (int \<times> nat) option"
    by (simp add: List.map_filter_def)
  obtain st1 n where a: "new_samples ops rate (List.map_filter entry_sample a) st 0 = Inr (st1, n)"
    by (simp add: new_samples_eq)
  have "new_samples ops rate ss st1 n = res_bind (new_samples ops rate ss st1 0) (\<lambda>(st2, m). Inr (st2, n + m))" for ss
    by (simp only: new_samples_eq) simp
  from this [of "List.map_filter entry_sample b"] a show ?thesis
    by (simp only: new_entries_def mf new_samples_append) simp
qed

lemma in_time_from: "x \<in> set (in_time (Some q) samples) \<Longrightarrow> q \<le> fst x"
  by (induction samples arbitrary: q) (auto split: if_splits, force)

lemma sorted_in_time: "sorted (map fst (in_time p samples))"
  by (induction p samples rule: in_time.induct) (auto dest: in_time_from)

section \<open>EstOutputRateCn\<close>

record 'h rate_hist =
  hist_ip :: ip_addr
  hist_h :: 'h

definition rate_hist_new :: "ip_addr \<Rightarrow> 'h est_output_rate \<Rightarrow> 'h rate_hist" where
  "rate_hist_new ip e = \<lparr>hist_ip = ip, hist_h = hist e\<rparr>"

fun ip_prefix :: "ip_addr \<Rightarrow> bytes" where
  "ip_prefix (V4 w) = 32 # be_bytes 4 w"
| "ip_prefix (V6 w) = 128 # be_bytes 16 w"

definition hist_encode :: "('h \<Rightarrow> bytes result) \<Rightarrow> 'h rate_hist \<Rightarrow> bytes result" where
  "hist_encode ser h = res_bind (ser (hist_h h)) (\<lambda>b. Inr (ip_prefix (hist_ip h) @ b))"

definition hist_send :: "('h \<Rightarrow> bytes result) \<Rightarrow> ('a \<times> 'h rate_hist) list \<Rightarrow> ('a \<times> bytes) list result" where
  "hist_send ser burst = collect_results (with_addr (hist_encode ser)) burst"

text \<open>The address in front of a message and where the histogram begins; indexing panics on a short message.\<close>

definition peel_prefix :: "bytes \<Rightarrow> (ip_addr \<times> nat) result" where
  "peel_prefix v =
     (if v = [] then Inl (Panic ''index out of bounds'')
      else if v ! 0 = 32
      then (if length v < 5 then Inl (Panic ''range end index out of range'')
            else Inr (V4 (from_be_bytes (take 4 (drop 1 v))), 5))
      else if v ! 0 = 128
      then (if length v < 17 then Inl (Panic ''range end index out of range'')
            else Inr (V6 (from_be_bytes (take 16 (drop 1 v))), 17))
      else eyre ''Unknown address size'')"

text \<open>A histogram that cannot be read is skipped; the others take the slots from the first on.\<close>

fun hist_slots ::
  "(bytes \<Rightarrow> 'h result) \<Rightarrow> ('a \<times> bytes) list \<Rightarrow> ('a \<times> 'h rate_hist) option list \<Rightarrow> nat
     \<Rightarrow> nat result \<times> ('a \<times> 'h rate_hist) option list" where
  "hist_slots des [] buf slot_idx = (Inr slot_idx, buf)"
| "hist_slots des ((a, v) # ms) buf slot_idx =
     (case peel_prefix v of
        Inl e \<Rightarrow> (Inl e, buf)
      | Inr (ip, offset) \<Rightarrow>
          (case des (drop offset v) of
             Inl _ \<Rightarrow> hist_slots des ms buf slot_idx
           | Inr h \<Rightarrow>
               if slot_idx < length buf
               then hist_slots des ms (buf[slot_idx := Some (a, \<lparr>hist_ip = ip, hist_h = h\<rparr>)]) (slot_idx + 1)
               else (Inl (Panic ''index out of bounds''), buf)))"

definition hist_recv ::
  "(bytes \<Rightarrow> 'h result) \<Rightarrow> ('a \<times> bytes) inner_recv \<Rightarrow> ('a \<times> 'h rate_hist) option list
     \<Rightarrow> (('a \<times> 'h rate_hist) option list result \<times> ('a \<times> 'h rate_hist) option list) option" where
  "hist_recv des inner msgs_buf =
     map_option (\<lambda>r. case r of
         Inl e \<Rightarrow> (Inl e, msgs_buf)
       | Inr ms \<Rightarrow>
           (case hist_slots des (map_while_take ms) msgs_buf 0 of
              (n, buf) \<Rightarrow> (res_bind n (\<lambda>n. Inr (take n buf)), buf)))
       (inner (length msgs_buf))"

text \<open>What arrives of a list of messages: the histograms that can be read.\<close>

definition readable :: "(bytes \<Rightarrow> 'h result) \<Rightarrow> ('a \<times> bytes) list \<Rightarrow> ('a \<times> 'h rate_hist) list" where
  "readable des ms = List.map_filter (\<lambda>(a, v). case peel_prefix v of Inl _ \<Rightarrow> None | Inr (ip, offset) \<Rightarrow>
     (case des (drop offset v) of Inl _ \<Rightarrow> None | Inr h \<Rightarrow> Some (a, \<lparr>hist_ip = ip, hist_h = h\<rparr>))) ms"

lemma peel_ip_prefix: "peel_prefix (ip_prefix ip @ b) = Inr (ip, length (ip_prefix ip))"
  by (cases ip) (simp_all add: peel_prefix_def from_be_bytes_be_bytes)

lemma hist_slots_ok:
  "list_all (\<lambda>(a, v). is_ok (peel_prefix v)) ms \<Longrightarrow> i + length ms \<le> length buf \<Longrightarrow>
   hist_slots des ms buf i
     = (Inr (i + length (readable des ms)), take i buf @ map Some (readable des ms) @ drop (i + length (readable des ms)) buf)"
proof (induction des ms buf i rule: hist_slots.induct)
  case (1 des buf i)
  then show ?case by (simp add: readable_def)
next
  case (2 des a v ms buf i)
  from 2(3) obtain ip off where peel: "peel_prefix v = Inr (ip, off)" by (auto simp: is_ok_iff)
  show ?case
  proof (cases "des (drop off v)")
    case (Inl e)
    then show ?thesis using 2(1) [OF peel refl Inl] 2(3,4) peel by (simp add: readable_def)
  next
    case (Inr h)
    let ?x = "Some (a, \<lparr>hist_ip = ip, hist_h = h\<rparr>)"
    have "i < length buf" using 2(4) by simp
    then have t: "take (Suc i) (buf[i := ?x]) = take i buf @ [?x]"
      by (simp add: take_Suc_conv_app_nth)
    show ?thesis using 2(2) [OF peel refl Inr] 2(3,4) peel Inr t
      by (simp add: readable_def)
  qed
qed

lemma readable_sent:
  assumes "\<And>h b. ser h = Inr b \<Longrightarrow> des b = Inr h" "hist_send ser burst = Inr ws"
  shows "readable des ws = burst \<and> list_all (\<lambda>(a, v). is_ok (peel_prefix v)) ws"
  using assms(2)
proof (induction burst arbitrary: ws)
  case (Cons x burst)
  from Cons.prems obtain b ws1 where ws: "ws = (fst x, ip_prefix (hist_ip (snd x)) @ b) # ws1" and b: "ser (hist_h (snd x)) = Inr b"
    and rest: "hist_send ser burst = Inr ws1"
    by (auto simp: hist_send_def res_bind_Inr_iff with_addr_Inr_iff hist_encode_def)
  show ?case using Cons.IH [OF rest] assms(1) [OF b] by (cases x) (simp add: ws readable_def peel_ip_prefix)
qed (simp add: hist_send_def readable_def)

section \<open>The parser\<close>

type_synonym queue_slots = "(queue_addr \<times> parsed_line) option list"

text \<open>
  \<open>ms.iter_mut().map_while(..)\<close>: the lines up to the first slot that is empty or whose message has another group than
  its line; that slot is emptied, the ones behind it are left as they are.
\<close>

fun take_lines :: "(string \<Rightarrow> 128 word option) \<Rightarrow> queue_slots \<Rightarrow> parsed_line list \<times> queue_slots" where
  "take_lines parse_v6 [] = ([], [])"
| "take_lines parse_v6 (None # slots) = ([], None # slots)"
| "take_lines parse_v6 (Some (a, pl) # slots) =
     (case group a of
        Some g \<Rightarrow>
          if parse_ip parse_v6 g = Some (client_ip pl)
          then (case take_lines parse_v6 slots of (pls, slots1) \<Rightarrow> (pl # pls, None # slots1))
          else ([], None # slots)
      | None \<Rightarrow> ([], None # slots))"

type_synonym line_groups = "(ip_addr \<times> parsed_line list) list"
type_synonym 'h rates = "(ip_addr \<times> 'h est_output_rate) list"

definition clear_groups :: "line_groups \<Rightarrow> line_groups" where
  "clear_groups gs = map (\<lambda>(g, _). (g, [])) gs"

definition push_line :: "parsed_line \<Rightarrow> line_groups \<Rightarrow> line_groups" where
  "push_line pl gs = AList.update (client_ip pl) ((case map_of gs (client_ip pl) of Some pls \<Rightarrow> pls | None \<Rightarrow> []) @ [pl]) gs"

text \<open>The groups in the order in which the map is walked.\<close>

fun process_groups ::
  "'h histogram_ops \<Rightarrow> (nat \<Rightarrow> nat \<Rightarrow> u64) \<Rightarrow> (string \<Rightarrow> log_entry result) \<Rightarrow> line_groups \<Rightarrow> 'h rates \<Rightarrow> nat
     \<Rightarrow> ('h rates \<times> nat) result" where
  "process_groups ops rate parse [] est n = Inr (est, n)"
| "process_groups ops rate parse ((g, pls) # gs) est n =
     res_bind (new_entries ops rate (oks (parse_lines parse pls)) (case map_of est g of Some e \<Rightarrow> e | None \<Rightarrow> default_rate ops))
       (\<lambda>(e, k). process_groups ops rate parse gs (AList.update g e est) (n + k))"

record 'h parser_state =
  received_lines :: line_groups
  est_output_rates :: "'h rates"
  processed_entries :: nat
  send_wait :: bool
  records :: "nat list"
  recv_buf :: queue_slots
  forwarded :: "'h rate_hist list"

text \<open>\<open>open\<close> says whether the task that keeps the statistics still listens.\<close>

definition handle_recv ::
  "'h histogram_ops \<Rightarrow> (nat \<Rightarrow> nat \<Rightarrow> u64) \<Rightarrow> (string \<Rightarrow> log_entry result) \<Rightarrow> (string \<Rightarrow> 128 word option)
     \<Rightarrow> (line_groups \<Rightarrow> line_groups) \<Rightarrow> bool \<Rightarrow> queue_slots \<Rightarrow> 'h parser_state \<Rightarrow> (nat \<times> queue_slots \<times> 'h parser_state) result" where
  "handle_recv ops rate parse parse_v6 walk listening ms st =
     (case take_lines parse_v6 ms of (pls, ms1) \<Rightarrow>
        let groups = fold push_line pls (clear_groups (received_lines st)) in
        res_bind (process_groups ops rate parse (walk groups) (est_output_rates st) 0) (\<lambda>(est, n).
          let tot = processed_entries st + n;
              st1 = st\<lparr>received_lines := clear_groups groups, est_output_rates := est, processed_entries := tot,
                       send_wait := send_wait st \<or> 0 < tot\<rparr> in
          if listening then Inr (n, ms1, st1\<lparr>records := records st @ [n]\<rparr>)
          else eyre ''Exiting due to channel send failure''))"

definition resize :: "nat \<Rightarrow> 'a \<Rightarrow> 'a list \<Rightarrow> 'a list" where
  "resize n x xs = take n xs @ replicate (n - length xs) x"

text \<open>
  What the loop waits for: a receive into its buffer, the end of the interval with the result of the send
  that follows it, or another state of the connection, of which it only takes note.
\<close>

datatype parser_event = Received "queue_slots result" | Interval "unit result" | StateChanged

fun parser_turn ::
  "'h histogram_ops \<Rightarrow> (nat \<Rightarrow> nat \<Rightarrow> u64) \<Rightarrow> (string \<Rightarrow> log_entry result) \<Rightarrow> (string \<Rightarrow> 128 word option)
     \<Rightarrow> (line_groups \<Rightarrow> line_groups) \<Rightarrow> ('h rates \<Rightarrow> 'h rates) \<Rightarrow> bool \<Rightarrow> parser_event \<Rightarrow> 'h parser_state \<Rightarrow> 'h parser_state result" where
  "parser_turn ops rate parse parse_v6 walk walk_rates listening (Received r) st =
     res_bind r (\<lambda>b. res_bind (handle_recv ops rate parse parse_v6 walk listening b st) (\<lambda>(processed, b1, st1).
       Inr (st1\<lparr>recv_buf := if length b1 * 3 div 4 \<le> processed then resize (min (length b1 * 2) 1024) None b1 else b1\<rparr>)))"
| "parser_turn ops rate parse parse_v6 walk walk_rates listening (Interval r) st =
     (if send_wait st
      then res_bind r (\<lambda>_. Inr (st\<lparr>forwarded := forwarded st @ List.map_filter (\<lambda>(g, e).
               if 0 < rate_len ops e then Some (rate_hist_new g e) else None) (walk_rates (est_output_rates st)),
             est_output_rates := [], processed_entries := 0, send_wait := False\<rparr>))
      else Inr st)"
| "parser_turn ops rate parse parse_v6 walk walk_rates listening StateChanged st = Inr st"

fun parser_run ::
  "'h histogram_ops \<Rightarrow> (nat \<Rightarrow> nat \<Rightarrow> u64) \<Rightarrow> (string \<Rightarrow> log_entry result) \<Rightarrow> (string \<Rightarrow> 128 word option)
     \<Rightarrow> (line_groups \<Rightarrow> line_groups) \<Rightarrow> ('h rates \<Rightarrow> 'h rates) \<Rightarrow> (parser_event \<times> bool) list \<Rightarrow> 'h parser_state \<Rightarrow> 'h parser_state result" where
  "parser_run ops rate parse parse_v6 walk walk_rates [] st = Inr st"
| "parser_run ops rate parse parse_v6 walk walk_rates ((ev, listening) # evs) st =
     res_bind (parser_turn ops rate parse parse_v6 walk walk_rates listening ev st)
       (parser_run ops rate parse parse_v6 walk walk_rates evs)"

definition parser_start :: "'h parser_state" where
  "parser_start = \<lparr>received_lines = [], est_output_rates = [], processed_entries = 0, send_wait = False,
     records = [], recv_buf = replicate 64 None, forwarded = []\<rparr>"

section \<open>The consumer\<close>

text \<open>The number of values in a batch of histograms is reported, unless it is zero.\<close>

definition consumer_process :: "'h histogram_ops \<Rightarrow> bool \<Rightarrow> 'h rate_hist list \<Rightarrow> nat list \<Rightarrow> nat list \<times> unit result" where
  "consumer_process ops listening batch reported =
     (let n = fold (\<lambda>h n. n + hist_len ops (hist_h h)) batch 0 in
      if 0 < n
      then (if listening then (reported @ [n], Inr ()) else (reported, eyre ''Exiting due to channel send failure''))
      else (reported, Inr ()))"

section \<open>What the parser computes\<close>

text \<open>The entries of some lines, and what they make of an estimate.\<close>

definition samples_of :: "(string \<Rightarrow> log_entry result) \<Rightarrow> parsed_line list \<Rightarrow> (int \<times> nat) list" where
  "samples_of parse pls = List.map_filter entry_sample (oks (parse_lines parse pls))"

definition advance ::
  "'h histogram_ops \<Rightarrow> (nat \<Rightarrow> nat \<Rightarrow> u64) \<Rightarrow> (int \<times> nat) list \<Rightarrow> 'h est_output_rate \<Rightarrow> 'h est_output_rate" where
  "advance ops rate samples e =
     e\<lparr>hist := fold (record_or_warn ops) (rates_after rate (prev_ts e) (in_time (prev_ts e) samples)) (hist e),
       prev_ts := last_time (prev_ts e) (in_time (prev_ts e) samples)\<rparr>"

definition rate_of :: "'h histogram_ops \<Rightarrow> 'h rates \<Rightarrow> ip_addr \<Rightarrow> 'h est_output_rate" where
  "rate_of ops est g = (case map_of est g of Some e \<Rightarrow> e | None \<Rightarrow> default_rate ops)"

lemma new_entries_advance:
  "new_entries ops rate (oks (parse_lines parse pls)) e
     = Inr (advance ops rate (samples_of parse pls) e, length (in_time (prev_ts e) (samples_of parse pls)))"
  by (simp add: new_entries_def new_samples_eq advance_def samples_of_def)

lemma process_groups_eq:
  assumes "distinct (map fst gs)"
  shows "\<exists>est1. process_groups ops rate parse gs est n
       = Inr (est1, n + sum_list (map (\<lambda>(g, pls). length (in_time (prev_ts (rate_of ops est g)) (samples_of parse pls))) gs))
     \<and> (\<forall>g. map_of est1 g = (case map_of gs g of
           None \<Rightarrow> map_of est g
         | Some pls \<Rightarrow> Some (advance ops rate (samples_of parse pls) (rate_of ops est g))))"
  using assms
proof (induction gs arbitrary: est n)
  case (Cons x gs)
  obtain g pls where x: "x = (g, pls)" by (cases x)
  let ?e = "advance ops rate (samples_of parse pls) (rate_of ops est g)"
  let ?k = "length (in_time (prev_ts (rate_of ops est g)) (samples_of parse pls))"
  have other: "rate_of ops (AList.update g ?e est) h = rate_of ops est h" if "h \<noteq> g" for h
    using that by (simp add: rate_of_def update_conv')
  have notin: "map_of gs g = None" using Cons.prems by (simp add: x map_of_eq_None_iff)
  from Cons.IH [of "AList.update g ?e est" "n + ?k"] Cons.prems obtain est1 where
    step: "process_groups ops rate parse gs (AList.update g ?e est) (n + ?k)
       = Inr (est1, n + ?k + sum_list (map (\<lambda>(h, pls). length (in_time (prev_ts (rate_of ops (AList.update g ?e est) h)) (samples_of parse pls))) gs))"
    and look: "\<forall>h. map_of est1 h = (case map_of gs h of
           None \<Rightarrow> map_of (AList.update g ?e est) h
         | Some pls \<Rightarrow> Some (advance ops rate (samples_of parse pls) (rate_of ops (AList.update g ?e est) h)))" by auto
  have sum: "map (\<lambda>(h, pls). length (in_time (prev_ts (rate_of ops (AList.update g ?e est) h)) (samples_of parse pls))) gs
      = map (\<lambda>(h, pls). length (in_time (prev_ts (rate_of ops est h)) (samples_of parse pls))) gs"
    using other Cons.prems by (intro map_cong) (force simp: x)+
  have "map_of est1 h = (case map_of (x # gs) h of
           None \<Rightarrow> map_of est h
         | Some pls \<Rightarrow> Some (advance ops rate (samples_of parse pls) (rate_of ops est h)))" for h
    using look notin other [of h] by (cases "h = g") (auto simp: x update_conv' split: option.splits)
  then show ?case using step sum by (auto simp: x new_entries_advance rate_of_def [symmetric] add.assoc)
qed simp

definition lines_of :: "ip_addr \<Rightarrow> parsed_line list \<Rightarrow> parsed_line list" where
  "lines_of g pls = filter (\<lambda>pl. client_ip pl = g) pls"

lemma lines_of_append [simp]: "lines_of g (a @ b) = lines_of g a @ lines_of g b"
  by (simp add: lines_of_def)

lemma samples_of_append [simp]: "samples_of parse (a @ b) = samples_of parse a @ samples_of parse b"
  by (simp add: samples_of_def parse_lines_append oks_append List.map_filter_def)

lemma samples_of_Nil [simp]: "samples_of parse [] = []"
  by (simp add: samples_of_def parse_lines_def List.map_filter_def)

lemma samples_of_lines: "(\<exists>g. samples_of parse (lines_of g pls) \<noteq> []) \<longleftrightarrow> samples_of parse pls \<noteq> []"
proof (induction pls)
  case (Cons pl pls)
  have split: "samples_of parse (pl # pls) = samples_of parse [pl] @ samples_of parse pls" for pls
    using samples_of_append [of parse "[pl]" pls] by simp
  have "samples_of parse (lines_of g (pl # pls))
      = (if client_ip pl = g then samples_of parse [pl] else []) @ samples_of parse (lines_of g pls)" for g
    using split [of "lines_of g pls"] by (simp add: lines_of_def)
  then show ?case using Cons split [of pls] by auto
qed (simp add: lines_of_def)

lemma in_time_append: "in_time p (a @ b) = in_time p a @ in_time (last_time p (in_time p a)) b"
  by (induction p a rule: in_time.induct) auto

lemma rates_after_append: "rates_after rate p (a @ b) = rates_after rate p a @ rates_after rate (last_time p a) b"
  by (induction rate p a rule: rates_after.induct) auto

lemma last_time_append: "last_time p (a @ b) = last_time (last_time p a) b"
  by (simp add: last_time_def)

lemma advance_append: "advance ops rate (a @ b) e = advance ops rate b (advance ops rate a e)"
  by (simp add: advance_def in_time_append rates_after_append last_time_append)

lemma advance_Nil [simp]: "advance ops rate [] e = e"
  by (simp add: advance_def)

lemma in_time_None_Nil: "in_time None samples = [] \<longleftrightarrow> samples = []"
  by (cases samples) auto

text \<open>The groups after a batch: its lines, in their order.\<close>

lemma distinct_push: "distinct (map fst gs) \<Longrightarrow> distinct (map fst (fold push_line pls gs))"
  by (induction pls arbitrary: gs) (simp_all add: push_line_def distinct_update)

lemma map_of_push:
  "map_of (fold push_line pls gs) g =
     (if map_of gs g = None \<and> lines_of g pls = [] then None
      else Some ((case map_of gs g of Some l \<Rightarrow> l | None \<Rightarrow> []) @ lines_of g pls))"
  by (induction pls arbitrary: gs) (auto simp: push_line_def lines_of_def update_conv' split: option.splits)

lemma clear_groups_keys [simp]: "map fst (clear_groups gs) = map fst gs"
  by (simp add: clear_groups_def case_prod_unfold comp_def)

lemma map_of_clear: "map_of (clear_groups gs) g = map_option (\<lambda>_. []) (map_of gs g)"
  by (induction gs) (auto simp: clear_groups_def)

lemma distinct_walk:
  assumes "mset (walk gs) = mset gs" "distinct (map fst gs)"
  shows "distinct (map fst (walk gs))" "map_of (walk gs) = map_of gs" "set (walk gs) = set gs"
proof -
  from assms(1) have "mset (map fst (walk gs)) = mset (map fst gs)" by simp
  with assms(2) show d: "distinct (map fst (walk gs))" by (metis mset_eq_imp_distinct_iff)
  show s: "set (walk gs) = set gs" using assms(1) by (rule mset_eq_setD)
  show "map_of (walk gs) = map_of gs" by (rule map_of_eqI) (use s d assms(2) in \<open>auto simp: map_of_eq_Some_iff\<close>)
qed

lemma length_take_lines: "length (snd (take_lines parse_v6 ms)) = length ms"
  by (induction parse_v6 ms rule: take_lines.induct) (auto split: option.splits prod.splits)

lemma handle_recv_eq:
  assumes walk: "\<forall>gs. mset (walk gs) = mset gs" and keys: "distinct (map fst (received_lines st))"
    and take: "take_lines parse_v6 ms = (pls, ms1)"
  shows "\<exists>n st1. handle_recv ops rate parse parse_v6 walk True ms st = Inr (n, ms1, st1)
     \<and> (\<forall>g. rate_of ops (est_output_rates st1) g = advance ops rate (samples_of parse (lines_of g pls)) (rate_of ops (est_output_rates st) g))
     \<and> (n = 0 \<longleftrightarrow> (\<forall>g. in_time (prev_ts (rate_of ops (est_output_rates st) g)) (samples_of parse (lines_of g pls)) = []))
     \<and> processed_entries st1 = processed_entries st + n \<and> send_wait st1 = (send_wait st \<or> 0 < processed_entries st + n)
     \<and> distinct (map fst (received_lines st1)) \<and> forwarded st1 = forwarded st \<and> records st1 = records st @ [n]"
proof -
  let ?gs = "fold push_line pls (clear_groups (received_lines st))"
  let ?rate = "\<lambda>g. rate_of ops (est_output_rates st) g"
  have d: "distinct (map fst ?gs)" using keys by (intro distinct_push) simp
  note w = distinct_walk [of walk ?gs, OF spec [OF walk] d]
  have look: "map_of (walk ?gs) g = (if map_of (received_lines st) g = None \<and> lines_of g pls = [] then None else Some (lines_of g pls))" for g
    by (auto simp: w(2) map_of_push map_of_clear split: option.splits)
  from process_groups_eq [OF w(1), of ops rate parse "est_output_rates st" 0] obtain est1 where
    run: "process_groups ops rate parse (walk ?gs) (est_output_rates st) 0
       = Inr (est1, sum_list (map (\<lambda>(g, pls). length (in_time (prev_ts (?rate g)) (samples_of parse pls))) (walk ?gs)))"
    and est1: "\<forall>g. map_of est1 g = (case map_of (walk ?gs) g of
           None \<Rightarrow> map_of (est_output_rates st) g
         | Some pls \<Rightarrow> Some (advance ops rate (samples_of parse pls) (?rate g)))" by auto
  have rate1: "rate_of ops est1 g = advance ops rate (samples_of parse (lines_of g pls)) (?rate g)" for g
  proof (cases "map_of (walk ?gs) g")
    case None
    then have "lines_of g pls = []" using look [of g] by (auto split: if_splits)
    then show ?thesis using est1 None by (simp add: rate_of_def)
  next
    case (Some l)
    then have "l = lines_of g pls" using look [of g] by (auto split: if_splits)
    then show ?thesis using est1 Some by (simp add: rate_of_def [of ops est1])
  qed
  have zero: "sum_list (map (\<lambda>(g, pls). length (in_time (prev_ts (?rate g)) (samples_of parse pls))) (walk ?gs)) = 0
      \<longleftrightarrow> (\<forall>g. in_time (prev_ts (?rate g)) (samples_of parse (lines_of g pls)) = [])" (is "?n = 0 \<longleftrightarrow> _")
  proof -
    have mem: "(g, l) \<in> set (walk ?gs) \<longleftrightarrow> map_of (walk ?gs) g = Some l" for g l using w(1) by (simp add: map_of_eq_Some_iff)
    have "?n = 0 \<longleftrightarrow> (\<forall>g l. map_of (walk ?gs) g = Some l \<longrightarrow> in_time (prev_ts (?rate g)) (samples_of parse l) = [])"
      by (auto simp: sum_list_eq_0_iff mem [symmetric])
    also have "\<dots> \<longleftrightarrow> (\<forall>g. in_time (prev_ts (?rate g)) (samples_of parse (lines_of g pls)) = [])"
      by (simp add: look) (metis in_time.simps(1) samples_of_Nil)
    finally show ?thesis .
  qed
  show ?thesis using run rate1 zero keys d by (simp add: handle_recv_def take Let_def)
qed

text \<open>
  The lines of a run, cut at the ends of the intervals: those of the intervals that have ended, and those
  since.
\<close>

fun intervals :: "(string \<Rightarrow> 128 word option) \<Rightarrow> parsed_line list \<Rightarrow> (parser_event \<times> bool) list \<Rightarrow> parsed_line list list \<times> parsed_line list" where
  "intervals parse_v6 acc [] = ([], acc)"
| "intervals parse_v6 acc ((Received (Inr b), _) # evs) = intervals parse_v6 (acc @ fst (take_lines parse_v6 b)) evs"
| "intervals parse_v6 acc ((Received (Inl _), _) # evs) = intervals parse_v6 acc evs"
| "intervals parse_v6 acc ((Interval _, _) # evs) = (case intervals parse_v6 [] evs of (done1, last1) \<Rightarrow> (acc # done1, last1))"
| "intervals parse_v6 acc ((StateChanged, _) # evs) = intervals parse_v6 acc evs"

text \<open>The estimate for a client from the lines of an interval, and the histograms an interval gives.\<close>

definition estimate :: "'h histogram_ops \<Rightarrow> (nat \<Rightarrow> nat \<Rightarrow> u64) \<Rightarrow> (string \<Rightarrow> log_entry result) \<Rightarrow> parsed_line list \<Rightarrow> ip_addr \<Rightarrow> 'h est_output_rate" where
  "estimate ops rate parse pls g = advance ops rate (samples_of parse (lines_of g pls)) (default_rate ops)"

definition interval_hists :: "'h histogram_ops \<Rightarrow> (nat \<Rightarrow> nat \<Rightarrow> u64) \<Rightarrow> (string \<Rightarrow> log_entry result) \<Rightarrow> parsed_line list \<Rightarrow> 'h rate_hist set" where
  "interval_hists ops rate parse pls = {rate_hist_new g (estimate ops rate parse pls g) |g. 0 < rate_len ops (estimate ops rate parse pls g)}"

definition parser_inv ::
  "'h histogram_ops \<Rightarrow> (nat \<Rightarrow> nat \<Rightarrow> u64) \<Rightarrow> (string \<Rightarrow> log_entry result) \<Rightarrow> parsed_line list \<Rightarrow> 'h parser_state \<Rightarrow> bool" where
  "parser_inv ops rate parse acc st \<longleftrightarrow>
     (\<forall>g. rate_of ops (est_output_rates st) g = estimate ops rate parse acc g)
     \<and> distinct (map fst (est_output_rates st)) \<and> distinct (map fst (received_lines st))
     \<and> (send_wait st \<longleftrightarrow> 0 < processed_entries st) \<and> (0 < processed_entries st \<longleftrightarrow> samples_of parse acc \<noteq> [])"

lemma estimate_Nil: "samples_of parse pls = [] \<Longrightarrow> estimate ops rate parse pls g = default_rate ops"
  using samples_of_lines [of parse pls] by (simp add: estimate_def)

lemma parser_inv_start: "parser_inv ops rate parse [] parser_start"
  by (simp add: parser_inv_def parser_start_def estimate_Nil rate_of_def)

lemma distinct_process_groups:
  "process_groups ops rate parse gs est n = Inr (est1, k) \<Longrightarrow> distinct (map fst est) \<Longrightarrow> distinct (map fst est1)"
  by (induction ops rate parse gs est n rule: process_groups.induct) (auto simp: new_entries_advance distinct_update)

lemma handle_recv_InrD:
  "handle_recv ops rate parse parse_v6 walk listening ms st = Inr (n, ms1, st1) \<Longrightarrow>
   listening \<and> (distinct (map fst (est_output_rates st)) \<longrightarrow> distinct (map fst (est_output_rates st1)))"
  by (auto simp: handle_recv_def Let_def res_bind_Inr_iff distinct_process_groups split: prod.splits if_splits)

lemma handle_recv_inv:
  assumes walk: "\<forall>gs. mset (walk gs) = mset gs" and inv: "parser_inv ops rate parse acc st"
    and h: "handle_recv ops rate parse parse_v6 walk listening ms st = Inr (n, ms1, st1)"
  shows "parser_inv ops rate parse (acc @ fst (take_lines parse_v6 ms)) st1 \<and> forwarded st1 = forwarded st \<and> ms1 = snd (take_lines parse_v6 ms)"
proof -
  obtain pls ms2 where take: "take_lines parse_v6 ms = (pls, ms2)" by (cases "take_lines parse_v6 ms")
  have keys: "distinct (map fst (received_lines st))" using inv by (simp add: parser_inv_def)
  from handle_recv_InrD [OF h] inv have l: "listening" "distinct (map fst (est_output_rates st1))" by (auto simp: parser_inv_def)
  from handle_recv_eq [OF walk keys take, of ops rate parse] h l(1) have
    rate1: "\<forall>g. rate_of ops (est_output_rates st1) g = advance ops rate (samples_of parse (lines_of g pls)) (rate_of ops (est_output_rates st) g)"
    and n: "n = 0 \<longleftrightarrow> (\<forall>g. in_time (prev_ts (rate_of ops (est_output_rates st) g)) (samples_of parse (lines_of g pls)) = [])"
    and rest: "processed_entries st1 = processed_entries st + n" "send_wait st1 = (send_wait st \<or> 0 < processed_entries st + n)"
      "distinct (map fst (received_lines st1))" "forwarded st1 = forwarded st" "ms1 = ms2" by auto
  have est: "rate_of ops (est_output_rates st1) g = estimate ops rate parse (acc @ pls) g" for g
    using rate1 inv by (simp add: parser_inv_def estimate_def advance_append)
  have cnt: "0 < processed_entries st + n \<longleftrightarrow> samples_of parse (acc @ pls) \<noteq> []"
  proof (cases "samples_of parse acc = []")
    case True
    then have "rate_of ops (est_output_rates st) g = default_rate ops" for g using inv by (simp add: parser_inv_def estimate_Nil)
    then have "n = 0 \<longleftrightarrow> samples_of parse pls = []"
      using n samples_of_lines [of parse pls] by (auto simp: default_rate_def in_time_None_Nil)
    then show ?thesis using True inv by (cases n) (auto simp: parser_inv_def)
  qed (use inv in \<open>simp add: parser_inv_def\<close>)
  show ?thesis using est cnt rest l inv take by (auto simp: parser_inv_def)
qed

lemma set_map_filter_iff: "y \<in> set (List.map_filter f xs) \<longleftrightarrow> (\<exists>x \<in> set xs. f x = Some y)"
  by (induction xs) (auto simp: map_filter_simps split: option.splits)

lemma interval_forwards:
  assumes walk: "mset (walk_rates (est_output_rates st)) = mset (est_output_rates st)" and inv: "parser_inv ops rate parse acc st"
    and empty: "hist_len ops (new_hist ops) = 0"
  shows "set (List.map_filter (\<lambda>(g, e). if 0 < rate_len ops e then Some (rate_hist_new g e) else None) (walk_rates (est_output_rates st)))
     = interval_hists ops rate parse acc"
proof -
  have d: "distinct (map fst (est_output_rates st))" and e: "\<And>g. estimate ops rate parse acc g = rate_of ops (est_output_rates st) g"
    using inv by (simp_all add: parser_inv_def)
  have s: "set (walk_rates (est_output_rates st)) = set (est_output_rates st)" by (rule mset_eq_setD) (rule walk)
  have mem: "(\<exists>e. (g, e) \<in> set (est_output_rates st) \<and> 0 < rate_len ops e \<and> x = rate_hist_new g e)
      \<longleftrightarrow> 0 < rate_len ops (rate_of ops (est_output_rates st) g) \<and> x = rate_hist_new g (rate_of ops (est_output_rates st) g)" for g x
    using empty by (cases "map_of (est_output_rates st) g")
      (auto simp: rate_of_def default_rate_def rate_len_def simp flip: map_of_eq_Some_iff [OF d])
  have "x \<in> set (List.map_filter (\<lambda>(g, e). if 0 < rate_len ops e then Some (rate_hist_new g e) else None) (walk_rates (est_output_rates st)))
      \<longleftrightarrow> (\<exists>g e. (g, e) \<in> set (est_output_rates st) \<and> 0 < rate_len ops e \<and> x = rate_hist_new g e)" for x
    by (force simp: set_map_filter_iff s split: if_splits)
  then show ?thesis using mem by (auto simp: interval_hists_def e)
qed

lemma parser_turn_inv:
  assumes walk: "\<forall>gs. mset (walk gs) = mset gs" and inv: "parser_inv ops rate parse acc st"
    and b: "parser_turn ops rate parse parse_v6 walk walk_rates listening (Received (Inr b)) st = Inr st1"
  shows "parser_inv ops rate parse (acc @ fst (take_lines parse_v6 b)) st1 \<and> forwarded st1 = forwarded st"
proof -
  from b obtain n ms1 st2 where h: "handle_recv ops rate parse parse_v6 walk listening b st = Inr (n, ms1, st2)"
    and st1: "\<exists>buf. st1 = st2\<lparr>recv_buf := buf\<rparr>" by (auto simp: res_bind_Inr_iff)
  show ?thesis using handle_recv_inv [OF walk inv h] st1 by (auto simp: parser_inv_def)
qed

lemma parser_run_inv:
  assumes walk: "\<forall>gs. mset (walk gs) = mset gs" "\<forall>es. mset (walk_rates es) = mset es" and empty: "hist_len ops (new_hist ops) = 0"
  shows "parser_inv ops rate parse acc st \<Longrightarrow> parser_run ops rate parse parse_v6 walk walk_rates evs st = Inr st1 \<Longrightarrow>
    parser_inv ops rate parse (snd (intervals parse_v6 acc evs)) st1
    \<and> set (forwarded st1) = set (forwarded st) \<union> (\<Union>pls \<in> set (fst (intervals parse_v6 acc evs)). interval_hists ops rate parse pls)"
proof (induction parse_v6 acc evs arbitrary: st rule: intervals.induct)
  case (2 parse_v6 acc b l evs)
  from "2.prems"(2) obtain st2 where turn: "parser_turn ops rate parse parse_v6 walk walk_rates l (Received (Inr b)) st = Inr st2"
    and run: "parser_run ops rate parse parse_v6 walk walk_rates evs st2 = Inr st1"
    by (simp only: parser_run.simps res_bind_Inr_iff) blast
  note t = parser_turn_inv [OF walk(1) "2.prems"(1) turn]
  show ?case using "2.IH" [OF conjunct1 [OF t] run] t by simp
next
  case (4 parse_v6 acc r l evs)
  let ?hs = "List.map_filter (\<lambda>(g, e). if 0 < rate_len ops e then Some (rate_hist_new g e) else None) (walk_rates (est_output_rates st))"
  note f = interval_forwards [of walk_rates st, OF spec [OF walk(2)] "4.prems"(1) empty]
  from "4.prems"(2) obtain st2 where turn: "parser_turn ops rate parse parse_v6 walk walk_rates l (Interval r) st = Inr st2"
    and run: "parser_run ops rate parse parse_v6 walk walk_rates evs st2 = Inr st1"
    by (simp only: parser_run.simps res_bind_Inr_iff) blast
  have inv2: "parser_inv ops rate parse [] st2 \<and> set (forwarded st2) = set (forwarded st) \<union> interval_hists ops rate parse acc"
  proof (cases "send_wait st")
    case True
    then show ?thesis using turn f "4.prems"(1)
      by (auto simp: res_bind_Inr_iff parser_inv_def estimate_Nil rate_of_def)
  next
    case False
    then have none: "samples_of parse acc = []" using "4.prems"(1) by (auto simp: parser_inv_def)
    then have "interval_hists ops rate parse acc = {}"
      using empty by (simp add: interval_hists_def estimate_Nil default_rate_def rate_len_def)
    moreover have "st2 = st" using turn False by simp
    ultimately show ?thesis using "4.prems"(1) none by (auto simp: parser_inv_def estimate_Nil)
  qed
  show ?case using "4.IH" [OF conjunct1 [OF inv2] run] inv2 by (auto split: prod.split)
qed auto

text \<open>The parser ends only by an error from outside.\<close>

lemma parser_run_ok:
  assumes walk: "\<forall>gs. mset (walk gs) = mset gs" "\<forall>es. mset (walk_rates es) = mset es" and empty: "hist_len ops (new_hist ops) = 0"
  shows "parser_inv ops rate parse acc st \<Longrightarrow> \<forall>(ev, l) \<in> set evs. l \<and> (\<forall>e. ev \<noteq> Received (Inl e) \<and> ev \<noteq> Interval (Inl e)) \<Longrightarrow>
    is_ok (parser_run ops rate parse parse_v6 walk walk_rates evs st)"
proof (induction evs arbitrary: acc st)
  case (Cons x evs)
  obtain ev where x: "x = (ev, True)" and ok: "\<forall>e. ev \<noteq> Received (Inl e) \<and> ev \<noteq> Interval (Inl e)" using Cons.prems(2) by (cases x) auto
  have keys: "distinct (map fst (received_lines st))" using Cons.prems(1) by (simp add: parser_inv_def)
  have "is_ok (parser_turn ops rate parse parse_v6 walk walk_rates True ev st)"
  proof (cases ev)
    case (Received r)
    then obtain b where r: "r = Inr b" using ok by (cases r) auto
    from handle_recv_eq [of walk st parse_v6 b _ _ ops rate parse, OF walk(1) keys surjective_pairing] Received r show ?thesis by (auto simp: is_ok_iff)
  next
    case (Interval r)
    then obtain u where "r = Inr u" using ok by (cases r) auto
    then show ?thesis using Interval by simp
  qed simp
  then obtain st1 where st1: "parser_turn ops rate parse parse_v6 walk walk_rates True ev st = Inr st1" by (auto simp: is_ok_iff)
  from parser_run_inv [OF walk empty Cons.prems(1), of parse_v6 "[(ev, True)]" st1] st1
  have "parser_inv ops rate parse (snd (intervals parse_v6 acc [(ev, True)])) st1" by simp
  then show ?case using Cons.IH Cons.prems(2) st1 by (auto simp: x)
qed simp

lemma parser_buffer_bounds:
  assumes "parser_turn ops rate parse parse_v6 walk walk_rates listening ev st = Inr st1"
    "64 \<le> length (recv_buf st)" "length (recv_buf st) \<le> 1024" "\<And>b. ev = Received (Inr b) \<Longrightarrow> length b = length (recv_buf st)"
  shows "64 \<le> length (recv_buf st1) \<and> length (recv_buf st1) \<le> 1024 \<and> length (recv_buf st) \<le> length (recv_buf st1)"
proof (cases ev)
  case (Received r)
  with assms(1) obtain b where b: "r = Inr b" by (cases r) auto
  have "length ms1 = length b" if "handle_recv ops rate parse parse_v6 walk listening b st = Inr (n, ms1, st2)" for n ms1 st2
    using that length_take_lines [of parse_v6 b]
    by (auto simp: handle_recv_def Let_def res_bind_Inr_iff split: prod.splits if_splits)
  then show ?thesis using assms Received b by (auto simp: res_bind_Inr_iff resize_def)
next
  case (Interval r)
  then show ?thesis using assms by (auto simp: res_bind_Inr_iff split: if_splits)
next
  case StateChanged
  then show ?thesis using assms by simp
qed

section \<open>Properties\<close>


text \<open>
  Histograms round trip. If the serialization of histograms is invertible, the burst that one end sends
  is exactly what the other end's receive returns, whatever the addresses of the clients.
\<close>

lemma hist_round_trip:
  assumes "\<And>h b. ser h = Inr b \<Longrightarrow> des b = Inr h" and "hist_send ser burst = Inr ws"
    and "length burst \<le> length msgs_buf" and "inner (length msgs_buf) = Some (Inr (map Some ws @ replicate n None))"
  shows "map_option fst (hist_recv des inner msgs_buf) = Some (Inr (map Some burst))"
proof -
  have "length ws = length burst" by (rule collect_results_length) (rule assms(2) [unfolded hist_send_def])
  then show ?thesis using readable_sent [OF assms(1,2)] hist_slots_ok [of ws 0 msgs_buf des] assms(3,4)
    by (simp add: hist_recv_def)
qed

section \<open>Witnesses\<close>

definition ex_ops :: "u64 list histogram_ops" where
  "ex_ops = \<lparr>new_hist = [], record_value = \<lambda>v h. Inr (h @ [v]), hist_len = length\<rparr>"

definition ex_parse :: "string \<Rightarrow> log_entry result" where
  "ex_parse s = (if s = [] then eyre ''bad line'' else Inr \<lparr>status_code = Some 200, time = Some (int (length s)), object_size = Some 8\<rparr>)"

definition ex_line :: "nat \<Rightarrow> parsed_line" where
  "ex_line n = \<lparr>client_ip = V4 7, line_text = replicate n (CHR ''a'')\<rparr>"

definition ex_slot :: "nat \<Rightarrow> (queue_addr \<times> parsed_line) option" where
  "ex_slot n = Some (\<lparr>topic_id = ''t'', group = Some (show_v4 7)\<rparr>, ex_line n)"

definition ex_events :: "(parser_event \<times> bool) list" where
  "ex_events = [(Received (Inr [ex_slot 5, ex_slot 7, None]), True), (Received (Inr [ex_slot 0, ex_slot 6, ex_slot 8]), True),
     (Interval (Inr ()), True), (Received (Inr [ex_slot 9]), True)]"

definition ex_rate :: "nat \<Rightarrow> nat \<Rightarrow> u64" where
  "ex_rate obj_size el = of_nat (obj_size div el)"

lemma ex_samples [simp]: "samples_of ex_parse (map ex_line ns) = map (\<lambda>n. (int n, 8)) (filter (\<lambda>n. n \<noteq> 0) ns)"
  by (induction ns) (simp_all add: samples_of_def parse_lines_def ex_parse_def ex_line_def map_filter_simps entry_sample_def is_success_def)

lemma ex_take [simp]: "take_lines (\<lambda>_. None) (ex_slot n # slots) = (case take_lines (\<lambda>_. None) slots of (pls, slots1) \<Rightarrow> (ex_line n # pls, None # slots1))"
  by (simp add: ex_slot_def ex_line_def parse_ip_def)

lemma ex_intervals: "intervals (\<lambda>_. None) [] ex_events = ([map ex_line [5, 7, 0, 6, 8]], map ex_line [9])"
  by (simp add: ex_events_def)

lemma ex_run_ok: "is_ok (parser_run ex_ops ex_rate ex_parse (\<lambda>_. None) id id ex_events parser_start)"
  by (rule parser_run_ok [OF _ _ _ parser_inv_start]) (auto simp: ex_ops_def ex_events_def)

lemma ex_hist: "\<lparr>hist_ip = V4 7, hist_h = [4, 8]\<rparr> \<in> interval_hists ex_ops ex_rate ex_parse (map ex_line [5, 7, 0, 6, 8])"
proof -
  have "lines_of (V4 7) (map ex_line ns) = map ex_line ns" for ns by (induction ns) (simp_all add: lines_of_def ex_line_def)
  then have "hist (estimate ex_ops ex_rate ex_parse (map ex_line [5, 7, 0, 6, 8]) (V4 7)) = [4, 8]"
    by (simp only: estimate_def ex_samples) (simp add: advance_def default_rate_def ex_ops_def record_or_warn_def ex_rate_def)
  then show ?thesis unfolding interval_hists_def
    by (intro CollectI exI [of _ "V4 7"]) (simp add: rate_hist_new_def rate_len_def ex_ops_def)
qed


lemma hist_round_trip_example:
  "map_option fst (hist_recv ex_deserialize
      (\<lambda>_. Some (Inr [Some (7 :: nat, [32, 10, 0, 0, 1, 5]), None])) [None, None])
    = Some (Inr [Some (7, \<lparr>hist_ip = V4 0x0A000001, hist_h = 5\<rparr>)])"
proof -
  have "be_bytes 4 (0x0A000001 :: 32 word) = [10, 0, 0, 1]" by code_simp
  then have "hist_send ex_serialize [(7 :: nat, \<lparr>hist_ip = V4 0x0A000001, hist_h = 5\<rparr>)] = Inr [(7, [32, 10, 0, 0, 1, 5])]"
    by (simp add: hist_send_def with_addr_def hist_encode_def ex_serialize_def)
  from hist_round_trip [OF _ this, of ex_deserialize "[None, None]" "\<lambda>_. Some (Inr [Some (7 :: nat, [32, 10, 0, 0, 1, 5]), None])" 1]
  show ?thesis by (simp add: ex_serialize_def)
qed

section \<open>Behaviour at the edges\<close>

text \<open>
  A message whose group is not the address of its line ends the batch: the lines behind it are neither
  counted nor taken out of the buffer, where the next receive may overwrite them.
\<close>

lemma mismatch_ends_batch:
  assumes "group a = None \<or> parse_ip parse_v6 (the (group a)) \<noteq> Some (client_ip pl)"
  shows "take_lines parse_v6 (Some (a, pl) # slots) = ([], None # slots)"
  using assms by (auto split: option.split)

text \<open>A short message, an empty datagram for one, panics the receiver of histograms.\<close>

lemma short_hist_panics:
  assumes "inner (length msgs_buf) = Some (Inr [Some (a, [])])"
  shows "map_option fst (hist_recv des inner msgs_buf) = Some (Inl (Panic ''index out of bounds''))"
  using assms by (simp add: hist_recv_def peel_prefix_def)

end
