(* ===== verification/Log_Ingest.thy ===== *)
theory Log_Ingest
  imports Log_Parser
begin

text \<open>
  The first stages of the log parsing application (\<open>elk-app-logparser/src\<close>): the producer of lines
  (\<open>bin/producer.rs\<close>), the server that acknowledges and publishes them (\<open>listen.rs\<close>, \<open>bin/logingest.rs\<close>), the task
  that follows the negotiated queue (\<open>publish_subscribe.rs\<close>), options and statistics (\<open>lib.rs\<close>). What the
  connections below return is an argument of each turn of a loop.
\<close>

section \<open>The producer\<close>

record producer =
  rem_line_count :: "nat option"
  tot_bytes :: nat
  tot_msgs :: nat

definition is_report :: "line \<Rightarrow> bool" where
  "is_report l = (case l of Report _ \<Rightarrow> True | Ack \<Rightarrow> False)"

text \<open>\<open>take_while\<close> with the running number of bytes, which counts the first line it refuses, too.\<close>

fun take_bytes :: "line list \<Rightarrow> nat \<Rightarrow> (line list \<times> nat) result" where
  "take_bytes [] burst_bytes = Inr ([], burst_bytes)"
| "take_bytes (Report s # ls) burst_bytes =
     (let n = burst_bytes + length s in
      if n < 1024 then res_bind (take_bytes ls n) (\<lambda>(sent, m). Inr (Report s # sent, m)) else Inr ([], n))"
| "take_bytes (Ack # ls) burst_bytes = Inl (Panic ''unreachable'')"

text \<open>
  One burst: the lines that were sent and the number of acknowledgements, or \<open>None\<close> when the limit of lines
  is reached; the limit of time and the output of statistics are left out. \<open>send_r\<close> and \<open>recv_r\<close> are what the connection returns.
\<close>

definition produce_turn ::
  "line list \<Rightarrow> unit result \<Rightarrow> line option list result \<Rightarrow> producer \<Rightarrow> (producer \<times> line list \<times> nat) option result" where
  "produce_turn burst send_r recv_r p =
     (if rem_line_count p = Some 0 then Inr None
      else res_bind (take_bytes (filter is_report burst) 0) (\<lambda>(sent, burst_bytes).
             res_bind send_r (\<lambda>_. res_bind recv_r (\<lambda>ms.
               Inr (Some (p\<lparr>rem_line_count := map_option (\<lambda>c. c - length burst) (rem_line_count p),
                            tot_bytes := tot_bytes p + burst_bytes, tot_msgs := tot_msgs p + length burst\<rparr>,
                          sent, length (map_while_take ms)))))))"

section \<open>Publishing\<close>

text \<open>\<open>PublishLines::process_lines\<close>: what is sent, and the record for the statistics.\<close>

definition publish_batch ::
  "(string \<Rightarrow> ip_addr option option) \<Rightarrow> (128 word \<Rightarrow> string) \<Rightarrow> string \<Rightarrow> ('a \<times> line) list \<Rightarrow> (queue_addr \<times> parsed_line) list" where
  "publish_batch peel_ip show_v6 topic batch =
     map (\<lambda>p. (\<lparr>topic_id = topic, group = Some (show_ip show_v6 (client_ip p))\<rparr>, p))
       (parse_raw peel_ip (List.map_filter (\<lambda>(_, l). case l of Report s \<Rightarrow> Some s | Ack \<Rightarrow> None) batch))"

definition publish_lines ::
  "(string \<Rightarrow> ip_addr option option) \<Rightarrow> (128 word \<Rightarrow> string) \<Rightarrow> string \<Rightarrow> ((queue_addr \<times> parsed_line) list \<Rightarrow> unit result) \<Rightarrow> bool
     \<Rightarrow> ('a \<times> line) list \<Rightarrow> (nat \<times> nat) result" where
  "publish_lines peel_ip show_v6 topic send listening batch =
     (let msgs = publish_batch peel_ip show_v6 topic batch in
      res_bind (send msgs) (\<lambda>_.
        if listening then Inr (length msgs, sum_list (map (\<lambda>(_, p). length (line_text p)) msgs))
        else eyre ''Exiting due to channel send failure''))"

section \<open>Serving a connection\<close>

text \<open>
  \<open>serve_one_cn\<close>: lines that wait to be processed, acknowledgements that wait to be sent, the batch that is
  being processed. \<open>acked\<close> and \<open>handled\<close> are what has been sent and what has been given to \<open>process_lines\<close>.
\<close>

record 'a ingest =
  to_process :: "('a \<times> line) list"
  acks :: "('a \<times> line) list"
  processing :: "('a \<times> line) list option"
  acked :: "('a \<times> line) list"
  handled :: "('a \<times> line) list list"

datatype 'a ingest_event =
    Recvd "('a \<times> line) option list result" "unit result"
  | Processed "unit result" "unit result"

definition start_batch :: "'a ingest \<Rightarrow> 'a ingest" where
  "start_batch st =
     (if to_process st = [] then st
      else st\<lparr>processing := Some (to_process st), handled := handled st @ [to_process st], to_process := []\<rparr>)"

definition send_acks :: "unit result \<Rightarrow> 'a ingest \<Rightarrow> 'a ingest result" where
  "send_acks r st = res_bind r (\<lambda>_. Inr (st\<lparr>acked := acked st @ acks st, acks := []\<rparr>))"

definition slot_acks :: "('a \<times> line) option list \<Rightarrow> ('a \<times> line) list" where
  "slot_acks msgs = List.map_filter (map_option (\<lambda>(a, _). (a, Ack))) msgs"

text \<open>The state at the next wait, or how the loop ends. A batch completes only while one is being processed.\<close>

fun ingest_turn :: "'a ingest_event \<Rightarrow> 'a ingest \<Rightarrow> 'a ingest + unit result" where
  "ingest_turn (Recvd (Inl e) _) st = Inr (Inr ())"
| "ingest_turn (Recvd (Inr msgs) r) st =
     (let st1 = st\<lparr>acks := acks st @ slot_acks msgs, to_process := to_process st @ map_while_take msgs\<rparr> in
      case (if length (to_process st1) < 128 then send_acks r st1 else Inr st1) of
        Inl e \<Rightarrow> Inr (Inl e)
      | Inr st2 \<Rightarrow> Inl (if processing st2 = None then start_batch st2 else st2))"
| "ingest_turn (Processed res r) st =
     (if processing st = None then Inl st
      else (case res_bind res (\<lambda>_. if acks st \<noteq> [] then send_acks r st else Inr st) of
              Inl e \<Rightarrow> Inr (Inl e)
            | Inr st1 \<Rightarrow> Inl (start_batch (st1\<lparr>processing := None\<rparr>))))"

fun ingest_run :: "'a ingest_event list \<Rightarrow> 'a ingest \<Rightarrow> 'a ingest \<times> unit result option" where
  "ingest_run [] st = (st, None)"
| "ingest_run (ev # evs) st = (case ingest_turn ev st of Inl st1 \<Rightarrow> ingest_run evs st1 | Inr r \<Rightarrow> (st, Some r))"

definition ingest_start :: "'a ingest" where
  "ingest_start = \<lparr>to_process = [], acks = [], processing = None, acked = [], handled = []\<rparr>"

section \<open>Serving histograms\<close>

text \<open>\<open>serve_local_inner\<close>: one slot at a time; an error of the connection is ignored.\<close>

definition serve_local_turn ::
  "('h list \<Rightarrow> unit result) \<Rightarrow> 'h option list result \<Rightarrow> 'h list list \<Rightarrow> 'h list list result" where
  "serve_local_turn process_lines recvd done1 =
     (case recvd of
        Inl _ \<Rightarrow> Inr done1
      | Inr [] \<Rightarrow> Inr done1
      | Inr (None # _) \<Rightarrow> Inr done1
      | Inr ms \<Rightarrow> res_bind (wrap_err ''serve_local: process lines handler'' (process_lines (map_while_take ms)))
                   (\<lambda>_. Inr (done1 @ [map_while_take ms])))"

section \<open>The negotiated queue\<close>

datatype conn_state = KafkaOrdering | GcpClientSideOrdering | GcpServiceSideOrdering

fun is_kafka :: "conn_state \<Rightarrow> bool" where
  "is_kafka KafkaOrdering = True"
| "is_kafka GcpClientSideOrdering = False"
| "is_kafka GcpServiceSideOrdering = False"

definition is_gcp :: "conn_state \<Rightarrow> bool" where
  "is_gcp s \<longleftrightarrow> \<not> is_kafka s"

datatype side = LeftSide | RightSide

fun side_state :: "side \<Rightarrow> conn_state" where
  "side_state LeftSide = GcpClientSideOrdering"
| "side_state RightSide = GcpServiceSideOrdering"

text \<open>The preference among the two orderings, for a number of participants.\<close>

definition prefer_ordering :: "nat \<Rightarrow> side result" where
  "prefer_ordering np =
     (if np = 1 \<or> np = 2 then Inr LeftSide else if 3 \<le> np then Inr RightSide else Inl (Panic ''unreachable''))"

text \<open>The state reported when a connection is made, with and without Kafka among the alternatives.\<close>

definition initial_state :: "bool \<Rightarrow> side option \<Rightarrow> conn_state result" where
  "initial_state with_kafka gcp_current =
     (case gcp_current of
        Some s \<Rightarrow> Inr (side_state s)
      | None \<Rightarrow> if with_kafka then Inr KafkaOrdering else eyre ''GCP stack should be active'')"

text \<open>
  \<open>conn_negotiation_manager\<close>: the reported state, the transition that is in progress, and the transitions that
  were asked for. \<open>kafka\<close> and \<open>gcp\<close> are what the two handles say in that turn; \<open>kafka\<close> is \<open>None\<close> when there is no such
  alternative.
\<close>

record manager =
  watcher :: conn_state
  transition_in_progress :: "side option"
  triggered :: "side list"

datatype manager_event = MonitorExit | TransitionDone "unit result" | ParticipantsChanged nat | GcpChanged

fun manager_turn :: "side option option \<Rightarrow> side option \<Rightarrow> manager_event \<Rightarrow> manager \<Rightarrow> manager option result" where
  "manager_turn kafka gcp MonitorExit m = Inr None"
| "manager_turn kafka gcp (TransitionDone _) m =
     Inr (Some (if transition_in_progress m = None then m else m\<lparr>transition_in_progress := None\<rparr>))"
| "manager_turn kafka gcp (ParticipantsChanged np) m =
     (if kafka = Some (Some LeftSide) then Inr (Some m)
      else res_bind (prefer_ordering np) (\<lambda>s. Inr (Some (m\<lparr>transition_in_progress := Some s, triggered := triggered m @ [s]\<rparr>))))"
| "manager_turn kafka gcp GcpChanged m =
     (case gcp of
        Some s \<Rightarrow> Inr (Some (m\<lparr>watcher := side_state s\<rparr>))
      | None \<Rightarrow> if kafka = None then Inr None else Inr (Some (m\<lparr>watcher := KafkaOrdering\<rparr>)))"

text \<open>Creating a topic on the queue of a state; the address of Kafka has to be known for it.\<close>

definition app_make_topic :: "(string \<Rightarrow> string list \<Rightarrow> unit result) \<Rightarrow> (string \<Rightarrow> string result) \<Rightarrow> conn_state \<Rightarrow> string option \<Rightarrow> string \<Rightarrow> unit result" where
  "app_make_topic make_kafka create cn kafka_addr topic =
     (case cn of
        KafkaOrdering \<Rightarrow>
          (case kafka_addr of
             None \<Rightarrow> Inl (Panic ''if kafka_addr was not provided, we cannot have ended up with ConnState::KafkaOrdering'')
           | Some a \<Rightarrow> wrap_err ''make kafka topic'' (make_kafka a [topic]))
      | _ \<Rightarrow> wrap_err ''make GCP Pub/Sub topic'' (res_bind (make_topic create topic) (\<lambda>_. Inr ())))"

definition app_delete_topic :: "(string \<Rightarrow> string list \<Rightarrow> unit result) \<Rightarrow> (string \<Rightarrow> bool result) \<Rightarrow> (string \<Rightarrow> unit result)
    \<Rightarrow> conn_state \<Rightarrow> string option \<Rightarrow> string \<Rightarrow> unit result" where
  "app_delete_topic delete_kafka exists_topic delete cn kafka_addr topic =
     (case cn of
        KafkaOrdering \<Rightarrow>
          (case kafka_addr of
             None \<Rightarrow> Inl (Panic ''if kafka_addr was not provided, we cannot have ended up with ConnState::KafkaOrdering'')
           | Some a \<Rightarrow> wrap_err ''delete kafka topic'' (delete_kafka a [topic]))
      | _ \<Rightarrow> wrap_err ''delete GCP Pub/Sub topic'' (delete_topic exists_topic delete topic))"

section \<open>Options and statistics\<close>

datatype encr_spec = AllowNone | AutoOnly | TlsOnly | QuicOnly

definition to_lower :: "char \<Rightarrow> char" where
  "to_lower c = (if 65 \<le> (of_char c :: nat) \<and> (of_char c :: nat) \<le> 90 then char_of ((of_char c :: nat) + 32) else c)"

definition encr_spec_from_str :: "string \<Rightarrow> encr_spec result" where
  "encr_spec_from_str s =
     (let c = filter (\<lambda>c. c \<noteq> CHR ''-'') (map to_lower s) in
      if c = ''allownone'' then Inr AllowNone
      else if c = ''autoonly'' then Inr AutoOnly
      else if c = ''tlsonly'' then Inr TlsOnly
      else if c = ''quiconly'' then Inr QuicOnly
      else eyre ''Unknown EncrSpec'')"

text \<open>
  \<open>stats\<close>: totals over the records so far, then the record itself, for every record but the first; times and
  rates are left out.
\<close>

fun stats_rows :: "(nat \<times> nat option) list \<Rightarrow> bool \<Rightarrow> nat \<Rightarrow> nat \<Rightarrow> (nat \<times> nat \<times> nat \<times> nat) list" where
  "stats_rows [] seen records_observed bytes_observed = []"
| "stats_rows ((n, b) # rs) seen records_observed bytes_observed =
     (let tot = records_observed + n; k = (case b of Some x \<Rightarrow> x | None \<Rightarrow> 0); tot_b = bytes_observed + k in
      if seen then (tot, tot_b, n, k) # stats_rows rs True tot tot_b else stats_rows rs True tot tot_b)"

section \<open>What the server keeps\<close>

text \<open>The messages of a slice, when the empty slots are behind them, and the lines received in a run.\<close>

definition packed :: "'d option list \<Rightarrow> bool" where
  "packed ms \<longleftrightarrow> ms = map Some (map_while_take ms) @ replicate (length ms - length (map_while_take ms)) None"

fun received :: "'a ingest_event list \<Rightarrow> ('a \<times> line) list" where
  "received [] = []"
| "received (Recvd (Inr msgs) _ # evs) = map_while_take msgs @ received evs"
| "received (_ # evs) = received evs"

definition ack_of :: "'a \<times> line \<Rightarrow> 'a \<times> line" where
  "ack_of m = (fst m, Ack)"

lemma slot_acks_packed: "packed msgs \<Longrightarrow> slot_acks msgs = map ack_of (map_while_take msgs)"
proof -
  have "slot_acks (map Some ds @ replicate n None) = map ack_of ds" for ds :: "('a \<times> line) list" and n
  proof (induction ds)
    case Nil
    show ?case by (induction n) (simp_all add: slot_acks_def map_filter_simps)
  qed (auto simp: slot_acks_def map_filter_simps ack_of_def)
  then show "packed msgs \<Longrightarrow> ?thesis" by (metis packed_def)
qed

text \<open>
  Each line received has been given to a batch or waits for one, and its acknowledgement has been sent or
  waits for the end of the batch that is being processed.
\<close>

definition ingest_inv :: "('a \<times> line) list \<Rightarrow> 'a ingest \<Rightarrow> bool" where
  "ingest_inv lines st \<longleftrightarrow> concat (handled st) @ to_process st = lines \<and> acked st @ acks st = map ack_of lines
     \<and> (processing st = None \<longrightarrow> to_process st = [] \<and> acks st = [])
     \<and> (case processing st of None \<Rightarrow> True | Some b \<Rightarrow> b \<noteq> [] \<and> handled st \<noteq> [] \<and> b = last (handled st))"

lemma ingest_inv_start: "ingest_inv [] ingest_start"
  by (simp add: ingest_inv_def ingest_start_def)

lemma start_batch_inv:
  assumes "concat (handled st) @ to_process st = lines" "acked st @ acks st = map ack_of lines" "processing st = None"
    "to_process st = [] \<Longrightarrow> acks st = []"
  shows "ingest_inv lines (start_batch st)"
  using assms by (auto simp: start_batch_def ingest_inv_def)

lemma ingest_recvd_inv:
  assumes inv: "ingest_inv lines st" and turn: "ingest_turn (Recvd (Inr msgs) r) st = Inl st1" and p: "packed msgs"
  shows "ingest_inv (lines @ map_while_take msgs) st1"
proof -
  let ?st = "st\<lparr>acks := acks st @ slot_acks msgs, to_process := to_process st @ map_while_take msgs\<rparr>"
  note a = slot_acks_packed [OF p]
  show ?thesis
  proof (cases "processing st")
    case None
    then have e: "to_process st = []" "acks st = []" using inv by (auto simp: ingest_inv_def)
    show ?thesis
    proof (cases "length (to_process ?st) < 128")
      case True
      then obtain u where "r = Inr u" and st1: "st1 = start_batch (?st\<lparr>acked := acked st @ acks ?st, acks := []\<rparr>)"
        using turn None by (cases r) (auto simp: Let_def send_acks_def)
      show ?thesis unfolding st1 by (rule start_batch_inv) (use inv None e a in \<open>auto simp: ingest_inv_def\<close>)
    next
      case False
      then have st1: "st1 = start_batch ?st" using turn None by (simp add: Let_def)
      show ?thesis unfolding st1 by (rule start_batch_inv) (use inv None e a False in \<open>auto simp: ingest_inv_def\<close>)
    qed
  next
    case (Some b)
    then show ?thesis using turn inv a by (cases r) (auto simp: Let_def send_acks_def ingest_inv_def split: if_splits)
  qed
qed

lemma ingest_processed_inv:
  assumes inv: "ingest_inv lines st" and turn: "ingest_turn (Processed res r) st = Inl st1"
  shows "ingest_inv lines st1"
proof (cases "processing st")
  case None
  then show ?thesis using inv turn by simp
next
  case (Some b)
  obtain u where res: "res = Inr u" using turn Some by (cases res) auto
  show ?thesis
  proof (cases "acks st = []")
    case True
    then have st1: "st1 = start_batch (st\<lparr>processing := None\<rparr>)" using turn Some res by simp
    show ?thesis unfolding st1 by (rule start_batch_inv) (use inv True in \<open>auto simp: ingest_inv_def\<close>)
  next
    case False
    then have st1: "st1 = start_batch (st\<lparr>acked := acked st @ acks st, acks := [], processing := None\<rparr>)"
      using turn Some res by (cases r) (auto simp: send_acks_def)
    show ?thesis unfolding st1 by (rule start_batch_inv) (use inv in \<open>auto simp: ingest_inv_def\<close>)
  qed
qed

lemma ingest_run_inv:
  "ingest_inv lines st \<Longrightarrow> \<forall>msgs r. Recvd (Inr msgs) r \<in> set evs \<longrightarrow> packed msgs \<Longrightarrow> ingest_run evs st = (st1, None) \<Longrightarrow>
   ingest_inv (lines @ received evs) st1"
proof (induction evs arbitrary: st lines)
  case (Cons ev evs)
  from Cons.prems(3) obtain st2 where turn: "ingest_turn ev st = Inl st2" and run: "ingest_run evs st2 = (st1, None)"
    by (auto split: sum.splits)
  show ?case
  proof (cases ev)
    case (Processed res r)
    from Cons.IH [OF ingest_processed_inv [OF Cons.prems(1) turn [unfolded Processed]] _ run] Cons.prems(2)
    show ?thesis by (simp add: Processed)
  next
    case (Recvd m r)
    with turn obtain msgs where m: "m = Inr msgs" by (cases m) auto
    have "packed msgs" using Cons.prems(2) by (auto simp: Recvd m)
    from Cons.IH [OF ingest_recvd_inv [OF Cons.prems(1) turn [unfolded Recvd m] this] _ run] Cons.prems(2)
    show ?thesis by (auto simp: Recvd m)
  qed
qed simp

section \<open>From the server to the parser\<close>

lemma take_published:
  assumes "v6_text show_v6 parse_v6"
  shows "take_lines parse_v6 (map Some (publish_batch peel_ip show_v6 topic batch) @ replicate n None)
     = (map snd (publish_batch peel_ip show_v6 topic batch), replicate (length (publish_batch peel_ip show_v6 topic batch) + n) None)"
proof -
  have "take_lines parse_v6 (map Some (map (\<lambda>p. (\<lparr>topic_id = topic, group = Some (show_ip show_v6 (client_ip p))\<rparr>, p)) ps) @ replicate n None)
      = (ps, replicate (length ps + n) None)" for ps
  proof (induction ps)
    case Nil
    show ?case by (cases n) auto
  qed (use parse_show_ip [OF assms] in simp)
  then show ?thesis by (simp add: publish_batch_def comp_def)
qed

lemma published_append:
  "map snd (publish_batch peel_ip show_v6 topic (a @ b))
     = map snd (publish_batch peel_ip show_v6 topic a) @ map snd (publish_batch peel_ip show_v6 topic b)"
  by (simp add: publish_batch_def comp_def List.map_filter_def parse_raw_append)

lemma published_concat:
  "concat (map (\<lambda>b. map snd (publish_batch peel_ip show_v6 topic b)) bs) = map snd (publish_batch peel_ip show_v6 topic (concat bs))"
  by (induction bs) (simp_all add: published_append, simp add: publish_batch_def parse_raw_def List.map_filter_def)

lemma ingest_settles:
  assumes inv: "ingest_inv lines st" and some: "processing st \<noteq> None"
  shows "\<exists>st1. ingest_run [Processed (Inr ()) (Inr ()), Processed (Inr ()) (Inr ())] st = (st1, None)
     \<and> processing st1 = None \<and> to_process st1 = [] \<and> acks st1 = []"
  using assms by (auto simp: ingest_inv_def send_acks_def start_batch_def)

lemma ingest_run_append:
  "ingest_run evs st = (st1, None) \<Longrightarrow> ingest_run (evs @ evs1) st = ingest_run evs1 st1"
  by (induction evs arbitrary: st) (auto split: sum.splits)

section \<open>Properties\<close>

text \<open>
  C21: The server handles and acknowledges every line. Whatever connection and processing do, while the loop
  runs the batches that were started are, one after the other, the lines received so far without those
  that wait; the acknowledgements sent are one per line in the same order, without those that wait; nothing
  waits unless a batch is being processed; and if that batch and the next succeed, nothing waits after them.
\<close>

theorem ingest_handles_all:
  assumes "\<forall>msgs r. Recvd (Inr msgs) r \<in> set evs \<longrightarrow> packed msgs" and "ingest_run evs ingest_start = (st, None)"
  shows "concat (handled st) @ to_process st = received evs \<and> acked st @ acks st = map ack_of (received evs)
    \<and> (processing st = None \<longrightarrow> to_process st = [] \<and> acks st = [])
    \<and> (processing st \<noteq> None \<longrightarrow> (\<exists>st1. ingest_run (evs @ [Processed (Inr ()) (Inr ()), Processed (Inr ()) (Inr ())]) ingest_start = (st1, None)
         \<and> concat (handled st1) = received evs \<and> acked st1 = map ack_of (received evs)))"
proof -
  have inv: "ingest_inv (received evs) st" using ingest_run_inv [OF ingest_inv_start assms] by simp
  have "\<exists>st1. ingest_run (evs @ [Processed (Inr ()) (Inr ()), Processed (Inr ()) (Inr ())]) ingest_start = (st1, None)
         \<and> concat (handled st1) = received evs \<and> acked st1 = map ack_of (received evs)" if some: "processing st \<noteq> None"
  proof -
    from ingest_settles [OF inv some] obtain st1 where
      st1: "ingest_run [Processed (Inr ()) (Inr ()), Processed (Inr ()) (Inr ())] st = (st1, None)" "to_process st1 = []" "acks st1 = []"
      by blast
    then show ?thesis using ingest_run_inv [OF inv _ st1(1)] ingest_run_append [OF assms(2)] by (auto simp: ingest_inv_def)
  qed
  then show ?thesis using inv by (auto simp: ingest_inv_def)
qed

text \<open>
  Published lines are counted. If the text of addresses can be read back, the parser takes every message
  of a batch as the server published it: from the batches that the server has started, it takes the lines
  with an address among all reports that were received and do not wait, in their order.
\<close>

lemma published_lines_counted:
  fixes evs :: "'a ingest_event list"
  assumes "v6_text show_v6 parse_v6" and "\<forall>msgs r. Recvd (Inr msgs) r \<in> set evs \<longrightarrow> packed msgs"
    and "ingest_run evs ingest_start = (st, None)" and "processing st = None"
  shows "concat (map (\<lambda>b. fst (take_lines parse_v6 (map Some (publish_batch peel_ip show_v6 topic b)))) (handled st))
    = parse_raw peel_ip (List.map_filter (\<lambda>(_, l). case l of Report s \<Rightarrow> Some s | Ack \<Rightarrow> None) (received evs))"
proof -
  have "concat (handled st) = received evs"
    using ingest_run_inv [OF ingest_inv_start assms(2,3)] assms(4) by (auto simp: ingest_inv_def)
  moreover have "fst (take_lines parse_v6 (map Some (publish_batch peel_ip show_v6 topic b))) = map snd (publish_batch peel_ip show_v6 topic b)" for b :: "('a \<times> line) list"
    using take_published [OF assms(1), of peel_ip topic b 0] by simp
  ultimately show ?thesis by (simp add: published_concat) (simp add: publish_batch_def comp_def)
qed

section \<open>Witnesses\<close>

definition ex_ingest :: "nat ingest_event list" where
  "ex_ingest = [Recvd (Inr [Some (1, Report ''ab''), Some (2, Ack), None]) (Inr ()), Recvd (Inr [Some (1, Report ''b'')]) (Inr ()),
     Processed (Inr ()) (Inr ())]"

lemma ex_ingest_packed: "\<forall>msgs r. Recvd (Inr msgs) r \<in> set ex_ingest \<longrightarrow> packed msgs"
  by (auto simp: ex_ingest_def packed_def)

theorem ingest_handles_all_witness:
  "\<exists>st st1. ingest_run ex_ingest ingest_start = (st, None) \<and> processing st \<noteq> None \<and> handled st = [[(1, Report ''ab''), (2, Ack)], [(1, Report ''b'')]]
     \<and> ingest_run (ex_ingest @ [Processed (Inr ()) (Inr ()), Processed (Inr ()) (Inr ())]) ingest_start = (st1, None)
     \<and> acked st1 = [(1, Ack), (2, Ack), (1, Ack)]"
proof -
  obtain st where run: "ingest_run ex_ingest ingest_start = (st, None)" "processing st \<noteq> None"
      "handled st = [[(1, Report ''ab''), (2, Ack)], [(1, Report ''b'')]]"
    by (simp add: ex_ingest_def ingest_start_def send_acks_def start_batch_def slot_acks_def map_filter_simps)
  from ingest_handles_all [OF ex_ingest_packed run(1)] run show ?thesis
    by (auto simp: ex_ingest_def ack_of_def)
qed

definition ex_peel :: "string \<Rightarrow> ip_addr option option" where
  "ex_peel s = (if s = ''b'' then Some None else Some (Some (V6 (of_nat (length s)))))"

definition ex_show_v6 :: "128 word \<Rightarrow> string" where
  "ex_show_v6 w = CHR '':'' # show_nat (unat w)"

definition ex_parse_v6 :: "string \<Rightarrow> 128 word option" where
  "ex_parse_v6 s = Some (of_nat (read_nat (tl s)))"

lemma published_lines_counted_example:
  "\<exists>st. ingest_run (ex_ingest @ [Processed (Inr ()) (Inr ())]) ingest_start = (st, None)
     \<and> concat (map (\<lambda>b. fst (take_lines ex_parse_v6 (map Some (publish_batch ex_peel ex_show_v6 ''t'' b)))) (handled st))
        = [\<lparr>client_ip = V6 2, line_text = ''ab''\<rparr>]"
proof -
  obtain st where run: "ingest_run (ex_ingest @ [Processed (Inr ()) (Inr ())]) ingest_start = (st, None)" "processing st = None"
    by (simp add: ex_ingest_def ingest_start_def send_acks_def start_batch_def slot_acks_def map_filter_simps)
  have v6: "v6_text ex_show_v6 ex_parse_v6" by (simp add: v6_text_def ex_show_v6_def ex_parse_v6_def)
  have pk: "\<forall>msgs r. Recvd (Inr msgs) r \<in> set (ex_ingest @ [Processed (Inr ()) (Inr ())]) \<longrightarrow> packed msgs"
    using ex_ingest_packed by simp
  from published_lines_counted [OF v6 pk run, of ex_peel "''t''"] run(1) show ?thesis
    by (simp add: ex_ingest_def parse_raw_def map_filter_simps ex_peel_def)
qed

section \<open>Behaviour at the edges\<close>

text \<open>An error of the connection ends the loop with success and drops lines whose acknowledgement has been sent.\<close>

lemma acked_lines_lost:
  "\<exists>st. ingest_run [Recvd (Inr [Some (1 :: nat, Report ''a'')]) (Inr ()), Recvd (Inr [Some (1, Report ''b'')]) (Inr ()), Recvd (eyre ''closed'') (Inr ())]
       ingest_start = (st, Some (Inr ())) \<and> acked st = [(1, Ack), (1, Ack)] \<and> concat (handled st) = [(1, Report ''a'')]"
  by (simp add: ingest_start_def send_acks_def start_batch_def slot_acks_def map_filter_simps)

text \<open>
  A burst of 16 lines of the load generator, which have more than 128 characters each, is cut after the
  seventh; the rest is counted as sent.
\<close>

lemma take_bytes_bound:
  "take_bytes ls n = Inr (out, m) \<Longrightarrow> \<forall>l \<in> set ls. \<exists>s. l = Report s \<and> k \<le> length s \<Longrightarrow> n < 1024 \<Longrightarrow> n + k * length out < 1024"
  by (induction ls n arbitrary: out m rule: take_bytes.induct) (fastforce simp: Let_def res_bind_Inr_iff split: if_splits)+

lemma long_burst_is_cut:
  assumes "produce_turn burst send_r recv_r p = Inr (Some (p1, out, n))" "\<forall>l \<in> set burst. \<exists>s. l = Report s \<and> 128 \<le> length s"
  shows "length out \<le> 7 \<and> tot_msgs p1 = tot_msgs p + length burst"
proof -
  have "filter is_report burst = burst" using assms(2) by (induction burst) (auto simp: is_report_def)
  then obtain m where "take_bytes burst 0 = Inr (out, m)" "tot_msgs p1 = tot_msgs p + length burst"
    using assms(1) by (auto simp: produce_turn_def res_bind_Inr_iff split: if_splits)
  then show ?thesis using take_bytes_bound [OF _ assms(2)] by force
qed

text \<open>The manager asks for the side that the negotiation prefers, and a count of zero panics both.\<close>

lemma manager_follows_preference:
  "0 < np \<Longrightarrow> kafka \<noteq> Some (Some LeftSide) \<Longrightarrow>
   \<exists>s m1. prefer_ordering np = Inr s \<and> manager_turn kafka gcp (ParticipantsChanged np) m = Inr (Some m1)
     \<and> transition_in_progress m1 = Some s \<and> triggered m1 = triggered m @ [s]"
  by (auto simp: prefer_ordering_def)

lemma manager_reports_state:
  "manager_turn kafka gcp GcpChanged m = Inr (Some m1) \<Longrightarrow> Inr (watcher m1) = initial_state (kafka \<noteq> None) gcp"
  by (auto simp: initial_state_def split: option.splits if_splits)

text \<open>A connection that only returns errors is polled forever.\<close>

lemma serve_local_ignores_errors: "serve_local_turn process_lines (Inl e) done1 = Inr done1"
  by (simp add: serve_local_turn_def)

end
