(* ===== verification/Queue_Clients.thy ===== *)
theory Queue_Clients
  imports Pubsub
begin

text \<open>
  The transports on Kafka (\<open>kafka/src/lib.rs\<close>) and on Azure queues (\<open>az-queues/src/lib.rs\<close>). A Kafka send puts
  its records into the producer's queue and waits for the acknowledgements; a receive takes a chunk of what
  is ready into the caller's slots. An Azure receive asks all queues at once and returns the first message,
  after it has deleted it.

  The services are parameters: what they answer to the requests, in the order of the answers.
\<close>

section \<open>Kafka topics\<close>

datatype kafka_code = TopicAlreadyExists | UnknownTopic | OtherCode string

type_synonym topic_outcome = "(string \<times> kafka_code) + string"

fun collect_topics :: "kafka_code \<Rightarrow> string \<Rightarrow> topic_outcome list \<Rightarrow> unit result" where
  "collect_topics ignored ctx [] = Inr ()"
| "collect_topics ignored ctx (Inr _ # rs) = collect_topics ignored ctx rs"
| "collect_topics ignored ctx (Inl (t, code) # rs) =
     (if code = ignored then collect_topics ignored ctx rs else wrap_err ctx (eyre ''kafka error''))"

definition make_topics :: "unit result \<Rightarrow> (string list \<Rightarrow> topic_outcome list result) \<Rightarrow> string list \<Rightarrow> unit result" where
  "make_topics client create_topics topics =
     res_bind client (\<lambda>_. res_bind (wrap_err ''create_topics failed'' (create_topics topics))
       (collect_topics TopicAlreadyExists ''Failed to create topic''))"

definition delete_topics :: "unit result \<Rightarrow> (string list \<Rightarrow> topic_outcome list result) \<Rightarrow> string list \<Rightarrow> unit result" where
  "delete_topics client delete names =
     res_bind client (\<lambda>_. res_bind (wrap_err ''delete_topics failed'' (delete names))
       (collect_topics UnknownTopic ''Failed to delete topic''))"

section \<open>Kafka send\<close>

record kafka_record =
  rec_topic :: string
  rec_key :: "string option"
  rec_payload :: string

definition to_record :: "queue_addr \<times> string \<Rightarrow> kafka_record" where
  "to_record d = \<lparr>rec_topic = topic_id (fst d), rec_key = group (fst d), rec_payload = snd d\<rparr>"

text \<open>
  \<open>send_result\<close> for each message of the burst until one does not fit into the producer's queue; the result is the
  records that are in the queue by then. \<open>enqueue k\<close> is what happens to the \<open>k\<close>th one.
\<close>

fun kafka_enqueue :: "(nat \<Rightarrow> unit result) \<Rightarrow> nat \<Rightarrow> (queue_addr \<times> string) list \<Rightarrow> kafka_record list \<times> unit result" where
  "kafka_enqueue enqueue k [] = ([], Inr ())"
| "kafka_enqueue enqueue k (d # ds) =
     (case enqueue k of
        Inl e \<Rightarrow> ([], wrap_err ''constructing kafka delivery future failed'' (wrap_err ''kafka internal queue full'' (Inl e)))
      | Inr _ \<Rightarrow> (case kafka_enqueue enqueue (k + 1) ds of (q, r) \<Rightarrow> (to_record d # q, r)))"

text \<open>
  \<open>try_collect\<close> on the acknowledgements, in the order in which they come: \<open>None\<close> is one that was cancelled, which
  panics. When the list ends before all have come, the send is still waiting.
\<close>

fun kafka_acks :: "nat \<Rightarrow> unit result option list \<Rightarrow> unit result option" where
  "kafka_acks 0 acks = Some (Inr ())"
| "kafka_acks (Suc n) [] = None"
| "kafka_acks (Suc n) (None # acks) = Some (Inl (Panic ''called Result::unwrap on an Err value''))"
| "kafka_acks (Suc n) (Some (Inl e) # acks) = Some (wrap_err ''kafka send error'' (Inl e))"
| "kafka_acks (Suc n) (Some (Inr _) # acks) = kafka_acks n acks"

definition kafka_send ::
  "(nat \<Rightarrow> unit result) \<Rightarrow> unit result option list \<Rightarrow> (queue_addr \<times> string) list \<Rightarrow> kafka_record list \<times> unit result option" where
  "kafka_send enqueue acks burst =
     (case kafka_enqueue enqueue 0 burst of
        (q, Inl e) \<Rightarrow> (q, Some (Inl e))
      | (q, Inr _) \<Rightarrow> (q, kafka_acks (length q) acks))"

section \<open>Kafka receive\<close>

text \<open>A message as the client gives it: a key or a payload may be missing or not be a string.\<close>

record kafka_msg =
  k_topic :: string
  k_key :: "string result option"
  k_payload :: "string result option"

definition str_view :: "string result option \<Rightarrow> string option" where
  "str_view v = (case v of Some (Inr s) \<Rightarrow> Some s | _ \<Rightarrow> None)"

definition or_empty :: "string option \<Rightarrow> string" where
  "or_empty v = (case v of Some s \<Rightarrow> s | None \<Rightarrow> '''')"

type_synonym kafka_slot = "(queue_addr \<times> string) option"

definition kafka_slot_fill :: "kafka_msg \<Rightarrow> kafka_slot \<Rightarrow> queue_addr \<times> string" where
  "kafka_slot_fill m slot =
     (case slot of
        Some (addr, _) \<Rightarrow>
          (\<lparr>topic_id = k_topic m,
            group = (case str_view (k_key m) of Some g \<Rightarrow> Some (or_empty (group addr) @ g) | None \<Rightarrow> None)\<rparr>,
           or_empty (str_view (k_payload m)))
      | None \<Rightarrow> (\<lparr>topic_id = k_topic m, group = str_view (k_key m)\<rparr>, or_empty (str_view (k_payload m))))"

fun kafka_fill :: "kafka_msg result list \<Rightarrow> kafka_slot list \<Rightarrow> (queue_addr \<times> string) list result" where
  "kafka_fill (Inl e # ms) (slot # slots) = wrap_err ''kafka receive error'' (Inl e)"
| "kafka_fill (Inr m # ms) (slot # slots) = res_bind (kafka_fill ms slots) (\<lambda>ds. Inr (kafka_slot_fill m slot # ds))"
| "kafka_fill _ _ = Inr []"

text \<open>\<open>chunk n\<close> is the next chunk of at most \<open>n\<close> messages; the result is the slice of filled slots.\<close>

definition kafka_recv :: "(nat \<Rightarrow> kafka_msg result list) \<Rightarrow> kafka_slot list \<Rightarrow> (queue_addr \<times> string) list result" where
  "kafka_recv chunk msgs_buf = (if msgs_buf = [] then Inr [] else kafka_fill (chunk (length msgs_buf)) msgs_buf)"

section \<open>Azure queues\<close>

record account_builder =
  acc_name :: "string result"
  acc_key :: "string result"

definition account_default :: account_builder where
  "account_default = \<lparr>acc_name = eyre ''Azure account name not specified'', acc_key = eyre ''Azure account key not specified''\<rparr>"

definition with_name :: "string \<Rightarrow> account_builder \<Rightarrow> account_builder" where
  "with_name n b = b\<lparr>acc_name := Inr n\<rparr>"

definition with_key :: "string \<Rightarrow> account_builder \<Rightarrow> account_builder" where
  "with_key k b = b\<lparr>acc_key := Inr k\<rparr>"

definition with_env_vars :: "(string \<Rightarrow> string result) \<Rightarrow> account_builder \<Rightarrow> account_builder" where
  "with_env_vars var b =
     b\<lparr>acc_name := wrap_err ''AZ_STORAGE_ACCOUNT_NAME env var'' (var ''AZ_STORAGE_ACCOUNT_NAME''),
       acc_key := wrap_err ''AZ_STORAGE_ACCOUNT_KEY env var'' (var ''AZ_STORAGE_ACCOUNT_KEY'')\<rparr>"

definition account_finish :: "account_builder \<Rightarrow> (string \<times> string) result" where
  "account_finish b = res_bind (acc_name b) (\<lambda>n. res_bind (acc_key b) (\<lambda>k. Inr (n, k)))"

record az_msg =
  pop_receipt :: nat
  message_text :: string

definition az_err :: "string \<Rightarrow> 'a result \<Rightarrow> 'a result" where
  "az_err ctx r = (case r of Inl (Err _) \<Rightarrow> eyre ctx | _ \<Rightarrow> r)"

definition az_send :: "(string \<Rightarrow> string \<Rightarrow> unit result) \<Rightarrow> string \<times> string \<Rightarrow> unit result" where
  "az_send put d = az_err ''put_message err'' (put (fst d) (snd d))"

text \<open>
  \<open>recv\<close>: a request to each queue; an answer is the number of a queue in the list and its messages. Answers to
  requests that are not outstanding do not come. \<open>select_ok\<close> skips errors unless it is the last outstanding
  request that fails, and panics without any request. \<open>None\<close> is still waiting. The second result are the
  receipts that were deleted.
\<close>

definition outstanding :: "string list \<Rightarrow> nat list \<Rightarrow> nat list" where
  "outstanding queues futs = (if futs = [] then [0..<length queues] else futs)"

fun az_wait ::
  "(nat \<Rightarrow> unit result) \<Rightarrow> string list \<Rightarrow> nat list \<Rightarrow> (nat \<times> az_msg list result) list \<Rightarrow> (string \<times> string) result option \<times> nat list" where
  "az_wait delete queues futs [] = (None, [])"
| "az_wait delete queues futs ((i, r) # evs) =
     (let fs = outstanding queues futs in
      if i \<notin> set fs then az_wait delete queues fs evs
      else (case az_err ''get_message err'' r of
              Inl (Panic m) \<Rightarrow> (Some (Inl (Panic m)), [])
            | Inl e \<Rightarrow> if remove1 i fs = [] then (Some (Inl e), []) else az_wait delete queues (remove1 i fs) evs
            | Inr [] \<Rightarrow> az_wait delete queues (remove1 i fs) evs
            | Inr [m] \<Rightarrow>
                (case az_err ''delete_message err'' (delete (pop_receipt m)) of
                   Inl e \<Rightarrow> (Some (Inl e), [])
                 | Inr _ \<Rightarrow> (Some (Inr (queues ! i, message_text m)), [pop_receipt m]))
            | Inr _ \<Rightarrow> (Some (Inl (Panic ''Asked for only 1 message in GetMessagesRequest'')), [])))"

definition az_recv :: "(nat \<Rightarrow> unit result) \<Rightarrow> string list \<Rightarrow> (nat \<times> az_msg list result) list \<Rightarrow> (string \<times> string) result option \<times> nat list" where
  "az_recv delete queues evs =
     (if queues = [] then (Some (Inl (Panic ''iterator provided to select_ok was empty'')), []) else az_wait delete queues [] evs)"

section \<open>What a Kafka send has done\<close>

lemma kafka_enqueue_prefix:
  "kafka_enqueue enqueue k burst = (q, r) \<Longrightarrow>
   q = map to_record (take (length q) burst) \<and> length q \<le> length burst \<and> (is_ok r \<longleftrightarrow> length q = length burst)
   \<and> (is_ok r \<longleftrightarrow> (\<forall>i < length burst. is_ok (enqueue (k + i))))"
proof (induction burst arbitrary: k q)
  case (Cons d ds)
  show ?case
  proof (cases "enqueue k")
    case (Inl e)
    then show ?thesis using Cons.prems by (auto intro!: exI [of _ 0])
  next
    case (Inr u)
    obtain q1 where q1: "kafka_enqueue enqueue (k + 1) ds = (q1, r)" "q = to_record d # q1"
      using Cons.prems Inr by (auto split: prod.splits)
    have "(\<forall>i < length (d # ds). is_ok (enqueue (k + i))) \<longleftrightarrow> (\<forall>i < length ds. is_ok (enqueue (k + 1 + i)))"
      using Inr by (auto simp: less_Suc_eq_0_disj)
    then show ?thesis using Cons.IH [OF q1(1)] q1(2) by auto
  qed
qed auto

lemma kafka_acks_ok: "kafka_acks n acks = Some (Inr ()) \<longleftrightarrow> n \<le> length acks \<and> (\<forall>a \<in> set (take n acks). a = Some (Inr ()))"
  by (induction n acks rule: kafka_acks.induct) auto

text \<open>
  A send puts a prefix of its burst into the producer's queue, in order. It succeeds only when that is the whole
  burst and every record has been acknowledged, and then it does.
\<close>

lemma kafka_send_acknowledged:
  assumes "kafka_send enqueue acks burst = (q, r)"
  shows "q = map to_record (take (length q) burst)"
    "r = Some (Inr ()) \<longleftrightarrow> (\<forall>i < length burst. is_ok (enqueue i)) \<and> length burst \<le> length acks
       \<and> (\<forall>a \<in> set (take (length burst) acks). a = Some (Inr ()))"
    "r = Some (Inr ()) \<Longrightarrow> q = map to_record burst"
proof -
  obtain q1 r1 where e: "kafka_enqueue enqueue 0 burst = (q1, r1)" by (cases "kafka_enqueue enqueue 0 burst")
  note p = kafka_enqueue_prefix [OF e]
  have q: "q = q1" using assms e by (auto simp: kafka_send_def split: sum.splits)
  then show "q = map to_record (take (length q) burst)" using p by simp
  have r: "r = (case r1 of Inl e \<Rightarrow> Some (Inl e) | Inr _ \<Rightarrow> kafka_acks (length q1) acks)"
    using assms e by (auto simp: kafka_send_def split: sum.splits)
  then show "r = Some (Inr ()) \<longleftrightarrow> (\<forall>i < length burst. is_ok (enqueue i)) \<and> length burst \<le> length acks
       \<and> (\<forall>a \<in> set (take (length burst) acks). a = Some (Inr ()))"
    using p by (cases r1) (auto simp: kafka_acks_ok)
  show "q = map to_record burst" if "r = Some (Inr ())"
    using that p r q by (cases r1) auto
qed

section \<open>What a Kafka receive returns\<close>

definition kafka_decode :: "kafka_msg \<Rightarrow> queue_addr \<times> string" where
  "kafka_decode m = (\<lparr>topic_id = k_topic m, group = str_view (k_key m)\<rparr>, or_empty (str_view (k_payload m)))"

text \<open>A slot is clean when it is empty or holds a message without a group.\<close>

definition clean_slot :: "kafka_slot \<Rightarrow> bool" where
  "clean_slot s = (case s of Some (addr, _) \<Rightarrow> group addr = None | None \<Rightarrow> True)"

lemma clean_slot_fill: "clean_slot s \<Longrightarrow> kafka_slot_fill m s = kafka_decode m"
  by (auto simp: clean_slot_def kafka_slot_fill_def kafka_decode_def or_empty_def split: option.splits)

lemma kafka_recv_clean:
  assumes "\<forall>s \<in> set msgs_buf. clean_slot s" "chunk (length msgs_buf) = map Inr ms" "length ms \<le> length msgs_buf"
  shows "kafka_recv chunk msgs_buf = Inr (map kafka_decode ms)"
proof -
  have "length ms \<le> length slots \<Longrightarrow> \<forall>s \<in> set slots. clean_slot s \<Longrightarrow> kafka_fill (map Inr ms) slots = Inr (map kafka_decode ms)" for slots
  proof (induction ms arbitrary: slots)
    case (Cons m ms)
    then show ?case by (cases slots) (auto simp: clean_slot_fill)
  qed simp
  from this [OF assms(3,1)] assms(2,3) show ?thesis by (auto simp: kafka_recv_def)
qed

text \<open>
  A slot that still has a message: its topic and body are overwritten, but the new group is appended to the old one.
\<close>

lemma kafka_stale_group:
  "str_view (k_key m) = Some g \<Longrightarrow> kafka_slot_fill m (Some (\<lparr>topic_id = t, group = Some old\<rparr>, b)) =
     (\<lparr>topic_id = k_topic m, group = Some (old @ g)\<rparr>, or_empty (str_view (k_payload m)))"
  by (simp add: kafka_slot_fill_def or_empty_def)

text \<open>An error in a chunk fails the receive: the messages before and after it in the chunk are not returned.\<close>

lemma kafka_error_loses_chunk:
  "length ms < length slots \<Longrightarrow> \<exists>f. kafka_fill (map Inr ms @ Inl e # rest) slots = Inl f"
proof (induction ms arbitrary: slots)
  case Nil
  then show ?case by (cases slots) auto
next
  case (Cons m ms)
  then show ?case by (cases slots) fastforce+
qed

section \<open>What an Azure receive returns\<close>

lemma az_err_simps [simp]: "az_err ctx (Inr x) = Inr x" "az_err ctx (Inl (Panic m)) = Inl (Panic m)" "az_err ctx (Inl (Err ms)) = eyre ctx"
  by (simp_all add: az_err_def)

lemma az_err_Inr_iff [simp]: "az_err ctx r = Inr x \<longleftrightarrow> r = Inr x"
  by (auto simp: az_err_def split: sum.splits failure.splits)

text \<open>
  A message that is returned came from the queue that is named with it, and has been deleted there, it and
  nothing else.
\<close>

lemma outstanding_bound: "set futs \<subseteq> {..<length queues} \<Longrightarrow> set (outstanding queues futs) \<subseteq> {..<length queues}"
  by (auto simp: outstanding_def)

lemma az_wait_returns_deleted:
  "az_wait delete queues futs evs = (Some (Inr (q, t)), ds) \<Longrightarrow> set futs \<subseteq> {..<length queues} \<Longrightarrow>
   \<exists>i m. (i, Inr [m]) \<in> set evs \<and> i < length queues \<and> q = queues ! i \<and> t = message_text m \<and> ds = [pop_receipt m] \<and> is_ok (delete (pop_receipt m))"
proof (induction evs arbitrary: futs)
  case (Cons ev evs)
  obtain i r where ev: "ev = (i, r)" by (cases ev)
  let ?fs = "outstanding queues futs"
  note sub = outstanding_bound [OF Cons.prems(2)]
  have rem: "set (remove1 i ?fs) \<subseteq> {..<length queues}" using sub set_remove1_subset [of i ?fs] by blast
  have later: ?case if "az_wait delete queues futs1 evs = (Some (Inr (q, t)), ds)" "set futs1 \<subseteq> {..<length queues}" for futs1
    using Cons.IH [OF that] by auto
  show ?case
  proof (cases "i \<in> set ?fs")
    case False
    then show ?thesis using Cons.prems(1) by (intro later [OF _ sub]) (simp add: ev)
  next
    case mem: True
    consider (err) e where "r = Inl (Err e)" | (panic) m where "r = Inl (Panic m)" | (empty) "r = Inr []" | (one) m where "r = Inr [m]"
      | (more) m1 m2 ms where "r = Inr (m1 # m2 # ms)"
      by (metis failure.exhaust list.exhaust sum.exhaust)
    then show ?thesis
    proof cases
      case err
      then show ?thesis using Cons.prems(1) mem by (intro later [OF _ rem]) (simp add: ev Let_def split: if_splits)
    next
      case empty
      then show ?thesis using Cons.prems(1) mem by (intro later [OF _ rem]) (simp add: ev Let_def)
    next
      case (one m)
      obtain u where u: "delete (pop_receipt m) = Inr u" using Cons.prems(1) mem one
        by (cases "az_err ''delete_message err'' (delete (pop_receipt m))") (auto simp: ev Let_def)
      then show ?thesis using Cons.prems(1) mem sub one by (intro exI [of _ i] exI [of _ m]) (auto simp: ev Let_def)
    qed (use Cons.prems(1) mem in \<open>simp_all add: ev Let_def\<close>)
  qed
qed simp

lemma az_recv_returns_deleted:
  "az_recv delete queues evs = (Some (Inr (q, t)), ds) \<Longrightarrow>
   \<exists>i m. (i, Inr [m]) \<in> set evs \<and> i < length queues \<and> q = queues ! i \<and> t = message_text m \<and> ds = [pop_receipt m] \<and> is_ok (delete (pop_receipt m))"
  using az_wait_returns_deleted [of delete queues "[]" evs q t ds] by (auto simp: az_recv_def split: if_splits)

text \<open>One queue that is empty for a while is asked again until it has a message.\<close>

lemma az_recv_polls_again:
  assumes "is_ok (delete (pop_receipt m))"
  shows "az_recv delete [q] (replicate k (0, Inr []) @ [(0, Inr [m])]) = (Some (Inr (q, message_text m)), [pop_receipt m])"
proof -
  have "az_wait delete [q] [] (replicate k (0, Inr []) @ [(0, Inr [m])]) = (Some (Inr (q, message_text m)), [pop_receipt m])"
    using assms by (induction k) (auto simp: outstanding_def is_ok_iff)
  then show ?thesis by (simp add: az_recv_def)
qed

text \<open>
  Without queues a receive panics. An error of the last queue to answer fails it although the others answered
  that they are empty.
\<close>

lemma az_recv_no_queues: "panics (the (fst (az_recv delete [] evs)))"
  by (simp add: az_recv_def)

lemma az_last_error_fails:
  "az_recv delete [a, b] [(0, Inr []), (1, Inl (Err e))] = (Some (eyre ''get_message err''), [])"
  "az_recv delete [a, b] [(1, Inl (Err e)), (0, Inr [])] = (None, [])"
  by (simp_all add: az_recv_def outstanding_def)

end
