(* ===== verification/Unix_Sockets.thy ===== *)
theory Unix_Sockets
  imports Connections
begin

text \<open>
  Unix datagram sockets (\<open>bertha/src/uds.rs\<close>) and the listener over two listeners (\<open>bertha/src/select.rs\<close>). A receive shares the code of the UDP sockets, so its model is that of
  \<open>Connections\<close> on what the socket finds. Paths are strings, the file system is the set of those that exist;
  binding a socket is a parameter that fails on a path that exists.
\<close>

section \<open>Receiving and sending\<close>

text \<open>A datagram has no path when its sender's socket has no name; the datagram is taken from the socket all the same.\<close>

datatype unix_event = UnixDatagram "string option" bytes | UnixBlock | UnixError failure

fun unix_peek :: "unix_event \<Rightarrow> string sock_event" where
  "unix_peek (UnixDatagram (Some p) d) = Datagram p d"
| "unix_peek (UnixDatagram None d) = IoError (Err [''received from unnamed socket''])"
| "unix_peek UnixBlock = WouldBlock"
| "unix_peek (UnixError e) = IoError e"

definition unix_recv :: "unix_event list \<Rightarrow> string packet_slot list \<Rightarrow> string packet_slot list result option" where
  "unix_recv evs buf = fst (udp_recv (map unix_peek evs) buf)"

text \<open>\<open>send_to k\<close> is what happens to the \<open>k\<close>th datagram; the first result is what has been sent.\<close>

fun unix_send :: "(nat \<Rightarrow> unit result) \<Rightarrow> nat \<Rightarrow> (string \<times> bytes) list \<Rightarrow> (string \<times> bytes) list \<times> unit result" where
  "unix_send send_to k [] = ([], Inr ())"
| "unix_send send_to k (d # ds) =
     (case wrap_err ''unixsk send to address'' (send_to k) of
        Inl e \<Rightarrow> ([], Inl e)
      | Inr _ \<Rightarrow> (case unix_send send_to (k + 1) ds of (out, r) \<Rightarrow> (d # out, r)))"

definition unix_conn_send :: "(nat \<Rightarrow> unit result) \<Rightarrow> string \<Rightarrow> (string \<times> bytes) list \<Rightarrow> (string \<times> bytes) list \<times> unit result" where
  "unix_conn_send send_to resp_addr burst = unix_send send_to 0 (map (\<lambda>(_, data). (resp_addr, data)) burst)"

section \<open>Binding\<close>

type_synonym files = "string set"

definition bind_path :: "string \<Rightarrow> files \<Rightarrow> unit result \<times> files" where
  "bind_path a fs = (if a \<in> fs then (eyre ''Address already in use'', fs) else (Inr (), insert a fs))"

text \<open>\<open>UnixSkChunnel\<close> removes the file at the path first, \<open>UnixReqChunnel\<close> does not. Dropping a socket leaves its file.\<close>

definition unix_listen :: "(string \<Rightarrow> files \<Rightarrow> unit result \<times> files) \<Rightarrow> string \<Rightarrow> files \<Rightarrow> unit result \<times> files" where
  "unix_listen bind a fs = bind a (fs - {a})"

definition unix_req_listen :: "(string \<Rightarrow> files \<Rightarrow> unit result \<times> files) \<Rightarrow> string \<Rightarrow> files \<Rightarrow> unit result \<times> files" where
  "unix_req_listen bind a fs = (case bind a fs of (r, fs1) \<Rightarrow> (wrap_err ''socket bind failed'' r, fs1))"

definition unix_connect :: "(string \<Rightarrow> files \<Rightarrow> unit result \<times> files) \<Rightarrow> string \<Rightarrow> string \<Rightarrow> files \<Rightarrow> unit result \<times> files" where
  "unix_connect bind root stem fs = bind (root @ ''/'' @ stem) fs"

section \<open>Listening on two listeners\<close>

text \<open>
  Both listeners are started with their addresses and waited for; the first error is the left one's. \<open>merge\<close> is how
  the two streams of connections become one.
\<close>

definition select_listen ::
  "('m list \<Rightarrow> 'm list \<Rightarrow> 'm list) \<Rightarrow> ('a \<Rightarrow> 'c result list result) \<Rightarrow> ('b \<Rightarrow> 'd result list result) \<Rightarrow> 'a \<times> 'b
     \<Rightarrow> (('c result \<Rightarrow> 'm) \<times> ('d result \<Rightarrow> 'm)) \<Rightarrow> 'm list result" where
  "select_listen merge listen_a listen_b addrs tag =
     res_bind (listen_a (fst addrs)) (\<lambda>as. res_bind (listen_b (snd addrs)) (\<lambda>bs.
       Inr (merge (map (fst tag) as) (map (snd tag) bs))))"

definition either_tag :: "('c result \<Rightarrow> ('c + 'd) result) \<times> ('d result \<Rightarrow> ('c + 'd) result)" where
  "either_tag = ((\<lambda>c. res_bind c (\<lambda>x. Inr (Inl x))), (\<lambda>d. res_bind d (\<lambda>x. Inr (Inr x))))"

definition select_listen_same where
  "select_listen_same merge listen_a listen_b addr = select_listen merge listen_a listen_b (addr, addr) either_tag"

section \<open>Lemmas\<close>

lemma unix_send_prefix:
  "unix_send send_to k burst = (out, r) \<Longrightarrow> out = take (length out) burst \<and> (is_ok r \<longleftrightarrow> out = burst)
   \<and> (is_ok r \<longleftrightarrow> (\<forall>i < length burst. is_ok (send_to (k + i))))"
proof (induction burst arbitrary: k out)
  case (Cons d ds)
  show ?case
  proof (cases "send_to k")
    case (Inl e)
    then show ?thesis using Cons.prems by (auto intro!: exI [of _ 0])
  next
    case (Inr u)
    obtain out1 where o: "unix_send send_to (k + 1) ds = (out1, r)" "out = d # out1"
      using Cons.prems Inr by (auto split: prod.splits)
    have "(\<forall>i < length (d # ds). is_ok (send_to (k + i))) \<longleftrightarrow> (\<forall>i < length ds. is_ok (send_to (k + 1 + i)))"
      using Inr by (auto simp: less_Suc_eq_0_disj)
    then show ?thesis using Cons.IH [OF o(1)] o(2) by auto
  qed
qed auto

lemma unix_peek_named [simp]: "unix_peek \<circ> (\<lambda>(p, d). UnixDatagram (Some p) d) = (\<lambda>(p, d). Datagram p d)"
  by auto

text \<open>Datagrams of named senders fill the slots as on a UDP socket.\<close>

lemma unix_recv_named:
  assumes "ds \<noteq> []" "length ds \<le> length buf"
  shows "unix_recv (map (\<lambda>(p, d). UnixDatagram (Some p) d) ds) buf =
     Some (Inr (map (\<lambda>((p, d), slot). Some (p, take (read_len slot) d)) (zip ds buf) @ drop (length ds) buf))"
  using udp_recv_datagrams [OF assms] by (simp add: unix_recv_def)

text \<open>
  One datagram of a sender without a name fails the receive, and the datagrams before it that were already taken
  from the socket are not returned.
\<close>

lemma peel_rest_error:
  "length ds < length slots \<Longrightarrow> \<exists>slots1 rest. peel_rest (map (\<lambda>(p, d). Datagram p d) ds @ IoError e # evs) slots = (Inl e, slots1, rest)"
proof (induction ds arbitrary: slots)
  case Nil
  then show ?case by (cases slots) auto
next
  case (Cons x ds)
  obtain p d where x: "x = (p, d)" by (cases x)
  obtain s ss where s: "slots = s # ss" using Cons.prems by (cases slots) auto
  have "length ds < length ss" using Cons.prems by (simp add: s)
  from Cons.IH [OF this] show ?case by (auto simp: x s)
qed

lemma unnamed_sender_fails_recv:
  assumes "length ds < length buf"
  shows "unix_recv (map (\<lambda>(p, d). UnixDatagram (Some p) d) ds @ UnixDatagram None d0 # evs) buf = Some (eyre ''received from unnamed socket'')"
proof -
  obtain s ss where s: "buf = s # ss" using assms by (cases buf) auto
  show ?thesis
  proof (cases ds)
    case Nil
    then show ?thesis by (simp add: unix_recv_def s)
  next
    case (Cons x xs)
    have "length xs < length ss" using assms by (simp add: s Cons)
    from peel_rest_error [OF this, of "Err [''received from unnamed socket'']" "map unix_peek evs"] show ?thesis
      by (auto simp: unix_recv_def s Cons split: prod.splits)
  qed
qed

text \<open>
  After a restart the file of the last run is still there: a plain socket takes the path over, also from a
  process that is alive, while the listener for connections cannot bind it.
\<close>

lemma stale_path:
  "fst (unix_listen bind_path a (insert a fs)) = Inr ()" "\<not> is_ok (fst (unix_req_listen bind_path a (snd (unix_req_listen bind_path a fs))))"
  by (auto simp: unix_listen_def unix_req_listen_def bind_path_def)

text \<open>The merged stream has the connections of each listener in their order, marked with the side they are from.\<close>

lemma filter_shuffles: "zs \<in> shuffles xs ys \<Longrightarrow> \<forall>x \<in> set xs. P x \<Longrightarrow> \<forall>y \<in> set ys. \<not> P y \<Longrightarrow> filter P zs = xs"
  by (induction xs ys arbitrary: zs rule: shuffles.induct) (auto simp: filter_empty_conv)

lemma select_listen_sides:
  assumes "\<And>xs ys. merge xs ys \<in> shuffles xs ys"
    and "select_listen merge listen_a listen_b addrs either_tag = Inr cns" and "listen_a (fst addrs) = Inr (map Inr as)" "listen_b (snd addrs) = Inr (map Inr bs)"
  shows "filter (\<lambda>c. \<exists>x. c = Inr (Inl x)) cns = map (\<lambda>x. Inr (Inl x)) as" "filter (\<lambda>c. \<exists>y. c = Inr (Inr y)) cns = map (\<lambda>y. Inr (Inr y)) bs"
proof -
  have cns: "cns \<in> shuffles (map (\<lambda>x. Inr (Inl x)) as) (map (\<lambda>y. Inr (Inr y)) bs)"
    using assms by (auto simp: select_listen_def either_tag_def comp_def)
  show "filter (\<lambda>c. \<exists>x. c = Inr (Inl x)) cns = map (\<lambda>x. Inr (Inl x)) as" by (rule filter_shuffles [OF cns]) auto
  show "filter (\<lambda>c. \<exists>y. c = Inr (Inr y)) cns = map (\<lambda>y. Inr (Inr y)) bs"
    by (rule filter_shuffles [of cns "map (\<lambda>y. Inr (Inr y)) bs" "map (\<lambda>x. Inr (Inl x)) as"]) (use cns shuffles_commutes in auto)
qed

end
