(* ===== verification/Shenango_Kv.thy ===== *)
theory Shenango_Kv
  imports Kvstore "HOL-Library.Multiset"
begin

text \<open>
  The library on the Shenango runtime (\<open>shenango-bertha/src/lib.rs\<close>), where threads block instead of awaiting: the
  adaptors, the reliability chunnel of the key-value client, the client without chunnels, and sharding. Each
  request of a client runs a thread of its own that reads responses, for its own request or for others; the
  threads share a table of requests.

  Between two points where a thread blocks or takes a lock its code is a function on the shared state; a step
  relation interleaves them. What the network delivers and the timers are up to the environment.
\<close>

section \<open>Adaptors\<close>

text \<open>\<open>Project\<close> fixes the address of a connection, \<open>InjectOne\<close> returns a given message from the first receive.\<close>

definition project_send :: "('a \<times> 'd \<Rightarrow> unit result) \<Rightarrow> 'a \<Rightarrow> 'd \<Rightarrow> unit result" where
  "project_send send a d = wrap_err ''Project send'' (send (a, d))"

definition project_recv :: "('a \<times> 'd) result \<Rightarrow> 'd result" where
  "project_recv r = res_bind r (\<lambda>x. Inr (snd x))"

record 'd inject_one =
  injected :: bool
  inj_slot :: "'d option"

definition inject_new :: "'d inject_one" where
  "inject_new = \<lparr>injected = False, inj_slot = None\<rparr>"

definition inject_recv :: "'d result \<Rightarrow> 'd inject_one \<Rightarrow> 'd result \<times> 'd inject_one" where
  "inject_recv inner_recv s =
     (if injected s then (inner_recv, s)
      else (case inj_slot s of
              Some d \<Rightarrow> (Inr d, s\<lparr>injected := True, inj_slot := None\<rparr>)
            | None \<Rightarrow> (Inl (Panic ''called Option::unwrap on a None value''), s\<lparr>injected := True\<rparr>)))"

section \<open>Reliability\<close>

text \<open>
  \<open>KvReliability\<close>. A call of \<open>send\<close> has a message id, a result once it has returned, and a reader thread: reading,
  holding the id of a response that it has pushed to \<open>recvs\<close>, or ended. \<open>sends\<close> has for an id the call whose
  waiter is to be told, \<open>told\<close> are the calls that have been. The numbers count calls of \<open>recv\<close> that have found
  nothing, wait for the condition variable, and have been woken. \<open>received\<close>, \<open>taken\<close> and \<open>strays\<close> are records for
  the proofs: what came from the network, what \<open>recv\<close> has returned, and the calls whose reader ended by a
  response that nobody waits for.
\<close>

datatype reader = Reading | Holding u64 | Ended "unit result"

record ('t, 'd) skv =
  sends :: "u64 \<rightharpoonup> 't"
  told :: "'t set"
  calls :: "'t \<rightharpoonup> u64 \<times> unit result option"
  readers :: "'t \<rightharpoonup> reader"
  recvs :: "'d list"
  checked :: nat
  waiting :: nat
  woken :: nat
  received :: "'d list"
  taken :: "'d list"
  strays :: "'t set"

definition skv_new :: "('t, 'd) skv" where
  "skv_new = \<lparr>sends = Map.empty, told = {}, calls = Map.empty, readers = Map.empty, recvs = [], checked = 0, waiting = 0, woken = 0,
     received = [], taken = [], strays = {}\<rparr>"

text \<open>The start of \<open>send\<close>; \<open>r\<close> is what the inner send returns. After an error the entry of the table stays.\<close>

definition skv_send :: "'t \<Rightarrow> u64 \<Rightarrow> unit result \<Rightarrow> ('t, 'd) skv \<Rightarrow> ('t, 'd) skv" where
  "skv_send t i r s =
     (let s1 = s\<lparr>sends := (sends s)(i \<mapsto> t)\<rparr> in
      case r of
        Inl e \<Rightarrow> s1\<lparr>calls := (calls s)(t \<mapsto> (i, Some (Inl e)))\<rparr>
      | Inr _ \<Rightarrow> s1\<lparr>calls := (calls s)(t \<mapsto> (i, None)), readers := (readers s)(t \<mapsto> Reading)\<rparr>)"

text \<open>The reader: a response from the network is pushed and signalled; then its sender is looked up.\<close>

definition reader_push :: "('d \<Rightarrow> u64) \<Rightarrow> 't \<Rightarrow> 'd \<Rightarrow> ('t, 'd) skv \<Rightarrow> ('t, 'd) skv" where
  "reader_push mid t d s =
     s\<lparr>readers := (readers s)(t \<mapsto> Holding (mid d)), recvs := recvs s @ [d], received := received s @ [d],
       waiting := waiting s - 1, woken := woken s + (if 0 < waiting s then 1 else 0)\<rparr>"

definition reader_error :: "'t \<Rightarrow> failure \<Rightarrow> ('t, 'd) skv \<Rightarrow> ('t, 'd) skv" where
  "reader_error t e s = s\<lparr>readers := (readers s)(t \<mapsto> Ended (wrap_err ''kvreliability recv acks'' (Inl e)))\<rparr>"

definition reader_match :: "'t \<Rightarrow> u64 \<Rightarrow> u64 \<Rightarrow> ('t, 'd) skv \<Rightarrow> ('t, 'd) skv" where
  "reader_match t i j s =
     (case sends s j of
        None \<Rightarrow> s\<lparr>readers := (readers s)(t \<mapsto> Ended (Inr ())), strays := insert t (strays s)\<rparr>
      | Some t1 \<Rightarrow>
          s\<lparr>sends := (sends s)(j := None), told := insert t1 (told s),
            readers := (readers s)(t \<mapsto> if j = i \<or> sends s i = None then Ended (Inr ()) else Reading)\<rparr>)"

definition skv_return :: "'t \<Rightarrow> u64 \<Rightarrow> unit result \<Rightarrow> ('t, 'd) skv \<Rightarrow> ('t, 'd) skv" where
  "skv_return t i r s = s\<lparr>calls := (calls s)(t \<mapsto> (i, Some r))\<rparr>"

text \<open>\<open>recv\<close> takes the last message of \<open>recvs\<close>.\<close>

definition skv_pop :: "('t, 'd) skv \<Rightarrow> ('t, 'd) skv" where
  "skv_pop s = s\<lparr>recvs := butlast (recvs s), taken := taken s @ [last (recvs s)]\<rparr>"

inductive skv_step :: "('d \<Rightarrow> u64) \<Rightarrow> ('t, 'd) skv \<Rightarrow> ('t, 'd) skv \<Rightarrow> bool" for mid where
  Send: "calls s t = None \<Longrightarrow> skv_step mid s (skv_send t i r s)"
| Push: "readers s t = Some Reading \<Longrightarrow> skv_step mid s (reader_push mid t d s)"
| Read_error: "readers s t = Some Reading \<Longrightarrow> skv_step mid s (reader_error t e s)"
| Match: "readers s t = Some (Holding j) \<Longrightarrow> calls s t = Some (i, r) \<Longrightarrow> skv_step mid s (reader_match t i j s)"
| Resend_failed: "calls s t = Some (i, None) \<Longrightarrow> skv_step mid s (skv_return t i (Inl e) s)"
| Return_sent: "calls s t = Some (i, None) \<Longrightarrow> t \<in> told s \<Longrightarrow> skv_step mid s (skv_return t i (Inr ()) s)"
| Return_read: "calls s t = Some (i, None) \<Longrightarrow> readers s t = Some (Ended r) \<Longrightarrow> skv_step mid s (skv_return t i r s)"
| Recv_now: "recvs s \<noteq> [] \<Longrightarrow> skv_step mid s (skv_pop s)"
| Recv_check: "recvs s = [] \<Longrightarrow> skv_step mid s (s\<lparr>checked := checked s + 1\<rparr>)"
| Recv_wait: "0 < checked s \<Longrightarrow> skv_step mid s (s\<lparr>checked := checked s - 1, waiting := waiting s + 1\<rparr>)"
| Recv_woken: "0 < woken s \<Longrightarrow> recvs s \<noteq> [] \<Longrightarrow> skv_step mid s ((skv_pop s)\<lparr>woken := woken s - 1\<rparr>)"
| Recv_again: "0 < woken s \<Longrightarrow> recvs s = [] \<Longrightarrow> skv_step mid s (s\<lparr>woken := woken s - 1, waiting := waiting s + 1\<rparr>)"

inductive skv_reachable :: "('d \<Rightarrow> u64) \<Rightarrow> ('t, 'd) skv \<Rightarrow> bool" for mid where
  Start: "skv_reachable mid skv_new"
| Step: "skv_reachable mid s \<Longrightarrow> skv_step mid s s1 \<Longrightarrow> skv_reachable mid s1"

definition answered :: "('d \<Rightarrow> u64) \<Rightarrow> ('t, 'd) skv \<Rightarrow> u64 \<Rightarrow> bool" where
  "answered mid s i \<longleftrightarrow> i \<in> mid ` set (received s)"

definition call_id :: "('t, 'd) skv \<Rightarrow> 't \<Rightarrow> u64 option" where
  "call_id s t = map_option fst (calls s t)"

definition skv_inv :: "('d \<Rightarrow> u64) \<Rightarrow> ('t, 'd) skv \<Rightarrow> bool" where
  "skv_inv mid s \<longleftrightarrow>
     mset (received s) = mset (recvs s) + mset (taken s)
     \<and> (\<forall>j t. sends s j = Some t \<longrightarrow> call_id s t = Some j)
     \<and> (\<forall>t i. call_id s t = Some i \<longrightarrow> sends s i = None \<longrightarrow> answered mid s i)
     \<and> (\<forall>t i. call_id s t = Some i \<longrightarrow> t \<in> told s \<longrightarrow> answered mid s i)
     \<and> (\<forall>t j. readers s t = Some (Holding j) \<longrightarrow> answered mid s j)
     \<and> (\<forall>t i. call_id s t = Some i \<longrightarrow> readers s t = Some (Ended (Inr ())) \<longrightarrow> answered mid s i \<or> t \<in> strays s)
     \<and> (\<forall>t i. calls s t = Some (i, Some (Inr ())) \<longrightarrow> answered mid s i \<or> t \<in> strays s)
     \<and> dom (readers s) \<union> told s \<subseteq> dom (calls s)"

section \<open>The invariant of the reliability chunnel\<close>

lemma call_id_eq: "calls s t = Some (i, r) \<Longrightarrow> call_id s t = Some i"
  by (simp add: call_id_def)

text \<open>A step that changes only what a call returns, or the readers, keeps the ids.\<close>

lemma call_id_return: "calls s t = Some (i, r) \<Longrightarrow> call_id (skv_return t i r1 s) t1 = call_id s t1"
  by (simp add: call_id_def skv_return_def)

lemma skv_send_inv: "skv_inv mid s \<Longrightarrow> calls s t = None \<Longrightarrow> skv_inv mid (skv_send t i r s)"
proof -
  assume inv: "skv_inv mid s" and new: "calls s t = None"
  have old: "readers s t = None" "t \<notin> told s" "call_id s t = None" using inv new by (auto simp: skv_inv_def call_id_def)
  have id: "call_id (skv_send t i r s) t1 = (if t1 = t then Some i else call_id s t1)" for t1
    by (auto simp: call_id_def skv_send_def Let_def split: sum.splits)
  show ?thesis
  proof (cases r)
    case (Inl e)
    then show ?thesis using inv new old unfolding skv_inv_def id by (auto simp: skv_send_def Let_def answered_def)
  next
    case (Inr u)
    then show ?thesis using inv new old unfolding skv_inv_def id by (auto simp: skv_send_def Let_def answered_def)
  qed
qed

lemma reader_push_inv: "skv_inv mid s \<Longrightarrow> readers s t = Some Reading \<Longrightarrow> skv_inv mid (reader_push mid t d s)"
  by (auto simp: skv_inv_def answered_def call_id_def reader_push_def)

lemma reader_error_inv: "skv_inv mid s \<Longrightarrow> readers s t = Some Reading \<Longrightarrow> skv_inv mid (reader_error t e s)"
  by (auto simp: skv_inv_def answered_def call_id_def reader_error_def)

lemma reader_match_inv:
  assumes inv: "skv_inv mid s" and r: "readers s t = Some (Holding j)" and c: "calls s t = Some (i, r)"
  shows "skv_inv mid (reader_match t i j s)"
proof -
  have id: "call_id (reader_match t i j s) = call_id s" by (auto simp: call_id_def reader_match_def split: option.splits)
  have ans: "answered mid (reader_match t i j s) = answered mid s" by (auto simp: answered_def reader_match_def split: option.splits)
  have j: "answered mid s j" using inv r by (auto simp: skv_inv_def)
  have i: "call_id s t = Some i" "sends s i = None \<Longrightarrow> answered mid s i" using inv call_id_eq [OF c] by (auto simp: skv_inv_def)
  show ?thesis
  proof (cases "sends s j")
    case None
    then show ?thesis using inv i c unfolding skv_inv_def id ans by (auto simp: reader_match_def)
  next
    case (Some t1)
    then have t1: "call_id s t1 = Some j" using inv by (simp add: skv_inv_def)
    then have "calls s t1 \<noteq> None" by (auto simp: call_id_def)
    with t1 show ?thesis using inv i j c Some unfolding skv_inv_def id ans by (auto simp: reader_match_def)
  qed
qed

lemma skv_return_inv:
  assumes inv: "skv_inv mid s" and c: "calls s t = Some (i, None)" and r: "r = Inr () \<Longrightarrow> answered mid s i \<or> t \<in> strays s"
  shows "skv_inv mid (skv_return t i r s)"
proof -
  have ans: "answered mid (skv_return t i r s) = answered mid s" by (auto simp: answered_def skv_return_def)
  have "calls (skv_return t i r s) = (calls s)(t \<mapsto> (i, Some r))" by (simp add: skv_return_def)
  then show ?thesis using inv c r unfolding skv_inv_def call_id_return [OF c] ans by (auto simp: skv_return_def)
qed

lemma skv_pop_inv: "skv_inv mid s \<Longrightarrow> recvs s \<noteq> [] \<Longrightarrow> skv_inv mid (skv_pop s)"
proof -
  assume inv: "skv_inv mid s" and ne: "recvs s \<noteq> []"
  have "mset (recvs s) = mset (butlast (recvs s) @ [last (recvs s)])" using ne by simp
  then show ?thesis using inv by (simp add: skv_inv_def answered_def call_id_def skv_pop_def del: append_butlast_last_id)
qed

lemma skv_counters: "skv_inv mid (s\<lparr>checked := a\<rparr>) = skv_inv mid s" "skv_inv mid (s\<lparr>waiting := a\<rparr>) = skv_inv mid s"
  "skv_inv mid (s\<lparr>woken := a\<rparr>) = skv_inv mid s"
  by (simp_all add: skv_inv_def answered_def call_id_def)

lemma skv_step_inv: "skv_step mid s s1 \<Longrightarrow> skv_inv mid s \<Longrightarrow> skv_inv mid s1"
proof (induction rule: skv_step.induct)
  case (Return_sent s t i)
  then have "answered mid s i" using call_id_eq by (fastforce simp: skv_inv_def)
  with Return_sent show ?case by (intro skv_return_inv) auto
next
  case (Return_read s t i r)
  then have "r = Inr () \<Longrightarrow> answered mid s i \<or> t \<in> strays s" using call_id_eq by (fastforce simp: skv_inv_def)
  with Return_read show ?case by (intro skv_return_inv) auto
next
  case (Recv_woken s)
  then show ?case by (simp add: skv_counters skv_pop_inv)
next
  case (Resend_failed s t i e)
  then show ?case by (intro skv_return_inv) auto
next
  case (Match s t j i r)
  then show ?case by (intro reader_match_inv)
qed (simp_all add: skv_send_inv reader_push_inv reader_error_inv skv_pop_inv skv_counters)

lemma skv_reachable_inv: "skv_reachable mid s \<Longrightarrow> skv_inv mid s"
proof (induction rule: skv_reachable.induct)
  case Start
  show ?case by (simp add: skv_inv_def skv_new_def call_id_def)
qed (rule skv_step_inv)

text \<open>
  A response that nobody waits for ends the reader of a call, and with it the call, which returns success although
  its own request was not answered.
\<close>

definition ex_stray :: "(nat, u64) skv" where
  "ex_stray = skv_return 0 1 (Inr ()) (reader_match 0 1 7 (reader_push id 0 7 (skv_send 0 1 (Inr ()) skv_new)))"

lemma stray_response_ends_send: "skv_reachable id ex_stray \<and> calls ex_stray 0 = Some (1, Some (Inr ())) \<and> \<not> answered id ex_stray 1"
proof -
  let ?s1 = "skv_send 0 1 (Inr ()) skv_new :: (nat, u64) skv"
  let ?s2 = "reader_push id 0 7 ?s1"
  let ?s3 = "reader_match 0 1 7 ?s2"
  note defs = skv_send_def skv_new_def reader_push_def reader_match_def skv_return_def Let_def
  have "skv_step id skv_new ?s1" by (rule skv_step.Send) (simp add: skv_new_def)
  moreover have "skv_step id ?s1 ?s2" by (rule skv_step.Push) (simp add: defs)
  moreover have "skv_step id ?s2 ?s3" by (rule skv_step.Match [where r = None]) (simp_all add: defs)
  moreover have "skv_step id ?s3 (skv_return 0 1 (Inr ()) ?s3)" by (rule skv_step.Return_read) (simp_all add: defs)
  ultimately have "skv_reachable id ex_stray" unfolding ex_stray_def by (meson skv_reachable.intros)
  then show ?thesis by (simp add: ex_stray_def defs answered_def)
qed

text \<open>
  A response that comes between the check of \<open>recv\<close> and its wait wakes nobody: \<open>recv\<close> waits although there is a
  message, until another response comes.
\<close>

definition ex_lost :: "(nat, u64) skv" where
  "ex_lost = (let s1 = skv_send 0 1 (Inr ()) skv_new; s2 = s1\<lparr>checked := 1\<rparr>; s3 = reader_push id 0 1 s2
     in s3\<lparr>checked := 0, waiting := 1\<rparr>)"

lemma lost_wakeup: "skv_reachable id ex_lost \<and> waiting ex_lost = 1 \<and> woken ex_lost = 0 \<and> recvs ex_lost = [1]"
proof -
  let ?s1 = "skv_send 0 1 (Inr ()) skv_new :: (nat, u64) skv"
  let ?s2 = "?s1\<lparr>checked := checked ?s1 + 1\<rparr>"
  let ?s3 = "reader_push id 0 1 ?s2"
  note defs = skv_send_def skv_new_def reader_push_def Let_def
  have "skv_step id skv_new ?s1" by (rule skv_step.Send) (simp add: skv_new_def)
  moreover have "skv_step id ?s1 ?s2" by (rule skv_step.Recv_check) (simp add: defs)
  moreover have "skv_step id ?s2 ?s3" by (rule skv_step.Push) (simp add: defs)
  moreover have "skv_step id ?s3 (?s3\<lparr>checked := checked ?s3 - 1, waiting := waiting ?s3 + 1\<rparr>)" by (rule skv_step.Recv_wait) (simp add: defs)
  moreover have "?s3\<lparr>checked := checked ?s3 - 1, waiting := waiting ?s3 + 1\<rparr> = ex_lost" by (simp add: ex_lost_def defs)
  ultimately have "skv_reachable id ex_lost" by (metis skv_reachable.intros)
  then show ?thesis by (simp add: ex_lost_def defs)
qed

text \<open>Responses that wait are taken in the opposite order, while the chunnel offers the capability of ordering.\<close>

lemma recv_is_last_in_first_out: "recvs s = [a, b] \<Longrightarrow> taken (skv_pop (skv_pop s)) = taken s @ [b, a]"
  by (simp add: skv_pop_def)

section \<open>Properties\<close>

text \<open>
  whatever the threads of a client do, each response from the network waits for \<open>recv\<close> or has been returned by it
  once; and a \<open>send\<close> that returns success was answered, unless its reader was ended by a response that nobody
  waited for.
\<close>

lemma blocking_send_answered:
  assumes "skv_reachable mid s"
  shows "mset (received s) = mset (recvs s) + mset (taken s)
    \<and> (\<forall>t i. calls s t = Some (i, Some (Inr ())) \<longrightarrow> t \<notin> strays s \<longrightarrow> i \<in> mid ` set (received s))"
  using skv_reachable_inv [OF assms] unfolding skv_inv_def answered_def by blast

definition ex_sent :: "(nat, u64) skv" where
  "ex_sent = skv_return 0 1 (Inr ()) (reader_match 0 1 1 (reader_push id 0 1 (skv_send 0 1 (Inr ()) skv_new)))"

lemma ex_sent_reachable: "skv_reachable id ex_sent"
proof -
  let ?s1 = "skv_send 0 1 (Inr ()) skv_new :: (nat, u64) skv"
  let ?s2 = "reader_push id 0 1 ?s1"
  let ?s3 = "reader_match 0 1 1 ?s2"
  note defs = skv_send_def skv_new_def reader_push_def reader_match_def skv_return_def Let_def
  have "skv_step id skv_new ?s1" by (rule skv_step.Send) (simp add: skv_new_def)
  moreover have "skv_step id ?s1 ?s2" by (rule skv_step.Push) (simp add: defs)
  moreover have "skv_step id ?s2 ?s3" by (rule skv_step.Match [where r = None]) (simp_all add: defs)
  moreover have "skv_step id ?s3 (skv_return 0 1 (Inr ()) ?s3)" by (rule skv_step.Return_sent) (simp_all add: defs)
  ultimately show ?thesis unfolding ex_sent_def by (meson skv_reachable.intros)
qed

lemma blocking_send_answered_example:
  "skv_reachable id ex_sent \<and> calls ex_sent 0 = Some (1, Some (Inr ())) \<and> 0 \<notin> strays ex_sent \<and> 1 \<in> id ` set (received ex_sent)"
proof -
  have "calls ex_sent 0 = Some (1, Some (Inr ()))" "0 \<notin> strays ex_sent"
    by (simp_all add: ex_sent_def skv_send_def skv_new_def reader_push_def reader_match_def skv_return_def Let_def)
  then show ?thesis using blocking_send_answered [OF ex_sent_reachable] ex_sent_reachable by blast
qed

end
