(* ===== verification/Shenango_Client.thy ===== *)
theory Shenango_Client
  imports Kvstore
begin

text \<open>
  The key-value client without chunnels and sharding on the Shenango runtime (\<open>shenango-bertha/src/lib.rs\<close>). Each
  request of \<open>RawKvClient\<close> sends to the shard of its key, sends again after a timeout, and has a thread that reads
  responses of that shard for all requests; a table shared by the threads has what is in flight.
\<close>

section \<open>Sharding\<close>

text \<open>
  The client has the canonical address in front of those of the shards when it has learned them from the server;
  a list that is given to it is taken as it is.
\<close>

definition ext_info_addrs :: "('a shard_info) result \<Rightarrow> 'a list option \<Rightarrow> 'a list option" where
  "ext_info_addrs info shard_info = (case info of Inl _ \<Rightarrow> shard_info | Inr si \<Rightarrow> Some (canonical_addr si # shard_addrs si))"

definition new_static :: "'a list \<Rightarrow> 'a list option" where
  "new_static shards = Some shards"

definition shard_connect :: "'a list option \<Rightarrow> 'a list result" where
  "shard_connect shard_info =
     (case shard_info of
        None \<Rightarrow> eyre ''Shard info was not set''
      | Some addrs \<Rightarrow> if addrs = [] then Inl (Panic ''attempt to subtract with overflow'') else Inr addrs)"

definition shard_send :: "'a list option \<Rightarrow> ('d \<Rightarrow> bytes) \<Rightarrow> 'a \<times> 'd \<Rightarrow> ('a \<times> 'd) result" where
  "shard_send shard_info key m = res_bind (shard_connect shard_info) (\<lambda>addrs. shard_one key addrs m)"

text \<open>\<open>shardfn\<close> of the client without chunnels.\<close>

definition raw_shardfn :: "msg \<Rightarrow> nat \<Rightarrow> nat result" where
  "raw_shardfn m num_shards = (if num_shards = 0 then Inr 0 else server_shard num_shards (msg_key m))"

text \<open>
  \<open>picked_blocking\<close> of the canonical server sends the nonce to every shard, each on a thread, and waits until all
  are done; what a thread meets is \<open>shard_outcome\<close>. \<open>None\<close> is waiting forever.
\<close>

datatype shard_outcome = DialFailed | SendFailed | RecvFailed | Acked | OtherReply

definition thread_done :: "shard_outcome \<Rightarrow> bool" where
  "thread_done r = (case r of DialFailed \<Rightarrow> False | _ \<Rightarrow> True)"

definition picked_blocking :: "bool \<Rightarrow> shard_outcome list \<Rightarrow> unit option" where
  "picked_blocking nonce_ok outcomes =
     (if \<not> nonce_ok then Some ()
      else if length outcomes - length (filter thread_done outcomes) = 0 then Some () else None)"

section \<open>Requests\<close>

datatype 't recv_state = Inflight 't | Recvd msg

fun take_put :: "msg \<Rightarrow> 't recv_state \<Rightarrow> 't recv_state \<times> 't option" where
  "take_put m (Inflight wg) = (Recvd m, Some wg)"
| "take_put m (Recvd m0) = (Recvd m0, None)"

fun recv_done :: "'t recv_state \<Rightarrow> msg result" where
  "recv_done (Recvd m) = Inr m"
| "recv_done (Inflight _) = Inl (Panic ''called done on still-inflight msg'')"

text \<open>
  The part of \<open>do_req\<close> before the request is in the table: the shard and the size of the request, which has to fit
  into 2048 bytes.
\<close>

definition raw_prepare :: "(msg \<Rightarrow> nat result) \<Rightarrow> nat \<Rightarrow> msg \<Rightarrow> nat result" where
  "raw_prepare serialized_size num_shards req =
     res_bind (raw_shardfn req num_shards) (\<lambda>shard.
       if num_shards \<le> shard then Inl (Panic ''index out of bounds'')
       else res_bind (serialized_size req) (\<lambda>sz.
         if 2048 < sz then Inl (Panic ''range end index out of range'') else Inr shard))"

text \<open>
  A request has its id and, once it has returned, its result; its reader has an error once it has ended. The
  readers' flag \<open>done\<close> is never set, so that a reader ends only by an error. \<open>replies\<close> is a record of what came from
  the network.
\<close>

record 't raw_client =
  inflight :: "u64 \<rightharpoonup> 't recv_state"
  notified :: "'t set"
  reqs :: "'t \<rightharpoonup> u64 \<times> bytes option result option"
  raw_readers :: "'t \<rightharpoonup> failure option"
  replies :: "msg list"

definition raw_new :: "'t raw_client" where
  "raw_new = \<lparr>inflight = Map.empty, notified = {}, reqs = Map.empty, raw_readers = Map.empty, replies = []\<rparr>"

definition raw_start :: "'t \<Rightarrow> u64 \<Rightarrow> 't raw_client \<Rightarrow> 't raw_client" where
  "raw_start t i s = s\<lparr>inflight := (inflight s)(i \<mapsto> Inflight t), reqs := (reqs s)(t \<mapsto> (i, None)), raw_readers := (raw_readers s)(t \<mapsto> None)\<rparr>"

definition raw_read :: "'t \<Rightarrow> msg \<Rightarrow> 't raw_client \<Rightarrow> 't raw_client" where
  "raw_read t m s0 =
     (let s = s0\<lparr>replies := replies s0 @ [m]\<rparr> in
      case inflight s (msg_id m) of
        None \<Rightarrow> s\<lparr>raw_readers := (raw_readers s)(t \<mapsto> Some (Err [''unknown message'']))\<rparr>
      | Some st \<Rightarrow>
          (case take_put m st of
             (st1, Some wg) \<Rightarrow> s\<lparr>inflight := (inflight s)(msg_id m \<mapsto> st1), notified := insert wg (notified s)\<rparr>
           | (st1, None) \<Rightarrow> s\<lparr>inflight := (inflight s)(msg_id m \<mapsto> st1)\<rparr>))"

definition raw_return :: "'t \<Rightarrow> u64 \<Rightarrow> bytes option result \<Rightarrow> 't raw_client \<Rightarrow> 't raw_client" where
  "raw_return t i r s = s\<lparr>reqs := (reqs s)(t \<mapsto> (i, Some r))\<rparr>"

definition raw_finish :: "'t \<Rightarrow> u64 \<Rightarrow> 't raw_client \<Rightarrow> 't raw_client" where
  "raw_finish t i s =
     (case inflight s i of
        None \<Rightarrow> raw_return t i (Inl (Panic ''called Option::unwrap on a None value'')) s
      | Some st \<Rightarrow>
          raw_return t i
            (res_bind (recv_done st) (\<lambda>m. if msg_id m \<noteq> i then eyre ''Msg id mismatch, check for reordering'' else Inr (snd (into_kv m))))
            (s\<lparr>inflight := (inflight s)(i := None)\<rparr>))"

text \<open>Ids are drawn at random from 64 bits: a request takes one that was not used.\<close>

inductive raw_step :: "'t raw_client \<Rightarrow> 't raw_client \<Rightarrow> bool" where
  Start: "reqs s t = None \<Longrightarrow> i \<notin> fst ` ran (reqs s) \<Longrightarrow> raw_step s (raw_start t i s)"
| Read: "raw_readers s t = Some None \<Longrightarrow> raw_step s (raw_read t m s)"
| Read_failed: "raw_readers s t = Some None \<Longrightarrow> \<not> is_panic e \<Longrightarrow> raw_step s (s\<lparr>raw_readers := (raw_readers s)(t \<mapsto> Some e)\<rparr>)"
| Send_failed: "reqs s t = Some (i, None) \<Longrightarrow> \<not> is_panic e \<Longrightarrow> raw_step s (raw_return t i (Inl e) s)"
| Return_read: "reqs s t = Some (i, None) \<Longrightarrow> raw_readers s t = Some (Some e) \<Longrightarrow> raw_step s (raw_return t i (Inl e) s)"
| Return_sent: "reqs s t = Some (i, None) \<Longrightarrow> t \<in> notified s \<Longrightarrow> raw_step s (raw_finish t i s)"

inductive raw_reachable :: "'t raw_client \<Rightarrow> bool" where
  Start: "raw_reachable raw_new"
| Step: "raw_reachable s \<Longrightarrow> raw_step s s1 \<Longrightarrow> raw_reachable s1"

definition req_id :: "'t raw_client \<Rightarrow> 't \<Rightarrow> u64 option" where
  "req_id s t = map_option fst (reqs s t)"

definition raw_good :: "msg list \<Rightarrow> u64 \<Rightarrow> bytes option result \<Rightarrow> bool" where
  "raw_good ms i r \<longleftrightarrow> \<not> panics r \<and> (\<forall>v. r = Inr v \<longrightarrow> (\<exists>m \<in> set ms. msg_id m = i \<and> msg_val m = v))"

definition raw_inv :: "'t raw_client \<Rightarrow> bool" where
  "raw_inv s \<longleftrightarrow>
     (\<forall>j t. inflight s j = Some (Inflight t) \<longrightarrow> req_id s t = Some j)
     \<and> (\<forall>j m. inflight s j = Some (Recvd m) \<longrightarrow> msg_id m = j \<and> m \<in> set (replies s))
     \<and> (\<forall>t i. reqs s t = Some (i, None) \<longrightarrow> t \<in> notified s \<longrightarrow> (\<exists>m. inflight s i = Some (Recvd m)))
     \<and> (\<forall>t e. raw_readers s t = Some (Some e) \<longrightarrow> \<not> is_panic e)
     \<and> (\<forall>t i r. reqs s t = Some (i, Some r) \<longrightarrow> raw_good (replies s) i r)
     \<and> (\<forall>t u i. req_id s t = Some i \<longrightarrow> req_id s u = Some i \<longrightarrow> t = u)
     \<and> (\<forall>t \<in> notified s. reqs s t \<noteq> None)"

section \<open>The invariant of the client\<close>

lemma raw_good_mono: "raw_good ms i r \<Longrightarrow> raw_good (ms @ ms1) i r"
  by (auto simp: raw_good_def)

lemma req_id_return: "reqs s t = Some (i, x) \<Longrightarrow> req_id (raw_return t i r s) = req_id s"
  by (simp add: req_id_def raw_return_def fun_eq_iff)

lemma raw_return_inv:
  assumes inv: "raw_inv s" and t: "reqs s t = Some (i, None)" and r: "raw_good (replies s) i r"
  shows "raw_inv (raw_return t i r s)"
  using inv t r unfolding raw_inv_def req_id_return [OF t] by (auto simp: raw_return_def)

lemma raw_start_inv:
  assumes inv: "raw_inv s" and t: "reqs s t = None" and i: "i \<notin> fst ` ran (reqs s)"
  shows "raw_inv (raw_start t i s)"
proof -
  have id: "req_id (raw_start t i s) u = (if u = t then Some i else req_id s u)" for u by (simp add: req_id_def raw_start_def)
  have fresh: "req_id s u \<noteq> Some i" "reqs s u \<noteq> Some (i, x)" for u x
    using i by (force simp: req_id_def ran_def)+
  have "t \<notin> notified s" "req_id s t = None" using inv t by (auto simp: raw_inv_def req_id_def)
  then show ?thesis using inv t fresh unfolding raw_inv_def id by (auto simp: raw_start_def)
qed

lemma raw_read_inv:
  assumes inv: "raw_inv s" and r: "raw_readers s t = Some None"
  shows "raw_inv (raw_read t m s)"
proof -
  have id: "req_id (raw_read t m s) = req_id s" by (auto simp: req_id_def raw_read_def Let_def fun_eq_iff split: option.splits prod.splits)
  have rep: "replies (raw_read t m s) = replies s @ [m]" by (auto simp: raw_read_def Let_def split: option.splits prod.splits)
  have good: "raw_good (replies s) i x \<Longrightarrow> raw_good (replies s @ [m]) i x" for i x by (rule raw_good_mono)
  consider (none) "inflight s (msg_id m) = None" | (wait) u where "inflight s (msg_id m) = Some (Inflight u)"
    | (dup) m0 where "inflight s (msg_id m) = Some (Recvd m0)" by (metis not_None_eq recv_state.exhaust)
  then show ?thesis
  proof cases
    case none
    then show ?thesis using inv good unfolding raw_inv_def id rep by (auto simp: raw_read_def)
  next
    case (wait u)
    then have "req_id s u = Some (msg_id m)" using inv by (simp add: raw_inv_def)
    then obtain x where u: "reqs s u = Some (msg_id m, x)" by (auto simp: req_id_def)
    show ?thesis using inv good u wait unfolding raw_inv_def id rep by (auto simp: raw_read_def)
  next
    case dup
    then show ?thesis using inv good unfolding raw_inv_def id rep by (auto simp: raw_read_def)
  qed
qed

lemma raw_finish_inv:
  assumes inv: "raw_inv s" and t: "reqs s t = Some (i, None)" and n: "t \<in> notified s"
  shows "raw_inv (raw_finish t i s)"
proof -
  obtain m where m: "inflight s i = Some (Recvd m)" using inv t n unfolding raw_inv_def by blast
  then have mi: "msg_id m = i" "m \<in> set (replies s)" using inv by (auto simp: raw_inv_def)
  let ?s = "s\<lparr>inflight := (inflight s)(i := None)\<rparr>"
  have f: "raw_finish t i s = raw_return t i (Inr (msg_val m)) ?s" by (simp add: raw_finish_def m mi into_kv_def)
  have t1: "reqs ?s t = Some (i, None)" using t by simp
  have id: "req_id ?s = req_id s" by (simp add: req_id_def fun_eq_iff)
  have other: "u = t" if "reqs s u = Some (i, x)" for u x
    using inv t that by (auto simp: raw_inv_def req_id_def)
  have good: "raw_good (replies ?s) i (Inr (msg_val m))" using mi by (auto simp: raw_good_def)
  have kept: "\<exists>m. inflight ?s j = Some (Recvd m)" if "reqs s u = Some (j, None)" "u \<in> notified s" "u \<noteq> t" for u j
  proof -
    have "j \<noteq> i" using that other by blast
    then show ?thesis using inv that(1,2) unfolding raw_inv_def by auto
  qed
  have r: "reqs (raw_finish t i s) = (reqs s)(t \<mapsto> (i, Some (Inr (msg_val m))))" "inflight (raw_finish t i s) = inflight ?s"
    "replies (raw_finish t i s) = replies s" "notified (raw_finish t i s) = notified s" "raw_readers (raw_finish t i s) = raw_readers s"
    by (simp_all add: f raw_return_def)
  have "req_id (raw_finish t i s) = req_id s" unfolding f req_id_return [OF t1] id ..
  moreover have "\<forall>u j. (reqs (raw_finish t i s)) u = Some (j, None) \<longrightarrow> u \<in> notified s \<longrightarrow> (\<exists>m. inflight ?s j = Some (Recvd m))"
    using kept by (auto simp: r split: if_splits)
  moreover have "\<forall>u j x. (reqs (raw_finish t i s)) u = Some (j, Some x) \<longrightarrow> raw_good (replies s) j x"
    using inv good unfolding raw_inv_def by (auto simp: r split: if_splits)
  ultimately show ?thesis using inv unfolding raw_inv_def by (simp add: r)
qed

lemma raw_step_inv: "raw_step s s1 \<Longrightarrow> raw_inv s \<Longrightarrow> raw_inv s1"
proof (induction rule: raw_step.induct)
  case (Start s t i)
  then show ?case by (intro raw_start_inv)
next
  case (Read s t m)
  then show ?case by (intro raw_read_inv)
next
  case (Read_failed s t e)
  then show ?case by (auto simp: raw_inv_def req_id_def)
next
  case (Send_failed s t i e)
  then show ?case by (intro raw_return_inv) (auto simp: raw_good_def)
next
  case (Return_read s t i e)
  then show ?case by (intro raw_return_inv) (auto simp: raw_good_def raw_inv_def)
next
  case (Return_sent s t i)
  then show ?case by (intro raw_finish_inv)
qed

lemma raw_reachable_inv: "raw_reachable s \<Longrightarrow> raw_inv s"
proof (induction rule: raw_reachable.induct)
  case Start
  show ?case by (simp add: raw_inv_def raw_new_def req_id_def)
qed (rule raw_step_inv)

text \<open>
  After a timeout a request is sent twice and may be answered twice. When the first answer has been returned, the
  second is unknown: the reader that gets it ends, and a request that was not answered yet fails with it.
\<close>

definition ex_reply :: "u64 \<Rightarrow> msg" where
  "ex_reply i = \<lparr>msg_id = i, msg_op = Get, msg_key = [1, 2, 3, 4], msg_val = Some [5]\<rparr>"

definition ex_both :: "nat raw_client" where
  "ex_both = raw_start 1 2 (raw_start 0 1 raw_new)"

definition ex_answered :: "nat raw_client" where
  "ex_answered = raw_finish 0 1 (raw_read 0 (ex_reply 1) ex_both)"

definition ex_failed :: "nat raw_client" where
  "ex_failed = raw_return 1 2 (eyre ''unknown message'') (raw_read 1 (ex_reply 1) ex_answered)"

lemmas ex_raw_defs = ex_both_def ex_answered_def ex_failed_def raw_start_def raw_new_def raw_read_def raw_finish_def raw_return_def
  ex_reply_def into_kv_def

lemma ex_answered_reachable: "raw_reachable ex_answered"
proof -
  let ?s1 = "raw_start 0 1 raw_new :: nat raw_client"
  have "raw_step raw_new ?s1" by (rule raw_step.Start) (simp_all add: raw_new_def)
  moreover have "raw_step ?s1 ex_both" unfolding ex_both_def
    by (rule raw_step.Start) (simp_all add: raw_start_def raw_new_def)
  moreover have "raw_step ex_both (raw_read 0 (ex_reply 1) ex_both)" by (rule raw_step.Read) (simp add: ex_raw_defs)
  moreover have "raw_step (raw_read 0 (ex_reply 1) ex_both) ex_answered" unfolding ex_answered_def
    by (rule raw_step.Return_sent) (simp_all add: ex_raw_defs)
  ultimately show ?thesis by (metis raw_reachable.intros)
qed

lemma duplicate_fails_request:
  "raw_reachable ex_failed \<and> reqs ex_failed 1 = Some (2, Some (eyre ''unknown message'')) \<and> map msg_id (replies ex_failed) = [1, 1]"
proof -
  have "raw_step ex_answered (raw_read 1 (ex_reply 1) ex_answered)" by (rule raw_step.Read) (simp add: ex_raw_defs)
  moreover have "raw_step (raw_read 1 (ex_reply 1) ex_answered) ex_failed" unfolding ex_failed_def
    by (rule raw_step.Return_read) (simp_all add: ex_raw_defs)
  ultimately have "raw_reachable ex_failed" using ex_answered_reachable by (metis raw_reachable.intros)
  then show ?thesis by (simp add: ex_raw_defs)
qed

text \<open>
  A request whose key has less than four bytes, or that does not fit the buffer, or without shards, panics before it
  is sent; otherwise its shard is that of the servers.
\<close>

lemma raw_prepare_shard:
  assumes "0 < n" "4 \<le> length (msg_key req)" "serialized_size req = Inr sz" "sz \<le> 2048"
  shows "raw_prepare serialized_size n req = server_shard n (msg_key req)"
proof -
  obtain i where "server_shard n (msg_key req) = Inr i" "i < n"
    using assms(1,2) server_shard_ok [of n "msg_key req"] server_shard_bound by fastforce
  then show ?thesis using assms by (simp add: raw_prepare_def raw_shardfn_def)
qed

lemma raw_prepare_panics:
  "length (msg_key req) < 4 \<Longrightarrow> 0 < n \<Longrightarrow> panics (raw_prepare sz n req)"
  "panics (raw_prepare sz 0 req)"
  by (auto simp: raw_prepare_def raw_shardfn_def server_shard_def slice_def)

text \<open>Addresses learned from the server lead to the server's shard.\<close>

lemma learned_addrs_agree:
  assumes "shard_addrs si \<noteq> []" "4 \<le> length (key d)"
  shows "\<exists>i. server_shard (length (shard_addrs si)) (key d) = Inr i \<and> i < length (shard_addrs si)
    \<and> shard_send (ext_info_addrs (Inr si) info) key (a, d) = Inr (shard_addrs si ! i, d)"
proof -
  let ?n = "length (shard_addrs si)"
  obtain i where i: "server_shard ?n (key d) = Inr i" "i < ?n"
    using assms server_shard_ok [of ?n "key d"] server_shard_bound by fastforce
  then have "client_shard ?n (key d) = Inr (i + 1)"
    using assms by (auto simp: client_shard_def server_shard_def res_bind_Inr_iff)
  then show ?thesis using i by (simp add: shard_send_def ext_info_addrs_def shard_connect_def shard_one_def index_addr_def)
qed

text \<open>A list of shards that is given to the client has no canonical address in front, so its first shard gets no request.\<close>

lemma static_skips_first_shard:
  assumes "2 \<le> length shards" "shard_send (new_static shards) key (a, d) = Inr (b, d)"
  shows "\<exists>i. 0 < i \<and> i < length shards \<and> b = shards ! i"
  using assms by (auto simp: shard_send_def new_static_def shard_connect_def shard_one_def client_shard_def index_addr_def res_bind_Inr_iff split: if_splits)

text \<open>A shard that cannot be dialled keeps the server waiting, with the connection it negotiates.\<close>

lemma undialable_shard_blocks: "picked_blocking True outcomes = None \<longleftrightarrow> DialFailed \<in> set outcomes"
proof -
  have "length outcomes - length (filter thread_done outcomes) = length (filter (\<lambda>r. \<not> thread_done r) outcomes)"
    using sum_length_filter_compl [of thread_done outcomes] by arith
  moreover have "thread_done r \<longleftrightarrow> r \<noteq> DialFailed" for r by (cases r) (auto simp: thread_done_def)
  ultimately show ?thesis by (auto simp: picked_blocking_def filter_empty_conv)
qed

section \<open>Properties\<close>



end
