(* ===== verification/Shenango_Serve.thy ===== *)
theory Shenango_Serve
  imports Kvstore
begin

text \<open>
  The key-value servers of the Shenango library and the matching of responses in its client (modules \<open>kvstore\<close> and
  \<open>no_chunnels\<close> of \<open>shenango-bertha/src/lib.rs\<close>). A shard serves each connection on a thread; the threads share a
  store, whose calls are atomic. A client's request sends, then waits until one of the threads that read responses has
  put its response into the shared table.
\<close>

section \<open>Serialization\<close>

definition serialize_send :: "('d \<Rightarrow> bytes result) \<Rightarrow> ('a \<times> bytes \<Rightarrow> unit result) \<Rightarrow> 'a \<times> 'd \<Rightarrow> unit result" where
  "serialize_send ser inner m = res_bind (wrap_err ''serialize failed'' (ser (snd m))) (\<lambda>buf. inner (fst m, buf))"

definition serialize_recv :: "(bytes \<Rightarrow> 'd result) \<Rightarrow> ('a \<times> bytes) result \<Rightarrow> ('a \<times> 'd) result" where
  "serialize_recv de r = res_bind r (\<lambda>m. res_bind (wrap_err ''deserialize failed'' (de (snd m))) (\<lambda>d. Inr (fst m, d)))"

section \<open>One request\<close>

text \<open>
  One iteration of \<open>perconn\<close>: why the loop ends, the call of the store that was made, what was sent, and the store.
\<close>

type_synonym 'a served = "failure option \<times> msg option \<times> ('a \<times> msg) option \<times> kv_map"

definition perconn_turn :: "('a \<times> msg) result \<Rightarrow> ('a \<times> msg \<Rightarrow> unit result) \<Rightarrow> kv_map \<Rightarrow> 'a served" where
  "perconn_turn recv_r cn_send s =
     (case recv_r of
        Inl e \<Rightarrow> (Some e, None, None, s)
      | Inr (a, m) \<Rightarrow>
          (case store_call m s of
             (rsp, s1) \<Rightarrow>
               (case cn_send (a, rsp) of
                  Inl e \<Rightarrow> (Some e, Some m, None, s1)
                | Inr _ \<Rightarrow> (None, Some m, Some (a, rsp), s1))))"

text \<open>
  \<open>perconn\<close> without chunnels. The response is serialized into the buffer of 2048 bytes; when it does not fit,
  \<open>serialize_into\<close> returns an error. \<open>single_shard_no_conns\<close> has the same body, with the sender's address.
\<close>

definition raw_perconn_turn ::
  "(bytes \<Rightarrow> msg result) \<Rightarrow> (msg \<Rightarrow> nat result) \<Rightarrow> ('a \<times> bytes) result \<Rightarrow> ('a \<times> msg \<Rightarrow> unit result) \<Rightarrow> kv_map \<Rightarrow> 'a served" where
  "raw_perconn_turn de serialized_size recv_r sk_send s =
     (case recv_r of
        Inl e \<Rightarrow> (Some e, None, None, s)
      | Inr (a, buf) \<Rightarrow>
          (case de buf of
             Inl e \<Rightarrow> (Some e, None, None, s)
           | Inr m \<Rightarrow>
               (case store_call m s of
                  (rsp, s1) \<Rightarrow>
                    (case serialized_size rsp of
                       Inl e \<Rightarrow> (Some e, Some m, None, s1)
                     | Inr sz \<Rightarrow>
                         if 2048 < sz then (Some (Err [''failed to write whole buffer'']), Some m, None, s1)
                         else (case sk_send (a, rsp) of
                                 Inl e \<Rightarrow> (Some e, Some m, None, s1)
                               | Inr _ \<Rightarrow> (None, Some m, Some (a, rsp), s1))))))"

definition raw_send :: "(msg \<Rightarrow> nat result) \<Rightarrow> ('a \<times> msg \<Rightarrow> unit result) \<Rightarrow> 'a \<times> msg \<Rightarrow> unit result" where
  "raw_send serialized_size sk_send m =
     res_bind (serialized_size (snd m)) (\<lambda>sz. if 2048 < sz then Inl (Err [''failed to write whole buffer'']) else sk_send m)"

lemma raw_perconn_eq:
  "raw_perconn_turn de sz recv_r sk_send s =
     perconn_turn (res_bind recv_r (\<lambda>m. res_bind (de (snd m)) (\<lambda>d. Inr (fst m, d)))) (raw_send sz sk_send) s"
  by (auto simp: raw_perconn_turn_def perconn_turn_def raw_send_def split: sum.splits prod.splits)

section \<open>A shard\<close>

text \<open>
  The connections of a shard, each with the error that ended it, and records of the calls and the sent responses, by
  connection, in their order.
\<close>

record kv_shard =
  shard_store :: kv_map
  shard_conns :: "failure option list"
  shard_calls :: "(nat \<times> msg) list"
  shard_sent :: "(nat \<times> msg) list"

definition shard_new :: kv_shard where
  "shard_new = \<lparr>shard_store = Map.empty, shard_conns = [], shard_calls = [], shard_sent = []\<rparr>"

definition shard_turn :: "nat \<Rightarrow> 'a served \<Rightarrow> kv_shard \<Rightarrow> kv_shard" where
  "shard_turn i r s =
     (case r of (e, c, out, st) \<Rightarrow>
        s\<lparr>shard_store := st, shard_conns := (shard_conns s)[i := e],
          shard_calls := shard_calls s @ (case c of None \<Rightarrow> [] | Some m \<Rightarrow> [(i, m)]),
          shard_sent := shard_sent s @ (case out of None \<Rightarrow> [] | Some m \<Rightarrow> [(i, snd m)])\<rparr>)"

inductive shard_step :: "kv_shard \<Rightarrow> kv_shard \<Rightarrow> bool" where
  Accept: "shard_step s (s\<lparr>shard_conns := shard_conns s @ [None]\<rparr>)"
| Request: "i < length (shard_conns s) \<Longrightarrow> shard_conns s ! i = None \<Longrightarrow>
    shard_step s (shard_turn i (perconn_turn (recv_r :: (socket_addr \<times> msg) result) cn_send (shard_store s)) s)"

inductive shard_reachable :: "kv_shard \<Rightarrow> bool" where
  Start: "shard_reachable shard_new"
| Step: "shard_reachable s \<Longrightarrow> shard_step s s1 \<Longrightarrow> shard_reachable s1"

definition of_conn :: "nat \<Rightarrow> (nat \<times> msg) list \<Rightarrow> msg list" where
  "of_conn i ms = map snd (filter (\<lambda>m. fst m = i) ms)"

definition shard_answers :: "kv_shard \<Rightarrow> (nat \<times> msg) list" where
  "shard_answers s = fst (call_batch (shard_calls s) Map.empty)"

definition shard_inv :: "kv_shard \<Rightarrow> bool" where
  "shard_inv s \<longleftrightarrow>
     shard_store s = snd (call_batch (shard_calls s) Map.empty)
     \<and> (\<forall>i. \<not> i < length (shard_conns s) \<longrightarrow> of_conn i (shard_answers s) = [] \<and> of_conn i (shard_sent s) = [])
     \<and> (\<forall>i < length (shard_conns s). of_conn i (shard_sent s) = of_conn i (shard_answers s)
          \<or> shard_conns s ! i \<noteq> None \<and> of_conn i (shard_sent s) = butlast (of_conn i (shard_answers s)))"

lemma of_conn_simps [simp]: "of_conn i [] = []" "of_conn i (ms @ ns) = of_conn i ms @ of_conn i ns"
  "of_conn i [(j, m)] = (if j = i then [m] else [])"
  by (simp_all add: of_conn_def)

lemma answers_snoc:
  "fst (call_batch (ms @ [(i, m)]) s) = fst (call_batch ms s) @ [(i, fst (store_call m (snd (call_batch ms s))))]"
  "snd (call_batch (ms @ [(i, m)]) s) = snd (store_call m (snd (call_batch ms s)))"
  by (simp_all add: call_batch_append split: prod.splits)

lemma shard_turn_inv:
  assumes inv: "shard_inv s" and i: "i < length (shard_conns s)" "shard_conns s ! i = None"
  shows "shard_inv (shard_turn i (perconn_turn recv_r cn_send (shard_store s)) s)"
proof -
  have st: "shard_store s = snd (call_batch (shard_calls s) Map.empty)" using inv by (simp add: shard_inv_def)
  have eq: "of_conn i (shard_sent s) = of_conn i (shard_answers s)" using inv i by (auto simp: shard_inv_def)
  show ?thesis
  proof (cases recv_r)
    case (Inl e)
    then show ?thesis using inv i eq by (auto simp: shard_inv_def shard_turn_def perconn_turn_def shard_answers_def nth_list_update)
  next
    case (Inr am)
    obtain a m where am: "am = (a, m)" by (cases am)
    obtain rsp s1 where call: "store_call m (shard_store s) = (rsp, s1)" by (cases "store_call m (shard_store s)")
    note snoc = answers_snoc [of "shard_calls s" i m Map.empty, folded st, unfolded call]
    show ?thesis
    proof (cases "cn_send (a, rsp)")
      case (Inl e)
      then show ?thesis using inv i eq Inr am call snoc
        by (auto simp: shard_inv_def shard_turn_def perconn_turn_def shard_answers_def nth_list_update)
    next
      case (Inr u)
      then show ?thesis using inv i eq \<open>recv_r = Inr am\<close> am call snoc
        by (auto simp: shard_inv_def shard_turn_def perconn_turn_def shard_answers_def nth_list_update)
    qed
  qed
qed

lemma shard_reachable_inv: "shard_reachable s \<Longrightarrow> shard_inv s"
proof (induction rule: shard_reachable.induct)
  case Start
  show ?case by (simp add: shard_inv_def shard_new_def shard_answers_def)
next
  case (Step s s1)
  from Step.hyps(2) Step.IH show ?case
  proof (induction rule: shard_step.induct)
    case (Accept s)
    then show ?case by (auto simp: shard_inv_def shard_answers_def nth_append less_Suc_eq)
  qed (rule shard_turn_inv)
qed

text \<open>
  A packet that is not a message ends the server without connections for all its clients; the server with connections
  panics, on the thread of the sender only.
\<close>

lemma malformed_packet_ends_server: "de buf = Inl e \<Longrightarrow> raw_perconn_turn de sz (Inr (a, buf)) sk_send s = (Some e, None, None, s)"
  by (simp add: raw_perconn_turn_def)

text \<open>A value that was stored can be too long to be returned: a get of it ends the server as well.\<close>

lemma long_value_ends_server:
  assumes "de buf = Inr (get_req i k)" "serialized_size (resp (get_req i k) (s k)) = Inr n" "2048 < n"
  shows "\<exists>e. raw_perconn_turn de serialized_size (Inr (a, buf)) sk_send s = (Some e, Some (get_req i k), None, s)"
  using assms by (simp add: raw_perconn_turn_def store_call_eq get_req_def)

section \<open>Matching responses\<close>

text \<open>
  \<open>MsgIdMatcher\<close> and the requests of \<open>KvClient\<close> over it. A request is sending, waiting, or over; its reader runs, has
  handled a message and is about to check \<open>done\<close>, or has ended. The table has for an id the request whose waiter is
  told, and the response; \<open>came\<close> records what the threads received.
\<close>

datatype 'd match_phase = Sending | Waiting | Over "'d result"

datatype match_reader = Running | Checking | Stopped | Crashed

record ('t, 'd) smatcher =
  sm_inflight :: "u64 \<rightharpoonup> 't \<times> 'd option"
  sm_told :: "'t set"
  sm_reqs :: "'t \<rightharpoonup> u64 \<times> 'd match_phase"
  sm_readers :: "'t \<rightharpoonup> match_reader"
  came :: "'d list"

definition sm_new :: "('t, 'd) smatcher" where
  "sm_new = \<lparr>sm_inflight = Map.empty, sm_told = {}, sm_reqs = Map.empty, sm_readers = Map.empty, came = []\<rparr>"

definition sm_send :: "'t \<Rightarrow> u64 \<Rightarrow> ('t, 'd) smatcher \<Rightarrow> ('t, 'd) smatcher" where
  "sm_send t i s =
     s\<lparr>sm_inflight := (sm_inflight s)(i \<mapsto> (t, None)),
       sm_reqs := (sm_reqs s)(t \<mapsto> (i, if sm_inflight s i = None then Sending else Over (Inl (Panic ''double send''))))\<rparr>"

text \<open>The inner send has returned; then \<open>recv_msg\<close> finds its waiter and starts a reader.\<close>

definition sm_sent :: "'t \<Rightarrow> u64 \<Rightarrow> unit result \<Rightarrow> ('t, 'd) smatcher \<Rightarrow> ('t, 'd) smatcher" where
  "sm_sent t i r s =
     (case r of
        Inl e \<Rightarrow> s\<lparr>sm_reqs := (sm_reqs s)(t \<mapsto> (i, Over (Inl e)))\<rparr>
      | Inr _ \<Rightarrow>
          (case sm_inflight s i of
             None \<Rightarrow> s\<lparr>sm_reqs := (sm_reqs s)(t \<mapsto> (i, Over (eyre ''msg id not found'')))\<rparr>
           | Some _ \<Rightarrow> s\<lparr>sm_reqs := (sm_reqs s)(t \<mapsto> (i, Waiting)), sm_readers := (sm_readers s)(t \<mapsto> Running)\<rparr>))"

definition sm_read :: "('d \<Rightarrow> u64) \<Rightarrow> 't \<Rightarrow> u64 \<Rightarrow> 'd \<Rightarrow> ('t, 'd) smatcher \<Rightarrow> ('t, 'd) smatcher" where
  "sm_read idf t i d s0 =
     (let s = s0\<lparr>came := came s0 @ [d]\<rparr>; after = (if idf d = i then Stopped else Checking) in
      case sm_inflight s (idf d) of
        None \<Rightarrow> s\<lparr>sm_readers := (sm_readers s)(t \<mapsto> Checking)\<rparr>
      | Some (u, None) \<Rightarrow>
          s\<lparr>sm_inflight := (sm_inflight s)(idf d \<mapsto> (u, Some d)), sm_told := insert u (sm_told s),
            sm_readers := (sm_readers s)(t \<mapsto> after)\<rparr>
      | Some (u, Some old) \<Rightarrow>
          s\<lparr>sm_readers := (sm_readers s)(t \<mapsto> if idf old = idf d then after else Crashed)\<rparr>)"

definition sm_check :: "'t \<Rightarrow> ('t, 'd) smatcher \<Rightarrow> ('t, 'd) smatcher" where
  "sm_check t s =
     s\<lparr>sm_readers := (sm_readers s)(t \<mapsto> case sm_reqs s t of Some (_, Over _) \<Rightarrow> Stopped | _ \<Rightarrow> Running)\<rparr>"

definition sm_finish :: "'t \<Rightarrow> u64 \<Rightarrow> ('t, 'd) smatcher \<Rightarrow> ('t, 'd) smatcher" where
  "sm_finish t i s =
     s\<lparr>sm_inflight := (sm_inflight s)(i := None),
       sm_reqs := (sm_reqs s)(t \<mapsto> (i, Over (case sm_inflight s i of
          Some (_, Some d) \<Rightarrow> Inr d
        | _ \<Rightarrow> Inl (Panic ''called Option::unwrap on a None value''))))\<rparr>"

text \<open>Ids are drawn at random from 64 bits: a request takes one that was not used.\<close>

inductive sm_step :: "('d \<Rightarrow> u64) \<Rightarrow> ('t, 'd) smatcher \<Rightarrow> ('t, 'd) smatcher \<Rightarrow> bool" for idf where
  Send: "sm_reqs s t = None \<Longrightarrow> i \<notin> fst ` ran (sm_reqs s) \<Longrightarrow> sm_step idf s (sm_send t i s)"
| Sent: "sm_reqs s t = Some (i, Sending) \<Longrightarrow> \<not> panics r \<Longrightarrow> sm_step idf s (sm_sent t i r s)"
| Read: "sm_readers s t = Some Running \<Longrightarrow> sm_reqs s t = Some (i, ph) \<Longrightarrow> sm_step idf s (sm_read idf t i d s)"
| Read_failed: "sm_readers s t = Some Running \<Longrightarrow> sm_step idf s (s\<lparr>sm_readers := (sm_readers s)(t \<mapsto> Stopped)\<rparr>)"
| Check: "sm_readers s t = Some Checking \<Longrightarrow> sm_step idf s (sm_check t s)"
| Finish: "sm_reqs s t = Some (i, Waiting) \<Longrightarrow> t \<in> sm_told s \<Longrightarrow> sm_step idf s (sm_finish t i s)"

inductive sm_reachable :: "('d \<Rightarrow> u64) \<Rightarrow> ('t, 'd) smatcher \<Rightarrow> bool" for idf where
  Start: "sm_reachable idf sm_new"
| Step: "sm_reachable idf s \<Longrightarrow> sm_step idf s s1 \<Longrightarrow> sm_reachable idf s1"

definition sm_id :: "('t, 'd) smatcher \<Rightarrow> 't \<Rightarrow> u64 option" where
  "sm_id s t = map_option fst (sm_reqs s t)"

definition sm_good :: "('d \<Rightarrow> u64) \<Rightarrow> 'd list \<Rightarrow> u64 \<Rightarrow> 'd result \<Rightarrow> bool" where
  "sm_good idf ds i r \<longleftrightarrow> \<not> panics r \<and> (\<forall>d. r = Inr d \<longrightarrow> d \<in> set ds \<and> idf d = i)"

definition sm_open :: "('t, 'd) smatcher \<Rightarrow> 't \<Rightarrow> u64 \<Rightarrow> bool" where
  "sm_open s t i \<longleftrightarrow> sm_reqs s t = Some (i, Sending) \<or> sm_reqs s t = Some (i, Waiting)"

definition sm_inv :: "('d \<Rightarrow> u64) \<Rightarrow> ('t, 'd) smatcher \<Rightarrow> bool" where
  "sm_inv idf s \<longleftrightarrow>
     (\<forall>j u x. sm_inflight s j = Some (u, x) \<longrightarrow> sm_id s u = Some j)
     \<and> (\<forall>j u d. sm_inflight s j = Some (u, Some d) \<longrightarrow> idf d = j \<and> d \<in> set (came s))
     \<and> (\<forall>t i. sm_open s t i \<longrightarrow> (\<exists>x. sm_inflight s i = Some (t, x) \<and> (t \<in> sm_told s \<longrightarrow> x \<noteq> None)))
     \<and> (\<forall>t i r. sm_reqs s t = Some (i, Over r) \<longrightarrow> sm_good idf (came s) i r)
     \<and> (\<forall>t u i. sm_id s t = Some i \<longrightarrow> sm_id s u = Some i \<longrightarrow> t = u)
     \<and> (\<forall>t. sm_readers s t \<noteq> Some Crashed)
     \<and> sm_told s \<subseteq> dom (sm_reqs s)"

lemma sm_send_inv:
  assumes inv: "sm_inv idf s" and t: "sm_reqs s t = None" and i: "i \<notin> fst ` ran (sm_reqs s)"
  shows "sm_inv idf (sm_send t i s)"
proof -
  have fresh: "sm_id s u \<noteq> Some i" "sm_reqs s u \<noteq> Some (i, x)" for u x using i by (force simp: sm_id_def ran_def)+
  have free: "sm_inflight s i = None" using inv fresh(1) unfolding sm_inv_def by (metis not_None_eq surj_pair)
  have id: "sm_id (sm_send t i s) u = (if u = t then Some i else sm_id s u)" for u by (simp add: sm_id_def sm_send_def)
  have opn: "sm_open (sm_send t i s) u j \<longleftrightarrow> (if u = t then j = i else sm_open s u j)" for u j
    by (auto simp: sm_open_def sm_send_def free)
  have told: "t \<notin> sm_told s" and new: "sm_id s t = None" using inv t by (auto simp: sm_inv_def sm_id_def)
  have "sm_inflight s j \<noteq> Some (t, x)" for j x
  proof
    assume "sm_inflight s j = Some (t, x)"
    then have "sm_id s t = Some j" using inv unfolding sm_inv_def by blast
    then show False using new by simp
  qed
  moreover have "\<not> sm_open s u i" for u using fresh(2) by (simp add: sm_open_def)
  ultimately show ?thesis using inv t fresh free told new unfolding sm_inv_def id opn by (auto simp: sm_send_def)
qed

lemma sm_sent_inv:
  assumes inv: "sm_inv idf s" and t: "sm_reqs s t = Some (i, Sending)" and r: "\<not> panics r"
  shows "sm_inv idf (sm_sent t i r s)"
proof -
  obtain x where x: "sm_inflight s i = Some (t, x)" using inv t unfolding sm_inv_def sm_open_def by blast
  have id: "sm_id (sm_sent t i r s) = sm_id s" using t by (auto simp: sm_id_def sm_sent_def fun_eq_iff split: sum.splits option.splits)
  show ?thesis
  proof (cases r)
    case (Inl e)
    then have opn: "sm_open (sm_sent t i r s) u j \<longleftrightarrow> u \<noteq> t \<and> sm_open s u j" for u j by (auto simp: sm_open_def sm_sent_def)
    have "sm_good idf (came s) i (Inl e)" using r Inl by (simp add: sm_good_def)
    then show ?thesis using inv t Inl unfolding sm_inv_def id opn by (auto simp: sm_sent_def)
  next
    case (Inr y)
    then have opn: "sm_open (sm_sent t i r s) = sm_open s" using t x by (auto simp: sm_open_def sm_sent_def fun_eq_iff)
    show ?thesis using inv t x Inr unfolding sm_inv_def id opn by (auto simp: sm_sent_def)
  qed
qed

lemma sm_good_mono: "sm_good idf ds i r \<Longrightarrow> sm_good idf (ds @ [d]) i r"
  by (auto simp: sm_good_def)

lemma sm_readers_inv: "sm_inv idf s \<Longrightarrow> x \<noteq> Crashed \<Longrightarrow> sm_inv idf (s\<lparr>sm_readers := (sm_readers s)(t \<mapsto> x)\<rparr>)"
  by (simp add: sm_inv_def sm_id_def sm_open_def)

text \<open>A message that was received is recorded; then the table is looked up.\<close>

lemma sm_came_inv: "sm_inv idf s \<Longrightarrow> sm_inv idf (s\<lparr>came := came s @ [d]\<rparr>)"
  by (auto simp: sm_inv_def sm_id_def sm_open_def sm_good_mono)

lemma sm_put_inv:
  assumes inv: "sm_inv idf s" and u: "sm_inflight s (idf d) = Some (u, None)" and d: "d \<in> set (came s)"
  shows "sm_inv idf (s\<lparr>sm_inflight := (sm_inflight s)(idf d \<mapsto> (u, Some d)), sm_told := insert u (sm_told s)\<rparr>)" (is "sm_inv idf ?s")
proof -
  have uid: "sm_id s u = Some (idf d)" using inv u unfolding sm_inv_def by blast
  then have dom: "u \<in> dom (sm_reqs s)" by (auto simp: sm_id_def)
  have id: "sm_id ?s = sm_id s" and opn: "sm_open ?s = sm_open s" by (simp_all add: sm_id_def sm_open_def fun_eq_iff)
  have open_id: "sm_open s v j \<Longrightarrow> sm_id s v = Some j" for v j by (auto simp: sm_open_def sm_id_def)
  have "\<exists>x. sm_inflight ?s j = Some (v, x) \<and> (v \<in> sm_told ?s \<longrightarrow> x \<noteq> None)" if v: "sm_open s v j" for v j
  proof -
    obtain x where x: "sm_inflight s j = Some (v, x)" "v \<in> sm_told s \<longrightarrow> x \<noteq> None" using inv v unfolding sm_inv_def by blast
    show ?thesis
    proof (cases "j = idf d")
      case True
      then show ?thesis using x u by simp
    next
      case False
      then have "v \<noteq> u" using open_id [OF v] uid by auto
      with False x show ?thesis by simp
    qed
  qed
  then show ?thesis using inv uid dom d unfolding sm_inv_def id opn by auto
qed

lemma sm_read_inv:
  assumes inv: "sm_inv idf s"
  shows "sm_inv idf (sm_read idf t i d s)"
proof -
  let ?s = "s\<lparr>came := came s @ [d]\<rparr>"
  have inv1: "sm_inv idf ?s" by (rule sm_came_inv [OF inv])
  have after: "(if idf d = i then Stopped else Checking) \<noteq> Crashed" by simp
  consider "sm_inflight ?s (idf d) = None" | u where "sm_inflight ?s (idf d) = Some (u, None)"
    | u old where "sm_inflight ?s (idf d) = Some (u, Some old)" by (metis not_None_eq surj_pair)
  then show ?thesis
  proof cases
    case 1
    then show ?thesis using sm_readers_inv [OF inv1, of Checking t] by (simp add: sm_read_def Let_def)
  next
    case (2 u)
    then have "sm_inv idf (?s\<lparr>sm_inflight := (sm_inflight ?s)(idf d \<mapsto> (u, Some d)), sm_told := insert u (sm_told ?s)\<rparr>)"
      by (intro sm_put_inv inv1) simp_all
    from sm_readers_inv [OF this after, of t] 2 show ?thesis by (simp add: sm_read_def Let_def)
  next
    case (3 u old)
    then have "idf old = idf d" using inv1 unfolding sm_inv_def by blast
    with sm_readers_inv [OF inv1 after, of t] 3 show ?thesis by (simp add: sm_read_def Let_def)
  qed
qed

lemma sm_finish_inv:
  assumes inv: "sm_inv idf s" and t: "sm_reqs s t = Some (i, Waiting)" "t \<in> sm_told s"
  shows "sm_inv idf (sm_finish t i s)"
proof -
  from t(1) have "sm_open s t i" by (simp add: sm_open_def)
  then have "\<exists>x. sm_inflight s i = Some (t, x) \<and> (t \<in> sm_told s \<longrightarrow> x \<noteq> None)" using inv unfolding sm_inv_def by blast
  then obtain d where d: "sm_inflight s i = Some (t, Some d)" using t(2) by auto
  then have good: "sm_good idf (came s) i (Inr d)" using inv by (auto simp: sm_inv_def sm_good_def)
  have f: "sm_finish t i s = s\<lparr>sm_inflight := (sm_inflight s)(i := None), sm_reqs := (sm_reqs s)(t \<mapsto> (i, Over (Inr d)))\<rparr>"
    by (simp add: sm_finish_def d)
  have id: "sm_id (sm_finish t i s) = sm_id s" using t(1) by (simp add: sm_id_def f fun_eq_iff)
  have opn: "sm_open (sm_finish t i s) u j \<longleftrightarrow> u \<noteq> t \<and> sm_open s u j" for u j by (auto simp: sm_open_def f)
  have other: "j \<noteq> i" if "u \<noteq> t" "sm_open s u j" for u j
  proof
    assume "j = i"
    moreover have "\<exists>x. sm_inflight s j = Some (u, x)" using inv that(2) unfolding sm_inv_def by blast
    ultimately show False using d that(1) by simp
  qed
  have kept: "\<exists>x. sm_inflight (sm_finish t i s) j = Some (u, x) \<and> (u \<in> sm_told s \<longrightarrow> x \<noteq> None)" if "u \<noteq> t" "sm_open s u j" for u j
  proof -
    have "\<exists>x. sm_inflight s j = Some (u, x) \<and> (u \<in> sm_told s \<longrightarrow> x \<noteq> None)" using inv that(2) unfolding sm_inv_def by blast
    then show ?thesis using other [OF that] by (simp add: f)
  qed
  show ?thesis using inv good t kept unfolding sm_inv_def id opn by (auto simp: f)
qed

lemma sm_step_inv: "sm_step idf s s1 \<Longrightarrow> sm_inv idf s \<Longrightarrow> sm_inv idf s1"
proof (induction rule: sm_step.induct)
  case (Send s t i)
  then show ?case by (intro sm_send_inv)
next
  case (Sent s t i r)
  then show ?case by (intro sm_sent_inv)
next
  case (Check s t)
  then show ?case by (auto simp: sm_check_def intro!: sm_readers_inv split: option.splits match_phase.splits)
next
  case (Finish s t i)
  then show ?case by (intro sm_finish_inv)
qed (simp_all add: sm_read_inv sm_readers_inv)

lemma sm_reachable_inv: "sm_reachable idf s \<Longrightarrow> sm_inv idf s"
proof (induction rule: sm_reachable.induct)
  case Start
  show ?case by (simp add: sm_inv_def sm_new_def sm_id_def sm_open_def)
qed (rule sm_step_inv)

text \<open>
  With requests that have different ids, no request and no reader panics, and what a request returns is a response to
  it, so that the check of \<open>do_req\<close> succeeds.
\<close>

lemma matcher_answers:
  assumes "sm_reachable msg_id s" "sm_reqs s t = Some (msg_id req, Over r)"
  shows "\<not> panics r \<and> sm_readers s u \<noteq> Some Crashed
    \<and> (\<forall>m. r = Inr m \<longrightarrow> m \<in> set (came s) \<and> do_req req (Inr ()) r = Inr (msg_val m))"
proof -
  have inv: "sm_inv msg_id s" by (rule sm_reachable_inv [OF assms(1)])
  then have "sm_good msg_id (came s) (msg_id req) r" using assms(2) by (simp add: sm_inv_def)
  moreover have "sm_readers s u \<noteq> Some Crashed" using inv by (simp add: sm_inv_def)
  ultimately show ?thesis by (cases r) (simp_all add: sm_good_def do_req_def into_kv_def)
qed

text \<open>
  When the readers have ended by an error of the connection and no request is started, nothing tells a request that
  waits: it waits forever, where the other library returns the error.
\<close>

definition sm_stalled :: "'t \<Rightarrow> u64 \<Rightarrow> ('t, 'd) smatcher \<Rightarrow> bool" where
  "sm_stalled t i s \<longleftrightarrow> sm_reqs s t = Some (i, Waiting) \<and> t \<notin> sm_told s
     \<and> (\<forall>u. sm_readers s u = None \<or> sm_readers s u = Some Stopped) \<and> (\<forall>u j. sm_reqs s u \<noteq> Some (j, Sending))"

lemma stalled_stays:
  "sm_step idf s s1 \<Longrightarrow> dom (sm_reqs s1) = dom (sm_reqs s) \<Longrightarrow> sm_stalled t i s \<Longrightarrow> sm_stalled t i s1"
proof (induction rule: sm_step.induct)
  case (Send s u j)
  then have "u \<in> dom (sm_reqs s)" by (auto simp: sm_send_def)
  with Send show ?case by auto
next
  case (Finish s u j)
  then have "u \<noteq> t" by (auto simp: sm_stalled_def)
  with Finish show ?case by (auto simp: sm_stalled_def sm_finish_def)
next
  case (Read s u j ph d)
  then show ?case unfolding sm_stalled_def by (metis match_reader.distinct(3) option.inject option.distinct(1))
next
  case (Check s u)
  then show ?case unfolding sm_stalled_def by (metis match_reader.distinct(7) option.inject option.distinct(1))
qed (auto simp: sm_stalled_def)

lemma reader_error_stalls:
  "\<exists>s :: (nat, msg) smatcher. sm_reachable msg_id s \<and> sm_stalled 0 1 s"
proof -
  let ?s1 = "sm_send 0 1 sm_new :: (nat, msg) smatcher"
  let ?s2 = "sm_sent 0 1 (Inr ()) ?s1"
  let ?s3 = "?s2\<lparr>sm_readers := (sm_readers ?s2)(0 \<mapsto> Stopped)\<rparr>"
  note defs = sm_send_def sm_new_def sm_sent_def sm_stalled_def
  have "sm_step msg_id sm_new ?s1" by (rule sm_step.Send) (simp_all add: defs)
  moreover have "sm_step msg_id ?s1 ?s2" by (rule sm_step.Sent) (simp_all add: defs)
  moreover have "sm_step msg_id ?s2 ?s3" by (rule sm_step.Read_failed) (simp add: defs)
  ultimately have "sm_reachable msg_id ?s3" by (meson sm_reachable.intros)
  moreover have "sm_stalled 0 1 ?s3" by (simp add: defs)
  ultimately show ?thesis by blast
qed

section \<open>Properties\<close>

text \<open>
  C31: whatever connections a shard has, however their threads interleave, and whichever sends fail, its store and
  its responses are those of one store that answers all the requests in the order of their calls; and each connection
  is sent its responses in the order of its requests, all of them while it is served, and all but at most the last
  when it has ended.
\<close>

theorem shard_serves_in_order:
  assumes "shard_reachable s"
  shows "\<exists>rsps. call_batch (shard_calls s) Map.empty = (rsps, shard_store s)
    \<and> (\<forall>i < length (shard_conns s). of_conn i (shard_sent s) = of_conn i rsps
          \<or> shard_conns s ! i \<noteq> None \<and> of_conn i (shard_sent s) = butlast (of_conn i rsps))"
  using shard_reachable_inv [OF assms] by (intro exI [of _ "shard_answers s"]) (simp add: shard_inv_def shard_answers_def prod_eq_iff)

definition ex_conns :: kv_shard where
  "ex_conns = shard_new\<lparr>shard_conns := [None, None]\<rparr>"

definition ex_wrote :: kv_shard where
  "ex_wrote = shard_turn 0 (perconn_turn (Inr ((V4 1, 80) :: socket_addr, put_req 7 [97] [5])) (\<lambda>_. Inr ()) (shard_store ex_conns)) ex_conns"

definition ex_got :: kv_shard where
  "ex_got = shard_turn 1 (perconn_turn (Inr ((V4 2, 80) :: socket_addr, get_req 8 [97])) (\<lambda>_. Inr ()) (shard_store ex_wrote)) ex_wrote"

lemmas ex_shard_defs = ex_conns_def ex_wrote_def ex_got_def shard_new_def shard_turn_def perconn_turn_def store_call_eq put_req_def get_req_def resp_def

lemma ex_got_reachable: "shard_reachable ex_got"
proof -
  have "shard_step shard_new (shard_new\<lparr>shard_conns := shard_conns shard_new @ [None]\<rparr>)" by (rule shard_step.Accept)
  then have "shard_reachable (shard_new\<lparr>shard_conns := shard_conns shard_new @ [None]\<rparr>)" using shard_reachable.intros by blast
  moreover have "shard_step (shard_new\<lparr>shard_conns := shard_conns shard_new @ [None]\<rparr>) ex_conns"
    using shard_step.Accept [of "shard_new\<lparr>shard_conns := shard_conns shard_new @ [None]\<rparr>"] by (simp add: ex_conns_def shard_new_def)
  moreover have "shard_step ex_conns ex_wrote" unfolding ex_wrote_def by (rule shard_step.Request) (simp_all add: ex_conns_def)
  moreover have "shard_step ex_wrote ex_got" unfolding ex_got_def by (rule shard_step.Request) (simp_all add: ex_shard_defs)
  ultimately show ?thesis by (metis shard_reachable.Step)
qed

theorem shard_serves_in_order_witness:
  "\<exists>rsps. call_batch (shard_calls ex_got) Map.empty = (rsps, shard_store ex_got) \<and> of_conn 1 rsps = [resp (get_req 8 [97]) (Some [5])]"
proof -
  have "shard_conns ex_got = [None, None]" "of_conn 1 (shard_sent ex_got) = [resp (get_req 8 [97]) (Some [5])]"
    by (simp_all add: ex_shard_defs of_conn_def)
  then show ?thesis using shard_serves_in_order [OF ex_got_reachable] by fastforce
qed

end
