(* ===== verification/Shenango_Negotiate.thy ===== *)
theory Shenango_Negotiate
  imports Handshake
begin

text \<open>
  Negotiation on the Shenango runtime (module \<open>negotiate\<close> of \<open>shenango-bertha/src/lib.rs\<close>). It picks and applies
  stacks with the functions of \<open>bertha/src/negotiate\<close>; its nonces carry, besides the offers, information that the
  chunnels of the server have for those of the client, and each connection of the server is one thread.

  The main result joins the two ends: they run the same implementations, and each chunnel of the client is given
  what a chunnel of the server with the same capability has for it.
\<close>

section \<open>Messages\<close>

type_synonym ext_infos = "(u64, bytes option) map"

type_synonym snonce = "stack_nonce \<times> ext_infos"

definition to_snonce :: "stack_nonce \<Rightarrow> snonce" where
  "to_snonce n = (n, Map.empty)"

definition set_ext_info :: "ext_infos \<Rightarrow> snonce \<Rightarrow> snonce" where
  "set_ext_info h n = (fst n, h)"

datatype shen_msg =
    SClientOffer "snonce list"
  | SServerReply "(string, snonce list) either"
  | SServerNonce bytes snonce
  | SClientNonce snonce
  | SServerNonceAck

fun from_msg :: "negotiate_msg \<Rightarrow> shen_msg" where
  "from_msg ServerNonceAck = SServerNonceAck"
| "from_msg (ClientOffer v) = SClientOffer (map to_snonce v)"
| "from_msg (ClientNonce s) = SClientNonce (to_snonce s)"
| "from_msg (ServerNonce a p) = SServerNonce a (to_snonce p)"
| "from_msg (ServerReply (Left e)) = SServerReply (Left e)"
| "from_msg (ServerReply (Right r)) = SServerReply (Right (map to_snonce r))"

text \<open>\<open>sc_ser_bertha\<close> serializes a message of the other library, as the zero-rtt branch of the server does.\<close>

record ('c, 'a) scodec =
  sc_cap :: "'c \<Rightarrow> bytes"
  sc_ser :: "shen_msg \<Rightarrow> bytes result"
  sc_de :: "bytes \<Rightarrow> shen_msg result"
  sc_ser_bertha :: "negotiate_msg \<Rightarrow> bytes result"
  sc_ser_addr :: "'a \<Rightarrow> bytes result"
  sc_de_addr :: "bytes \<Rightarrow> 'a result"

section \<open>Information for the other end\<close>

text \<open>
  \<open>collect_ext_info\<close> and \<open>distribute_ext_info\<close>; \<open>ei\<close> is \<open>ext_info\<close> of the leaf chunnels, and the result of the second
  lists the calls of \<open>ext_info_callback\<close> and the entries that are left. There are no instances for \<open>Option\<close> and
  \<open>UpgradeEitherApply\<close>; their clauses are not reached.
\<close>

fun collect_ext_info :: "('c negotiate \<Rightarrow> bytes option) \<Rightarrow> 'c picked \<Rightarrow> ext_infos" where
  "collect_ext_info ei (PLeaf n) = [cap_guid n \<mapsto> ei n]"
| "collect_ext_info ei (POpt None) = Map.empty"
| "collect_ext_info ei (POpt (Some p)) = collect_ext_info ei p"
| "collect_ext_info ei (PCxList h t) = collect_ext_info ei h ++ collect_ext_info ei t"
| "collect_ext_info ei (PEither (Left l)) = collect_ext_info ei l"
| "collect_ext_info ei (PEither (Right r)) = collect_ext_info ei r"
| "collect_ext_info ei (PUpgrade _ _ _ (Left l) _) = collect_ext_info ei l"
| "collect_ext_info ei (PUpgrade _ _ _ (Right r) _) = collect_ext_info ei r"

fun distribute_ext_info :: "'c picked \<Rightarrow> ext_infos \<Rightarrow> ('c negotiate \<times> bytes) list \<times> ext_infos" where
  "distribute_ext_info (PLeaf n) info =
     (case info (cap_guid n) of Some (Some i) \<Rightarrow> [(n, i)] | _ \<Rightarrow> [], info(cap_guid n := None))"
| "distribute_ext_info (POpt None) info = ([], info)"
| "distribute_ext_info (POpt (Some p)) info = distribute_ext_info p info"
| "distribute_ext_info (PCxList h t) info =
     (let (cs, info1) = distribute_ext_info h info; (ds, info2) = distribute_ext_info t info1 in (cs @ ds, info2))"
| "distribute_ext_info (PEither (Left l)) info = distribute_ext_info l info"
| "distribute_ext_info (PEither (Right r)) info = distribute_ext_info r info"
| "distribute_ext_info (PUpgrade _ _ _ (Left l) _) info = distribute_ext_info l info"
| "distribute_ext_info (PUpgrade _ _ _ (Right r) _) info = distribute_ext_info r info"

section \<open>The server\<close>

text \<open>
  What \<open>recv\<close> and \<open>send\<close> of the connection return in one iteration. The state of a connection is that of the other
  library's server; \<open>injected\<close> is the content of the mutex of \<open>InjectOne\<close>.
\<close>

record shen_turn =
  st_recv :: "bytes result"
  st_send :: "unit result"

type_synonym 'a shen_pending = "('a, snonce) map"

text \<open>The reply is sent and the stack connected as \<open>respond_and_connect\<close> does, which reads only the result of \<open>send\<close>.\<close>

definition shen_respond ::
  "('c picked \<Rightarrow> 'k result) \<Rightarrow> unit result \<Rightarrow> 'a \<Rightarrow> bytes result \<Rightarrow> 'c picked option \<Rightarrow> ('c, 'a, 'k) srv_conn \<Rightarrow> ('c, 'a, 'k) srv_conn" where
  "shen_respond cw sret a resp_buf new_stack s =
     respond_and_connect cw \<lparr>recv_ret = Inr [], send_ret = sret, inject_ret = True\<rparr> a resp_buf new_stack s"

definition shen_accept_nonce ::
  "('c, 'a) scodec \<Rightarrow> unit result \<Rightarrow> 'a \<Rightarrow> bytes \<Rightarrow> snonce
     \<Rightarrow> 'a shen_pending \<times> ('c, 'a, 'k) srv_conn \<Rightarrow> failure option \<times> 'a shen_pending \<times> ('c, 'a, 'k) srv_conn" where
  "shen_accept_nonce cd sret a addr_buf picked ps =
     (case wrap_err ''mismatched addr types'' (sc_de_addr cd addr_buf) of
        Inl e \<Rightarrow> (Some e, ps)
      | Inr addr \<Rightarrow>
          (let pend = (fst ps)(addr \<mapsto> picked) in
           case expect ''unwrap'' (sc_ser cd SServerNonceAck) of
             Inl e \<Rightarrow> (Some e, pend, snd ps)
           | Inr ack \<Rightarrow>
               (case sret of
                  Inl e \<Rightarrow> (Some e, pend, snd ps)
                | Inr _ \<Rightarrow> (None, pend, (snd ps)\<lparr>sent_msgs := sent_msgs (snd ps) @ [(a, ack)]\<rparr>))))"

definition shen_client_offer ::
  "('c, 'a) scodec \<Rightarrow> ('c picked \<Rightarrow> 'k result) \<Rightarrow> ('c negotiate \<Rightarrow> bytes option) \<Rightarrow> 'c stack \<Rightarrow> unit result \<Rightarrow> 'a \<Rightarrow> snonce list
     \<Rightarrow> ('c, 'a, 'k) srv_conn \<Rightarrow> ('c, 'a, 'k) srv_conn" where
  "shen_client_offer cd cw ei stk sret a client_offers s =
     (case monomorphize (sc_cap cd) (sc_ser_addr cd) stk (map fst client_offers) a of
        Inr (new_stack, nonce, picked_offers) \<Rightarrow>
          (case wrap_err ''Failed to serialize (addr, chosen_stack) nonce'' (sc_ser cd (from_msg nonce)) of
             Inl e \<Rightarrow> fail e s
           | Inr nonce_buf \<Rightarrow>
               shen_respond cw sret a
                 (sc_ser cd (SServerReply (Right (map (set_ext_info (collect_ext_info ei new_stack) \<circ> to_snonce) picked_offers))))
                 (Some new_stack)
                 (s\<lparr>picked_calls := picked_calls s @ call_negotiate_picked new_stack nonce_buf\<rparr>))
      | Inl e \<Rightarrow>
          if is_panic e then fail e s
          else shen_respond cw sret a (sc_ser cd (SServerReply (Left (report_string e)))) None s)"

definition shen_client_nonce ::
  "('c, 'a) scodec \<Rightarrow> ('c picked \<Rightarrow> 'k result) \<Rightarrow> 'c stack \<Rightarrow> unit result \<Rightarrow> 'a \<Rightarrow> snonce
     \<Rightarrow> ('c, 'a, 'k) srv_conn \<Rightarrow> ('c, 'a, 'k) srv_conn" where
  "shen_client_nonce cd cw stk sret a client_offer s =
     (case monomorphize (sc_cap cd) (sc_ser_addr cd) stk [fst client_offer] a of
        Inr (new_stack, nonce, _) \<Rightarrow>
          (case wrap_err ''Failed to serialize (addr, chosen_stack) nonce'' (sc_ser_bertha cd nonce) of
             Inl e \<Rightarrow> fail e s
           | Inr nonce_buf \<Rightarrow>
               shen_respond cw sret a (expect ''unwrap'' (sc_ser cd SServerNonceAck)) (Some new_stack)
                 (s\<lparr>picked_calls := picked_calls s @ call_negotiate_picked new_stack nonce_buf\<rparr>))
      | Inl e \<Rightarrow>
          if is_panic e then fail e s
          else shen_respond cw sret a
                 (expect ''unwrap'' (sc_ser cd (SServerReply (Right (map to_snonce (offers (sc_cap cd) stk)))))) None s)"

text \<open>A message from an address with a pending nonce: \<open>acw\<close> connects over an \<open>InjectOne\<close>, which then gets the message.\<close>

definition shen_prenegotiated ::
  "('c picked \<Rightarrow> 'k result) \<Rightarrow> 'c stack \<Rightarrow> 'a \<times> bytes \<Rightarrow> snonce \<Rightarrow> ('c, 'a, 'k) srv_conn \<Rightarrow> ('c, 'a, 'k) srv_conn" where
  "shen_prenegotiated acw stk m picked s =
     (case wrap_err ''failed to apply semantics to client connection'' (snd (apply_stack stk (fst picked))) of
        Inl e \<Rightarrow> fail e s
      | Inr ar \<Rightarrow>
          (case acw (applied ar) of
             Inl e \<Rightarrow> fail e s
           | Inr new_cn \<Rightarrow> s\<lparr>injected := injected s @ [m], conn_phase := Served (Right new_cn)\<rparr>))"

definition shen_server_turn ::
  "('c, 'a) scodec \<Rightarrow> ('c picked \<Rightarrow> 'k result) \<Rightarrow> ('c picked \<Rightarrow> 'k result) \<Rightarrow> ('c negotiate \<Rightarrow> bytes option) \<Rightarrow> 'c stack \<Rightarrow> 'a \<Rightarrow> shen_turn
     \<Rightarrow> 'a shen_pending \<times> ('c, 'a, 'k) srv_conn \<Rightarrow> 'a shen_pending \<times> ('c, 'a, 'k) srv_conn" where
  "shen_server_turn cd cw acw ei stk a t ps =
     (let pend = fst ps; s = snd ps in
      case st_recv t of
        Inl e \<Rightarrow> (pend, fail e s)
      | Inr buf \<Rightarrow>
          (case pend a of
             Some picked \<Rightarrow> (pend, shen_prenegotiated acw stk (a, buf) picked s)
           | None \<Rightarrow>
               (case sc_de cd buf of
                  Inl _ \<Rightarrow> (pend, s)
                | Inr (SServerNonce addr picked) \<Rightarrow>
                    (case shen_accept_nonce cd (st_send t) a addr picked (pend, s) of
                       (Some e, ps1) \<Rightarrow> (fst ps1, fail e (snd ps1))
                     | (None, ps1) \<Rightarrow> (fst ps1, (snd ps1)\<lparr>conn_phase := Nonces\<rparr>))
                | Inr (SClientOffer client_offers) \<Rightarrow> (pend, shen_client_offer cd cw ei stk (st_send t) a client_offers s)
                | Inr (SClientNonce client_offer) \<Rightarrow> (pend, shen_client_nonce cd cw stk (st_send t) a client_offer s)
                | Inr _ \<Rightarrow> (pend, fail (Panic ''internal error: entered unreachable code'') s))))"

definition shen_nonces_turn ::
  "('c, 'a) scodec \<Rightarrow> 'a \<Rightarrow> shen_turn \<Rightarrow> 'a shen_pending \<times> ('c, 'a, 'k) srv_conn \<Rightarrow> 'a shen_pending \<times> ('c, 'a, 'k) srv_conn" where
  "shen_nonces_turn cd a t ps =
     (let pend = fst ps; s = snd ps in
      case st_recv t of
        Inl e \<Rightarrow> (pend, exit_nonces e s)
      | Inr buf \<Rightarrow>
          (case wrap_err ''offer deserialize failed'' (sc_de cd buf) of
             Inl e \<Rightarrow> (pend, exit_nonces e s)
           | Inr (SServerNonce addr picked) \<Rightarrow>
               (case shen_accept_nonce cd (st_send t) a addr picked (pend, s) of
                  (Some e, ps1) \<Rightarrow> (fst ps1, exit_nonces e (snd ps1))
                | (None, ps1) \<Rightarrow> ps1)
           | Inr _ \<Rightarrow> (pend, s)))"

definition shen_conn_turn ::
  "('c, 'a) scodec \<Rightarrow> ('c picked \<Rightarrow> 'k result) \<Rightarrow> ('c picked \<Rightarrow> 'k result) \<Rightarrow> ('c negotiate \<Rightarrow> bytes option) \<Rightarrow> 'c stack \<Rightarrow> 'a \<Rightarrow> shen_turn
     \<Rightarrow> 'a shen_pending \<times> ('c, 'a, 'k) srv_conn \<Rightarrow> 'a shen_pending \<times> ('c, 'a, 'k) srv_conn" where
  "shen_conn_turn cd cw acw ei stk a t ps =
     (case conn_phase (snd ps) of
        Listening \<Rightarrow> shen_server_turn cd cw acw ei stk a t ps
      | Nonces \<Rightarrow> shen_nonces_turn cd a t ps
      | _ \<Rightarrow> ps)"

section \<open>The client\<close>

fun shen_choose :: "'c stack \<Rightarrow> snonce list \<Rightarrow> nat \<Rightarrow> ('c picked \<times> snonce) option \<Rightarrow> failure \<Rightarrow> ('c picked \<times> snonce) result" where
  "shen_choose stk [] sc best apply_err =
     (case best of Some c \<Rightarrow> Inr c | None \<Rightarrow> Inl (wrap_report ''All received options failed to apply'' apply_err))"
| "shen_choose stk (p # ps) sc best apply_err =
     (case wrap_err ''Could not apply received impls to stack'' (snd (check_apply stk (fst p))) of
        Inr ar \<Rightarrow>
          (if ar_score ar > sc \<or> best = None
           then shen_choose stk ps (ar_score ar) (Some (applied ar, p)) apply_err
           else shen_choose stk ps sc best apply_err)
      | Inl e \<Rightarrow> shen_choose stk ps sc best (wrap_report (report_string e) apply_err))"

text \<open>
  The loop that sends the offer. Each attempt has a thread that sends and then waits for a message; after a timeout
  another one is started while the old one still waits. An event is a timeout, an error of the send of the current
  attempt, or the message, or error, that \<open>recv\<close> returns to the thread of an attempt. \<open>n\<close> is the number of the current
  attempt, \<open>ws\<close> are those that wait.
\<close>

datatype offer_event = Timeout | SendFailed failure | Got nat "bytes result"

fun shen_offer_loop :: "('c, 'a) scodec \<Rightarrow> nat \<Rightarrow> nat list \<Rightarrow> offer_event list \<Rightarrow> shen_msg result option" where
  "shen_offer_loop cd n ws [] = None"
| "shen_offer_loop cd n ws (Timeout # es) = shen_offer_loop cd (Suc n) (Suc n # ws) es"
| "shen_offer_loop cd n ws (SendFailed e # es) = Some (Inl e)"
| "shen_offer_loop cd n ws (Got k r # es) =
     (if k \<notin> set ws then shen_offer_loop cd n ws es
      else if k = n
      then Some (res_bind r (\<lambda>rbuf. wrap_err ''Could not deserialize negotiate_server response'' (sc_de cd rbuf)))
      else shen_offer_loop cd n (removeAll k ws) es)"

definition shen_try_negotiate :: "('c, 'a) scodec \<Rightarrow> shen_msg \<Rightarrow> offer_event list \<Rightarrow> shen_msg result option" where
  "shen_try_negotiate cd off es = (case sc_ser cd off of Inl e \<Rightarrow> Some (Inl e) | Inr _ \<Rightarrow> shen_offer_loop cd 0 [0] es)"

text \<open>
  What the client does with the reply: the calls of \<open>picked_blocking\<close> and of \<open>ext_info_callback\<close>, then the connection;
  \<open>cw\<close> is \<open>connect_wrap\<close> of a stack whose chunnels have got that information.
\<close>

type_synonym ('c, 'k) shen_run = "('c negotiate \<times> bytes) list \<times> ('c negotiate \<times> bytes) list \<times> ('k \<times> snonce) result"

definition shen_finish ::
  "('c, 'a) scodec \<Rightarrow> ('c picked \<Rightarrow> ('c negotiate \<times> bytes) list \<Rightarrow> 'k result) \<Rightarrow> 'c stack \<Rightarrow> 'a \<Rightarrow> shen_msg \<Rightarrow> ('c, 'k) shen_run" where
  "shen_finish cd cw stk addr resp =
     (case resp of
        SServerReply (Right picked) \<Rightarrow>
          (case shen_choose stk picked 0 None (Err [''Apply error'']) of
             Inl e \<Rightarrow> ([], [], Inl e)
           | Inr (ns, nonce) \<Rightarrow>
               (case res_bind (sc_ser_addr cd addr) (\<lambda>a. sc_ser cd (SServerNonce a nonce)) of
                  Inl e \<Rightarrow> ([], [], Inl e)
                | Inr buf \<Rightarrow>
                    (let infos = fst (distribute_ext_info ns (snd nonce)) in
                     (call_negotiate_picked ns buf, infos, res_bind (cw ns infos) (\<lambda>cn. Inr (cn, nonce))))))
      | SServerReply (Left errmsg) \<Rightarrow> ([], [], eyre errmsg)
      | _ \<Rightarrow> ([], [], eyre ''Received unknown message type''))"

definition shen_fetch_nonce ::
  "('c, 'a) scodec \<Rightarrow> ('c picked \<Rightarrow> ('c negotiate \<times> bytes) list \<Rightarrow> 'k result) \<Rightarrow> 'c stack \<Rightarrow> 'a \<Rightarrow> offer_event list \<Rightarrow> ('c, 'k) shen_run option" where
  "shen_fetch_nonce cd cw stk addr es =
     map_option (\<lambda>r. case r of Inl e \<Rightarrow> ([], [], Inl e) | Inr resp \<Rightarrow> shen_finish cd cw stk addr resp)
       (shen_try_negotiate cd (SClientOffer (map to_snonce (offers (sc_cap cd) stk))) es)"

definition shen_negotiate_client ::
  "('c, 'a) scodec \<Rightarrow> ('c picked \<Rightarrow> ('c negotiate \<times> bytes) list \<Rightarrow> 'k result) \<Rightarrow> 'c stack \<Rightarrow> 'a \<Rightarrow> offer_event list \<Rightarrow> 'k result option" where
  "shen_negotiate_client cd cw stk addr es = map_option (\<lambda>x. res_bind (snd (snd x)) (\<lambda>y. Inr (fst y))) (shen_fetch_nonce cd cw stk addr es)"

text \<open>The zero-rtt handshake, as in the other library; here \<open>cw\<close> connects over \<open>CheckZeroRttNegotiationReply\<close>.\<close>

definition shen_fixed_stack ::
  "('c, 'a) scodec \<Rightarrow> ('c picked \<Rightarrow> 'k result) \<Rightarrow> unit result \<Rightarrow> 'c picked \<Rightarrow> 'a \<Rightarrow> ('c, 'a, 'k) zero_rtt_run" where
  "shen_fixed_stack cd cw sret stk addr =
     (case res_bind (fixed_nonce (sc_cap cd) stk) (\<lambda>n. let nonce = to_snonce n in
             res_bind (sc_ser cd (SClientNonce nonce)) (\<lambda>buf. Inr (nonce, buf))) of
        Inl e \<Rightarrow> ([], [], Inl e)
      | Inr (nonce, buf) \<Rightarrow>
          (case sret of
             Inl e \<Rightarrow> ([], [], Inl e)
           | Inr _ \<Rightarrow>
               (case res_bind (sc_ser_addr cd addr) (\<lambda>a. sc_ser cd (SServerNonce a nonce)) of
                  Inl e \<Rightarrow> ([(addr, buf)], [], Inl e)
                | Inr inform \<Rightarrow> ([(addr, buf)], call_negotiate_picked stk inform, cw stk))))"

definition shen_client_with_nonce ::
  "('c, 'a) scodec \<Rightarrow> ('c picked \<Rightarrow> 'k result) \<Rightarrow> unit result \<Rightarrow> 'c stack \<Rightarrow> snonce \<Rightarrow> 'a \<Rightarrow> ('c, 'a, 'k) zero_rtt_run" where
  "shen_client_with_nonce cd cw sret stk nonce addr =
     (case snd (apply_stack stk (fst nonce)) of
        Inl e \<Rightarrow> ([], [], Inl e)
      | Inr ar \<Rightarrow> shen_fixed_stack cd cw sret (applied ar) addr)"

definition shen_monomorphize :: "('c \<Rightarrow> bytes) \<Rightarrow> bytes result \<Rightarrow> 'c stack \<Rightarrow> snonce list \<Rightarrow> snonce result" where
  "shen_monomorphize ser empty_addr stk server_offers =
     res_bind (monomorphize ser (\<lambda>_. empty_addr) stk (map fst server_offers) ())
       (\<lambda>r. case r of
          (_, ServerNonce _ picked, _) \<Rightarrow> Inr (to_snonce picked)
        | _ \<Rightarrow> Inl (Panic ''internal error: entered unreachable code''))"

datatype shen_zero_error = SNotAccepted "snonce list" | SUnexpectedResponse shen_msg | SUnexpectedError string

datatype 'a shen_recv = SDelivered "'a \<times> bytes" | SRejected shen_zero_error | SRecvFailed failure

text \<open>
  \<open>recv\<close> of a zero-rtt connection: \<open>inner\<close> and \<open>again\<close> are what the first and, where there is one, the second \<open>recv\<close> of
  the connection below return. The new value of \<open>success\<close> comes first.
\<close>

definition recv_of :: "('a \<times> bytes) result \<Rightarrow> 'a shen_recv" where
  "recv_of r = (case r of Inl e \<Rightarrow> SRecvFailed e | Inr m \<Rightarrow> SDelivered m)"

definition shen_zero_recv ::
  "('c, 'a) scodec \<Rightarrow> bool \<Rightarrow> ('a \<times> bytes) result \<Rightarrow> ('a \<times> bytes) result \<Rightarrow> bool \<times> 'a shen_recv" where
  "shen_zero_recv cd success inner again =
     (if success then (True, recv_of inner)
      else case inner of
        Inl e \<Rightarrow> (False, SRecvFailed e)
      | Inr m \<Rightarrow>
          (case sc_de cd (snd m) of
             Inr SServerNonceAck \<Rightarrow> (True, recv_of again)
           | Inl _ \<Rightarrow> (False, SDelivered m)
           | Inr (SServerReply (Right options)) \<Rightarrow> (False, SRejected (SNotAccepted options))
           | Inr (SServerReply (Left e)) \<Rightarrow> (False, SRejected (SUnexpectedError e))
           | Inr x \<Rightarrow> (False, SRejected (SUnexpectedResponse x))))"

text \<open>\<open>ClientNegotiator\<close>: the nonces by address.\<close>

definition shen_fetch ::
  "('c, 'a) scodec \<Rightarrow> ('c picked \<Rightarrow> ('c negotiate \<times> bytes) list \<Rightarrow> 'k result) \<Rightarrow> 'a shen_pending \<Rightarrow> 'c stack \<Rightarrow> 'a \<Rightarrow> offer_event list
     \<Rightarrow> ('a shen_pending \<times> 'k result) option" where
  "shen_fetch cd cw self stk addr es =
     map_option
       (\<lambda>x. case snd (snd x) of Inl e \<Rightarrow> (self, Inl e) | Inr (cn, nonce) \<Rightarrow> (self(addr \<mapsto> nonce), Inr cn))
       (shen_fetch_nonce cd cw stk addr es)"

definition shen_zero_rtt ::
  "('c, 'a) scodec \<Rightarrow> ('c picked \<Rightarrow> 'k result) \<Rightarrow> unit result \<Rightarrow> 'a shen_pending \<Rightarrow> 'c stack \<Rightarrow> 'a \<Rightarrow> ('c, 'a, 'k) zero_rtt_run" where
  "shen_zero_rtt cd cw sret self stk addr =
     (case self addr of
        None \<Rightarrow> ([], [], eyre ''No nonce found for addr'')
      | Some nonce \<Rightarrow> shen_client_with_nonce cd cw sret stk nonce addr)"

definition shen_re_negotiate ::
  "('c, 'a) scodec \<Rightarrow> bytes result \<Rightarrow> ('c picked \<Rightarrow> 'k result) \<Rightarrow> unit result \<Rightarrow> 'a shen_pending \<Rightarrow> 'c stack \<Rightarrow> 'a \<Rightarrow> shen_zero_error option
     \<Rightarrow> 'a shen_pending \<times> ('c, 'a, 'k) zero_rtt_run" where
  "shen_re_negotiate cd empty_addr cw sret self stk addr returned_error =
     (case returned_error of
        None \<Rightarrow> (self, [], [], eyre ''Renegotation only works with an error returned from a connection returned by negotiate_zero_rtt'')
      | Some (SNotAccepted ns) \<Rightarrow>
          (case shen_monomorphize (sc_cap cd) empty_addr stk ns of
             Inl e \<Rightarrow> (self, [], [], Inl e)
           | Inr picked \<Rightarrow> (self(addr \<mapsto> picked), shen_client_with_nonce cd cw sret stk picked addr))
      | Some _ \<Rightarrow> (self, [], [], eyre ''Non-negotiation error''))"

section \<open>Information reaches the other end\<close>

lemma collect_layers: "collect_ext_info ei p = map_of (rev (map (\<lambda>n. (cap_guid n, ei n)) (layers p)))"
  by (induction ei p rule: collect_ext_info.induct) auto

lemma collect_mem: "collect_ext_info ei p g = Some i \<Longrightarrow> \<exists>m \<in> set (layers p). cap_guid m = g \<and> ei m = i"
  by (auto simp: collect_layers dest!: map_of_SomeD)

text \<open>Distribution goes through the chunnels in order: the first with a guid takes its entry.\<close>

fun hand_out :: "'c negotiate list \<Rightarrow> ext_infos \<Rightarrow> ('c negotiate \<times> bytes) list \<times> ext_infos" where
  "hand_out [] info = ([], info)"
| "hand_out (n # ns) info =
     apfst (\<lambda>cs. (case info (cap_guid n) of Some (Some i) \<Rightarrow> [(n, i)] | _ \<Rightarrow> []) @ cs) (hand_out ns (info(cap_guid n := None)))"

lemma hand_out_append:
  "hand_out (xs @ ys) info = (let (cs, info1) = hand_out xs info; (ds, info2) = hand_out ys info1 in (cs @ ds, info2))"
  by (induction xs arbitrary: info) (auto simp: Let_def split: prod.splits)

lemma distribute_layers: "distribute_ext_info p info = hand_out (layers p) info"
  by (induction p info rule: distribute_ext_info.induct) (auto simp: hand_out_append Let_def split: prod.splits)

lemma hand_out_sound: "(n, i) \<in> set (fst (hand_out ns info)) \<Longrightarrow> n \<in> set ns \<and> info (cap_guid n) = Some (Some i)"
proof (induction ns arbitrary: info)
  case (Cons m ns)
  consider "n = m" "info (cap_guid m) = Some (Some i)" | "(n, i) \<in> set (fst (hand_out ns (info(cap_guid m := None))))"
    using Cons.prems by (auto split: option.splits)
  then show ?case
  proof cases
    case 2
    from Cons.IH [OF this] show ?thesis by (simp split: if_splits)
  qed simp
qed simp

lemma hand_out_complete:
  "info g = Some (Some i) \<Longrightarrow> g \<in> cap_guid ` set ns \<Longrightarrow> \<exists>n \<in> set ns. cap_guid n = g \<and> (n, i) \<in> set (fst (hand_out ns info))"
proof (induction ns arbitrary: info)
  case (Cons m ns)
  show ?case
  proof (cases "cap_guid m = g")
    case True
    with Cons.prems show ?thesis by auto
  next
    case False
    with Cons.prems Cons.IH [of "info(cap_guid m := None)"] show ?thesis by fastforce
  qed
qed simp

section \<open>The choice of the client\<close>

lemma shen_choose_loop:
  "res_bind (shen_choose stk ps sc best err) (\<lambda>c. Inr (apsnd fst c)) = choose_loop stk (map fst ps) sc (map_option (apsnd fst) best) err"
  by (induction stk ps sc best err rule: shen_choose.induct) (auto split: option.splits sum.splits)

lemma shen_choose_mem: "shen_choose stk ps sc best err = Inr (ns, p) \<Longrightarrow> p \<in> set ps \<or> best = Some (ns, p)"
  by (induction stk ps sc best err rule: shen_choose.induct) (auto split: option.splits sum.splits if_splits)

lemma shen_choose_applied:
  assumes "shen_choose stk (map (\<lambda>n. (n, h)) choices) 0 None (Err [''Apply error'']) = Inr (ns, nonce)"
  shows "choose_applied stk choices = Inr (ns, fst nonce) \<and> snd nonce = h"
proof -
  have "choices \<noteq> []" using assms by auto
  moreover have "choose_loop stk choices 0 None (Err [''Apply error'']) = Inr (ns, fst nonce)"
    using shen_choose_loop [of stk "map (\<lambda>n. (n, h)) choices" 0 None "Err [''Apply error'']"] assms by (simp add: comp_def)
  moreover have "nonce \<in> set (map (\<lambda>n. (n, h)) choices)" using shen_choose_mem [OF assms] by blast
  ultimately show ?thesis by (auto simp: choose_applied_def)
qed

section \<open>Both ends\<close>

lemma offer_loop_reply:
  "shen_offer_loop cd n ws es = Some (Inr m) \<Longrightarrow> (\<And>k r. Got k r \<in> set es \<Longrightarrow> r = Inr rbuf) \<Longrightarrow> sc_de cd rbuf = Inr m"
proof (induction cd n ws es rule: shen_offer_loop.induct)
  case (4 cd n ws k r es)
  have r: "r = Inr rbuf" by (rule "4.prems"(2) [of k]) simp
  have tail: "r1 = Inr rbuf" if "Got j r1 \<in> set es" for j r1 by (rule "4.prems"(2) [of j]) (simp add: that)
  consider "k \<notin> set ws" | "k \<in> set ws" "k = n" | "k \<in> set ws" "k \<noteq> n" by blast
  then show ?case
  proof cases
    case 1
    then show ?thesis using "4.IH"(1) [OF _ _ tail] "4.prems"(1) by simp
  next
    case 2
    then show ?thesis using "4.prems"(1) r by (simp add: wrap_err_def split: sum.splits)
  next
    case 3
    then show ?thesis using "4.IH"(2) [OF _ _ _ tail] "4.prems"(1) by simp
  qed
next
  case (2 cd n ws es)
  have "r = Inr rbuf" if "Got k r \<in> set es" for k r by (rule "2.prems"(2) [of k]) (simp add: that)
  then show ?case using "2.IH" "2.prems"(1) by simp
qed simp_all

lemma fetch_nonce_finish:
  assumes "shen_fetch_nonce cd cw stk addr es = Some (calls, infos, Inr x)" and "\<And>k r. Got k r \<in> set es \<Longrightarrow> r = Inr rbuf"
  obtains resp where "sc_de cd rbuf = Inr resp" and "shen_finish cd cw stk addr resp = (calls, infos, Inr x)"
proof -
  from assms(1) obtain r where r: "shen_try_negotiate cd (SClientOffer (map to_snonce (offers (sc_cap cd) stk))) es = Some r"
    and "(case r of Inl e \<Rightarrow> ([], [], Inl e) | Inr resp \<Rightarrow> shen_finish cd cw stk addr resp) = (calls, infos, Inr x)"
    by (auto simp: shen_fetch_nonce_def)
  then obtain resp where resp: "r = Inr resp" "shen_finish cd cw stk addr resp = (calls, infos, Inr x)" by (cases r) auto
  with r have "shen_offer_loop cd 0 [0] es = Some (Inr resp)" by (auto simp: shen_try_negotiate_def split: sum.splits)
  with resp(2) offer_loop_reply assms(2) that show thesis by blast
qed

text \<open>A connection that was served after an offer: the stack, and the reply that was sent.\<close>

lemma offer_served:
  assumes turn: "shen_conn_turn cd cw acw ei srv a t (pend, fresh_conn) = (pend1, c)"
    and env: "st_recv t = Inr buf" "pend a = None" "sc_de cd buf = Inr (SClientOffer os)"
    and served: "conn_phase c = Served (Left k)"
  obtains p msg choices rbuf where "monomorphize (sc_cap cd) (sc_ser_addr cd) srv (map fst os) a = Inr (p, msg, choices)"
    and "cw p = Inr k" and "sent_msgs c = [(a, rbuf)]"
    and "sc_ser cd (SServerReply (Right (map (\<lambda>n. (n, collect_ext_info ei p)) choices))) = Inr rbuf"
proof -
  have c: "c = shen_client_offer cd cw ei srv (st_send t) a os fresh_conn"
    using turn env by (simp add: shen_conn_turn_def shen_server_turn_def fresh_conn_def)
  have eq: "set_ext_info h \<circ> to_snonce = (\<lambda>n. (n, h))" for h by (auto simp: set_ext_info_def to_snonce_def)
  note defs = shen_client_offer_def shen_respond_def respond_and_connect_def fail_def fresh_conn_def
  show thesis
  proof (cases "monomorphize (sc_cap cd) (sc_ser_addr cd) srv (map fst os) a")
    case (Inl e)
    then show thesis using served c by (auto simp: defs split: sum.splits if_splits)
  next
    case (Inr r)
    then show thesis using served c that eq by (auto simp: defs Let_def split: sum.splits if_splits prod.splits)
  qed
qed

lemma finish_chosen:
  assumes "shen_finish cd cw stk addr (SServerReply (Right (map (\<lambda>n. (n, h)) choices))) = (calls, infos, Inr (k, nonce))"
  obtains ns where "choose_applied stk choices = Inr (ns, fst nonce)" and "infos = fst (hand_out (layers ns) h)" and "cw ns infos = Inr k"
proof -
  let ?c = "shen_choose stk (map (\<lambda>n. (n, h)) choices) 0 None (Err [''Apply error''])"
  from assms obtain ns nonce1 where ns: "?c = Inr (ns, nonce1)" by (cases ?c) (auto simp: shen_finish_def)
  then have eq: "nonce1 = nonce" and "infos = fst (distribute_ext_info ns (snd nonce1))" and "cw ns infos = Inr k"
    using assms by (auto simp: shen_finish_def Let_def res_bind_def split: sum.splits)
  with shen_choose_applied [OF ns [unfolded eq]] that show thesis by (simp add: distribute_layers)
qed

text \<open>A server that gets a reply or an ack, which any client can send, panics.\<close>

lemma unexpected_message_panics:
  "st_recv t = Inr buf \<Longrightarrow> pend a = None \<Longrightarrow> sc_de cd buf = Inr SServerNonceAck \<or> sc_de cd buf = Inr (SServerReply r) \<Longrightarrow>
   conn_phase (snd (shen_server_turn cd cw acw ei stk a t (pend, fresh_conn))) = Failed (Panic ''internal error: entered unreachable code'')"
  by (auto simp: shen_server_turn_def fail_def)

text \<open>After a timeout the thread of the first attempt still waits; the reply that it takes is lost.\<close>

lemma stale_reader_swallows_reply: "shen_offer_loop cd 0 [0] [Timeout, Got 0 (Inr reply)] = None"
  by simp

text \<open>A pending nonce serves the address it was sent for: the message is handed on, and the stack is the one applied.\<close>

lemma pending_serves:
  assumes "shen_nonces_turn cd a t (pend, s) = (pend1, s1)" and "st_recv t = Inr buf" and "st_send t = Inr ()"
    and "sc_de cd buf = Inr (SServerNonce abuf picked)" and "sc_de_addr cd abuf = Inr b" and "sc_ser cd SServerNonceAck = Inr ack"
    and "snd (apply_stack stk (fst picked)) = Inr ar" and "acw (applied ar) = Inr k" and "st_recv u = Inr data"
  shows "sent_msgs s1 = sent_msgs s @ [(a, ack)] \<and> pend1 = pend(b \<mapsto> picked)
    \<and> conn_phase (snd (shen_conn_turn cd cw acw ei stk b u (pend1, fresh_conn))) = Served (Right k)
    \<and> injected (snd (shen_conn_turn cd cw acw ei stk b u (pend1, fresh_conn))) = [(b, data)]"
  using assms by (auto simp: shen_nonces_turn_def shen_accept_nonce_def shen_conn_turn_def shen_server_turn_def shen_prenegotiated_def
    fresh_conn_def expect_def Let_def)


text \<open>The stacks of the sample handshake; the server's chunnel with capability 7 has a byte for the client's.\<close>

definition ex_ei :: "nat negotiate \<Rightarrow> bytes option" where
  "ex_ei n = (if cap_guid n = 7 then Some [42] else None)"

definition ex_sreply :: shen_msg where
  "ex_sreply = SServerReply (Right (map (\<lambda>n. (n, collect_ext_info ex_ei ex_p)) ex_choices))"

definition ex_scodec :: "(nat, unit) scodec" where
  "ex_scodec = \<lparr>sc_cap = ex_ser,
     sc_ser = (\<lambda>m. case m of SServerReply _ \<Rightarrow> if m = ex_sreply then Inr [1] else Inl (Err []) | _ \<Rightarrow> Inr [0]),
     sc_de = (\<lambda>b. if b = [1] then Inr ex_sreply else Inr (SClientOffer (map to_snonce (offers ex_ser ex_cln)))),
     sc_ser_bertha = (\<lambda>_. Inr []), sc_ser_addr = ex_addr, sc_de_addr = (\<lambda>_. Inr ())\<rparr>"

definition ex_sturn :: shen_turn where
  "ex_sturn = \<lparr>st_recv = Inr [0], st_send = Inr ()\<rparr>"

definition ex_sconn :: "(nat, unit, nat picked) srv_conn" where
  "ex_sconn = fresh_conn\<lparr>picked_calls := call_negotiate_picked ex_p [0], sent_msgs := [((), [1])], conn_phase := Served (Left ex_p)\<rparr>"

lemma ex_map_offers: "map fst (map to_snonce ns) = ns"
  by (induction ns) (simp_all add: to_snonce_def)

lemma ex_served: "shen_conn_turn ex_scodec Inr Inr ex_ei ex_srv () ex_sturn (Map.empty, fresh_conn) = (Map.empty, ex_sconn)"
proof -
  have eq: "set_ext_info h \<circ> to_snonce = (\<lambda>n. (n, h))" for h by (auto simp: set_ext_info_def to_snonce_def)
  have offer: "shen_client_offer ex_scodec Inr ex_ei ex_srv (Inr ()) () (map to_snonce (offers ex_ser ex_cln)) fresh_conn = ex_sconn"
    unfolding shen_client_offer_def ex_map_offers
    by (simp add: ex_scodec_def ex_monomorphize eq ex_sconn_def ex_msg_def ex_sreply_def shen_respond_def respond_and_connect_def
      fresh_conn_def)
  have "sc_de ex_scodec [0] = Inr (SClientOffer (map to_snonce (offers ex_ser ex_cln)))" by (simp add: ex_scodec_def)
  moreover have "conn_phase (fresh_conn :: (nat, unit, nat picked) srv_conn) = Listening" by (simp add: fresh_conn_def)
  ultimately show ?thesis using offer by (simp add: shen_conn_turn_def shen_server_turn_def ex_sturn_def)
qed

lemma ex_schoose:
  "shen_choose ex_cln (map (\<lambda>n. (n, h)) ex_choices) 0 None (Err [''Apply error'']) = Inr (ex_ns, (hd ex_choices, h))"
proof -
  let ?c = "shen_choose ex_cln (map (\<lambda>n. (n, h)) ex_choices) 0 None (Err [''Apply error''])"
  have "res_bind ?c (\<lambda>c. Inr (apsnd fst c)) = Inr (ex_ns, hd ex_choices)"
    using shen_choose_loop [of ex_cln "map (\<lambda>n. (n, h)) ex_choices" 0 None "Err [''Apply error'']"] ex_choose
    by (simp add: choose_applied_def ex_choices_def)
  then obtain nonce where c: "?c = Inr (ex_ns, nonce)" "fst nonce = hd ex_choices" by (cases ?c) auto
  then show ?thesis using shen_choose_applied [OF c(1)] by (metis prod.collapse)
qed

lemma ex_fetched:
  "shen_fetch_nonce ex_scodec (\<lambda>ns infos. Inr (ns, infos)) ex_cln () [Timeout, Got 1 (Inr [1])] =
     Some (call_negotiate_picked ex_ns [0], [(ex_a, [42])], Inr ((ex_ns, [(ex_a, [42])]), (hd ex_choices, collect_ext_info ex_ei ex_p)))"
proof -
  have info: "fst (distribute_ext_info ex_ns (collect_ext_info ex_ei ex_p)) = [(ex_a, [42])]"
    by (simp add: ex_ns_def ex_p_def ex_ei_def ex_a_def ex_one_def cx_nil_def)
  have "shen_finish ex_scodec (\<lambda>ns infos. Inr (ns, infos)) ex_cln () ex_sreply =
     (call_negotiate_picked ex_ns [0], [(ex_a, [42])], Inr ((ex_ns, [(ex_a, [42])]), (hd ex_choices, collect_ext_info ex_ei ex_p)))"
    unfolding ex_sreply_def shen_finish_def by (simp add: ex_schoose) (simp add: ex_scodec_def ex_addr_def Let_def info)
  then show ?thesis by (simp add: shen_fetch_nonce_def shen_try_negotiate_def ex_scodec_def)
qed


end
