(* ===== verification/Shenango_Udp.thy ===== *)
theory Shenango_Udp
  imports Connections "HOL-Library.Sublist"
begin

text \<open>
  The UDP transport of the Shenango runtime (\<open>shenango-chunnel/src/lib.rs\<close>). The runtime is started once; threads of it
  own the sockets and exchange messages with connections over channels. A listener of the request kind has a thread
  that gives each peer a connection of its own: the first packet of a peer opens it, and so does a packet that
  comes when the program has dropped the connection of that peer.
\<close>

section \<open>The runtime\<close>

text \<open>\<open>shenango_runtime_start\<close>: the channel to the runtime, which is made and remembered the first time.\<close>

definition runtime_start :: "'h \<Rightarrow> 'h option \<Rightarrow> 'h \<times> 'h option \<times> bool" where
  "runtime_start new rt = (case rt of Some s \<Rightarrow> (s, rt, False) | None \<Rightarrow> (new, Some new, True))"

datatype ip_version = IpV4 | IpV6

text \<open>\<open>listen\<close> of both kinds; \<open>sent\<close> is whether the runtime takes the request.\<close>

definition shen_listen :: "ip_version \<Rightarrow> bool \<Rightarrow> unit result" where
  "shen_listen v sent = (case v of IpV6 \<Rightarrow> eyre ''Only IPv4 is supported'' | IpV4 \<Rightarrow> if sent then Inr () else Inl (Err [''sending on a closed channel'']))"

section \<open>Sending\<close>

text \<open>
  \<open>send\<close> puts the messages of a burst into the channel, up to the first with another kind of address; the thread of the
  socket writes them in order. \<open>alive\<close> is whether that thread still has the other end.
\<close>

fun sk_send :: "bool \<Rightarrow> ((ip_version \<times> 'a) \<times> bytes) list \<Rightarrow> ('a \<times> bytes) list \<Rightarrow> unit result \<times> ('a \<times> bytes) list" where
  "sk_send alive [] ch = (Inr (), ch)"
| "sk_send alive (((IpV4, a), d) # ms) ch = (if alive then sk_send alive ms (ch @ [(a, d)]) else (Inl (Panic ''shenango won't drop''), ch))"
| "sk_send alive (((IpV6, a), d) # ms) ch = (eyre ''Only IPv4 is supported'', ch)"

fun write_turn :: "('a \<times> bytes \<Rightarrow> unit result) \<Rightarrow> ('a \<times> bytes) list \<Rightarrow> unit result \<times> ('a \<times> bytes) list" where
  "write_turn write_to [] = (Inr (), [])"
| "write_turn write_to (m # ch) = (expect ''shenango write_to'' (write_to m), ch)"

section \<open>Receiving\<close>

text \<open>
  \<open>recv\<close> with room for \<open>n\<close> messages, when the channel has some: the first is taken before the room is looked at.
\<close>

definition sk_recv :: "nat \<Rightarrow> 'm list \<Rightarrow> 'm list result \<times> 'm list" where
  "sk_recv n ch = (if n = 0 then (Inl (Panic ''index out of bounds''), tl ch) else (Inr (take n ch), drop n ch))"

text \<open>
  A connection of a peer: the channel with room for 16 messages, and whether the program still has its end. \<open>uc_got\<close>
  and \<open>uc_taken\<close> are records of what was put in and what \<open>recv\<close> has returned.
\<close>

record uconn =
  uc_queue :: "bytes list"
  uc_open :: bool
  uc_got :: "bytes list"
  uc_taken :: "bytes list"

record 'a acceptor =
  uremotes :: "'a \<rightharpoonup> nat"
  uconns :: "'a \<Rightarrow> uconn list"
  listening :: bool
  arrived :: "('a \<times> bytes) list"

definition acceptor_new :: "'a acceptor" where
  "acceptor_new = \<lparr>uremotes = Map.empty, uconns = \<lambda>_. [], listening = True, arrived = []\<rparr>"

text \<open>A new connection for a peer, handed to the listener, with a message in it or none.\<close>

definition new_uconn :: "'a \<Rightarrow> bytes list \<Rightarrow> 'a acceptor \<Rightarrow> 'a acceptor result" where
  "new_uconn a ms s =
     (if listening s
      then Inr (s\<lparr>uremotes := (uremotes s)(a \<mapsto> length (uconns s a)),
                  uconns := (uconns s)(a := uconns s a @ [\<lparr>uc_queue = ms, uc_open = True, uc_got = ms, uc_taken = []\<rparr>])\<rparr>)
      else Inl (Panic ''called Result::unwrap on an Err value''))"

definition push_uconn :: "'a \<Rightarrow> nat \<Rightarrow> bytes \<Rightarrow> 'a acceptor \<Rightarrow> 'a acceptor result option" where
  "push_uconn a i d s =
     (let c = uconns s a ! i in
      if \<not> uc_open c then Some (new_uconn a [d] (s\<lparr>uremotes := (uremotes s)(a := None)\<rparr>))
      else if 16 \<le> length (uc_queue c) then None
      else Some (Inr (s\<lparr>uconns := (uconns s)(a := (uconns s a)[i := c\<lparr>uc_queue := uc_queue c @ [d], uc_got := uc_got c @ [d]\<rparr>])\<rparr>)))"

text \<open>An iteration of the thread with a packet. \<open>None\<close>: it waits for room in the channel of that peer.\<close>

definition accept_packet :: "'a \<times> bytes \<Rightarrow> 'a acceptor \<Rightarrow> 'a acceptor result option" where
  "accept_packet m s0 =
     (let s = s0\<lparr>arrived := arrived s0 @ [m]\<rparr>; a = fst m in
      case uremotes s a of
        Some i \<Rightarrow> push_uconn a i (snd m) s
      | None \<Rightarrow>
          (case new_uconn a [] s of
             Inl e \<Rightarrow> Some (Inl e)
           | Inr s1 \<Rightarrow> push_uconn a (length (uconns s a)) (snd m) s1))"

definition take_uconn :: "nat \<Rightarrow> uconn \<Rightarrow> uconn" where
  "take_uconn n c = c\<lparr>uc_queue := snd (sk_recv n (uc_queue c)),
     uc_taken := uc_taken c @ (case fst (sk_recv n (uc_queue c)) of Inl _ \<Rightarrow> [] | Inr ms \<Rightarrow> ms)\<rparr>"

definition update_uconn :: "'a \<Rightarrow> nat \<Rightarrow> (uconn \<Rightarrow> uconn) \<Rightarrow> 'a acceptor \<Rightarrow> 'a acceptor" where
  "update_uconn a i f s = s\<lparr>uconns := (uconns s)(a := (uconns s a)[i := f (uconns s a ! i)])\<rparr>"

inductive acceptor_step :: "'a acceptor \<Rightarrow> 'a acceptor \<Rightarrow> bool" where
  Packet: "accept_packet m s = Some (Inr s1) \<Longrightarrow> acceptor_step s s1"
| Recv: "i < length (uconns s a) \<Longrightarrow> uc_open (uconns s a ! i) \<Longrightarrow> uc_queue (uconns s a ! i) \<noteq> [] \<Longrightarrow> 0 < n \<Longrightarrow>
    acceptor_step s (update_uconn a i (take_uconn n) s)"
| Drop: "i < length (uconns s a) \<Longrightarrow> acceptor_step s (update_uconn a i (\<lambda>c. c\<lparr>uc_open := False, uc_queue := []\<rparr>) s)"
| Unlisten: "acceptor_step s (s\<lparr>listening := False\<rparr>)"

inductive acceptor_reachable :: "'a acceptor \<Rightarrow> bool" where
  Start: "acceptor_reachable acceptor_new"
| Step: "acceptor_reachable s \<Longrightarrow> acceptor_step s s1 \<Longrightarrow> acceptor_reachable s1"

section \<open>The invariant\<close>

definition uconn_ok :: "uconn \<Rightarrow> bool" where
  "uconn_ok c \<longleftrightarrow> prefix (uc_taken c) (uc_got c) \<and> (uc_open c \<longrightarrow> uc_got c = uc_taken c @ uc_queue c)"

definition from_peer :: "'a \<Rightarrow> ('a \<times> bytes) list \<Rightarrow> bytes list" where
  "from_peer a ms = map snd (filter (\<lambda>m. fst m = a) ms)"

definition acceptor_inv :: "'a acceptor \<Rightarrow> bool" where
  "acceptor_inv s \<longleftrightarrow>
     (\<forall>a. concat (map uc_got (uconns s a)) = from_peer a (arrived s))
     \<and> (\<forall>a. \<forall>c \<in> set (uconns s a). uconn_ok c)
     \<and> (\<forall>a. uremotes s a = (if uconns s a = [] then None else Some (length (uconns s a) - 1)))"

lemma from_peer_snoc: "from_peer a (ms @ [(b, d)]) = (if b = a then from_peer a ms @ [d] else from_peer a ms)"
  by (simp add: from_peer_def)

lemma update_last: "xs \<noteq> [] \<Longrightarrow> xs[length xs - 1 := y] = butlast xs @ [y]"
  by (metis append_butlast_last_id length_butlast list_update_length)

lemma concat_last: "xs \<noteq> [] \<Longrightarrow> f y = f (last xs) @ zs \<Longrightarrow> concat (map f (butlast xs @ [y])) = concat (map f xs) @ zs"
  by (induction xs) auto

lemma acceptor_invD:
  assumes "acceptor_inv s"
  shows "concat (map uc_got (uconns s a)) = from_peer a (arrived s)" "i < length (uconns s a) \<Longrightarrow> uconn_ok (uconns s a ! i)"
  using assms nth_mem unfolding acceptor_inv_def by blast+

text \<open>A message is put into the last connection of its peer, or into a new one.\<close>

lemma accept_packet_inv:
  assumes inv: "acceptor_inv s" and acc: "accept_packet (a, d) s = Some (Inr s1)"
  shows "acceptor_inv s1"
proof (cases "uconns s a = []")
  case True
  then have "uremotes s a = None" using inv by (simp add: acceptor_inv_def)
  then have "uconns s1 = (uconns s)(a := [\<lparr>uc_queue = [d], uc_open = True, uc_got = [d], uc_taken = []\<rparr>])
      \<and> uremotes s1 = (uremotes s)(a \<mapsto> 0) \<and> arrived s1 = arrived s @ [(a, d)]"
    using acc True by (auto simp: accept_packet_def new_uconn_def push_uconn_def Let_def split: if_splits)
  moreover have "from_peer a (arrived s) = []" using acceptor_invD(1) [OF inv, of a] True by simp
  ultimately show ?thesis using inv True by (auto simp: acceptor_inv_def from_peer_snoc uconn_ok_def)
next
  case False
  let ?xs = "uconns s a"
  let ?c = "last ?xs"
  have r: "uremotes s a = Some (length ?xs - 1)" using inv False by (simp add: acceptor_inv_def)
  have nth: "?xs ! (length ?xs - 1) = ?c" using False by (simp add: last_conv_nth)
  have ok: "uconn_ok ?c" using acceptor_invD(2) [OF inv, of "length ?xs - 1" a] False nth by simp
  have got: "concat (map uc_got ?xs) = from_peer a (arrived s)" using inv by (simp add: acceptor_inv_def)
  show ?thesis
  proof (cases "uc_open ?c")
    case False
    then have "uconns s1 = (uconns s)(a := ?xs @ [\<lparr>uc_queue = [d], uc_open = True, uc_got = [d], uc_taken = []\<rparr>])
        \<and> uremotes s1 = (uremotes s)(a \<mapsto> length ?xs) \<and> arrived s1 = arrived s @ [(a, d)]"
      using acc r nth by (auto simp: accept_packet_def new_uconn_def push_uconn_def Let_def split: if_splits)
    then show ?thesis using inv by (auto simp: acceptor_inv_def from_peer_snoc uconn_ok_def)
  next
    case True
    let ?d = "?c\<lparr>uc_queue := uc_queue ?c @ [d], uc_got := uc_got ?c @ [d]\<rparr>"
    have s1: "uconns s1 = (uconns s)(a := butlast ?xs @ [?d]) \<and> uremotes s1 = uremotes s \<and> arrived s1 = arrived s @ [(a, d)]"
      using acc r nth True update_last [OF False] by (auto simp: accept_packet_def push_uconn_def Let_def split: if_splits)
    have "uconn_ok ?d" using ok True by (auto simp: uconn_ok_def prefix_def)
    moreover have "concat (map uc_got (butlast ?xs @ [?d])) = from_peer a (arrived s) @ [d]"
      unfolding got [symmetric] using False by (intro concat_last) simp_all
    ultimately show ?thesis using inv s1 False
      by (auto simp: acceptor_inv_def from_peer_snoc dest: in_set_butlastD)
  qed
qed

lemma update_uconn_inv:
  assumes inv: "acceptor_inv s" and i: "i < length (uconns s a)" and f: "uc_got (f (uconns s a ! i)) = uc_got (uconns s a ! i)" "uconn_ok (f (uconns s a ! i))"
  shows "acceptor_inv (update_uconn a i f s)"
proof -
  have "map uc_got ((uconns s a)[i := f (uconns s a ! i)]) = map uc_got (uconns s a)"
    using i f(1) by (simp add: map_update list_update_same_conv)
  moreover have "\<forall>c \<in> set ((uconns s a)[i := f (uconns s a ! i)]). uconn_ok c"
    using inv f(2) set_update_subset_insert [of "uconns s a" i] by (fastforce simp: acceptor_inv_def)
  ultimately show ?thesis using inv by (auto simp: acceptor_inv_def update_uconn_def)
qed

lemma acceptor_reachable_inv: "acceptor_reachable s \<Longrightarrow> acceptor_inv s"
proof (induction rule: acceptor_reachable.induct)
  case Start
  show ?case by (simp add: acceptor_inv_def acceptor_new_def from_peer_def)
next
  case (Step s s1)
  from Step.hyps(2) Step.IH show ?case
  proof (induction rule: acceptor_step.induct)
    case (Packet m s s1)
    then show ?case by (metis accept_packet_inv surj_pair)
  next
    case (Recv i s a n)
    have "uconn_ok (uconns s a ! i)" by (rule acceptor_invD(2) [OF Recv.prems Recv.hyps(1)])
    then have "uconn_ok (take_uconn n (uconns s a ! i))"
      using Recv.hyps(2,4) by (simp add: uconn_ok_def take_uconn_def sk_recv_def take_is_prefix)
    then show ?case using Recv by (intro update_uconn_inv) (simp_all add: take_uconn_def)
  next
    case (Drop i s a)
    have "uconn_ok (uconns s a ! i)" by (rule acceptor_invD(2) [OF Drop.prems Drop.hyps(1)])
    then show ?case using Drop by (intro update_uconn_inv) (simp_all add: uconn_ok_def)
  next
    case (Unlisten s)
    then show ?case by (simp add: acceptor_inv_def)
  qed
qed

text \<open>
  A peer whose connection is full keeps the thread waiting, and with it the packets of all peers of the socket, until
  the program receives from that connection or drops it.
\<close>

lemma full_channel_blocks:
  "uremotes s a = Some i \<Longrightarrow> uc_open (uconns s a ! i) \<Longrightarrow> 16 \<le> length (uc_queue (uconns s a ! i)) \<Longrightarrow> accept_packet (a, d) s = None"
  by (simp add: accept_packet_def push_uconn_def Let_def)

text \<open>When the program drops the stream of new connections, the thread panics at the next new peer.\<close>

lemma dropped_listener_panics: "uremotes s a = None \<Longrightarrow> \<not> listening s \<Longrightarrow> \<exists>m. accept_packet (a, d) s = Some (Inl (Panic m))"
  by (simp add: accept_packet_def new_uconn_def Let_def)

text \<open>A burst with an address of the other kind is sent up to that message, and is an error.\<close>

lemma sk_send_prefix: "sk_send True ms ch = (r, ch1) \<Longrightarrow>
   ch1 = ch @ map (\<lambda>m. (snd (fst m), snd m)) (takeWhile (\<lambda>m. fst (fst m) = IpV4) ms)
   \<and> (is_ok r \<longleftrightarrow> (\<forall>m \<in> set ms. fst (fst m) = IpV4))"
  by (induction True ms ch arbitrary: ch1 rule: sk_send.induct) (auto simp: is_ok_def)

section \<open>Properties\<close>

text \<open>
  whatever packets come, and whenever the program receives and drops connections, each packet of a peer has been put
  into one connection of that peer: the connections of a peer, in the order they were opened, have its packets in
  the order of their arrival. What a connection has returned is a prefix of what was put into it, and the rest waits
  in it while it is open.
\<close>

lemma peers_are_kept_apart:
  assumes "acceptor_reachable s"
  shows "concat (map uc_got (uconns s a)) = map snd (filter (\<lambda>m. fst m = a) (arrived s))
    \<and> (\<forall>c \<in> set (uconns s a). prefix (uc_taken c) (uc_got c) \<and> (uc_open c \<longrightarrow> uc_got c = uc_taken c @ uc_queue c))"
  using acceptor_reachable_inv [OF assms] by (simp add: acceptor_inv_def uconn_ok_def from_peer_def)

definition ex_accepted :: "nat acceptor" where
  "ex_accepted = (case accept_packet (1, [5]) acceptor_new of Some (Inr s) \<Rightarrow> s | _ \<Rightarrow> acceptor_new)"

definition ex_reopened :: "nat acceptor" where
  "ex_reopened = (case accept_packet (1, [6]) (update_uconn 1 0 (\<lambda>c. c\<lparr>uc_open := False, uc_queue := []\<rparr>) ex_accepted) of Some (Inr s) \<Rightarrow> s | _ \<Rightarrow> acceptor_new)"

lemmas ex_udp_defs = ex_accepted_def ex_reopened_def accept_packet_def acceptor_new_def new_uconn_def push_uconn_def update_uconn_def Let_def

lemma ex_reopened_reachable: "acceptor_reachable ex_reopened"
proof -
  let ?s = "update_uconn 1 0 (\<lambda>c. c\<lparr>uc_open := False, uc_queue := []\<rparr>) ex_accepted"
  have "acceptor_step acceptor_new ex_accepted" by (rule acceptor_step.Packet [where m = "(1, [5])"]) (simp add: ex_udp_defs)
  moreover have "acceptor_step ex_accepted ?s" by (rule acceptor_step.Drop) (simp add: ex_udp_defs)
  moreover have "acceptor_step ?s ex_reopened" by (rule acceptor_step.Packet [where m = "(1, [6])"]) (simp add: ex_udp_defs)
  ultimately show ?thesis by (meson acceptor_reachable.intros)
qed

lemma peers_are_kept_apart_example:
  "length (uconns ex_reopened 1) = 2 \<and> concat (map uc_got (uconns ex_reopened 1)) = map snd (filter (\<lambda>m. fst m = 1) (arrived ex_reopened))"
  using peers_are_kept_apart [OF ex_reopened_reachable, of 1] by (simp add: ex_udp_defs)

end
