(* ===== verification/Switcher_Lock.thy ===== *)
theory Switcher_Lock
  imports Datapath_Switch
begin

text \<open>
  Switching the datapath with locks (\<open>dpdk-direct/src/switcher_lock\<close>). Every connection is behind a \<open>RwLock\<close>, which
  \<open>send\<close> and \<open>recv\<close> take for reading, and has a channel with room for one message that tells a \<open>recv\<close> to let the
  lock go. A transition shuts the datapath down, then for each connection sends that message and takes the lock for
  writing, and when it has all locks replaces the connections. The map of connections is locked throughout, so that
  none is opened meanwhile; one handle makes all transitions.

  No operation is in progress while the connections are replaced. But the datapath is shut down before the locks are
  taken, and there are two ways in which a transition waits forever.
\<close>

section \<open>State\<close>

datatype op_kind = Send_op | Recv_op

text \<open>A task does nothing, waits for the lock of a connection, or holds it.\<close>

datatype 'c task = Idle | Want 'c op_kind | Holds 'c op_kind

text \<open>
  The \<open>join!\<close> of a transition over a connection polls the send of the message, then the lock: what has been polled,
  and whether the message was sent. \<open>Locked\<close> is that the lock is held.
\<close>

datatype join_state = Unpolled | Polled_send bool | Queued bool | Locked bool

fun join_sent :: "join_state \<Rightarrow> bool" where
  "join_sent Unpolled = False"
| "join_sent (Polled_send b) = b"
| "join_sent (Queued b) = b"
| "join_sent (Locked b) = b"

record ('t, 'c) lock_switch =
  ls_curr :: datapath
  ls_up :: bool
  ls_conns :: "'c list"
  ls_inner :: "'c \<Rightarrow> datapath"
  ls_msg :: "'c \<Rightarrow> bool"
  ls_task :: "'t \<Rightarrow> 'c task"
  ls_join :: "'c \<Rightarrow> join_state"
  ls_target :: "dp_choice option"

definition ls_new :: "dp_kind \<Rightarrow> ('t, 'c) lock_switch" where
  "ls_new k = \<lparr>ls_curr = (k, 0), ls_up = True, ls_conns = [], ls_inner = \<lambda>_. (k, 0), ls_msg = \<lambda>_. False, ls_task = \<lambda>_. Idle,
     ls_join = \<lambda>_. Unpolled, ls_target = None\<rparr>"

section \<open>Operations\<close>

text \<open>\<open>connect\<close> and \<open>listen\<close>.\<close>

definition ls_open :: "'c \<Rightarrow> ('t, 'c) lock_switch \<Rightarrow> ('t, 'c) lock_switch" where
  "ls_open c s = s\<lparr>ls_conns := c # ls_conns s, ls_inner := (ls_inner s)(c := ls_curr s), ls_msg := (ls_msg s)(c := False)\<rparr>"

text \<open>A lock for reading is given when nobody holds or waits for the lock for writing; the lock is fair.\<close>

definition read_free :: "'c \<Rightarrow> ('t, 'c) lock_switch \<Rightarrow> bool" where
  "read_free c s = (case ls_join s c of Queued _ \<Rightarrow> False | Locked _ \<Rightarrow> False | _ \<Rightarrow> True)"

definition set_task :: "'t \<Rightarrow> 'c task \<Rightarrow> ('t, 'c) lock_switch \<Rightarrow> ('t, 'c) lock_switch" where
  "set_task t p s = s\<lparr>ls_task := (ls_task s)(t := p)\<rparr>"

text \<open>A \<open>recv\<close> gets the message of a transition: it drops its future, with the lock, and starts again.\<close>

definition preempt :: "'t \<Rightarrow> 'c \<Rightarrow> ('t, 'c) lock_switch \<Rightarrow> ('t, 'c) lock_switch" where
  "preempt t c s = set_task t (Want c Recv_op) (s\<lparr>ls_msg := (ls_msg s)(c := False)\<rparr>)"

section \<open>A transition\<close>

definition ls_trigger :: "dp_choice \<Rightarrow> ('t, 'c) lock_switch \<Rightarrow> ('t, 'c) lock_switch" where
  "ls_trigger ch s = (if check_do_transition (ls_curr s) ch then s\<lparr>ls_up := False, ls_target := Some ch, ls_join := \<lambda>_. Unpolled\<rparr> else s)"

definition set_join :: "'c \<Rightarrow> join_state \<Rightarrow> ('t, 'c) lock_switch \<Rightarrow> ('t, 'c) lock_switch" where
  "set_join c j s = s\<lparr>ls_join := (ls_join s)(c := j)\<rparr>"

text \<open>Polling the send: it completes when the channel has room.\<close>

definition poll_send :: "'c \<Rightarrow> ('t, 'c) lock_switch \<Rightarrow> ('t, 'c) lock_switch" where
  "poll_send c s =
     (case ls_join s c of
        Unpolled \<Rightarrow> if ls_msg s c then set_join c (Polled_send False) s else set_join c (Polled_send True) (s\<lparr>ls_msg := (ls_msg s)(c := True)\<rparr>)
      | Queued False \<Rightarrow> if ls_msg s c then s else set_join c (Queued True) (s\<lparr>ls_msg := (ls_msg s)(c := True)\<rparr>)
      | Locked False \<Rightarrow> if ls_msg s c then s else set_join c (Locked True) (s\<lparr>ls_msg := (ls_msg s)(c := True)\<rparr>)
      | _ \<Rightarrow> s)"

definition poll_write :: "'c \<Rightarrow> ('t, 'c) lock_switch \<Rightarrow> ('t, 'c) lock_switch" where
  "poll_write c s =
     (case ls_join s c of
        Polled_send b \<Rightarrow> set_join c (if \<exists>t k. ls_task s t = Holds c k then Queued b else Locked b) s
      | Queued b \<Rightarrow> if \<exists>t k. ls_task s t = Holds c k then s else set_join c (Locked b) s
      | _ \<Rightarrow> s)"

text \<open>With all locks: the new datapath has a connection for each descriptor. An error lets the locks go as well.\<close>

definition ls_replace :: "dp_choice \<Rightarrow> ('t, 'c) lock_switch \<Rightarrow> ('t, 'c) lock_switch" where
  "ls_replace ch s =
     (let dp = (choice_kind ch, snd (ls_curr s) + 1) in
      s\<lparr>ls_curr := dp, ls_up := True, ls_inner := (\<lambda>c. if c \<in> set (ls_conns s) then dp else ls_inner s c),
        ls_join := \<lambda>_. Unpolled, ls_target := None\<rparr>)"

definition ls_fail :: "('t, 'c) lock_switch \<Rightarrow> ('t, 'c) lock_switch" where
  "ls_fail s = s\<lparr>ls_join := \<lambda>_. Unpolled, ls_target := None\<rparr>"

definition all_locked :: "('t, 'c) lock_switch \<Rightarrow> bool" where
  "all_locked s \<longleftrightarrow> (\<forall>c \<in> set (ls_conns s). ls_join s c = Locked True)"

inductive lock_step :: "('t, 'c) lock_switch \<Rightarrow> ('t, 'c) lock_switch \<Rightarrow> bool" where
  Open: "ls_target s = None \<Longrightarrow> c \<notin> set (ls_conns s) \<Longrightarrow> lock_step s (ls_open c s)"
| Call: "ls_task s t = Idle \<Longrightarrow> c \<in> set (ls_conns s) \<Longrightarrow> lock_step s (set_task t (Want c k) s)"
| Lock: "ls_task s t = Want c k \<Longrightarrow> read_free c s \<Longrightarrow> lock_step s (set_task t (Holds c k) s)"
| Return: "ls_task s t = Holds c k \<Longrightarrow> lock_step s (set_task t Idle s)"
| Preempt: "ls_task s t = Want c Recv_op \<or> ls_task s t = Holds c Recv_op \<Longrightarrow> ls_msg s c \<Longrightarrow> lock_step s (preempt t c s)"
| Trigger: "ls_target s = None \<Longrightarrow> lock_step s (ls_trigger ch s)"
| Poll_send: "ls_target s = Some ch \<Longrightarrow> c \<in> set (ls_conns s) \<Longrightarrow> lock_step s (poll_send c s)"
| Poll_write: "ls_target s = Some ch \<Longrightarrow> c \<in> set (ls_conns s) \<Longrightarrow> lock_step s (poll_write c s)"
| Replace: "ls_target s = Some ch \<Longrightarrow> all_locked s \<Longrightarrow> lock_step s (ls_replace ch s)"
| Fail: "ls_target s = Some ch \<Longrightarrow> all_locked s \<Longrightarrow> lock_step s (ls_fail s)"

inductive lock_reachable :: "('t, 'c) lock_switch \<Rightarrow> bool" where
  Start: "lock_reachable (ls_new k)"
| Step: "lock_reachable s \<Longrightarrow> lock_step s s1 \<Longrightarrow> lock_reachable s1"

section \<open>The invariant\<close>

definition lock_inv :: "('t, 'c) lock_switch \<Rightarrow> bool" where
  "lock_inv s \<longleftrightarrow>
     (\<forall>c b t k. ls_join s c = Locked b \<longrightarrow> ls_task s t \<noteq> Holds c k)
     \<and> (\<forall>t c k. ls_task s t = Holds c k \<longrightarrow> c \<in> set (ls_conns s))
     \<and> (\<forall>t c k. ls_task s t = Want c k \<longrightarrow> c \<in> set (ls_conns s))
     \<and> (\<forall>c \<in> set (ls_conns s). ls_inner s c = ls_curr s)
     \<and> (ls_target s = None \<longrightarrow> (\<forall>c. ls_join s c = Unpolled))"

lemma poll_send_inv: "lock_inv s \<Longrightarrow> lock_inv (set_join c j s) \<Longrightarrow> lock_inv (set_join c j (s\<lparr>ls_msg := m\<rparr>))"
  by (simp add: lock_inv_def set_join_def)

lemma set_join_inv:
  "lock_inv s \<Longrightarrow> ls_target s \<noteq> None \<Longrightarrow> (\<And>b t k. j = Locked b \<Longrightarrow> ls_task s t \<noteq> Holds c k) \<Longrightarrow> lock_inv (set_join c j s)"
  by (auto simp: lock_inv_def set_join_def)

lemma lock_step_inv: "lock_step s s1 \<Longrightarrow> lock_inv s \<Longrightarrow> lock_inv s1"
proof (induction rule: lock_step.induct)
  case (Open s c)
  then show ?case by (auto simp: lock_inv_def ls_open_def)
next
  case (Call s t c k)
  then show ?case by (auto simp: lock_inv_def set_task_def)
next
  case (Lock s t c k)
  have "c \<in> set (ls_conns s)" using Lock.hyps(1) Lock.prems unfolding lock_inv_def by blast
  moreover have "ls_join s c \<noteq> Locked b" for b using Lock.hyps(2) by (auto simp: read_free_def)
  ultimately show ?case using Lock.prems by (auto simp: lock_inv_def set_task_def)
next
  case (Return s t c k)
  then show ?case by (auto simp: lock_inv_def set_task_def)
next
  case (Preempt s t c)
  have "c \<in> set (ls_conns s)" using Preempt.hyps(1) Preempt.prems unfolding lock_inv_def by blast
  then show ?case using Preempt.prems by (auto simp: lock_inv_def set_task_def preempt_def)
next
  case (Trigger s ch)
  then show ?case by (auto simp: lock_inv_def ls_trigger_def)
next
  case (Poll_send s ch c)
  have "ls_join s c = Locked False \<Longrightarrow> ls_task s t \<noteq> Holds c k" for t k using Poll_send.prems unfolding lock_inv_def by blast
  with Poll_send show ?case unfolding poll_send_def
    by (auto intro!: poll_send_inv set_join_inv split: join_state.splits bool.splits)
next
  case (Poll_write s ch c)
  then show ?case unfolding poll_write_def by (auto intro!: set_join_inv split: join_state.splits)
next
  case (Replace s ch)
  then show ?case by (auto simp: lock_inv_def ls_replace_def Let_def)
next
  case (Fail s ch)
  then show ?case by (auto simp: lock_inv_def ls_fail_def)
qed

lemma lock_reachable_inv: "lock_reachable s \<Longrightarrow> lock_inv s"
proof (induction rule: lock_reachable.induct)
  case (Start k)
  show ?case by (simp add: lock_inv_def ls_new_def)
qed (rule lock_step_inv)

text \<open>
  While a transition holds the lock of a connection no operation on it is in progress, and every connection is one of
  the current datapath; so a transition replaces connections that nobody uses.
\<close>

lemma lock_swap_excludes_use:
  assumes "lock_reachable s"
  shows "(\<forall>c \<in> set (ls_conns s). ls_inner s c = ls_curr s)
    \<and> (all_locked s \<longrightarrow> (\<forall>t c k. ls_task s t \<noteq> Holds c k))
    \<and> (\<forall>ch. \<forall>c \<in> set (ls_conns s). ls_inner (ls_replace ch s) c = (choice_kind ch, snd (ls_curr s) + 1))"
proof -
  have inv: "lock_inv s" by (rule lock_reachable_inv [OF assms])
  have "ls_task s t \<noteq> Holds c k" if "all_locked s" for t c k
  proof
    assume h: "ls_task s t = Holds c k"
    then have "c \<in> set (ls_conns s)" using inv unfolding lock_inv_def by blast
    then have "ls_join s c = Locked True" using that by (simp add: all_locked_def)
    then show False using inv h unfolding lock_inv_def by blast
  qed
  then show ?thesis using inv by (auto simp: lock_inv_def ls_replace_def Let_def)
qed

section \<open>What goes wrong\<close>

text \<open>One connection and a task in \<open>recv\<close>, on the datapath with a thread; then a transition.\<close>

definition ex_receiving :: "(nat, nat) lock_switch" where
  "ex_receiving = set_task 0 (Holds 7 Recv_op) (set_task 0 (Want 7 Recv_op) (ls_open 7 (ls_new Thread_dp)))"

definition ex_triggered :: "(nat, nat) lock_switch" where
  "ex_triggered = ls_trigger (To_inline 1) ex_receiving"

lemmas ex_lock_defs = ex_receiving_def ex_triggered_def ls_open_def ls_new_def set_task_def ls_trigger_def check_do_transition_def
  poll_send_def poll_write_def preempt_def set_join_def

lemma ex_triggered_reachable: "lock_reachable ex_triggered"
proof -
  let ?s = "ls_open 7 (ls_new Thread_dp) :: (nat, nat) lock_switch"
  have "lock_step (ls_new Thread_dp) ?s" by (rule lock_step.Open) (simp_all add: ls_new_def)
  then have "lock_reachable ?s" using lock_reachable.intros by blast
  moreover have "lock_step ?s (set_task 0 (Want 7 Recv_op) ?s)" by (rule lock_step.Call) (simp_all add: ls_open_def ls_new_def)
  moreover have "lock_step (set_task 0 (Want 7 Recv_op) ?s) ex_receiving" unfolding ex_receiving_def
    by (rule lock_step.Lock) (simp_all add: set_task_def read_free_def ls_open_def ls_new_def)
  moreover have "lock_step ex_receiving ex_triggered" unfolding ex_triggered_def by (rule lock_step.Trigger) (simp add: ex_lock_defs)
  ultimately show ?thesis by (metis lock_reachable.Step)
qed

text \<open>The datapath is shut down while an operation is in progress on it.\<close>

lemma shutdown_during_use: "lock_reachable ex_triggered \<and> \<not> ls_up ex_triggered \<and> ls_task ex_triggered 0 = Holds 7 Recv_op
    \<and> ls_inner ex_triggered 7 = ls_curr ex_triggered"
  using ex_triggered_reachable by (simp add: ex_lock_defs)

text \<open>
  A \<open>recv\<close> that takes the message and the lock again, before the transition has asked for the lock, is not told again:
  it waits on a datapath that is down, and the transition waits for it.
\<close>

definition ex_relocked :: "(nat, nat) lock_switch" where
  "ex_relocked = poll_write 7 (set_task 0 (Holds 7 Recv_op) (preempt 0 7 (poll_send 7 ex_triggered)))"

definition stuck :: "('t, 'c) lock_switch \<Rightarrow> 't \<Rightarrow> 'c \<Rightarrow> bool" where
  "stuck s t c \<longleftrightarrow> c \<in> set (ls_conns s) \<and> ls_target s \<noteq> None \<and> \<not> ls_up s \<and> ls_task s t = Holds c Recv_op \<and> ls_join s c = Queued True
     \<and> \<not> ls_msg s c"

lemma relock_deadlocks: "lock_reachable ex_relocked \<and> stuck ex_relocked 0 7"
proof -
  let ?s1 = "poll_send 7 ex_triggered"
  let ?s2 = "preempt 0 7 ?s1"
  let ?s3 = "set_task 0 (Holds 7 Recv_op) ?s2"
  have "lock_step ex_triggered ?s1" by (rule lock_step.Poll_send [where ch = "To_inline 1"]) (simp_all add: ex_lock_defs)
  moreover have "lock_step ?s1 ?s2" by (rule lock_step.Preempt) (simp_all add: ex_lock_defs)
  moreover have "lock_step ?s2 ?s3" by (rule lock_step.Lock) (simp_all add: ex_lock_defs read_free_def)
  moreover have "lock_step ?s3 ex_relocked" unfolding ex_relocked_def
    by (rule lock_step.Poll_write [where ch = "To_inline 1"]) (simp_all add: ex_lock_defs)
  ultimately have "lock_reachable ex_relocked" using ex_triggered_reachable by (metis lock_reachable.Step)
  then show ?thesis by (auto simp: stuck_def ex_relocked_def ex_lock_defs)
qed

text \<open>Nothing but the return of that \<open>recv\<close>, for which the datapath would have to deliver, ends the wait.\<close>

lemma stuck_stays:
  assumes "lock_step s s1" "stuck s t c" "s1 \<noteq> set_task t Idle s"
  shows "stuck s1 t c"
  using assms
proof (induction rule: lock_step.induct)
  case (Call s u d k)
  then show ?case by (auto simp: stuck_def set_task_def)
next
  case (Lock s u d k)
  then show ?case by (auto simp: stuck_def set_task_def)
next
  case (Return s u d k)
  then have "u \<noteq> t" by auto
  with Return show ?case by (simp add: stuck_def set_task_def)
next
  case (Preempt s u d)
  then have "u \<noteq> t" by (auto simp: stuck_def)
  with Preempt show ?case by (auto simp: stuck_def set_task_def preempt_def)
next
  case (Poll_send s ch d)
  then show ?case by (cases "d = c") (auto simp: stuck_def poll_send_def set_join_def split: join_state.splits bool.splits)
next
  case (Poll_write s ch d)
  then show ?case by (cases "d = c") (auto simp: stuck_def poll_write_def set_join_def split: join_state.splits)
qed (auto simp: stuck_def all_locked_def)

text \<open>
  A connection on which nobody receives keeps the message of a transition. The next one cannot send its own and, with
  the lock of the connection in its hands, waits until someone does.
\<close>

lemma idle_connection_blocks:
  assumes "lock_step s s1" "ls_msg s c" "ls_join s c = Locked False" "\<And>t. ls_task s t \<noteq> Want c Recv_op" "\<And>t. ls_task s1 t \<noteq> Want c Recv_op"
    and "lock_inv s" "c \<in> set (ls_conns s)" "ls_target s \<noteq> None"
  shows "ls_msg s1 c \<and> ls_join s1 c = Locked False \<and> ls_target s1 \<noteq> None"
  using assms
proof (induction rule: lock_step.induct)
  case (Preempt s t d)
  have "ls_task s t \<noteq> Holds c Recv_op" using Preempt.prems(2,5) unfolding lock_inv_def by blast
  then have "d \<noteq> c" using Preempt.hyps Preempt.prems(3) by auto
  with Preempt show ?case by (auto simp: preempt_def set_task_def)
next
  case (Poll_send s ch d)
  then show ?case by (cases "d = c") (auto simp: poll_send_def set_join_def split: join_state.splits bool.splits)
next
  case (Poll_write s ch d)
  then show ?case by (cases "d = c") (auto simp: poll_write_def set_join_def split: join_state.splits)
qed (auto simp: set_task_def all_locked_def)

lemma idle_connection_blocked_reachable:
  "\<exists>s :: (nat, nat) lock_switch. lock_reachable s \<and> ls_msg s 7 \<and> ls_join s 7 = Locked False \<and> (\<forall>t. ls_task s t = Idle)
     \<and> ls_target s = Some To_thread"
proof -
  let ?s1 = "ls_open 7 (ls_new Thread_dp) :: (nat, nat) lock_switch"
  let ?s2 = "poll_write 7 (poll_send 7 (ls_trigger (To_inline 1) ?s1))"
  let ?s3 = "ls_replace (To_inline 1) ?s2"
  let ?s4 = "poll_write 7 (poll_send 7 (ls_trigger To_thread ?s3))"
  note defs = ls_open_def ls_new_def ls_trigger_def check_do_transition_def poll_send_def poll_write_def set_join_def ls_replace_def
    all_locked_def Let_def
  have "lock_step (ls_new Thread_dp) ?s1" by (rule lock_step.Open) (simp_all add: defs)
  moreover have "lock_step ?s1 (ls_trigger (To_inline 1) ?s1)" by (rule lock_step.Trigger) (simp add: defs)
  moreover have "lock_step (ls_trigger (To_inline 1) ?s1) (poll_send 7 (ls_trigger (To_inline 1) ?s1))"
    by (rule lock_step.Poll_send [where ch = "To_inline 1"]) (simp_all add: defs)
  moreover have "lock_step (poll_send 7 (ls_trigger (To_inline 1) ?s1)) ?s2"
    by (rule lock_step.Poll_write [where ch = "To_inline 1"]) (simp_all add: defs)
  moreover have "lock_step ?s2 ?s3" by (rule lock_step.Replace) (simp_all add: defs)
  moreover have "lock_step ?s3 (ls_trigger To_thread ?s3)" by (rule lock_step.Trigger) (simp add: defs)
  moreover have "lock_step (ls_trigger To_thread ?s3) (poll_send 7 (ls_trigger To_thread ?s3))"
    by (rule lock_step.Poll_send [where ch = To_thread]) (simp_all add: defs)
  moreover have "lock_step (poll_send 7 (ls_trigger To_thread ?s3)) ?s4"
    by (rule lock_step.Poll_write [where ch = To_thread]) (simp_all add: defs)
  ultimately have "lock_reachable ?s4" by (meson lock_reachable.intros)
  then show ?thesis by (intro exI [of _ ?s4]) (simp add: defs)
qed

end
