(* ===== verification/Dpdk_Iokernel.thy ===== *)
theory Dpdk_Iokernel
  imports Dpdk_Inline Chunnel_Stack "HOL-Library.Multiset"
begin

text \<open>
  The datapath with a thread of its own (\<open>dpdk-direct/src/dpdk_iokernel.rs\<close>): one I/O kernel per process, sockets that
  its handle makes, and loading the connections of another datapath when the program switches to it. The handle of
  the kernel is code of a package; what it returns are arguments.
\<close>

section \<open>The kernel\<close>

text \<open>
  \<open>iokernel_start\<close> and \<open>iokernel_restart\<close>, under the lock of \<open>RUNTIME_HANDLE\<close>. The thread of the kernel panics when the
  kernel cannot be made, and its channel is dropped. At its end the thread clears the handle, for which \<open>do_shutdown\<close>
  waits.
\<close>

definition iokernel_start :: "'h result \<Rightarrow> 'h option \<Rightarrow> 'h result \<times> 'h option" where
  "iokernel_start kernel_new rt =
     (case rt of
        Some s \<Rightarrow> (Inr s, rt)
      | None \<Rightarrow> (case kernel_new of
          Inl _ \<Rightarrow> (eyre ''Could not start DpdkIoKernel'', None)
        | Inr h \<Rightarrow> (Inr h, Some h)))"

definition iokernel_exit :: "'h option \<Rightarrow> 'h option" where
  "iokernel_exit rt = None"

text \<open>\<open>do_shutdown\<close> looks at the handle again and again; the argument is what it sees. \<open>None\<close>: it still waits.\<close>

fun do_shutdown :: "'h option list \<Rightarrow> unit option" where
  "do_shutdown [] = None"
| "do_shutdown (None # seen) = Some ()"
| "do_shutdown (Some _ # seen) = do_shutdown seen"

section \<open>Sockets\<close>

text \<open>
  A socket has the inner connection and the flag \<open>drain_first_recv\<close>, which those that were loaded have.
\<close>

record 's io_sk =
  sk_inner :: 's
  drain_first_recv :: "bool option"

definition io_listen :: "(u16 option \<Rightarrow> 's result) \<Rightarrow> addr4 option \<Rightarrow> 's io_sk result" where
  "io_listen socket addr =
     (case addr of
        None \<Rightarrow> eyre ''Only IPv4 is supported''
      | Some a \<Rightarrow> res_bind (socket (Some (snd a))) (\<lambda>inner. Inr \<lparr>sk_inner = inner, drain_first_recv = None\<rparr>))"

definition io_connect :: "(u16 option \<Rightarrow> 's result) \<Rightarrow> 's io_sk result" where
  "io_connect socket = res_bind (socket None) (\<lambda>inner. Inr \<lparr>sk_inner = inner, drain_first_recv = None\<rparr>)"

text \<open>The messages of a burst are sent one after the other, up to the first error.\<close>

fun io_send :: "('m \<Rightarrow> unit result) \<Rightarrow> 'm list \<Rightarrow> unit result \<times> 'm list" where
  "io_send send_async [] = (Inr (), [])"
| "io_send send_async (m # ms) = (case send_async m of Inl e \<Rightarrow> (Inl e, []) | Inr _ \<Rightarrow> apsnd ((#) m) (io_send send_async ms))"

text \<open>A \<open>recv\<close>: whether it is the one that drains what came before, and the socket after it.\<close>

definition io_recv :: "'s io_sk \<Rightarrow> bool \<times> 's io_sk" where
  "io_recv sk = (case drain_first_recv sk of
     Some False \<Rightarrow> (True, sk\<lparr>drain_first_recv := Some True\<rparr>)
   | _ \<Rightarrow> (False, sk))"

section \<open>Loading connections\<close>

datatype active_conn = UnConnected u16 | Connected u16 addr4

type_synonym ('s, 'b) loaded = "active_conn \<rightharpoonup> ('s io_sk, 'b io_sk) either"

fun push_remote :: "u16 \<Rightarrow> addr4 \<Rightarrow> (u16 \<times> addr4 list) list \<Rightarrow> (u16 \<times> addr4 list) list" where
  "push_remote p a [] = [(p, [a])]"
| "push_remote p a ((q, as) # accs) = (if q = p then (q, as @ [a]) # accs else (q, as) # push_remote p a accs)"

fun group_conns ::
  "(u16 option \<Rightarrow> 's result) \<Rightarrow> active_conn list \<Rightarrow> ('s, 'b) loaded \<Rightarrow> (u16 \<times> addr4 list) list
     \<Rightarrow> (('s, 'b) loaded \<times> (u16 \<times> addr4 list) list) result" where
  "group_conns socket [] out accs = Inr (out, accs)"
| "group_conns socket (UnConnected p # cs) out accs =
     (case socket (Some p) of
        Inl e \<Rightarrow> Inl e
      | Inr inner \<Rightarrow> group_conns socket cs (out(UnConnected p \<mapsto> Left \<lparr>sk_inner = inner, drain_first_recv = Some False\<rparr>)) accs)"
| "group_conns socket (Connected p a # cs) out accs = group_conns socket cs out (push_remote p a accs)"

text \<open>\<open>init_accepted\<close> makes the connections of a port and the stream of further ones, which is kept until the end.\<close>

definition add_conns :: "u16 \<Rightarrow> (addr4 \<times> 'b) list \<Rightarrow> ('s, 'b) loaded \<Rightarrow> ('s, 'b) loaded" where
  "add_conns p conns out = fold (\<lambda>(a, b) out. out(Connected p a \<mapsto> Right \<lparr>sk_inner = b, drain_first_recv = Some False\<rparr>)) conns out"

fun load_ports ::
  "(u16 \<Rightarrow> addr4 list \<Rightarrow> ((addr4 \<times> 'b) list \<times> 'st) result) \<Rightarrow> (u16 \<times> addr4 list) list \<Rightarrow> ('s, 'b) loaded \<Rightarrow> (u16 \<rightharpoonup> 'st)
     \<Rightarrow> (('s, 'b) loaded \<times> (u16 \<rightharpoonup> 'st)) result" where
  "load_ports init_port [] out further = Inr (out, further)"
| "load_ports init_port ((p, as) # accs) out further =
     (case init_port p as of
        Inl e \<Rightarrow> Inl e
      | Inr (conns, st) \<Rightarrow> load_ports init_port accs (add_conns p conns out) (further(p \<mapsto> st)))"

text \<open>The result has the connections only: the streams of further connections are dropped. \<open>walk\<close> is the order of the hash map.\<close>

definition load_connections ::
  "((u16 \<times> addr4 list) list \<Rightarrow> (u16 \<times> addr4 list) list) \<Rightarrow> (u16 option \<Rightarrow> 's result)
     \<Rightarrow> (u16 \<Rightarrow> addr4 list \<Rightarrow> ((addr4 \<times> 'b) list \<times> 'st) result) \<Rightarrow> active_conn list \<Rightarrow> ('s, 'b) loaded result" where
  "load_connections walk socket init_port conns =
     res_bind (group_conns socket conns Map.empty []) (\<lambda>(out, accs).
       res_bind (load_ports init_port (walk accs) out Map.empty) (\<lambda>r. Inr (fst r)))"

section \<open>What is loaded\<close>

definition described :: "(u16 \<times> addr4 list) list \<Rightarrow> active_conn set" where
  "described accs = {Connected p a | p a as. (p, as) \<in> set accs \<and> a \<in> set as}"

lemma described_simps [simp]:
  "described [] = {}" "described ((p, as) # accs) = Connected p ` set as \<union> described accs"
  by (auto simp: described_def)

lemma described_push: "described (push_remote p a accs) = insert (Connected p a) (described accs)"
  by (induction p a accs rule: push_remote.induct) auto

lemma group_conns_dom:
  "group_conns socket conns out accs = Inr (out1, accs1) \<Longrightarrow> dom out1 \<union> described accs1 = dom out \<union> described accs \<union> set conns"
  by (induction socket conns out accs rule: group_conns.induct) (auto simp: described_push split: sum.splits)

lemma add_conns_dom: "dom (add_conns p conns out) = dom out \<union> Connected p ` (fst ` set conns)"
  unfolding add_conns_def by (induction conns arbitrary: out) auto

lemma load_ports_dom:
  assumes all: "\<And>p as conns st. init_port p as = Inr (conns, st) \<Longrightarrow> fst ` set conns = set as"
  shows "load_ports init_port accs out further = Inr (out1, further1) \<Longrightarrow> dom out1 = dom out \<union> described accs"
proof (induction accs arbitrary: out further)
  case (Cons x accs)
  obtain p as where x: "x = (p, as)" by (cases x)
  from Cons.prems obtain conns st where i: "init_port p as = Inr (conns, st)"
    and l: "load_ports init_port accs (add_conns p conns out) (further(p \<mapsto> st)) = Inr (out1, further1)"
    by (auto simp: x split: sum.splits prod.splits)
  from Cons.IH [OF l] all [OF i] show ?case by (simp add: add_conns_dom x Un_assoc)
qed simp

text \<open>
  When the kernel makes a connection for each address it is given, the connections that are loaded are those that were
  described, whatever the order of the hash map.
\<close>

lemma load_connections_complete:
  assumes "load_connections walk socket init_port conns = Inr out"
    and "\<And>p as cs st. init_port p as = Inr (cs, st) \<Longrightarrow> fst ` set cs = set as"
    and "\<And>accs. mset (walk accs) = mset accs"
  shows "dom out = set conns"
proof -
  from assms(1) obtain out1 accs further where g: "group_conns socket conns Map.empty [] = Inr (out1, accs)"
    and l: "load_ports init_port (walk accs) out1 Map.empty = Inr (out, further)"
    by (auto simp: load_connections_def res_bind_Inr_iff)
  have "set (walk accs) = set accs" by (rule mset_eq_setD [OF assms(3)])
  then have "described (walk accs) = described accs" by (simp add: described_def)
  then show ?thesis using load_ports_dom [OF assms(2) l] group_conns_dom [OF g] by simp
qed

text \<open>A loaded socket drains once, at its first \<open>recv\<close>; another never does.\<close>

lemma drains_once:
  "fst (io_recv sk) \<longleftrightarrow> drain_first_recv sk = Some False"
  "\<not> fst (io_recv (snd (io_recv sk)))"
  by (auto simp: io_recv_def split: option.splits bool.splits)

text \<open>
  The kernel is made once; an error to make it leaves none. Two calls that differ in their configuration get the same
  kernel, with that of the first.
\<close>

lemma second_config_ignored: "iokernel_start k2 (snd (iokernel_start (Inr h) None)) = (Inr h, Some h)"
  by (simp add: iokernel_start_def)

text \<open>\<open>do_shutdown\<close> returns when it once sees no handle; when another kernel is started before it looks, it does not.\<close>

lemma shutdown_returns: "do_shutdown seen = Some () \<longleftrightarrow> None \<in> set seen"
  by (induction seen rule: do_shutdown.induct) auto

end
