(* ===== verification/Localname_Static.thy ===== *)
theory Localname_Static
  imports Localname
begin

text \<open>
  The local fast path that is chosen when a connection is made (\<open>localname-ctl/src/static_fastpath.rs\<close>). The chunnel asks
  the controller once for the local address of its peer; the connection is then either a local or a global one.
\<close>

section \<open>The chunnel\<close>

datatype 'a side = Server 'a | Client (client_local: 'a) (client_remote: 'a)

fun register_addr :: "'a side \<Rightarrow> 'a" where
  "register_addr (Server a) = a"
| "register_addr (Client l _) = l"

text \<open>\<open>ctl\<close> is whether there is a client of the controller, \<open>ms_local\<close> the path under which it has registered.\<close>

record 'a microservice =
  ms_ctl :: bool
  ms_local :: "path option"
  ms_peer :: "'a option"
  ms_side :: "'a side"

definition ms_new :: "unit result \<Rightarrow> path result \<Rightarrow> 'a side \<Rightarrow> 'a microservice" where
  "ms_new connected registered side =
     \<lparr>ms_ctl = is_ok connected,
      ms_local = (case connected of Inl _ \<Rightarrow> None | Inr _ \<Rightarrow> (case registered of Inl _ \<Rightarrow> None | Inr p \<Rightarrow> Some p)),
      ms_peer = None, ms_side = side\<rparr>"

text \<open>\<open>picked\<close> takes the address of the peer from the nonce.\<close>

definition ms_picked :: "(bytes \<Rightarrow> negotiate_msg result) \<Rightarrow> (bytes \<Rightarrow> 'a result) \<Rightarrow> bytes \<Rightarrow> 'a microservice \<Rightarrow> 'a microservice" where
  "ms_picked de de_addr nonce s =
     (case de nonce of
        Inr (ServerNonce addr _) \<Rightarrow> (case de_addr addr of Inr a \<Rightarrow> s\<lparr>ms_peer := Some a\<rparr> | Inl _ \<Rightarrow> s)
      | _ \<Rightarrow> s)"

datatype ('g, 'l, 'a) ms_cn = LocalCn 'l path 'a | GlobalCn 'g

text \<open>
  \<open>connect_wrap\<close>: \<open>query\<close> is the answer of the controller, \<open>listen\<close> makes the local connection under the path of this end.
\<close>

definition ms_connect ::
  "('a \<Rightarrow> path option result) \<Rightarrow> (path \<Rightarrow> 'l result) \<Rightarrow> 'g \<Rightarrow> 'a microservice \<Rightarrow> ('g, 'l, 'a) ms_cn result" where
  "ms_connect query listen inner s =
     (if \<not> ms_ctl s then Inr (GlobalCn inner)
      else res_bind (case ms_side s of
               Client _ a \<Rightarrow> Inr a
             | Server _ \<Rightarrow> (case ms_peer s of None \<Rightarrow> eyre ''no peer client address set'' | Some a \<Rightarrow> Inr a))
        (\<lambda>a. res_bind (query a) (\<lambda>r.
           case r of
             None \<Rightarrow> Inr (GlobalCn inner)
           | Some peer \<Rightarrow>
               (case ms_local s of
                  None \<Rightarrow> Inl (Panic ''called Option::unwrap on a None value'')
                | Some self_addr \<Rightarrow> res_bind (listen self_addr) (\<lambda>cn. Inr (LocalCn cn peer a))))))"

section \<open>The connection\<close>

datatype 'a either_addr = GlobalAddr 'a | LocalAddr path

text \<open>Where a message is sent: on the local connection to a path, or on the global one to an address.\<close>

definition ms_send :: "('g, 'l, 'a) ms_cn \<Rightarrow> 'a either_addr \<Rightarrow> (path, 'a) either result" where
  "ms_send cn addr =
     (case (cn, addr) of
        (LocalCn _ l g, GlobalAddr a) \<Rightarrow> if a = g then Inr (Left l) else eyre ''Address mismatched pre-connected local address''
      | (LocalCn _ l g, LocalAddr p) \<Rightarrow> Inr (Left p)
      | (GlobalCn _, GlobalAddr a) \<Rightarrow> Inr (Right a)
      | (GlobalCn _, LocalAddr _) \<Rightarrow> eyre ''Global connection can't use local address'')"

text \<open>The address of a message that came from a path or an address.\<close>

definition ms_recv :: "('g, 'l, 'a) ms_cn \<Rightarrow> (path, 'a) either \<Rightarrow> 'a either_addr" where
  "ms_recv cn src =
     (case src of
        Left la \<Rightarrow> (case cn of LocalCn _ l g \<Rightarrow> if la = l then GlobalAddr g else LocalAddr la | GlobalCn _ \<Rightarrow> LocalAddr la)
      | Right a \<Rightarrow> GlobalAddr a)"

definition ms_source :: "('g, 'l, 'a) ms_cn \<Rightarrow> (path, 'a) either \<Rightarrow> bool" where
  "ms_source cn src = (case cn of LocalCn _ _ _ \<Rightarrow> is_left src | GlobalCn _ \<Rightarrow> is_right src)"

section \<open>Replies\<close>

text \<open>A reply to the address of a message that was received goes back to where the message came from.\<close>

lemma reply_reaches_sender: "ms_source cn src \<Longrightarrow> ms_send cn (ms_recv cn src) = Inr src"
  by (cases cn; cases src) (auto simp: ms_source_def ms_send_def ms_recv_def)

text \<open>Once it is local, a connection can send only to the peer it was made for, or to a local path.\<close>

lemma local_only_peer: "a \<noteq> g \<Longrightarrow> \<not> is_ok (ms_send (LocalCn cn l g) (GlobalAddr a))"
  by (simp add: ms_send_def is_ok_def)

text \<open>
  A chunnel whose registration failed has a client of the controller and no path: when the controller knows the peer,
  connecting panics instead of using the global connection.
\<close>

lemma unregistered_panics:
  assumes "query a = Inr (Some p)"
  shows "panics (ms_connect query listen inner (ms_new (Inr ()) (Inl e) (Client l a)))"
  using assms by (simp add: ms_connect_def ms_new_def panics_def is_ok_def)

text \<open>Without a controller, or for a peer that it does not know, the connection is the global one.\<close>

lemma falls_back_global:
  "ms_connect query listen inner (ms_new (Inl e) r side) = Inr (GlobalCn inner)"
  "query a = Inr None \<Longrightarrow> ms_connect query listen inner (ms_new (Inr ()) r (Client l a)) = Inr (GlobalCn inner)"
  by (simp_all add: ms_connect_def ms_new_def is_ok_def)

end
