(* ===== verification/Tls_Tunnel.thy ===== *)
theory Tls_Tunnel
  imports Localname_Static Byte_Order "HOL-Library.Sublist"
begin

text \<open>
  The TLS tunnel through an external proxy (\<open>tls-tunnel/src/ghostunnel\<close>) and the fast path that is fused with it
  (\<open>localname-ctl/src/fused_tls_fastpath.rs\<close>). The chunnel starts proxy processes when it is picked; its connection
  exchanges messages with them over stream sockets, each with its length in front, accepts connections, and tells
  the program by an address on which socket a message came. Processes and sockets are the environment.
\<close>

section \<open>Starting the proxy\<close>

text \<open>\<open>read_stderr\<close>: the proxy is up when it writes a line that says so. The events are what reading a line returns.\<close>

datatype stderr_event = Line string | Eof | ReadError failure

definition contains :: "string \<Rightarrow> string \<Rightarrow> bool" where
  "contains pat s = list_ex (prefix pat) (suffixes s)"

fun read_stderr :: "stderr_event list \<Rightarrow> unit result option" where
  "read_stderr [] = None"
| "read_stderr (Eof # es) = Some (eyre ''Ghostunnel child process EOF'ed stderr'')"
| "read_stderr (ReadError e # es) = Some (Inl (wrap_report ''Error reading Ghostunnel child process stderr'' e))"
| "read_stderr (Line s # es) = (if contains ''listening for connections'' s then Some (Inr ()) else read_stderr es)"

text \<open>
  The loops that connect until it works: an attempt is the time that has passed and what connecting returns. \<open>None\<close>:
  still trying.
\<close>

fun retry_connect :: "nat \<Rightarrow> string \<Rightarrow> (nat \<times> 'c result) list \<Rightarrow> 'c result option" where
  "retry_connect limit ctx [] = None"
| "retry_connect limit ctx ((t, Inr c) # tries) = Some (Inr c)"
| "retry_connect limit ctx ((t, Inl e) # tries) = (if limit < t then Some (Inl (wrap_report ctx e)) else retry_connect limit ctx tries)"

section \<open>The chunnel\<close>

record ('l, 'sk) tls_chunnel =
  tls_listen :: bool
  tls_remote :: bool
  listen_cn :: "'l result option"
  send_cn :: "'sk result option"

definition tls_new :: "('l, 'sk) tls_chunnel" where
  "tls_new = \<lparr>tls_listen = False, tls_remote = False, listen_cn = None, send_cn = None\<rparr>"

text \<open>A clone has places of its own for the sockets.\<close>

definition tls_clone :: "('l, 'sk) tls_chunnel \<Rightarrow> ('l, 'sk) tls_chunnel" where
  "tls_clone ch = ch\<lparr>listen_cn := None, send_cn := None\<rparr>"

definition tls_picked :: "'l result \<Rightarrow> 'sk result \<Rightarrow> ('l, 'sk) tls_chunnel \<Rightarrow> ('l, 'sk) tls_chunnel" where
  "tls_picked l s ch =
     ch\<lparr>listen_cn := (if tls_listen ch then Some l else listen_cn ch), send_cn := (if tls_remote ch then Some s else send_cn ch)\<rparr>"

record ('l, 'sk) tls_conn =
  tc_listen :: "'l option"
  tc_conns :: "'sk list"
  tc_send :: "'sk option"

fun transpose_res :: "'x result option \<Rightarrow> 'x option result" where
  "transpose_res None = Inr None"
| "transpose_res (Some (Inl e)) = Inl e"
| "transpose_res (Some (Inr x)) = Inr (Some x)"

definition tls_connect :: "('l, 'sk) tls_chunnel \<Rightarrow> ('l, 'sk) tls_conn result" where
  "tls_connect ch =
     (if send_cn ch = None \<and> listen_cn ch = None then eyre ''Need at least one of send and listen sides''
      else res_bind (transpose_res (listen_cn ch)) (\<lambda>l. res_bind (transpose_res (send_cn ch)) (\<lambda>s.
        Inr \<lparr>tc_listen = l, tc_conns = [], tc_send = s\<rparr>)))"

section \<open>The connection\<close>

datatype tls_addr = Request | Response nat

text \<open>The socket for an address, and the bytes that are written to it.\<close>

definition tls_target :: "tls_addr \<Rightarrow> ('l, 'sk) tls_conn \<Rightarrow> 'sk result" where
  "tls_target addr cn =
     (case addr of
        Request \<Rightarrow> (case tc_send cn of Some sk \<Rightarrow> Inr sk | None \<Rightarrow> eyre ''Request addr mode needs connected remote'')
      | Response n \<Rightarrow> if n < length (tc_conns cn) then Inr (tc_conns cn ! n) else eyre ''Invalid response address, socket not found'')"

definition frame :: "bytes \<Rightarrow> bytes" where
  "frame d = be_bytes 8 (of_nat (length d) :: u64) @ d"

definition recv_frame :: "bytes \<Rightarrow> (bytes \<times> bytes) option" where
  "recv_frame bs =
     (if length bs < 8 then None
      else (let n = unat (from_be_bytes (take 8 bs) :: u64); rest = drop 8 bs in
            if length rest < n then None else Some (take n rest, drop n rest)))"

text \<open>
  The address of a message on socket number \<open>x\<close> of those that \<open>recv\<close> listens to, the accepted ones and then the one
  that was connected. The subtraction wraps around, as in a release build.
\<close>

definition recv_label :: "nat \<Rightarrow> bool \<Rightarrow> nat \<Rightarrow> tls_addr" where
  "recv_label num_conns has_send x = (if x = (num_conns + (2 ^ 64 - 1)) mod 2 ^ 64 \<and> has_send then Request else Response x)"

datatype 'sk tls_event = Got nat "bytes result" | Accepted "'sk result"

text \<open>An iteration of \<open>recv\<close>: its result, or \<open>None\<close> to go on, with the accepted sockets.\<close>

definition remove_conn :: "nat \<Rightarrow> ('l, 'sk) tls_conn \<Rightarrow> (tls_addr \<times> bytes) result option \<times> ('l, 'sk) tls_conn" where
  "remove_conn x cn =
     (if x < length (tc_conns cn) then (None, cn\<lparr>tc_conns := take x (tc_conns cn) @ drop (Suc x) (tc_conns cn)\<rparr>)
      else (Some (Inl (Panic ''removal index should be < len'')), cn))"

definition tls_recv_turn :: "'sk tls_event \<Rightarrow> ('l, 'sk) tls_conn \<Rightarrow> (tls_addr \<times> bytes) result option \<times> ('l, 'sk) tls_conn" where
  "tls_recv_turn ev cn =
     (case (tc_listen cn, ev) of
        (None, ev) \<Rightarrow>
          (if tc_send cn = None then (Some (eyre ''No listener and no connections''), cn)
           else (case ev of
                   Got _ (Inr d) \<Rightarrow> (Some (Inr (Request, d)), cn)
                 | Got _ (Inl e) \<Rightarrow> (Some (Inl (wrap_report ''Send-side socket errored'' e)), cn)
                 | _ \<Rightarrow> (None, cn)))
      | (Some _, Accepted (Inr sk)) \<Rightarrow> (None, cn\<lparr>tc_conns := tc_conns cn @ [sk]\<rparr>)
      | (Some _, Accepted (Inl e)) \<Rightarrow> (Some (Inl (wrap_report ''Error accepting connection'' e)), cn)
      | (Some _, Got x (Inr d)) \<Rightarrow> (Some (Inr (recv_label (length (tc_conns cn)) (tc_send cn \<noteq> None) x, d)), cn)
      | (Some _, Got x (Inl e)) \<Rightarrow> remove_conn x cn)"

section \<open>The fused fast path\<close>

text \<open>\<open>ft_peer\<close> is the local address of the peer, when the controller knows one.\<close>

record ('l, 'sk, 'a) fused_tls =
  ft_tls :: "('l, 'sk) tls_chunnel"
  ft_local :: "path option"
  ft_peer :: "(path \<times> 'a) option"

text \<open>\<open>picked\<close> asks the controller, when there is one; otherwise it starts the tunnel, of a clone.\<close>

definition ft_picked ::
  "(bytes \<Rightarrow> negotiate_msg result) \<Rightarrow> (bytes \<Rightarrow> 'a result) \<Rightarrow> ('a \<Rightarrow> path option result) option \<Rightarrow> bytes \<Rightarrow> ('l, 'sk, 'a) fused_tls \<Rightarrow> ('l, 'sk, 'a) fused_tls" where
  "ft_picked de de_addr query nonce s =
     (case de nonce of
        Inr (ServerNonce addr _) \<Rightarrow>
          (case de_addr addr of
             Inl _ \<Rightarrow> s
           | Inr a \<Rightarrow>
               (case query of
                  None \<Rightarrow> s\<lparr>ft_peer := None\<rparr>
                | Some q \<Rightarrow> (case q a of Inr (Some l) \<Rightarrow> s\<lparr>ft_peer := Some (l, a)\<rparr> | _ \<Rightarrow> s\<lparr>ft_peer := None\<rparr>)))
      | _ \<Rightarrow> s)"

definition ft_connect :: "(path \<Rightarrow> 'c result) \<Rightarrow> ('l, 'sk, 'a) fused_tls \<Rightarrow> (('l, 'sk) tls_conn, 'c, 'a) ms_cn result" where
  "ft_connect listen s =
     (case ft_peer s of
        None \<Rightarrow> res_bind (tls_connect (tls_clone (ft_tls s))) (\<lambda>cn. Inr (GlobalCn cn))
      | Some (l, a) \<Rightarrow>
          (case ft_local s of
             None \<Rightarrow> Inl (Panic ''called Option::unwrap on a None value'')
           | Some self_addr \<Rightarrow> res_bind (wrap_err ''Local conection listen'' (listen self_addr)) (\<lambda>cn. Inr (LocalCn cn l a))))"

section \<open>Framing\<close>

lemma recv_frame_frame:
  assumes "length d < 2 ^ 64"
  shows "recv_frame (frame d @ rest) = Some (d, rest)"
proof -
  let ?n = "of_nat (length d) :: u64"
  have n: "unat ?n = length d" using assms by (simp add: unat_of_nat)
  have "from_be_bytes (be_bytes 8 ?n) = ?n" by (rule from_be_bytes_be_bytes) simp
  moreover have "take 8 (frame d @ rest) = be_bytes 8 ?n" "drop 8 (frame d @ rest) = d @ rest" by (simp_all add: frame_def)
  ultimately show ?thesis using n by (simp add: recv_frame_def frame_def)
qed

text \<open>A frame is delivered only when it is complete.\<close>

lemma recv_frame_incomplete:
  assumes "length d < 2 ^ 64" "bs = take k (frame d)" "k < length (frame d)"
  shows "recv_frame bs = None"
proof (cases "k < 8")
  case True
  then show ?thesis using assms by (simp add: recv_frame_def)
next
  case False
  let ?n = "of_nat (length d) :: u64"
  have n: "unat ?n = length d" using assms(1) by (simp add: unat_of_nat)
  have "from_be_bytes (be_bytes 8 ?n) = ?n" by (rule from_be_bytes_be_bytes) simp
  moreover have "take 8 bs = be_bytes 8 ?n" "drop 8 bs = take (k - 8) d" using assms False by (simp_all add: frame_def)
  ultimately show ?thesis using assms n False by (simp add: recv_frame_def frame_def Let_def)
qed

section \<open>Addresses\<close>

text \<open>Without a connected socket, a reply to the address of a message goes to the socket on which the message came.\<close>

lemma listener_replies:
  assumes "tls_recv_turn (Got x (Inr d)) cn = (Some (Inr (a, d1)), cn1)" "tc_listen cn \<noteq> None" "tc_send cn = None" "x < length (tc_conns cn)"
  shows "d1 = d \<and> tls_target a cn1 = Inr (tc_conns cn ! x)"
  using assms by (auto simp: tls_recv_turn_def recv_label_def tls_target_def)

text \<open>
  With both, the address is wrong: a message of the last client that was accepted has the address of the server, to which
  a reply then goes, and a message of the server has an address to which no reply can be sent.
\<close>

lemma send_side_mislabelled:
  assumes "tc_listen cn \<noteq> None" "tc_send cn = Some sk" "tc_conns cn \<noteq> []" "length (tc_conns cn) < 2 ^ 64"
  shows "\<exists>a cn1. tls_recv_turn (Got (length (tc_conns cn) - 1) (Inr d)) cn = (Some (Inr (a, d)), cn1) \<and> tls_target a cn1 = Inr sk"
    and "\<exists>a cn1. tls_recv_turn (Got (length (tc_conns cn)) (Inr d)) cn = (Some (Inr (a, d)), cn1) \<and> \<not> is_ok (tls_target a cn1)"
proof -
  let ?n = "length (tc_conns cn)"
  have "?n + (2 ^ 64 - 1) = (?n - 1) + 2 ^ 64" using assms(3) by (cases "tc_conns cn") simp_all
  then have "(?n + (2 ^ 64 - 1)) mod 2 ^ 64 = (?n - 1) mod 2 ^ 64" by (simp only: mod_add_self2)
  moreover have "?n - 1 < 2 ^ 64" using assms(4) by linarith
  ultimately have m: "(?n + (2 ^ 64 - 1)) mod 2 ^ 64 = ?n - 1" by (simp only: mod_less)
  have n: "?n \<noteq> ?n - 1" using assms(3) by (cases "tc_conns cn") simp_all
  obtain l where l: "tc_listen cn = Some l" using assms(1) by blast
  show "\<exists>a cn1. tls_recv_turn (Got (?n - 1) (Inr d)) cn = (Some (Inr (a, d)), cn1) \<and> tls_target a cn1 = Inr sk"
    unfolding tls_recv_turn_def recv_label_def m using assms(2) l by (simp add: tls_target_def)
  show "\<exists>a cn1. tls_recv_turn (Got ?n (Inr d)) cn = (Some (Inr (a, d)), cn1) \<and> \<not> is_ok (tls_target a cn1)"
    unfolding tls_recv_turn_def recv_label_def m using assms(2) l n by (simp add: tls_target_def is_ok_def)
qed

text \<open>An error of the connected socket is taken for one of an accepted socket, past the last, and panics.\<close>

lemma send_error_panics:
  "tc_listen cn = Some l \<Longrightarrow> \<exists>m. tls_recv_turn (Got (length (tc_conns cn)) (Inl e)) cn = (Some (Inl (Panic m)), cn)"
  by (simp add: tls_recv_turn_def remove_conn_def)

text \<open>When a client leaves, the addresses of those that came after it change: a reply goes to another client.\<close>

lemma removal_shifts_replies:
  assumes "tls_recv_turn (Got x (Inl e)) cn = (None, cn1)" "tc_listen cn = Some l" "x \<le> y" "Suc y < length (tc_conns cn)"
  shows "tls_target (Response y) cn1 = Inr (tc_conns cn ! Suc y)"
  using assms by (auto simp: tls_recv_turn_def remove_conn_def tls_target_def nth_append split: if_splits)

text \<open>
  The fused fast path starts the tunnel of a clone, and connects another clone, which has no sockets: unless the peer is
  local, connecting fails.
\<close>

lemma fused_tls_never_connects: "ft_peer s = None \<Longrightarrow> ft_connect listen s = eyre ''Need at least one of send and listen sides''"
  by (simp add: ft_connect_def tls_connect_def tls_clone_def)

text \<open>A chunnel that was picked on a side that it has connects, when the proxy was started.\<close>

lemma picked_connects:
  assumes "tls_listen ch \<or> tls_remote ch" "listen_cn ch = None" "send_cn ch = None"
  shows "tls_connect (tls_picked (Inr l) (Inr s) ch) = Inr \<lparr>tc_listen = if tls_listen ch then Some l else None, tc_conns = [],
    tc_send = if tls_remote ch then Some s else None\<rparr>"
  using assms by (auto simp: tls_connect_def tls_picked_def)

end
