(* ===== verification/Secure_Conn.thy ===== *)
theory Secure_Conn
  imports Prelude
begin

text \<open>
  Connections that encrypt with a library inside the process: TLS by \<open>rustls\<close> (\<open>tls-tunnel/src/rustls.rs\<close>) and QUIC by
  \<open>quiche\<close> (\<open>quic-chunnel/src/lib.rs\<close>). The libraries are state machines without I/O; what their functions return are
  arguments, over a state \<open>'s\<close> of the library. The code modelled here moves bytes between them and the connection below.
\<close>

section \<open>QUIC\<close>

text \<open>
  \<open>quic_send_drain\<close> takes packets from the library until it has none, or has an error; the packets before the error are
  sent all the same. \<open>pkts\<close> are the results of its \<open>send\<close>, \<open>Inr None\<close> being \<open>Done\<close>; \<open>inner_send\<close> is the result of the
  connection below.
\<close>

fun take_packets :: "bytes option result list \<Rightarrow> bytes list \<times> failure option" where
  "take_packets [] = ([], None)"
| "take_packets (Inr (Some p) # rs) = apfst ((#) p) (take_packets rs)"
| "take_packets (Inr None # rs) = ([], None)"
| "take_packets (Inl e # rs) = ([], Some e)"

definition quic_send_drain :: "bytes option result list \<Rightarrow> unit result \<Rightarrow> bytes list \<times> unit result" where
  "quic_send_drain pkts inner_send =
     (case take_packets pkts of (ps, err) \<Rightarrow>
        (ps, res_bind inner_send (\<lambda>_. case err of None \<Rightarrow> Inr () | Some e \<Rightarrow> Inl e)))"

text \<open>
  \<open>quic_recv\<close>: a message from below is given to the library piece by piece; \<open>rets\<close> are the numbers of bytes it
  takes. \<open>None\<close>: the loop goes on.
\<close>

fun feed_msg :: "nat \<Rightarrow> nat result list \<Rightarrow> nat \<Rightarrow> unit result option" where
  "feed_msg len rets processed =
     (if len \<le> processed then Some (Inr ())
      else case rets of
        [] \<Rightarrow> None
      | Inl e # _ \<Rightarrow> Some (Inl (wrap_report ''quic_recv'' e))
      | Inr n # rest \<Rightarrow> feed_msg len rest (processed + n))"

text \<open>
  \<open>quic_complete_handshake\<close>: a round is whether the library is established before the send, the result of the send,
  whether it is established after it, and the result of the receive.
\<close>

fun quic_handshake :: "(bool \<times> unit result \<times> bool \<times> unit result) list \<Rightarrow> unit result option" where
  "quic_handshake [] = None"
| "quic_handshake ((est, snd_r, est2, rcv_r) # rounds) =
     (if est then Some (Inr ())
      else case wrap_err ''handshake send'' snd_r of
        Inl e \<Rightarrow> Some (Inl e)
      | Inr _ \<Rightarrow>
          if est2 then Some (Inr ())
          else (case wrap_err ''handshake recv'' rcv_r of Inl e \<Rightarrow> Some (Inl e) | Inr _ \<Rightarrow> quic_handshake rounds))"

text \<open>
  \<open>send\<close> after the handshake: the messages of the burst are given to the library, then its packets are sent. When the
  buffer of the library is full (\<open>Full\<close>) packets are sent in between. The result has the messages it took.
\<close>

datatype dgram_ret = Taken | Full | DgramErr failure

fun quic_send :: "('s \<Rightarrow> bytes \<Rightarrow> dgram_ret \<times> 's) \<Rightarrow> ('s \<Rightarrow> unit result \<times> 's) \<Rightarrow> bytes list \<Rightarrow> 's \<Rightarrow> bytes list \<times> unit result \<times> 's" where
  "quic_send dgram drain [] s = (case drain s of (r, s1) \<Rightarrow> ([], r, s1))"
| "quic_send dgram drain (m # ms) s =
     (case dgram s m of
        (Taken, s1) \<Rightarrow> apfst ((#) m) (quic_send dgram drain ms s1)
      | (Full, s1) \<Rightarrow> (case drain s1 of (Inl e, s2) \<Rightarrow> ([], Inl e, s2) | (Inr _, s2) \<Rightarrow> quic_send dgram drain ms s2)
      | (DgramErr e, s1) \<Rightarrow> ([], Inl (wrap_report ''QUIC dgram send'' e), s1))"

text \<open>
  The inner loop of \<open>recv\<close> with \<open>room\<close> for messages: \<open>rets\<close> are the results of \<open>dgram_recv_vec\<close>, \<open>Inr None\<close> being
  \<open>Done\<close>. \<open>None\<close>: there was nothing, and the outer loop receives from below again.
\<close>

fun take_dgrams :: "nat \<Rightarrow> bytes option result list \<Rightarrow> bytes list \<Rightarrow> bytes list result option" where
  "take_dgrams room [] got = (if length got = room then Some (Inr got) else None)"
| "take_dgrams room (r # rets) got =
     (if length got = room then Some (Inr got)
      else case r of
        Inr (Some m) \<Rightarrow> take_dgrams room rets (got @ [m])
      | Inr None \<Rightarrow> if 0 < length got then Some (Inr got) else None
      | Inl e \<Rightarrow> Some (Inl (wrap_report ''Could not get messages from quic'' e)))"

section \<open>TLS\<close>

text \<open>
  \<open>send\<close> after the handshake. For each message, \<open>write\<close> is the result of the library's writer and \<open>flush\<close> that of taking
  its bytes; the first error ends the burst, whose earlier packets are sent.
\<close>

fun tls_packets :: "('s \<Rightarrow> bytes \<Rightarrow> unit result \<times> 's) \<Rightarrow> ('s \<Rightarrow> bytes result \<times> 's) \<Rightarrow> ('a \<times> bytes) list \<Rightarrow> 's \<Rightarrow> ('a \<times> bytes) list \<times> failure option \<times> 's" where
  "tls_packets write flush [] s = ([], None, s)"
| "tls_packets write flush ((a, m) # ms) s =
     (case write s m of
        (Inl e, s1) \<Rightarrow> ([], Some (wrap_report ''Could not write into TLS'' e), s1)
      | (Inr _, s1) \<Rightarrow>
          (case flush s1 of
             (Inl e, s2) \<Rightarrow> ([], Some (wrap_report ''Could not write from TLS to underlying connection'' e), s2)
           | (Inr p, s2) \<Rightarrow> apfst ((#) (a, p)) (tls_packets write flush ms s2)))"

definition tls_send ::
  "('s \<Rightarrow> bytes \<Rightarrow> unit result \<times> 's) \<Rightarrow> ('s \<Rightarrow> bytes result \<times> 's) \<Rightarrow> (('a \<times> bytes) list \<Rightarrow> unit result) \<Rightarrow> ('a \<times> bytes) list \<Rightarrow> 's
     \<Rightarrow> ('a \<times> bytes) list \<times> unit result \<times> 's" where
  "tls_send write flush inner_send burst s =
     (case tls_packets write flush burst s of (ps, err, s1) \<Rightarrow>
        (ps, res_bind (wrap_err ''tls conn inner recv'' (inner_send ps)) (\<lambda>_. case err of None \<Rightarrow> Inr () | Some e \<Rightarrow> Inl e), s1))"

text \<open>
  The packets of one receive. \<open>process\<close> gives a packet to the library, and returns the bytes that can be read then.
\<close>

fun tls_unpack :: "('s \<Rightarrow> bytes \<Rightarrow> bytes result \<times> 's) \<Rightarrow> ('a \<times> bytes) list \<Rightarrow> 's \<Rightarrow> ('a \<times> bytes) list result \<times> 's" where
  "tls_unpack process [] s = (Inr [], s)"
| "tls_unpack process ((a, p) # ps) s =
     (case process s p of
        (Inl e, s1) \<Rightarrow> (Inl (wrap_report ''fatal tls processing error'' e), s1)
      | (Inr d, s1) \<Rightarrow>
          if d = [] then (eyre ''TLS packets did not result in payload'', s1)
          else (case tls_unpack process ps s1 of (r, s2) \<Rightarrow> (res_bind r (\<lambda>ms. Inr ((a, d) # ms)), s2)))"

section \<open>What is delivered\<close>

text \<open>
  \<open>law\<close>: the two ends of a TLS connection are in step, and a packet made from a message gives that message at the other
  end. Then a burst arrives as it was sent.
\<close>

lemma tls_round_trip:
  assumes law: "\<And>s r m. sync s r \<Longrightarrow> m \<noteq> [] \<Longrightarrow> \<exists>s1 s2 p r1. write s m = (Inr (), s1) \<and> flush s1 = (Inr p, s2) \<and> process r p = (Inr m, r1) \<and> sync s2 r1"
  shows "sync s r \<Longrightarrow> \<forall>x \<in> set ms. snd x \<noteq> [] \<Longrightarrow>
    \<exists>ps s1 r1. tls_packets write flush ms s = (ps, None, s1) \<and> tls_unpack process ps r = (Inr ms, r1) \<and> sync s1 r1"
proof (induction ms arbitrary: s r)
  case (Cons x ms)
  obtain a m where x: "x = (a, m)" by (cases x)
  from law [OF Cons.prems(1), of m] Cons.prems(2) x obtain s1 s2 p r1 where
    p: "write s m = (Inr (), s1)" "flush s1 = (Inr p, s2)" "process r p = (Inr m, r1)" "sync s2 r1" by auto
  from Cons.IH [OF p(4)] Cons.prems(2) obtain ps s3 r3 where
    "tls_packets write flush ms s2 = (ps, None, s3)" "tls_unpack process ps r1 = (Inr ms, r3)" "sync s3 r3" by auto
  then show ?case using p Cons.prems(2) x by simp
qed simp

text \<open>
  A packet without payload, as the library sends to renew keys or to resume sessions, or a part of a longer record,
  fails the receive, with the messages of the packets before it.
\<close>

lemma no_payload_fails_recv:
  assumes "process s p = (Inr d, s1)" "d \<noteq> []" "process s1 q = (Inr [], s2)"
  shows "fst (tls_unpack process ((a, p) # (b, q) # ps) s) = eyre ''TLS packets did not result in payload''"
  using assms by simp

text \<open>While the library has room, QUIC takes the messages of a burst in order.\<close>

lemma quic_send_all:
  assumes "\<And>s m. \<exists>s1. dgram s m = (Taken, s1)"
  shows "fst (quic_send dgram drain ms s) = ms"
proof (induction ms arbitrary: s)
  case (Cons m ms)
  obtain s1 where "dgram s m = (Taken, s1)" using assms by blast
  then show ?case using Cons.IH by simp
qed (simp split: prod.splits)

text \<open>When the buffer of the library is full, room is made for the next message, but this one is dropped without an error.\<close>

lemma full_buffer_drops:
  assumes "dgram s m = (Full, s1)" "drain s1 = (Inr (), s2)" "drain s2 = (Inr (), s3)"
  shows "quic_send dgram drain [m] s = ([], Inr (), s3)"
  using assms by simp

text \<open>A message from below is taken whole when the library takes some of it each time.\<close>

lemma feed_msg_returns: "0 < n \<Longrightarrow> len \<le> processed + n * k \<Longrightarrow> feed_msg len (replicate k (Inr n)) processed = Some (Inr ())"
proof (induction k arbitrary: processed)
  case (Suc k)
  then show ?case by (simp add: algebra_simps)
qed simp

text \<open>A receive returns at least one message, at most as many as there is room for.\<close>

lemma take_dgrams_bound:
  "take_dgrams room rets got = Some (Inr ms) \<Longrightarrow> length got \<le> room \<Longrightarrow> 0 < room \<Longrightarrow> 0 < length ms \<and> length ms \<le> room"
  by (induction room rets got rule: take_dgrams.induct) (auto split: if_splits sum.splits option.splits)

end
