(* ===== verification/Rpc_Bench.thy ===== *)
theory Rpc_Bench
  imports Kvstore Log_Parser "HOL-Library.Sublist"
begin

text \<open>
  The libraries of the measurement programs: the ping protocol of \<open>rpcbench/src/lib.rs\<close>, server and client, and the
  workloads of \<open>kvstore-ycsb/src/lib.rs\<close>. Random numbers, clocks and connections are what the environment gives:
  parameters of the operations. Durations are in microseconds. Lines are ASCII.
\<close>

section \<open>Numbers and words of a line\<close>

text \<open>\<open>u64::from_str\<close> of the standard library: digits, after an optional plus sign, of a number that fits.\<close>

definition is_digit :: "char \<Rightarrow> bool" where
  "is_digit c = (48 \<le> (of_char c :: nat) \<and> (of_char c :: nat) \<le> 57)"

definition parse_u64 :: "string \<Rightarrow> u64 result" where
  "parse_u64 s =
     (let ds = (case s of c # r \<Rightarrow> if c = CHR ''+'' then r else s | [] \<Rightarrow> []) in
      if ds \<noteq> [] \<and> list_all is_digit ds \<and> read_nat ds < 2 ^ 64 then Inr (of_nat (read_nat ds))
      else eyre ''ParseIntError'')"

text \<open>\<open>str::split_whitespace\<close>\<close>

definition is_ws :: "char \<Rightarrow> bool" where
  "is_ws c = ((of_char c :: nat) \<in> {9, 10, 11, 12, 13, 32})"

definition split_whitespace :: "string \<Rightarrow> string list" where
  "split_whitespace s = filter (\<lambda>w. w \<noteq> []) (split_at (CHR '' '') (map (\<lambda>c. if is_ws c then CHR '' '' else c) s))"

lemma show_nat_digits: "list_all is_digit (show_nat n)"
proof (induction n rule: show_nat.induct)
  case (1 n)
  have d: "is_digit (char_of (48 + n mod 10))" "n < 10 \<Longrightarrow> is_digit (char_of (48 + n))"
    by (simp_all add: is_digit_def of_char_of)
  show ?case using 1 d by (subst show_nat.simps) auto
qed

lemma show_nat_not_Nil: "show_nat n \<noteq> []"
  by (subst show_nat.simps) simp

lemma parse_show_u64: "parse_u64 (show_nat (unat n)) = Inr n"
proof -
  obtain c r where s: "show_nat (unat n) = c # r" using show_nat_not_Nil by (cases "show_nat (unat n)") auto
  have "is_digit c" using show_nat_digits [of "unat n"] s by simp
  then have "c \<noteq> CHR ''+''" by (auto simp: is_digit_def)
  moreover have "read_nat (c # r) = unat n" using s read_show_nat [of "unat n"] by simp
  moreover have "list_all is_digit (c # r)" using show_nat_digits [of "unat n"] s by simp
  ultimately show ?thesis using unsigned_less [of n] by (simp add: parse_u64_def s)
qed

lemma digit_not_ws: "is_digit c \<Longrightarrow> \<not> is_ws c"
  by (auto simp: is_digit_def is_ws_def)

definition plain_word :: "string \<Rightarrow> bool" where
  "plain_word w = (w \<noteq> [] \<and> list_all (\<lambda>c. \<not> is_ws c) w)"

lemma plain_show_nat: "plain_word (show_nat n)"
  using show_nat_digits [of n] show_nat_not_Nil [of n] digit_not_ws
  by (auto simp: plain_word_def list_all_iff)

lemma is_ws_space [simp]: "is_ws (CHR '' '')"
  by (simp add: is_ws_def)

lemma plain_map: "plain_word w \<Longrightarrow> map (\<lambda>c. if is_ws c then CHR '' '' else c) w = w"
  by (auto simp: plain_word_def list_all_iff intro: map_idI)

lemma plain_no_space: "plain_word w \<Longrightarrow> CHR '' '' \<notin> set w"
  by (auto simp: plain_word_def list_all_iff)

lemma map_join_plain:
  "list_all plain_word ws \<Longrightarrow>
   map (\<lambda>c. if is_ws c then CHR '' '' else c) (join_with (CHR '' '') ws) = join_with (CHR '' '') ws"
  by (induction "CHR '' ''" ws rule: join_with.induct) (simp_all add: plain_map)

lemma split_plain:
  assumes "ws \<noteq> []" "list_all plain_word ws"
  shows "split_whitespace (join_with (CHR '' '') ws) = ws"
proof -
  have "\<forall>w \<in> set ws. CHR '' '' \<notin> set w" using assms(2) plain_no_space by (auto simp: list_all_iff)
  then have "split_at (CHR '' '') (join_with (CHR '' '') ws) = ws" by (rule split_join [OF assms(1)])
  moreover have "filter (\<lambda>w. w \<noteq> []) ws = ws" using assms(2) by (auto simp: list_all_iff plain_word_def)
  ultimately show ?thesis unfolding split_whitespace_def map_join_plain [OF assms(2)] by simp
qed

section \<open>Messages of the ping protocol\<close>

datatype work =
    Immediate
  | Const u64
  | Poisson u64
  | BusyTimeConst u64
  | BusyWorkConst u64

definition work_from_str :: "string \<Rightarrow> work result" where
  "work_from_str s =
     (case split_at (CHR '':'') s of
        [v] \<Rightarrow> if v = ''immediate'' \<or> v = ''imm'' then Inr Immediate else eyre ''Could not parse work''
      | [v, amt] \<Rightarrow>
          if v = ''const'' then res_bind (parse_u64 amt) (\<lambda>n. Inr (Const n))
          else if v = ''poisson'' then res_bind (parse_u64 amt) (\<lambda>n. Inr (Poisson n))
          else if v = ''busytime'' \<or> v = ''bt'' then res_bind (parse_u64 amt) (\<lambda>n. Inr (BusyTimeConst n))
          else if v = ''busywork'' \<or> v = ''bw'' then res_bind (parse_u64 amt) (\<lambda>n. Inr (BusyWorkConst n))
          else eyre ''Could not parse work''
      | _ \<Rightarrow> eyre ''Could not parse work'')"

text \<open>The argument that a user gives for a piece of work.\<close>

fun work_arg :: "work \<Rightarrow> string" where
  "work_arg Immediate = ''immediate''"
| "work_arg (Const n) = ''const:'' @ show_nat (unat n)"
| "work_arg (Poisson n) = ''poisson:'' @ show_nat (unat n)"
| "work_arg (BusyTimeConst n) = ''busytime:'' @ show_nat (unat n)"
| "work_arg (BusyWorkConst n) = ''busywork:'' @ show_nat (unat n)"

lemma split_number: "split_at (CHR '':'') (show_nat n) = [show_nat n]"
proof (rule split_at_word)
  show "CHR '':'' \<notin> set (show_nat n)"
    using show_nat_digits [of n] by (auto simp: list_all_iff is_digit_def)
qed

lemma work_arg_parses: "work_from_str (work_arg w) = Inr w"
  by (cases w) (simp_all add: work_from_str_def split_number parse_show_u64)

record ping_params =
  work :: work
  padding :: bytes

text \<open>A \<open>Pong\<close> is the time that the server took, an \<open>i64\<close>.\<close>

datatype rpc_msg = Ping u64 ping_params | Pong u64 int

definition ping_into :: "u64 \<Rightarrow> ping_params \<Rightarrow> rpc_msg" where
  "ping_into get_id p = Ping get_id p"

definition pong_with_id :: "u64 \<Rightarrow> int \<Rightarrow> rpc_msg" where
  "pong_with_id i p = Pong i p"

fun rpc_id :: "rpc_msg \<Rightarrow> u64" where
  "rpc_id (Ping i _) = i"
| "rpc_id (Pong i _) = i"

section \<open>The server\<close>

text \<open>
  \<open>do_ping\<close>. \<open>pois\<close> is a sample of the Poisson distribution of a mean, or why there is none; \<open>extra\<close> is the time
  that passes beyond what the work asks for. The counter is an \<open>AtomicUsize\<close>, which wraps.
\<close>

fun work_time :: "(u64 \<Rightarrow> nat result) \<Rightarrow> work \<Rightarrow> nat result" where
  "work_time pois Immediate = Inr 0"
| "work_time pois (Const amt) = Inr (unat amt)"
| "work_time pois (Poisson amt) = pois amt"
| "work_time pois (BusyTimeConst amt) = Inr (unat amt)"
| "work_time pois (BusyWorkConst amt) = Inr 0"

definition do_ping :: "(u64 \<Rightarrow> nat result) \<Rightarrow> nat \<Rightarrow> ping_params \<Rightarrow> u64 \<Rightarrow> int result \<times> u64" where
  "do_ping pois extra p req_cnt =
     (res_bind (work_time pois (work p)) (\<lambda>t.
        if t + extra < 2 ^ 63 then Inr (int (t + extra)) else Inl (Panic ''u128 to i64 cast'')),
      req_cnt + 1)"

text \<open>
  The loop of \<open>serve\<close> for a connection. A turn receives a message, with the time \<open>extra\<close> and the result of sending the
  answer, or fails to receive one, or has waited for a second. \<open>trace\<close> is what sending to the trace collector gives,
  where there is one. The result is what has been sent, the counter, and how the loop ended, if it did.
\<close>

datatype 'a serve_event =
    Got 'a rpc_msg nat "unit result"
  | Recv_failed failure
  | Timed_out

fun serve_loop ::
  "(u64 \<Rightarrow> nat result) \<Rightarrow> bool \<Rightarrow> unit result option \<Rightarrow> 'a serve_event list \<Rightarrow> u64 \<Rightarrow>
   ('a \<times> rpc_msg) list \<times> u64 \<times> unit result option" where
  "serve_loop pois timeout_conns trace [] n = ([], n, None)"
| "serve_loop pois timeout_conns trace (Got a (Ping i p) extra sent_r # evs) n =
     (case do_ping pois extra p n of
        (Inl (Panic m), n') \<Rightarrow> ([], n', Some (Inl (Panic m)))
      | (Inl (Err _), n') \<Rightarrow> ([], n', Some (Inl (Panic ''called Result::unwrap on an Err value'')))
      | (Inr ans, n') \<Rightarrow>
          (case sent_r of
             Inl e \<Rightarrow> ([], n', Some (Inl e))
           | Inr _ \<Rightarrow>
               (let (out, n'', r) = serve_loop pois timeout_conns trace evs n'
                in ((a, pong_with_id i ans) # out, n'', r))))"
| "serve_loop pois timeout_conns trace (Got a (Pong i d) extra sent_r # evs) n =
     ([], n, Some (eyre ''Expected PingParams''))"
| "serve_loop pois timeout_conns trace (Recv_failed (Panic m) # evs) n = ([], n, Some (Inl (Panic m)))"
| "serve_loop pois timeout_conns trace (Recv_failed (Err e) # evs) n = ([], n, Some (Inr ()))"
| "serve_loop pois timeout_conns trace (Timed_out # evs) n =
     (if timeout_conns
      then ([], n, Some (case trace of None \<Rightarrow> Inr () | Some r \<Rightarrow> expect ''Receiver won't drop'' r))
      else serve_loop pois timeout_conns trace evs n)"

text \<open>The requests among the events, with the sender and the number that the answer has to carry.\<close>

fun pings_of :: "'a serve_event list \<Rightarrow> ('a \<times> u64) list" where
  "pings_of [] = []"
| "pings_of (Got a (Ping i p) extra sent_r # evs) = (a, i) # pings_of evs"
| "pings_of (_ # evs) = pings_of evs"

text \<open>Whatever happens, the answers go to the senders of the first requests, in order, with their numbers.\<close>

lemma serve_answers_prefix:
  "prefix (map (\<lambda>(a, m). (a, rpc_id m)) (fst (serve_loop pois timeout_conns trace evs n))) (pings_of evs)"
  by (induction pois timeout_conns trace evs n rule: serve_loop.induct)
    (auto simp: do_ping_def pong_with_id_def split: sum.splits prod.splits failure.splits)

text \<open>A connection that has not ended has answered all its requests, and each is counted.\<close>

lemma serve_answers_all:
  "serve_loop pois timeout_conns trace evs n = (out, n', None) \<Longrightarrow>
   map (\<lambda>(a, m). (a, rpc_id m)) out = pings_of evs \<and> n' = n + of_nat (length out)"
  by (induction pois timeout_conns trace evs n arbitrary: out rule: serve_loop.induct)
    (auto simp: do_ping_def pong_with_id_def split: sum.splits prod.splits failure.splits if_splits)

text \<open>The time of an answer is at least what its request asks for.\<close>

lemma serve_takes_time:
  assumes "do_ping pois extra p n = (Inr d, n')" "work_time pois (work p) = Inr t"
  shows "int t \<le> d" "d < 2 ^ 63"
  using assms by (auto simp: do_ping_def split: if_splits)

text \<open>A request for which the distribution has no sample, as one of mean zero, ends the server with a panic.\<close>

lemma bad_mean_panics:
  "pois amt = Inl e \<Longrightarrow>
   \<exists>m n'. serve_loop pois t trace (Got a (Ping i \<lparr>work = Poisson amt, padding = pad\<rparr>) extra s # evs) n =
     ([], n', Some (Inl (Panic m)))"
  by (cases e) (auto simp: do_ping_def)

section \<open>The client\<close>

text \<open>
  The sends of \<open>do_one_ping\<close>: \<open>send k\<close> is what attempt \<open>k\<close> gives. The result has the number of attempts.
\<close>

function ping_send :: "(nat \<Rightarrow> unit result) \<Rightarrow> nat \<Rightarrow> nat result" where
  "ping_send send ctr =
     (case wrap_err ''ping send'' (send ctr) of
        Inr _ \<Rightarrow> Inr (ctr + 1)
      | Inl (Panic m) \<Rightarrow> Inl (Panic m)
      | Inl (Err e) \<Rightarrow> if ctr > 5 then wrap_err ''attempt'' (Inl (Err e)) else ping_send send (ctr + 1))"
  by auto
termination
  by (relation "measure (\<lambda>(send, ctr). 7 - ctr)") auto

declare ping_send.simps [simp del]

text \<open>The loop sends seven times at most: it succeeds when one of the attempts does and none before it panics.\<close>

lemma ping_send_bound: "ping_send send ctr = Inr k \<Longrightarrow> ctr \<le> 6 \<Longrightarrow> ctr < k \<and> k \<le> 7 \<and> send (k - 1) = Inr ()"
proof (induction send ctr arbitrary: k rule: ping_send.induct)
  case (1 send ctr)
  show ?case
  proof (cases "send ctr")
    case (Inr u)
    then show ?thesis using 1(2,3) by (auto simp: ping_send.simps [of send ctr])
  next
    case (Inl e)
    then obtain ms where e: "e = Err ms" "ctr \<le> 5" "ping_send send (ctr + 1) = Inr k"
      using 1(2) by (cases e) (auto simp: ping_send.simps [of send ctr] split: if_splits)
    then show ?thesis using 1(1) [of "Err (''ping send'' # ms)" "''ping send'' # ms" k] Inl by simp
  qed
qed

lemma ping_send_finds:
  assumes "send (ctr + d) = Inr ()" "ctr + d \<le> 6" "\<And>i. i < d \<Longrightarrow> \<exists>ms. send (ctr + i) = Inl (Err ms)"
  shows "ping_send send ctr = Inr (ctr + d + 1)"
  using assms
proof (induction d arbitrary: ctr)
  case 0
  then show ?case by (simp add: ping_send.simps [of send ctr])
next
  case (Suc d)
  obtain ms where "send ctr = Inl (Err ms)" using Suc.prems(3) [of 0] by auto
  moreover have "ping_send send (Suc ctr) = Inr (Suc ctr + d + 1)"
    using Suc.IH [of "Suc ctr"] Suc.prems(1,2) Suc.prems(3) [of "Suc i" for i] by simp
  ultimately show ?case using Suc.prems(2) by (simp add: ping_send.simps [of send ctr])
qed

lemma ping_send_gives_up:
  assumes "\<And>i. i \<le> 6 \<Longrightarrow> \<exists>ms. send i = Inl (Err ms)"
  shows "\<not> is_ok (ping_send send 0)"
proof
  assume "is_ok (ping_send send 0)"
  then obtain k where k: "ping_send send 0 = Inr k" by (auto simp: is_ok_iff)
  then have "send (k - 1) = Inr ()" "k - 1 \<le> 6" using ping_send_bound [OF k] by auto
  with assms [of "k - 1"] show False by auto
qed

text \<open>
  What a client meets: connecting and its time, for each request when it starts, what its sends and its receive
  give, and how long it took.
\<close>

record ping_env =
  pe_connect :: "nat \<Rightarrow> unit result"
  pe_conntime :: "nat \<Rightarrow> nat"
  pe_reqtime :: "nat \<Rightarrow> nat \<Rightarrow> nat"
  pe_send :: "nat \<Rightarrow> nat \<Rightarrow> nat \<Rightarrow> unit result"
  pe_recv :: "nat \<Rightarrow> nat \<Rightarrow> rpc_msg result"
  pe_elapsed :: "nat \<Rightarrow> nat \<Rightarrow> nat"

definition do_one_ping :: "ping_env \<Rightarrow> nat \<Rightarrow> nat \<Rightarrow> (int \<times> int) result" where
  "do_one_ping env iter which =
     res_bind (ping_send (pe_send env iter which) 0) (\<lambda>_.
       res_bind (wrap_err ''pong recv'' (pe_recv env iter which)) (\<lambda>response.
         case response of
           Pong _ p \<Rightarrow>
             if pe_elapsed env iter which < 2 ^ 63 then Inr (int (pe_elapsed env iter which), p)
             else eyre ''TryFromIntError''
         | _ \<Rightarrow> eyre ''Didn't receive Pong''))"

record conn_data =
  cd_idx :: nat
  cd_time :: nat

record datapoint =
  dp_conn :: nat
  dp_req :: nat
  dp_exp :: nat
  dp_rtt :: int
  dp_srv :: int

record ping_data =
  pd_conns :: "conn_data list"
  pd_reqs :: "datapoint list"

text \<open>The quantiles that the programs print. An index is exact while there are fewer than \<open>2 ^ 47\<close> values.\<close>

definition index_at :: "'a list \<Rightarrow> nat \<Rightarrow> 'a result" where
  "index_at xs i = (if i < length xs then Inr (xs ! i) else Inl (Panic ''index out of bounds''))"

fun collect :: "'a result list \<Rightarrow> 'a list result" where
  "collect [] = Inr []"
| "collect (r # rs) = res_bind r (\<lambda>x. res_bind (collect rs) (\<lambda>xs. Inr (x # xs)))"

definition quantile_idx :: "nat \<Rightarrow> nat \<Rightarrow> nat" where
  "quantile_idx len q = len * q div 100"

definition quantiles :: "'a::linorder list \<Rightarrow> 'a list result" where
  "quantiles durs = collect (map (\<lambda>q. index_at (sort durs) (quantile_idx (length durs) q)) [25, 50, 75, 95])"

definition dump_durs :: "ping_data \<Rightarrow> (nat list \<times> int list) result" where
  "dump_durs d =
     res_bind (quantiles (map dp_rtt (pd_reqs d))) (\<lambda>req_quantiles.
       res_bind (quantiles (map cd_time (pd_conns d))) (\<lambda>conn_quantiles. Inr (conn_quantiles, req_quantiles)))"

fun ping_reqs :: "ping_env \<Rightarrow> nat \<Rightarrow> nat list \<Rightarrow> ping_data \<Rightarrow> ping_data result" where
  "ping_reqs env i [] d = Inr d"
| "ping_reqs env i (j # js) d =
     res_bind (do_one_ping env i j) (\<lambda>(tot, srv).
       ping_reqs env i js (d\<lparr>pd_reqs := pd_reqs d @
         [\<lparr>dp_conn = i, dp_req = j, dp_exp = pe_reqtime env i j, dp_rtt = tot, dp_srv = srv\<rparr>]\<rparr>))"

fun ping_iters :: "ping_env \<Rightarrow> nat \<Rightarrow> nat list \<Rightarrow> ping_data \<Rightarrow> ping_data result" where
  "ping_iters env reqs_per_iter [] d = Inr d"
| "ping_iters env reqs_per_iter (i # is) d =
     res_bind (wrap_err ''could not connect'' (pe_connect env i)) (\<lambda>_.
       res_bind (ping_reqs env i [0..<reqs_per_iter] d) (\<lambda>d'.
         ping_iters env reqs_per_iter is
           (d'\<lparr>pd_conns := pd_conns d' @ [\<lparr>cd_idx = i, cd_time = pe_conntime env i\<rparr>]\<rparr>)))"

definition client_ping :: "ping_env \<Rightarrow> nat \<Rightarrow> nat \<Rightarrow> ping_data result" where
  "client_ping env iters reqs_per_iter =
     res_bind (ping_iters env reqs_per_iter [0..<iters] \<lparr>pd_conns = [], pd_reqs = []\<rparr>) (\<lambda>d.
       res_bind (dump_durs d) (\<lambda>_. Inr d))"

text \<open>The rows of the file that \<open>write_durs\<close> writes.\<close>

definition write_durs :: "ping_data \<Rightarrow> (nat \<times> nat \<times> nat \<times> nat \<times> int \<times> int) list" where
  "write_durs d =
     concat (map (\<lambda>c. map (\<lambda>p. (cd_idx c, cd_time c, dp_req p, dp_exp p, dp_rtt p, dp_srv p))
                          (filter (\<lambda>p. dp_conn p = cd_idx c) (pd_reqs d))) (pd_conns d))"

lemma collect_ok_iff: "is_ok (collect rs) \<longleftrightarrow> list_all is_ok rs"
  by (induction rs) (auto simp: is_ok_def res_bind_def split: sum.splits)

lemma quantile_idx_less: "quantile_idx n q < n \<longleftrightarrow> n > 0" if "q < 100"
proof
  assume "n > 0"
  then have "n * q < n * 100" using that by simp
  then show "quantile_idx n q < n" by (simp add: quantile_idx_def less_mult_imp_div_less)
qed simp

text \<open>There are quantiles exactly of a list that is not empty: the programs panic when nothing was measured.\<close>

lemma quantiles_ok_iff: "is_ok (quantiles durs) \<longleftrightarrow> durs \<noteq> []"
  by (simp add: quantiles_def collect_ok_iff index_at_def quantile_idx_less)

lemma quantiles_empty: "panics (quantiles ([] :: 'a::linorder list))"
  by (simp add: quantiles_def index_at_def)

lemma quantiles_value:
  "durs \<noteq> [] \<Longrightarrow> quantiles durs = Inr (map (\<lambda>q. sort durs ! quantile_idx (length durs) q) [25, 50, 75, 95])"
  by (simp add: quantiles_def index_at_def quantile_idx_less)

lemma sorted_nth_at_most: "i < length xs \<Longrightarrow> sorted xs \<Longrightarrow> i < length (filter (\<lambda>x. x \<le> xs ! i) xs)"
proof -
  assume a: "i < length xs" "sorted xs"
  have "filter (\<lambda>x. x \<le> xs ! i) (take (Suc i) xs) = take (Suc i) xs"
    using a by (auto simp: filter_id_conv in_set_conv_nth sorted_nth_mono)
  then have "Suc i \<le> length (filter (\<lambda>x. x \<le> xs ! i) (take (Suc i) xs @ drop (Suc i) xs))"
    using a by (simp only: filter_append) simp
  then show ?thesis by simp
qed

text \<open>Of the values, more than the given share are at most the quantile.\<close>

lemma quantile_share:
  assumes "durs \<noteq> []" "q < 100"
  shows "quantile_idx (length durs) q <
    length (filter (\<lambda>x. x \<le> sort durs ! quantile_idx (length durs) q) durs)"
proof -
  let ?v = "sort durs ! quantile_idx (length durs) q"
  have "quantile_idx (length durs) q < length (filter (\<lambda>x. x \<le> ?v) (sort durs))"
    using sorted_nth_at_most [of "quantile_idx (length durs) q" "sort durs"] assms quantile_idx_less by simp
  then show ?thesis by (metis filter_sort length_sort)
qed

subsection \<open>What is recorded\<close>

abbreviation dp_key :: "datapoint \<Rightarrow> nat \<times> nat" where
  "dp_key p \<equiv> (dp_conn p, dp_req p)"

lemma ping_reqs_keys:
  "ping_reqs env i js d = Inr d' \<Longrightarrow>
   pd_conns d' = pd_conns d \<and> map dp_key (pd_reqs d') = map dp_key (pd_reqs d) @ map (Pair i) js"
  by (induction env i js d rule: ping_reqs.induct) (auto simp: res_bind_Inr_iff)

lemma ping_iters_keys:
  "ping_iters env n is d = Inr d' \<Longrightarrow>
   pd_conns d' = pd_conns d @ map (\<lambda>i. \<lparr>cd_idx = i, cd_time = pe_conntime env i\<rparr>) is \<and>
   map dp_key (pd_reqs d') = map dp_key (pd_reqs d) @ List.product is [0..<n]"
  by (induction env n "is" d rule: ping_iters.induct) (auto simp: res_bind_Inr_iff dest: ping_reqs_keys)

lemma filter_product_fst:
  "distinct is \<Longrightarrow> i \<in> set is \<Longrightarrow> filter (\<lambda>k. fst k = i) (List.product is js) = map (Pair i) js"
proof (induction "is")
  case (Cons x xs)
  have "filter (\<lambda>k. fst k = i) (List.product ys js) = []" if "i \<notin> set ys" for ys
    using that by (auto simp: filter_empty_conv)
  then show ?case using Cons by (cases "i = x") (auto simp: filter_map comp_def)
qed simp

text \<open>
  A client that succeeds has done every request of every connection once, and the file has a row for each,
  connection by connection, in the order of the requests and with the time of its connection.
\<close>

lemma client_ping_rows:
  assumes "client_ping env iters n = Inr d"
  shows "map (\<lambda>(c, t, r, _). (c, t, r)) (write_durs d) = map (\<lambda>(i, j). (i, pe_conntime env i, j)) (List.product [0..<iters] [0..<n])"
    and "iters > 0" and "n > 0"
proof -
  have it: "ping_iters env n [0..<iters] \<lparr>pd_conns = [], pd_reqs = []\<rparr> = Inr d" and dd: "is_ok (dump_durs d)"
    using assms by (auto simp: client_ping_def res_bind_Inr_iff is_ok_iff)
  have c: "pd_conns d = map (\<lambda>i. \<lparr>cd_idx = i, cd_time = pe_conntime env i\<rparr>) [0..<iters]"
    and k: "map dp_key (pd_reqs d) = List.product [0..<iters] [0..<n]"
    using ping_iters_keys [OF it] by simp_all
  have "pd_reqs d \<noteq> []"
    using dd quantiles_ok_iff [of "map dp_rtt (pd_reqs d)"] by (auto simp: dump_durs_def is_ok_iff res_bind_Inr_iff)
  then have "length (List.product [0..<iters] [0..<n]) > 0" unfolding k [symmetric] by simp
  then show "iters > 0" "n > 0" by auto
  have "map dp_key (filter (\<lambda>p. dp_conn p = i) (pd_reqs d)) = map (Pair i) [0..<n]" if "i < iters" for i
  proof -
    have "map dp_key (filter (\<lambda>p. dp_conn p = i) (pd_reqs d)) = filter (\<lambda>k. fst k = i) (map dp_key (pd_reqs d))"
      by (simp add: filter_map comp_def)
    then show ?thesis unfolding k using filter_product_fst [of "[0..<iters]" i "[0..<n]"] that by simp
  qed
  then have "map snd (map dp_key (filter (\<lambda>p. dp_conn p = i) (pd_reqs d))) = map snd (map (Pair i) [0..<n])" if "i < iters" for i
    using that by (simp only:)
  then have "map dp_req (filter (\<lambda>p. dp_conn p = i) (pd_reqs d)) = [0..<n]" if "i < iters" for i
    using that by (simp add: comp_def)
  then have "map (\<lambda>p. (i, t, dp_req p)) (filter (\<lambda>p. dp_conn p = i) (pd_reqs d)) = map (\<lambda>j. (i, t, j)) [0..<n]"
    if "i < iters" for i t
    using that map_map [of "\<lambda>j. (i, t, j)" dp_req, unfolded comp_def] by metis
  then have "map (\<lambda>i. map (\<lambda>p. (i, pe_conntime env i, dp_req p)) (filter (\<lambda>p. dp_conn p = i) (pd_reqs d))) [0..<iters] =
    map (\<lambda>i. map (\<lambda>j. (i, pe_conntime env i, j)) [0..<n]) [0..<iters]"
    by (intro map_cong) simp_all
  then show "map (\<lambda>(c, t, r, _). (c, t, r)) (write_durs d) =
    map (\<lambda>(i, j). (i, pe_conntime env i, j)) (List.product [0..<iters] [0..<n])"
    by (simp add: write_durs_def c map_concat comp_def product_concat_map del: map_eq_conv)
qed

text \<open>Without a connection or without requests the client panics at the end, when it prints the quantiles.\<close>

lemma client_ping_none:
  "panics (client_ping env 0 n)"
  by (simp add: client_ping_def dump_durs_def panics_res_bind quantiles_empty)

end
