(* ===== verification/Ycsb.thy ===== *)
theory Ycsb
  imports Rpc_Bench
begin

text \<open>
  The workloads of the key-value store: \<open>kvstore-ycsb/src/lib.rs\<close>, which reads and paces operations, and the request loop
  of \<open>kvstore-ycsb/src/bin/ycsb.rs\<close>, with the threads it divides the clients among. When ticks come, requests finish and
  other clients stop is up to the environment.
\<close>

section \<open>Operations\<close>

datatype ycsb_op = Get_op u64 string | Update_op u64 string string

fun client_id :: "ycsb_op \<Rightarrow> u64" where
  "client_id (Get_op i _) = i"
| "client_id (Update_op i _ _) = i"

fun op_key :: "ycsb_op \<Rightarrow> string" where
  "op_key (Get_op _ k) = k"
| "op_key (Update_op _ k _) = k"

abbreviation str_bytes :: "string \<Rightarrow> bytes" where
  "str_bytes s \<equiv> map (\<lambda>c. of_nat (of_char c)) s"

text \<open>\<open>exec\<close>, with the number of the request and what sending and receiving give.\<close>

fun op_exec :: "u64 \<Rightarrow> unit result \<Rightarrow> msg result \<Rightarrow> ycsb_op \<Rightarrow> bytes option result" where
  "op_exec i s r (Get_op _ k) = client_get i (str_bytes k) s r"
| "op_exec i s r (Update_op _ k v) = client_update i (str_bytes k) (str_bytes v) s r"

definition op_from_str :: "string \<Rightarrow> ycsb_op result" where
  "op_from_str s =
     (let sp = split_whitespace s in
      if length sp = 3 \<and> sp ! 1 = ''GET'' then res_bind (parse_u64 (sp ! 0)) (\<lambda>i. Inr (Get_op i (sp ! 2)))
      else if length sp = 4 \<and> sp ! 1 = ''UPDATE''
      then res_bind (parse_u64 (sp ! 0)) (\<lambda>i. Inr (Update_op i (sp ! 2) (sp ! 3)))
      else eyre ''Invalid line'')"

text \<open>A line of a workload file.\<close>

fun op_words :: "ycsb_op \<Rightarrow> string list" where
  "op_words (Get_op i k) = [show_nat (unat i), ''GET'', k]"
| "op_words (Update_op i k v) = [show_nat (unat i), ''UPDATE'', k, v]"

definition op_line :: "ycsb_op \<Rightarrow> string" where
  "op_line x = join_with (CHR '' '') (op_words x)"

lemma op_line_parses: "list_all plain_word (op_words x) \<Longrightarrow> op_from_str (op_line x) = Inr x"
  by (cases x) (simp_all only: op_from_str_def op_line_def split_plain op_words.simps list.distinct(2) not_False_eq_True,
      simp_all add: parse_show_u64 numeral_eq_Suc)

text \<open>\<open>ops\<close>: what the lines of a file give; lines that cannot be read or parsed are left out.\<close>

definition ops :: "string result list \<Rightarrow> ycsb_op list" where
  "ops ls = oks (map op_from_str (oks ls))"

lemma oks_Inr: "oks (map Inr xs) = xs"
  by (induction xs) auto

lemma ops_of_lines: "list_all (\<lambda>x. list_all plain_word (op_words x)) xs \<Longrightarrow> ops (map (Inr \<circ> op_line) xs) = xs"
proof -
  assume a: "list_all (\<lambda>x. list_all plain_word (op_words x)) xs"
  have e: "oks (map (Inr \<circ> op_line) xs) = map op_line xs" using oks_Inr [of "map op_line xs"] by simp
  have "map op_from_str (map op_line xs) = map Inr xs" using a by (auto simp: list_all_iff op_line_parses)
  then show ?thesis by (simp only: ops_def e oks_Inr)
qed

text \<open>\<open>group_by_client\<close>, as the loop inserts into the map.\<close>

fun group_from :: "ycsb_op list \<Rightarrow> (u64 \<rightharpoonup> ycsb_op list) \<Rightarrow> (u64 \<rightharpoonup> ycsb_op list)" where
  "group_from [] m = m"
| "group_from (x # xs) m =
     group_from xs (m(client_id x \<mapsto> (case m (client_id x) of None \<Rightarrow> [] | Some l \<Rightarrow> l) @ [x]))"

definition group_by_client :: "ycsb_op list \<Rightarrow> (u64 \<rightharpoonup> ycsb_op list)" where
  "group_by_client accesses = group_from accesses Map.empty"

definition client_ops :: "u64 \<Rightarrow> ycsb_op list \<Rightarrow> ycsb_op list" where
  "client_ops k xs = filter (\<lambda>x. client_id x = k) xs"

lemma group_from_spec:
  "group_from xs m k =
     (if client_ops k xs = [] then m k else Some ((case m k of None \<Rightarrow> [] | Some l \<Rightarrow> l) @ client_ops k xs))"
proof (induction xs arbitrary: m)
  case (Cons x xs)
  show ?case unfolding group_from.simps Cons.IH by (cases "client_id x = k") (auto simp: client_ops_def)
qed (simp add: client_ops_def)

text \<open>A client has its operations in the order of the file, and is there when it has one.\<close>

lemma group_by_client_spec:
  "group_by_client xs k = (if client_ops k xs = [] then None else Some (client_ops k xs))"
  by (simp add: group_by_client_def group_from_spec)

section \<open>Pacing\<close>

text \<open>\<open>const_paced_ops_stream\<close>: an operation per tick, with the number of those after it.\<close>

definition const_paced_ops_stream :: "'t list \<Rightarrow> 'o list \<Rightarrow> (nat \<times> 'o) list" where
  "const_paced_ops_stream ticks xs = map (\<lambda>((_, i), x). (i, x)) (zip (zip ticks (rev [0..<length xs])) xs)"

text \<open>\<open>poisson_paced_ops_stream\<close> makes the same ticker.\<close>

definition poisson_paced_ops_stream :: "'t list \<Rightarrow> 'o list \<Rightarrow> (nat \<times> 'o) list" where
  "poisson_paced_ops_stream ticks xs = map (\<lambda>((_, i), x). (i, x)) (zip (zip ticks (rev [0..<length xs])) xs)"

lemma paced_eq: "const_paced_ops_stream ticks xs = take (length ticks) (zip (rev [0..<length xs]) xs)"
  by (rule nth_equalityI) (auto simp: const_paced_ops_stream_def)

lemma paced_streams_same: "poisson_paced_ops_stream ticks xs = const_paced_ops_stream ticks xs"
  by (simp add: poisson_paced_ops_stream_def const_paced_ops_stream_def)

lemma paced_nth:
  "i < length ticks \<Longrightarrow> i < length xs \<Longrightarrow> const_paced_ops_stream ticks xs ! i = (length xs - Suc i, xs ! i)"
  by (simp add: paced_eq rev_nth)

section \<open>The request loop\<close>

text \<open>
  A turn of \<open>req_loop\<close>: a request in flight has finished (the number counts among those in flight), or the stream of
  operations has given one or its end. The flag is what \<open>done\<close> says after it. Requests in flight are operations.
\<close>

datatype 'o req_event = Finished nat "nat result" | Arrived "(nat \<times> 'o) option"

record 'o req_state =
  durs :: "nat list"
  inflight :: "'o list"

datatype 'o req_turn = Next "'o req_state" | Stop "'o req_state" | Fail failure

definition req_turn :: "'o req_event \<Rightarrow> bool \<Rightarrow> 'o req_state \<Rightarrow> 'o req_turn" where
  "req_turn ev stop s =
     (let check = (\<lambda>s'. if stop then Stop s' else Next s') in
      case ev of
        Finished i r \<Rightarrow>
          if i < length (inflight s)
          then (case r of
                  Inr d \<Rightarrow> check (s\<lparr>durs := durs s @ [d], inflight := take i (inflight s) @ drop (Suc i) (inflight s)\<rparr>)
                | Inl e \<Rightarrow> Fail e)
          else Next s
      | Arrived (Some (remaining_cnt, x)) \<Rightarrow>
          if remaining_cnt > 0 then check (s\<lparr>inflight := inflight s @ [x]\<rparr>) else Stop s
      | Arrived None \<Rightarrow> Stop s)"

text \<open>The loop up to its end: the result, or the state in which it waits.\<close>

fun req_loop :: "('o req_event \<times> bool) list \<Rightarrow> 'o req_state \<Rightarrow> (nat list \<times> nat) result option \<times> 'o req_state" where
  "req_loop [] s = (None, s)"
| "req_loop ((ev, stop) # evs) s =
     (case req_turn ev stop s of
        Next s' \<Rightarrow> req_loop evs s'
      | Stop s' \<Rightarrow> (Some (Inr (durs s', length (inflight s'))), s')
      | Fail e \<Rightarrow> (Some (Inl e), s))"

definition req_start :: "'o req_state" where
  "req_start = \<lparr>durs = [], inflight = []\<rparr>"

fun arrivals :: "('o req_event \<times> bool) list \<Rightarrow> (nat \<times> 'o) list" where
  "arrivals [] = []"
| "arrivals ((Arrived (Some a), _) # evs) = a # arrivals evs"
| "arrivals (_ # evs) = arrivals evs"

definition issued :: "'o req_state \<Rightarrow> nat" where
  "issued s = length (durs s) + length (inflight s)"

definition to_issue :: "(nat \<times> 'o) list \<Rightarrow> nat" where
  "to_issue as = length (filter (\<lambda>a. fst a > 0) as)"

lemma req_turn_issued:
  "req_turn ev stop s = Next s' \<Longrightarrow> issued s' = issued s + to_issue (arrivals [(ev, stop)])"
  "req_turn ev stop s = Stop s' \<Longrightarrow> issued s' = issued s + to_issue (arrivals [(ev, stop)])"
  by (cases ev; auto simp: req_turn_def issued_def to_issue_def split: sum.splits option.splits if_splits)+

lemma arrivals_Cons: "arrivals (e # evs) = arrivals [e] @ arrivals evs"
  by (cases "e # evs" rule: arrivals.cases) auto

text \<open>
  Whatever the order of arrivals and completions, measurements and requests in flight add up to the requests
  issued: all that have arrived with others after them while the loop runs, and a part of them when it has ended.
\<close>

lemma req_loop_issued:
  "req_loop evs s = (r, s') \<Longrightarrow>
   issued s \<le> issued s' \<and> issued s' \<le> issued s + to_issue (arrivals evs) \<and>
   (r = None \<longrightarrow> issued s' = issued s + to_issue (arrivals evs)) \<and>
   (\<forall>ds n. r = Some (Inr (ds, n)) \<longrightarrow> length ds + n = issued s')"
proof (induction evs s rule: req_loop.induct)
  case (2 ev stop evs s)
  have split: "to_issue (arrivals ((ev, stop) # evs)) = to_issue (arrivals [(ev, stop)]) + to_issue (arrivals evs)"
    unfolding arrivals_Cons [of _ evs] to_issue_def by simp
  show ?case
  proof (cases "req_turn ev stop s")
    case (Next t)
    show ?thesis using 2(1) [OF Next] 2(2) Next req_turn_issued(1) [OF Next] unfolding split by auto
  next
    case (Stop t)
    show ?thesis using 2(2) Stop req_turn_issued(2) [OF Stop] unfolding split by (auto simp: issued_def)
  next
    case (Fail e)
    then show ?thesis using 2(2) by auto
  qed
qed (simp add: to_issue_def)

text \<open>A client that has one operation stops without issuing it.\<close>

lemma single_op_not_issued:
  "req_loop ((Arrived (Some (const_paced_ops_stream [t] [x] ! 0)), stop) # evs) req_start = (Some (Inr ([], 0)), req_start)"
  by (simp add: const_paced_ops_stream_def req_turn_def req_start_def)

lemma to_issue_paced: "xs \<noteq> [] \<Longrightarrow> to_issue (const_paced_ops_stream ticks xs) < length xs"
proof -
  assume "xs \<noteq> []"
  have "map fst (const_paced_ops_stream ticks xs) = take (length ticks) (rev [0..<length xs])"
    by (simp add: paced_eq flip: take_map)
  then have "to_issue (const_paced_ops_stream ticks xs) = length (filter (\<lambda>c. c > 0) (take (length ticks) (rev [0..<length xs])))"
    unfolding to_issue_def by (metis (no_types, lifting) comp_apply filter_cong filter_map length_map)
  also have "\<dots> \<le> length (filter (\<lambda>c. c > 0) (rev [0..<length xs]))"
    by (metis append_take_drop_id filter_append le_add1 length_append)
  also have "\<dots> < length (rev [0..<length xs])"
    using \<open>xs \<noteq> []\<close> by (intro length_filter_less [of 0]) auto
  finally show ?thesis by simp
qed

text \<open>The requests that a client issues are fewer than its operations.\<close>

lemma issued_less:
  assumes "arrivals evs = const_paced_ops_stream ticks xs" "xs \<noteq> []" "req_loop evs req_start = (Some (Inr (ds, n)), s')"
  shows "length ds + n < length xs"
  using req_loop_issued [OF assms(3)] to_issue_paced [OF assms(2), of ticks] assms(1)
  by (simp add: req_start_def issued_def)

section \<open>Threads\<close>

text \<open>\<open>do_requests\<close> divides the clients among the threads by their numbers, in the order of the hash map.\<close>

fun deal :: "nat \<Rightarrow> (u64 \<times> 'o list) list \<Rightarrow> (u64 \<times> 'o list) list list \<Rightarrow> (u64 \<times> 'o list) list list result" where
  "deal num_threads [] threads = Inr threads"
| "deal num_threads ((c, xs) # es) threads =
     (if num_threads = 0 then Inl (Panic ''remainder with a divisor of zero'')
      else deal num_threads es
        (threads[unat c mod num_threads := (threads ! (unat c mod num_threads)) @ [(c, xs)]]))"

definition access_by_thread :: "nat \<Rightarrow> (u64 \<times> 'o list) list \<Rightarrow> (u64 \<times> 'o list) list list result" where
  "access_by_thread num_threads es = deal num_threads es (replicate num_threads [])"

lemma deal_spec:
  "num > 0 \<Longrightarrow> length ts = num \<Longrightarrow>
   deal num es ts = Inr (map (\<lambda>k. ts ! k @ filter (\<lambda>e. unat (fst e) mod num = k) es) [0..<num])"
proof (induction es arbitrary: ts)
  case Nil
  then show ?case by (auto intro: nth_equalityI)
next
  case (Cons e es)
  obtain c xs where e: "e = (c, xs)" by (cases e)
  have "unat c mod num < length ts" using Cons.prems by simp
  then show ?case using Cons e by (auto simp: nth_list_update)
qed

text \<open>With a thread at least, thread \<open>k\<close> has the clients whose number is \<open>k\<close> modulo the number of threads.\<close>

lemma access_by_thread_spec:
  "num > 0 \<Longrightarrow> access_by_thread num es = Inr (map (\<lambda>k. filter (\<lambda>e. unat (fst e) mod num = k) es) [0..<num])"
  by (simp add: access_by_thread_def deal_spec)

text \<open>
  \<open>run_thread\<close>: from the results of the request loops of its clients, in the order in which they end, and what
  broadcasting gives, the result of the thread and whether it has told the others to stop.
\<close>

definition run_thread :: "(nat list \<times> nat) result list \<Rightarrow> unit result \<Rightarrow> (nat list \<times> nat) result \<times> bool" where
  "run_thread rs done_send =
     (case rs of
        [] \<Rightarrow> (Inr ([], 0), False)
      | r # rest \<Rightarrow>
          (case wrap_err ''error driving request loop'' r of
             Inl e \<Rightarrow> (Inl e, False)
           | Inr (ds, n) \<Rightarrow>
               if ds = [] then (eyre ''No requests finished'', False)
               else if rest = [] then (Inr (ds, n), False)
               else (case wrap_err ''failed to broadcast experiment termination'' done_send of
                       Inl e \<Rightarrow> (Inl e, False)
                     | Inr _ \<Rightarrow>
                         (res_bind (wrap_err ''error driving request loop'' (collect rest)) (\<lambda>xs.
                            Inr (ds @ concat (map fst xs), n + sum_list (map snd xs))), True))))"

text \<open>The results of the threads, the one of the calling thread first.\<close>

definition join_threads :: "(nat list \<times> nat) result list \<Rightarrow> (nat list \<times> nat) result" where
  "join_threads ts = res_bind (collect ts) (\<lambda>xs. Inr (concat (map fst xs), sum_list (map snd xs)))"

lemma collect_Inr: "collect rs = Inr xs \<longleftrightarrow> rs = map Inr xs"
  by (induction rs arbitrary: xs) (auto simp: res_bind_Inr_iff)

text \<open>A thread that succeeds has the measurements and the requests in flight of all its clients.\<close>

lemma run_thread_total:
  assumes "run_thread rs w = (Inr (ds, n), b)"
  shows "\<exists>xs. rs = map Inr xs \<and> ds = concat (map fst xs) \<and> n = sum_list (map snd xs)"
proof (cases rs)
  case Nil
  then show ?thesis using assms by (simp add: run_thread_def)
next
  case (Cons r rest)
  obtain x where r: "r = Inr x" using assms Cons by (cases r) (auto simp: run_thread_def)
  obtain d1 n1 where x: "x = (d1, n1)" by (cases x)
  show ?thesis
  proof (cases "rest = []")
    case True
    then show ?thesis using assms Cons r x
      by (intro exI [of _ "[x]"]) (auto simp: run_thread_def split: if_splits)
  next
    case False
    then obtain xs where "collect rest = Inr xs" "ds = d1 @ concat (map fst xs)" "n = n1 + sum_list (map snd xs)"
      using assms Cons r x by (auto simp: run_thread_def res_bind_Inr_iff split: if_splits sum.splits)
    then show ?thesis using Cons r x by (intro exI [of _ "x # xs"]) (simp add: collect_Inr)
  qed
qed

text \<open>The client of a thread that has no other stops the clients of no other thread.\<close>

lemma single_client_not_broadcast: "snd (run_thread [r] w) = False"
  by (simp add: run_thread_def split: sum.splits prod.splits)

text \<open>A thread whose first client to end has one operation fails, whatever its other clients have measured.\<close>

lemma single_op_fails_thread:
  "r = fst (req_loop ((Arrived (Some (const_paced_ops_stream [t] [x] ! 0)), stop) # evs) req_start) \<Longrightarrow>
   run_thread (the r # rest) w = (eyre ''No requests finished'', False)"
  by (simp only: single_op_not_issued) (simp add: run_thread_def)

text \<open>\<open>do_loads\<close>, with what the exchange of each operation gives.\<close>

fun do_loads :: "(u64 \<times> unit result \<times> msg result \<times> ycsb_op) list \<Rightarrow> unit result" where
  "do_loads [] = Inr ()"
| "do_loads ((i, s, r, x) # xs) = res_bind (op_exec i s r x) (\<lambda>_. do_loads xs)"

text \<open>\<open>write_results\<close>: the least, the quantiles and the greatest, and the rows of the file.\<close>

definition result_rows :: "nat list \<Rightarrow> nat \<Rightarrow> nat \<Rightarrow> (nat \<times> nat \<times> nat \<times> nat) list" where
  "result_rows ds time_us interarrival = map (\<lambda>d. (interarrival, length ds, time_us div 1000, d)) (sort ds)"

definition write_results ::
  "nat list \<Rightarrow> nat \<Rightarrow> nat \<Rightarrow> (nat \<times> nat list \<times> nat \<times> (nat \<times> nat \<times> nat \<times> nat) list) result" where
  "write_results ds time_us interarrival =
     res_bind (quantiles ds) (\<lambda>qs.
       res_bind (index_at (sort ds) 0) (\<lambda>least.
         res_bind (index_at (sort ds) (length ds - 1)) (\<lambda>greatest.
           Inr (least, qs, greatest, result_rows ds time_us interarrival))))"

lemma sorted_ends:
  assumes "xs \<noteq> []" "sorted xs"
  shows "xs ! 0 = Min (set xs)" "xs ! (length xs - 1) = Max (set xs)"
proof -
  have "xs ! 0 \<le> x" "x \<le> xs ! (length xs - 1)" if "x \<in> set xs" for x
    using that assms by (auto simp: in_set_conv_nth intro!: sorted_nth_mono)
  moreover have "xs ! 0 \<in> set xs" "xs ! (length xs - 1) \<in> set xs" using assms(1) by simp_all
  ultimately show "xs ! 0 = Min (set xs)" "xs ! (length xs - 1) = Max (set xs)"
    by (auto intro: Min_eqI [symmetric] Max_eqI [symmetric])
qed

text \<open>The report has the extremes and a row for each measurement; without measurements there is a panic.\<close>

lemma write_results_value:
  assumes "ds \<noteq> []"
  shows "\<exists>qs rows. write_results ds t i = Inr (Min (set ds), qs, Max (set ds), rows) \<and> length rows = length ds"
proof -
  have "sort ds \<noteq> []" using assms by (metis length_0_conv length_sort)
  then show ?thesis using assms sorted_ends [of "sort ds"] by (simp add: write_results_def result_rows_def quantiles_value index_at_def)
qed

lemma write_results_empty: "panics (write_results [] t i)"
  by (simp add: write_results_def panics_res_bind quantiles_empty)

end
