(* ===== verification/Spec2Isabelle.thy ===== *)
theory Spec2Isabelle
  imports Handshake Redis_Commit Redis_Notify Upgrade_Conn Ordered At_Most_Once Connections Adaptors Codecs Pump
    Sharding Kvstore Kv_Reliability Localname Datapath_Switch Dpdk_Conn Tcp Sqs Pubsub Stack_Optimizer Log_Ingest Queue_Clients Unix_Sockets Shenango_Kv
    Shenango_Client Shenango_Serve Shenango_Negotiate Shenango_Udp Switcher_Lock Dpdk_Iokernel Localname_Static
    Tls_Tunnel Secure_Conn Ycsb
begin

text \<open>
  A verification development for Bertha, a library of communication primitives that compose. A \<^emph>\<open>chunnel\<close>
  (serialization, ordering, sharding, a transport, ...) turns a connection into another one; a program
  writes down a \<^emph>\<open>stack\<close> of chunnels, parts of which are alternatives (\<open>Select\<close>), and the two ends of a
  connection negotiate at run time which alternatives they use. Around the library are control services
  (a registry of local names, shard information in redis), transports (UDP, TCP, DPDK, cloud queues) and
  a key-value store as its main application. This theory joins the component theories; the properties of
  each component stand at the end of its theory.

  \<^bold>\<open>How the parts interact.\<close> \<open>Chunnel_Stack\<close> has stacks and the data of negotiation as the code has them.
  \<open>Offers\<close> enumerates the ways to resolve a stack; \<open>Pick\<close> resolves it on the server against what the
  client can do, \<open>Apply\<close> on the client against what the server has picked. \<open>Monomorphize\<close> runs the choice
  over the offers of a client, \<open>Negotiate_Server\<close> and \<open>Negotiate_Client\<close> are the message handlers around
  it, and \<open>Handshake\<close> states what both sides guarantee together. Without a server, the endpoints meet at
  a backend: \<open>Rendezvous_Backend\<close> is its interface, \<open>Rendezvous\<close> the negotiation and the task that
  monitors it, \<open>Upgrade_Conn\<close> the connection that follows its announcements, and \<open>Redis_Rendezvous\<close>,
  \<open>Redis_Commit\<close>, \<open>Redis_Notify\<close> the backend on redis. The negotiated stack is then a composition of
  connections, which the other theories model one by one. All of them share the conventions of \<open>Prelude\<close>.

  \<^bold>\<open>Theories and sources\<close> (paths under \<open>src/\<close>):
    \<^item> \<open>Chunnel_Stack\<close>: \<open>bertha/src/lib.rs\<close>, \<open>bertha/src/negotiate/mod.rs\<close>; \<open>Offers\<close>, \<open>Pick\<close>, \<open>Apply\<close>: \<open>get_offers.rs\<close>,
      \<open>pick.rs\<close>, \<open>apply.rs\<close> of \<open>bertha/src/negotiate\<close>, one equation per instance of the trait.
    \<^item> \<open>Monomorphize\<close>, \<open>Negotiate_Server\<close>: \<open>server.rs\<close> and \<open>negotiate_picked.rs\<close>; \<open>Negotiate_Client\<close>: \<open>client.rs\<close>.
    \<^item> \<open>Rendezvous_Backend\<close>, \<open>Rendezvous\<close>, \<open>Upgrade_Conn\<close>: \<open>bertha/src/negotiate/rendezvous.rs\<close>.
    \<^item> \<open>Redis_Rendezvous\<close>, \<open>Redis_Commit\<close>, \<open>Redis_Notify\<close>: \<open>redis-basechunnel/src/lib.rs\<close> and its Lua scripts.
    \<^item> \<open>Ordered\<close>: \<open>bertha/src/tagger.rs\<close>; \<open>At_Most_Once\<close>: \<open>atmostonce.rs\<close>; \<open>Codecs\<close>: \<open>bincode.rs\<close>, \<open>either.rs\<close> and part of
      \<open>util.rs\<close>; \<open>Adaptors\<close>: the rest of \<open>util.rs\<close>; \<open>Connections\<close>: \<open>chan_transport.rs\<close>, \<open>split.rs\<close>, \<open>udp.rs\<close>; \<open>Pump\<close>:
      the task of \<open>split.rs\<close> and \<open>and_then_concurrent.rs\<close>.
    \<^item> \<open>Sharding\<close>: \<open>shard-ctl/src\<close>; \<open>Kvstore\<close>, \<open>Kv_Reliability\<close>: \<open>kvstore/src\<close>; \<open>Localname\<close>,
      \<open>Localname_Static\<close>: \<open>localname-ctl/src\<close>, the fast path chosen at run time and at connection time.
    \<^item> \<open>Byte_Order\<close>, \<open>Tcp\<close>: \<open>tcp/src/lib.rs\<close>; \<open>Sqs\<close>: \<open>sqs/src\<close>; \<open>Pubsub\<close>: \<open>gcp-pubsub/src/lib.rs\<close> and
      \<open>queue-steer/src/set_group.rs\<close>; \<open>Queue_Clients\<close>: \<open>kafka/src/lib.rs\<close>, \<open>az-queues/src/lib.rs\<close>.
    \<^item> \<open>Unix_Sockets\<close>: \<open>bertha/src/uds.rs\<close> and \<open>bertha/src/select.rs\<close>.
    \<^item> \<open>Datapath_Switch\<close>, \<open>Switcher_Lock\<close>: \<open>dpdk-direct/src/switcher_lockfree\<close> and \<open>switcher_lock\<close>; \<open>Dpdk_Iokernel\<close>:
      \<open>dpdk-direct/src/dpdk_iokernel.rs\<close>; \<open>Dpdk_Inline\<close>, \<open>Dpdk_Conn\<close>: \<open>dpdk-direct/src/dpdk_inline\<close>, the
      receive queues and rules of the card, and the connections that use them.
    \<^item> \<open>Shenango_Negotiate\<close>, \<open>Shenango_Kv\<close>, \<open>Shenango_Serve\<close>, \<open>Shenango_Client\<close>: \<open>shenango-bertha/src/lib.rs\<close>, the library on a
      runtime with blocking threads: negotiation; reliability; servers and matching; the client without chunnels.
      \<open>Shenango_Udp\<close>: \<open>shenango-chunnel/src/lib.rs\<close>, its transport.
    \<^item> \<open>Tls_Tunnel\<close>: \<open>tls-tunnel/src/ghostunnel\<close> and the fast path fused with it; \<open>Secure_Conn\<close>: \<open>tls-tunnel/src/rustls.rs\<close> and
      \<open>quic-chunnel/src/lib.rs\<close>.
    \<^item> \<open>Stack_Optimizer\<close>: \<open>cx-list-opt/src/lib.rs\<close>; \<open>Log_Parser\<close>, \<open>Log_Ingest\<close>: \<open>elk-app-logparser/src\<close>.
    \<^item> \<open>Rpc_Bench\<close>: \<open>rpcbench/src/lib.rs\<close>, the ping protocol; \<open>Ycsb\<close>: \<open>kvstore-ycsb/src\<close>, workloads and the request loop.

  \<^bold>\<open>How code becomes definitions.\<close> A struct is a record, an enum a datatype. A Rust \<open>Result\<close> is a sum whose
  error side also has \<open>Panic\<close>, so that a failed \<open>assert!\<close>, \<open>unwrap\<close> or index is a value and the absence of
  panics a theorem. A method of a connection is a function on the state the connection keeps. Where the
  code runs in several tasks, threads or clones, each piece of code between two awaits or locks is a function on the shared
  state, an inductive step relation interleaves the pieces, and the properties hold of every reachable
  state. Futures that wait for the outside take a list of events (readiness, messages, timers); a model
  that runs out of events returns \<open>None\<close> for still waiting, and what has to return is shown to return.
  Loops without a bound are partial functions into options.

  \<^bold>\<open>Numbers, time and fuel.\<close> Counters whose overflow the code can meet are words of the width of the code
  (packet numbers, hashes, message lengths, ports); lengths and redis counters are natural numbers. Times
  are natural numbers of milliseconds that the environment chooses. No model is cut off by fuel of its own:
  recursion is structural, or by a measure, or over the events of the environment.

  \<^bold>\<open>What is a parameter.\<close> Code outside the repository is an argument with named laws: serializers (\<open>bincode\<close>,
  \<open>base64\<close>), sockets, the answers of cloud services, the order in which hash maps are walked (a
  permutation), the growth of vectors by the allocator, clocks and the connections below a chunnel. Each
  property with such a law has a witness at a concrete instance.

  \<^bold>\<open>Interfaces.\<close> The locale \<open>picker\<close> (\<open>Pick\<close>) is the contract of a choice on which \<open>monomorphize\<close> relies, \<open>applier\<close>
  (\<open>Apply\<close>) that of applying a nonce, for the plain and the checked application; \<open>codec\<close> (\<open>Codecs\<close>) the round
  trip that serialization, projection and the address shim of the shards promise; \<open>burst_receiver\<close>
  (\<open>Connections\<close>) a receive into a slice of slots; \<open>seq_heap\<close> (\<open>Ordered\<close>) the priority queue of the ordering
  chunnel; \<open>notifier\<close> (\<open>Redis_Notify\<close>) the notification of a backend, for the redis one and the default.

  \<^bold>\<open>What is shown.\<close>
    \<^item> Negotiation: both ends of a handshake use the same two-sided capabilities; what \<open>monomorphize\<close> returns and
      that it never panics; the one way in which a client can panic a server; the invariant of the server's
      connections under interleaved clients; bounds on the number of offers.
    \<^item> Rendezvous: negotiation never panics, the monitoring task keeps handles and entry in step, a send follows the
      announced alternative. On redis: all clients agree on the value of each round, one committer at a time,
      the backend refines a register, a two-party commit completes, and the situations where it hangs.
    \<^item> Chunnels: ordered delivery is a prefix of what was sent, at-most-once delivery, responses match requests,
      steering by address, a split stack is a pair of queues.
    \<^item> Services: client and server agree on shards, the store answers by its history, a reliable request completes
      only by its response, the local fast path is sound.
    \<^item> Transports: TCP framing round trips however the socket cuts the bytes and a receive completes; accepted
      connections reach their peers; cloud queues get a burst in order, and a receive deletes what it returns;
      no datapath is used while it is replaced. On the inline datapath the stashes implement one queue for each
      flow, and the rules of the card follow the open connections.
    \<^item> On Shenango: the two ends of a handshake agree, and information of the server's chunnels reaches those of the
      client; the threads of a shard answer as one store; a request returns only a response to it.
    \<^item> The stack rewriting macro generates code that type checks.
    \<^item> Lemmas after the properties record behaviours that differ from the intent of the code or its comments.

  \<^bold>\<open>Not modelled.\<close> Opening and binding sockets, logging and tracing; the eBPF offload,
  the TLS and QUIC libraries, the bindings to Shenango and DPDK, which are foreign code or bindings to it; making the clients of cloud
  services; the \<open>nom\<close> parser of the rewriting macro; the other measurement programs and test support.
\<close>

end
